(* ===== verification/Prelude.thy ===== *)
theory Prelude
  imports Main "HOL-Library.Word" "HOL-Library.Monad_Syntax"
begin

text \<open>
  Vocabulary shared by the components: the result type of C code that may exit or
  run into undefined behaviour, C strings, the heap interface of \<^verbatim>\<open>malloc\<close> and
  \<^verbatim>\<open>realloc\<close>, and the list facts the component proofs use.
\<close>

section \<open>Collections of rewrite rules\<close>

named_theorems cres_simps \<open>rewrite rules of the result type of C code\<close>
named_theorems cstr_simps \<open>rewrite rules of C strings\<close>

section \<open>Results of C code\<close>

text \<open>
  \<open>Ret v\<close>: the code returns \<open>v\<close>; \<open>Exit n\<close>: it calls \<^verbatim>\<open>exit(n)\<close>; \<open>Fault\<close>: it
  reads or writes outside an allocated object (undefined behaviour in C).
\<close>

datatype 'a cres = Ret 'a | Exit int | Fault

primrec cbind :: "'a cres \<Rightarrow> ('a \<Rightarrow> 'b cres) \<Rightarrow> 'b cres" where
  "cbind (Ret x) f = f x"
| "cbind (Exit n) f = Exit n"
| "cbind Fault f = Fault"

lemma cbind_cong [fundef_cong]:
  "m = m' \<Longrightarrow> (\<And>x. m' = Ret x \<Longrightarrow> f x = g x) \<Longrightarrow> cbind m f = cbind m' g"
  by (cases m') auto

lemma cbind_Ret_conv [cres_simps]:
  "cbind m f = Ret y \<longleftrightarrow> (\<exists>x. m = Ret x \<and> f x = Ret y)"
  by (cases m) auto

lemma cbind_Exit_conv [cres_simps]:
  "cbind m f = Exit n \<longleftrightarrow> m = Exit n \<or> (\<exists>x. m = Ret x \<and> f x = Exit n)"
  by (cases m) auto

lemma cbind_Fault_conv [cres_simps]:
  "cbind m f = Fault \<longleftrightarrow> m = Fault \<or> (\<exists>x. m = Ret x \<and> f x = Fault)"
  by (cases m) auto

lemma cbind_assoc [cres_simps]:
  "cbind (cbind m f) g = cbind m (\<lambda>x. cbind (f x) g)"
  by (cases m) auto

section \<open>Options of pairs\<close>

lemma map_option_apfst_Some [simp]:
  "map_option (apfst f) x = Some (a, b) \<longleftrightarrow> (\<exists>a'. x = Some (a', b) \<and> a = f a')"
  by (cases x) auto

section \<open>C strings\<close>

abbreviation NUL :: char where
  "NUL \<equiv> CHR 0x00"

definition cstr :: "char list \<Rightarrow> string" where
  "cstr buf = takeWhile (\<lambda>c. c \<noteq> NUL) buf"

definition strlen :: "char list \<Rightarrow> nat" where
  "strlen buf = length (cstr buf)"

lemma cstr_no_nul [cstr_simps]: "NUL \<notin> set s \<Longrightarrow> cstr s = s"
  by (auto simp: cstr_def takeWhile_eq_all_conv)

lemma cstr_append_nul [cstr_simps]: "NUL \<notin> set s \<Longrightarrow> cstr (s @ NUL # t) = s"
  by (auto simp: cstr_def takeWhile_append)

lemma nul_notin_cstr [simp]: "NUL \<notin> set (cstr s)"
  by (auto simp: cstr_def dest: set_takeWhileD)

lemma strlen_le: "strlen s \<le> length s"
  by (simp add: strlen_def cstr_def length_takeWhile_le)

lemma nth_cstr: "i < strlen s \<Longrightarrow> s ! i = cstr s ! i"
  by (simp add: strlen_def cstr_def takeWhile_nth)

section \<open>The C heap\<close>

text \<open>
  \<^verbatim>\<open>malloc\<close> is a parameter \<open>al\<close>: \<open>al n\<close> is \<open>None\<close> when it returns NULL, or a block
  with whatever bytes it holds. What the code relies on is that a block has the size
  asked for.
\<close>

type_synonym allocator = "nat \<Rightarrow> char list option"

definition malloc_contract :: "allocator \<Rightarrow> bool" where
  "malloc_contract al \<longleftrightarrow> (\<forall>n b. al n = Some b \<longrightarrow> length b = n)"

definition never_fails :: "allocator \<Rightarrow> bool" where
  "never_fails al \<longleftrightarrow> (\<forall>n. al n \<noteq> None)"

text \<open>\<^verbatim>\<open>realloc\<close> keeps the old content as far as it fits.\<close>

definition realloc :: "allocator \<Rightarrow> char list \<Rightarrow> nat \<Rightarrow> char list option" where
  "realloc al old n = map_option (\<lambda>b. take n old @ drop (length old) b) (al n)"

lemma realloc_length:
  "malloc_contract al \<Longrightarrow> realloc al old n = Some b \<Longrightarrow> length b = n"
  by (auto simp: realloc_def malloc_contract_def)

lemma realloc_take:
  "realloc al old n = Some b \<Longrightarrow> k \<le> length old \<Longrightarrow> k \<le> n \<Longrightarrow> take k b = take k old"
  by (auto simp: realloc_def min_def)

text \<open>
  A computation over the heap \<open>completes\<close> with \<open>P\<close>: it returns a value that satisfies
  \<open>P\<close>, or it exits with status 1 because an allocation failed. It never faults.
\<close>

definition completes :: "allocator \<Rightarrow> 'a cres \<Rightarrow> ('a \<Rightarrow> bool) \<Rightarrow> bool" where
  "completes al m P \<longleftrightarrow>
     (case m of Ret x \<Rightarrow> P x | Exit n \<Rightarrow> n = 1 \<and> \<not> never_fails al | Fault \<Rightarrow> False)"

lemma completes_simps [simp]:
  "completes al (Ret x) P \<longleftrightarrow> P x"
  "completes al (Exit n) P \<longleftrightarrow> n = 1 \<and> \<not> never_fails al"
  "\<not> completes al Fault P"
  by (simp_all add: completes_def)

lemma completes_bind:
  "completes al m P \<Longrightarrow> (\<And>x. m = Ret x \<Longrightarrow> P x \<Longrightarrow> completes al (f x) Q) \<Longrightarrow> completes al (cbind m f) Q"
  by (cases m) auto

lemma completes_mono:
  "completes al m P \<Longrightarrow> (\<And>x. P x \<Longrightarrow> Q x) \<Longrightarrow> completes al m Q"
  by (cases m) auto

lemma completes_cases:
  assumes "completes al m P"
  obtains (ret) x where "m = Ret x" "P x" | (oom) "m = Exit 1" "\<not> never_fails al"
  using assms by (cases m) auto

lemma completes_total: "never_fails al \<Longrightarrow> completes al m (\<lambda>x. x = v) \<Longrightarrow> m = Ret v"
  by (cases m) auto

text \<open>A heap that always has room, filled with zero bytes.\<close>

definition zero_heap :: allocator where
  "zero_heap n = Some (replicate n NUL)"

lemma zero_heap_contract [simp]: "malloc_contract zero_heap"
  by (simp add: malloc_contract_def zero_heap_def)

lemma zero_heap_never_fails [simp]: "never_fails zero_heap"
  by (simp add: never_fails_def zero_heap_def)

section \<open>Writes into arrays\<close>

text \<open>A write outside the array is undefined behaviour.\<close>

definition array_write :: "'a list \<Rightarrow> nat \<Rightarrow> 'a \<Rightarrow> 'a list cres" where
  "array_write xs i v = (if i < length xs then Ret (xs[i := v]) else Fault)"

definition array_read :: "'a list \<Rightarrow> nat \<Rightarrow> 'a cres" where
  "array_read xs i = (if i < length xs then Ret (xs ! i) else Fault)"

lemma array_write_in [cres_simps]: "i < length xs \<Longrightarrow> array_write xs i v = Ret (xs[i := v])"
  by (simp add: array_write_def)

lemma array_read_in [cres_simps]: "i < length xs \<Longrightarrow> array_read xs i = Ret (xs ! i)"
  by (simp add: array_read_def)

subsection \<open>Growable arrays\<close>

text \<open>
  The contract of a growable array: \<open>rep b xs\<close> says that buffer \<open>b\<close> holds the elements
  \<open>xs\<close>. Initialising and pushing stay inside the allocated block, and fail only when
  the heap does.
\<close>

locale growable =
  fixes rep :: "'b \<Rightarrow> 'a list \<Rightarrow> bool"
    and start :: "allocator \<Rightarrow> 'b cres"
    and push :: "allocator \<Rightarrow> 'b \<Rightarrow> 'a \<Rightarrow> 'b cres"
  assumes start_law: "malloc_contract al \<Longrightarrow> completes al (start al) (\<lambda>b. rep b [])"
    and push_law: "malloc_contract al \<Longrightarrow> rep b xs \<Longrightarrow> completes al (push al b x) (\<lambda>b. rep b (xs @ [x]))"
begin

lemma push_then:
  "malloc_contract al \<Longrightarrow> rep b xs \<Longrightarrow> (\<And>b'. push al b x = Ret b' \<Longrightarrow> rep b' (xs @ [x]) \<Longrightarrow> completes al (f b') Q) \<Longrightarrow>
   completes al (cbind (push al b x) f) Q"
  by (rule completes_bind [OF push_law])

lemma push_two:
  "malloc_contract al \<Longrightarrow> rep b xs \<Longrightarrow>
   completes al (cbind (push al b x) (\<lambda>b. push al b y)) (\<lambda>b. rep b (xs @ [x, y]))"
  by (rule push_then) (auto dest: push_law [where x = y])

lemma start_then:
  "malloc_contract al \<Longrightarrow> (\<And>b. start al = Ret b \<Longrightarrow> rep b [] \<Longrightarrow> completes al (f b) Q) \<Longrightarrow>
   completes al (cbind (start al) f) Q"
  by (rule completes_bind [OF start_law])

end

lemma take_Suc_update: "i < length xs \<Longrightarrow> take (Suc i) (xs[i := v]) = take i xs @ [v]"
  by (simp add: take_Suc_conv_app_nth)

end
