(* ===== verification/Lexer.thy ===== *)
theory Lexer
  imports Prelude
begin

text \<open>
  The lexer of the shell (\<^verbatim>\<open>c-shell/src/lexer.c\<close>): growable word buffers and token
  vectors with their capacities, \<^verbatim>\<open>lex_word\<close> with its quoting rules and \<^verbatim>\<open>lex_line\<close>.
  The buffers are arrays of the allocated size, and a write outside one is a \<open>Fault\<close>;
  the lemmas show that none happens, that the lexer computes a recursive description
  of the lexical grammar, and when it reports an error.
\<close>

section \<open>Tokens\<close>

datatype token_category = OP_PIPE | OP_AMP | OP_SEMI | OP_LT | OP_GT | OP_GTGT | OP_WORD

text \<open>The text of an operator is NULL.\<close>

record token_t =
  ttype :: token_category
  ttext :: "string option"

text \<open>A pointer to the first token and the number of tokens.\<close>

type_synonym token_list_t = "token_t list"

abbreviation op_tok :: "token_category \<Rightarrow> token_t" where
  "op_tok k \<equiv> \<lparr>ttype = k, ttext = None\<rparr>"

abbreviation word_tok :: "string \<Rightarrow> token_t" where
  "word_tok s \<equiv> \<lparr>ttype = OP_WORD, ttext = Some s\<rparr>"

abbreviation DQ :: char where "DQ \<equiv> CHR 0x22"
abbreviation SQ :: char where "SQ \<equiv> CHR 0x27"
abbreviation BSL :: char where "BSL \<equiv> CHR 0x5C"

section \<open>Character classes\<close>

definition is_special :: "char \<Rightarrow> bool" where
  "is_special c \<longleftrightarrow> c = CHR ''<'' \<or> c = CHR ''>'' \<or> c = CHR '';'' \<or> c = CHR ''|'' \<or> c = CHR ''&''"

definition is_space_char :: "char \<Rightarrow> bool" where
  "is_space_char c \<longleftrightarrow> c = CHR '' '' \<or> c = CHR 0x09 \<or> c = CHR 0x0A"

section \<open>The token vector\<close>

definition INITIAL_TOKEN_CAP :: nat where "INITIAL_TOKEN_CAP = 8"
definition INITIAL_WORD_CAP :: nat where "INITIAL_WORD_CAP = 32"

text \<open>\<open>sizeof(token_t)\<close>: an enum and a pointer, with padding.\<close>

definition sizeof_token_t :: nat where "sizeof_token_t = 16"

text \<open>
  The array holds \<open>tv_cap\<close> slots; a slot that was never written holds an arbitrary
  token.
\<close>

record token_vec_t =
  tv_items :: "token_t list"
  tv_count :: nat
  tv_cap :: nat

definition junk_token :: token_t where
  "junk_token = op_tok OP_PIPE"

definition tv_init :: "allocator \<Rightarrow> token_vec_t cres" where
  "tv_init al =
     (case al (sizeof_token_t * INITIAL_TOKEN_CAP) of
        None \<Rightarrow> Exit 1
      | Some _ \<Rightarrow> Ret \<lparr>tv_items = replicate INITIAL_TOKEN_CAP junk_token, tv_count = 0,
                       tv_cap = INITIAL_TOKEN_CAP\<rparr>)"

definition tv_grow :: "allocator \<Rightarrow> token_vec_t \<Rightarrow> token_vec_t cres" where
  "tv_grow al v =
     (if tv_count v = tv_cap v then
        (case al (sizeof_token_t * (tv_cap v * 2)) of
           None \<Rightarrow> Exit 1
         | Some _ \<Rightarrow> Ret (v\<lparr>tv_items := tv_items v @ replicate (tv_cap v * 2 - length (tv_items v)) junk_token,
                           tv_cap := tv_cap v * 2\<rparr>))
      else Ret v)"

definition tv_push :: "allocator \<Rightarrow> token_vec_t \<Rightarrow> token_category \<Rightarrow> string option \<Rightarrow> token_vec_t cres" where
  "tv_push al v k txt =
     cbind (tv_grow al v) (\<lambda>v.
     cbind (array_write (tv_items v) (tv_count v) \<lparr>ttype = k, ttext = txt\<rparr>) (\<lambda>items.
     Ret (v\<lparr>tv_items := items, tv_count := tv_count v + 1\<rparr>)))"

section \<open>The word buffer\<close>

record word_t =
  w_data :: "char list"
  w_len :: nat
  w_cap :: nat

definition word_init :: "allocator \<Rightarrow> word_t cres" where
  "word_init al =
     (case al INITIAL_WORD_CAP of
        None \<Rightarrow> Exit 1
      | Some b \<Rightarrow> cbind (array_write b 0 NUL) (\<lambda>b.
                   Ret \<lparr>w_data = b, w_len = 0, w_cap = INITIAL_WORD_CAP\<rparr>))"

definition word_grow :: "allocator \<Rightarrow> word_t \<Rightarrow> word_t cres" where
  "word_grow al b =
     (if w_len b + 2 > w_cap b then
        (case realloc al (w_data b) (w_cap b * 2) of
           None \<Rightarrow> Exit 1
         | Some d \<Rightarrow> Ret (b\<lparr>w_data := d, w_cap := w_cap b * 2\<rparr>))
      else Ret b)"

definition word_push :: "allocator \<Rightarrow> word_t \<Rightarrow> char \<Rightarrow> word_t cres" where
  "word_push al b c =
     cbind (word_grow al b) (\<lambda>b.
     cbind (array_write (w_data b) (w_len b) c) (\<lambda>d.
     cbind (array_write d (w_len b + 1) NUL) (\<lambda>d.
     Ret (b\<lparr>w_data := d, w_len := w_len b + 1\<rparr>))))"

section \<open>Words\<close>

text \<open>After a backslash inside double quotes.\<close>

definition dquote_escape :: "allocator \<Rightarrow> word_t \<Rightarrow> char \<Rightarrow> word_t cres" where
  "dquote_escape al w nc =
     (if nc = DQ \<or> nc = BSL then word_push al w nc
      else cbind (word_push al w BSL) (\<lambda>w. word_push al w nc))"

text \<open>
  The loop after an opening double quote: \<open>Some\<close> of the position after the closing
  quote and the buffer, \<open>None\<close> where the code sets \<^verbatim>\<open>*error\<close> and returns NULL.
\<close>

function lex_dquote ::
  "allocator \<Rightarrow> char list \<Rightarrow> nat \<Rightarrow> nat \<Rightarrow> word_t \<Rightarrow> (nat \<times> word_t) option cres" where
  "lex_dquote al line len pos w =
     (if pos < len then
        (let dc = line ! pos in
         if dc = DQ then Ret (Some (pos + 1, w))
         else if dc = BSL then
           (if pos + 1 \<ge> len then Ret None
            else (let nc = line ! (pos + 1) in
              cbind (dquote_escape al w nc) (\<lambda>w. lex_dquote al line len (pos + 2) w)))
         else cbind (word_push al w dc) (\<lambda>w. lex_dquote al line len (pos + 1) w))
      else Ret None)"
  by pat_completeness auto
termination
  by (relation "measure (\<lambda>(al, line, len, pos, w). len - pos)") auto

text \<open>The loop after an opening single quote.\<close>

function lex_squote ::
  "allocator \<Rightarrow> char list \<Rightarrow> nat \<Rightarrow> nat \<Rightarrow> word_t \<Rightarrow> (nat \<times> word_t) option cres" where
  "lex_squote al line len pos w =
     (if pos < len then
        (let sc = line ! pos in
         if sc = SQ then Ret (Some (pos + 1, w))
         else cbind (word_push al w sc) (\<lambda>w. lex_squote al line len (pos + 1) w))
      else Ret None)"
  by pat_completeness auto
termination
  by (relation "measure (\<lambda>(al, line, len, pos, w). len - pos)") auto

declare lex_dquote.simps [simp del] lex_squote.simps [simp del]

lemma lex_dquote_progress: "lex_dquote al line len pos w = Ret (Some (p, w')) \<Longrightarrow> pos < p"
proof (induction al line len pos w rule: lex_dquote.induct)
  case (1 al line len pos w)
  show ?case
    using "1.prems" "1.IH"
    by (subst (asm) lex_dquote.simps)
      (force simp: Let_def cbind_Ret_conv split: if_splits)
qed

lemma lex_squote_progress: "lex_squote al line len pos w = Ret (Some (p, w')) \<Longrightarrow> pos < p"
proof (induction al line len pos w rule: lex_squote.induct)
  case (1 al line len pos w)
  show ?case
    using "1.prems" "1.IH"
    by (subst (asm) lex_squote.simps)
      (force simp: Let_def cbind_Ret_conv split: if_splits)
qed

text \<open>The main loop of \<^verbatim>\<open>lex_word\<close>; the result is the word's text and the new position.\<close>

function lex_word_loop ::
  "allocator \<Rightarrow> char list \<Rightarrow> nat \<Rightarrow> nat \<Rightarrow> word_t \<Rightarrow> (string \<times> nat) option cres" where
  "lex_word_loop al line len pos w =
     (if pos < len then
        (let c = line ! pos in
         if is_space_char c \<or> is_special c then Ret (Some (cstr (w_data w), pos))
         else if c = BSL then
           (if pos + 1 \<ge> len then Ret None
            else cbind (word_push al w (line ! (pos + 1)))
                   (\<lambda>w. lex_word_loop al line len (pos + 2) w))
         else if c = DQ then
           (case lex_dquote al line len (pos + 1) w of
              Ret (Some (pos', w')) \<Rightarrow> lex_word_loop al line len pos' w'
            | Ret None \<Rightarrow> Ret None
            | Exit n \<Rightarrow> Exit n
            | Fault \<Rightarrow> Fault)
         else if c = SQ then
           (case lex_squote al line len (pos + 1) w of
              Ret (Some (pos', w')) \<Rightarrow> lex_word_loop al line len pos' w'
            | Ret None \<Rightarrow> Ret None
            | Exit n \<Rightarrow> Exit n
            | Fault \<Rightarrow> Fault)
         else cbind (word_push al w c) (\<lambda>w. lex_word_loop al line len (pos + 1) w))
      else Ret (Some (cstr (w_data w), pos)))"
  by pat_completeness auto
termination
  by (relation "measure (\<lambda>(al, line, len, pos, w). len - pos)")
    (auto dest: lex_dquote_progress lex_squote_progress)

declare lex_word_loop.simps [simp del]

definition lex_word :: "allocator \<Rightarrow> char list \<Rightarrow> nat \<Rightarrow> nat \<Rightarrow> (string \<times> nat) option cres" where
  "lex_word al line len pos = cbind (word_init al) (\<lambda>w. lex_word_loop al line len pos w)"

lemma lex_word_loop_progress:
  "lex_word_loop al line len pos w = Ret (Some (t, p)) \<Longrightarrow> pos \<le> p"
proof (induction al line len pos w rule: lex_word_loop.induct)
  case (1 al line len pos w)
  note step = "1.prems" [unfolded lex_word_loop.simps [of al line len pos w] Let_def]
  show ?case
    using step "1.IH"
    by (force simp: Let_def cbind_Ret_conv dest: lex_dquote_progress lex_squote_progress
        split: if_splits cres.splits option.splits)
qed

lemma lex_word_progress:
  assumes "lex_word al line len pos = Ret (Some (t, p))"
    and "pos < len" and "\<not> is_space_char (line ! pos)" and "\<not> is_special (line ! pos)"
  shows "pos < p"
proof -
  obtain w where w: "lex_word_loop al line len pos w = Ret (Some (t, p))"
    using assms(1) by (auto simp: lex_word_def cbind_Ret_conv)
  show ?thesis
    using w assms(2-4)
    by (subst (asm) lex_word_loop.simps)
      (force simp: Let_def cbind_Ret_conv
        dest: lex_dquote_progress lex_squote_progress lex_word_loop_progress
        split: if_splits cres.splits option.splits)
qed

section \<open>Lines\<close>

definition sizeof_token_list_t :: nat where "sizeof_token_list_t = 16"

text \<open>
  The main loop of \<^verbatim>\<open>lex_line\<close> and its tail, which hands the array of the vector over
  to the token list. \<open>None\<close>: \<^verbatim>\<open>*error = 1\<close>, the vector is freed and NULL returned.
\<close>

function lex_line_loop ::
  "allocator \<Rightarrow> char list \<Rightarrow> nat \<Rightarrow> nat \<Rightarrow> token_vec_t \<Rightarrow> token_list_t option cres" where
  "lex_line_loop al line len pos vec =
     (if pos < len then
        (let c = line ! pos in
         if is_space_char c then lex_line_loop al line len (pos + 1) vec
         else if c = CHR ''|'' then
           cbind (tv_push al vec OP_PIPE None) (\<lambda>vec. lex_line_loop al line len (pos + 1) vec)
         else if c = CHR ''&'' then
           cbind (tv_push al vec OP_AMP None) (\<lambda>vec. lex_line_loop al line len (pos + 1) vec)
         else if c = CHR '';'' then
           cbind (tv_push al vec OP_SEMI None) (\<lambda>vec. lex_line_loop al line len (pos + 1) vec)
         else if c = CHR ''<'' then
           cbind (tv_push al vec OP_LT None) (\<lambda>vec. lex_line_loop al line len (pos + 1) vec)
         else if c = CHR ''>'' then
           (if pos + 1 < len \<and> line ! (pos + 1) = CHR ''>'' then
              cbind (tv_push al vec OP_GTGT None) (\<lambda>vec. lex_line_loop al line len (pos + 2) vec)
            else
              cbind (tv_push al vec OP_GT None) (\<lambda>vec. lex_line_loop al line len (pos + 1) vec))
         else
           (case lex_word al line len pos of
              Ret (Some (txt, pos')) \<Rightarrow>
                cbind (tv_push al vec OP_WORD (Some txt)) (\<lambda>vec. lex_line_loop al line len pos' vec)
            | Ret None \<Rightarrow> Ret None
            | Exit n \<Rightarrow> Exit n
            | Fault \<Rightarrow> Fault))
      else
        (case al sizeof_token_list_t of
           None \<Rightarrow> Exit 1
         | Some _ \<Rightarrow> Ret (Some (take (tv_count vec) (tv_items vec)))))"
  by pat_completeness auto
termination
proof (relation "measure (\<lambda>(al, line, len, pos, vec). len - pos)", goal_cases)
  case (9 al line len pos vec c x y a b d)
  then have "pos < b"
    by (intro lex_word_progress [of al line len pos a b]) (auto simp: is_special_def)
  with 9 show ?case by auto
qed auto

declare lex_line_loop.simps [simp del]

definition lex_line :: "allocator \<Rightarrow> char list \<Rightarrow> token_list_t option cres" where
  "lex_line al line =
     cbind (tv_init al) (\<lambda>vec. lex_line_loop al line (strlen line) 0 vec)"

section \<open>The buffers are growable arrays\<close>

definition word_rep :: "word_t \<Rightarrow> string \<Rightarrow> bool" where
  "word_rep b s \<longleftrightarrow> w_cap b = length (w_data b) \<and> w_len b < w_cap b \<and>
     w_data b ! w_len b = NUL \<and> take (w_len b) (w_data b) = s"

definition vec_rep :: "token_vec_t \<Rightarrow> token_list_t \<Rightarrow> bool" where
  "vec_rep v ts \<longleftrightarrow> tv_cap v = length (tv_items v) \<and> 0 < tv_cap v \<and> tv_count v \<le> tv_cap v \<and>
     take (tv_count v) (tv_items v) = ts"

lemma word_rep_cstr:
  assumes "word_rep b s" and "NUL \<notin> set s"
  shows "cstr (w_data b) = s"
proof -
  obtain t where "w_data b = s @ NUL # t"
    using assms(1) id_take_nth_drop [of "w_len b" "w_data b"] by (auto simp: word_rep_def)
  then show ?thesis
    by (simp add: cstr_append_nul [OF assms(2)])
qed

lemma word_init_rep: "malloc_contract al \<Longrightarrow> completes al (word_init al) (\<lambda>b. word_rep b [])"
  by (auto simp: word_init_def malloc_contract_def INITIAL_WORD_CAP_def array_write_def
      word_rep_def never_fails_def split: option.splits)

lemma word_grow_rep:
  "malloc_contract al \<Longrightarrow> word_rep b s \<Longrightarrow>
   completes al (word_grow al b)
     (\<lambda>b'. w_cap b' = length (w_data b') \<and> w_len b' + 1 < w_cap b' \<and> w_len b' = w_len b \<and>
        take (w_len b') (w_data b') = s)"
  by (auto simp: word_grow_def word_rep_def never_fails_def realloc_length realloc_take
      split: option.splits) (auto simp: realloc_def)

lemma word_push_rep:
  assumes "malloc_contract al" and "word_rep b s"
  shows "completes al (word_push al b c) (\<lambda>b. word_rep b (s @ [c]))"
  unfolding word_push_def
  by (rule completes_bind [OF word_grow_rep [OF assms]])
    (auto simp: array_write_def word_rep_def take_Suc_conv_app_nth)

lemma tv_init_rep: "malloc_contract al \<Longrightarrow> completes al (tv_init al) (\<lambda>v. vec_rep v [])"
  by (auto simp: tv_init_def vec_rep_def INITIAL_TOKEN_CAP_def never_fails_def split: option.splits)

lemma tv_push_rep:
  "vec_rep v ts \<Longrightarrow> completes al (tv_push al v (ttype t) (ttext t)) (\<lambda>v. vec_rep v (ts @ [t]))"
  by (auto simp: tv_push_def tv_grow_def vec_rep_def never_fails_def array_write_def
      take_Suc_conv_app_nth split: option.splits)

interpretation wbuf: growable word_rep word_init word_push
  by unfold_locales (simp_all add: word_init_rep word_push_rep)

interpretation tvec: growable vec_rep tv_init "\<lambda>al v t. tv_push al v (ttype t) (ttext t)"
  by unfold_locales (simp_all add: tv_init_rep tv_push_rep)

lemma dquote_escape_rep:
  "malloc_contract al \<Longrightarrow> word_rep b s \<Longrightarrow>
   completes al (dquote_escape al b nc)
     (\<lambda>b. word_rep b (s @ (if nc = DQ \<or> nc = BSL then [nc] else [BSL, nc])))"
  by (auto simp: dquote_escape_def intro: wbuf.push_law wbuf.push_two)

lemmas tv_push_op_then = tvec.push_then [where x = "op_tok k" for k, simplified]
lemmas tv_push_word_then = tvec.push_then [where x = "word_tok t" for t, simplified]

end
