(* ===== verification/Lexer_Spec.thy ===== *)
theory Lexer_Spec
  imports Lexer
begin

text \<open>
  What the lexer of the shell computes. The lexical grammar is a recursion over the
  characters of a line; \<^verbatim>\<open>lex_line\<close> computes it without leaving its buffers, every
  token list has a spelling that lexes back to it, and a lexical error is an unclosed
  quote or a trailing backslash.
\<close>

section \<open>The lexical grammar\<close>

text \<open>
  What the lexer computes, as a recursion over the characters of the line: the body of a
  double-quoted part and the rest of the line, the same for single quotes, a word and the
  rest, and the tokens of a line. \<open>None\<close> is a lexical error.
\<close>

fun dquote_spec :: "string \<Rightarrow> (string \<times> string) option" where
  "dquote_spec [] = None"
| "dquote_spec (c # cs) =
     (if c = DQ then Some ([], cs)
      else if c = BSL then
        (case cs of
           [] \<Rightarrow> None
         | n # ds \<Rightarrow>
             map_option (apfst ((@) (if n = DQ \<or> n = BSL then [n] else [BSL, n]))) (dquote_spec ds))
      else map_option (apfst ((#) c)) (dquote_spec cs))"

fun squote_spec :: "string \<Rightarrow> (string \<times> string) option" where
  "squote_spec [] = None"
| "squote_spec (c # cs) =
     (if c = SQ then Some ([], cs) else map_option (apfst ((#) c)) (squote_spec cs))"

lemma dquote_spec_length: "dquote_spec cs = Some (t, ds) \<Longrightarrow> length ds < length cs"
proof (induction cs arbitrary: t rule: dquote_spec.induct)
  case (2 c cs)
  then show ?case
    by (cases cs) (fastforce split: if_splits)+
qed simp

lemma squote_spec_length: "squote_spec cs = Some (t, ds) \<Longrightarrow> length ds < length cs"
  by (induction cs arbitrary: t) (fastforce split: if_splits)+

function word_spec :: "string \<Rightarrow> (string \<times> string) option" where
  "word_spec [] = Some ([], [])"
| "word_spec (c # cs) =
     (if is_space_char c \<or> is_special c then Some ([], c # cs)
      else if c = BSL then
        (case cs of [] \<Rightarrow> None | n # ds \<Rightarrow> map_option (apfst ((#) n)) (word_spec ds))
      else if c = DQ then
        (case dquote_spec cs of
           None \<Rightarrow> None
         | Some (t, ds) \<Rightarrow> map_option (apfst ((@) t)) (word_spec ds))
      else if c = SQ then
        (case squote_spec cs of
           None \<Rightarrow> None
         | Some (t, ds) \<Rightarrow> map_option (apfst ((@) t)) (word_spec ds))
      else map_option (apfst ((#) c)) (word_spec cs))"
  by pat_completeness auto
termination
  by (relation "measure length") (auto dest!: dquote_spec_length squote_spec_length)

lemma word_spec_SomeE:
  assumes "word_spec (c # cs) = Some (t, ds)"
  obtains (stop) "is_space_char c \<or> is_special c" "t = []" "ds = c # cs"
  | (esc) n es t' where "c = BSL" "cs = n # es" "word_spec es = Some (t', ds)" "t = n # t'"
  | (dq) q es t' where "c = DQ" "dquote_spec cs = Some (q, es)" "word_spec es = Some (t', ds)" "t = q @ t'"
  | (sq) q es t' where "c = SQ" "squote_spec cs = Some (q, es)" "word_spec es = Some (t', ds)" "t = q @ t'"
  | (plain) t' where "word_spec cs = Some (t', ds)" "t = c # t'"
  using assms
  by (simp split: if_split_asm list.split_asm option.split_asm prod.split_asm) (blast | fastforce)+

lemma word_spec_length: "word_spec cs = Some (t, ds) \<Longrightarrow> length ds \<le> length cs"
proof (induction cs arbitrary: t rule: measure_induct_rule [where f = length])
  case (less cs)
  show ?case
  proof (cases cs)
    case Nil
    then show ?thesis using less.prems by simp
  next
    case (Cons c cs')
    show ?thesis
      using less.prems [unfolded Cons]
    proof (cases rule: word_spec_SomeE)
      case (dq q es t')
      then show ?thesis using less.IH [of es] Cons dquote_spec_length [of cs'] by fastforce
    next
      case (sq q es t')
      then show ?thesis using less.IH [of es] Cons squote_spec_length [of cs'] by fastforce
    next
      case (esc n es t')
      then show ?thesis using less.IH [of es t'] Cons by simp
    next
      case (plain t')
      then show ?thesis using less.IH [of cs' t'] Cons by simp
    qed (use Cons in simp)
  qed
qed

lemma word_spec_length_less:
  assumes "word_spec (c # cs) = Some (t, ds)" and "\<not> is_space_char c" and "\<not> is_special c"
  shows "length ds < Suc (length cs)"
  using assms(1)
  by (cases rule: word_spec_SomeE)
    (use assms in \<open>auto dest!: dquote_spec_length squote_spec_length word_spec_length\<close>)

function line_spec :: "string \<Rightarrow> token_list_t option" where
  "line_spec [] = Some []"
| "line_spec (c # cs) =
     (if is_space_char c then line_spec cs
      else if c = CHR ''|'' then map_option ((#) (op_tok OP_PIPE)) (line_spec cs)
      else if c = CHR ''&'' then map_option ((#) (op_tok OP_AMP)) (line_spec cs)
      else if c = CHR '';'' then map_option ((#) (op_tok OP_SEMI)) (line_spec cs)
      else if c = CHR ''<'' then map_option ((#) (op_tok OP_LT)) (line_spec cs)
      else if c = CHR ''>'' then
        (case cs of
           [] \<Rightarrow> map_option ((#) (op_tok OP_GT)) (line_spec cs)
         | n # ds \<Rightarrow>
             if n = CHR ''>'' then map_option ((#) (op_tok OP_GTGT)) (line_spec ds)
             else map_option ((#) (op_tok OP_GT)) (line_spec cs))
      else
        (case word_spec (c # cs) of
           None \<Rightarrow> None
         | Some (t, ds) \<Rightarrow> map_option ((#) (word_tok t)) (line_spec ds)))"
  by pat_completeness auto
termination
  by (relation "measure length")
    (auto simp del: word_spec.simps dest!: word_spec_length_less simp: is_special_def)

declare dquote_spec.simps [simp del] squote_spec.simps [simp del] word_spec.simps [simp del]
  line_spec.simps [simp del]

section \<open>The lexer computes the grammar\<close>

text \<open>The code reads the line by position; the grammar by what is left of it.\<close>

lemma drop_nth: "i < length xs \<Longrightarrow> drop i xs = xs ! i # drop (Suc i) xs"
  by (simp add: Cons_nth_drop_Suc)

lemma nth_not_nul: "NUL \<notin> set xs \<Longrightarrow> i < length xs \<Longrightarrow> xs ! i \<noteq> NUL"
  by (metis nth_mem)

text \<open>What a quote loop must deliver, given what the grammar says.\<close>

definition quote_result ::
  "string \<Rightarrow> string \<Rightarrow> (string \<times> string) option \<Rightarrow> (nat \<times> word_t) option \<Rightarrow> bool" where
  "quote_result l s spec r \<longleftrightarrow>
     (case spec of
        None \<Rightarrow> r = None
      | Some (t, rest) \<Rightarrow> \<exists>p w. r = Some (p, w) \<and> p \<le> length l \<and> drop p l = rest \<and> word_rep w (s @ t))"

lemma quote_result_extend:
  "quote_result l (s @ u) spec r \<Longrightarrow> quote_result l s (map_option (apfst ((@) u)) spec) r"
  by (auto simp: quote_result_def split: option.splits)

lemma quote_result_Cons:
  "quote_result l (s @ [c]) spec r \<Longrightarrow> quote_result l s (map_option (apfst ((#) c)) spec) r"
  by (auto simp: quote_result_def split: option.splits)

lemma lex_squote_correct:
  assumes "malloc_contract al" and "len = length l" and "\<forall>i < len. line ! i = l ! i"
    and "word_rep w s" and "pos \<le> len"
  shows "completes al (lex_squote al line len pos w) (quote_result l s (squote_spec (drop pos l)))"
  using assms
proof (induction al line len pos w arbitrary: s rule: lex_squote.induct)
  case (1 al line len pos w)
  show ?case
  proof (cases "pos < len")
    case True
    with 1 have d: "drop pos l = line ! pos # drop (Suc pos) l"
      by (simp add: drop_nth)
    show ?thesis
    proof (cases "line ! pos = SQ")
      case True
      with 1 d \<open>pos < len\<close> show ?thesis
        by (subst lex_squote.simps) (simp add: squote_spec.simps quote_result_def)
    next
      case False
      have "completes al (cbind (word_push al w (line ! pos)) (lex_squote al line len (pos + 1)))
             (quote_result l s (squote_spec (drop pos l)))"
      proof (rule wbuf.push_then [OF "1.prems"(1,4)])
        fix b
        assume "word_push al w (line ! pos) = Ret b" and "word_rep b (s @ [line ! pos])"
        then have "completes al (lex_squote al line len (pos + 1) b)
            (quote_result l (s @ [line ! pos]) (squote_spec (drop (pos + 1) l)))"
          using "1.IH" [OF \<open>pos < len\<close> refl False] "1.prems" \<open>pos < len\<close> by simp
        then show "completes al (lex_squote al line len (pos + 1) b)
            (quote_result l s (squote_spec (drop pos l)))"
          by (rule completes_mono) (use d False in \<open>simp add: squote_spec.simps quote_result_Cons\<close>)
      qed
      with False \<open>pos < len\<close> show ?thesis
        by (subst lex_squote.simps) simp
    qed
  next
    case False
    with 1 show ?thesis
      by (subst lex_squote.simps) (simp add: squote_spec.simps quote_result_def)
  qed
qed

lemma lex_dquote_correct:
  assumes "malloc_contract al" and "len = length l" and "\<forall>i < len. line ! i = l ! i"
    and "word_rep w s" and "pos \<le> len"
  shows "completes al (lex_dquote al line len pos w) (quote_result l s (dquote_spec (drop pos l)))"
  using assms
proof (induction al line len pos w arbitrary: s rule: lex_dquote.induct)
  case (1 al line len pos w)
  show ?case
  proof (cases "pos < len")
    case pos: True
    with 1 have d: "drop pos l = line ! pos # drop (Suc pos) l"
      by (simp add: drop_nth)
    consider (quote) "line ! pos = DQ"
      | (last) "line ! pos = BSL" "pos + 1 \<ge> len"
      | (esc) "line ! pos = BSL" "\<not> pos + 1 \<ge> len"
      | (other) "line ! pos \<noteq> DQ" "line ! pos \<noteq> BSL"
      by blast
    then show ?thesis
    proof cases
      case quote
      with 1 d pos show ?thesis
        by (subst lex_dquote.simps) (simp add: dquote_spec.simps quote_result_def)
    next
      case last
      with 1 d pos show ?thesis
        by (subst lex_dquote.simps) (simp add: dquote_spec.simps quote_result_def)
    next
      case esc
      define nc where "nc = line ! (pos + 1)"
      define u where "u = (if nc = DQ \<or> nc = BSL then [nc] else [BSL, nc])"
      from esc 1 have d2: "drop (Suc pos) l = nc # drop (pos + 2) l"
        by (simp add: drop_nth nc_def)
      have "completes al (cbind (dquote_escape al w nc) (lex_dquote al line len (pos + 2)))
            (quote_result l s (dquote_spec (drop pos l)))"
      proof (rule completes_bind [OF dquote_escape_rep [OF "1.prems"(1,4), of nc, folded u_def]])
        fix b
        assume "dquote_escape al w nc = Ret b" and "word_rep b (s @ u)"
        then have "completes al (lex_dquote al line len (pos + 2) b)
            (quote_result l (s @ u) (dquote_spec (drop (pos + 2) l)))"
          using "1.IH"(1) [OF pos refl _ esc nc_def] esc "1.prems" by simp
        then show "completes al (lex_dquote al line len (pos + 2) b)
            (quote_result l s (dquote_spec (drop pos l)))"
          by (rule completes_mono)
            (use d d2 esc in \<open>simp add: dquote_spec.simps u_def [symmetric] quote_result_extend\<close>)
      qed
      with esc pos show ?thesis
        by (subst lex_dquote.simps) (simp add: nc_def Let_def)
    next
      case other
      have "completes al (cbind (word_push al w (line ! pos)) (lex_dquote al line len (pos + 1)))
             (quote_result l s (dquote_spec (drop pos l)))"
      proof (rule wbuf.push_then [OF "1.prems"(1,4)])
        fix b
        assume "word_push al w (line ! pos) = Ret b" and "word_rep b (s @ [line ! pos])"
        then have "completes al (lex_dquote al line len (pos + 1) b)
            (quote_result l (s @ [line ! pos]) (dquote_spec (drop (pos + 1) l)))"
          using "1.IH"(2) [OF pos refl] other "1.prems" pos by simp
        then show "completes al (lex_dquote al line len (pos + 1) b)
            (quote_result l s (dquote_spec (drop pos l)))"
          by (rule completes_mono) (use d other in \<open>simp add: dquote_spec.simps quote_result_Cons\<close>)
      qed
      with other pos show ?thesis
        by (subst lex_dquote.simps) simp
    qed
  next
    case False
    with 1 show ?thesis
      by (subst lex_dquote.simps) (simp add: dquote_spec.simps quote_result_def)
  qed
qed

lemma dquote_spec_set: "dquote_spec cs = Some (t, ds) \<Longrightarrow> set t \<subseteq> insert BSL (set cs)"
proof (induction cs arbitrary: t rule: dquote_spec.induct)
  case (2 c cs)
  then show ?case
    by (cases cs) (fastforce simp: dquote_spec.simps split: if_splits)+
qed (simp add: dquote_spec.simps)

lemma squote_spec_set: "squote_spec cs = Some (t, ds) \<Longrightarrow> set t \<subseteq> set cs"
  by (induction cs arbitrary: t) (fastforce simp: squote_spec.simps split: if_splits)+

definition word_result ::
  "string \<Rightarrow> string \<Rightarrow> (string \<times> string) option \<Rightarrow> (string \<times> nat) option \<Rightarrow> bool" where
  "word_result l s spec r \<longleftrightarrow>
     (case spec of
        None \<Rightarrow> r = None
      | Some (t, rest) \<Rightarrow> \<exists>p. r = Some (s @ t, p) \<and> p \<le> length l \<and> drop p l = rest)"

lemma word_result_extend:
  "word_result l (s @ u) spec r \<Longrightarrow> word_result l s (map_option (apfst ((@) u)) spec) r"
  by (auto simp: word_result_def split: option.splits)

lemma word_result_Cons:
  "word_result l (s @ [c]) spec r \<Longrightarrow> word_result l s (map_option (apfst ((#) c)) spec) r"
  by (auto simp: word_result_def split: option.splits)

text \<open>
  After a quoted part the loop goes on behind the closing quote; both kinds of quote
  share this step.
\<close>

lemma word_loop_after_quote:
  assumes q: "completes al m (quote_result l s spec)"
    and none: "spec = None \<Longrightarrow> word_result l s res None"
    and some: "\<And>t p w. m = Ret (Some (p, w)) \<Longrightarrow> spec = Some (t, drop p l) \<Longrightarrow> word_rep w (s @ t) \<Longrightarrow>
        p \<le> length l \<Longrightarrow> completes al (f p w) (word_result l s res)"
  shows "completes al
     (case m of Ret (Some (p, w)) \<Rightarrow> f p w | Ret None \<Rightarrow> Ret None | Exit n \<Rightarrow> Exit n | Fault \<Rightarrow> Fault)
     (word_result l s res)"
  using q
proof (cases rule: completes_cases)
  case (ret x)
  show ?thesis
  proof (cases spec)
    case None
    with ret none show ?thesis by (simp add: quote_result_def)
  next
    case (Some a)
    obtain t rest where "a = (t, rest)" by fastforce
    with Some ret obtain p w where "x = Some (p, w)" "p \<le> length l" "drop p l = rest" "word_rep w (s @ t)"
      by (auto simp: quote_result_def)
    with some [of p w t] Some ret \<open>a = (t, rest)\<close> show ?thesis by simp
  qed
qed simp

lemma word_push_step:
  assumes "malloc_contract al" and "word_rep w s"
    and "\<And>b. word_rep b (s @ [x]) \<Longrightarrow> completes al (f b) (word_result l (s @ [x]) spec)"
  shows "completes al (cbind (word_push al w x) f) (word_result l s (map_option (apfst ((#) x)) spec))"
  by (rule wbuf.push_then [OF assms(1,2)]) (rule completes_mono [OF assms(3) word_result_Cons])

lemma lex_word_loop_correct:
  assumes al: "malloc_contract al" and rd: "\<forall>i < length l. line ! i = l ! i" and l: "NUL \<notin> set l"
    and "word_rep w s" and "pos \<le> length l" and "NUL \<notin> set s"
  shows "completes al (lex_word_loop al line (length l) pos w) (word_result l s (word_spec (drop pos l)))"
  using assms(4-)
proof (induction "length l - pos" arbitrary: pos w s rule: less_induct)
  case less
  let ?lex = "lex_word_loop al line (length l)"
  have IH: "completes al (?lex p b) (word_result l u (word_spec (drop p l)))"
    if "pos < p" "p \<le> length l" "word_rep b u" "NUL \<notin> set u" for p b u
    using less.hyps [of p b u] that by simp
  show ?case
  proof (cases "pos < length l")
    case pos: True
    define c where "c = line ! pos"
    from pos rd l have d: "drop pos l = c # drop (Suc pos) l" and cN: "c \<noteq> NUL"
      by (auto simp: drop_nth c_def nth_not_nul)
    have quote: "completes al
         (case m of Ret (Some (p, w)) \<Rightarrow> ?lex p w
          | Ret None \<Rightarrow> Ret None | Exit n \<Rightarrow> Exit n | Fault \<Rightarrow> Fault)
         (word_result l s (word_spec (drop pos l)))"
      if "completes al m (quote_result l s q)" "\<And>p w. m = Ret (Some (p, w)) \<Longrightarrow> pos < p"
        "\<And>t r. q = Some (t, r) \<Longrightarrow> NUL \<notin> set t"
        "word_spec (drop pos l) = (case q of None \<Rightarrow> None | Some (t, r) \<Rightarrow> map_option (apfst ((@) t)) (word_spec r))"
      for m q
      using that(1)
    proof (rule word_loop_after_quote)
      fix t p b
      assume "m = Ret (Some (p, b))" and q: "q = Some (t, drop p l)" and "word_rep b (s @ t)" "p \<le> length l"
      then show "completes al (?lex p b) (word_result l s (word_spec (drop pos l)))"
        using that(2-) less.prems by (auto intro!: completes_mono [OF IH word_result_extend])
    qed (use that(4) in \<open>simp add: word_result_def\<close>)
    consider (stop) "is_space_char c \<or> is_special c"
      | (last) "\<not> (is_space_char c \<or> is_special c)" "c = BSL" "pos + 1 \<ge> length l"
      | (esc) "\<not> (is_space_char c \<or> is_special c)" "c = BSL" "\<not> pos + 1 \<ge> length l"
      | (dq) "\<not> (is_space_char c \<or> is_special c)" "c = DQ"
      | (sq) "\<not> (is_space_char c \<or> is_special c)" "c = SQ"
      | (other) "\<not> (is_space_char c \<or> is_special c)" "c \<noteq> DQ" "c \<noteq> BSL" "c \<noteq> SQ"
      by blast
    then show ?thesis
    proof cases
      case stop
      with less.prems d pos show ?thesis
        by (subst lex_word_loop.simps)
          (simp add: word_spec.simps word_result_def word_rep_cstr c_def [symmetric])
    next
      case last
      with d pos show ?thesis
        by (subst lex_word_loop.simps) (simp add: word_spec.simps word_result_def c_def [symmetric])
    next
      case esc
      define nc where "nc = line ! Suc pos"
      from esc rd l have d2: "drop (Suc pos) l = nc # drop (pos + 2) l" and "nc \<noteq> NUL"
        by (auto simp: drop_nth nc_def nth_not_nul)
      then have "completes al (cbind (word_push al w nc) (?lex (pos + 2)))
          (word_result l s (map_option (apfst ((#) nc)) (word_spec (drop (pos + 2) l))))"
        using esc less.prems by (intro word_push_step [OF al] IH) auto
      with esc d d2 pos show ?thesis
        by (subst lex_word_loop.simps)
          (simp add: word_spec.simps c_def [symmetric] nc_def [symmetric])
    next
      case dq
      have "completes al (lex_dquote al line (length l) (pos + 1) w)
          (quote_result l s (dquote_spec (drop (pos + 1) l)))"
        using less.prems pos al rd by (intro lex_dquote_correct) auto
      then have "completes al
         (case lex_dquote al line (length l) (pos + 1) w of Ret (Some (p, w)) \<Rightarrow> ?lex p w
          | Ret None \<Rightarrow> Ret None | Exit n \<Rightarrow> Exit n | Fault \<Rightarrow> Fault)
         (word_result l s (word_spec (drop pos l)))"
      proof (rule quote)
        show "NUL \<notin> set t" if "dquote_spec (drop (pos + 1) l) = Some (t, r)" for t r
          using dquote_spec_set [OF that] l by (auto dest: in_set_dropD)
      qed (use dq d in \<open>auto simp: word_spec.simps dest: lex_dquote_progress\<close>)
      with dq pos show ?thesis
        by (subst lex_word_loop.simps) (simp add: c_def [symmetric])
    next
      case sq
      have "completes al (lex_squote al line (length l) (pos + 1) w)
          (quote_result l s (squote_spec (drop (pos + 1) l)))"
        using less.prems pos al rd by (intro lex_squote_correct) auto
      then have "completes al
         (case lex_squote al line (length l) (pos + 1) w of Ret (Some (p, w)) \<Rightarrow> ?lex p w
          | Ret None \<Rightarrow> Ret None | Exit n \<Rightarrow> Exit n | Fault \<Rightarrow> Fault)
         (word_result l s (word_spec (drop pos l)))"
      proof (rule quote)
        show "NUL \<notin> set t" if "squote_spec (drop (pos + 1) l) = Some (t, r)" for t r
          using squote_spec_set [OF that] l by (auto dest: in_set_dropD)
      qed (use sq d in \<open>auto simp: word_spec.simps dest: lex_squote_progress\<close>)
      with sq pos show ?thesis
        by (subst lex_word_loop.simps) (simp add: c_def [symmetric])
    next
      case other
      have "completes al (cbind (word_push al w c) (?lex (pos + 1)))
          (word_result l s (map_option (apfst ((#) c)) (word_spec (drop (pos + 1) l))))"
        using less.prems cN pos by (intro word_push_step [OF al] IH) auto
      with other d pos show ?thesis
        by (subst lex_word_loop.simps) (simp add: word_spec.simps c_def [symmetric])
    qed
  next
    case False
    with less.prems show ?thesis
      by (subst lex_word_loop.simps) (simp add: word_spec.simps word_result_def word_rep_cstr)
  qed
qed

lemma lex_word_correct:
  assumes "malloc_contract al" and "\<forall>i < length l. line ! i = l ! i" and "NUL \<notin> set l" and "pos \<le> length l"
  shows "completes al (lex_word al line (length l) pos) (word_result l [] (word_spec (drop pos l)))"
  unfolding lex_word_def
  by (rule wbuf.start_then [OF assms(1)]) (use assms in \<open>auto intro!: lex_word_loop_correct\<close>)

lemma map_option_append: "map_option ((@) (ts @ [t])) x = map_option ((@) ts) (map_option ((#) t) x)"
  by (cases x) auto

lemma map_option_append_Nil [simp]: "map_option ((@) []) x = x"
  by (cases x) auto

lemma tv_push_step:
  assumes "malloc_contract al" and "vec_rep v ts"
    and "\<And>v. vec_rep v (ts @ [t]) \<Longrightarrow> completes al (f v) (\<lambda>r. r = map_option ((@) (ts @ [t])) spec)"
  shows "completes al (cbind (tv_push al v (ttype t) (ttext t)) f)
     (\<lambda>r. r = map_option ((@) ts) (map_option ((#) t) spec))"
  by (rule tvec.push_then [OF assms(1,2)]) (rule assms(3) [unfolded map_option_append])

lemmas tv_push_op = tv_push_step [where t = "op_tok k" for k, simplified]
lemmas tv_push_word = tv_push_step [where t = "word_tok u" for u, simplified]

lemma lex_line_loop_correct:
  assumes al: "malloc_contract al" and rd: "\<forall>i < length l. line ! i = l ! i" and l: "NUL \<notin> set l"
    and "vec_rep vec ts" and "pos \<le> length l"
  shows "completes al (lex_line_loop al line (length l) pos vec)
           (\<lambda>r. r = map_option ((@) ts) (line_spec (drop pos l)))"
  using assms(4-)
proof (induction "length l - pos" arbitrary: pos vec ts rule: less_induct)
  case less
  let ?lex = "lex_line_loop al line (length l)"
  have IH: "completes al (?lex p v) (\<lambda>r. r = map_option ((@) us) (line_spec (drop p l)))"
    if "pos < p" "p \<le> length l" "vec_rep v us" for p v us
    using less.hyps [of p v us] that by simp
  show ?case
  proof (cases "pos < length l")
    case pos: True
    define c where "c = line ! pos"
    from pos rd have d: "drop pos l = c # drop (Suc pos) l"
      by (auto simp: drop_nth c_def)
    have one: "completes al (cbind (tv_push al vec k None) (?lex (pos + 1)))
        (\<lambda>r. r = map_option ((@) ts) (map_option ((#) (op_tok k)) (line_spec (drop (Suc pos) l))))" for k
      using pos less.prems IH [of "Suc pos"] by (intro tv_push_op [OF al]) auto
    consider (space) "is_space_char c"
      | (op) "\<not> is_space_char c" "c \<in> {CHR ''|'', CHR ''&'', CHR '';'', CHR ''<''}"
      | (gt) "\<not> is_space_char c" "c = CHR ''>''"
      | (word) "\<not> is_space_char c" "\<not> is_special c"
      by (auto simp: is_special_def)
    then show ?thesis
    proof cases
      case space
      with d pos less.prems IH [of "Suc pos"] show ?thesis
        by (subst lex_line_loop.simps) (simp add: line_spec.simps c_def [symmetric])
    next
      case op
      with one d pos show ?thesis
        by (subst lex_line_loop.simps) (auto simp: line_spec.simps c_def [symmetric] is_space_char_def)
    next
      case gt
      show ?thesis
      proof (cases "pos + 1 < length l \<and> line ! (pos + 1) = CHR ''>''")
        case True
        then have d2: "drop (Suc pos) l = CHR ''>'' # drop (pos + 2) l"
          using rd [rule_format, of "Suc pos"] by (simp add: drop_nth)
        have "completes al (cbind (tv_push al vec OP_GTGT None) (?lex (pos + 2)))
            (\<lambda>r. r = map_option ((@) ts) (map_option ((#) (op_tok OP_GTGT)) (line_spec (drop (pos + 2) l))))"
          using True less.prems IH [of "pos + 2"] by (intro tv_push_op [OF al]) auto
        with True gt d d2 pos show ?thesis
          by (subst lex_line_loop.simps) (simp add: line_spec.simps c_def [symmetric])
      next
        case False
        then have "drop (Suc pos) l = [] \<or> (\<exists>n ns. drop (Suc pos) l = n # ns \<and> n \<noteq> CHR ''>'')"
          using rd by (cases "Suc pos < length l") (auto simp: drop_nth)
        with False gt d pos one [of OP_GT] show ?thesis
          by (subst lex_line_loop.simps) (auto simp: line_spec.simps c_def [symmetric])
      qed
    next
      case word
      have "completes al (lex_word al line (length l) pos) (word_result l [] (word_spec (c # drop (Suc pos) l)))"
        using lex_word_correct [OF al rd l less.prems(2)] d by simp
      then show ?thesis
      proof (cases rule: completes_cases)
        case (ret x)
        show ?thesis
        proof (cases "word_spec (c # drop (Suc pos) l)")
          case None
          with ret word d pos show ?thesis
            by (subst lex_line_loop.simps)
              (auto simp: line_spec.simps word_result_def is_special_def c_def [symmetric])
        next
          case (Some a)
          with ret obtain t p where x: "x = Some (t, p)" "a = (t, drop p l)" "p \<le> length l"
            by (cases a) (auto simp: word_result_def)
          have "pos < p"
            using lex_word_progress [of al line "length l" pos t p] ret x word pos by (simp add: c_def)
          then have "completes al (cbind (tv_push al vec OP_WORD (Some t)) (?lex p))
              (\<lambda>r. r = map_option ((@) ts) (map_option ((#) (word_tok t)) (line_spec (drop p l))))"
            using less.prems x IH by (intro tv_push_word [OF al]) auto
          with ret x Some word d pos show ?thesis
            by (subst lex_line_loop.simps)
              (auto simp: line_spec.simps is_special_def c_def [symmetric])
        qed
      next
        case oom
        with word pos show ?thesis
          by (subst lex_line_loop.simps) (auto simp: is_special_def c_def [symmetric])
      qed
    qed
  next
    case False
    with less.prems show ?thesis
      by (subst lex_line_loop.simps)
        (auto simp: line_spec.simps vec_rep_def never_fails_def split: option.splits)
  qed
qed

lemma lex_line_correct:
  assumes "malloc_contract al"
  shows "completes al (lex_line al line) (\<lambda>r. r = line_spec (cstr line))"
  unfolding lex_line_def strlen_def
proof (rule tvec.start_then [OF assms])
  fix v
  assume "vec_rep v []"
  then show "completes al (lex_line_loop al line (length (cstr line)) 0 v) (\<lambda>r. r = line_spec (cstr line))"
    using lex_line_loop_correct [OF assms, of "cstr line" line v "[]" 0]
    by (simp add: nth_cstr strlen_def)
qed

section \<open>Lexical errors\<close>

text \<open>The quoting state after a prefix of the line, as an automaton over its characters.\<close>

datatype quote_state = QPlain | QEsc | QDquote | QDquoteEsc | QSquote

fun quote_step :: "char \<Rightarrow> quote_state \<Rightarrow> quote_state" where
  "quote_step c QPlain = (if c = BSL then QEsc else if c = DQ then QDquote else if c = SQ then QSquote else QPlain)"
| "quote_step c QEsc = QPlain"
| "quote_step c QDquote = (if c = DQ then QPlain else if c = BSL then QDquoteEsc else QDquote)"
| "quote_step c QDquoteEsc = QDquote"
| "quote_step c QSquote = (if c = SQ then QPlain else QSquote)"

abbreviation quote_run :: "string \<Rightarrow> quote_state \<Rightarrow> quote_state" where
  "quote_run \<equiv> fold quote_step"

text \<open>\<open>quote_tracks q cs spec\<close>: the automaton started in \<open>q\<close> agrees with what the grammar says.\<close>

definition quote_tracks :: "quote_state \<Rightarrow> string \<Rightarrow> (string \<times> string) option \<Rightarrow> bool" where
  "quote_tracks q cs spec \<longleftrightarrow>
     (case spec of None \<Rightarrow> quote_run cs q \<noteq> QPlain
      | Some (t, ds) \<Rightarrow> quote_run cs q = quote_run ds QPlain)"

lemma quote_tracks_map [simp]: "quote_tracks q cs (map_option (apfst f) spec) = quote_tracks q cs spec"
  by (auto simp: quote_tracks_def split: option.splits)

lemma quote_tracks_Cons: "quote_tracks q (c # cs) spec = quote_tracks (quote_step c q) cs spec"
  by (simp add: quote_tracks_def split: option.splits)

lemma dquote_run: "quote_tracks QDquote cs (dquote_spec cs)"
proof (induction cs rule: dquote_spec.induct)
  case (2 c cs)
  consider "c = DQ" | "c = BSL" "cs = []" | n ds where "c = BSL" "cs = n # ds" | "c \<noteq> DQ" "c \<noteq> BSL"
    by (cases cs) auto
  then show ?case
  proof cases
    case 3
    with 2 show ?thesis by (simp add: dquote_spec.simps(2) quote_tracks_Cons)
  next
    case 4
    with 2 show ?thesis by (simp add: dquote_spec.simps(2) quote_tracks_Cons)
  qed (simp_all add: dquote_spec.simps quote_tracks_def)
qed (simp add: dquote_spec.simps quote_tracks_def)

lemma squote_run: "quote_tracks QSquote cs (squote_spec cs)"
  by (induction cs) (simp_all add: squote_spec.simps quote_tracks_Cons, simp_all add: quote_tracks_def)

lemma special_plain [simp]:
  "is_space_char c \<or> is_special c \<Longrightarrow> quote_step c QPlain = QPlain"
  by (auto simp: is_space_char_def is_special_def)

lemma quote_tracks_trans:
  "quote_tracks q cs spec \<Longrightarrow> (\<And>t ds. spec = Some (t, ds) \<Longrightarrow> quote_tracks QPlain ds (f t ds)) \<Longrightarrow>
   quote_tracks q cs (case spec of None \<Rightarrow> None | Some (t, ds) \<Rightarrow> f t ds)"
  by (auto simp: quote_tracks_def split: option.splits)

lemma word_run: "quote_tracks QPlain cs (word_spec cs)"
proof (induction cs rule: measure_induct_rule [where f = length])
  case (less cs)
  show ?case
  proof (cases cs)
    case Nil
    then show ?thesis by (simp add: word_spec.simps quote_tracks_def)
  next
    case (Cons c cs')
    have quoted: "quote_tracks q cs' (case spec of None \<Rightarrow> None | Some (t, ds) \<Rightarrow> map_option (apfst ((@) t)) (word_spec ds))"
      if "quote_tracks q cs' spec" and "\<And>t ds. spec = Some (t, ds) \<Longrightarrow> length ds < length cs'" for q spec
      using that less.IH Cons by (intro quote_tracks_trans) (auto simp: less_Suc_eq)
    consider "is_space_char c \<or> is_special c" | "c = BSL" "cs' = []" | n ds where "c = BSL" "cs' = n # ds"
      | "c = DQ" | "c = SQ" | "\<not> (is_space_char c \<or> is_special c)" "c \<noteq> DQ" "c \<noteq> BSL" "c \<noteq> SQ"
      by (cases cs') auto
    then show ?thesis
    proof cases
      case 3
      with less.IH [of ds] Cons show ?thesis
        by (simp add: word_spec.simps(2) quote_tracks_Cons is_space_char_def is_special_def)
    next
      case 4
      with quoted [OF dquote_run dquote_spec_length] Cons show ?thesis
        by (simp add: word_spec.simps(2) quote_tracks_Cons is_space_char_def is_special_def)
    next
      case 5
      with quoted [OF squote_run squote_spec_length] Cons show ?thesis
        by (simp add: word_spec.simps(2) quote_tracks_Cons is_space_char_def is_special_def)
    next
      case 6
      with less.IH [of cs'] Cons show ?thesis
        by (simp add: word_spec.simps(2) quote_tracks_Cons)
    qed (use Cons in \<open>simp_all add: word_spec.simps quote_tracks_def is_space_char_def is_special_def\<close>)
  qed
qed

lemma line_run: "line_spec cs = None \<longleftrightarrow> quote_run cs QPlain \<noteq> QPlain"
proof (induction cs rule: measure_induct_rule [where f = length])
  case (less cs)
  show ?case
  proof (cases cs)
    case Nil
    then show ?thesis by (simp add: line_spec.simps)
  next
    case (Cons c cs')
    consider "is_space_char c \<or> is_special c" "c \<noteq> CHR ''>'' \<or> cs' = []" | n ds where "c = CHR ''>''" "cs' = n # ds"
      | "\<not> (is_space_char c \<or> is_special c)"
      by (cases cs') auto
    then show ?thesis
    proof cases
      case 1
      have "line_spec (c # cs') = None \<longleftrightarrow> line_spec cs' = None"
        using 1 by (simp add: line_spec.simps(2) [of c cs'] is_special_def split: list.split) auto
      with 1 less.IH [of cs'] Cons show ?thesis
        by (simp del: quote_step.simps)
    next
      case 2
      with less.IH [of cs'] less.IH [of ds] Cons show ?thesis
        by (simp add: line_spec.simps(2) [of "CHR ''>''"] is_space_char_def)
    next
      case 3
      show ?thesis
      proof (cases "word_spec cs")
        case None
        with 3 Cons word_run [of cs] show ?thesis
          by (simp add: line_spec.simps(2) is_special_def quote_tracks_def)
      next
        case (Some a)
        obtain t ds where a: "a = (t, ds)" by fastforce
        with Some 3 Cons have "length ds < length cs"
          using word_spec_length_less [of c cs' t ds] by simp
        with less.IH [of ds] Some a 3 Cons word_run [of cs] show ?thesis
          by (simp add: line_spec.simps(2) is_special_def quote_tracks_def)
      qed
    qed
  qed
qed

section \<open>Spellings\<close>

text \<open>
  Every list of tokens has a spelling: operators as they are, words with each character
  behind a backslash, the empty word as an empty pair of quotes.
\<close>

fun spell_word :: "string \<Rightarrow> string" where
  "spell_word [] = [DQ, DQ]"
| "spell_word w = concat (map (\<lambda>c. [BSL, c]) w)"

fun spell_token :: "token_t \<Rightarrow> string" where
  "spell_token t =
     (case ttype t of
        OP_PIPE \<Rightarrow> ''|'' | OP_AMP \<Rightarrow> ''&'' | OP_SEMI \<Rightarrow> '';'' | OP_LT \<Rightarrow> ''<'' | OP_GT \<Rightarrow> ''>''
      | OP_GTGT \<Rightarrow> ''>>'' | OP_WORD \<Rightarrow> spell_word (case ttext t of None \<Rightarrow> [] | Some w \<Rightarrow> w))"

definition spell :: "token_list_t \<Rightarrow> string" where
  "spell ts = concat (map (\<lambda>t. spell_token t @ '' '') ts)"

text \<open>The tokens a lexer can produce: words are C strings, operators carry no text.\<close>

definition wf_token :: "token_t \<Rightarrow> bool" where
  "wf_token t \<longleftrightarrow>
     (case ttext t of None \<Rightarrow> ttype t \<noteq> OP_WORD | Some w \<Rightarrow> ttype t = OP_WORD \<and> NUL \<notin> set w)"

lemma word_spec_escaped:
  "word_spec (concat (map (\<lambda>c. [BSL, c]) w) @ CHR '' '' # cs) = Some (w, CHR '' '' # cs)"
  by (induction w) (simp_all add: word_spec.simps is_space_char_def is_special_def)

lemma word_spec_spell: "word_spec (spell_word w @ CHR '' '' # cs) = Some (w, CHR '' '' # cs)"
  using word_spec_escaped [of w]
  by (cases w) (simp_all add: word_spec.simps dquote_spec.simps is_space_char_def is_special_def)

lemma spell_word_first: "\<exists>c cs. spell_word w = c # cs \<and> (c = DQ \<or> c = BSL)"
  by (cases w) auto

lemma line_spec_word:
  assumes "c = DQ \<or> c = BSL" and "word_spec (c # cs) = Some (w, ds)"
  shows "line_spec (c # cs) = map_option ((#) (word_tok w)) (line_spec ds)"
  using assms by (auto simp: line_spec.simps(2) [of c] is_space_char_def)

lemma line_spec_space [simp]: "line_spec (CHR '' '' # cs) = line_spec cs"
  by (simp add: line_spec.simps is_space_char_def)

lemma line_spec_spell_token:
  assumes "wf_token t"
  shows "line_spec (spell_token t @ CHR '' '' # cs) = map_option ((#) t) (line_spec cs)"
proof (cases "ttype t = OP_WORD")
  case True
  with assms obtain w where w: "t = word_tok w"
    by (cases t) (auto simp: wf_token_def split: option.splits)
  obtain c ds where "spell_word w = c # ds" "c = DQ \<or> c = BSL"
    using spell_word_first by blast
  with w word_spec_spell [of w cs] show ?thesis
    by (simp add: line_spec_word [of c])
next
  case False
  with assms have "t = op_tok (ttype t)"
    by (cases t) (auto simp: wf_token_def split: option.splits)
  with False show ?thesis
    by (cases "ttype t") (simp_all add: line_spec.simps(2) [of "CHR ''|''"] line_spec.simps(2) [of "CHR ''&''"]
        line_spec.simps(2) [of "CHR '';''"] line_spec.simps(2) [of "CHR ''<''"] line_spec.simps(2) [of "CHR ''>''"]
        is_space_char_def)
qed

lemma line_spec_spell: "list_all wf_token ts \<Longrightarrow> line_spec (spell ts) = Some ts"
proof (induction ts)
  case Nil
  then show ?case by (simp add: spell_def line_spec.simps)
next
  case (Cons t ts)
  then show ?case
    using line_spec_spell_token [of t "spell ts"] by (simp add: spell_def del: spell_token.simps)
qed

lemma spell_no_nul: "list_all wf_token ts \<Longrightarrow> NUL \<notin> set (spell ts)"
proof (induction ts)
  case (Cons t ts)
  have "NUL \<notin> set (spell_word w)" if "NUL \<notin> set w" for w
    using that by (cases w) auto
  with Cons show ?case
    by (auto simp: spell_def wf_token_def split: option.splits token_category.splits)
qed (simp add: spell_def)

section \<open>Properties of the lexer\<close>

text \<open>
  C1. For any input line and any heap that keeps the contract of \<^verbatim>\<open>malloc\<close>, \<^verbatim>\<open>lex_line\<close>
  returns exactly the tokens of the lexical grammar (or NULL with the error flag set
  where the grammar has no tokens); the only other outcome is the \<^verbatim>\<open>exit(1)\<close> of a
  failed allocation. In particular no write leaves the word buffer or the token
  vector, across all their reallocations.
\<close>

theorem lex_line_grammar:
  assumes "malloc_contract al"
  shows "lex_line al line = Ret (line_spec (cstr line)) \<or> (lex_line al line = Exit 1 \<and> \<not> never_fails al)"
  using lex_line_correct [OF assms, of line] by (cases rule: completes_cases) auto

theorem lex_line_grammar_witness:
  "lex_line zero_heap ''ls -l'' = Ret (Some [word_tok ''ls'', word_tok ''-l''])"
proof -
  have "line_spec (cstr ''ls -l'') = Some [word_tok ''ls'', word_tok ''-l'']"
    by (simp add: cstr_def line_spec.simps word_spec.simps is_space_char_def is_special_def)
  then show ?thesis
    using lex_line_grammar [OF zero_heap_contract, of "''ls -l''"] by simp
qed

text \<open>
  C2. Every sequence of well-formed tokens can be typed: lexing its spelling gives the
  sequence back, so quoting and escaping lose no word and no operator.
\<close>

theorem lex_line_spell:
  assumes "malloc_contract al" and "never_fails al" and "list_all wf_token ts"
  shows "lex_line al (spell ts) = Ret (Some ts)"
  using completes_total [OF assms(2) lex_line_correct [OF assms(1), of "spell ts"]]
    line_spec_spell [OF assms(3)] spell_no_nul [OF assms(3)]
  by (simp add: cstr_no_nul)

theorem lex_line_spell_witness:
  "lex_line zero_heap (spell [word_tok ''a b'', op_tok OP_GTGT, word_tok []]) =
     Ret (Some [word_tok ''a b'', op_tok OP_GTGT, word_tok []])"
  by (rule lex_line_spell) (simp_all add: wf_token_def)

text \<open>
  C3. The lexer reports an error exactly when the line ends inside quotes or right after
  a backslash: the error flag is set if and only if the quoting automaton does not end
  in its plain state.
\<close>

theorem lex_line_error_iff:
  assumes "malloc_contract al" and "never_fails al"
  shows "lex_line al line = Ret None \<longleftrightarrow> quote_run (cstr line) QPlain \<noteq> QPlain"
  using completes_total [OF assms(2) lex_line_correct [OF assms(1), of line]] line_run [of "cstr line"]
  by simp

theorem lex_line_error_iff_witness:
  "lex_line zero_heap [CHR ''a'', DQ, CHR ''b''] = Ret None"
  using lex_line_error_iff [OF zero_heap_contract zero_heap_never_fails, of "[CHR ''a'', DQ, CHR ''b'']"]
  by (simp add: cstr_def)

end
