(* ===== verification/Cstdlib.thy ===== *)
theory Cstdlib
  imports Prelude
begin

text \<open>
  The parts of the C library the programs call: decimal printing and \<^verbatim>\<open>atoi\<close>, bounded
  string copies, \<^verbatim>\<open>getline\<close> over a byte stream, \<^verbatim>\<open>strtok_r\<close>, \<^verbatim>\<open>strstr\<close> and
  \<^verbatim>\<open>strrchr\<close>, each by what the C standard (or glibc, for \<^verbatim>\<open>atoi\<close> out of range)
  says it does.
\<close>

section \<open>Decimal numbers\<close>

definition digit_char :: "nat \<Rightarrow> char" where
  "digit_char d = char_of (48 + d)"

fun show_nat :: "nat \<Rightarrow> string" where
  "show_nat n = (if n < 10 then [digit_char n] else show_nat (n div 10) @ [digit_char (n mod 10)])"

declare show_nat.simps [simp del]

definition show_int :: "int \<Rightarrow> string" where
  "show_int i = (if i < 0 then CHR ''-'' # show_nat (nat (- i)) else show_nat (nat i))"

definition is_digit :: "char \<Rightarrow> bool" where
  "is_digit c \<longleftrightarrow> 48 \<le> (of_char c :: nat) \<and> (of_char c :: nat) \<le> 57"

definition digit_val :: "char \<Rightarrow> nat" where
  "digit_val c = of_char c - 48"

definition digits_val :: "string \<Rightarrow> nat" where
  "digits_val s = foldl (\<lambda>n c. 10 * n + digit_val c) 0 s"

lemma digit_char_digit: "d < 10 \<Longrightarrow> is_digit (digit_char d) \<and> digit_val (digit_char d) = d"
  by (auto simp: is_digit_def digit_val_def digit_char_def)

lemma digits_val_snoc: "digits_val (s @ [c]) = 10 * digits_val s + digit_val c"
  by (simp add: digits_val_def)

lemma show_nat_digits: "list_all is_digit (show_nat n)"
proof (induction n rule: show_nat.induct)
  case (1 n)
  then show ?case
    by (subst show_nat.simps) (simp add: digit_char_digit)
qed

lemma show_nat_nonempty [simp]: "show_nat n \<noteq> []"
  by (subst show_nat.simps) simp

lemma digits_val_show_nat: "digits_val (show_nat n) = n"
proof (induction n rule: show_nat.induct)
  case (1 n)
  show ?case
  proof (cases "n < 10")
    case True
    then show ?thesis
      by (subst show_nat.simps) (simp add: digits_val_def digit_char_digit)
  next
    case False
    with 1 show ?thesis
      by (subst show_nat.simps) (simp add: digits_val_snoc digit_char_digit)
  qed
qed

text \<open>
  \<^verbatim>\<open>atoi\<close> on a string of digits: glibc reads a \<^verbatim>\<open>long\<close> (saturating at its maximum) and
  converts it to a 32-bit \<^verbatim>\<open>int\<close>.
\<close>

definition LONG_MAX :: nat where "LONG_MAX = 2 ^ 63 - 1"

definition to_int32 :: "int \<Rightarrow> int" where
  "to_int32 i = (i + 2 ^ 31) mod 2 ^ 32 - 2 ^ 31"

definition atoi_digits :: "string \<Rightarrow> int" where
  "atoi_digits s = to_int32 (int (min (digits_val s) LONG_MAX))"

lemma to_int32_range: "- (2 ^ 31) \<le> to_int32 i \<and> to_int32 i < 2 ^ 31"
  by (simp add: to_int32_def)

lemma to_int32_id: "- (2 ^ 31) \<le> i \<Longrightarrow> i < 2 ^ 31 \<Longrightarrow> to_int32 i = i"
  by (simp add: to_int32_def)

lemma atoi_show_nat: "n < 2 ^ 31 \<Longrightarrow> atoi_digits (show_nat n) = int n"
  by (simp add: atoi_digits_def digits_val_show_nat LONG_MAX_def to_int32_id)

section \<open>Bounded copies\<close>

text \<open>
  \<^verbatim>\<open>strncpy(dst, s, N - 1); dst[N - 1] = 0\<close> and \<^verbatim>\<open>snprintf(dst, N, "%s", s)\<close> leave the
  first \<open>N - 1\<close> characters of \<open>s\<close>.
\<close>

definition bounded_copy :: "nat \<Rightarrow> string \<Rightarrow> string" where
  "bounded_copy n s = take (n - 1) s"

lemma bounded_copy_length: "0 < n \<Longrightarrow> length (bounded_copy n s) < n"
  by (simp add: bounded_copy_def)

lemma bounded_copy_id: "length s < n \<Longrightarrow> bounded_copy n s = s"
  by (simp add: bounded_copy_def)

section \<open>Lines of a stream\<close>

abbreviation NL :: char where "NL \<equiv> CHR 0x0A"

text \<open>\<^verbatim>\<open>getline\<close>: the next line with its newline, if it has one, and the rest of the stream.\<close>

definition getline :: "string \<Rightarrow> (string \<times> string) option" where
  "getline s =
     (if s = [] then None
      else let l = takeWhile (\<lambda>c. c \<noteq> NL) s; r = dropWhile (\<lambda>c. c \<noteq> NL) s in
        (case r of [] \<Rightarrow> Some (l, []) | _ # r' \<Rightarrow> Some (l @ [NL], r')))"

lemma getline_shorter: "getline s = Some (l, r) \<Longrightarrow> length r < length s"
  using length_dropWhile_le [of "\<lambda>c. c \<noteq> NL" s]
  by (auto simp: getline_def Let_def split: if_splits list.splits)

lemma getline_cases:
  assumes "getline s = Some (l, r)"
  shows "l = s \<and> r = [] \<and> NL \<notin> set s \<and> s \<noteq> [] \<or>
         (\<exists>u. NL \<notin> set u \<and> l = u @ [NL] \<and> s = u @ NL # r)"
proof -
  define u v where "u = takeWhile (\<lambda>c. c \<noteq> NL) s" and "v = dropWhile (\<lambda>c. c \<noteq> NL) s"
  have s: "s = u @ v" and u: "NL \<notin> set u" and v: "v \<noteq> [] \<Longrightarrow> hd v = NL"
    using hd_dropWhile [of "\<lambda>c. c \<noteq> NL" s] by (auto simp: u_def v_def dest: set_takeWhileD)
  have "(case v of [] \<Rightarrow> Some (u, []) | _ # r' \<Rightarrow> Some (u @ [NL], r')) = Some (l, r)" "s \<noteq> []"
    using assms unfolding u_def v_def by (auto simp: getline_def Let_def split: if_splits)
  then show ?thesis
    using s v u by (cases v) auto
qed

lemma getline_None: "getline s = None \<longleftrightarrow> s = []"
  by (simp add: getline_def Let_def split: list.splits)

text \<open>\<^verbatim>\<open>fgets(buf, n, fp)\<close>: a line of at most \<open>n - 1\<close> characters.\<close>

definition fgets :: "nat \<Rightarrow> string \<Rightarrow> (string \<times> string) option" where
  "fgets n s =
     (case getline s of
        None \<Rightarrow> None
      | Some (l, r) \<Rightarrow> if length l < n then Some (l, r) else Some (take (n - 1) s, drop (n - 1) s))"

lemma fgets_length: "fgets n s = Some (l, r) \<Longrightarrow> 0 < n \<Longrightarrow> length l < n"
  by (auto simp: fgets_def split: option.splits if_splits)

lemma fgets_shorter:
  assumes "fgets n s = Some (l, r)" "1 < n"
  shows "length r < length s"
proof -
  obtain l' r' where g: "getline s = Some (l', r')"
    using assms(1) by (auto simp: fgets_def split: option.splits)
  then have "length r' < length s" by (rule getline_shorter)
  with g assms show ?thesis by (auto simp: fgets_def split: if_splits)
qed

section \<open>Searching and splitting strings\<close>

text \<open>\<^verbatim>\<open>strchr(s, c) != NULL\<close>, and what follows the last \<open>c\<close> (\<^verbatim>\<open>strrchr\<close>).\<close>

definition has_char :: "char \<Rightarrow> string \<Rightarrow> bool" where
  "has_char c s \<longleftrightarrow> c \<in> set s"

definition after_last :: "char \<Rightarrow> string \<Rightarrow> string" where
  "after_last c s = rev (takeWhile (\<lambda>x. x \<noteq> c) (rev s))"

definition before_last :: "char \<Rightarrow> string \<Rightarrow> string" where
  "before_last c s = rev (tl (dropWhile (\<lambda>x. x \<noteq> c) (rev s)))"

text \<open>\<^verbatim>\<open>strstr(s, t) != NULL\<close>.\<close>

fun has_sub :: "string \<Rightarrow> string \<Rightarrow> bool" where
  "has_sub [] t = (t = [])"
| "has_sub (c # cs) t = (take (length t) (c # cs) = t \<or> has_sub cs t)"

lemma has_sub_iff: "has_sub s t \<longleftrightarrow> (\<exists>u v. s = u @ t @ v)"
proof (induction s)
  case (Cons c cs)
  have "take (length t) (c # cs) = t \<longleftrightarrow> (\<exists>v. c # cs = t @ v)"
    by (metis append_eq_conv_conj append_take_drop_id)
  with Cons show ?case
    by (auto simp: Cons_eq_append_conv)
qed auto

text \<open>
  Repeated \<^verbatim>\<open>strtok_r(s, ":")\<close>: the maximal runs of characters other than the
  delimiter. Adjacent delimiters are skipped together, so no token is empty.
\<close>

fun split_runs :: "char \<Rightarrow> string \<Rightarrow> string \<Rightarrow> string list" where
  "split_runs d [] acc = (if acc = [] then [] else [acc])"
| "split_runs d (c # cs) acc =
     (if c = d then (if acc = [] then split_runs d cs [] else acc # split_runs d cs [])
      else split_runs d cs (acc @ [c]))"

definition strtok_all :: "char \<Rightarrow> string \<Rightarrow> string list" where
  "strtok_all d s = split_runs d s []"

lemma split_runs_nonempty: "t \<in> set (split_runs d s acc) \<Longrightarrow> t \<noteq> []"
  by (induction d s acc rule: split_runs.induct) (auto split: if_splits)

lemma split_runs_chars: "t \<in> set (split_runs d s acc) \<Longrightarrow> d \<notin> set acc \<Longrightarrow> d \<notin> set t"
  by (induction d s acc rule: split_runs.induct) (auto split: if_splits)

lemma strtok_all_nonempty: "t \<in> set (strtok_all d s) \<Longrightarrow> t \<noteq> [] \<and> d \<notin> set t"
  using split_runs_nonempty split_runs_chars by (fastforce simp: strtok_all_def)

end
