(* ===== verification/Shell_State.thy ===== *)
theory Shell_State
  imports Cstdlib "HOL-Library.State_Monad"
begin

text \<open>
  The state of the shell process and its interface to the operating system.

  A system call is an event. What it returns is decided by an environment \<open>os\<close>, a
  parameter of every operation: a function of the calls made so far (with their results) and
  of the present call, so that nothing is assumed of scheduling, of children or of the
  file system. The exceptions are the descriptor table, whose semantics (lowest free
  descriptor, \<^verbatim>\<open>dup2\<close>, \<^verbatim>\<open>close\<close>, copy on \<^verbatim>\<open>fork\<close>) is written out, and the process's own
  environment variables. Text written to standard output is an event too.

  Signals are delivered when a system call is made: the environment says which, and
  their handlers run before the call. The handlers of the shell (\<^verbatim>\<open>sigchld_handler\<close> of
  \<^verbatim>\<open>jobs.c\<close>, \<^verbatim>\<open>resume_timeout_handler\<close>, \<^verbatim>\<open>sigint_handler\<close> and \<^verbatim>\<open>sigtstp_handler\<close> of
  \<^verbatim>\<open>main.c\<close>) are therefore part of this theory.
\<close>

section \<open>Data of the shell\<close>

datatype proc_state_t = PROC_RUNNING | PROC_STOPPED | PROC_EXITED

record proc_info_t =
  proc_pid :: int
  cmd_name :: string
  proc_state :: proc_state_t

text \<open>The outcome of \<^verbatim>\<open>waitpid\<close>, as the \<^verbatim>\<open>WIF...\<close> macros read it.\<close>

datatype wstatus = Exited int | Signaled int | Stopped int | Continued

text \<open>
  A slot of the job table; the first \<^verbatim>\<open>num_procs\<close> entries of the array \<^verbatim>\<open>procs\<close> are the list
  \<open>procs\<close>, the others are never read.
\<close>

record job_entry_t =
  job_id :: int
  pgid :: int
  procs :: "proc_info_t list"
  active :: bool
  finished :: bool
  reported :: bool
  is_stopped :: bool
  full_cmd :: string
  exit_status :: wstatus
  is_signaled :: bool

record frecency_entry_t =
  path :: string
  frequency :: int
  last_access :: int

definition MAX_BG_JOBS :: nat where "MAX_BG_JOBS = 256"

definition MAX_PIDS_PER_JOB :: nat where "MAX_PIDS_PER_JOB = 64"

section \<open>The operating system\<close>

datatype oflag = O_RDONLY | O_APPEND | O_TRUNC

datatype ptrace_request = PTRACE_ATTACH | PTRACE_TRACEME | PTRACE_SETOPTIONS | PTRACE_SYSCALL | PTRACE_GETREGS | PTRACE_DETACH

datatype syscall =
    Deliver
  | Waitpid (wait_pid: int) (wnohang: bool) (wuntraced: bool) (wcontinued: bool)
  | Proc_stat int
  | Kill int int
  | Printf string
  | Perror string
  | Isatty nat
  | Tcsetpgrp nat int
  | Getpgrp
  | Nanosleep
  | Alarm int
  | Sigalrm_handler bool
  | Signals_default
  | Fork
  | Setpgid int int
  | Execv string "string list"
  | Open string oflag
  | Close nat
  | Dup2 nat nat
  | Pipe
  | Read_sync nat
  | Write_sync nat
  | Copy_loop nat "nat list"
  | Access_exec string
  | Stat string
  | Getcwd
  | Chdir string
  | Time
  | Readlink string
  | Read_file string
  | Write_file string string
  | Read_stdin
  | Fgets_stdin
  | Feof_stdin
  | Realpath string
  | Readdir string
  | Lstat string
  | Access_exists string
  | Getpid
  | Gethostname
  | Getpwuid
  | Ptrace ptrace_request int
  | Clock_gettime

datatype errno = ECHILD | EINTR | Other_errno

datatype signal = SIGCHLD | SIGALRM | SIGINT | SIGTSTP

text \<open>The kind of file that \<^verbatim>\<open>stat\<close> finds; \<open>OTHER_KIND\<close> is one that none of the \<^verbatim>\<open>S_IS...\<close> macros of the shell tests.\<close>

datatype fkind = REG | DIR | CHR_DEV | BLK | FIFO | SOCK | LNK | OTHER_KIND

text \<open>
  \<open>rtext\<close> is a text result, \<open>rnames\<close> the entries of a directory, \<open>rkind\<close> the kind of a file and
  \<open>rnum\<close> a number that is not the return value (a register of a traced process, a time in
  nanoseconds).
\<close>

record sysret =
  rv :: int
  rerrno :: errno
  rstatus :: wstatus
  rtext :: "string option"
  rkind :: fkind
  rnames :: "string list"
  rnum :: int
  rsigs :: "signal list"

abbreviation risdir :: "sysret \<Rightarrow> bool" where
  "risdir r \<equiv> rkind r = DIR"

type_synonym history = "(syscall \<times> sysret) list"
type_synonym environment = "history \<Rightarrow> syscall \<Rightarrow> sysret"

text \<open>What a descriptor refers to: one of the shell's own at start, a file, or an end of a pipe.\<close>

datatype fobj = Inherited nat | File_in string | File_out string bool | Pipe_rd nat | Pipe_wr nat

type_synonym fdtab = "fobj option list"

definition SIGHUP :: int where "SIGHUP = 1"
definition SIGTERM :: int where "SIGTERM = 15"
definition SIGCONT :: int where "SIGCONT = 18"

text \<open>
  A process the shell has created: how its run inside the shell's code ends, its
  descriptors at that point, its calls, and the processes it created itself.
\<close>

datatype child_end = Exec string "string list" | Exit_code int | Child_crash | Child_waiting

datatype child = Child (child_pid: int) (child_end: child_end) (child_fds: fdtab)
  (child_hist: history) (child_kids: "child list")

record shell =
  hist :: history
  fds :: fdtab
  npipes :: nat
  kids :: "child list"
  jobs_list :: "job_entry_t list"
  next_job_id :: int
  fg_active :: bool
  resume_timed_out :: bool
  prompt_interrupted :: bool
  db :: "frecency_entry_t list"
  history_path :: string
  hop_shell_home :: string
  reveal_shell_home :: string
  environ :: "string \<Rightarrow> string option"

type_synonym 'a sh = "(shell, 'a) state"

text \<open>
  How an operation ends that may dereference a null pointer (\<open>Crash\<close>) or wait for ever
  (\<open>Waiting\<close>, when its fuel is used up).
\<close>

datatype 'a outcome = Done 'a | Crash | Waiting

abbreviation done_with :: "'a \<Rightarrow> 'a sh" where
  "done_with x \<equiv> State_Monad.return x"

abbreviation gets :: "(shell \<Rightarrow> 'a) \<Rightarrow> 'a sh" where
  "gets f \<equiv> State (\<lambda>s. (f s, s))"

abbreviation modify :: "(shell \<Rightarrow> shell) \<Rightarrow> unit sh" where
  "modify f \<equiv> State (\<lambda>s. ((), f s))"

definition raw_sys :: "environment \<Rightarrow> syscall \<Rightarrow> sysret sh" where
  "raw_sys os c = State (\<lambda>s. let r = os (hist s) c in (r, s\<lparr>hist := hist s @ [(c, r)]\<rparr>))"

text \<open>A \<^verbatim>\<open>for\<close> loop over a list of indices.\<close>

fun for_each :: "'i list \<Rightarrow> ('i \<Rightarrow> unit sh) \<Rightarrow> unit sh" where
  "for_each [] body = done_with ()"
| "for_each (i # is) body = do { body i; for_each is body }"

section \<open>Signal handlers\<close>

definition job :: "shell \<Rightarrow> nat \<Rightarrow> job_entry_t" where
  "job s i = jobs_list s ! i"

definition upd_job :: "nat \<Rightarrow> (job_entry_t \<Rightarrow> job_entry_t) \<Rightarrow> unit sh" where
  "upd_job i f = modify (\<lambda>s. s\<lparr>jobs_list := (jobs_list s)[i := f (jobs_list s ! i)]\<rparr>)"

definition set_proc_state :: "nat \<Rightarrow> proc_state_t \<Rightarrow> job_entry_t \<Rightarrow> job_entry_t" where
  "set_proc_state k st j = j\<lparr>procs := (procs j)[k := (procs j ! k)\<lparr>proc_state := st\<rparr>]\<rparr>"

text \<open>
  The exit of a process: it is marked, and the job is finished when it is the leader of
  the group.
\<close>

definition proc_exited :: "nat \<Rightarrow> int \<Rightarrow> wstatus \<Rightarrow> job_entry_t \<Rightarrow> job_entry_t" where
  "proc_exited k pid status j =
     (let j = set_proc_state k PROC_EXITED j in
      if pid = pgid j then
        j\<lparr>finished := True, exit_status := status,
           is_signaled := (case status of Signaled _ \<Rightarrow> True | _ \<Rightarrow> False)\<rparr>
      else j)"

text \<open>The body of the inner loop of \<^verbatim>\<open>sigchld_handler\<close>, for process \<open>k\<close> of slot \<open>i\<close>.\<close>

definition sigchld_proc :: "environment \<Rightarrow> nat \<Rightarrow> nat \<Rightarrow> unit sh" where
  "sigchld_proc os i k = do {
     pid \<leftarrow> gets (\<lambda>s. proc_pid (procs (job s i) ! k));
     r \<leftarrow> raw_sys os (Waitpid pid True True True);
     if rv r = pid then
       (case rstatus r of
          Exited _ \<Rightarrow> upd_job i (proc_exited k pid (rstatus r))
        | Signaled _ \<Rightarrow> upd_job i (proc_exited k pid (rstatus r))
        | Stopped _ \<Rightarrow> upd_job i (\<lambda>j. (set_proc_state k PROC_STOPPED j)\<lparr>is_stopped := True\<rparr>)
        | Continued \<Rightarrow> upd_job i (\<lambda>j. (set_proc_state k PROC_RUNNING j)\<lparr>is_stopped := False\<rparr>))
     else done_with ()
   }"

definition sigchld_job :: "environment \<Rightarrow> nat \<Rightarrow> unit sh" where
  "sigchld_job os i = do {
     j \<leftarrow> gets (\<lambda>s. job s i);
     if active j \<and> \<not> finished j then for_each [0..<length (procs j)] (sigchld_proc os i)
     else done_with ()
   }"

definition sigchld_handler :: "environment \<Rightarrow> unit sh" where
  "sigchld_handler os = for_each [0..<MAX_BG_JOBS] (sigchld_job os)"

definition resume_timeout_handler :: "unit sh" where
  "resume_timeout_handler = modify (\<lambda>s. s\<lparr>resume_timed_out := True\<rparr>)"

definition sigint_handler :: "unit sh" where
  "sigint_handler = modify (\<lambda>s. s\<lparr>prompt_interrupted := True\<rparr>)"

definition sigtstp_handler :: "unit sh" where
  "sigtstp_handler = modify (\<lambda>s. s\<lparr>prompt_interrupted := True\<rparr>)"

definition handle_signal :: "environment \<Rightarrow> signal \<Rightarrow> unit sh" where
  "handle_signal os sg =
     (case sg of SIGCHLD \<Rightarrow> sigchld_handler os
               | SIGALRM \<Rightarrow> resume_timeout_handler
               | SIGINT \<Rightarrow> sigint_handler
               | SIGTSTP \<Rightarrow> sigtstp_handler)"

text \<open>A system call, with the signals delivered before it.\<close>

definition sys :: "environment \<Rightarrow> syscall \<Rightarrow> sysret sh" where
  "sys os c = do {
     d \<leftarrow> raw_sys os Deliver;
     for_each (rsigs d) (handle_signal os);
     raw_sys os c
   }"

definition printf :: "environment \<Rightarrow> string \<Rightarrow> unit sh" where
  "printf os t = do { sys os (Printf t); done_with () }"

section \<open>Descriptors and processes\<close>

definition fd_get :: "fdtab \<Rightarrow> nat \<Rightarrow> fobj option" where
  "fd_get t n = (if n < length t then t ! n else None)"

definition fd_set :: "nat \<Rightarrow> fobj option \<Rightarrow> fdtab \<Rightarrow> fdtab" where
  "fd_set n x t = (if n < length t then t[n := x] else t @ replicate (n - length t) None @ [x])"

definition fd_low :: "fdtab \<Rightarrow> nat" where
  "fd_low t = length (takeWhile (\<lambda>x. x \<noteq> None) t)"

definition posix_open :: "environment \<Rightarrow> string \<Rightarrow> oflag \<Rightarrow> int sh" where
  "posix_open os p fl = do {
     r \<leftarrow> sys os (Open p fl);
     if rv r < 0 then done_with (- 1)
     else do {
       fd \<leftarrow> gets (\<lambda>s. fd_low (fds s));
       modify (\<lambda>s. s\<lparr>fds := fd_set fd (Some (case fl of O_RDONLY \<Rightarrow> File_in p
                                                      | O_APPEND \<Rightarrow> File_out p True
                                                      | O_TRUNC \<Rightarrow> File_out p False)) (fds s)\<rparr>);
       done_with (int fd)
     }
   }"

definition posix_close :: "environment \<Rightarrow> nat \<Rightarrow> unit sh" where
  "posix_close os n = do {
     sys os (Close n);
     modify (\<lambda>s. s\<lparr>fds := fd_set n None (fds s)\<rparr>)
   }"

definition posix_dup2 :: "environment \<Rightarrow> nat \<Rightarrow> nat \<Rightarrow> unit sh" where
  "posix_dup2 os a b = do {
     sys os (Dup2 a b);
     modify (\<lambda>s. if fd_get (fds s) a = None then s else s\<lparr>fds := fd_set b (fd_get (fds s) a) (fds s)\<rparr>)
   }"

text \<open>\<open>None\<close> when \<^verbatim>\<open>pipe\<close> fails, else the read and the write descriptor.\<close>

definition posix_pipe :: "environment \<Rightarrow> (nat \<times> nat) option sh" where
  "posix_pipe os = do {
     r \<leftarrow> sys os Pipe;
     if rv r < 0 then done_with None
     else do {
       s \<leftarrow> gets (\<lambda>s. s);
       let a = fd_low (fds s);
           t = fd_set a (Some (Pipe_rd (npipes s))) (fds s);
           b = fd_low t in
         do {
           modify (\<lambda>s. s\<lparr>fds := fd_set b (Some (Pipe_wr (npipes s))) t, npipes := Suc (npipes s)\<rparr>);
           done_with (Some (a, b))
         }
     }
   }"

text \<open>
  \<^verbatim>\<open>fork\<close>: the child continues with \<open>body\<close> in a copy of the state, where the call has
  returned 0; in the parent the call returns the child's number, or a negative one
  when it failed.
\<close>

definition posix_fork :: "environment \<Rightarrow> child_end sh \<Rightarrow> int sh" where
  "posix_fork os body = do {
     r \<leftarrow> sys os Fork;
     if rv r > 0 then do {
       modify (\<lambda>s.
         let h = butlast (hist s) @ [(Fork, r\<lparr>rv := 0\<rparr>)];
             (e, c) = run_state body (s\<lparr>hist := h, kids := []\<rparr>) in
         s\<lparr>kids := kids s @ [Child (rv r) e (fds c) (hist c) (kids c)]\<rparr>);
       done_with (rv r)
     }
     else done_with (- 1)
   }"

text \<open>The state of the globals when \<^verbatim>\<open>main\<close> begins, with the three standard descriptors open.\<close>

definition zero_job :: job_entry_t where
  "zero_job = \<lparr>job_id = 0, pgid = 0, procs = [], active = False, finished = False, reported = False,
     is_stopped = False, full_cmd = [], exit_status = Exited 0, is_signaled = False\<rparr>"

definition shell_start :: "(string \<Rightarrow> string option) \<Rightarrow> shell" where
  "shell_start env = \<lparr>hist = [], fds = [Some (Inherited 0), Some (Inherited 1), Some (Inherited 2)],
     npipes = 0, kids = [], jobs_list = replicate MAX_BG_JOBS zero_job, next_job_id = 1,
     fg_active = False, resume_timed_out = False, prompt_interrupted = False, db = [],
     history_path = [], hop_shell_home = [], reveal_shell_home = [], environ = env\<rparr>"

section \<open>Reasoning about operations\<close>

text \<open>
  \<open>wp m Q s\<close>: running \<open>m\<close> in \<open>s\<close> gives a result and a state with \<open>Q\<close>. \<open>keeps I m\<close>: \<open>m\<close>
  preserves the invariant \<open>I\<close>, whatever the environment answers.
\<close>

definition wp :: "'a sh \<Rightarrow> ('a \<Rightarrow> shell \<Rightarrow> bool) \<Rightarrow> shell \<Rightarrow> bool" where
  "wp m Q s = (case run_state m s of (x, s') \<Rightarrow> Q x s')"

definition keeps :: "(shell \<Rightarrow> bool) \<Rightarrow> 'a sh \<Rightarrow> bool" where
  "keeps I m \<longleftrightarrow> (\<forall>s. I s \<longrightarrow> wp m (\<lambda>_. I) s)"

named_theorems wp_rules \<open>weakest preconditions of the basic operations\<close>
named_theorems keeps_rules \<open>preservation of an invariant, operation by operation\<close>

lemma wp_run: "wp m Q s = Q (fst (run_state m s)) (snd (run_state m s))"
  by (simp add: wp_def split: prod.splits)

lemma wp_mono: "wp m Q s \<Longrightarrow> (\<And>x s'. Q x s' \<Longrightarrow> R x s') \<Longrightarrow> wp m R s"
  by (simp add: wp_run)

lemma wp_conj: "wp m (\<lambda>x s. Q x s \<and> R x s) s \<longleftrightarrow> wp m Q s \<and> wp m R s"
  by (simp add: wp_run)

lemma wp_return [wp_rules]: "wp (done_with x) Q s = Q x s"
  by (simp add: wp_def)

lemma wp_bind [wp_rules]: "wp (do { x \<leftarrow> m; f x }) Q s = wp m (\<lambda>x. wp (f x) Q) s"
  by (simp add: wp_def split: prod.splits)

lemma wp_bindI:
  "wp m P s \<Longrightarrow> (\<And>x s'. P x s' \<Longrightarrow> wp (f x) Q s') \<Longrightarrow> wp (do { x \<leftarrow> m; f x }) Q s"
  unfolding wp_bind by (rule wp_mono)

lemma wp_State [wp_rules]: "wp (State f) Q s = (case f s of (x, s') \<Rightarrow> Q x s')"
  by (simp add: wp_def)

lemma wp_if [wp_rules]: "wp (if b then m else n) Q s = (if b then wp m Q s else wp n Q s)"
  by simp

lemma wp_raw_sys [wp_rules]:
  "wp (raw_sys os c) Q s = Q (os (hist s) c) (s\<lparr>hist := hist s @ [(c, os (hist s) c)]\<rparr>)"
  by (simp add: wp_def raw_sys_def Let_def)

lemma wp_upd_job [wp_rules]:
  "wp (upd_job i f) Q s = Q () (s\<lparr>jobs_list := (jobs_list s)[i := f (jobs_list s ! i)]\<rparr>)"
  by (simp add: upd_job_def wp_rules)

lemma keepsI: "(\<And>s. I s \<Longrightarrow> wp m (\<lambda>_. I) s) \<Longrightarrow> keeps I m"
  by (simp add: keeps_def)

lemma keepsD: "keeps I m \<Longrightarrow> I s \<Longrightarrow> wp m (\<lambda>_. I) s"
  by (simp add: keeps_def)

lemma keeps_run: "keeps I m \<Longrightarrow> I s \<Longrightarrow> I (snd (run_state m s))"
  by (simp add: keeps_def wp_run)

lemma keeps_return [keeps_rules]: "keeps I (done_with x)"
  by (simp add: keeps_def wp_rules)

lemma keeps_bind [keeps_rules]: "keeps I m \<Longrightarrow> (\<And>x. keeps I (f x)) \<Longrightarrow> keeps I (do { x \<leftarrow> m; f x })"
  by (simp add: keeps_def wp_rules) (blast intro: wp_mono)

lemma keeps_if [keeps_rules]:
  "(b \<Longrightarrow> keeps I m) \<Longrightarrow> (\<not> b \<Longrightarrow> keeps I n) \<Longrightarrow> keeps I (if b then m else n)"
  by simp

lemma keeps_gets [keeps_rules]: "keeps I (gets f)"
  by (simp add: keeps_def wp_rules)

lemma keeps_for_each [keeps_rules]: "(\<And>i. i \<in> set is \<Longrightarrow> keeps I (body i)) \<Longrightarrow> keeps I (for_each is body)"
  by (induction "is") (auto intro!: keeps_rules)

lemma keeps_option [keeps_rules]:
  "(x = None \<Longrightarrow> keeps I m) \<Longrightarrow> (\<And>y. x = Some y \<Longrightarrow> keeps I (f y)) \<Longrightarrow>
   keeps I (case x of None \<Rightarrow> m | Some y \<Rightarrow> f y)"
  by (cases x) auto

lemma keeps_wstatus [keeps_rules]:
  "(\<And>c. st = Exited c \<Longrightarrow> keeps I (f1 c)) \<Longrightarrow> (\<And>c. st = Signaled c \<Longrightarrow> keeps I (f2 c)) \<Longrightarrow>
   (\<And>c. st = Stopped c \<Longrightarrow> keeps I (f3 c)) \<Longrightarrow> (st = Continued \<Longrightarrow> keeps I m) \<Longrightarrow>
   keeps I (case st of Exited c \<Rightarrow> f1 c | Signaled c \<Rightarrow> f2 c | Stopped c \<Rightarrow> f3 c | Continued \<Rightarrow> m)"
  by (cases st) auto

lemma keeps_prod [keeps_rules]: "(\<And>a b. x = (a, b) \<Longrightarrow> keeps I (f a b)) \<Longrightarrow> keeps I (case x of (a, b) \<Rightarrow> f a b)"
  by (cases x) auto

lemma keeps_modify: "(\<And>s. I s \<Longrightarrow> I (f s)) \<Longrightarrow> keeps I (modify f)"
  by (simp add: keeps_def wp_rules)

text \<open>\<open>yields Q m\<close>: the result of \<open>m\<close> always has \<open>Q\<close>.\<close>

definition yields :: "('a \<Rightarrow> bool) \<Rightarrow> 'a sh \<Rightarrow> bool" where
  "yields Q m \<longleftrightarrow> (\<forall>s. wp m (\<lambda>x _. Q x) s)"

named_theorems yields_rules \<open>results of operations\<close>

lemma yieldsD: "yields Q m \<Longrightarrow> wp m (\<lambda>x _. Q x) s"
  by (simp add: yields_def)

lemma yields_return [yields_rules]: "Q x \<Longrightarrow> yields Q (done_with x)"
  by (simp add: yields_def wp_rules)

lemma yields_bind [yields_rules]: "(\<And>x. yields Q (f x)) \<Longrightarrow> yields Q (do { x \<leftarrow> m; f x })"
  by (simp add: yields_def wp_rules) (simp add: wp_run)

lemma yields_bind_from: "yields P m \<Longrightarrow> (\<And>x. P x \<Longrightarrow> yields Q (f x)) \<Longrightarrow> yields Q (do { x \<leftarrow> m; f x })"
  by (simp add: yields_def wp_rules) (simp add: wp_run)

lemma yields_if [yields_rules]:
  "(b \<Longrightarrow> yields Q m) \<Longrightarrow> (\<not> b \<Longrightarrow> yields Q n) \<Longrightarrow> yields Q (if b then m else n)"
  by simp

lemma yields_option [yields_rules]:
  "(x = None \<Longrightarrow> yields Q m) \<Longrightarrow> (\<And>y. x = Some y \<Longrightarrow> yields Q (f y)) \<Longrightarrow>
   yields Q (case x of None \<Rightarrow> m | Some y \<Rightarrow> f y)"
  by (cases x) auto

lemma wp_yields: "yields Q m \<Longrightarrow> wp m R s \<Longrightarrow> wp m (\<lambda>x s. Q x \<and> R x s) s"
  by (simp add: yields_def wp_run)

text \<open>
  An invariant that ignores the call itself is kept by a system call as soon as the
  handlers keep it; with \<open>resume_timed_out\<close> and \<open>prompt_interrupted\<close> out of its sight only
  \<open>sigchld_handler\<close> counts.
\<close>

definition ignores :: "(shell \<Rightarrow> bool) \<Rightarrow> syscall \<Rightarrow> bool" where
  "ignores I c \<longleftrightarrow> (\<forall>s r. I s \<longrightarrow> I (s\<lparr>hist := hist s @ [(c, r)]\<rparr>))"

definition flag_free :: "(shell \<Rightarrow> bool) \<Rightarrow> bool" where
  "flag_free I \<longleftrightarrow> (\<forall>s b. I s \<longrightarrow> I (s\<lparr>resume_timed_out := b\<rparr>) \<and> I (s\<lparr>prompt_interrupted := b\<rparr>))"

lemma keeps_raw_sys: "ignores I c \<Longrightarrow> keeps I (raw_sys os c)"
  by (simp add: keeps_def wp_rules ignores_def)

lemma keeps_handle_signal:
  assumes "flag_free I" "keeps I (sigchld_handler os)"
  shows "keeps I (handle_signal os sg)"
  using assms
  by (cases sg) (auto simp: handle_signal_def resume_timeout_handler_def sigint_handler_def
      sigtstp_handler_def flag_free_def intro!: keepsI simp: wp_rules)

lemma keeps_sys:
  assumes "ignores I Deliver" "ignores I c" "flag_free I" "keeps I (sigchld_handler os)"
  shows "keeps I (sys os c)"
  unfolding sys_def
  by (intro keeps_rules keeps_raw_sys keeps_handle_signal assms)

lemma yields_sys: "(\<And>h. P (os h c)) \<Longrightarrow> yields P (raw_sys os c)" "(\<And>h. P (os h c)) \<Longrightarrow> yields P (sys os c)"
  by (auto simp: sys_def yields_def wp_raw_sys intro!: yields_bind [unfolded yields_def])

lemma keeps_printf: "keeps I (sys os (Printf t)) \<Longrightarrow> keeps I (printf os t)"
  by (simp add: printf_def keeps_rules)

lemma sigchld_handler_keeps:
  assumes "\<And>i k. keeps I (sigchld_proc os i k)"
  shows "keeps I (sigchld_handler os)"
  unfolding sigchld_handler_def sigchld_job_def
  by (intro keeps_rules assms)

section \<open>Operations that leave the rest of the shell alone\<close>

text \<open>The calls polling makes, and invariants that look at neither these calls nor the table.\<close>

definition polling :: "syscall \<Rightarrow> bool" where
  "polling c = (case c of Deliver \<Rightarrow> True | Waitpid _ _ _ _ \<Rightarrow> True | Proc_stat _ \<Rightarrow> True | _ \<Rightarrow> False)"

definition off_table :: "(shell \<Rightarrow> bool) \<Rightarrow> bool" where
  "off_table I \<longleftrightarrow> flag_free I \<and> (\<forall>c. polling c \<longrightarrow> ignores I c) \<and>
     (\<forall>s l. I s \<longrightarrow> I (s\<lparr>jobs_list := l\<rparr>))"

lemma polling_cases:
  "polling c \<Longrightarrow> c = Deliver \<or> (\<exists>p a b d. c = Waitpid p a b d) \<or> (\<exists>p. c = Proc_stat p)"
  by (cases c) (simp_all add: polling_def)

lemma off_table_upd_job: "off_table I \<Longrightarrow> keeps I (upd_job i f)"
  by (simp add: off_table_def keeps_def wp_rules)

lemma off_table_poll: "off_table I \<Longrightarrow> polling c \<Longrightarrow> keeps I (raw_sys os c)"
  by (simp add: off_table_def keeps_raw_sys)

lemma off_table_handler: "off_table I \<Longrightarrow> keeps I (sigchld_handler os)"
  by (intro sigchld_handler_keeps)
    (simp add: sigchld_proc_def, intro keeps_rules off_table_upd_job off_table_poll;
     simp add: polling_def)

lemma off_table_sys: "off_table I \<Longrightarrow> ignores I c \<Longrightarrow> keeps I (sys os c)"
  by (intro keeps_sys off_table_handler) (auto simp: off_table_def polling_def)

end
