(* ===== verification/Hop.thy ===== *)
theory Hop
  imports Shell_State Lexer
begin

text \<open>
  The \<^verbatim>\<open>hop\<close> command (\<^verbatim>\<open>c-shell/src/hop.c\<close>): changing directory with a table of visited
  directories that is ranked by frequency and recency, kept in a history file and consulted
  for directories given by a part of their path.
\<close>

section \<open>The history file\<close>

definition MAX_ENTRIES :: nat where "MAX_ENTRIES = 256"

definition PATH_MAX :: nat where "PATH_MAX = 4096"

definition history_line :: "frecency_entry_t \<Rightarrow> string" where
  "history_line e = show_int (frequency e) @ '' '' @ show_int (last_access e) @ '' '' @ path e @ [NL]"

definition save_history :: "environment \<Rightarrow> unit sh" where
  "save_history os = do {
     s \<leftarrow> gets (\<lambda>s. s);
     sys os (Write_file (history_path s) (concat (map history_line (db s))));
     done_with ()
   }"

text \<open>The conversions of \<^verbatim>\<open>sscanf(line, "%d %ld", ...)\<close>: white space, a sign, digits.\<close>

definition scan_space :: "char \<Rightarrow> bool" where
  "scan_space c \<longleftrightarrow> c \<in> {CHR '' '', CHR 0x09, NL, CHR 0x0B, CHR 0x0C, CHR 0x0D}"

definition clamp_long :: "int \<Rightarrow> int" where
  "clamp_long i = max (- (2 ^ 63)) (min i (2 ^ 63 - 1))"

definition scan_int :: "string \<Rightarrow> (int \<times> string) option" where
  "scan_int s =
     (let s = dropWhile scan_space s;
          (neg, t) = (case s of c # cs \<Rightarrow> if c = CHR ''-'' then (True, cs)
                                          else if c = CHR ''+'' then (False, cs) else (False, s)
                              | [] \<Rightarrow> (False, s));
          ds = takeWhile is_digit t in
      if ds = [] then None
      else Some (clamp_long (if neg then - int (digits_val ds) else int (digits_val ds)),
                 dropWhile is_digit t))"

definition blank :: "char \<Rightarrow> bool" where
  "blank c \<longleftrightarrow> c = CHR '' '' \<or> c = CHR 0x09"

text \<open>The pointer \<^verbatim>\<open>p\<close> behind the two numbers, and the text there without line ends.\<close>

definition skip_numbers :: "string \<Rightarrow> string" where
  "skip_numbers line =
     dropWhile blank (dropWhile (\<lambda>c. is_digit c \<or> c = CHR ''-'')
       (dropWhile blank (dropWhile is_digit (dropWhile blank line))))"

definition strip_eol :: "string \<Rightarrow> string" where
  "strip_eol p = rev (dropWhile (\<lambda>c. c = NL \<or> c = CHR 0x0D) (rev p))"

text \<open>One line of the file: the entry it holds, if it is valid.\<close>

definition parse_history_line :: "string \<Rightarrow> frecency_entry_t option" where
  "parse_history_line line =
     (case scan_int line of
        None \<Rightarrow> None
      | Some (freq, rest) \<Rightarrow>
          (case scan_int rest of
             None \<Rightarrow> None
           | Some (last_acc, _) \<Rightarrow>
               (let p = strip_eol (skip_numbers line) in
                if p \<noteq> [] then
                  Some \<lparr>path = bounded_copy PATH_MAX p, frequency = to_int32 freq, last_access = last_acc\<rparr>
                else None)))"

function load_loop :: "string \<Rightarrow> frecency_entry_t list \<Rightarrow> frecency_entry_t list" where
  "load_loop content d =
     (if length d < MAX_ENTRIES then
        (case fgets (PATH_MAX + 128) content of
           None \<Rightarrow> d
         | Some (line, rest) \<Rightarrow>
             load_loop rest (case parse_history_line (cstr line) of None \<Rightarrow> d | Some e \<Rightarrow> d @ [e]))
      else d)"
  by pat_completeness auto
termination
  by (relation "measure (\<lambda>(c, d). length c)") (auto dest: fgets_shorter simp: PATH_MAX_def)

declare load_loop.simps [simp del]

definition load_history :: "environment \<Rightarrow> unit sh" where
  "load_history os = do {
     hp \<leftarrow> gets history_path;
     r \<leftarrow> sys os (Read_file hp);
     (case rtext r of
        None \<Rightarrow> done_with ()
      | Some content \<Rightarrow> modify (\<lambda>s. s\<lparr>db := load_loop content []\<rparr>))
   }"

section \<open>Scores\<close>

definition score_at :: "int \<Rightarrow> frecency_entry_t \<Rightarrow> int" where
  "score_at now e =
     (let t_d = now - last_access e;
          weight = (if t_d < 3600 then 400 else if t_d < 86400 then 200
                    else if t_d < 604800 then 100 else 50) in
      frequency e * weight)"

definition score :: "environment \<Rightarrow> nat \<Rightarrow> int sh" where
  "score os i = do {
     r \<leftarrow> sys os Time;
     e \<leftarrow> gets (\<lambda>s. db s ! i);
     done_with (score_at (rv r) e)
   }"

text \<open>The entry with the lowest score: the loop over the rest of the table.\<close>

fun min_loop :: "environment \<Rightarrow> nat list \<Rightarrow> nat \<Rightarrow> int \<Rightarrow> nat sh" where
  "min_loop os [] min_idx min_sc = done_with min_idx"
| "min_loop os (i # is) min_idx min_sc = do {
     sc \<leftarrow> score os i;
     if sc < min_sc then min_loop os is i sc else min_loop os is min_idx min_sc
   }"

definition set_entry :: "nat \<Rightarrow> frecency_entry_t \<Rightarrow> unit sh" where
  "set_entry i e = modify (\<lambda>s. s\<lparr>db := (db s)[i := e]\<rparr>)"

definition update_frecency :: "environment \<Rightarrow> string \<Rightarrow> unit sh" where
  "update_frecency os abs_path = do {
     d \<leftarrow> gets db;
     (case List.find (\<lambda>i. path (d ! i) = abs_path) [0..<length d] of
        Some i \<Rightarrow> do {
          r \<leftarrow> sys os Time;
          set_entry i ((d ! i)\<lparr>frequency := frequency (d ! i) + 1, last_access := rv r\<rparr>);
          save_history os
        }
      | None \<Rightarrow> do {
          (if length d < MAX_ENTRIES then do {
             r \<leftarrow> sys os Time;
             modify (\<lambda>s. s\<lparr>db := db s @ [\<lparr>path = bounded_copy PATH_MAX abs_path, frequency = 1,
                                           last_access = rv r\<rparr>]\<rparr>)
           }
           else do {
             sc \<leftarrow> score os 0;
             min_idx \<leftarrow> min_loop os [1..<length d] 0 sc;
             r \<leftarrow> sys os Time;
             set_entry min_idx \<lparr>path = bounded_copy PATH_MAX abs_path, frequency = 1, last_access = rv r\<rparr>
           });
          save_history os
        })
   }"

section \<open>Looking up a directory by a part of its path\<close>

text \<open>The two nested loops that sort the array \<^verbatim>\<open>order\<close> by falling score.\<close>

definition sort_step :: "environment \<Rightarrow> nat \<Rightarrow> nat \<Rightarrow> nat list \<Rightarrow> nat list sh" where
  "sort_step os i j order = do {
     a \<leftarrow> score os (order ! j);
     b \<leftarrow> score os (order ! i);
     done_with (if a > b then order[i := order ! j, j := order ! i] else order)
   }"

fun sort_inner :: "environment \<Rightarrow> nat \<Rightarrow> nat list \<Rightarrow> nat list \<Rightarrow> nat list sh" where
  "sort_inner os i [] order = done_with order"
| "sort_inner os i (j # js) order = do { order \<leftarrow> sort_step os i j order; sort_inner os i js order }"

fun sort_outer :: "environment \<Rightarrow> nat \<Rightarrow> nat list \<Rightarrow> nat list \<Rightarrow> nat list sh" where
  "sort_outer os n [] order = done_with order"
| "sort_outer os n (i # is) order = do {
     order \<leftarrow> sort_inner os i [i + 1..<n] order;
     sort_outer os n is order
   }"

definition is_dir :: "environment \<Rightarrow> string \<Rightarrow> bool sh" where
  "is_dir os p = do {
     r \<leftarrow> sys os (Stat p);
     done_with (rv r = 0 \<and> risdir r)
   }"

fun match_loop :: "environment \<Rightarrow> string \<Rightarrow> nat list \<Rightarrow> string option sh" where
  "match_loop os name [] = done_with None"
| "match_loop os name (idx # is) = do {
     p \<leftarrow> gets (\<lambda>s. path (db s ! idx));
     if has_sub p name then do {
       d \<leftarrow> is_dir os p;
       if d then done_with (Some p) else match_loop os name is
     }
     else match_loop os name is
   }"

definition frecency_lookup :: "environment \<Rightarrow> string \<Rightarrow> string option sh" where
  "frecency_lookup os name = do {
     n \<leftarrow> gets (\<lambda>s. length (db s));
     order \<leftarrow> sort_outer os n [0..<n - 1] [0..<n];
     match_loop os name order
   }"

section \<open>Changing directory\<close>

definition do_chdir :: "environment \<Rightarrow> string \<Rightarrow> bool sh" where
  "do_chdir os target = do {
     r \<leftarrow> sys os Getcwd;
     let prev = (case rtext r of None \<Rightarrow> [] | Some p \<Rightarrow> p) in
     do {
       c \<leftarrow> sys os (Chdir target);
       if rv c \<noteq> 0 then done_with False
       else do {
         l \<leftarrow> sys os Getcwd;
         (case rtext l of None \<Rightarrow> done_with () | Some landed \<Rightarrow> update_frecency os landed);
         (if prev \<noteq> [] then modify (\<lambda>s. s\<lparr>environ := (environ s)(''OLDPWD'' := Some prev)\<rparr>)
          else done_with ());
         done_with True
       }
     }
   }"

definition history_path_of :: "string \<Rightarrow> string option \<Rightarrow> string" where
  "history_path_of home_dir link =
     (let fallback = bounded_copy PATH_MAX (home_dir @ ''/hop_hist'') in
      case link of
        None \<Rightarrow> fallback
      | Some exe \<Rightarrow>
          let exe = take (PATH_MAX - 1) exe in
          if exe \<noteq> [] \<and> has_char (CHR ''/'') exe
          then take (PATH_MAX - 15) (before_last (CHR ''/'') exe) @ ''/hop_hist'' else fallback)"

definition hop_init :: "environment \<Rightarrow> string \<Rightarrow> unit sh" where
  "hop_init os home_dir = do {
     modify (\<lambda>s. s\<lparr>hop_shell_home := bounded_copy PATH_MAX home_dir\<rparr>);
     r \<leftarrow> sys os (Readlink ''/proc/self/exe'');
     modify (\<lambda>s. s\<lparr>history_path := history_path_of home_dir (rtext r)\<rparr>);
     load_history os
   }"

definition no_such_dir :: "environment \<Rightarrow> bool \<Rightarrow> unit sh" where
  "no_such_dir os ok = (if ok then done_with () else printf os (''hop: No such directory'' @ [NL]))"

definition hop_arg :: "environment \<Rightarrow> string \<Rightarrow> unit sh" where
  "hop_arg os arg =
     (if arg = ''~'' then do { h \<leftarrow> gets hop_shell_home; do_chdir os h; done_with () }
      else if arg = ''.'' then done_with ()
      else if arg = ''..'' then do { do_chdir os ''..''; done_with () }
      else if arg = ''-'' then do {
        old \<leftarrow> gets (\<lambda>s. environ s ''OLDPWD'');
        (case old of
           None \<Rightarrow> done_with ()
         | Some old \<Rightarrow> do { printf os (old @ [NL]); ok \<leftarrow> do_chdir os old; no_such_dir os ok })
      }
      else do {
        d \<leftarrow> is_dir os arg;
        if d then do { ok \<leftarrow> do_chdir os arg; no_such_dir os ok }
        else do {
          m \<leftarrow> frecency_lookup os arg;
          (case m of
             Some p \<Rightarrow> do { ok \<leftarrow> do_chdir os p; no_such_dir os ok }
           | None \<Rightarrow> no_such_dir os False)
        }
      })"

fun hop_args :: "environment \<Rightarrow> token_list_t \<Rightarrow> unit sh" where
  "hop_args os [] = done_with ()"
| "hop_args os (t # ts) = do {
     (case (ttype t, ttext t) of (OP_WORD, Some arg) \<Rightarrow> hop_arg os arg | _ \<Rightarrow> done_with ());
     hop_args os ts
   }"

definition hop :: "environment \<Rightarrow> token_list_t \<Rightarrow> unit sh" where
  "hop os list =
     (if length list \<le> 1 then do { h \<leftarrow> gets hop_shell_home; do_chdir os h; done_with () }
      else hop_args os (tl list))"

end
