(* ===== verification/Jobs.thy ===== *)
theory Jobs
  imports Shell_State Lexer
begin

text \<open>
  The job table of the shell (\<^verbatim>\<open>c-shell/src/jobs.c\<close>) and the commands that act on it
  (\<^verbatim>\<open>activities.c\<close>, \<^verbatim>\<open>resume.c\<close>, \<^verbatim>\<open>ping.c\<close>). The table is polled and updated by the shell
  and, between any two system calls, by the \<^verbatim>\<open>SIGCHLD\<close> handler. The lemmas give the
  invariant of the table, what each operation may change, who is ever signalled, and
  when a finished job is reported.
\<close>

section \<open>Adding jobs\<close>

definition jobs_alloc_id :: "int sh" where
  "jobs_alloc_id = do {
     n \<leftarrow> gets next_job_id;
     modify (\<lambda>s. s\<lparr>next_job_id := n + 1\<rparr>);
     done_with n
   }"

definition new_proc :: "int \<times> string \<Rightarrow> proc_info_t" where
  "new_proc p = \<lparr>proc_pid = fst p, cmd_name = bounded_copy 256 (snd p), proc_state = PROC_RUNNING\<rparr>"

definition new_entry :: "int \<Rightarrow> int \<Rightarrow> int list \<Rightarrow> string list \<Rightarrow> string option \<Rightarrow> job_entry_t" where
  "new_entry jid pg pids cmd_names full =
     \<lparr>job_id = jid, pgid = pg,
      procs = map new_proc (take MAX_PIDS_PER_JOB (zip pids cmd_names)),
      active = True, finished = False, reported = False, is_stopped = False,
      full_cmd = (case full of None \<Rightarrow> [] | Some c \<Rightarrow> bounded_copy 512 c),
      exit_status = Exited 0, is_signaled = False\<rparr>"

text \<open>The first slot with property \<open>P\<close>, as the loops over the table find it.\<close>

definition find_slot :: "(job_entry_t \<Rightarrow> bool) \<Rightarrow> shell \<Rightarrow> nat option" where
  "find_slot P s = List.find (\<lambda>i. P (job s i)) [0..<MAX_BG_JOBS]"

definition jobs_add_pipeline ::
  "int \<Rightarrow> int \<Rightarrow> int list \<Rightarrow> string list \<Rightarrow> string option \<Rightarrow> unit sh" where
  "jobs_add_pipeline jid pg pids cmd_names full = do {
     i \<leftarrow> gets (find_slot (\<lambda>j. \<not> active j));
     (case i of None \<Rightarrow> done_with ()
              | Some i \<Rightarrow> upd_job i (\<lambda>_. new_entry jid pg pids cmd_names full))
   }"

definition jobs_add :: "int \<Rightarrow> int \<Rightarrow> string \<Rightarrow> string option \<Rightarrow> unit sh" where
  "jobs_add jid pid cmd full = jobs_add_pipeline jid pid [pid] [cmd] full"

definition all_stopped :: "job_entry_t \<Rightarrow> job_entry_t" where
  "all_stopped j = j\<lparr>is_stopped := True, procs := map (\<lambda>p. p\<lparr>proc_state := PROC_STOPPED\<rparr>) (procs j)\<rparr>"

definition jobs_add_stopped ::
  "int \<Rightarrow> int \<Rightarrow> int list \<Rightarrow> string list \<Rightarrow> string option \<Rightarrow> unit sh" where
  "jobs_add_stopped jid pg pids cmd_names full = do {
     jobs_add_pipeline jid pg pids cmd_names full;
     i \<leftarrow> gets (find_slot (\<lambda>j. active j \<and> job_id j = jid));
     (case i of None \<Rightarrow> done_with () | Some i \<Rightarrow> upd_job i all_stopped)
   }"

definition jobs_set_fg_active :: "bool \<Rightarrow> unit sh" where
  "jobs_set_fg_active b = modify (\<lambda>s. s\<lparr>fg_active := b\<rparr>)"

section \<open>Polling\<close>

text \<open>The state letter in a line of \<^verbatim>\<open>/proc/<pid>/stat\<close>: the second character behind the last parenthesis.\<close>

definition stat_letter :: "string \<Rightarrow> char option" where
  "stat_letter content =
     (case fgets 256 content of
        None \<Rightarrow> None
      | Some (line, _) \<Rightarrow>
          if has_char (CHR '')'') (cstr line)
          then (case after_last (CHR '')'') (cstr line) of
                  sp # c # _ \<Rightarrow> if sp = CHR '' '' then Some c else None
                | _ \<Rightarrow> None)
          else None)"

text \<open>
  One process of \<^verbatim>\<open>jobs_refresh_states\<close>: what \<^verbatim>\<open>waitpid\<close> says, then what \<^verbatim>\<open>/proc\<close> says. The
  result tells whether the process counts as alive and as stopped.
\<close>

definition refresh_wait :: "environment \<Rightarrow> nat \<Rightarrow> nat \<Rightarrow> int \<Rightarrow> bool sh" where
  "refresh_wait os i k pid = do {
     r \<leftarrow> sys os (Waitpid pid True True True);
     if rv r = pid then
       (case rstatus r of
          Exited _ \<Rightarrow> do { upd_job i (proc_exited k pid (rstatus r)); done_with True }
        | Signaled _ \<Rightarrow> do { upd_job i (proc_exited k pid (rstatus r)); done_with True }
        | Stopped _ \<Rightarrow> do { upd_job i (set_proc_state k PROC_STOPPED); done_with False }
        | Continued \<Rightarrow> do { upd_job i (set_proc_state k PROC_RUNNING); done_with False })
     else if rv r < 0 \<and> rerrno r = ECHILD then
       do { upd_job i (set_proc_state k PROC_EXITED); done_with True }
     else done_with False
   }"

definition refresh_stat :: "environment \<Rightarrow> nat \<Rightarrow> nat \<Rightarrow> int \<Rightarrow> (bool \<times> bool) sh" where
  "refresh_stat os i k pid = do {
     sf \<leftarrow> sys os (Proc_stat pid);
     (case rtext sf of
        None \<Rightarrow> do { upd_job i (set_proc_state k PROC_EXITED); done_with (False, False) }
      | Some content \<Rightarrow> do {
          (case stat_letter content of
             None \<Rightarrow> done_with ()
           | Some c \<Rightarrow>
               if c = CHR ''T'' \<or> c = CHR ''t'' then upd_job i (set_proc_state k PROC_STOPPED)
               else if c = CHR ''Z'' then upd_job i (set_proc_state k PROC_EXITED)
               else done_with ());
          st \<leftarrow> gets (\<lambda>s. proc_state (procs (job s i) ! k));
          done_with (st \<noteq> PROC_EXITED, st = PROC_STOPPED)
        })
   }"

definition refresh_proc :: "environment \<Rightarrow> nat \<Rightarrow> nat \<Rightarrow> (bool \<times> bool) sh" where
  "refresh_proc os i k = do {
     p \<leftarrow> gets (\<lambda>s. procs (job s i) ! k);
     if proc_state p = PROC_EXITED then done_with (False, False)
     else do {
       gone \<leftarrow> refresh_wait os i k (proc_pid p);
       if gone then done_with (False, False) else refresh_stat os i k (proc_pid p)
     }
   }"

fun refresh_procs :: "environment \<Rightarrow> nat \<Rightarrow> nat list \<Rightarrow> bool \<Rightarrow> bool \<Rightarrow> (bool \<times> bool) sh" where
  "refresh_procs os i [] any_alive any_stopped = done_with (any_alive, any_stopped)"
| "refresh_procs os i (k # ks) any_alive any_stopped = do {
     r \<leftarrow> refresh_proc os i k;
     refresh_procs os i ks (any_alive \<or> fst r) (any_stopped \<or> snd r)
   }"

definition refresh_job :: "environment \<Rightarrow> nat \<Rightarrow> unit sh" where
  "refresh_job os i = do {
     j \<leftarrow> gets (\<lambda>s. job s i);
     if \<not> active j then done_with ()
     else do {
       r \<leftarrow> refresh_procs os i [0..<length (procs j)] False False;
       upd_job i (\<lambda>j. j\<lparr>is_stopped := snd r\<rparr>);
       if \<not> fst r then
         upd_job i (\<lambda>j. if reported j \<or> is_stopped j then j\<lparr>active := False\<rparr> else j)
       else done_with ()
     }
   }"

definition jobs_refresh_states :: "environment \<Rightarrow> unit sh" where
  "jobs_refresh_states os = for_each [0..<MAX_BG_JOBS] (refresh_job os)"

section \<open>Queries and reports\<close>

definition jobs_has_stopped :: "environment \<Rightarrow> bool sh" where
  "jobs_has_stopped os = do {
     jobs_refresh_states os;
     i \<leftarrow> gets (find_slot (\<lambda>j. active j \<and> is_stopped j));
     done_with (i \<noteq> None)
   }"

definition sighup_job :: "environment \<Rightarrow> nat \<Rightarrow> unit sh" where
  "sighup_job os i = do {
     j \<leftarrow> gets (\<lambda>s. job s i);
     if active j \<and> pgid j > 1 then do { sys os (Kill (- pgid j) SIGHUP); done_with () }
     else done_with ()
   }"

definition jobs_send_sighup_all :: "environment \<Rightarrow> unit sh" where
  "jobs_send_sighup_all os = for_each [0..<MAX_BG_JOBS] (sighup_job os)"

definition has_alive :: "job_entry_t \<Rightarrow> bool" where
  "has_alive j \<longleftrightarrow> (\<exists>p \<in> set (procs j). proc_state p \<noteq> PROC_EXITED)"

definition jobs_get_by_id :: "environment \<Rightarrow> int \<Rightarrow> nat option sh" where
  "jobs_get_by_id os jid = do {
     jobs_refresh_states os;
     gets (find_slot (\<lambda>j. active j \<and> job_id j = jid \<and> has_alive j))
   }"

definition jobs_pid_is_tracked :: "environment \<Rightarrow> int \<Rightarrow> bool sh" where
  "jobs_pid_is_tracked os pid = do {
     jobs_refresh_states os;
     i \<leftarrow> gets (find_slot (\<lambda>j. active j \<and>
            (\<exists>p \<in> set (procs j). proc_pid p = pid \<and> proc_state p \<noteq> PROC_EXITED)));
     done_with (i \<noteq> None)
   }"

definition report_text :: "job_entry_t \<Rightarrow> string" where
  "report_text j = cmd_name (procs j ! 0) @ '' with pid '' @ show_int (pgid j) @ '' exited '' @
     (if is_signaled j then ''abnormally'' else ''normally'') @ [NL]"

definition check_job :: "environment \<Rightarrow> nat \<Rightarrow> unit sh" where
  "check_job os i = do {
     j \<leftarrow> gets (\<lambda>s. job s i);
     if active j \<and> finished j \<and> \<not> reported j \<and> \<not> is_stopped j then do {
       printf os (report_text j);
       upd_job i (\<lambda>j. j\<lparr>reported := True, active := False\<rparr>)
     }
     else done_with ()
   }"

definition jobs_check_completed :: "environment \<Rightarrow> unit sh" where
  "jobs_check_completed os = do {
     jobs_refresh_states os;
     for_each [0..<MAX_BG_JOBS] (check_job os)
   }"

definition jobs_send_signal_to_job :: "environment \<Rightarrow> int \<Rightarrow> int \<Rightarrow> bool sh" where
  "jobs_send_signal_to_job os jid sg = do {
     i \<leftarrow> jobs_get_by_id os jid;
     (case i of
        None \<Rightarrow> done_with False
      | Some i \<Rightarrow> do {
          pg \<leftarrow> gets (\<lambda>s. pgid (job s i));
          sys os (Kill (- pg) sg);
          done_with True
        })
   }"

definition jobs_send_signal_to_pid :: "environment \<Rightarrow> int \<Rightarrow> int \<Rightarrow> bool sh" where
  "jobs_send_signal_to_pid os pid sg = do {
     t \<leftarrow> jobs_pid_is_tracked os pid;
     if \<not> t then done_with False
     else do { sys os (Kill pid sg); done_with True }
   }"

definition print_proc :: "environment \<Rightarrow> nat \<Rightarrow> nat \<Rightarrow> unit sh" where
  "print_proc os i k = do {
     p \<leftarrow> gets (\<lambda>s. procs (job s i) ! k);
     if proc_state p \<noteq> PROC_EXITED then
       printf os (''  '' @ show_int (proc_pid p) @ '' '' @ cmd_name p @ '' '' @
         (if proc_state p = PROC_STOPPED then ''Stopped'' else ''Running'') @ [NL])
     else done_with ()
   }"

definition print_job :: "environment \<Rightarrow> nat \<Rightarrow> unit sh" where
  "print_job os i = do {
     j \<leftarrow> gets (\<lambda>s. job s i);
     printf os (''['' @ show_int (job_id j) @ ''] pgid '' @ show_int (pgid j) @ [NL]);
     for_each [0..<length (procs j)] (print_proc os i)
   }"

definition active_jobs :: "shell \<Rightarrow> nat list" where
  "active_jobs s = sort_key (\<lambda>i. job_id (job s i))
     (filter (\<lambda>i. active (job s i) \<and> has_alive (job s i)) [0..<MAX_BG_JOBS])"

definition jobs_refresh_and_print_activities :: "environment \<Rightarrow> unit sh" where
  "jobs_refresh_and_print_activities os = do {
     jobs_refresh_states os;
     is \<leftarrow> gets active_jobs;
     for_each is (print_job os)
   }"

definition activities :: "environment \<Rightarrow> unit sh" where
  "activities os = jobs_refresh_and_print_activities os"

section \<open>Resuming a job\<close>

definition running_again :: "job_entry_t \<Rightarrow> job_entry_t" where
  "running_again j = j\<lparr>is_stopped := False,
     procs := map (\<lambda>p. if proc_state p = PROC_STOPPED then p\<lparr>proc_state := PROC_RUNNING\<rparr> else p) (procs j)\<rparr>"

definition jobs_resume_bg :: "environment \<Rightarrow> int \<Rightarrow> int sh" where
  "jobs_resume_bg os jid = do {
     i \<leftarrow> jobs_get_by_id os jid;
     (case i of
        None \<Rightarrow> do { printf os (''resume: no such job'' @ [NL]); done_with 0 }
      | Some i \<Rightarrow> do {
          pg \<leftarrow> gets (\<lambda>s. pgid (job s i));
          sys os (Kill (- pg) SIGCONT);
          upd_job i running_again;
          j \<leftarrow> gets (\<lambda>s. job s i);
          printf os (''['' @ show_int (job_id j) @ ''] + Running '' @ full_cmd j @ [NL]);
          done_with 1
        })
   }"

text \<open>
  One pass of the waiting loop over the processes: the number still alive, and whether
  one is stopped.
\<close>

definition resume_proc :: "environment \<Rightarrow> nat \<Rightarrow> nat \<Rightarrow> (bool \<times> bool) sh" where
  "resume_proc os i k = do {
     p \<leftarrow> gets (\<lambda>s. procs (job s i) ! k);
     if proc_state p = PROC_EXITED then done_with (False, False)
     else do {
       r \<leftarrow> sys os (Waitpid (proc_pid p) True True False);
       if rv r = proc_pid p then
         (case rstatus r of
            Exited _ \<Rightarrow> do { upd_job i (set_proc_state k PROC_EXITED); done_with (False, False) }
          | Signaled _ \<Rightarrow> do { upd_job i (set_proc_state k PROC_EXITED); done_with (False, False) }
          | Stopped _ \<Rightarrow> do { upd_job i (set_proc_state k PROC_STOPPED); done_with (False, True) }
          | Continued \<Rightarrow> done_with (False, False))
       else if rv r < 0 \<and> rerrno r = ECHILD then
         do { upd_job i (set_proc_state k PROC_EXITED); done_with (False, False) }
       else do {
         st \<leftarrow> gets (\<lambda>s. proc_state (procs (job s i) ! k));
         done_with (True, st = PROC_STOPPED)
       }
     }
   }"

fun resume_procs :: "environment \<Rightarrow> nat \<Rightarrow> nat list \<Rightarrow> nat \<Rightarrow> bool \<Rightarrow> (nat \<times> bool) sh" where
  "resume_procs os i [] alive_count any_stopped = done_with (alive_count, any_stopped)"
| "resume_procs os i (k # ks) alive_count any_stopped = do {
     r \<leftarrow> resume_proc os i k;
     resume_procs os i ks (if fst r then Suc alive_count else alive_count) (any_stopped \<or> snd r)
   }"

text \<open>
  The waiting loop, with \<open>fuel\<close> for its rounds: \<open>None\<close> when it is still waiting, else the
  final values of \<^verbatim>\<open>any_stopped\<close> and \<^verbatim>\<open>all_done\<close>.
\<close>

fun resume_wait :: "environment \<Rightarrow> nat \<Rightarrow> nat \<Rightarrow> bool \<Rightarrow> (bool \<times> bool) option sh" where
  "resume_wait os 0 i any_stopped = done_with None"
| "resume_wait os (Suc fuel) i any_stopped = do {
     t \<leftarrow> gets resume_timed_out;
     if t then done_with (Some (any_stopped, False))
     else do {
       n \<leftarrow> gets (\<lambda>s. length (procs (job s i)));
       r \<leftarrow> resume_procs os i [0..<n] 0 False;
       if fst r = 0 then done_with (Some (snd r, True))
       else if snd r then done_with (Some (True, False))
       else do { sys os Nanosleep; resume_wait os fuel i (snd r) }
     }
   }"

definition give_terminal :: "environment \<Rightarrow> int \<Rightarrow> unit sh" where
  "give_terminal os pg = do {
     tty \<leftarrow> sys os (Isatty 0);
     if rv tty \<noteq> 0 then do { sys os (Tcsetpgrp 0 pg); done_with () } else done_with ()
   }"

definition take_terminal :: "environment \<Rightarrow> unit sh" where
  "take_terminal os = do {
     tty \<leftarrow> sys os (Isatty 0);
     if rv tty \<noteq> 0 then do {
       g \<leftarrow> sys os Getpgrp;
       sys os (Tcsetpgrp 0 (rv g));
       done_with ()
     }
     else done_with ()
   }"

text \<open>What \<^verbatim>\<open>jobs_resume_fg\<close> does once the loop has ended.\<close>

definition resume_end :: "environment \<Rightarrow> nat \<Rightarrow> bool \<Rightarrow> bool \<Rightarrow> int sh" where
  "resume_end os i any_stopped all_done = do {
     t \<leftarrow> gets resume_timed_out;
     j \<leftarrow> gets (\<lambda>s. job s i);
     if t then do {
       sys os (Kill (- pgid j) SIGTERM);
       printf os (''resume: job timed out'' @ [NL]);
       upd_job i (\<lambda>j. j\<lparr>active := False, finished := True\<rparr>);
       done_with 1
     }
     else if any_stopped then do {
       upd_job i (\<lambda>j. j\<lparr>is_stopped := True\<rparr>);
       printf os (''['' @ show_int (job_id j) @ ''] + Stopped '' @ full_cmd j @ [NL]);
       done_with 0
     }
     else if all_done then do {
       upd_job i (\<lambda>j. j\<lparr>active := False, finished := True\<rparr>);
       done_with 1
     }
     else done_with 1
   }"

definition jobs_resume_fg :: "environment \<Rightarrow> nat \<Rightarrow> int \<Rightarrow> int \<Rightarrow> int option sh" where
  "jobs_resume_fg os fuel jid timeout_seconds = do {
     i \<leftarrow> jobs_get_by_id os jid;
     (case i of
        None \<Rightarrow> do { printf os (''resume: no such job'' @ [NL]); done_with (Some 0) }
      | Some i \<Rightarrow> do {
          j \<leftarrow> gets (\<lambda>s. job s i);
          printf os (full_cmd j @ [NL]);
          give_terminal os (pgid j);
          sys os (Kill (- pgid j) SIGCONT);
          upd_job i running_again;
          modify (\<lambda>s. s\<lparr>resume_timed_out := False\<rparr>);
          (if timeout_seconds > 0 then do {
             sys os (Sigalrm_handler True); sys os (Alarm timeout_seconds); done_with () }
           else done_with ());
          jobs_set_fg_active True;
          w \<leftarrow> resume_wait os fuel i False;
          (case w of
             None \<Rightarrow> done_with None
           | Some (any_stopped, all_done) \<Rightarrow> do {
               (if timeout_seconds > 0 then do {
                  sys os (Alarm 0); sys os (Sigalrm_handler False); done_with () }
                else done_with ());
               take_terminal os;
               jobs_set_fg_active False;
               r \<leftarrow> resume_end os i any_stopped all_done;
               done_with (Some r)
             })
        })
   }"

section \<open>The commands\<close>

definition is_all_digits :: "string \<Rightarrow> bool" where
  "is_all_digits str \<longleftrightarrow> str \<noteq> [] \<and> list_all is_digit str"

definition resume_invalid :: "environment \<Rightarrow> unit outcome sh" where
  "resume_invalid os = do { printf os (''resume: invalid syntax'' @ [NL]); done_with (Done ()) }"

text \<open>
  The mode and the timeout of \<^verbatim>\<open>resume\<close>: \<open>Done None\<close> for \<^verbatim>\<open>bg\<close> and \<open>Done (Some t)\<close> for \<^verbatim>\<open>fg\<close>
  with timeout \<open>t\<close>; \<open>None\<close> stands for the syntax errors. The text of an operator is
  a null pointer, which \<^verbatim>\<open>strcmp\<close> dereferences.
\<close>

definition resume_mode :: "token_list_t \<Rightarrow> int option outcome option" where
  "resume_mode list =
     (if ttext (list ! 2) = Some ''bg'' then (if length list = 3 then Some (Done None) else None)
      else if ttext (list ! 2) = Some ''fg'' then
        (if length list = 3 then Some (Done (Some 0))
         else if length list = 5 then
           (case ttext (list ! 3) of
              None \<Rightarrow> Some Crash
            | Some opt \<Rightarrow>
                if opt \<noteq> ''--timeout'' then None
                else
                  (case ttext (list ! 4) of
                     None \<Rightarrow> None
                   | Some to_str \<Rightarrow>
                       if is_all_digits to_str \<and> 0 < atoi_digits to_str
                       then Some (Done (Some (atoi_digits to_str))) else None))
         else None)
      else None)"

definition resume_cmd :: "environment \<Rightarrow> nat \<Rightarrow> token_list_t \<Rightarrow> unit outcome sh" where
  "resume_cmd os fuel list =
     (if length list < 3 then resume_invalid os
      else
        (case ttext (list ! 1) of
           Some (c # ds) \<Rightarrow>
             if c \<noteq> CHR ''%'' \<or> \<not> is_all_digits ds then resume_invalid os
             else
               (case resume_mode list of
                  Some (Done None) \<Rightarrow> do { jobs_resume_bg os (atoi_digits ds); done_with (Done ()) }
                | Some (Done (Some timeout)) \<Rightarrow> do {
                    r \<leftarrow> jobs_resume_fg os fuel (atoi_digits ds) timeout;
                    done_with (case r of None \<Rightarrow> Waiting | Some _ \<Rightarrow> Done ())
                  }
                | Some _ \<Rightarrow> done_with Crash
                | None \<Rightarrow> resume_invalid os)
         | _ \<Rightarrow> resume_invalid os))"

text \<open>C's remainder, which has the sign of the dividend.\<close>

definition c_rem :: "int \<Rightarrow> int \<Rightarrow> int" where
  "c_rem a b = sgn a * (\<bar>a\<bar> mod \<bar>b\<bar>)"

definition ping_sent :: "environment \<Rightarrow> int \<Rightarrow> string \<Rightarrow> bool \<Rightarrow> unit sh" where
  "ping_sent os raw_sig target ok =
     (if \<not> ok then printf os (''ping: no such process found'' @ [NL])
      else printf os (''Sent signal '' @ show_int raw_sig @ '' to '' @ target @ [NL]))"

definition ping_invalid :: "environment \<Rightarrow> unit outcome sh" where
  "ping_invalid os = do { printf os (''ping: invalid syntax'' @ [NL]); done_with (Done ()) }"

definition ping_cmd :: "environment \<Rightarrow> token_list_t \<Rightarrow> unit outcome sh" where
  "ping_cmd os list =
     (if length list \<noteq> 3 then ping_invalid os
      else
        (case ttext (list ! 2) of
           None \<Rightarrow> ping_invalid os
         | Some sig_str \<Rightarrow>
             if \<not> is_all_digits sig_str then ping_invalid os
             else
               (let raw_sig = atoi_digits sig_str;
                    actual_sig = c_rem raw_sig 64 in
                case ttext (list ! 1) of
                  None \<Rightarrow> done_with Crash
                | Some target \<Rightarrow>
                    if target \<noteq> [] \<and> hd target = CHR ''%'' then
                      (if \<not> is_all_digits (tl target) then ping_invalid os
                       else do {
                         ok \<leftarrow> jobs_send_signal_to_job os (atoi_digits (tl target)) actual_sig;
                         ping_sent os raw_sig target ok;
                         done_with (Done ())
                       })
                    else
                      (if \<not> is_all_digits target then ping_invalid os
                       else do {
                         ok \<leftarrow> jobs_send_signal_to_pid os (atoi_digits target) actual_sig;
                         ping_sent os raw_sig target ok;
                         done_with (Done ())
                       }))))"

text \<open>
  \<^verbatim>\<open>reconstruct_cmd_str\<close>: the words and operators of a command, separated by spaces, as
  far as they fit the buffer of \<open>out_len\<close> bytes.
\<close>

definition token_text :: "token_t \<Rightarrow> string" where
  "token_text t =
     (case ttype t of
        OP_WORD \<Rightarrow> (case ttext t of None \<Rightarrow> [] | Some w \<Rightarrow> w)
      | OP_PIPE \<Rightarrow> ''|'' | OP_LT \<Rightarrow> ''<'' | OP_GT \<Rightarrow> ''>'' | OP_GTGT \<Rightarrow> ''>>''
      | _ \<Rightarrow> [])"

fun reconstruct_cmd_str :: "nat \<Rightarrow> token_list_t \<Rightarrow> string \<Rightarrow> string" where
  "reconstruct_cmd_str out_len [] out = out"
| "reconstruct_cmd_str out_len (t # ts) out =
     reconstruct_cmd_str out_len ts
       (if token_text t = [] then out
        else
          (let out = (if 0 < length out \<and> length out + 1 < out_len then out @ '' '' else out) in
           if length out + length (token_text t) < out_len then out @ token_text t else out))"

end
