(* ===== verification/Peek.thy ===== *)
theory Peek
  imports Cstdlib Lexer
begin

text \<open>
  The \<^verbatim>\<open>peek\<close> command of the shell (\<^verbatim>\<open>c-shell/src/peek.c\<close>): printing files forwards,
  numbered and reversed. \<^verbatim>\<open>read_lines_backward\<close> reads a file from its end in chunks and
  joins lines across chunk borders; the lemmas show what it delivers for every chunk
  size, how that relates to reading forwards, and how numbering and reversing combine.
  The line array always has room (the code does not check its allocations).
\<close>

section \<open>Reading lines\<close>

definition CHUNK :: nat where "CHUNK = 4096"

text \<open>
  \<^verbatim>\<open>read_lines\<close>: the lines without their newlines, as C strings; only the first one when
  the stream is a terminal. The second component is what remains of the stream.
\<close>

definition strip_nl :: "string \<Rightarrow> string" where
  "strip_nl l = (if l \<noteq> [] \<and> last l = NL then butlast l else l)"

function read_lines :: "bool \<Rightarrow> string \<Rightarrow> string list \<Rightarrow> string list \<times> string" where
  "read_lines is_terminal s la =
     (case getline s of
        None \<Rightarrow> (la, s)
      | Some (l, r) \<Rightarrow>
          let la = la @ [cstr (strip_nl l)] in
          if is_terminal then (la, r) else read_lines is_terminal r la)"
  by pat_completeness auto
termination
  by (relation "measure (\<lambda>(t, s, la). length s)") (auto dest: getline_shorter)

declare read_lines.simps [simp del]

text \<open>
  The scan of one chunk from its end: \<open>i\<close> characters are still to look at, the line being
  collected ends at \<open>end_pos\<close> and goes on with \<open>lo\<close> (the text kept from the chunk behind,
  NULL at first).
\<close>

fun scan_chunk ::
  "string \<Rightarrow> nat \<Rightarrow> nat \<Rightarrow> string option \<Rightarrow> string list \<Rightarrow> nat \<times> string option \<times> string list" where
  "scan_chunk word 0 end_pos lo la = (end_pos, lo, la)"
| "scan_chunk word (Suc i) end_pos lo la =
     (if word ! i = NL then
        (let seg = end_pos - (i + 1);
             line = take seg (drop (i + 1) word) @ (case lo of None \<Rightarrow> [] | Some t \<Rightarrow> t) in
         scan_chunk word i i None (la @ [line]))
      else scan_chunk word i end_pos lo la)"

text \<open>
  The loop over the chunks. \<open>rd pos k\<close> is what \<^verbatim>\<open>read\<close> delivers for \<open>k\<close> bytes at offset
  \<open>pos\<close>; the loop ends early when it delivers nothing.
\<close>

function chunk_loop ::
  "nat \<Rightarrow> (nat \<Rightarrow> nat \<Rightarrow> string) \<Rightarrow> nat \<Rightarrow> string option \<Rightarrow> string list \<Rightarrow> string list" where
  "chunk_loop chunk rd pos lo la =
     (if 0 < pos \<and> 0 < chunk then
        (let toread = (if chunk < pos then chunk else pos);
             pos = pos - toread;
             word = rd pos toread;
             n = length word in
         if n = 0 then (case lo of None \<Rightarrow> la | Some t \<Rightarrow> la @ [t])
         else
           (case scan_chunk word n n lo la of
              (end_pos, lo, la) \<Rightarrow>
                let lo = (if 0 < end_pos
                          then Some (take end_pos word @ (case lo of None \<Rightarrow> [] | Some t \<Rightarrow> t)) else lo) in
                chunk_loop chunk rd pos lo la))
      else (case lo of None \<Rightarrow> la | Some t \<Rightarrow> la @ [t]))"
  by pat_completeness auto
termination
  by (relation "measure (\<lambda>(c, rd, pos, lo, la). pos)") auto

declare chunk_loop.simps [simp del]

definition read_lines_backward :: "(nat \<Rightarrow> nat \<Rightarrow> string) \<Rightarrow> nat \<Rightarrow> string list" where
  "read_lines_backward rd fsize =
     (if fsize = 0 then [] else chunk_loop CHUNK rd fsize None [])"

text \<open>What \<^verbatim>\<open>read\<close> does on a regular file with content \<open>f\<close>.\<close>

definition file_read :: "string \<Rightarrow> nat \<Rightarrow> nat \<Rightarrow> string" where
  "file_read f pos k = take k (drop pos f)"

section \<open>Printing one source\<close>

text \<open>
  The number and line forms of \<^verbatim>\<open>printf\<close> used below, and the loops that print an array
  of lines.
\<close>

definition print_line :: "string \<Rightarrow> string" where
  "print_line l = l @ [NL]"

definition print_numbered :: "int \<Rightarrow> string \<Rightarrow> string" where
  "print_numbered k l = show_int k @ '' '' @ l @ [NL]"

fun print_n :: "int \<Rightarrow> string list \<Rightarrow> string \<times> int" where
  "print_n k [] = ([], k)"
| "print_n k (l # ls) =
     (if l = [] then (case print_n k ls of (out, k') \<Rightarrow> (NL # out, k'))
      else (case print_n (k + 1) ls of (out, k') \<Rightarrow> (print_numbered (k + 1) l @ out, k')))"

text \<open>The forward pass of \<^verbatim>\<open>-rn\<close> that gives every non-empty line its number.\<close>

fun line_nums :: "int \<Rightarrow> string list \<Rightarrow> int list \<times> int" where
  "line_nums k [] = ([], k)"
| "line_nums k (l # ls) =
     (if l = [] then (case line_nums k ls of (ns, k') \<Rightarrow> (0 # ns, k'))
      else (case line_nums (k + 1) ls of (ns, k') \<Rightarrow> ((k + 1) # ns, k')))"

text \<open>The backward pass that prints: \<open>i\<close> lines are still to print.\<close>

fun print_rn :: "string list \<Rightarrow> int list \<Rightarrow> nat \<Rightarrow> string" where
  "print_rn items nums 0 = []"
| "print_rn items nums (Suc idx) =
     (if items ! idx = [] then [NL] else print_numbered (nums ! idx) (items ! idx)) @ print_rn items nums idx"

fun print_r :: "string list \<Rightarrow> nat \<Rightarrow> string" where
  "print_r items 0 = []"
| "print_r items (Suc i) = print_line (items ! i) @ print_r items i"

text \<open>The world \<^verbatim>\<open>peek\<close> reads: the outcome of \<^verbatim>\<open>stat\<close>, \<^verbatim>\<open>open\<close> and \<^verbatim>\<open>fopen\<close> on a name, and standard input.\<close>

datatype node = Missing | Directory | Unreadable | Regular string

record peek_env =
  pe_node :: "string \<Rightarrow> node"
  pe_stdin :: string
  pe_tty :: bool

text \<open>The forward loop over standard input, which prints every line as it is read.\<close>

function stdin_loop :: "bool \<Rightarrow> bool \<Rightarrow> string \<Rightarrow> int \<Rightarrow> string \<times> int \<times> string" where
  "stdin_loop is_terminal n_flag s k =
     (case getline s of
        None \<Rightarrow> ([], k, s)
      | Some (l, r) \<Rightarrow>
          let line = cstr (strip_nl l);
              (out, k) = (if line = [] then ([NL], k)
                          else if n_flag then (print_numbered (k + 1) line, k + 1)
                          else (print_line line, k)) in
          if is_terminal then (out, k, r)
          else (case stdin_loop is_terminal n_flag r k of (out', k', s') \<Rightarrow> (out @ out', k', s')))"
  by pat_completeness auto
termination
  by (relation "measure (\<lambda>(t, n, s, k). length s)") (auto dest: getline_shorter)

declare stdin_loop.simps [simp del]

text \<open>\<open>process_source\<close> returns its status, what it prints, the running number and the environment.\<close>

definition process_source ::
  "string option \<Rightarrow> bool \<Rightarrow> bool \<Rightarrow> int \<Rightarrow> peek_env \<Rightarrow> int \<times> string \<times> int \<times> peek_env" where
  "process_source filename r_flag n_flag k e =
     (let use_stdin = (filename = None \<or> filename = Some ''-'') in
      if use_stdin then
        (if \<not> r_flag then
           (case stdin_loop (pe_tty e) n_flag (pe_stdin e) k of
              (out, k', s) \<Rightarrow> (0, out, k', e\<lparr>pe_stdin := s\<rparr>))
         else
           (case read_lines (pe_tty e) (pe_stdin e) [] of
              (la, s) \<Rightarrow>
                if \<not> n_flag then (0, print_r la (length la), k, e\<lparr>pe_stdin := s\<rparr>)
                else (case line_nums k la of
                        (nums, k') \<Rightarrow> (0, print_rn la nums (length la), k', e\<lparr>pe_stdin := s\<rparr>))))
      else
        (case pe_node e (the filename) of
           Missing \<Rightarrow> (- 1, ''peek: no such file or directory'' @ [NL], k, e)
         | Directory \<Rightarrow> (- 1, ''peek: is a directory'' @ [NL], k, e)
         | Unreadable \<Rightarrow> (- 1, ''peek: no such file or directory'' @ [NL], k, e)
         | Regular f \<Rightarrow>
             if r_flag \<and> \<not> n_flag then
               (0, concat (map (\<lambda>l. print_line (cstr l)) (read_lines_backward (file_read f) (length f))), k, e)
             else
               (let la = fst (read_lines False f []) in
                if r_flag \<and> n_flag then
                  (case line_nums k la of (nums, k') \<Rightarrow> (0, print_rn la nums (length la), k', e))
                else if n_flag then
                  (case print_n k la of (out, k') \<Rightarrow> (0, out, k', e))
                else (0, concat (map print_line la), k, e))))"

section \<open>The command\<close>

text \<open>The letters of one flag argument; \<open>None\<close> is an unknown flag.\<close>

fun peek_flags :: "string \<Rightarrow> bool \<Rightarrow> bool \<Rightarrow> (bool \<times> bool) option" where
  "peek_flags [] n r = Some (n, r)"
| "peek_flags (c # cs) n r =
     (if c = CHR ''n'' then peek_flags cs True r
      else if c = CHR ''r'' then peek_flags cs n True
      else None)"

text \<open>The loop over the arguments behind the command's name: flags and at most 256 files.\<close>

fun peek_args :: "token_list_t \<Rightarrow> bool \<Rightarrow> bool \<Rightarrow> string list \<Rightarrow> (bool \<times> bool \<times> string list) option" where
  "peek_args [] n r files = Some (n, r, files)"
| "peek_args (t # ts) n r files =
     (case (ttype t, ttext t) of
        (OP_WORD, Some arg) \<Rightarrow>
          if length arg > 1 \<and> hd arg = CHR ''-'' then
            (case peek_flags (tl arg) n r of
               None \<Rightarrow> None
             | Some (n, r) \<Rightarrow> peek_args ts n r files)
          else peek_args ts n r (if length files < 256 then files @ [arg] else files)
      | _ \<Rightarrow> peek_args ts n r files)"

fun peek_files :: "string list \<Rightarrow> bool \<Rightarrow> bool \<Rightarrow> int \<Rightarrow> peek_env \<Rightarrow> string \<times> peek_env" where
  "peek_files [] r n k e = ([], e)"
| "peek_files (f # fs) r n k e =
     (case process_source (Some f) r n k e of
        (_, out, k', e') \<Rightarrow> (case peek_files fs r n k' e' of (out', e'') \<Rightarrow> (out @ out', e'')))"

definition peek :: "token_list_t \<Rightarrow> peek_env \<Rightarrow> string \<times> peek_env" where
  "peek list e =
     (case peek_args (tl list) False False [] of
        None \<Rightarrow> (''peek: incorrect flag'' @ [NL], e)
      | Some (n_flag, r_flag, files) \<Rightarrow>
          if files = [] then
            (case process_source None r_flag n_flag 0 e of (_, out, _, e') \<Rightarrow> (out, e'))
          else peek_files files r_flag n_flag 0 e)"

section \<open>Reading backwards\<close>

text \<open>The pieces of a text between its newlines; there is one more piece than newlines.\<close>

fun split_nl :: "string \<Rightarrow> string list" where
  "split_nl [] = [[]]"
| "split_nl (c # cs) =
     (if c = NL then [] # split_nl cs else (c # hd (split_nl cs)) # tl (split_nl cs))"

definition drop_lead :: "string list \<Rightarrow> string list" where
  "drop_lead ls = (case ls of [] # ls' \<Rightarrow> ls' | _ \<Rightarrow> ls)"

definition lo_text :: "string option \<Rightarrow> string" where
  "lo_text lo = (case lo of None \<Rightarrow> [] | Some t \<Rightarrow> t)"

text \<open>
  The text read so far is \<open>t\<close>: its first, unfinished piece is the left-over and the
  others are the lines pushed, last first.
\<close>

definition holds_lines :: "string \<Rightarrow> string option \<Rightarrow> string list \<Rightarrow> bool" where
  "holds_lines t lo la \<longleftrightarrow> split_nl t = lo_text lo # rev la \<and> lo \<noteq> Some []"

lemma split_nl_append:
  "NL \<notin> set u \<Longrightarrow> split_nl (u @ s) = (u @ hd (split_nl s)) # tl (split_nl s)"
proof (induction u)
  case Nil
  show ?case by (cases s) auto
qed auto

lemma scan_chunk_holds:
  assumes "i \<le> e" "e \<le> length w" "NL \<notin> set (drop i (take e w))"
    and "holds_lines (drop e w @ t) lo la" "scan_chunk w i e lo la = (e', lo', la')"
  shows "e' \<le> length w \<and> NL \<notin> set (take e' w) \<and> holds_lines (drop e' w @ t) lo' la'"
  using assms
proof (induction i arbitrary: e lo la)
  case (Suc i)
  have i: "i < length w" "Suc i \<le> e" using Suc.prems by auto
  have d: "drop i (take e w) = w ! i # drop (Suc i) (take e w)"
    using i Cons_nth_drop_Suc [of i "take e w"] by simp
  show ?case
  proof (cases "w ! i = NL")
    case True
    let ?u = "drop (Suc i) (take e w)"
    have "drop i w = w ! i # drop (Suc i) w" by (rule Cons_nth_drop_Suc [symmetric, OF i(1)])
    also have "drop (Suc i) w = ?u @ drop e w"
      using i drop_append [of "Suc i" "take e w" "drop e w"] Suc.prems(2) by simp
    finally have w: "drop i w @ t = NL # ?u @ (drop e w @ t)" using True by simp
    have "split_nl (drop i w @ t) = [] # (?u @ lo_text lo) # rev la"
      using Suc.prems(3,4) split_nl_append [of ?u "drop e w @ t"] d
      unfolding w by (simp add: holds_lines_def)
    moreover have "take (e - (i + 1)) (drop (i + 1) w) = ?u" by (simp add: drop_take)
    ultimately have "holds_lines (drop i w @ t) None (la @ [take (e - (i + 1)) (drop (i + 1) w) @ lo_text lo])"
      by (simp add: holds_lines_def lo_text_def)
    with Suc.IH [of i None] Suc.prems(5) True i(1) show ?thesis
      by (simp add: Let_def lo_text_def)
  next
    case False
    with Suc.IH [of e lo la] Suc.prems d i show ?thesis by simp
  qed
qed simp

lemma scan_chunk_left_over:
  assumes "holds_lines t lo la" "scan_chunk w (length w) (length w) lo la = (e, lo', la')"
  shows "holds_lines (w @ t)
           (if 0 < e then Some (take e w @ lo_text lo') else lo') la'"
proof -
  have s: "e \<le> length w" "NL \<notin> set (take e w)" "holds_lines (drop e w @ t) lo' la'"
    using scan_chunk_holds [OF _ _ _ _ assms(2), of t] assms(1) by simp_all
  have "split_nl (take e w @ (drop e w @ t)) = (take e w @ lo_text lo') # rev la'"
    using s(3) by (simp only: split_nl_append [OF s(2)]) (simp add: holds_lines_def)
  moreover have "take e w @ (drop e w @ t) = w @ t" by simp
  ultimately have "split_nl (w @ t) = (take e w @ lo_text lo') # rev la'" by (simp only:)
  with s show ?thesis
    by (auto simp: holds_lines_def lo_text_def)
qed

lemma chunk_loop_lines:
  assumes "0 < chunk" "pos \<le> length f" "holds_lines (drop pos f) lo la"
  shows "chunk_loop chunk (file_read f) pos lo la = rev (drop_lead (split_nl f))"
  using assms(2,3)
proof (induction pos arbitrary: lo la rule: less_induct)
  case (less pos)
  show ?case
  proof (cases "pos = 0")
    case True
    with less.prems show ?thesis
      by (subst chunk_loop.simps)
        (auto simp: holds_lines_def lo_text_def drop_lead_def split: option.splits list.splits)
  next
    case False
    define r where "r = (if chunk < pos then chunk else pos)"
    have r: "0 < r" "r \<le> pos" using False assms(1) by (auto simp: r_def)
    define w where "w = file_read f (pos - r) r"
    have lw: "length w = r" using r less.prems(1) by (simp add: w_def file_read_def)
    have wt: "w @ drop pos f = drop (pos - r) f"
      using r append_take_drop_id [of r "drop (pos - r) f"] by (simp add: w_def file_read_def)
    obtain e lo' la' where sc: "scan_chunk w r r lo la = (e, lo', la')"
      by (cases "scan_chunk w r r lo la") auto
    let ?lo = "if 0 < e then Some (take e w @ lo_text lo') else lo'"
    have "holds_lines (drop (pos - r) f) ?lo la'"
      using scan_chunk_left_over [OF less.prems(2), of w e lo' la'] sc lw wt by simp
    then have "chunk_loop chunk (file_read f) (pos - r) ?lo la' = rev (drop_lead (split_nl f))"
      using less.IH [of "pos - r"] r less.prems(1) by simp
    moreover have "w \<noteq> []" using lw r by auto
    ultimately show ?thesis
      using False r lw sc assms(1)
      by (subst chunk_loop.simps) (auto simp: Let_def lo_text_def simp flip: r_def w_def)
  qed
qed

lemma read_lines_backward_split:
  "read_lines_backward (file_read f) (length f) = rev (drop_lead (split_nl f))"
proof (cases "f = []")
  case False
  have "holds_lines (drop (length f) f) None []" by (simp add: holds_lines_def lo_text_def)
  with False show ?thesis
    using chunk_loop_lines [of CHUNK "length f" f None "[]"]
    by (simp add: read_lines_backward_def CHUNK_def)
qed (simp add: read_lines_backward_def drop_lead_def)

section \<open>Reading forwards\<close>

text \<open>The lines of a text: a final newline ends the last line and begins no other.\<close>

definition lines_of :: "string \<Rightarrow> string list" where
  "lines_of f = (if f = [] then [] else if last f = NL then butlast (split_nl f) else split_nl f)"

lemma split_nl_ne [simp]: "split_nl f \<noteq> []"
  by (cases f) auto

lemma split_nl_last: "f \<noteq> [] \<Longrightarrow> last f = NL \<Longrightarrow> last (split_nl f) = []"
proof (induction f)
  case (Cons c f)
  then show ?case by (cases f) (auto split: if_splits)
qed simp

lemma split_nl_lines_of:
  "split_nl f = lines_of f @ (if f = [] \<or> last f = NL then [[]] else [])"
proof (cases "f \<noteq> [] \<and> last f = NL")
  case True
  then have "last (split_nl f) = []" using split_nl_last by blast
  with True show ?thesis
    using append_butlast_last_id [of "split_nl f"] by (simp add: lines_of_def)
qed (auto simp: lines_of_def)

lemma lines_of_no_nl: "NL \<notin> set u \<Longrightarrow> u \<noteq> [] \<Longrightarrow> lines_of u = [u]"
  using split_nl_append [of u "[]"] by (metis append_Nil2 last_in_set lines_of_def
      list.sel(1,3) split_nl.simps(1))

lemma lines_of_Cons: "NL \<notin> set u \<Longrightarrow> lines_of (u @ NL # r) = u # lines_of r"
  using split_nl_append [of u "NL # r"] by (auto simp: lines_of_def)

lemma getline_Some:
  assumes "getline s = Some (l, r)"
  shows "lines_of s = strip_nl l # lines_of r"
  using getline_cases [OF assms]
proof
  assume "l = s \<and> r = [] \<and> NL \<notin> set s \<and> s \<noteq> []"
  moreover from this have "last s \<noteq> NL" by (metis last_in_set)
  ultimately show ?thesis by (simp add: strip_nl_def lines_of_no_nl lines_of_def [of "[]"])
next
  assume "\<exists>u. NL \<notin> set u \<and> l = u @ [NL] \<and> s = u @ NL # r"
  then show ?thesis by (auto simp: strip_nl_def lines_of_Cons)
qed

lemma read_lines_lines: "read_lines False s la = (la @ map cstr (lines_of s), [])"
proof (induction "length s" arbitrary: s la rule: less_induct)
  case less
  show ?case
  proof (cases "getline s")
    case None
    then show ?thesis
      by (subst read_lines.simps) (simp add: getline_def lines_of_def Let_def split: if_splits list.splits)
  next
    case (Some p)
    obtain l r where p: "p = (l, r)" by force
    from Some p show ?thesis
      using less [of r "la @ [cstr (strip_nl l)]"] getline_shorter [of s l r] getline_Some [of s l r]
      by (subst read_lines.simps) simp
  qed
qed

section \<open>What is printed\<close>

lemma print_r_rev: "i \<le> length la \<Longrightarrow> print_r la i = concat (map print_line (rev (take i la)))"
  by (induction i) (simp_all add: take_Suc_conv_app_nth)

text \<open>The text of each line under \<^verbatim>\<open>-n\<close>, with numbers counting the non-empty lines.\<close>

fun numbered :: "int \<Rightarrow> string list \<Rightarrow> string list" where
  "numbered k [] = []"
| "numbered k (l # ls) =
     (if l = [] then [NL] # numbered k ls else print_numbered (k + 1) l # numbered (k + 1) ls)"

definition nonempty_count :: "string list \<Rightarrow> int" where
  "nonempty_count ls = int (length (filter (\<lambda>l. l \<noteq> []) ls))"

lemma numbered_length [simp]: "length (numbered k ls) = length ls"
  by (induction k ls rule: numbered.induct) auto

lemma numbered_nth:
  "i < length ls \<Longrightarrow>
   numbered k ls ! i = (if ls ! i = [] then [NL]
                        else print_numbered (k + nonempty_count (take (Suc i) ls)) (ls ! i))"
  by (induction k ls arbitrary: i rule: numbered.induct)
    (auto simp: nonempty_count_def nth_Cons' less_Suc_eq_0_disj add_ac)

lemma print_n_numbered: "print_n k ls = (concat (numbered k ls), k + nonempty_count ls)"
  by (induction k ls rule: numbered.induct) (auto simp: nonempty_count_def)

lemma line_nums_snd: "snd (line_nums k ls) = k + nonempty_count ls"
  by (induction k ls rule: line_nums.induct) (auto simp: nonempty_count_def split: prod.splits)

lemma line_nums_fst:
  "length (fst (line_nums k ls)) = length ls \<and>
   (\<forall>i < length ls. ls ! i \<noteq> [] \<longrightarrow>
      fst (line_nums k ls) ! i = k + nonempty_count (take (Suc i) ls))"
  by (induction k ls rule: line_nums.induct)
    (auto simp: nonempty_count_def nth_Cons' less_Suc_eq_0_disj add_ac split: prod.splits)

lemma print_rn_rev:
  assumes "i \<le> length la"
  shows "print_rn la (fst (line_nums k la)) i = concat (rev (take i (numbered k la)))"
  using assms
proof (induction i)
  case (Suc i)
  then show ?case
    using line_nums_fst [of k la]
    by (simp add: take_Suc_conv_app_nth [of i "numbered k la"] numbered_nth)
qed simp

section \<open>Properties\<close>

text \<open>
  C5. \<^verbatim>\<open>peek -r\<close> on a file, whatever its length in relation to the chunk size: it prints
  the lines from the last to the first, except that an empty first line is left out and
  that a file ending with a newline gets an extra empty line in front.
\<close>

theorem peek_reverse:
  assumes "pe_node e name = Regular f" and "name \<noteq> ''-''"
  shows "process_source (Some name) True False k e =
           (0, concat (map (\<lambda>l. print_line (cstr l))
                 ((if f \<noteq> [] \<and> last f = NL then [[]] else []) @ rev (drop_lead (lines_of f)))), k, e)"
proof -
  have "rev (drop_lead (split_nl f)) =
          (if f \<noteq> [] \<and> last f = NL then [[]] else []) @ rev (drop_lead (lines_of f))"
  proof (cases "f = []")
    case False
    then have "lines_of f \<noteq> []"
      using getline_None [of f] getline_Some [of f] by fastforce
    with False show ?thesis
      by (simp add: split_nl_lines_of drop_lead_def split: list.splits)
  qed (simp add: lines_of_def drop_lead_def)
  then show ?thesis
    using assms by (simp add: process_source_def read_lines_backward_split)
qed

theorem peek_reverse_witness:
  "process_source (Some ''a'') True False 0
     \<lparr>pe_node = \<lambda>_. Regular (''x'' @ [NL] @ ''y'' @ [NL]), pe_stdin = [], pe_tty = False\<rparr> =
   (0, [NL] @ ''y'' @ [NL] @ ''x'' @ [NL], 0,
      \<lparr>pe_node = \<lambda>_. Regular (''x'' @ [NL] @ ''y'' @ [NL]), pe_stdin = [], pe_tty = False\<rparr>)"
  using peek_reverse [of "\<lparr>pe_node = \<lambda>_. Regular (''x'' @ [NL] @ ''y'' @ [NL]), pe_stdin = [], pe_tty = False\<rparr>"
      "''a''" "''x'' @ [NL] @ ''y'' @ [NL]" 0]
  by (simp add: lines_of_def drop_lead_def print_line_def cstr_def)

text \<open>
  C6. Numbering: \<^verbatim>\<open>peek -n\<close> prints the lines of the file in order, the non-empty ones with
  consecutive numbers; \<^verbatim>\<open>peek -rn\<close> prints the very same numbered lines in the opposite
  order and leaves the same running number for the next file.
\<close>

theorem peek_numbered:
  assumes "pe_node e name = Regular f" and "name \<noteq> ''-''"
  shows "\<exists>outs. length outs = length (lines_of f) \<and>
           (\<forall>i < length outs. outs ! i =
              (let l = cstr (lines_of f ! i) in
               if l = [] then [NL]
               else show_int (k + nonempty_count (map cstr (take (Suc i) (lines_of f)))) @ '' '' @ l @ [NL])) \<and>
           (let k' = k + nonempty_count (map cstr (lines_of f)) in
            process_source (Some name) False True k e = (0, concat outs, k', e) \<and>
            process_source (Some name) True True k e = (0, concat (rev outs), k', e))"
proof -
  let ?la = "map cstr (lines_of f)"
  have "process_source (Some name) True True k e =
          (0, print_rn ?la (fst (line_nums k ?la)) (length ?la), snd (line_nums k ?la), e)"
    using assms by (simp add: process_source_def read_lines_lines Let_def split: prod.splits)
  then have "process_source (Some name) True True k e =
               (0, concat (rev (numbered k ?la)), k + nonempty_count ?la, e)"
    using print_rn_rev [of "length ?la" ?la k] by (simp add: line_nums_snd)
  moreover have "process_source (Some name) False True k e =
               (0, concat (numbered k ?la), k + nonempty_count ?la, e)"
    using assms by (simp add: process_source_def read_lines_lines print_n_numbered Let_def)
  ultimately show ?thesis
    by (intro exI [of _ "numbered k ?la"])
      (simp add: numbered_nth Let_def print_numbered_def take_map)
qed

theorem peek_numbered_witness:
  "\<exists>outs. length outs = length (lines_of (''x'' @ [NL] @ [NL])) \<and>
     (let e = \<lparr>pe_node = \<lambda>_. Regular (''x'' @ [NL] @ [NL]), pe_stdin = [], pe_tty = False\<rparr> in
      process_source (Some ''a'') False True 4 e =
        (0, concat outs, 4 + nonempty_count (map cstr (lines_of (''x'' @ [NL] @ [NL]))), e))"
  using peek_numbered [of "\<lparr>pe_node = \<lambda>_. Regular (''x'' @ [NL] @ [NL]), pe_stdin = [], pe_tty = False\<rparr>"
      "''a''" "''x'' @ [NL] @ [NL]" 4]
  by (auto simp: Let_def)

end
