(* ===== verification/Builtins.thy ===== *)
theory Builtins
  imports Hop Jobs Peek
begin

text \<open>
  The built-in commands that only inspect the system: \<^verbatim>\<open>locate\<close>, \<^verbatim>\<open>reveal\<close>, \<^verbatim>\<open>spy\<close> and
  \<^verbatim>\<open>snoop\<close> (\<^verbatim>\<open>c-shell/src/locate.c\<close>, \<^verbatim>\<open>reveal.c\<close>, \<^verbatim>\<open>spy.c\<close>, \<^verbatim>\<open>snoop.c\<close>). Reading a null
  pointer or an uninitialised buffer is \<open>Crash\<close>; \<^verbatim>\<open>reveal -t\<close> recurses through what it believes
  to be directories and \<^verbatim>\<open>snoop\<close> loops until its target ends, so both carry fuel and are \<open>Waiting\<close>
  without it. Allocation failures in these commands are not modelled, and the times of \<^verbatim>\<open>snoop\<close>
  are exact nanoseconds instead of \<^verbatim>\<open>double\<close>s.
\<close>

section \<open>Sequencing operations that may crash\<close>

definition obind :: "'a outcome sh \<Rightarrow> ('a \<Rightarrow> 'b outcome sh) \<Rightarrow> 'b outcome sh" where
  "obind m f = do {
     r \<leftarrow> m;
     (case r of Done x \<Rightarrow> f x | Crash \<Rightarrow> done_with Crash | Waiting \<Rightarrow> done_with Waiting)
   }"

definition lifted :: "'a sh \<Rightarrow> 'a outcome sh" where
  "lifted m = do { x \<leftarrow> m; done_with (Done x) }"

fun for_all :: "'i list \<Rightarrow> ('i \<Rightarrow> unit outcome sh) \<Rightarrow> unit outcome sh" where
  "for_all [] body = done_with (Done ())"
| "for_all (i # is) body = obind (body i) (\<lambda>_. for_all is body)"

abbreviation nl :: "string \<Rightarrow> string" where
  "nl t \<equiv> t @ [NL]"

definition under :: "nat \<Rightarrow> string \<Rightarrow> string \<Rightarrow> string" where
  "under n d f = bounded_copy n (d @ ''/'' @ f)"

section \<open>locate\<close>

definition locate_is_executable :: "environment \<Rightarrow> string \<Rightarrow> bool sh" where
  "locate_is_executable os filepath = do {
     r \<leftarrow> sys os (Access_exec filepath);
     if rv r \<noteq> 0 then done_with False
     else do {
       r \<leftarrow> sys os (Stat filepath);
       if rv r \<noteq> 0 then done_with False else done_with (\<not> risdir r)
     }
   }"

text \<open>One candidate: printed when it is executable; the result says whether it was.\<close>

definition locate_try :: "environment \<Rightarrow> string \<Rightarrow> bool sh" where
  "locate_try os candidate = do {
     x \<leftarrow> locate_is_executable os candidate;
     (if x then printf os (nl candidate) else done_with ());
     done_with x
   }"

text \<open>\<open>cwd\<close> is \<open>None\<close> when \<^verbatim>\<open>getcwd\<close> failed and left its buffer uninitialised.\<close>

definition locate_candidate :: "string option \<Rightarrow> string \<Rightarrow> string \<Rightarrow> string option" where
  "locate_candidate cwd cmd dir =
     (if dir = [] then map_option (\<lambda>w. under (PATH_MAX + 512) w cmd) cwd
      else if hd dir = CHR ''/'' then Some (under (PATH_MAX + 512) dir cmd)
      else map_option (\<lambda>w. bounded_copy (PATH_MAX + 512) (w @ ''/'' @ dir @ ''/'' @ cmd)) cwd)"

fun locate_dirs :: "environment \<Rightarrow> string option \<Rightarrow> string \<Rightarrow> string list \<Rightarrow> nat \<Rightarrow> nat outcome sh" where
  "locate_dirs os cwd cmd [] matches = done_with (Done matches)"
| "locate_dirs os cwd cmd (dir # ds) matches =
     (case locate_candidate cwd cmd dir of
        None \<Rightarrow> done_with Crash
      | Some c \<Rightarrow> do {
          x \<leftarrow> locate_try os c;
          locate_dirs os cwd cmd ds (if x then matches + 1 else matches)
        })"

definition locate_single :: "environment \<Rightarrow> string \<Rightarrow> unit outcome sh" where
  "locate_single os cmd = do {
     r \<leftarrow> sys os Getcwd;
     matches \<leftarrow> (case rtext r of
        None \<Rightarrow> done_with 0
      | Some w \<Rightarrow> do { x \<leftarrow> locate_try os (under (PATH_MAX + 512) w cmd); done_with (if x then 1 else 0) });
     env_path \<leftarrow> gets (\<lambda>s. environ s ''PATH'');
     obind (locate_dirs os (rtext r) cmd (case env_path of None \<Rightarrow> [] | Some p \<Rightarrow> strtok_all (CHR '':'') p) matches)
       (\<lambda>m. lifted (if m = 0 then printf os (nl (''locate: command not found ('' @ cmd @ '')'')) else done_with ()))
   }"

definition word_args :: "token_list_t \<Rightarrow> string option list" where
  "word_args list = map ttext (filter (\<lambda>t. ttype t = OP_WORD) (tl list))"

definition locate :: "environment \<Rightarrow> token_list_t \<Rightarrow> unit outcome sh" where
  "locate os list =
     (if word_args list = [] then lifted (printf os (nl ''locate: invalid syntax''))
      else for_all (word_args list) (\<lambda>a. case a of None \<Rightarrow> done_with Crash | Some cmd \<Rightarrow> locate_single os cmd))"

section \<open>reveal\<close>

text \<open>The order of \<^verbatim>\<open>strcmp\<close>, by unsigned character codes.\<close>

fun strcmp_le :: "string \<Rightarrow> string \<Rightarrow> bool" where
  "strcmp_le [] t = True"
| "strcmp_le (c # cs) [] = False"
| "strcmp_le (c # cs) (d # ds) = (if c = d then strcmp_le cs ds else (of_char c :: nat) < of_char d)"

fun insert_by :: "('a \<Rightarrow> 'a \<Rightarrow> bool) \<Rightarrow> 'a \<Rightarrow> 'a list \<Rightarrow> 'a list" where
  "insert_by le x [] = [x]"
| "insert_by le x (y # ys) = (if le x y then x # y # ys else y # insert_by le x ys)"

definition qsort :: "('a \<Rightarrow> 'a \<Rightarrow> bool) \<Rightarrow> 'a list \<Rightarrow> 'a list" where
  "qsort le xs = foldr (insert_by le) xs []"

definition reveal_init :: "string \<Rightarrow> unit sh" where
  "reveal_init home_dir = modify (\<lambda>s. s\<lparr>reveal_shell_home := bounded_copy PATH_MAX home_dir\<rparr>)"

definition realpath_dir :: "environment \<Rightarrow> string \<Rightarrow> string option sh" where
  "realpath_dir os arg = do {
     r \<leftarrow> sys os (Realpath arg);
     (case rtext r of
        None \<Rightarrow> done_with None
      | Some rp \<Rightarrow> do {
          r \<leftarrow> sys os (Stat rp);
          done_with (if rv r \<noteq> 0 \<or> \<not> risdir r then None else Some (bounded_copy PATH_MAX rp))
        })
   }"

definition resolve_target :: "environment \<Rightarrow> string option \<Rightarrow> string option sh" where
  "resolve_target os arg =
     (if arg = None \<or> arg = Some ''.'' then do { r \<leftarrow> sys os Getcwd; done_with (rtext r) }
      else if arg = Some ''~'' then do { h \<leftarrow> gets reveal_shell_home; done_with (Some (bounded_copy PATH_MAX h)) }
      else if arg = Some ''..'' then do {
        r \<leftarrow> sys os Getcwd;
        (case rtext r of
           None \<Rightarrow> done_with None
         | Some cwd \<Rightarrow> do {
             r \<leftarrow> sys os (Realpath (bounded_copy (PATH_MAX + 4) (cwd @ ''/..'')));
             done_with (map_option (bounded_copy PATH_MAX) (rtext r))
           })
      }
      else if arg = Some ''-'' then do { old \<leftarrow> gets (\<lambda>s. environ s ''OLDPWD''); done_with (map_option (bounded_copy PATH_MAX) old) }
      else realpath_dir os (the arg))"

definition reveal_names :: "bool \<Rightarrow> string list \<Rightarrow> string list" where
  "reveal_names flag_a names =
     qsort strcmp_le (filter (\<lambda>n. n \<noteq> ''.'' \<and> n \<noteq> ''..'' \<and> (flag_a \<or> take 1 n \<noteq> ''.'')) names)"

primrec reveal_list_dir :: "nat \<Rightarrow> environment \<Rightarrow> string \<Rightarrow> string \<Rightarrow> bool \<Rightarrow> bool \<Rightarrow> unit outcome sh" where
  "reveal_list_dir 0 os dir_path prefix flag_a flag_t = done_with Waiting"
| "reveal_list_dir (Suc fuel) os dir_path prefix flag_a flag_t = do {
     d \<leftarrow> sys os (Readdir dir_path);
     if rv d < 0 then done_with (Done ())
     else for_all (reveal_names flag_a (rnames d)) (\<lambda>name. do {
       r \<leftarrow> sys os (Stat (under PATH_MAX dir_path name));
       let is_dir = (rv r = 0 \<and> risdir r) in
       if flag_t then do {
         printf os (nl (prefix @ name @ (if is_dir then ''/'' else [])));
         if is_dir then reveal_list_dir fuel os (under PATH_MAX dir_path name) (bounded_copy PATH_MAX (prefix @ name @ ''/'')) flag_a flag_t
         else done_with (Done ())
       }
       else lifted (printf os (nl name))
     })
   }"

text \<open>The letters of a flag argument; \<open>None\<close> for a letter that is no flag.\<close>

fun reveal_flags :: "string \<Rightarrow> bool \<Rightarrow> bool \<Rightarrow> (bool \<times> bool) option" where
  "reveal_flags [] a t = Some (a, t)"
| "reveal_flags (c # cs) a t =
     (if c = CHR ''a'' then reveal_flags cs True t
      else if c = CHR ''t'' then reveal_flags cs a True
      else None)"

text \<open>The loop over the arguments: \<open>Done None\<close> is a syntax error.\<close>

fun reveal_args :: "string option list \<Rightarrow> bool \<Rightarrow> bool \<Rightarrow> string option \<Rightarrow> (bool \<times> bool \<times> string option) option outcome" where
  "reveal_args [] a t target = Done (Some (a, t, target))"
| "reveal_args (None # as) a t target = Crash"
| "reveal_args (Some arg # as) a t target =
     (case arg of
        c # d # ds \<Rightarrow>
          if c = CHR ''-'' then (case reveal_flags (d # ds) a t of
                                   None \<Rightarrow> Done None
                                 | Some (a, t) \<Rightarrow> reveal_args as a t target)
          else if target \<noteq> None then Done None else reveal_args as a t (Some arg)
      | _ \<Rightarrow> if target \<noteq> None then Done None else reveal_args as a t (Some arg))"

definition reveal :: "environment \<Rightarrow> nat \<Rightarrow> token_list_t \<Rightarrow> unit outcome sh" where
  "reveal os fuel list =
     obind (done_with (reveal_args (word_args list) False False None)) (\<lambda>args.
       case args of
         None \<Rightarrow> lifted (printf os (nl ''reveal: invalid syntax''))
       | Some (flag_a, flag_t, target) \<Rightarrow> do {
           resolved \<leftarrow> resolve_target os target;
           (case resolved of
              None \<Rightarrow> lifted (printf os (nl ''reveal: no such directory''))
            | Some p \<Rightarrow> do {
                r \<leftarrow> sys os (Stat p);
                if rv r \<noteq> 0 \<or> \<not> risdir r then lifted (printf os (nl ''reveal: no such directory''))
                else reveal_list_dir fuel os p [] flag_a flag_t
              })
         })"

section \<open>spy\<close>

definition MAX_MEM_FILES :: nat where "MAX_MEM_FILES = 512"

definition is_non_negative_int :: "string option \<Rightarrow> bool" where
  "is_non_negative_int str = (case str of None \<Rightarrow> False | Some s \<Rightarrow> s \<noteq> [] \<and> list_all is_digit s)"

definition compare_num_fds :: "string \<Rightarrow> string \<Rightarrow> bool" where
  "compare_num_fds a b \<longleftrightarrow> atoi_digits a \<le> atoi_digits b"

definition kind_name :: "fkind \<Rightarrow> string option" where
  "kind_name k =
     (case k of DIR \<Rightarrow> Some ''DIR'' | CHR_DEV \<Rightarrow> Some ''CHR'' | SOCK \<Rightarrow> Some ''SOCK'' | REG \<Rightarrow> Some ''REG''
              | BLK \<Rightarrow> Some ''BLK'' | FIFO \<Rightarrow> Some ''FIFO'' | LNK \<Rightarrow> Some ''LNK'' | OTHER_KIND \<Rightarrow> None)"

definition starts :: "string \<Rightarrow> string \<Rightarrow> bool" where
  "starts p s \<longleftrightarrow> take (length p) s = p"

definition name_type :: "string \<Rightarrow> string" where
  "name_type link_target =
     (if starts ''/dev/pts/'' link_target \<or> starts ''/dev/tty'' link_target then ''CHR''
      else if starts ''pipe:'' link_target \<or> starts ''anon_inode'' link_target then ''FIFO''
      else if starts ''socket:'' link_target then ''SOCK''
      else ''REG'')"

definition get_file_type :: "environment \<Rightarrow> string \<Rightarrow> string \<Rightarrow> string sh" where
  "get_file_type os p link_target = do {
     r \<leftarrow> sys os (Lstat p);
     (case if rv r = 0 then kind_name (rkind r) else None of
        Some t \<Rightarrow> done_with t
      | None \<Rightarrow> do {
          r \<leftarrow> sys os (Stat link_target);
          done_with (case if rv r = 0 then kind_name (rkind r) else None of
                       Some t \<Rightarrow> t
                     | None \<Rightarrow> name_type link_target)
        })
   }"

definition pad :: "nat \<Rightarrow> string \<Rightarrow> string" where
  "pad n s = s @ replicate (n - length s) (CHR '' '')"

definition spy_row :: "string \<Rightarrow> string \<Rightarrow> string \<Rightarrow> string \<Rightarrow> string" where
  "spy_row pid fd type p = nl (pad 7 pid @ '' '' @ pad 5 fd @ '' '' @ pad 7 type @ '' '' @ p)"

text \<open>
  A link under \<^verbatim>\<open>/proc\<close> and the row for it, when it can be read: \<open>typed_by\<close> is the path whose
  kind is looked up first, the target itself when it is \<open>None\<close>.
\<close>

definition spy_link :: "environment \<Rightarrow> int \<Rightarrow> string \<Rightarrow> string \<Rightarrow> string option \<Rightarrow> unit sh" where
  "spy_link os pid link fd typed_by = do {
     r \<leftarrow> sys os (Readlink link);
     (case rtext r of
        None \<Rightarrow> done_with ()
      | Some t \<Rightarrow>
          (let target = take 511 t in
           if target = [] then done_with ()
           else do {
             type \<leftarrow> get_file_type os (case typed_by of None \<Rightarrow> target | Some p \<Rightarrow> p) target;
             printf os (spy_row (show_int pid) fd type target)
           }))
   }"

text \<open>The lines \<^verbatim>\<open>fgets\<close> delivers one after the other.\<close>

function fgets_all :: "nat \<Rightarrow> string \<Rightarrow> string list" where
  "fgets_all n s = (if n \<le> 1 then [] else case fgets n s of None \<Rightarrow> [] | Some (l, r) \<Rightarrow> l # fgets_all n r)"
  by pat_completeness auto
termination by (relation "measure (\<lambda>(n, s). length s)") (auto dest: fgets_shorter)

declare fgets_all.simps [simp del]

fun spy_maps :: "environment \<Rightarrow> int \<Rightarrow> string list \<Rightarrow> string list \<Rightarrow> unit sh" where
  "spy_maps os pid [] seen = done_with ()"
| "spy_maps os pid (line # ls) seen =
     (let slash = dropWhile (\<lambda>c. c \<noteq> CHR ''/'') line in
      if slash = [] then spy_maps os pid ls seen
      else
        (let p = (if last slash = NL then butlast slash else slash) in
         if p \<in> set seen \<or> MAX_MEM_FILES \<le> length seen then spy_maps os pid ls seen
         else do {
           type \<leftarrow> get_file_type os p p;
           printf os (spy_row (show_int pid) ''mem'' type p);
           spy_maps os pid ls (seen @ [bounded_copy 512 p])
         }))"

definition spy_fds :: "environment \<Rightarrow> int \<Rightarrow> string \<Rightarrow> unit sh" where
  "spy_fds os pid proc = do {
     d \<leftarrow> sys os (Readdir (proc @ ''/fd''));
     if rv d < 0 then done_with ()
     else for_each (qsort compare_num_fds (take 512 (filter (\<lambda>n. is_non_negative_int (Some n)) (rnames d))))
       (\<lambda>n. let link = bounded_copy 512 (proc @ ''/fd/'' @ n) in spy_link os pid link n (Some link))
   }"

definition spy_target :: "environment \<Rightarrow> int \<Rightarrow> unit sh" where
  "spy_target os pid =
     (let proc = ''/proc/'' @ show_int pid in do {
        r \<leftarrow> sys os (Access_exists proc);
        if rv r \<noteq> 0 then printf os (nl ''spy: no such process'')
        else do {
          printf os (spy_row ''PID'' ''FD'' ''TYPE'' ''PATH'');
          spy_link os pid (proc @ ''/cwd'') ''cwd'' None;
          spy_link os pid (proc @ ''/exe'') ''txt'' None;
          m \<leftarrow> sys os (Read_file (proc @ ''/maps''));
          (case rtext m of None \<Rightarrow> done_with () | Some content \<Rightarrow> spy_maps os pid (fgets_all 1024 content) []);
          spy_fds os pid proc
        }
      })"

definition spy_cmd :: "environment \<Rightarrow> token_list_t \<Rightarrow> unit sh" where
  "spy_cmd os list = do {
     me \<leftarrow> sys os Getpid;
     if 2 < length list then printf os (nl ''spy: invalid syntax'')
     else if length list = 2 then
       (if \<not> is_non_negative_int (ttext (list ! 1)) then printf os (nl ''spy: invalid syntax'')
        else spy_target os (atoi_digits (the (ttext (list ! 1)))))
     else spy_target os (rv me)
   }"

section \<open>snoop\<close>

record sys_stat_t =
  st_name :: string
  sys_num :: int
  total_time :: int
  calls :: int
  first_seen_order :: nat

definition MAX_SYSCALLS :: nat where "MAX_SYSCALLS = 1024"

definition syscall_names :: "(int \<times> string) list" where
  "syscall_names =
     [(0, ''read''), (1, ''write''), (2, ''open''), (3, ''close''), (4, ''stat''), (5, ''fstat''),
      (6, ''lstat''), (7, ''poll''), (8, ''lseek''), (9, ''mmap''), (10, ''mprotect''), (11, ''munmap''),
      (12, ''brk''), (13, ''rt_sigaction''), (14, ''rt_sigprocmask''), (15, ''rt_sigreturn''),
      (16, ''ioctl''), (17, ''pread64''), (18, ''pwrite64''), (19, ''readv''), (20, ''writev''),
      (21, ''access''), (22, ''pipe''), (23, ''select''), (24, ''sched_yield''), (25, ''mremap''),
      (28, ''madvise''), (32, ''dup''), (33, ''dup2''), (35, ''nanosleep''), (39, ''getpid''),
      (41, ''socket''), (42, ''connect''), (43, ''accept''), (56, ''clone''), (57, ''fork''), (58, ''vfork''),
      (59, ''execve''), (60, ''exit''), (61, ''wait4''), (62, ''kill''), (63, ''uname''), (72, ''fcntl''),
      (78, ''getdents''), (79, ''getcwd''), (80, ''chdir''), (87, ''unlink''), (89, ''readlink''),
      (102, ''getuid''), (104, ''getgid''), (107, ''geteuid''), (108, ''getegid''), (110, ''getppid''),
      (112, ''setsid''), (137, ''statfs''), (157, ''prctl''), (158, ''arch_prctl''), (202, ''futex''),
      (217, ''getdents64''), (218, ''set_tid_address''), (228, ''clock_gettime''), (230, ''clock_nanosleep''),
      (231, ''exit_group''), (257, ''openat''), (262, ''newfstatat''), (273, ''set_robust_list''),
      (293, ''pipe2''), (302, ''prlimit64''), (318, ''getrandom''), (332, ''statx''), (334, ''rseq''),
      (435, ''clone3'')]"

definition get_syscall_name :: "int \<Rightarrow> string option" where
  "get_syscall_name num = map_of syscall_names num"

text \<open>Falling number of calls, then the order in which the calls were first seen.\<close>

definition compare_sys_stats :: "sys_stat_t \<Rightarrow> sys_stat_t \<Rightarrow> bool" where
  "compare_sys_stats a b \<longleftrightarrow>
     (if calls b \<noteq> calls a then calls b < calls a else first_seen_order a \<le> first_seen_order b)"

fun bump :: "int \<Rightarrow> int \<Rightarrow> sys_stat_t list \<Rightarrow> sys_stat_t list" where
  "bump num d [] = []"
| "bump num d (st # sts) =
     (if sys_num st = num then st\<lparr>calls := calls st + 1, total_time := total_time st + d\<rparr> # sts
      else st # bump num d sts)"

definition new_stat :: "int \<Rightarrow> int \<Rightarrow> nat \<Rightarrow> sys_stat_t" where
  "new_stat num d order =
     \<lparr>st_name = (case get_syscall_name num of Some n \<Rightarrow> bounded_copy 64 n
                                         | None \<Rightarrow> bounded_copy 64 (''syscall_'' @ show_int num)),
      sys_num = num, total_time = d, calls = 1, first_seen_order = order\<rparr>"

text \<open>
  The table and its counters: \<^verbatim>\<open>num_syscalls_tracked\<close> is the length of the list, and
  \<^verbatim>\<open>first_seen_counter\<close> equals it, for both are counted up together.
\<close>

definition add_syscall_time :: "int \<Rightarrow> int \<Rightarrow> sys_stat_t list \<Rightarrow> sys_stat_t list" where
  "add_syscall_time num d sts =
     (if num \<in> sys_num ` set sts then bump num d sts
      else if length sts < MAX_SYSCALLS then sts @ [new_stat num d (length sts)]
      else sts)"

text \<open>
  The tracing loop. \<open>cur\<close> is \<open>Some (num, start)\<close> between the entry and the exit of a call
  (\<^verbatim>\<open>in_syscall\<close>, \<^verbatim>\<open>current_sys_num\<close>, \<^verbatim>\<open>start_ts\<close>).
\<close>

definition SIGTRAP :: int where "SIGTRAP = 5"

definition snoop_stop :: "environment \<Rightarrow> int \<Rightarrow> (int \<times> int) option \<times> sys_stat_t list \<Rightarrow> ((int \<times> int) option \<times> sys_stat_t list) sh" where
  "snoop_stop os pid = (\<lambda>(cur, sts). do {
     r \<leftarrow> sys os (Ptrace PTRACE_GETREGS pid);
     if rv r \<noteq> 0 then done_with (cur, sts)
     else do {
       t \<leftarrow> sys os Clock_gettime;
       done_with (case cur of
                    None \<Rightarrow> (Some (rnum r, rnum t), sts)
                  | Some (num, start_ts) \<Rightarrow> (None, if 0 \<le> num then add_syscall_time num (rnum t - start_ts) sts else sts))
     }
   })"

primrec snoop_loop :: "nat \<Rightarrow> environment \<Rightarrow> int \<Rightarrow> (int \<times> int) option \<times> sys_stat_t list \<Rightarrow> sys_stat_t list outcome sh" where
  "snoop_loop 0 os pid x = done_with Waiting"
| "snoop_loop (Suc fuel) os pid x = do {
     r \<leftarrow> sys os (Ptrace PTRACE_SYSCALL pid);
     if rv r < 0 then done_with (Done (snd x))
     else do {
       w \<leftarrow> sys os (Waitpid pid False False False);
       (case rstatus w of
          Exited _ \<Rightarrow> done_with (Done (snd x))
        | Signaled _ \<Rightarrow> done_with (Done (snd x))
        | Stopped sig \<Rightarrow>
            if sig = SIGTRAP + 128 \<or> sig = SIGTRAP then do { x \<leftarrow> snoop_stop os pid x; snoop_loop fuel os pid x }
            else snoop_loop fuel os pid x
        | Continued \<Rightarrow> snoop_loop fuel os pid x)
     }
   }"

text \<open>The time in seconds with three decimals.\<close>

definition show_time :: "int \<Rightarrow> string" where
  "show_time ns =
     (let ms = (ns + 500000) div 1000000; frac = show_nat (nat (ms mod 1000)) in
      show_int (ms div 1000) @ ''.'' @ replicate (3 - length frac) (CHR ''0'') @ frac @ ''s'')"

definition snoop_report :: "environment \<Rightarrow> sys_stat_t list \<Rightarrow> unit sh" where
  "snoop_report os sts = do {
     printf os (nl (pad 20 ''syscall'' @ '' '' @ pad 7 ''calls'' @ '' time''));
     for_each (qsort compare_sys_stats sts) (\<lambda>st.
       printf os (nl (pad 20 (st_name st) @ '' '' @ pad 7 (show_int (calls st)) @ '' '' @ show_time (total_time st))))
   }"

definition snoop_trace :: "environment \<Rightarrow> nat \<Rightarrow> int \<Rightarrow> bool \<Rightarrow> unit outcome sh" where
  "snoop_trace os fuel pid is_attach = do {
     sys os (Ptrace PTRACE_SETOPTIONS pid);
     obind (snoop_loop fuel os pid (None, [])) (\<lambda>sts. do {
       (if is_attach then do { sys os (Ptrace PTRACE_DETACH pid); done_with () } else done_with ());
       lifted (snoop_report os sts)
     })
   }"

definition execute_is_executable :: "environment \<Rightarrow> string \<Rightarrow> bool sh" where
  "execute_is_executable os filepath = do {
     r \<leftarrow> sys os (Access_exec filepath);
     if rv r \<noteq> 0 then done_with False
     else do {
       r \<leftarrow> sys os (Stat filepath);
       if rv r \<noteq> 0 then done_with False else done_with (\<not> risdir r)
     }
   }"

fun first_executable :: "environment \<Rightarrow> string list \<Rightarrow> string option sh" where
  "first_executable os [] = done_with None"
| "first_executable os (c # cs) = do {
     x \<leftarrow> execute_is_executable os c;
     if x then done_with (Some c) else first_executable os cs
   }"

definition snoop_path :: "environment \<Rightarrow> string \<Rightarrow> string option sh" where
  "snoop_path os raw_cmd =
     (if has_char (CHR ''/'') raw_cmd then first_executable os [raw_cmd]
      else do {
        env_path \<leftarrow> gets (\<lambda>s. environ s ''PATH'');
        first_executable os (case env_path of
            None \<Rightarrow> []
          | Some p \<Rightarrow> map (\<lambda>dir. under 512 dir raw_cmd) (strtok_all (CHR '':'') p))
      })"

definition do_exec :: "environment \<Rightarrow> string \<Rightarrow> string \<Rightarrow> string list \<Rightarrow> child_end sh" where
  "do_exec os who p argv = do {
     r \<leftarrow> sys os (Execv p argv);
     if rv r < 0 then do { sys os (Perror who); done_with (Exit_code 1) } else done_with (Exec p argv)
   }"

definition snoop_attach :: "environment \<Rightarrow> nat \<Rightarrow> token_list_t \<Rightarrow> unit outcome sh" where
  "snoop_attach os fuel list =
     (if length list \<noteq> 3 \<or> \<not> is_non_negative_int (ttext (list ! 2)) then lifted (printf os (nl ''snoop: invalid syntax''))
      else
        (let pid = atoi_digits (the (ttext (list ! 2))) in do {
           r \<leftarrow> sys os (Access_exists (''/proc/'' @ show_int pid));
           if rv r \<noteq> 0 then lifted (printf os (nl ''snoop: no such process''))
           else do {
             r \<leftarrow> sys os (Ptrace PTRACE_ATTACH pid);
             if rv r < 0 then lifted (printf os (nl ''snoop: no such process''))
             else do { sys os (Waitpid pid False False False); snoop_trace os fuel pid True }
           }
         }))"

definition snoop_run :: "environment \<Rightarrow> nat \<Rightarrow> token_list_t \<Rightarrow> string \<Rightarrow> unit outcome sh" where
  "snoop_run os fuel list raw_cmd = do {
     exec_path \<leftarrow> snoop_path os raw_cmd;
     (case exec_path of
        None \<Rightarrow> lifted (printf os (nl ''snoop: command not found''))
      | Some p \<Rightarrow> do {
          pid \<leftarrow> posix_fork os (do {
            sys os (Ptrace PTRACE_TRACEME 0);
            do_exec os ''snoop'' p (map the (takeWhile (\<lambda>a. a \<noteq> None) (take 255 (map ttext (tl list)))))
          });
          if pid < 0 then do { sys os (Perror ''snoop: fork failed''); done_with (Done ()) }
          else do { sys os (Waitpid pid False False False); snoop_trace os fuel pid False }
        })
   }"

definition snoop_cmd :: "environment \<Rightarrow> nat \<Rightarrow> token_list_t \<Rightarrow> unit outcome sh" where
  "snoop_cmd os fuel list =
     (if length list < 2 then lifted (printf os (nl ''snoop: invalid syntax''))
      else
        (case ttext (list ! 1) of
           None \<Rightarrow> done_with Crash
         | Some a \<Rightarrow> if a = ''-p'' then snoop_attach os fuel list else snoop_run os fuel list a))"

end
