(* ===== verification/Execute.thy ===== *)
theory Execute
  imports Builtins
begin

text \<open>
  Running commands (\<^verbatim>\<open>c-shell/src/execute.c\<close>): redirections, the search for the executable,
  child processes, pipelines in the foreground and in the background. The descriptor table of
  the shell and of each child is explicit; a child created by \<^verbatim>\<open>fork\<close> is recorded with the
  descriptors it has when it leaves the shell's code.
\<close>

section \<open>Arguments and redirections\<close>

text \<open>The size of the arrays \<^verbatim>\<open>argv\<close>, \<^verbatim>\<open>input_files\<close>, \<^verbatim>\<open>output_files\<close>, \<^verbatim>\<open>out_fds\<close>, \<^verbatim>\<open>stages\<close>, \<^verbatim>\<open>pipes\<close> and \<^verbatim>\<open>pids\<close>.\<close>

definition MAX_ARRAY :: nat where "MAX_ARRAY = 256"

text \<open>The output files with their \<^verbatim>\<open>is_append\<close>.\<close>

record redirs =
  argv :: "string list"
  input_files :: "string list"
  output_files :: "(string \<times> bool) list"

definition no_redirs :: redirs where
  "no_redirs = \<lparr>argv = [], input_files = [], output_files = []\<rparr>"

text \<open>The text of a word token; the lexer gives every word one.\<close>

definition text_of :: "token_t \<Rightarrow> string" where
  "text_of t = (case ttext t of None \<Rightarrow> [] | Some x \<Rightarrow> x)"

text \<open>
  The loop over the tokens of a command: \<open>Done None\<close> is a redirection without a file name. The
  numbers of input and output files are not bounded by the code, so the element behind the
  end of an array is a \<open>Crash\<close>.
\<close>

fun scan_redirs :: "token_list_t \<Rightarrow> redirs \<Rightarrow> redirs option outcome" where
  "scan_redirs [] r = Done (Some r)"
| "scan_redirs [t] r =
     (case ttype t of
        OP_LT \<Rightarrow> Done None
      | OP_GT \<Rightarrow> Done None
      | OP_GTGT \<Rightarrow> Done None
      | OP_WORD \<Rightarrow> Done (Some (if length (argv r) < MAX_ARRAY - 1 then r\<lparr>argv := argv r @ [text_of t]\<rparr> else r))
      | _ \<Rightarrow> Done (Some r))"
| "scan_redirs (t # u # ts) r =
     (case ttype t of
        OP_LT \<Rightarrow>
          if ttype u \<noteq> OP_WORD then Done None
          else if MAX_ARRAY \<le> length (input_files r) then Crash
          else scan_redirs ts (r\<lparr>input_files := input_files r @ [text_of u]\<rparr>)
      | OP_GT \<Rightarrow>
          if ttype u \<noteq> OP_WORD then Done None
          else if MAX_ARRAY \<le> length (output_files r) then Crash
          else scan_redirs ts (r\<lparr>output_files := output_files r @ [(text_of u, False)]\<rparr>)
      | OP_GTGT \<Rightarrow>
          if ttype u \<noteq> OP_WORD then Done None
          else if MAX_ARRAY \<le> length (output_files r) then Crash
          else scan_redirs ts (r\<lparr>output_files := output_files r @ [(text_of u, True)]\<rparr>)
      | OP_WORD \<Rightarrow>
          scan_redirs (u # ts) (if length (argv r) < MAX_ARRAY - 1 then r\<lparr>argv := argv r @ [text_of t]\<rparr> else r)
      | _ \<Rightarrow> scan_redirs (u # ts) r)"

definition ends_group :: "token_t \<Rightarrow> bool" where
  "ends_group t \<longleftrightarrow> ttype t = OP_SEMI \<or> ttype t = OP_AMP"

section \<open>Opening files\<close>

text \<open>Whether every input file can be opened; they are closed again.\<close>

fun check_inputs :: "environment \<Rightarrow> string list \<Rightarrow> bool sh" where
  "check_inputs os [] = done_with True"
| "check_inputs os (f # fs) = do {
     fd \<leftarrow> posix_open os f O_RDONLY;
     if fd < 0 then done_with False else do { posix_close os (nat fd); check_inputs os fs }
   }"

definition out_flag :: "bool \<Rightarrow> oflag" where
  "out_flag is_append = (if is_append then O_APPEND else O_TRUNC)"

text \<open>The descriptors opened, and whether all files could be opened.\<close>

fun open_outputs :: "environment \<Rightarrow> (string \<times> bool) list \<Rightarrow> nat list \<Rightarrow> (bool \<times> nat list) sh" where
  "open_outputs os [] out_fds = done_with (True, out_fds)"
| "open_outputs os ((f, ap) # fs) out_fds = do {
     fd \<leftarrow> posix_open os f (out_flag ap);
     if fd < 0 then done_with (False, out_fds) else open_outputs os fs (out_fds @ [nat fd])
   }"

definition close_all :: "environment \<Rightarrow> nat list \<Rightarrow> unit sh" where
  "close_all os ns = for_each ns (posix_close os)"

section \<open>The executable\<close>

text \<open>A leading percent sign: it is dropped and the current directory is not searched.\<close>

definition skips_cwd :: "string \<Rightarrow> bool" where
  "skips_cwd raw_cmd \<longleftrightarrow> take 1 raw_cmd = ''%''"

definition bare_cmd :: "string \<Rightarrow> string" where
  "bare_cmd raw_cmd = (if skips_cwd raw_cmd then tl raw_cmd else raw_cmd)"

text \<open>The candidate for a directory of \<^verbatim>\<open>PATH\<close>.\<close>

definition path_candidate :: "environment \<Rightarrow> string \<Rightarrow> string \<Rightarrow> string sh" where
  "path_candidate os cmd dir =
     (if dir = [] then do {
        r \<leftarrow> sys os Getcwd;
        done_with (case rtext r of Some w \<Rightarrow> under (PATH_MAX + 512) w cmd | None \<Rightarrow> bounded_copy (PATH_MAX + 512) cmd)
      }
      else done_with (under (PATH_MAX + 512) dir cmd))"

fun search_path :: "environment \<Rightarrow> string \<Rightarrow> string list \<Rightarrow> string option sh" where
  "search_path os cmd [] = done_with None"
| "search_path os cmd (dir # ds) = do {
     c \<leftarrow> path_candidate os cmd dir;
     x \<leftarrow> execute_is_executable os c;
     if x then done_with (Some c) else search_path os cmd ds
   }"

definition search_cwd :: "environment \<Rightarrow> string \<Rightarrow> string option sh" where
  "search_cwd os cmd = do {
     r \<leftarrow> sys os Getcwd;
     (case rtext r of
        None \<Rightarrow> done_with None
      | Some w \<Rightarrow> first_executable os [under (PATH_MAX + 512) w cmd])
   }"

definition find_exec :: "environment \<Rightarrow> bool \<Rightarrow> string \<Rightarrow> string option sh" where
  "find_exec os skip_cwd cmd =
     (if \<not> skip_cwd \<and> has_char (CHR ''/'') cmd then first_executable os [cmd]
      else do {
        p \<leftarrow> (if skip_cwd then done_with None else search_cwd os cmd);
        (case p of
           Some c \<Rightarrow> done_with (Some c)
         | None \<Rightarrow> do {
             env_path \<leftarrow> gets (\<lambda>s. environ s ''PATH'');
             search_path os cmd (case env_path of None \<Rightarrow> [] | Some e \<Rightarrow> strtok_all (CHR '':'') e)
           })
      })"

section \<open>The child\<close>

text \<open>Several input files are fed through a pipe by a process of its own.\<close>

fun feed_files :: "environment \<Rightarrow> nat \<Rightarrow> string list \<Rightarrow> unit sh" where
  "feed_files os w [] = done_with ()"
| "feed_files os w (f # fs) = do {
     fd \<leftarrow> posix_open os f O_RDONLY;
     (if 0 \<le> fd then do { sys os (Copy_loop (nat fd) [w]); posix_close os (nat fd) } else done_with ());
     feed_files os w fs
   }"

definition feeder :: "environment \<Rightarrow> nat \<Rightarrow> nat \<Rightarrow> string list \<Rightarrow> child_end sh" where
  "feeder os rd w fs = do {
     posix_close os rd;
     feed_files os w fs;
     posix_close os w;
     done_with (Exit_code 0)
   }"

definition redirect_input :: "environment \<Rightarrow> string list \<Rightarrow> unit sh" where
  "redirect_input os fs =
     (case fs of
        [] \<Rightarrow> done_with ()
      | [f] \<Rightarrow> do {
          fd \<leftarrow> posix_open os f O_RDONLY;
          if 0 \<le> fd then do { posix_dup2 os (nat fd) 0; posix_close os (nat fd) } else done_with ()
        }
      | _ \<Rightarrow> do {
          p \<leftarrow> posix_pipe os;
          (case p of
             None \<Rightarrow> done_with ()
           | Some (rd, w) \<Rightarrow> do {
               pid \<leftarrow> posix_fork os (feeder os rd w fs);
               posix_close os w;
               posix_dup2 os rd 0;
               posix_close os rd;
               sys os (Waitpid pid False False False);
               done_with ()
             })
        })"

definition writer :: "environment \<Rightarrow> nat \<Rightarrow> nat \<Rightarrow> nat list \<Rightarrow> child_end sh" where
  "writer os rd w out_fds = do {
     posix_close os w;
     sys os (Copy_loop rd out_fds);
     posix_close os rd;
     close_all os out_fds;
     done_with (Exit_code 0)
   }"

definition redirect_output :: "environment \<Rightarrow> nat list \<Rightarrow> unit sh" where
  "redirect_output os out_fds =
     (case out_fds of
        [] \<Rightarrow> done_with ()
      | [fd] \<Rightarrow> do { posix_dup2 os fd 1; posix_close os fd }
      | _ \<Rightarrow> do {
          p \<leftarrow> posix_pipe os;
          (case p of
             None \<Rightarrow> done_with ()
           | Some (rd, w) \<Rightarrow> do {
               posix_fork os (writer os rd w out_fds);
               posix_close os rd;
               posix_dup2 os w 1;
               posix_close os w;
               close_all os out_fds
             })
        })"

text \<open>From the reset of the signals to \<^verbatim>\<open>execv\<close>.\<close>

definition become :: "environment \<Rightarrow> redirs \<Rightarrow> nat list \<Rightarrow> string \<Rightarrow> child_end sh" where
  "become os r out_fds exec_path = do {
     sys os Signals_default;
     redirect_input os (input_files r);
     redirect_output os out_fds;
     do_exec os ''cshell'' exec_path ((bare_cmd (hd (argv r))) # tl (argv r))
   }"

section \<open>A single command\<close>

text \<open>The child of a background job waits until the shell has written a byte.\<close>

definition sync_child :: "environment \<Rightarrow> (nat \<times> nat) option \<Rightarrow> unit sh" where
  "sync_child os sync =
     (case sync of
        None \<Rightarrow> done_with ()
      | Some (rd, w) \<Rightarrow> do { posix_close os w; sys os (Read_sync rd); posix_close os rd })"

definition release_child :: "environment \<Rightarrow> nat \<times> nat \<Rightarrow> int \<Rightarrow> int \<Rightarrow> unit sh" where
  "release_child os sync jid pid = do {
     posix_close os (fst sync);
     printf os (nl (''['' @ show_int jid @ ''] '' @ show_int pid));
     sys os (Write_sync (snd sync));
     posix_close os (snd sync)
   }"

definition display_cmd :: "string option \<Rightarrow> string \<Rightarrow> string" where
  "display_cmd full alt = (case full of None \<Rightarrow> alt | Some f \<Rightarrow> if f = [] then alt else f)"

definition is_stop :: "wstatus \<Rightarrow> bool" where
  "is_stop st = (case st of Stopped _ \<Rightarrow> True | _ \<Rightarrow> False)"

definition wait_fg :: "environment \<Rightarrow> int \<Rightarrow> string \<Rightarrow> string option \<Rightarrow> bool sh" where
  "wait_fg os pid cmd full = do {
     give_terminal os pid;
     w \<leftarrow> sys os (Waitpid pid False True False);
     take_terminal os;
     if is_stop (rstatus w) then do {
       s_id \<leftarrow> jobs_alloc_id;
       jobs_add_stopped s_id pid [pid] [cmd] (Some (display_cmd full cmd));
       printf os (nl (''['' @ show_int s_id @ ''] + Stopped  '' @ display_cmd full cmd));
       done_with False
     }
     else done_with True
   }"

text \<open>From the search for the executable on; \<open>bg\<close> is the job number and name of a background job.\<close>

definition spawn :: "environment \<Rightarrow> redirs \<Rightarrow> nat list \<Rightarrow> string \<Rightarrow> (int \<times> string) option \<Rightarrow> string option \<Rightarrow> (nat \<times> nat) option \<Rightarrow> bool sh" where
  "spawn os r out_fds exec_path bg full sync = do {
     pid \<leftarrow> posix_fork os (do {
       sys os (Setpgid 0 0);
       sync_child os sync;
       become os r out_fds exec_path
     });
     if 0 < pid then do {
       sys os (Setpgid pid pid);
       close_all os out_fds;
       (case (bg, sync) of
          (Some (jid, bg_cmd), Some sy) \<Rightarrow> do {
            release_child os sy jid pid;
            jobs_add jid pid bg_cmd full;
            done_with True
          }
        | _ \<Rightarrow> wait_fg os pid (bare_cmd (hd (argv r))) full)
     }
     else do {
       sys os (Perror ''cshell: fork failed'');
       close_all os out_fds;
       (case sync of None \<Rightarrow> done_with () | Some (rd, w) \<Rightarrow> close_all os [rd, w]);
       done_with False
     }
   }"

definition run_command :: "environment \<Rightarrow> redirs \<Rightarrow> nat list \<Rightarrow> (int \<times> string) option \<Rightarrow> string option \<Rightarrow> bool sh" where
  "run_command os r out_fds bg full =
     (let raw_cmd = hd (argv r); cmd = bare_cmd raw_cmd in do {
        exec_path \<leftarrow> find_exec os (skips_cwd raw_cmd) cmd;
        (case exec_path of
           None \<Rightarrow> do {
             printf os (nl (''cshell: command not found ('' @ cmd @ '')''));
             close_all os out_fds;
             done_with False
           }
         | Some p \<Rightarrow>
             if bg = None then spawn os r out_fds p bg full None
             else do {
               sync \<leftarrow> posix_pipe os;
               (case sync of
                  None \<Rightarrow> do {
                    sys os (Perror ''cshell: pipe failed'');
                    close_all os out_fds;
                    done_with False
                  }
                | Some sy \<Rightarrow> spawn os r out_fds p bg full (Some sy))
             })
      })"

definition execute_cmd_internal :: "environment \<Rightarrow> token_list_t \<Rightarrow> (int \<times> string) option \<Rightarrow> string option \<Rightarrow> bool outcome sh" where
  "execute_cmd_internal os list bg full =
     (if list = [] then done_with (Done True)
      else obind (done_with (scan_redirs (takeWhile (\<lambda>t. \<not> ends_group t) list) no_redirs)) (\<lambda>scan.
        lifted (case scan of
           None \<Rightarrow> do { printf os (nl ''cshell: invalid syntax''); done_with False }
         | Some r \<Rightarrow>
             if argv r = [] then done_with True
             else do {
               ok \<leftarrow> check_inputs os (input_files r);
               if \<not> ok then do { printf os (nl ''cshell: no such file or directory''); done_with False }
               else do {
                 (ok, out_fds) \<leftarrow> open_outputs os (output_files r) [];
                 if \<not> ok then do {
                   printf os (nl ''cshell: unable to create file for writing'');
                   close_all os out_fds;
                   done_with False
                 }
                 else run_command os r out_fds bg full
               }
             })))"

definition execute_cmd :: "environment \<Rightarrow> token_list_t \<Rightarrow> bool outcome sh" where
  "execute_cmd os list = execute_cmd_internal os list None None"

section \<open>A stage of a pipeline\<close>

text \<open>The world \<^verbatim>\<open>peek\<close> sees, as the environment answers at this point.\<close>

definition peek_world :: "environment \<Rightarrow> history \<Rightarrow> peek_env" where
  "peek_world os h =
     \<lparr>pe_node = (\<lambda>f. if rv (os h (Stat f)) \<noteq> 0 then Missing
                  else if risdir (os h (Stat f)) then Directory
                  else case rtext (os h (Read_file f)) of None \<Rightarrow> Unreadable | Some t \<Rightarrow> Regular t),
      pe_stdin = (case rtext (os h Read_stdin) of None \<Rightarrow> [] | Some t \<Rightarrow> t),
      pe_tty = (rv (os h (Isatty 0)) \<noteq> 0)\<rparr>"

definition run_peek :: "environment \<Rightarrow> token_list_t \<Rightarrow> unit sh" where
  "run_peek os list = do { h \<leftarrow> gets hist; printf os (fst (peek list (peek_world os h))) }"

definition builtin :: "environment \<Rightarrow> nat \<Rightarrow> token_list_t \<Rightarrow> unit outcome sh option" where
  "builtin os fuel list =
     (if list = [] \<or> ttype (hd list) \<noteq> OP_WORD then None
      else
        (let c = text_of (hd list) in
         if c = ''hop'' then Some (lifted (hop os list))
         else if c = ''reveal'' then Some (reveal os fuel list)
         else if c = ''peek'' then Some (lifted (run_peek os list))
         else if c = ''locate'' then Some (locate os list)
         else if c = ''activities'' then Some (lifted (activities os))
         else if c = ''resume'' then Some (resume_cmd os fuel list)
         else if c = ''ping'' then Some (ping_cmd os list)
         else if c = ''spy'' then Some (lifted (spy_cmd os list))
         else if c = ''snoop'' then Some (snoop_cmd os fuel list)
         else None))"

definition exit_after :: "unit outcome sh \<Rightarrow> child_end sh" where
  "exit_after m = do {
     r \<leftarrow> m;
     done_with (case r of Done _ \<Rightarrow> Exit_code 0 | Crash \<Rightarrow> Child_crash | Waiting \<Rightarrow> Child_waiting)
   }"

definition stage_command :: "environment \<Rightarrow> redirs \<Rightarrow> child_end sh" where
  "stage_command os r = do {
     ok \<leftarrow> check_inputs os (input_files r);
     if \<not> ok then do { printf os (nl ''cshell: no such file or directory''); done_with (Exit_code 1) }
     else do {
       (ok, out_fds) \<leftarrow> open_outputs os (output_files r) [];
       if \<not> ok then do { printf os (nl ''cshell: unable to create file for writing''); done_with (Exit_code 1) }
       else do {
         exec_path \<leftarrow> find_exec os (skips_cwd (hd (argv r))) (bare_cmd (hd (argv r)));
         (case exec_path of
            None \<Rightarrow> do {
              printf os (nl (''cshell: command not found ('' @ bare_cmd (hd (argv r)) @ '')''));
              done_with (Exit_code 1)
            }
          | Some p \<Rightarrow> become os r out_fds p)
       }
     }
   }"

definition execute_stage_child :: "environment \<Rightarrow> nat \<Rightarrow> token_list_t \<Rightarrow> child_end sh" where
  "execute_stage_child os fuel list =
     (if list = [] then done_with (Exit_code 0)
      else
        (case builtin os fuel list of
           Some m \<Rightarrow> exit_after m
         | None \<Rightarrow>
             (case scan_redirs list no_redirs of
                Done None \<Rightarrow> do { printf os (nl ''cshell: invalid syntax''); done_with (Exit_code 1) }
              | Done (Some r) \<Rightarrow> if argv r = [] then done_with (Exit_code 0) else stage_command os r
              | Crash \<Rightarrow> done_with Child_crash
              | Waiting \<Rightarrow> done_with Child_waiting)))"

section \<open>Pipelines\<close>

text \<open>The number of stages: pipe signs before the first semicolon or ampersand, plus one.\<close>

fun count_pipes :: "token_list_t \<Rightarrow> nat" where
  "count_pipes [] = 0"
| "count_pipes (t # ts) =
     (if ends_group t then 0 else if ttype t = OP_PIPE then count_pipes ts + 1 else count_pipes ts)"

definition num_stages :: "token_list_t \<Rightarrow> nat" where
  "num_stages list = count_pipes list + 1"

definition add_stage :: "token_list_t \<Rightarrow> token_list_t list \<Rightarrow> token_list_t list" where
  "add_stage st acc = (if length acc < MAX_ARRAY then acc @ [st] else acc)"

text \<open>The loop that cuts the list into stages; \<open>start\<close> is \<^verbatim>\<open>start_idx\<close>.\<close>

function stage_loop :: "token_list_t \<Rightarrow> nat \<Rightarrow> nat \<Rightarrow> token_list_t list \<Rightarrow> nat \<times> token_list_t list" where
  "stage_loop list i start acc =
     (if i < length list then
        (let st = take (i - start) (drop start list) in
         if ends_group (list ! i) then (start, if start < i then add_stage st acc else acc)
         else if ttype (list ! i) = OP_PIPE then stage_loop list (i + 1) (i + 1) (add_stage st acc)
         else stage_loop list (i + 1) start acc)
      else (start, acc))"
  by pat_completeness auto
termination by (relation "measure (\<lambda>(list, i, start, acc). length list - i)") auto

declare stage_loop.simps [simp del]

definition split_stages :: "token_list_t \<Rightarrow> token_list_t list" where
  "split_stages list =
     (case stage_loop list 0 0 [] of
        (start, acc) \<Rightarrow>
          if start < length list \<and> \<not> ends_group (list ! start) then add_stage (drop start list) acc else acc)"

text \<open>The stages, or \<open>None\<close> where the code reports a syntax error.\<close>

definition stages_of :: "token_list_t \<Rightarrow> token_list_t list option" where
  "stages_of list =
     (let stages = split_stages list in
      if length stages < num_stages list \<or> [] \<in> set stages then None else Some stages)"

text \<open>The pipes between the stages; an earlier pipe stays open when a later one fails.\<close>

fun make_pipes :: "environment \<Rightarrow> nat \<Rightarrow> (nat \<times> nat) list \<Rightarrow> (nat \<times> nat) list option sh" where
  "make_pipes os 0 pipes = done_with (Some pipes)"
| "make_pipes os (Suc n) pipes = do {
     p \<leftarrow> posix_pipe os;
     (case p of None \<Rightarrow> done_with None | Some x \<Rightarrow> make_pipes os n (pipes @ [x]))
   }"

definition close_pipes :: "environment \<Rightarrow> (nat \<times> nat) list \<Rightarrow> unit sh" where
  "close_pipes os pipes = for_each pipes (\<lambda>p. do { posix_close os (fst p); posix_close os (snd p) })"

definition has_input_redir :: "token_list_t \<Rightarrow> bool" where
  "has_input_redir st \<longleftrightarrow> (\<exists>t \<in> set st. ttype t = OP_LT)"

definition has_output_redir :: "token_list_t \<Rightarrow> bool" where
  "has_output_redir st \<longleftrightarrow> (\<exists>t \<in> set st. ttype t = OP_GT \<or> ttype t = OP_GTGT)"

definition plumb :: "environment \<Rightarrow> token_list_t \<Rightarrow> (nat \<times> nat) list \<Rightarrow> nat \<Rightarrow> unit sh" where
  "plumb os st pipes i = do {
     (if \<not> has_input_redir st \<and> 0 < i then posix_dup2 os (fst (pipes ! (i - 1))) 0 else done_with ());
     (if \<not> has_output_redir st \<and> i < length pipes then posix_dup2 os (snd (pipes ! i)) 1 else done_with ());
     close_pipes os pipes
   }"

text \<open>The child of stage \<open>i\<close>; \<open>pids\<close> are the children created before it.\<close>

definition stage_child :: "environment \<Rightarrow> nat \<Rightarrow> token_list_t list \<Rightarrow> (nat \<times> nat) list \<Rightarrow> (nat \<times> nat) option \<Rightarrow> nat \<Rightarrow> int list \<Rightarrow> child_end sh" where
  "stage_child os fuel stages pipes sync i pids = do {
     sys os (Setpgid 0 (if i = 0 then 0 else pids ! 0));
     sync_child os sync;
     plumb os (stages ! i) pipes i;
     execute_stage_child os fuel (stages ! i)
   }"

fun fork_stages :: "environment \<Rightarrow> (nat \<Rightarrow> int list \<Rightarrow> child_end sh) \<Rightarrow> nat list \<Rightarrow> int list \<Rightarrow> int list sh" where
  "fork_stages os body [] pids = done_with pids"
| "fork_stages os body (i # is) pids = do {
     pid \<leftarrow> posix_fork os (body i pids);
     sys os (Setpgid pid (if i = 0 then pid else pids ! 0));
     fork_stages os body is (pids @ [pid])
   }"

fun wait_stages :: "environment \<Rightarrow> int list \<Rightarrow> bool \<Rightarrow> bool sh" where
  "wait_stages os [] any_stopped = done_with any_stopped"
| "wait_stages os (pid # ps) any_stopped = do {
     w \<leftarrow> sys os (Waitpid pid False True False);
     wait_stages os ps (any_stopped \<or> is_stop (rstatus w))
   }"

definition stage_cmds :: "token_list_t list \<Rightarrow> string list" where
  "stage_cmds stages = map (\<lambda>st. text_of (hd st)) stages"

definition run_stages_fg :: "environment \<Rightarrow> nat \<Rightarrow> token_list_t list \<Rightarrow> string option \<Rightarrow> bool sh" where
  "run_stages_fg os fuel stages full = do {
     pipes \<leftarrow> make_pipes os (length stages - 1) [];
     (case pipes of
        None \<Rightarrow> do { sys os (Perror ''cshell: pipe failed''); done_with False }
      | Some pipes \<Rightarrow> do {
          pids \<leftarrow> fork_stages os (stage_child os fuel stages pipes None) [0..<length stages] [];
          close_pipes os pipes;
          give_terminal os (pids ! 0);
          any_stopped \<leftarrow> wait_stages os pids False;
          take_terminal os;
          if any_stopped then
            (let disp = display_cmd full (stage_cmds stages ! 0) in do {
               s_id \<leftarrow> jobs_alloc_id;
               jobs_add_stopped s_id (pids ! 0) pids (stage_cmds stages) (Some disp);
               printf os (nl (''['' @ show_int s_id @ ''] + Stopped    '' @ disp));
               done_with False
             })
          else done_with True
        })
   }"

definition execute_pipeline_fg :: "environment \<Rightarrow> nat \<Rightarrow> token_list_t \<Rightarrow> string option \<Rightarrow> bool outcome sh" where
  "execute_pipeline_fg os fuel list full =
     (if list = [] then done_with (Done True)
      else if num_stages list = 1 then
        (case builtin os fuel list of
           Some m \<Rightarrow> obind m (\<lambda>_. done_with (Done True))
         | None \<Rightarrow> execute_cmd_internal os list None full)
      else
        lifted (case stages_of list of
           None \<Rightarrow> do { printf os (nl ''cshell: invalid syntax''); done_with False }
         | Some stages \<Rightarrow> run_stages_fg os fuel stages full))"

definition execute_pipeline :: "environment \<Rightarrow> nat \<Rightarrow> token_list_t \<Rightarrow> bool outcome sh" where
  "execute_pipeline os fuel list = execute_pipeline_fg os fuel list None"

text \<open>The name of a background job: the first word without percent sign and directory.\<close>

definition bg_name :: "token_list_t \<Rightarrow> string" where
  "bg_name list =
     (case List.find (\<lambda>t. ttype t = OP_WORD) list of
        None \<Rightarrow> []
      | Some t \<Rightarrow> after_last (CHR ''/'') (bare_cmd (text_of t)))"

definition builtin_bg :: "environment \<Rightarrow> unit outcome sh \<Rightarrow> int \<Rightarrow> string \<Rightarrow> string option \<Rightarrow> bool sh" where
  "builtin_bg os m jid cmd full = do {
     sync \<leftarrow> posix_pipe os;
     (case sync of
        None \<Rightarrow> do { sys os (Perror ''cshell: pipe failed''); done_with False }
      | Some (rd, w) \<Rightarrow> do {
          pid \<leftarrow> posix_fork os (do {
            posix_close os w;
            sys os (Setpgid 0 0);
            sys os (Read_sync rd);
            posix_close os rd;
            sys os Signals_default;
            exit_after m
          });
          if pid < 0 then do {
            sys os (Perror ''cshell: fork failed'');
            close_all os [rd, w];
            done_with False
          }
          else do {
            sys os (Setpgid pid pid);
            release_child os (rd, w) jid pid;
            jobs_add jid pid cmd full;
            done_with True
          }
        })
   }"

definition run_stages_bg :: "environment \<Rightarrow> nat \<Rightarrow> token_list_t list \<Rightarrow> int \<Rightarrow> string option \<Rightarrow> bool sh" where
  "run_stages_bg os fuel stages jid full = do {
     pipes \<leftarrow> make_pipes os (length stages - 1) [];
     (case pipes of
        None \<Rightarrow> do { sys os (Perror ''cshell: pipe failed''); done_with False }
      | Some pipes \<Rightarrow> do {
          sync \<leftarrow> posix_pipe os;
          (case sync of
             None \<Rightarrow> do { sys os (Perror ''cshell: pipe failed''); close_pipes os pipes; done_with False }
           | Some sy \<Rightarrow> do {
               pids \<leftarrow> fork_stages os (stage_child os fuel stages pipes (Some sy)) [0..<length stages] [];
               close_pipes os pipes;
               release_child os sy jid (pids ! 0);
               jobs_add_pipeline jid (pids ! 0) pids (stage_cmds stages) (Some (display_cmd full (stage_cmds stages ! 0)));
               done_with True
             })
        })
   }"

definition execute_pipeline_bg :: "environment \<Rightarrow> nat \<Rightarrow> token_list_t \<Rightarrow> int \<Rightarrow> string option \<Rightarrow> bool outcome sh" where
  "execute_pipeline_bg os fuel list jid full =
     (if list = [] then done_with (Done True)
      else if num_stages list = 1 then
        (case builtin os fuel list of
           Some m \<Rightarrow> lifted (builtin_bg os m jid (bg_name list) full)
         | None \<Rightarrow> execute_cmd_internal os list (Some (jid, bg_name list)) full)
      else
        lifted (case stages_of list of
           None \<Rightarrow> do { printf os (nl ''cshell: invalid syntax''); done_with False }
         | Some stages \<Rightarrow> run_stages_bg os fuel stages jid full))"

end
