(* ===== verification/Execute_Fds.thy ===== *)
theory Execute_Fds
  imports Execute
begin

text \<open>
  Descriptors across \<^verbatim>\<open>open\<close>, \<^verbatim>\<open>close\<close>, \<^verbatim>\<open>dup2\<close>, \<^verbatim>\<open>pipe\<close> and \<^verbatim>\<open>fork\<close>: the rules from which the
  descriptor tables of the shell and of its children follow. A table is seen as the function
  \<open>fdv\<close>, so that it does not matter how far the list of descriptors extends.
\<close>

section \<open>The view of the table\<close>

definition fdv :: "shell \<Rightarrow> nat \<Rightarrow> fobj option" where
  "fdv s = fd_get (fds s)"

definition at :: "(nat \<Rightarrow> fobj option) \<Rightarrow> nat \<Rightarrow> child list \<Rightarrow> shell \<Rightarrow> bool" where
  "at V n K s \<longleftrightarrow> fdv s = V \<and> npipes s = n \<and> kids s = K"

lemma fd_get_set: "fd_get (fd_set n x t) m = (if m = n then x else fd_get t m)"
proof (cases "n < length t")
  case False
  define k where "k = n - length t"
  have n: "n = length t + k" using False by (simp add: k_def)
  consider "m < length t" | j where "m = length t + j" "j < k" | "m = n" | "n < m"
    using n by (metis add_less_cancel_left le_Suc_ex linorder_neqE_nat not_less)
  then show ?thesis by cases (use False n in \<open>simp_all add: fd_get_def fd_set_def nth_append\<close>)
qed (simp add: fd_get_def fd_set_def)

lemma fd_low_free: "fd_get t (fd_low t) = None"
  using nth_length_takeWhile [of "\<lambda>x. x \<noteq> None" t] unfolding fd_get_def fd_low_def by presburger

section \<open>Triples\<close>

definition triple :: "(shell \<Rightarrow> bool) \<Rightarrow> 'a sh \<Rightarrow> ('a \<Rightarrow> shell \<Rightarrow> bool) \<Rightarrow> bool" where
  "triple P m Q \<longleftrightarrow> (\<forall>s. P s \<longrightarrow> wp m Q s)"

named_theorems triple_rules \<open>triples of the operations on descriptors\<close>

lemma tripleD: "triple P m Q \<Longrightarrow> P s \<Longrightarrow> wp m Q s"
  by (simp add: triple_def)

lemma triple_weaken: "triple P m Q \<Longrightarrow> (\<And>s. P' s \<Longrightarrow> P s) \<Longrightarrow> (\<And>x s. Q x s \<Longrightarrow> Q' x s) \<Longrightarrow> triple P' m Q'"
  unfolding triple_def by (blast intro: wp_mono)

lemma triple_post: "triple P m Q \<Longrightarrow> (\<And>x s. Q x s \<Longrightarrow> Q' x s) \<Longrightarrow> triple P m Q'"
  by (rule triple_weaken)

lemma triple_bind: "triple P m R \<Longrightarrow> (\<And>x. triple (R x) (f x) Q) \<Longrightarrow> triple P (do { x \<leftarrow> m; f x }) Q"
  unfolding triple_def by (blast intro: wp_bindI)

lemma triple_return: "(\<And>s. P s \<Longrightarrow> Q x s) \<Longrightarrow> triple P (done_with x) Q"
  by (simp add: triple_def wp_rules)

lemma triple_gets: "(\<And>s. P s \<Longrightarrow> Q (f s) s) \<Longrightarrow> triple P (gets f) Q"
  by (simp add: triple_def wp_rules)

lemma triple_if: "(b \<Longrightarrow> triple P m Q) \<Longrightarrow> (\<not> b \<Longrightarrow> triple P n Q) \<Longrightarrow> triple P (if b then m else n) Q"
  by simp

lemma triple_keeps: "keeps I m \<Longrightarrow> triple I m (\<lambda>_. I)"
  by (simp add: triple_def keeps_def)

lemma triple_False: "triple (\<lambda>_. False) m Q"
  by (simp add: triple_def)

lemma triple_pure: "(b \<Longrightarrow> triple P m Q) \<Longrightarrow> triple (\<lambda>s. b \<and> P s) m Q"
  by (auto simp: triple_def)

lemma triple_ex: "(\<And>y. triple (P y) m Q) \<Longrightarrow> triple (\<lambda>s. \<exists>y. P y s) m Q"
  by (auto simp: triple_def)

lemma triple_disj: "triple P m Q \<Longrightarrow> triple P' m Q \<Longrightarrow> triple (\<lambda>s. P s \<or> P' s) m Q"
  by (auto simp: triple_def)

lemma triple_step: "triple P m R \<Longrightarrow> (\<And>x. triple (R x) (f x) Q) \<Longrightarrow> triple P (m \<bind> f) Q"
  by (rule triple_bind)

text \<open>What a system call leaves alone, apart from the call itself and the handlers.\<close>

lemma at_off_table: "off_table (at V n K)"
  by (simp add: off_table_def flag_free_def ignores_def at_def fdv_def)

lemma at_ignores: "ignores (at V n K) c"
  by (simp add: ignores_def at_def fdv_def)

lemma at_sys: "triple (at V n K) (sys os c) (\<lambda>_. at V n K)"
  by (intro triple_keeps off_table_sys at_off_table at_ignores)

lemma at_printf: "triple (at V n K) (printf os t) (\<lambda>_. at V n K)"
  by (intro triple_keeps keeps_printf off_table_sys at_off_table at_ignores)

lemma at_sys_result: "(\<And>h. R (os h c)) \<Longrightarrow> triple (at V n K) (sys os c) (\<lambda>r s. R r \<and> at V n K s)"
  unfolding triple_def
  by (intro allI impI wp_yields yields_sys tripleD [OF at_sys])

section \<open>Descriptor operations\<close>

lemma at_close: "triple (at V n K) (posix_close os d) (\<lambda>_. at (V(d := None)) n K)"
  unfolding posix_close_def
  by (rule triple_bind [OF at_sys]) (auto simp: triple_def wp_rules at_def fdv_def fd_get_set)

lemma at_dup2: "V a \<noteq> None \<Longrightarrow> triple (at V n K) (posix_dup2 os a b) (\<lambda>_. at (V(b := V a)) n K)"
  unfolding posix_dup2_def
  by (rule triple_bind [OF at_sys]) (auto simp: triple_def wp_rules at_def fdv_def fd_get_set)

definition opened :: "string \<Rightarrow> oflag \<Rightarrow> fobj" where
  "opened p fl = (case fl of O_RDONLY \<Rightarrow> File_in p | O_APPEND \<Rightarrow> File_out p True | O_TRUNC \<Rightarrow> File_out p False)"

lemma at_open:
  "triple (at V n K) (posix_open os p fl) (\<lambda>fd s. fd = - 1 \<and> at V n K s \<or>
     0 \<le> fd \<and> V (nat fd) = None \<and> at (V(nat fd := Some (opened p fl))) n K s)"
  unfolding posix_open_def
  by (rule triple_bind [OF at_sys])
    (auto simp: triple_def wp_rules at_def fdv_def fd_get_set fd_low_free opened_def)

lemma at_pipe:
  "triple (at V n K) (posix_pipe os) (\<lambda>p s. p = None \<and> at V n K s \<or>
     (\<exists>a b. p = Some (a, b) \<and> a \<noteq> b \<and> V a = None \<and> V b = None \<and>
        at (V(a := Some (Pipe_rd n), b := Some (Pipe_wr n))) (Suc n) K s))"
  unfolding posix_pipe_def
proof (rule triple_bind [OF at_sys])
  fix r
  have "fd_low (fd_set (fd_low t) (Some x) t) \<noteq> fd_low t"
    "fd_get t (fd_low (fd_set (fd_low t) (Some x) t)) = None" for t x
    using fd_low_free [of "fd_set (fd_low t) (Some x) t"] by (auto simp: fd_get_set split: if_splits)
  then show "triple (at V n K) (if rv r < 0 then done_with None else do {
       s \<leftarrow> gets (\<lambda>s. s);
       let a = fd_low (fds s); t = fd_set a (Some (Pipe_rd (npipes s))) (fds s); b = fd_low t in
         do { modify (\<lambda>s. s\<lparr>fds := fd_set b (Some (Pipe_wr (npipes s))) t, npipes := Suc (npipes s)\<rparr>); done_with (Some (a, b)) } })
     (\<lambda>p s. p = None \<and> at V n K s \<or> (\<exists>a b. p = Some (a, b) \<and> a \<noteq> b \<and> V a = None \<and> V b = None \<and>
        at (V(a := Some (Pipe_rd n), b := Some (Pipe_wr n))) (Suc n) K s))"
    by (auto simp: triple_def wp_rules at_def fdv_def fd_get_set fd_low_free Let_def fun_eq_iff) (metis fd_low_free)+
qed

lemma at_fork:
  assumes body: "triple (at V n []) body R"
  shows "triple (at V n K) (posix_fork os body) (\<lambda>pid s. pid = - 1 \<and> at V n K s \<or>
     0 < pid \<and> (\<exists>e c. R e c \<and> at V n (K @ [Child pid e (fds c) (hist c) (kids c)]) s))"
  unfolding posix_fork_def
proof (rule triple_bind [OF at_sys])
  fix r
  have "R (fst x) (snd x)" if "at V n K s" "x = run_state body (s\<lparr>hist := h, kids := []\<rparr>)" for s h x
  proof -
    have "at V n [] (s\<lparr>hist := h, kids := []\<rparr>)" using that(1) by (simp add: at_def fdv_def)
    from tripleD [OF body this] show ?thesis by (simp add: wp_run that(2))
  qed
  then show "triple (at V n K) (if 0 < rv r then do {
       modify (\<lambda>s. let h = butlast (hist s) @ [(Fork, r\<lparr>rv := 0\<rparr>)];
             (e, c) = run_state body (s\<lparr>hist := h, kids := []\<rparr>) in
         s\<lparr>kids := kids s @ [Child (rv r) e (fds c) (hist c) (kids c)]\<rparr>);
       done_with (rv r) } else done_with (- 1))
    (\<lambda>pid s. pid = - 1 \<and> at V n K s \<or>
     0 < pid \<and> (\<exists>e c. R e c \<and> at V n (K @ [Child pid e (fds c) (hist c) (kids c)]) s))"
    by (auto simp: triple_def wp_rules Let_def at_def fdv_def split: prod.splits) (metis fst_conv snd_conv)+
qed

section \<open>When no call fails\<close>

definition no_failures :: "environment \<Rightarrow> bool" where
  "no_failures os \<longleftrightarrow> (\<forall>h p fl. 0 \<le> rv (os h (Open p fl))) \<and> (\<forall>h. 0 \<le> rv (os h Pipe)) \<and> (\<forall>h. 0 < rv (os h Fork))"

lemma triple_yields: "triple P m Q \<Longrightarrow> yields R m \<Longrightarrow> triple P m (\<lambda>x s. R x \<and> Q x s)"
  by (simp add: triple_def wp_yields)

lemma yields_open: "no_failures os \<Longrightarrow> yields (\<lambda>fd. 0 \<le> fd) (posix_open os p fl)"
  unfolding posix_open_def
  by (rule yields_bind_from [OF yields_sys(2) [where P = "\<lambda>r. 0 \<le> rv r"]]) (auto simp: no_failures_def intro!: yields_rules)

lemma yields_pipe: "no_failures os \<Longrightarrow> yields (\<lambda>p. p \<noteq> None) (posix_pipe os)"
  unfolding posix_pipe_def Let_def
  by (rule yields_bind_from [OF yields_sys(2) [where P = "\<lambda>r. 0 \<le> rv r"]]) (auto simp: no_failures_def intro!: yields_rules)

lemma yields_fork: "no_failures os \<Longrightarrow> yields (\<lambda>pid. 0 < pid) (posix_fork os body)"
  unfolding posix_fork_def
  by (rule yields_bind_from [OF yields_sys(2) [where P = "\<lambda>r. 0 < rv r"]]) (auto simp: no_failures_def intro!: yields_rules)

lemma at_open_ok:
  assumes "no_failures os"
  shows "triple (at V n K) (posix_open os p fl) (\<lambda>fd s. 0 \<le> fd \<and> V (nat fd) = None \<and> at (V(nat fd := Some (opened p fl))) n K s)"
  by (rule triple_post [OF triple_yields [OF at_open yields_open [OF assms]]]) auto

lemma at_pipe_ok:
  assumes "no_failures os"
  shows "triple (at V n K) (posix_pipe os) (\<lambda>p s. \<exists>a b. p = Some (a, b) \<and> a \<noteq> b \<and> V a = None \<and> V b = None \<and>
        at (V(a := Some (Pipe_rd n), b := Some (Pipe_wr n))) (Suc n) K s)"
  by (rule triple_post [OF triple_yields [OF at_pipe yields_pipe [OF assms]]]) auto

lemma at_fork_ok:
  assumes "no_failures os" "triple (at V n []) body R"
  shows "triple (at V n K) (posix_fork os body) (\<lambda>pid s. 0 < pid \<and>
     (\<exists>e c. R e c \<and> at V n (K @ [Child pid e (fds c) (hist c) (kids c)]) s))"
  by (rule triple_post [OF triple_yields [OF at_fork [OF assms(2)] yields_fork [OF assms(1)]]]) auto

section \<open>Closing and opening several descriptors\<close>

lemma at_close_all: "triple (at V n K) (close_all os ds) (\<lambda>_. at (\<lambda>d. if d \<in> set ds then None else V d) n K)"
  unfolding close_all_def
proof (induction ds arbitrary: V)
  case Nil
  then show ?case by (auto intro!: triple_return)
next
  case (Cons d ds)
  have e: "(\<lambda>x. if x \<in> set ds then None else (V(d := None)) x) = (\<lambda>x. if x \<in> set (d # ds) then None else V x)" by auto
  show ?case unfolding for_each.simps by (rule triple_bind [OF at_close]) (rule Cons [of "V(d := None)", unfolded e])
qed

text \<open>The table \<open>V\<close> is \<open>W\<close> with the free descriptors \<open>ds\<close> open on \<open>xs\<close>.\<close>

definition outs_in :: "(nat \<Rightarrow> fobj option) \<Rightarrow> (nat \<Rightarrow> fobj option) \<Rightarrow> nat list \<Rightarrow> fobj list \<Rightarrow> bool" where
  "outs_in W V ds xs \<longleftrightarrow> length ds = length xs \<and> distinct ds \<and> (\<forall>i < length ds. V (ds ! i) = Some (xs ! i)) \<and>
     (\<forall>d. d \<notin> set ds \<longrightarrow> V d = W d) \<and> (\<forall>d \<in> set ds. W d = None)"

lemma outs_in_close: "outs_in W V ds xs \<Longrightarrow> (\<lambda>d. if d \<in> set ds then None else V d) = W"
  by (auto simp: outs_in_def fun_eq_iff)

lemma outs_in_upd: "outs_in W V ds xs \<Longrightarrow> d \<notin> set ds \<Longrightarrow> outs_in (W(d := x)) (V(d := x)) ds xs"
  unfolding outs_in_def by (metis fun_upd_apply nth_mem)

lemma outs_in_snoc:
  assumes "outs_in W V ds xs" "V d = None" shows "outs_in W (V(d := Some x)) (ds @ [d]) (xs @ [x])"
proof -
  have "d \<notin> set ds" using assms by (auto simp: outs_in_def in_set_conv_nth)
  then show ?thesis using assms by (auto simp: outs_in_def nth_append less_Suc_eq in_set_conv_nth)
qed

lemma at_open_outputs:
  assumes ok: "no_failures os" and o: "outs_in W V ds xs"
  shows "triple (at V n K) (open_outputs os fs ds) (\<lambda>r s. fst r \<and>
     (\<exists>V'. outs_in W V' (snd r) (xs @ map (\<lambda>(f, ap). opened f (out_flag ap)) fs) \<and> at V' n K s))"
  using o
proof (induction fs arbitrary: V ds xs)
  case Nil
  then show ?case by (auto intro!: triple_return)
next
  case (Cons f fs)
  obtain p ap where f: "f = (p, ap)" by (cases f)
  show ?case
    unfolding f open_outputs.simps
  proof (rule triple_bind [OF at_open_ok [OF ok]])
    fix fd
    show "triple (\<lambda>s. 0 \<le> fd \<and> V (nat fd) = None \<and> at (V(nat fd := Some (opened p (out_flag ap)))) n K s)
      (if fd < 0 then done_with (False, ds) else open_outputs os fs (ds @ [nat fd]))
      (\<lambda>r s. fst r \<and> (\<exists>V'. outs_in W V' (snd r) (xs @ map (\<lambda>(f, ap). opened f (out_flag ap)) ((p, ap) # fs)) \<and> at V' n K s))"
    proof (intro triple_pure)
      assume "0 \<le> fd" "V (nat fd) = None"
      then show "triple (at (V(nat fd := Some (opened p (out_flag ap)))) n K)
        (if fd < 0 then done_with (False, ds) else open_outputs os fs (ds @ [nat fd]))
        (\<lambda>r s. fst r \<and> (\<exists>V'. outs_in W V' (snd r) (xs @ map (\<lambda>(f, ap). opened f (out_flag ap)) ((p, ap) # fs)) \<and> at V' n K s))"
        using Cons.IH [OF outs_in_snoc [OF Cons.prems], of "nat fd" "opened p (out_flag ap)"] by (simp del: fun_upd_apply)
    qed
  qed
qed

lemma at_check_inputs: "triple (at V n K) (check_inputs os fs) (\<lambda>_. at V n K)"
proof (induction fs)
  case (Cons f fs)
  have e: "V d = None \<Longrightarrow> V(d := None) = V" for d by auto
  show ?case
    unfolding check_inputs.simps
  proof (rule triple_bind [OF at_open], intro triple_disj triple_pure triple_if)
    fix fd :: int
    assume "V (nat fd) = None"
    then show "triple (at (V(nat fd := Some (opened f O_RDONLY))) n K) (do { posix_close os (nat fd); check_inputs os fs }) (\<lambda>_. at V n K)"
      by (intro triple_bind [OF at_close]) (use Cons e in simp)
  qed (auto intro!: triple_return)
qed (auto intro!: triple_return)

section \<open>A child up to the program it runs\<close>

lemma triple_True: "triple P m (\<lambda>_ _. True)"
  by (simp add: triple_def wp_run)

text \<open>What standard input and output become; \<open>n\<close> is the number of the next pipe.\<close>

definition in_obj :: "string list \<Rightarrow> nat \<Rightarrow> fobj option \<Rightarrow> fobj option" where
  "in_obj fs n d = (case fs of [] \<Rightarrow> d | [f] \<Rightarrow> Some (File_in f) | _ \<Rightarrow> Some (Pipe_rd n))"

definition out_obj :: "(string \<times> bool) list \<Rightarrow> nat \<Rightarrow> fobj option \<Rightarrow> fobj option" where
  "out_obj fs n d = (case fs of [] \<Rightarrow> d | [(f, ap)] \<Rightarrow> Some (File_out f ap) | _ \<Rightarrow> Some (Pipe_wr n))"

lemma at_redirect_input:
  assumes ok: "no_failures os" and v: "V 0 \<noteq> None"
  shows "triple (at V n K) (redirect_input os fs)
     (\<lambda>_ s. \<exists>K'. at (V(0 := in_obj fs n (V 0))) (if length fs \<le> 1 then n else Suc n) K' s)"
proof -
  consider "fs = []" | f where "fs = [f]" | f g gs where "fs = f # g # gs" by (cases fs rule: list.exhaust; metis list.exhaust)
  then show ?thesis
  proof cases
    case 1
    then show ?thesis by (auto simp: redirect_input_def in_obj_def intro!: triple_return)
  next
    case 2
    have "triple (at (V(d := Some (File_in f))) n K) (do { posix_dup2 os d 0; posix_close os d }) (\<lambda>_ s. \<exists>K'. at (V(0 := Some (File_in f))) n K' s)"
      if "V d = None" for d
    proof -
      have e: "(V(d := Some (File_in f)))(0 := (V(d := Some (File_in f))) d, d := None) = V(0 := Some (File_in f))"
        using that v by (cases "d = 0") (auto simp: fun_eq_iff)
      show ?thesis
        by (rule triple_bind [OF at_dup2], simp, rule triple_post [OF at_close]) (use e in auto)
    qed
    then show ?thesis
      unfolding 2 redirect_input_def
      by (simp, intro triple_bind [OF at_open_ok [OF ok]] triple_pure) (simp add: in_obj_def opened_def)
  next
    case 3
    have "triple (at (V(a := Some (Pipe_rd n), b := Some (Pipe_wr n))) (Suc n) K)
      (do { pid \<leftarrow> posix_fork os (feeder os a b fs); posix_close os b; posix_dup2 os a 0; posix_close os a;
            sys os (Waitpid pid False False False); done_with () })
      (\<lambda>_ s. \<exists>K'. at (V(0 := Some (Pipe_rd n))) (Suc n) K' s)" (is "triple (at ?V _ _) _ _")
      if ab: "a \<noteq> b" "V a = None" "V b = None" for a b
    proof (rule triple_bind [OF at_fork_ok [OF ok triple_True]], intro triple_pure triple_ex, goal_cases)
      case (1 pid e c)
      let ?K = "K @ [Child pid e (fds c) (hist c) (kids c)]"
      have e: "?V(b := None, 0 := (?V(b := None)) a, a := None) = V(0 := Some (Pipe_rd n))" using ab v by (cases "a = 0"; cases "b = 0") (auto simp: fun_eq_iff)
      have a: "(?V(b := None)) a \<noteq> None" using ab by simp
      show ?case
        by (rule triple_bind [OF at_close], rule triple_bind [OF at_dup2], rule a, rule triple_bind [OF at_close],
            rule triple_bind [OF at_sys], rule triple_return) (use e in auto)
    qed
    then show ?thesis
      unfolding 3 redirect_input_def
      by (simp, intro triple_bind [OF at_pipe_ok [OF ok]] triple_ex triple_pure) (simp add: in_obj_def)
  qed
qed

lemma at_redirect_output:
  assumes ok: "no_failures os" and v: "W 1 \<noteq> None" and o: "outs_in W V ds (map (\<lambda>(f, ap). opened f (out_flag ap)) fs)"
  shows "triple (at V n K) (redirect_output os ds)
     (\<lambda>_ s. \<exists>n' K'. at (W(1 := out_obj fs n (W 1))) n' K' s)"
proof -
  have len: "length ds = length fs" using o by (simp add: outs_in_def)
  consider "ds = []" "fs = []" | d f ap where "ds = [d]" "fs = [(f, ap)]" | d e es where "ds = d # e # es" "1 < length fs"
  proof (cases ds)
    case (Cons d es)
    with len obtain f ap gs where "fs = (f, ap) # gs" "length gs = length es" by (cases fs) auto
    then show thesis using that Cons by (cases es) auto
  qed (use len that in simp)
  then show ?thesis
  proof cases
    case 1
    then have "V = W" using o by (auto simp: outs_in_def)
    then show ?thesis using 1 by (auto simp: redirect_output_def out_obj_def intro!: triple_return)
  next
    case 2
    have d: "V d = Some (File_out f ap)" "\<And>x. x \<noteq> d \<Longrightarrow> V x = W x" "W d = None"
      using o 2 by (auto simp: outs_in_def opened_def out_flag_def split: if_splits)
    have e: "V(1 := V d, d := None) = W(1 := Some (File_out f ap))" using d v by (auto simp: fun_eq_iff)
    show ?thesis unfolding redirect_output_def 2
      by (simp, rule triple_bind [OF at_dup2], simp add: d, rule triple_post [OF at_close])
        (use e in \<open>auto simp: out_obj_def\<close>)
  next
    case 3
    have dn: "d' \<in> set ds \<Longrightarrow> V d' \<noteq> None \<and> W d' = None" "d' \<notin> set ds \<Longrightarrow> V d' = W d'" for d'
      using o by (auto simp: outs_in_def in_set_conv_nth)
    have "triple (at (V(a := Some (Pipe_rd n), b := Some (Pipe_wr n))) (Suc n) K)
      (do { posix_fork os (writer os a b ds); posix_close os a; posix_dup2 os b 1; posix_close os b; close_all os ds })
      (\<lambda>_ s. \<exists>n' K'. at (W(1 := Some (Pipe_wr n))) n' K' s)" (is "triple (at ?V _ _) _ _")
      if ab: "a \<noteq> b" "V a = None" "V b = None" for a b
    proof (rule triple_bind [OF at_fork_ok [OF ok triple_True]], intro triple_pure triple_ex, goal_cases)
      case (1 pid e c)
      have n1: "a \<notin> set ds" "b \<notin> set ds" "1 \<notin> set ds" "a \<noteq> 1" "b \<noteq> 1" using dn v ab by metis+
      have b: "(?V(a := None)) b \<noteq> None" using ab by simp
      have e: "(\<lambda>d. if d \<in> set ds then None else (?V(a := None, 1 := (?V(a := None)) b, b := None)) d) = W(1 := Some (Pipe_wr n))"
        using ab dn n1 by (auto simp: fun_eq_iff)
      show ?case
        by (rule triple_bind [OF at_close], rule triple_bind [OF at_dup2], rule b, rule triple_bind [OF at_close],
            rule triple_post [OF at_close_all]) (use e in auto)
    qed
    then show ?thesis
      using 3(2) unfolding redirect_output_def 3(1)
      by (simp, intro triple_bind [OF at_pipe_ok [OF ok]] triple_ex triple_pure)
        (auto simp: out_obj_def 3(1) split: list.splits)
  qed
qed

text \<open>Operations that only make calls.\<close>

lemma at_is_executable: "keeps (at V n K) (execute_is_executable os p)"
  unfolding execute_is_executable_def by (intro keeps_rules off_table_sys at_off_table at_ignores)

lemma at_first_executable: "keeps (at V n K) (first_executable os cs)"
  by (induction cs) (auto intro!: keeps_rules at_is_executable)

lemma at_path_candidate: "keeps (at V n K) (path_candidate os cmd d)"
  unfolding path_candidate_def by (intro keeps_rules off_table_sys at_off_table at_ignores)

lemma at_search_path: "keeps (at V n K) (search_path os cmd ds)"
  by (induction ds) (auto intro!: keeps_rules at_is_executable at_path_candidate)

lemma at_find_exec: "keeps (at V n K) (find_exec os b cmd)"
  unfolding find_exec_def search_cwd_def
  by (intro keeps_rules at_first_executable at_search_path off_table_sys at_off_table at_ignores)

lemma at_do_exec: "keeps (at V n K) (do_exec os who p as)"
  unfolding do_exec_def by (intro keeps_rules off_table_sys at_off_table at_ignores)

text \<open>The table of a child that runs a program: \<open>W\<close> with standard input and output redirected.\<close>

definition redirected :: "(nat \<Rightarrow> fobj option) \<Rightarrow> nat \<Rightarrow> redirs \<Rightarrow> nat \<Rightarrow> fobj option" where
  "redirected W n r = W(0 := in_obj (input_files r) n (W 0),
     1 := out_obj (output_files r) (if length (input_files r) \<le> 1 then n else Suc n) (W 1))"

lemma at_become:
  assumes ok: "no_failures os" and w: "W 0 \<noteq> None" "W 1 \<noteq> None"
    and o: "outs_in W V ds (map (\<lambda>(f, ap). opened f (out_flag ap)) (output_files r))"
  shows "triple (at V n K) (become os r ds p) (\<lambda>_ s. fdv s = redirected W n r)"
proof -
  have z: "0 \<notin> set ds" using o w by (auto simp: outs_in_def)
  then have v0: "V 0 = W 0" using o by (simp add: outs_in_def)
  let ?x = "in_obj (input_files r) n (V 0)" and ?n = "if length (input_files r) \<le> 1 then n else Suc n"
  have o': "outs_in (W(0 := ?x)) (V(0 := ?x)) ds (map (\<lambda>(f, ap). opened f (out_flag ap)) (output_files r))"
    by (rule outs_in_upd [OF o z])
  have w1: "(W(0 := ?x)) 1 \<noteq> None" using w by simp
  have v: "V 0 \<noteq> None" using v0 w by simp
  show ?thesis
    unfolding become_def
  proof (rule triple_bind [OF at_sys], rule triple_bind [OF at_redirect_input [where V = V, OF ok v]], rule triple_ex,
      rule triple_bind [OF at_redirect_output [where W = "W(0 := ?x)", OF ok w1 o']], intro triple_ex, goal_cases)
    case (1 _ _ _ _ n' K')
    show ?case by (rule triple_post [OF triple_keeps [OF at_do_exec]]) (simp add: at_def redirected_def v0)
  qed
qed

definition is_exec :: "child_end \<Rightarrow> bool" where
  "is_exec e = (case e of Exec _ _ \<Rightarrow> True | _ \<Rightarrow> False)"

lemma is_exec_simps [simp]: "is_exec (Exec p as)" "\<not> is_exec (Exit_code c)" "\<not> is_exec Child_crash" "\<not> is_exec Child_waiting"
  by (simp_all add: is_exec_def)

lemma at_stage_command:
  assumes ok: "no_failures os" and w: "W 0 \<noteq> None" "W 1 \<noteq> None"
  shows "triple (at W n K) (stage_command os r) (\<lambda>e s. is_exec e \<longrightarrow> fdv s = redirected W n r)"
  unfolding stage_command_def
proof (rule triple_bind [OF at_check_inputs], goal_cases)
  case (1 b)
  have o: "outs_in W W [] []" by (simp add: outs_in_def)
  have bad: "triple P (do { printf os t; done_with (Exit_code 1) }) (\<lambda>e s. is_exec e \<longrightarrow> fdv s = redirected W n r)" for P t
    by (rule triple_bind [OF triple_True]) (simp add: triple_def wp_rules is_exec_def)
  have go: "triple (at V n K) (do {
         exec_path \<leftarrow> find_exec os (skips_cwd (hd (argv r))) (bare_cmd (hd (argv r)));
         (case exec_path of
            None \<Rightarrow> do { printf os (nl (''cshell: command not found ('' @ bare_cmd (hd (argv r)) @ '')'')); done_with (Exit_code 1) }
          | Some p \<Rightarrow> become os r ds p) })
      (\<lambda>e s. is_exec e \<longrightarrow> fdv s = redirected W n r)"
    if "outs_in W V ds (map (\<lambda>(f, ap). opened f (out_flag ap)) (output_files r))" for V ds
  proof (rule triple_bind [OF triple_keeps [OF at_find_exec]], goal_cases)
    case (1 p)
    show ?case using triple_post [OF at_become [OF ok w that]] bad by (cases p) auto
  qed
  have "triple (at W n K) (do {
       (ok, out_fds) \<leftarrow> open_outputs os (output_files r) [];
       if \<not> ok then do { printf os (nl ''cshell: unable to create file for writing''); done_with (Exit_code 1) }
       else do {
         exec_path \<leftarrow> find_exec os (skips_cwd (hd (argv r))) (bare_cmd (hd (argv r)));
         (case exec_path of
            None \<Rightarrow> do { printf os (nl (''cshell: command not found ('' @ bare_cmd (hd (argv r)) @ '')'')); done_with (Exit_code 1) }
          | Some p \<Rightarrow> become os r out_fds p) } })
      (\<lambda>e s. is_exec e \<longrightarrow> fdv s = redirected W n r)"
  proof (rule triple_bind [OF at_open_outputs [OF ok o]], goal_cases)
    case (1 x)
    obtain b ds where x: "x = (b, ds)" by (cases x)
    show ?case unfolding x prod.case fst_conv snd_conv
      by (intro triple_pure triple_ex, simp only: simp_thms if_False, rule go, simp)
  qed
  then show ?case using bad by simp
qed

lemma scan_redirs_has:
  assumes "scan_redirs ts r = Done (Some r')"
  shows "input_files r' = [] \<longleftrightarrow> input_files r = [] \<and> \<not> has_input_redir ts"
    "output_files r' = [] \<longleftrightarrow> output_files r = [] \<and> \<not> has_output_redir ts"
  using assms
  by (induction ts r rule: scan_redirs.induct)
    (auto simp: has_input_redir_def has_output_redir_def split: token_category.splits if_splits)

lemma at_stage_child:
  assumes ok: "no_failures os" and w: "W 0 \<noteq> None" "W 1 \<noteq> None"
  shows "triple (at W n K) (execute_stage_child os fuel st)
    (\<lambda>e s. is_exec e \<longrightarrow> (\<exists>r. scan_redirs st no_redirs = Done (Some r) \<and> fdv s = redirected W n r))"
proof -
  have quit: "triple P (done_with e) (\<lambda>e s. is_exec e \<longrightarrow> Q s)" if "\<not> is_exec e" for P e Q
    using that by (auto intro: triple_return)
  have b: "triple P (exit_after m) (\<lambda>e s. is_exec e \<longrightarrow> Q s)" for P m Q
    unfolding exit_after_def by (rule triple_bind [OF triple_True]) (auto intro!: quit split: outcome.splits)
  have bad: "triple P (do { printf os t; done_with (Exit_code 1) }) (\<lambda>e s. is_exec e \<longrightarrow> Q s)" for P t Q
    by (rule triple_bind [OF triple_True]) (simp add: quit)
  have go: "triple (at W n K) (if argv r = [] then done_with (Exit_code 0) else stage_command os r)
    (\<lambda>e s. is_exec e \<longrightarrow> (\<exists>r. scan_redirs st no_redirs = Done (Some r) \<and> fdv s = redirected W n r))"
    if "scan_redirs st no_redirs = Done (Some r)" for r
    using that by (intro triple_if) (auto intro!: quit triple_post [OF at_stage_command [OF ok w]])
  let ?Q = "\<lambda>s. \<exists>r. scan_redirs st no_redirs = Done (Some r) \<and> fdv s = redirected W n r"
  have "triple (at W n K) (case scan_redirs st no_redirs of
                Done None \<Rightarrow> do { printf os (nl ''cshell: invalid syntax''); done_with (Exit_code 1) }
              | Done (Some r) \<Rightarrow> if argv r = [] then done_with (Exit_code 0) else stage_command os r
              | Crash \<Rightarrow> done_with Child_crash
              | Waiting \<Rightarrow> done_with Child_waiting) (\<lambda>e s. is_exec e \<longrightarrow> ?Q s)"
  proof (cases "scan_redirs st no_redirs")
    case (Done x)
    then show ?thesis using bad go by (cases x) (simp_all only: outcome.case option.case)
  qed (simp_all only: outcome.case, (rule quit, simp)+)
  then show ?thesis
    unfolding execute_stage_child_def using b [of _ _ ?Q] quit [of "Exit_code 0" _ ?Q]
    by (cases "builtin os fuel st"; cases "st = []") (simp_all only: option.case simp_thms if_True if_False is_exec_simps)
qed

section \<open>The pipes of a pipeline\<close>

definition pfds :: "(nat \<times> nat) list \<Rightarrow> nat set" where
  "pfds pipes = fst ` set pipes \<union> snd ` set pipes"

text \<open>The table \<open>V\<close> is \<open>W\<close> with the pipes \<open>p\<close>, \<open>p + 1\<close>, \<dots> open on free descriptors.\<close>

definition pipes_in :: "(nat \<Rightarrow> fobj option) \<Rightarrow> (nat \<Rightarrow> fobj option) \<Rightarrow> nat \<Rightarrow> (nat \<times> nat) list \<Rightarrow> bool" where
  "pipes_in W V p pipes \<longleftrightarrow>
     (\<forall>j < length pipes. V (fst (pipes ! j)) = Some (Pipe_rd (p + j)) \<and> V (snd (pipes ! j)) = Some (Pipe_wr (p + j))) \<and>
     (\<forall>d. d \<notin> pfds pipes \<longrightarrow> V d = W d) \<and> (\<forall>d \<in> pfds pipes. W d = None)"

lemma pfds_nth: "d \<in> pfds pipes \<Longrightarrow> \<exists>j < length pipes. d = fst (pipes ! j) \<or> d = snd (pipes ! j)"
  unfolding pfds_def by (metis UnE image_iff in_set_conv_nth)

lemma pipes_in_open: "pipes_in W V p pipes \<Longrightarrow> d \<in> pfds pipes \<Longrightarrow> V d \<noteq> None"
  using pfds_nth [of d pipes] unfolding pipes_in_def by (metis option.distinct(1))

lemma pipes_in_snoc:
  assumes "pipes_in W V p pipes" "a \<noteq> b" "V a = None" "V b = None"
  shows "pipes_in W (V(a := Some (Pipe_rd (p + length pipes)), b := Some (Pipe_wr (p + length pipes)))) p (pipes @ [(a, b)])"
proof -
  have n: "a \<notin> pfds pipes" "b \<notin> pfds pipes" using assms pipes_in_open by blast+
  then have "fst (pipes ! j) \<noteq> a \<and> fst (pipes ! j) \<noteq> b \<and> snd (pipes ! j) \<noteq> a \<and> snd (pipes ! j) \<noteq> b" if "j < length pipes" for j
    using that nth_mem [OF that] unfolding pfds_def by (metis UnCI image_eqI)
  moreover have "pfds (pipes @ [(a, b)]) = insert a (insert b (pfds pipes))" by (auto simp: pfds_def)
  ultimately show ?thesis using assms n by (auto simp: pipes_in_def nth_append less_Suc_eq)
qed

lemma at_make_pipes:
  assumes ok: "no_failures os" and "pipes_in W V p pipes"
  shows "triple (at V (p + length pipes) K) (make_pipes os m pipes)
    (\<lambda>r s. \<exists>pipes' V'. r = Some pipes' \<and> length pipes' = length pipes + m \<and> pipes_in W V' p pipes' \<and> at V' (p + length pipes') K s)"
  using assms(2)
proof (induction m arbitrary: V pipes)
  case 0
  then show ?case by (auto intro!: triple_return)
next
  case (Suc m)
  show ?case
    unfolding make_pipes.simps
  proof (rule triple_bind [OF at_pipe_ok [OF ok]], intro triple_ex triple_pure, goal_cases)
    case (1 x a b)
    then show ?case using Suc.IH [OF pipes_in_snoc [OF Suc.prems 1(2-4)]] by (simp del: fun_upd_apply)
  qed
qed

lemma at_close_pipes: "triple (at V n K) (close_pipes os pipes) (\<lambda>_. at (\<lambda>d. if d \<in> pfds pipes then None else V d) n K)"
  unfolding close_pipes_def
proof (induction pipes arbitrary: V)
  case Nil
  then show ?case by (auto intro!: triple_return simp: pfds_def)
next
  case (Cons p ps)
  let ?V = "V(fst p := None, snd p := None)"
  have e: "(\<lambda>d. if d \<in> pfds ps then None else ?V d) = (\<lambda>d. if d \<in> pfds (p # ps) then None else V d)"
    by (auto simp: pfds_def fun_eq_iff)
  show ?case unfolding for_each.simps
    by (rule triple_bind, rule triple_bind [OF at_close at_close]) (rule Cons [of ?V, unfolded e])
qed

lemma pipes_in_close: "pipes_in W V p pipes \<Longrightarrow> (\<lambda>d. if d \<in> pfds pipes then None else V d) = W"
  by (auto simp: pipes_in_def fun_eq_iff)

text \<open>The ends of stage \<open>i\<close> before its own redirections.\<close>

definition piped :: "(nat \<Rightarrow> fobj option) \<Rightarrow> nat \<Rightarrow> nat \<Rightarrow> nat \<Rightarrow> token_list_t \<Rightarrow> nat \<Rightarrow> fobj option" where
  "piped W p m i st = W(
     0 := (if \<not> has_input_redir st \<and> 0 < i then Some (Pipe_rd (p + i - 1)) else W 0),
     1 := (if \<not> has_output_redir st \<and> i < m then Some (Pipe_wr (p + i)) else W 1))"

lemma at_plumb:
  assumes v: "pipes_in W V p pipes" and w: "W 0 \<noteq> None" "W 1 \<noteq> None" and i: "i \<le> length pipes"
  shows "triple (at V n K) (plumb os st pipes i) (\<lambda>_. at (piped W p (length pipes) i st) n K)"
proof -
  have nin: "0 \<notin> pfds pipes" "1 \<notin> pfds pipes" using v w by (auto simp: pipes_in_def)
  then have v01: "V 0 = W 0" "V 1 = W 1" using v by (auto simp: pipes_in_def)
  let ?V1 = "V(0 := (if \<not> has_input_redir st \<and> 0 < i then Some (Pipe_rd (p + i - 1)) else W 0))"
  let ?V2 = "?V1(1 := (if \<not> has_output_redir st \<and> i < length pipes then Some (Pipe_wr (p + i)) else W 1))"
  have 1: "triple (at V n K) (if \<not> has_input_redir st \<and> 0 < i then posix_dup2 os (fst (pipes ! (i - 1))) 0 else done_with ()) (\<lambda>_. at ?V1 n K)"
  proof (intro triple_if)
    assume a: "\<not> has_input_redir st \<and> 0 < i"
    then have e: "V (fst (pipes ! (i - 1))) = Some (Pipe_rd (p + i - 1))" using v i by (auto simp: pipes_in_def)
    show "triple (at V n K) (posix_dup2 os (fst (pipes ! (i - 1))) 0) (\<lambda>_. at ?V1 n K)"
      by (rule triple_post [OF at_dup2]) (use a e in simp_all)
  qed (rule triple_return, use v01 in \<open>simp only: simp_thms if_False fun_upd_idem\<close>)
  have v1: "?V1(1 := W 1) = ?V1" by (rule fun_upd_idem) (use v01 in simp)
  have 2: "triple (at ?V1 n K) (if \<not> has_output_redir st \<and> i < length pipes then posix_dup2 os (snd (pipes ! i)) 1 else done_with ()) (\<lambda>_. at ?V2 n K)"
  proof (intro triple_if)
    assume a: "\<not> has_output_redir st \<and> i < length pipes"
    then have "snd (pipes ! i) \<in> pfds pipes" by (simp add: pfds_def)
    then have "snd (pipes ! i) \<noteq> 0" using nin by metis
    then have e: "?V1 (snd (pipes ! i)) = Some (Pipe_wr (p + i))" using v a by (auto simp: pipes_in_def)
    show "triple (at ?V1 n K) (posix_dup2 os (snd (pipes ! i)) 1) (\<lambda>_. at ?V2 n K)"
      by (rule triple_post [OF at_dup2], subst e, simp, subst (asm) e) (use a in simp)
  qed (rule triple_return, use v1 in \<open>simp only: simp_thms if_False\<close>)
  have e: "(\<lambda>d. if d \<in> pfds pipes then None else ?V2 d) = piped W p (length pipes) i st"
    using v nin by (auto simp: piped_def pipes_in_def fun_eq_iff)
  show ?thesis unfolding plumb_def
    by (rule triple_bind [OF 1], rule triple_bind [OF 2], rule triple_post [OF at_close_pipes]) (use e in simp)
qed

section \<open>The children of a pipeline\<close>

lemma at_sync_child:
  "triple (at V n K) (sync_child os None) (\<lambda>_. at V n K)"
  "triple (at V n K) (sync_child os (Some (a, b))) (\<lambda>_. at (V(b := None, a := None)) n K)"
proof -
  show "triple (at V n K) (sync_child os None) (\<lambda>_. at V n K)"
    by (simp add: sync_child_def triple_def wp_rules)
  show "triple (at V n K) (sync_child os (Some (a, b))) (\<lambda>_. at (V(b := None, a := None)) n K)"
    unfolding sync_child_def option.case prod.case
    by (rule triple_bind [OF at_close], rule triple_bind [OF at_sys], rule at_close)
qed

text \<open>
  A stage that runs a program has the shell's own descriptors, but for its standard input and
  output: \<open>W\<close> is the table of the shell, \<open>p\<close> the number of the first pipe of the pipeline, \<open>m\<close> how
  many pipes it has and \<open>x\<close> the number of the next pipe.
\<close>

definition wires :: "(nat \<Rightarrow> fobj option) \<Rightarrow> nat \<Rightarrow> nat \<Rightarrow> nat \<Rightarrow> nat \<Rightarrow> redirs \<Rightarrow> nat \<Rightarrow> fobj option" where
  "wires W p m x i r =
     W(0 := in_obj (input_files r) x (if i = 0 then W 0 else Some (Pipe_rd (p + i - 1))),
       1 := out_obj (output_files r) (if length (input_files r) \<le> 1 then x else Suc x)
              (if i = m then W 1 else Some (Pipe_wr (p + i))))"

definition wired :: "(nat \<Rightarrow> fobj option) \<Rightarrow> nat \<Rightarrow> nat \<Rightarrow> nat \<Rightarrow> nat \<Rightarrow> token_list_t \<Rightarrow> child_end \<Rightarrow> (nat \<Rightarrow> fobj option) \<Rightarrow> bool" where
  "wired W p m x i st e T \<longleftrightarrow> (is_exec e \<longrightarrow> (\<exists>r. scan_redirs st no_redirs = Done (Some r) \<and> T = wires W p m x i r))"

lemma wired_piped:
  assumes "scan_redirs st no_redirs = Done (Some r)" "i \<le> m"
  shows "redirected (piped W p m i st) x r = wires W p m x i r"
proof -
  have "input_files r = [] \<longleftrightarrow> \<not> has_input_redir st" "output_files r = [] \<longleftrightarrow> \<not> has_output_redir st"
    using scan_redirs_has [OF assms(1)] by (simp_all add: no_redirs_def)
  then show ?thesis using assms(2)
    by (cases "input_files r"; cases "output_files r") (auto simp: wires_def redirected_def piped_def in_obj_def out_obj_def fun_eq_iff)
qed

lemma at_stage:
  assumes ok: "no_failures os" and w: "W 0 \<noteq> None" "W 1 \<noteq> None" and v: "pipes_in W V p pipes" and i: "i \<le> length pipes"
    and sy: "sync = None \<and> V' = V \<or> (\<exists>a b. sync = Some (a, b) \<and> V'(b := None, a := None) = V)"
  shows "triple (at V' n []) (stage_child os fuel stages pipes sync i pids)
    (\<lambda>e s. wired W p (length pipes) n i (stages ! i) e (fdv s))"
proof -
  have s: "triple (at V' n []) (sync_child os sync) (\<lambda>_. at V n [])"
    using sy at_sync_child by fastforce
  have p: "piped W p (length pipes) i (stages ! i) 0 \<noteq> None" "piped W p (length pipes) i (stages ! i) 1 \<noteq> None"
    using w by (auto simp: piped_def)
  show ?thesis
    unfolding stage_child_def
    by (rule triple_bind [OF at_sys], rule triple_bind [OF s], rule triple_bind [OF at_plumb [OF v w i]],
        rule triple_post [OF at_stage_child [OF ok p]])
      (use wired_piped [OF _ i] in \<open>auto simp: wired_def\<close>)
qed

lemma at_fork_stages:
  assumes ok: "no_failures os" and body: "\<And>i ps. i \<in> set is \<Longrightarrow> triple (at V n []) (body i ps) (R i)"
  shows "triple (at V n K) (fork_stages os body is pids) (\<lambda>ps s. \<exists>new cs. ps = pids @ new \<and> length new = length is \<and>
     length cs = length is \<and> at V n (K @ cs) s \<and>
     (\<forall>j < length is. 0 < new ! j \<and> (\<exists>e c. R (is ! j) e c \<and> cs ! j = Child (new ! j) e (fds c) (hist c) (kids c))))"
  using body
proof (induction "is" arbitrary: K pids)
  case Nil
  then show ?case by (auto intro!: triple_return)
next
  case (Cons i "is")
  have b: "triple (at V n []) (body i ps) (R i)" for ps using Cons.prems by simp
  show ?case
    unfolding fork_stages.simps
  proof (rule triple_bind [OF at_fork_ok [OF ok b]], intro triple_pure triple_ex, rule triple_bind [OF at_sys], goal_cases)
    case (1 pid e c r)
    let ?k = "Child pid e (fds c) (hist c) (kids c)"
    show ?case
    proof (rule triple_post [OF Cons.IH [of "K @ [?k]" "pids @ [pid]"]], goal_cases)
      case (1 j ps) then show ?case using Cons.prems by simp
    next
      case (2 ps s)
      then obtain new cs where n: "ps = (pids @ [pid]) @ new" "length new = length is" "length cs = length is" "at V n ((K @ [?k]) @ cs) s"
        "\<forall>j < length is. 0 < new ! j \<and> (\<exists>e c. R (is ! j) e c \<and> cs ! j = Child (new ! j) e (fds c) (hist c) (kids c))" by blast
      show ?case
      proof (intro exI conjI)
        show "ps = pids @ (pid # new)" "at V n (K @ (?k # cs)) s" "length (pid # new) = length (i # is)" "length (?k # cs) = length (i # is)"
          using n by simp_all
        show "\<forall>j < length (i # is). 0 < (pid # new) ! j \<and> (\<exists>e c. R ((i # is) ! j) e c \<and> (?k # cs) ! j = Child ((pid # new) ! j) e (fds c) (hist c) (kids c))"
          using n(5) \<open>0 < pid\<close> \<open>R i e c\<close> by (auto simp: less_Suc_eq_0_disj)
      qed
    qed
  qed
qed

end
