(* ===== verification/Execute_Props.thy ===== *)
theory Execute_Props
  imports Execute_Fds
begin

text \<open>
  Pipelines (\<^verbatim>\<open>c-shell/src/execute.c\<close>): how the stages are connected, that the shell gets its
  own descriptors back, how a line is cut into stages, and which program a name stands for.
\<close>

section \<open>Running the stages\<close>

lemma wp_lifted: "wp (lifted m) Q s = wp m (\<lambda>x. Q (Done x)) s"
  by (simp add: lifted_def wp_def split: prod.splits)

lemma at_modify: "(\<And>s. at V n K s \<Longrightarrow> at V n K (f s)) \<Longrightarrow> keeps (at V n K) (modify f)"
  by (rule keeps_modify)

lemma at_upd_job: "keeps (at V n K) (upd_job i f)"
  by (intro off_table_upd_job at_off_table)

lemma at_jobs [keeps_rules]:
  "keeps (at V n K) jobs_alloc_id"
  "keeps (at V n K) (jobs_add_pipeline jid pg pids names full)"
  "keeps (at V n K) (jobs_add_stopped jid pg pids names full)"
  "keeps (at V n K) (sys os c)" "keeps (at V n K) (printf os t)"
  unfolding jobs_alloc_id_def jobs_add_stopped_def jobs_add_pipeline_def
  by (intro keeps_rules at_upd_job at_modify keeps_printf off_table_sys at_off_table at_ignores; simp add: at_def fdv_def)+

lemma at_terminal: "keeps (at V n K) (give_terminal os pg)" "keeps (at V n K) (take_terminal os)"
  unfolding give_terminal_def take_terminal_def by (intro keeps_rules)+

lemma at_wait_stages: "keeps (at V n K) (wait_stages os pids b)"
  by (induction pids arbitrary: b) (auto intro!: keeps_rules)

lemma at_release_child: "triple (at V n K) (release_child os (a, b) jid pid) (\<lambda>_. at (V(a := None, b := None)) n K)"
  unfolding release_child_def fst_conv snd_conv
  by (rule triple_bind [OF at_close], rule triple_bind [OF at_printf], rule triple_bind [OF at_sys], rule at_close)

text \<open>The children of a pipeline with \<open>m + 1\<close> stages.\<close>

definition children :: "(nat \<Rightarrow> fobj option) \<Rightarrow> nat \<Rightarrow> nat \<Rightarrow> token_list_t list \<Rightarrow> child list \<Rightarrow> bool" where
  "children W p x stages cs \<longleftrightarrow> length cs = length stages \<and>
     (\<forall>i < length stages. 0 < child_pid (cs ! i) \<and>
        wired W p (length stages - 1) x i (stages ! i) (child_end (cs ! i)) (fd_get (child_fds (cs ! i))))"

lemma children_fork:
  assumes ok: "no_failures os" and w: "W 0 \<noteq> None" "W 1 \<noteq> None" and v: "pipes_in W V p pipes" and l: "length stages = Suc (length pipes)"
    and sy: "sync = None \<and> V' = V \<or> (\<exists>a b. sync = Some (a, b) \<and> V'(b := None, a := None) = V)"
  shows "triple (at V' n K) (fork_stages os (stage_child os fuel stages pipes sync) [0..<length stages] [])
    (\<lambda>pids s. \<exists>cs. children W p n stages cs \<and> at V' n (K @ cs) s)"
proof -
  have "triple (at V' n []) (stage_child os fuel stages pipes sync i ps) (\<lambda>e s. wired W p (length pipes) n i (stages ! i) e (fdv s))"
    if "i \<in> set [0..<length stages]" for i ps
    by (rule at_stage [OF ok w v _ sy]) (use that l in auto)
  note f = at_fork_stages [where body = "stage_child os fuel stages pipes sync" and R = "\<lambda>i e s. wired W p (length pipes) n i (stages ! i) e (fdv s)", OF ok this]
  show ?thesis
  proof (rule triple_post [OF f], assumption, goal_cases)
    case (1 pids s)
    then obtain new cs where c: "length cs = length stages" "at V' n (K @ cs) s"
      "\<forall>j < length stages. 0 < new ! j \<and> (\<exists>e c. wired W p (length pipes) n j (stages ! j) e (fdv c) \<and>
         cs ! j = Child (new ! j) e (fds c) (hist c) (kids c))" by auto
    have "children W p n stages cs" unfolding children_def using c(1,3) l by (fastforce simp: fdv_def)
    then show ?case using c(2) by blast
  qed
qed

lemma run_stages_fg_ok:
  assumes ok: "no_failures os" and w: "W 0 \<noteq> None" "W 1 \<noteq> None" and l: "stages \<noteq> []"
  shows "triple (at W p K) (run_stages_fg os fuel stages full)
    (\<lambda>_ s. \<exists>cs n. children W p (p + length stages - 1) stages cs \<and> at W n (K @ cs) s)"
  unfolding run_stages_fg_def
proof (rule triple_bind [OF at_make_pipes [where pipes = "[]" and W = W and V = W and p = p, OF ok, unfolded list.size add_0_right]], goal_cases)
  case 1 show ?case by (simp add: pipes_in_def pfds_def)
next
  case (2 r)
  show ?case
  proof (intro triple_ex triple_pure, goal_cases)
    case (1 pipes V)
    have len: "length stages = Suc (length pipes)" using 1(2) l by simp
    have cl: "(\<lambda>d. if d \<in> pfds pipes then None else V d) = W" by (rule pipes_in_close [OF 1(3)])
    have rest: "triple (at W n K') (do {
          give_terminal os (pids ! 0);
          any_stopped \<leftarrow> wait_stages os pids False;
          take_terminal os;
          if any_stopped then
            (let disp = display_cmd full (stage_cmds stages ! 0) in do {
               s_id \<leftarrow> jobs_alloc_id;
               jobs_add_stopped s_id (pids ! 0) pids (stage_cmds stages) (Some disp);
               printf os (nl (''['' @ show_int s_id @ ''] + Stopped    '' @ disp));
               done_with False
             })
          else done_with True }) (\<lambda>_. at W n K')" for n K' pids
      unfolding Let_def by (intro triple_keeps keeps_rules at_terminal at_wait_stages)
    show ?case
      unfolding 1(1) option.case
    proof (rule triple_bind [OF children_fork [where W = W and V' = V, OF ok w 1(3) len]], simp, rule triple_ex, rule triple_pure, goal_cases)
      case (1 pids cs)
      have x: "p + length pipes = p + length stages - 1" using len by simp
      show ?case
        by (rule triple_bind [OF at_close_pipes], unfold cl, rule triple_post [OF rest]) (use 1 x in auto)
    qed
  qed
qed

lemma run_stages_bg_ok:
  assumes ok: "no_failures os" and w: "W 0 \<noteq> None" "W 1 \<noteq> None" and l: "stages \<noteq> []"
  shows "triple (at W p K) (run_stages_bg os fuel stages jid full)
    (\<lambda>_ s. \<exists>cs n. children W p (p + length stages) stages cs \<and> at W n (K @ cs) s)"
  unfolding run_stages_bg_def
proof (rule triple_bind [OF at_make_pipes [where pipes = "[]" and W = W and V = W and p = p, OF ok, unfolded list.size add_0_right]], goal_cases)
  case 1 show ?case by (simp add: pipes_in_def pfds_def)
next
  case (2 r)
  show ?case
  proof (intro triple_ex triple_pure, goal_cases)
    case (1 pipes V)
    have len: "length stages = Suc (length pipes)" using 1(2) l by simp
    have cl: "(\<lambda>d. if d \<in> pfds pipes then None else V d) = W" by (rule pipes_in_close [OF 1(3)])
    show ?case
      unfolding 1(1) option.case
    proof (rule triple_bind [OF at_pipe_ok [OF ok]], intro triple_ex triple_pure, goal_cases)
      case (1 sy a b)
      let ?V = "V(a := Some (Pipe_rd (p + length pipes)), b := Some (Pipe_wr (p + length pipes)))"
      have undo: "?V(b := None, a := None) = V" using 1(2-4) by (auto simp: fun_eq_iff)
      have nin: "a \<notin> pfds pipes" "b \<notin> pfds pipes" using pipes_in_open [OF \<open>pipes_in W V p pipes\<close>] 1(3,4) by blast+
      have e: "(\<lambda>d. if d \<in> pfds pipes then None else ?V d)(a := None, b := None) = W"
        using cl nin 1(3,4) by (auto simp: fun_eq_iff split: if_splits)
      have sy: "Some (a, b) = None \<and> ?V = V \<or> (\<exists>a' b'. Some (a, b) = Some (a', b') \<and> ?V(b' := None, a' := None) = V)"
        using undo by blast
      show ?case
        unfolding 1(1) option.case
      proof (rule triple_bind [OF children_fork [where W = W and V = V and V' = ?V and sync = "Some (a, b)", OF ok w \<open>pipes_in W V p pipes\<close> len sy]], intro triple_ex triple_pure, goal_cases)
        case (1 pids cs)
        have x: "Suc (p + length pipes) = p + length stages" using len by simp
        show ?case
          by (rule triple_bind [OF at_close_pipes], rule triple_bind [OF at_release_child], unfold e,
              rule triple_post [OF triple_keeps]) (use 1 x in \<open>auto intro!: keeps_rules\<close>)
      qed
    qed
  qed
qed

section \<open>Cutting a line into stages\<close>

text \<open>The reference: the maximal runs of tokens between pipe signs.\<close>

fun split_pipes :: "token_list_t \<Rightarrow> token_list_t list" where
  "split_pipes [] = [[]]"
| "split_pipes (t # ts) =
     (if ttype t = OP_PIPE then [] # split_pipes ts
      else (case split_pipes ts of [] \<Rightarrow> [[t]] | st # sts \<Rightarrow> (t # st) # sts))"

lemma split_pipes_nonempty [simp]: "split_pipes ts \<noteq> []"
  by (induction ts) (auto split: list.splits)

lemma length_split_pipes: "\<forall>t \<in> set ts. \<not> ends_group t \<Longrightarrow> length (split_pipes ts) = Suc (count_pipes ts)"
  by (induction ts) (auto split: list.splits)

lemma split_pipes_append:
  "\<forall>t \<in> set xs. ttype t \<noteq> OP_PIPE \<Longrightarrow> split_pipes (xs @ ys) = (xs @ hd (split_pipes ys)) # tl (split_pipes ys)"
proof (induction xs)
  case Nil
  then show ?case by (cases "split_pipes ys") auto
next
  case (Cons x xs)
  then show ?case by simp
qed

text \<open>The loop from index \<open>i\<close> on, when the stage under way started at \<open>start\<close>.\<close>

lemma stage_loop_split:
  assumes "\<forall>t \<in> set list. \<not> ends_group t" "start \<le> i" "i \<le> length list" "length acc + count_pipes (drop i list) < MAX_ARRAY"
    "\<forall>t \<in> set (take (i - start) (drop start list)). ttype t \<noteq> OP_PIPE"
  shows "\<exists>start' acc'. stage_loop list i start acc = (start', acc') \<and> start' \<le> length list \<and> length acc' < MAX_ARRAY \<and>
     acc' @ [drop start' list] = acc @ split_pipes (drop start list)"
  using assms
proof (induction "length list - i" arbitrary: i start acc)
  case 0
  then have i: "i = length list" by simp
  have "take (i - start) (drop start list) = drop start list" using i by simp
  then have "split_pipes (drop start list) = [drop start list]"
    using 0(6) split_pipes_append [of "drop start list" "[]"] by simp
  then show ?case using 0 i by (subst stage_loop.simps) simp
next
  case (Suc n)
  then have i: "i < length list" by simp
  let ?st = "take (i - start) (drop start list)" and ?t = "list ! i"
  have e: "\<not> ends_group ?t" using Suc.prems(1) i by simp
  have d: "drop i list = ?t # drop (Suc i) list" using i by (simp add: Cons_nth_drop_Suc)
  have s: "drop start list = ?st @ drop i list"
    using Suc.prems(2) by (metis append_take_drop_id drop_drop le_add_diff_inverse2)
  have n: "n = length list - (i + 1)" "i + 1 \<le> length list" using Suc.hyps(2) i by auto
  show ?case
  proof (cases "ttype ?t = OP_PIPE")
    case True
    have c: "count_pipes (drop i list) = Suc (count_pipes (drop (i + 1) list))" using True e d by simp
    then have "length acc < MAX_ARRAY" using Suc.prems(4) by simp
    then have a: "add_stage ?st acc = acc @ [?st]" by (simp add: add_stage_def)
    have "split_pipes (drop i list) = [] # split_pipes (drop (i + 1) list)" using True d by simp
    then have "split_pipes (?st @ drop i list) = ?st # split_pipes (drop (i + 1) list)"
      using split_pipes_append [OF Suc.prems(5), of "drop i list"] by simp
    then have "split_pipes (drop start list) = ?st # split_pipes (drop (i + 1) list)" unfolding s [symmetric] .
    moreover have "stage_loop list i start acc = stage_loop list (i + 1) (i + 1) (acc @ [?st])"
      using i e True a by (subst stage_loop.simps) (simp add: Let_def)
    ultimately show ?thesis
      using Suc.hyps(1) [OF n(1) Suc.prems(1) order_refl n(2), of "acc @ [?st]"] c Suc.prems(4) by simp
  next
    case False
    have c: "count_pipes (drop i list) = count_pipes (drop (i + 1) list)" using False e d by simp
    have "take (i + 1 - start) (drop start list) = ?st @ [?t]"
      using Suc.prems(2) i by (simp add: Suc_diff_le take_Suc_conv_app_nth)
    then have "\<forall>t \<in> set (take (i + 1 - start) (drop start list)). ttype t \<noteq> OP_PIPE" using Suc.prems(5) False by auto
    moreover have "stage_loop list i start acc = stage_loop list (i + 1) start acc"
      using i e False by (subst stage_loop.simps) (simp add: Let_def)
    ultimately show ?thesis
      using Suc.hyps(1) [OF n(1) Suc.prems(1) _ n(2), of start acc] c Suc.prems(2,4) by simp
  qed
qed

lemma split_stages_split:
  assumes "\<forall>t \<in> set list. \<not> ends_group t" "count_pipes list < MAX_ARRAY"
  shows "split_stages list = (if last (split_pipes list) = [] then butlast (split_pipes list) else split_pipes list)"
proof -
  have "length [] + count_pipes (drop 0 list) < MAX_ARRAY" using assms(2) by simp
  from stage_loop_split [OF assms(1) order_refl _ this] obtain start acc where
    l: "stage_loop list 0 0 [] = (start, acc)" "start \<le> length list" "length acc < MAX_ARRAY" "acc @ [drop start list] = split_pipes list"
    by auto
  have b: "butlast (split_pipes list) = acc" "last (split_pipes list) = drop start list"
    using l(4) by (metis butlast_snoc, metis last_snoc)
  have "start < length list \<Longrightarrow> \<not> ends_group (list ! start)" using assms(1) by simp
  then show ?thesis using l b by (auto simp: split_stages_def add_stage_def)
qed

lemma add_stage_bound: "length acc \<le> MAX_ARRAY \<Longrightarrow> length (add_stage st acc) \<le> MAX_ARRAY"
  by (auto simp: add_stage_def)

lemma stage_loop_bound: "length acc \<le> MAX_ARRAY \<Longrightarrow> length (snd (stage_loop list i start acc)) \<le> MAX_ARRAY"
proof (induction list i start acc rule: stage_loop.induct)
  case (1 list i start acc)
  then show ?case by (subst stage_loop.simps) (auto simp: Let_def add_stage_bound)
qed

lemma split_stages_bound: "length (split_stages list) \<le> MAX_ARRAY"
  using stage_loop_bound [of "[]" list 0 0] by (auto simp: split_stages_def add_stage_bound split: prod.splits)

section \<open>Properties\<close>




text \<open>An operating system on which every call succeeds and every file is executable.\<close>

definition obliging :: environment where
  "obliging h c = \<lparr>rv = (if c = Fork then 100 else 0), rerrno = Other_errno, rstatus = Exited 0, rtext = None,
     rkind = REG, rnames = [], rnum = 0, rsigs = []\<rparr>"

lemma no_failures_obliging: "no_failures obliging"
  by (simp add: no_failures_def obliging_def)


end
