(* ===== verification/Parser.thy ===== *)
theory Parser
  imports Lexer
begin

text \<open>
  The syntax check of the shell (\<^verbatim>\<open>c-shell/src/parser.c\<close>): one recursive-descent
  function per nonterminal over a cursor into the token array. The lemmas show that
  it decides the grammar stated in the file's comments, and what the accepted lines
  look like token by token, which the executor relies on.
\<close>

section \<open>The recursive-descent functions\<close>

record parser_t =
  p_toks :: token_list_t
  p_pos :: nat
  p_n :: nat

definition at_end :: "parser_t \<Rightarrow> bool" where
  "at_end p \<longleftrightarrow> p_pos p \<ge> p_n p"

definition token_type_parser :: "parser_t \<Rightarrow> token_category" where
  "token_type_parser p = ttype (p_toks p ! p_pos p)"

definition advance :: "parser_t \<Rightarrow> parser_t" where
  "advance p = p\<lparr>p_pos := p_pos p + 1\<rparr>"

function CMD :: "parser_t \<Rightarrow> bool" and TGT :: "parser_t \<Rightarrow> bool" and BG :: "parser_t \<Rightarrow> bool"
  and ARG :: "parser_t \<Rightarrow> bool" where
  "CMD p = (if at_end p \<or> token_type_parser p \<noteq> OP_WORD then False else ARG (advance p))"
| "TGT p = (if at_end p \<or> token_type_parser p \<noteq> OP_WORD then False else ARG (advance p))"
| "BG p = (if at_end p then True else CMD p)"
| "ARG p =
     (if at_end p then True
      else case token_type_parser p of
        OP_WORD \<Rightarrow> ARG (advance p)
      | OP_LT \<Rightarrow> TGT (advance p)
      | OP_GT \<Rightarrow> TGT (advance p)
      | OP_GTGT \<Rightarrow> TGT (advance p)
      | OP_PIPE \<Rightarrow> CMD (advance p)
      | OP_SEMI \<Rightarrow> CMD (advance p)
      | OP_AMP \<Rightarrow> BG (advance p))"
  by pat_completeness auto
termination
  by (relation "measure (\<lambda>x. case x of
        Inl (Inl p) \<Rightarrow> 2 * (p_n p - p_pos p)
      | Inl (Inr p) \<Rightarrow> 2 * (p_n p - p_pos p)
      | Inr (Inl p) \<Rightarrow> 2 * (p_n p - p_pos p) + 1
      | Inr (Inr p) \<Rightarrow> 2 * (p_n p - p_pos p))")
    (auto simp: at_end_def advance_def)

declare CMD.simps [simp del] TGT.simps [simp del] BG.simps [simp del] ARG.simps [simp del]

definition LINE :: "parser_t \<Rightarrow> bool" where
  "LINE p =
     (if at_end p then True
      else if token_type_parser p \<noteq> OP_WORD then False
      else ARG (advance p))"

definition parse_tokens :: "token_list_t \<Rightarrow> bool" where
  "parse_tokens list = LINE \<lparr>p_toks = list, p_pos = 0, p_n = length list\<rparr>"

section \<open>The grammar\<close>

inductive gLINE :: "token_category list \<Rightarrow> bool" and gARG :: "token_category list \<Rightarrow> bool"
  and gCMD :: "token_category list \<Rightarrow> bool" and gTGT :: "token_category list \<Rightarrow> bool"
  and gBG :: "token_category list \<Rightarrow> bool" where
  line_empty: "gLINE []"
| line_word: "gARG ts \<Longrightarrow> gLINE (OP_WORD # ts)"
| arg_empty: "gARG []"
| arg_word: "gARG ts \<Longrightarrow> gARG (OP_WORD # ts)"
| arg_lt: "gTGT ts \<Longrightarrow> gARG (OP_LT # ts)"
| arg_gt: "gTGT ts \<Longrightarrow> gARG (OP_GT # ts)"
| arg_gtgt: "gTGT ts \<Longrightarrow> gARG (OP_GTGT # ts)"
| arg_pipe: "gCMD ts \<Longrightarrow> gARG (OP_PIPE # ts)"
| arg_semi: "gCMD ts \<Longrightarrow> gARG (OP_SEMI # ts)"
| arg_amp: "gBG ts \<Longrightarrow> gARG (OP_AMP # ts)"
| cmd_word: "gARG ts \<Longrightarrow> gCMD (OP_WORD # ts)"
| tgt_word: "gARG ts \<Longrightarrow> gTGT (OP_WORD # ts)"
| bg_empty: "gBG []"
| bg_word: "gARG ts \<Longrightarrow> gBG (OP_WORD # ts)"

inductive_simps gLINE_simps [simp]: "gLINE []" "gLINE (t # ts)"
inductive_simps gARG_simps [simp]: "gARG []" "gARG (t # ts)"
inductive_simps gCMD_simps [simp]: "gCMD []" "gCMD (t # ts)"
inductive_simps gTGT_simps [simp]: "gTGT []" "gTGT (t # ts)"
inductive_simps gBG_simps [simp]: "gBG []" "gBG (t # ts)"

text \<open>What is left to parse.\<close>

definition rest :: "parser_t \<Rightarrow> token_category list" where
  "rest p = drop (p_pos p) (map ttype (p_toks p))"

definition wf_parser :: "parser_t \<Rightarrow> bool" where
  "wf_parser p \<longleftrightarrow> p_n p = length (p_toks p)"

lemma wf_advance [simp]: "wf_parser (advance p) = wf_parser p"
  by (simp add: wf_parser_def advance_def)

lemma rest_cases:
  assumes "wf_parser p"
  obtains (fin) "at_end p" "rest p = []"
  | (more) "\<not> at_end p" "rest p = token_type_parser p # rest (advance p)"
proof (cases "at_end p")
  case True
  then show ?thesis using assms fin by (simp add: rest_def at_end_def wf_parser_def)
next
  case False
  then have "p_pos p < length (p_toks p)"
    using assms by (simp add: at_end_def wf_parser_def)
  then have "rest p = token_type_parser p # rest (advance p)"
    using Cons_nth_drop_Suc [of "p_pos p" "map ttype (p_toks p)"]
    by (simp add: rest_def token_type_parser_def advance_def)
  with False show ?thesis by (rule more)
qed

lemma descent_grammar:
  "wf_parser p \<Longrightarrow> CMD p = gCMD (rest p)"
  "wf_parser p \<Longrightarrow> TGT p = gTGT (rest p)"
  "wf_parser p \<Longrightarrow> BG p = gBG (rest p)"
  "wf_parser p \<Longrightarrow> ARG p = gARG (rest p)"
proof (induction p and p and p and p rule: CMD_TGT_BG_ARG.induct)
  case (1 p)
  show ?case
    by (rule rest_cases [OF "1.prems"]) (use 1 in \<open>auto simp: CMD.simps\<close>)
next
  case (2 p)
  show ?case
    by (rule rest_cases [OF "2.prems"]) (use 2 in \<open>auto simp: TGT.simps\<close>)
next
  case (3 p)
  show ?case
    by (rule rest_cases [OF "3.prems"]) (use 3 in \<open>auto simp: BG.simps\<close>)
next
  case (4 p)
  show ?case
    by (rule rest_cases [OF "4.prems"])
      (use 4 in \<open>auto simp: ARG.simps [of p] split: token_category.splits\<close>)
qed

lemma LINE_grammar:
  assumes "wf_parser p"
  shows "LINE p = gLINE (rest p)"
  by (rule rest_cases [OF assms]) (use assms in \<open>auto simp: LINE_def descent_grammar(4)\<close>)

lemma parse_tokens_gLINE: "parse_tokens list \<longleftrightarrow> gLINE (map ttype list)"
  unfolding parse_tokens_def
  by (subst LINE_grammar) (simp_all add: wf_parser_def rest_def)

section \<open>The shape of accepted lines\<close>

text \<open>
  Every operator is followed by a word, except that an ampersand may end the line.
\<close>

definition operands_ok :: "token_category list \<Rightarrow> bool" where
  "operands_ok ts \<longleftrightarrow>
     (\<forall>i < length ts. ts ! i \<noteq> OP_WORD \<longrightarrow>
        (if i + 1 < length ts then ts ! (i + 1) = OP_WORD else ts ! i = OP_AMP))"

lemma operands_ok_Nil [simp]: "operands_ok []"
  by (simp add: operands_ok_def)

lemma operands_ok_Cons:
  "operands_ok (t # ts) \<longleftrightarrow>
     (t = OP_WORD \<or> (case ts of [] \<Rightarrow> t = OP_AMP | u # _ \<Rightarrow> u = OP_WORD)) \<and> operands_ok ts"
proof -
  have all: "(\<forall>i < length (t # ts). P i) \<longleftrightarrow> P 0 \<and> (\<forall>i < length ts. P (Suc i))" for P
    by (auto simp: less_Suc_eq_0_disj)
  show ?thesis
    unfolding operands_ok_def all by (cases ts) auto
qed

lemma gARG_operands_ok: "gARG ts \<longleftrightarrow> operands_ok ts"
proof (induction ts rule: measure_induct_rule [where f = length])
  case (less ts)
  show ?case
  proof (cases ts)
    case (Cons t us)
    show ?thesis
    proof (cases us)
      case Nil
      with Cons show ?thesis by (cases t) (auto simp: operands_ok_Cons)
    next
      case (Cons u vs)
      with \<open>ts = t # us\<close> less.IH [of us] less.IH [of vs] show ?thesis
        by (cases t; cases u) (auto simp: operands_ok_Cons)
    qed
  qed simp
qed

section \<open>Properties of the parser\<close>

text \<open>
  C4. \<^verbatim>\<open>parse_tokens\<close> accepts a token list exactly when the grammar of the shell derives
  it: the recursive descent is sound and complete, and it returns on every input.
\<close>

theorem parse_tokens_grammar: "parse_tokens list \<longleftrightarrow> gLINE (map ttype list)"
  by (rule parse_tokens_gLINE)

text \<open>
  The accepted lines are the empty one and those that start with a word and in which
  every operator is directly followed by a word, where only an ampersand may stand at
  the end.
\<close>

theorem parse_tokens_shape:
  "parse_tokens list \<longleftrightarrow>
     list = [] \<or> (ttype (hd list) = OP_WORD \<and> operands_ok (map ttype list))"
proof (cases list)
  case Nil
  then show ?thesis by (simp add: parse_tokens_gLINE)
next
  case (Cons t ts)
  then show ?thesis
    by (auto simp: parse_tokens_gLINE gARG_operands_ok operands_ok_Cons)
qed

end
