(* ===== verification/Shell_Main.thy ===== *)
theory Shell_Main
  imports Execute Parser
begin

text \<open>
  The command line and the main loop: \<^verbatim>\<open>execute_command_line\<close> of \<^verbatim>\<open>c-shell/src/jobs.c\<close> and
  \<^verbatim>\<open>c-shell/src/main.c\<close>. The installation of the signal handlers at the start of \<^verbatim>\<open>main\<close> has no
  state of its own: the handlers run when signals are delivered.
\<close>

section \<open>A command line\<close>

text \<open>One command of the line; the result says whether the line goes on.\<close>

definition execute_one :: "environment \<Rightarrow> nat \<Rightarrow> token_list_t \<Rightarrow> bool \<Rightarrow> bool outcome sh" where
  "execute_one os fuel cmd is_bg =
     (let full = Some (reconstruct_cmd_str 512 cmd []) in
      if is_bg then do {
        jid \<leftarrow> jobs_alloc_id;
        obind (execute_pipeline_bg os fuel cmd jid full) (\<lambda>_. done_with (Done True))
      }
      else do {
        jobs_set_fg_active True;
        obind (execute_pipeline_fg os fuel cmd full) (\<lambda>ok. do {
          jobs_set_fg_active False;
          jobs_check_completed os;
          done_with (Done ok)
        })
      })"

lemma tl_dropWhile_less: "xs \<noteq> [] \<Longrightarrow> length (tl (dropWhile P xs)) < length xs"
  using length_dropWhile_le [of P xs] by (cases xs) (auto simp: le_less_trans [OF diff_le_self])

function execute_command_line :: "environment \<Rightarrow> nat \<Rightarrow> token_list_t \<Rightarrow> unit outcome sh" where
  "execute_command_line os fuel list =
     (if list = [] then done_with (Done ())
      else
        (let cmd = takeWhile (\<lambda>t. \<not> ends_group t) list;
             rest = dropWhile (\<lambda>t. \<not> ends_group t) list;
             is_bg = (rest \<noteq> [] \<and> ttype (hd rest) = OP_AMP) in
         if cmd = [] then execute_command_line os fuel (tl rest)
         else obind (execute_one os fuel cmd is_bg) (\<lambda>go.
           if go then execute_command_line os fuel (tl rest) else done_with (Done ()))))"
  by pat_completeness auto
termination
  by (relation "measure (\<lambda>(os, fuel, list). length list)") (auto simp: tl_dropWhile_less simp del: length_tl)

declare execute_command_line.simps [simp del]

section \<open>The prompt\<close>

definition MAX_INPUT_LEN :: nat where "MAX_INPUT_LEN = 1024"
definition LOGIN_NAME_MAX :: nat where "LOGIN_NAME_MAX = 256"

record identity =
  home_dir :: string
  username :: string
  hostname_buf :: string

definition init_shell_identity :: "environment \<Rightarrow> identity sh" where
  "init_shell_identity os = do {
     c \<leftarrow> sys os Getcwd;
     p \<leftarrow> sys os Getpwuid;
     h \<leftarrow> sys os Gethostname;
     done_with \<lparr>home_dir = (case rtext c of None \<Rightarrow> ''/'' | Some d \<Rightarrow> d),
                username = (case rtext p of None \<Rightarrow> ''user'' | Some u \<Rightarrow> bounded_copy (LOGIN_NAME_MAX + 1) u),
                hostname_buf = (case rtext h of None \<Rightarrow> ''host'' | Some n \<Rightarrow> n)\<rparr>
   }"

definition display_path :: "string \<Rightarrow> string option \<Rightarrow> string" where
  "display_path home cwd =
     (case cwd of
        None \<Rightarrow> ''?''
      | Some w \<Rightarrow>
          if w = home then ''~''
          else if take (length home) w = home \<and> take 1 (drop (length home) w) = ''/''
          then bounded_copy PATH_MAX (CHR ''~'' # drop (length home) w)
          else bounded_copy PATH_MAX w)"

definition get_display_path :: "environment \<Rightarrow> string \<Rightarrow> string sh" where
  "get_display_path os home = do { r \<leftarrow> sys os Getcwd; done_with (display_path home (rtext r)) }"

definition print_prompt :: "environment \<Rightarrow> identity \<Rightarrow> unit sh" where
  "print_prompt os who = do {
     p \<leftarrow> get_display_path os (home_dir who);
     printf os (''<'' @ username who @ ''@'' @ hostname_buf who @ '':'' @ p @ ''> '')
   }"

section \<open>The main loop\<close>

text \<open>
  \<open>line_buf\<close> is the buffer \<^verbatim>\<open>line\<close>, which \<^verbatim>\<open>fgets\<close> leaves as it was when it reads nothing.
\<close>

record loopst =
  line_buf :: string
  accum_line :: string
  eof_warned :: bool

datatype loop_step = Again loopst | Leave int | Broken | Blocked

text \<open>\<^verbatim>\<open>fgets\<close> returned null.\<close>

definition on_null :: "environment \<Rightarrow> errno \<Rightarrow> loopst \<Rightarrow> (loopst + loop_step) sh" where
  "on_null os err st =
     (if err = EINTR then do {
        pi \<leftarrow> gets prompt_interrupted;
        if pi then do {
          printf os [NL];
          modify (\<lambda>s. s\<lparr>prompt_interrupted := False\<rparr>);
          done_with (Inr (Again (st\<lparr>accum_line := []\<rparr>)))
        }
        else done_with (Inr (Again st))
      }
      else if accum_line st \<noteq> [] then do {
        t \<leftarrow> sys os (Isatty 0);
        e \<leftarrow> sys os Feof_stdin;
        if rv t = 0 \<and> rv e \<noteq> 0 then done_with (Inl st) else done_with (Inr (Again st))
      }
      else do {
        stopped \<leftarrow> jobs_has_stopped os;
        if stopped \<and> \<not> eof_warned st then do {
          printf os (nl ''cshell: there are stopped jobs'');
          done_with (Inr (Again (st\<lparr>eof_warned := True\<rparr>)))
        }
        else do {
          jobs_send_sighup_all os;
          done_with (Inr (Leave 0))
        }
      })"

text \<open>A complete line: it is lexed, parsed and executed.\<close>

definition run_line :: "allocator \<Rightarrow> environment \<Rightarrow> nat \<Rightarrow> string \<Rightarrow> loop_step sh \<Rightarrow> loop_step sh" where
  "run_line al os fuel line cont =
     (case lex_line al (line @ [NUL]) of
        Exit c \<Rightarrow> done_with (Leave c)
      | Fault \<Rightarrow> done_with Broken
      | Ret None \<Rightarrow> do { printf os (nl ''cshell: invalid syntax''); cont }
      | Ret (Some tokens) \<Rightarrow>
          if \<not> parse_tokens tokens then do { printf os (nl ''cshell: invalid syntax''); cont }
          else if tokens = [] then cont
          else do {
            r \<leftarrow> execute_command_line os fuel tokens;
            (case r of Done _ \<Rightarrow> cont | Crash \<Rightarrow> done_with Broken | Waiting \<Rightarrow> done_with Blocked)
          })"

text \<open>The rest of the loop body, with the text of \<open>line_buf\<close>.\<close>

definition take_line :: "allocator \<Rightarrow> environment \<Rightarrow> nat \<Rightarrow> loopst \<Rightarrow> loop_step sh" where
  "take_line al os fuel st =
     (let acc = (if length (accum_line st) + length (line_buf st) < MAX_INPUT_LEN + 1
                 then accum_line st @ line_buf st else accum_line st);
          st = st\<lparr>accum_line := acc\<rparr> in
      if acc = [] then done_with (Again st)
      else do {
        partial \<leftarrow> (if last acc \<noteq> NL then do { t \<leftarrow> sys os (Isatty 0); done_with (rv t \<noteq> 0) } else done_with False);
        if partial then done_with (Again st)
        else run_line al os fuel (if last acc = NL then butlast acc else acc)
          (done_with (Again (st\<lparr>accum_line := [], eof_warned := False\<rparr>)))
      })"

definition main_step :: "allocator \<Rightarrow> environment \<Rightarrow> nat \<Rightarrow> identity \<Rightarrow> loopst \<Rightarrow> loop_step sh" where
  "main_step al os fuel who st = do {
     (if accum_line st = [] then do { jobs_check_completed os; print_prompt os who } else done_with ());
     r \<leftarrow> sys os Fgets_stdin;
     (case rtext r of
        Some line \<Rightarrow> take_line al os fuel (st\<lparr>line_buf := take MAX_INPUT_LEN line\<rparr>)
      | None \<Rightarrow> do {
          x \<leftarrow> on_null os (rerrno r) st;
          (case x of Inl st \<Rightarrow> take_line al os fuel st | Inr n \<Rightarrow> done_with n)
        })
   }"

primrec main_loop :: "nat \<Rightarrow> allocator \<Rightarrow> environment \<Rightarrow> nat \<Rightarrow> identity \<Rightarrow> loopst \<Rightarrow> int outcome sh" where
  "main_loop 0 al os fuel who st = done_with Waiting"
| "main_loop (Suc k) al os fuel who st = do {
     n \<leftarrow> main_step al os fuel who st;
     (case n of
        Again st \<Rightarrow> main_loop k al os fuel who st
      | Leave c \<Rightarrow> if c = 0 then do { jobs_send_sighup_all os; printf os [NL]; done_with (Done 0) } else done_with (Done c)
      | Broken \<Rightarrow> done_with Crash
      | Blocked \<Rightarrow> done_with Waiting)
   }"

definition shell_main :: "nat \<Rightarrow> allocator \<Rightarrow> environment \<Rightarrow> nat \<Rightarrow> int outcome sh" where
  "shell_main k al os fuel = do {
     who \<leftarrow> init_shell_identity os;
     hop_init os (home_dir who);
     reveal_init (home_dir who);
     main_loop k al os fuel who \<lparr>line_buf = [], accum_line = [], eof_warned = False\<rparr>
   }"

end
