(* ===== verification/Jobs_Inv.thy ===== *)
theory Jobs_Inv
  imports Jobs
begin

text \<open>
  Properties of the job table. \<open>tracks\<close> relates a table to a later one in which only the
  observed states of the processes differ: that is all the \<^verbatim>\<open>SIGCHLD\<close> handler and
  \<^verbatim>\<open>jobs_refresh_states\<close> can do. \<open>evolves\<close> allows jobs to leave the table. Both carry the
  invariant \<open>jobs_ok\<close> of the table.
\<close>

section \<open>What polling can change\<close>

definition same_job :: "job_entry_t \<Rightarrow> job_entry_t \<Rightarrow> bool" where
  "same_job j j' \<longleftrightarrow> job_id j' = job_id j \<and> pgid j' = pgid j \<and> full_cmd j' = full_cmd j \<and>
     map proc_pid (procs j') = map proc_pid (procs j) \<and>
     map cmd_name (procs j') = map cmd_name (procs j) \<and>
     active j' = active j \<and> reported j' = reported j"

definition tracks :: "shell \<Rightarrow> shell \<Rightarrow> bool" where
  "tracks s0 s \<longleftrightarrow> list_all2 same_job (jobs_list s0) (jobs_list s) \<and> next_job_id s = next_job_id s0"

lemma same_job_refl [simp]: "same_job j j"
  by (simp add: same_job_def)

lemma same_job_trans: "same_job a b \<Longrightarrow> same_job b c \<Longrightarrow> same_job a c"
  by (simp add: same_job_def)

lemma map_proc_update [simp]:
  "map proc_pid ((procs j)[k := (procs j ! k)\<lparr>proc_state := st\<rparr>]) = map proc_pid (procs j)"
  "map cmd_name ((procs j)[k := (procs j ! k)\<lparr>proc_state := st\<rparr>]) = map cmd_name (procs j)"
  by (cases "k < length (procs j)"; simp add: list_eq_iff_nth_eq nth_list_update)+

lemma same_job_set_proc_state [simp]: "same_job j (set_proc_state k st j)"
  by (simp add: same_job_def set_proc_state_def)

lemma same_job_proc_exited [simp]: "same_job j (proc_exited k pid st j)"
  by (simp add: same_job_def set_proc_state_def proc_exited_def Let_def)

lemma same_job_running_again [simp]: "same_job j (running_again j)"
  by (simp add: same_job_def running_again_def comp_def if_distrib cong: if_cong)

lemma tracks_refl [simp]: "tracks s s"
  by (simp add: tracks_def list_all2_refl)

lemma tracks_trans: "tracks a b \<Longrightarrow> tracks b c \<Longrightarrow> tracks a c"
  by (simp add: tracks_def list_all2_conv_all_nth) (metis same_job_trans)

lemma tracks_nth:
  "tracks s0 s \<Longrightarrow> i < length (jobs_list s0) \<Longrightarrow> same_job (job s0 i) (job s i)"
  by (simp add: tracks_def job_def list_all2_conv_all_nth)

lemma tracks_length: "tracks s0 s \<Longrightarrow> length (jobs_list s) = length (jobs_list s0)"
  using list_all2_lengthD by (fastforce simp: tracks_def)

lemma list_all2_upd:
  assumes "list_all2 R xs ys" "i < length ys \<Longrightarrow> R (xs ! i) y"
  shows "list_all2 R xs (ys[i := y])"
  using assms
  by (cases "i < length ys") (auto simp: list_all2_conv_all_nth nth_list_update)

lemma tracks_upd_job:
  assumes "\<And>j. same_job j (f j)"
  shows "keeps (tracks s0) (upd_job i f)"
proof (rule keepsI)
  fix s
  assume "tracks s0 s"
  then show "wp (upd_job i f) (\<lambda>_. tracks s0) s"
    using assms list_all2_lengthD [of same_job "jobs_list s0" "jobs_list s"]
    by (auto simp: wp_rules tracks_def intro!: list_all2_upd
        intro: same_job_trans list_all2_nthD2)
qed

lemma tracks_ignores [simp]: "ignores (tracks s0) c" "flag_free (tracks s0)"
  by (simp_all add: ignores_def flag_free_def tracks_def)

lemma same_job_stopped [simp]:
  "same_job j ((set_proc_state k st j)\<lparr>is_stopped := b\<rparr>)" "same_job j (j\<lparr>is_stopped := b\<rparr>)"
  by (simp_all add: same_job_def set_proc_state_def)

lemma tracks_sigchld_proc: "keeps (tracks s0) (sigchld_proc os i k)"
  unfolding sigchld_proc_def
  by (intro keeps_rules keeps_raw_sys tracks_upd_job) simp_all

lemma tracks_sys [keeps_rules]: "keeps (tracks s0) (sys os c)"
  by (intro keeps_sys sigchld_handler_keeps tracks_sigchld_proc tracks_ignores)

lemma tracks_refresh_proc: "keeps (tracks s0) (refresh_proc os i k)"
  unfolding refresh_proc_def refresh_wait_def refresh_stat_def
  by (intro keeps_rules tracks_upd_job) simp_all

lemma tracks_refresh_procs: "keeps (tracks s0) (refresh_procs os i ks a b)"
  by (induction ks arbitrary: a b) (auto intro!: keeps_rules tracks_refresh_proc)

text \<open>A process counted as stopped is counted as alive.\<close>

lemma refresh_proc_result: "yields (\<lambda>r. snd r \<longrightarrow> fst r) (refresh_proc os i k)"
  unfolding refresh_proc_def refresh_stat_def
  by (intro yields_rules) simp_all

lemma refresh_procs_result:
  "(b \<longrightarrow> a) \<Longrightarrow> yields (\<lambda>r. snd r \<longrightarrow> fst r) (refresh_procs os i ks a b)"
proof (induction ks arbitrary: a b)
  case (Cons k ks)
  show ?case
    unfolding refresh_procs.simps
    by (rule yields_bind_from [OF refresh_proc_result], rule Cons.IH) (use Cons.prems in blast)
qed (simp add: yields_rules)

section \<open>The invariant of the table\<close>

definition entry_ok :: "int \<Rightarrow> job_entry_t \<Rightarrow> bool" where
  "entry_ok nxt j \<longleftrightarrow> length (procs j) \<le> MAX_PIDS_PER_JOB \<and> length (full_cmd j) < 512 \<and>
     (\<forall>p \<in> set (procs j). length (cmd_name p) < 256) \<and>
     (active j \<longrightarrow> procs j \<noteq> [] \<and> job_id j < nxt \<and> \<not> reported j)"

definition jobs_ok :: "shell \<Rightarrow> bool" where
  "jobs_ok s \<longleftrightarrow> length (jobs_list s) = MAX_BG_JOBS \<and>
     (\<forall>j \<in> set (jobs_list s). entry_ok (next_job_id s) j) \<and>
     (\<forall>i < MAX_BG_JOBS. \<forall>k < MAX_BG_JOBS.
        active (job s i) \<and> active (job s k) \<and> job_id (job s i) = job_id (job s k) \<longrightarrow> i = k)"

text \<open>A job number that has been handed out and that no job of the table carries.\<close>

definition fresh_id :: "int \<Rightarrow> shell \<Rightarrow> bool" where
  "fresh_id jid s \<longleftrightarrow> jid < next_job_id s \<and> (\<forall>j \<in> set (jobs_list s). active j \<longrightarrow> job_id j \<noteq> jid)"

text \<open>A later state of a slot: the same job, or the job has left.\<close>

definition later_job :: "job_entry_t \<Rightarrow> job_entry_t \<Rightarrow> bool" where
  "later_job j j' \<longleftrightarrow> job_id j' = job_id j \<and> pgid j' = pgid j \<and> full_cmd j' = full_cmd j \<and>
     map proc_pid (procs j') = map proc_pid (procs j) \<and>
     map cmd_name (procs j') = map cmd_name (procs j) \<and>
     (active j' \<longrightarrow> active j \<and> reported j' = reported j)"

definition evolves :: "shell \<Rightarrow> shell \<Rightarrow> bool" where
  "evolves s0 s \<longleftrightarrow> jobs_ok s0 \<and> list_all2 later_job (jobs_list s0) (jobs_list s) \<and>
     next_job_id s = next_job_id s0"

lemma later_job_trans: "later_job a b \<Longrightarrow> later_job b c \<Longrightarrow> later_job a c"
  by (simp add: later_job_def)

lemma same_job_later: "same_job j j' \<Longrightarrow> later_job j j'"
  by (simp add: same_job_def later_job_def)

lemma later_entry_ok: "later_job j j' \<Longrightarrow> entry_ok n j \<Longrightarrow> entry_ok n j'"
proof -
  assume l: "later_job j j'" and e: "entry_ok n j"
  then have "length (procs j') = length (procs j)"
    "cmd_name ` set (procs j') = cmd_name ` set (procs j)"
    by (metis later_job_def length_map, metis later_job_def list.set_map)
  moreover have "\<forall>p \<in> set (procs j'). length (cmd_name p) < 256"
    using e calculation(2) by (metis (no_types, lifting) entry_ok_def image_iff)
  ultimately show "entry_ok n j'"
    using l e by (auto simp: entry_ok_def later_job_def)
qed

lemma evolves_nth:
  "evolves s0 s \<Longrightarrow> i < MAX_BG_JOBS \<Longrightarrow> later_job (job s0 i) (job s i)"
  by (simp add: evolves_def jobs_ok_def job_def list_all2_conv_all_nth)

lemma evolves_length: "evolves s0 s \<Longrightarrow> length (jobs_list s) = MAX_BG_JOBS"
  using list_all2_lengthD by (fastforce simp: evolves_def jobs_ok_def)

lemma evolves_jobs_ok: "evolves s0 s \<Longrightarrow> jobs_ok s"
proof -
  assume e: "evolves s0 s"
  have "entry_ok (next_job_id s) (job s i)" if "i < MAX_BG_JOBS" for i
    using later_entry_ok [OF evolves_nth [OF e that]] e that
    by (simp add: evolves_def jobs_ok_def job_def)
  then have "\<forall>j \<in> set (jobs_list s). entry_ok (next_job_id s) j"
    using evolves_length [OF e] by (auto simp: in_set_conv_nth job_def)
  moreover have "active (job s0 i) \<and> job_id (job s0 i) = job_id (job s i)"
    if "i < MAX_BG_JOBS" "active (job s i)" for i
    using evolves_nth [OF e that(1)] that(2) by (simp add: later_job_def)
  ultimately show "jobs_ok s"
    using evolves_length [OF e] e unfolding jobs_ok_def evolves_def by metis
qed

lemma fresh_id_nth:
  "length (jobs_list s) = MAX_BG_JOBS \<Longrightarrow> fresh_id jid s \<longleftrightarrow>
   jid < next_job_id s \<and> (\<forall>i < MAX_BG_JOBS. active (job s i) \<longrightarrow> job_id (job s i) \<noteq> jid)"
  by (auto simp: fresh_id_def job_def all_set_conv_all_nth)

lemma evolves_fresh:
  assumes "evolves s0 s" "fresh_id jid s0"
  shows "fresh_id jid s"
proof -
  have "active (job s i) \<longrightarrow> active (job s0 i) \<and> job_id (job s0 i) = job_id (job s i)"
    if "i < MAX_BG_JOBS" for i
    using evolves_nth [OF assms(1) that] by (simp add: later_job_def)
  then show ?thesis
    using assms evolves_length [OF assms(1)]
    by (simp add: fresh_id_nth evolves_def jobs_ok_def) metis
qed

lemma evolves_refl: "jobs_ok s \<Longrightarrow> evolves s s"
  by (simp add: evolves_def list_all2_refl later_job_def)

lemma evolves_tracks: "evolves s0 s \<Longrightarrow> tracks s s' \<Longrightarrow> evolves s0 s'"
  by (simp add: evolves_def tracks_def list_all2_conv_all_nth) (metis later_job_trans same_job_later)

text \<open>An operation that only tracks, from every state in order, lets the table evolve.\<close>

lemma evolves_if_tracks:
  assumes "\<And>s. jobs_ok s \<Longrightarrow> wp m (\<lambda>_. tracks s) s"
  shows "keeps (evolves s0) m"
  by (rule keepsI) (blast intro: wp_mono [OF assms] evolves_tracks dest: evolves_jobs_ok)

lemma evolves_if_keeps_tracks:
  assumes "\<And>s. keeps (tracks s) m"
  shows "keeps (evolves s0) m"
  by (rule evolves_if_tracks) (simp add: assms keepsD)

lemma evolves_upd_job:
  assumes "\<And>j. later_job j (f j)"
  shows "keeps (evolves s0) (upd_job i f)"
proof (rule keepsI)
  fix s
  assume "evolves s0 s"
  then show "wp (upd_job i f) (\<lambda>_. evolves s0) s"
    using assms list_all2_lengthD [of later_job "jobs_list s0" "jobs_list s"]
    by (auto simp: wp_rules evolves_def intro!: list_all2_upd
        intro: later_job_trans list_all2_nthD2)
qed

section \<open>The operations on the table\<close>

text \<open>
  \<open>jobs_refresh_states\<close> never removes a job: the branch of the code that would do so is
  not reachable in a table in order.
\<close>

lemma tracks_active:
  assumes "jobs_ok s0" "tracks s0 s" "i < MAX_BG_JOBS" "active (job s i)"
  shows "\<not> reported (job s i)"
proof -
  have "same_job (job s0 i) (job s i)" and "job s0 i \<in> set (jobs_list s0)"
    using assms tracks_nth [of s0 s i] by (simp_all add: jobs_ok_def job_def)
  with assms(1,4) show ?thesis by (simp add: same_job_def jobs_ok_def entry_ok_def)
qed

lemma refresh_end_tracks:
  assumes ok: "jobs_ok s0" and t: "tracks s0 s" and i: "i < MAX_BG_JOBS" and a: "active (job s i)"
    and r: "snd r \<longrightarrow> fst r"
  shows "wp (do { upd_job i (\<lambda>j. j\<lparr>is_stopped := snd r\<rparr>);
                  if \<not> fst r
                  then upd_job i (\<lambda>j. if reported j \<or> is_stopped j then j\<lparr>active := False\<rparr> else j)
                  else done_with () }) (\<lambda>_. tracks s0) s"
proof -
  define s1 where "s1 = s\<lparr>jobs_list := (jobs_list s)[i := (jobs_list s ! i)\<lparr>is_stopped := snd r\<rparr>]\<rparr>"
  have "tracks s0 s1"
    using keepsD [OF tracks_upd_job [of "\<lambda>j. j\<lparr>is_stopped := snd r\<rparr>"] t, of i]
    by (simp add: wp_rules s1_def)
  moreover have "i < length (jobs_list s)" using ok i tracks_length [OF t] by (simp add: jobs_ok_def)
  then have "\<not> reported (jobs_list s1 ! i)" "is_stopped (jobs_list s1 ! i) = snd r"
    using tracks_active [OF ok t i a] by (simp_all add: s1_def job_def)
  ultimately show ?thesis
    using r by (simp add: wp_rules flip: s1_def)
qed

lemma tracks_refresh_job:
  assumes "jobs_ok s0" "i < MAX_BG_JOBS"
  shows "keeps (tracks s0) (refresh_job os i)"
proof (rule keepsI)
  fix s
  assume t: "tracks s0 s"
  let ?loop = "refresh_procs os i [0..<length (procs (job s i))] False False"
  have "wp ?loop (\<lambda>r s'. (snd r \<longrightarrow> fst r) \<and> tracks s s') s"
    by (intro wp_yields refresh_procs_result keepsD [OF tracks_refresh_procs]) simp_all
  then show "wp (refresh_job os i) (\<lambda>_. tracks s0) s"
  proof (cases "active (job s i)")
    case True
    have "wp (do { upd_job i (\<lambda>j. j\<lparr>is_stopped := snd r\<rparr>);
                  if \<not> fst r
                  then upd_job i (\<lambda>j. if reported j \<or> is_stopped j then j\<lparr>active := False\<rparr> else j)
                  else done_with () }) (\<lambda>_. tracks s0) s'"
      if "(snd r \<longrightarrow> fst r) \<and> tracks s s'" for r s'
    proof (rule refresh_end_tracks [OF assms(1) _ assms(2)])
      show "tracks s0 s'" using tracks_trans t that by blast
      show "active (job s' i)"
        using tracks_nth [of s s' i] that True assms tracks_length [OF t]
        by (simp add: jobs_ok_def same_job_def)
    qed (use that in simp)
    with True \<open>wp ?loop _ s\<close> show ?thesis
      by (simp only: refresh_job_def wp_bind wp_State prod.case wp_if if_False not_True_eq_False)
        (erule wp_mono, simp only: wp_bind)
  qed (simp add: refresh_job_def wp_rules t)
qed

lemma tracks_refresh: "jobs_ok s0 \<Longrightarrow> keeps (tracks s0) (jobs_refresh_states os)"
  unfolding jobs_refresh_states_def
  by (intro keeps_for_each tracks_refresh_job) simp_all

lemma evolves_sys [keeps_rules]: "keeps (evolves s0) (sys os c)"
  by (rule evolves_if_keeps_tracks [OF tracks_sys])

lemma evolves_printf [keeps_rules]: "keeps (evolves s0) (printf os t)"
  by (intro keeps_printf keeps_rules)

lemma evolves_refresh [keeps_rules]: "keeps (evolves s0) (jobs_refresh_states os)"
  by (rule evolves_if_tracks) (simp add: keepsD [OF tracks_refresh])

lemma later_job_simps [simp]:
  "later_job j (j\<lparr>reported := True, active := False\<rparr>)"
  "later_job j (j\<lparr>active := False, finished := b\<rparr>)"
  by (simp_all add: later_job_def)

lemma later_job_same [simp]:
  "later_job j (j\<lparr>is_stopped := b\<rparr>)"
  "later_job j (running_again j)"
  "later_job j (set_proc_state k st j)"
  by (simp_all add: same_job_later)

lemma evolves_check_completed [keeps_rules]: "keeps (evolves s0) (jobs_check_completed os)"
  unfolding jobs_check_completed_def check_job_def
  by (intro keeps_rules evolves_upd_job) simp_all

lemma evolves_get_by_id [keeps_rules]: "keeps (evolves s0) (jobs_get_by_id os jid)"
  unfolding jobs_get_by_id_def by (intro keeps_rules)

lemma evolves_resume_procs: "keeps (evolves s0) (resume_procs os i ks a b)"
  by (induction ks arbitrary: a b)
    (auto simp: resume_proc_def intro!: keeps_rules evolves_upd_job)

lemma evolves_flags [keeps_rules]:
  "keeps (evolves s0) (jobs_set_fg_active b)"
  "keeps (evolves s0) (modify (\<lambda>s. s\<lparr>resume_timed_out := b\<rparr>))"
  by (auto simp: jobs_set_fg_active_def evolves_def intro!: keeps_modify)

lemma evolves_resume_wait: "keeps (evolves s0) (resume_wait os fuel i b)"
  by (induction fuel arbitrary: b) (auto intro!: keeps_rules evolves_resume_procs)

lemma evolves_terminal [keeps_rules]:
  "keeps (evolves s0) (give_terminal os pg)" "keeps (evolves s0) (take_terminal os)"
  unfolding give_terminal_def take_terminal_def by (intro keeps_rules)+

lemma evolves_resume_end: "keeps (evolves s0) (resume_end os i b d)"
  unfolding resume_end_def by (intro keeps_rules evolves_upd_job) simp_all

lemma evolves_resume_fg [keeps_rules]: "keeps (evolves s0) (jobs_resume_fg os fuel jid t)"
  unfolding jobs_resume_fg_def
  by (intro keeps_rules evolves_upd_job evolves_resume_wait evolves_resume_end) simp_all

lemma evolves_resume_bg [keeps_rules]: "keeps (evolves s0) (jobs_resume_bg os jid)"
  unfolding jobs_resume_bg_def by (intro keeps_rules evolves_upd_job) simp_all

lemma evolves_send_signal [keeps_rules]:
  "keeps (evolves s0) (jobs_send_signal_to_job os jid sg)"
  "keeps (evolves s0) (jobs_send_signal_to_pid os pid sg)"
  unfolding jobs_send_signal_to_job_def jobs_send_signal_to_pid_def jobs_pid_is_tracked_def
  by (intro keeps_rules)+

lemma evolves_queries [keeps_rules]:
  "keeps (evolves s0) (jobs_has_stopped os)" "keeps (evolves s0) (jobs_send_sighup_all os)"
  "keeps (evolves s0) (activities os)"
  unfolding jobs_has_stopped_def jobs_send_sighup_all_def sighup_job_def activities_def
    jobs_refresh_and_print_activities_def print_job_def print_proc_def
  by (intro keeps_rules)+

lemma evolves_resume_cmd [keeps_rules]: "keeps (evolves s0) (resume_cmd os fuel list)"
  unfolding resume_cmd_def resume_invalid_def
  by (auto split: option.splits list.splits outcome.splits intro!: keeps_rules)

lemma evolves_ping_cmd [keeps_rules]: "keeps (evolves s0) (ping_cmd os list)"
  unfolding ping_cmd_def ping_invalid_def ping_sent_def Let_def
  by (intro keeps_rules)

section \<open>Adding a job\<close>

lemma find_slot_Some: "find_slot P s = Some i \<Longrightarrow> i < MAX_BG_JOBS \<and> P (job s i)"
  by (auto simp: find_slot_def find_Some_iff)

lemma find_slot_None: "find_slot P s = None \<longleftrightarrow> (\<forall>i < MAX_BG_JOBS. \<not> P (job s i))"
  by (auto simp: find_slot_def find_None_iff)

lemma new_entry_ok:
  "pids \<noteq> [] \<Longrightarrow> cmd_names \<noteq> [] \<Longrightarrow> jid < n \<Longrightarrow> entry_ok n (new_entry jid pg pids cmd_names full)"
  by (auto simp: entry_ok_def new_entry_def new_proc_def MAX_PIDS_PER_JOB_def zip_eq_Nil_iff
      bounded_copy_length split: option.splits)

lemma job_update [simp]:
  "i < length (jobs_list s) \<Longrightarrow>
   job (s\<lparr>jobs_list := (jobs_list s)[i := j]\<rparr>) k = (if k = i then j else job s k)"
  by (simp add: job_def nth_list_update)

lemma jobs_ok_add:
  assumes "jobs_ok s" "fresh_id jid s" "pids \<noteq> []" "cmd_names \<noteq> []"
  shows "wp (jobs_add_pipeline jid pg pids cmd_names full) (\<lambda>_. jobs_ok) s"
proof (cases "find_slot (\<lambda>j. \<not> active j) s")
  case (Some i)
  let ?j = "new_entry jid pg pids cmd_names full"
  let ?s = "s\<lparr>jobs_list := (jobs_list s)[i := ?j]\<rparr>"
  have l: "length (jobs_list s) = MAX_BG_JOBS" and i: "i < MAX_BG_JOBS"
    using assms(1) find_slot_Some [OF Some] by (simp_all add: jobs_ok_def)
  have e: "entry_ok (next_job_id s) ?j" and jid: "job_id ?j = jid"
    using assms new_entry_ok by (auto simp: fresh_id_def new_entry_def)
  have f: "\<forall>k < MAX_BG_JOBS. active (job s k) \<longrightarrow> job_id (job s k) \<noteq> jid"
    using assms(2) l by (simp add: fresh_id_nth)
  have "\<forall>j \<in> set (jobs_list ?s). entry_ok (next_job_id ?s) j"
    using assms(1) e set_update_subset_insert [of "jobs_list s" i ?j] by (auto simp: jobs_ok_def)
  moreover have "a = b" if "a < MAX_BG_JOBS" "b < MAX_BG_JOBS" "active (job ?s a)" "active (job ?s b)"
    "job_id (job ?s a) = job_id (job ?s b)" for a b
    using that assms(1) f i l jid unfolding jobs_ok_def by (auto split: if_splits)
  ultimately have "jobs_ok ?s"
    using l unfolding jobs_ok_def by simp
  with Some show ?thesis
    by (simp add: jobs_add_pipeline_def wp_rules)
qed (simp add: jobs_add_pipeline_def wp_rules assms)

text \<open>Every operation that lets the table evolve keeps it in order.\<close>

lemma jobs_ok_if_evolves:
  assumes "\<And>s. keeps (evolves s) m"
  shows "keeps jobs_ok m"
proof (rule keepsI)
  fix s
  assume "jobs_ok s"
  then have "wp m (\<lambda>_. evolves s) s" by (rule keepsD [OF assms evolves_refl])
  then show "wp m (\<lambda>_. jobs_ok) s" by (rule wp_mono) (rule evolves_jobs_ok)
qed

lemma keeps_add_rest:
  "keeps jobs_ok (do {
     i \<leftarrow> gets (find_slot P);
     (case i of None \<Rightarrow> done_with () | Some i \<Rightarrow> upd_job i all_stopped) })"
proof -
  have "same_job j (all_stopped j)" for j
    by (simp add: same_job_def all_stopped_def comp_def)
  then have "keeps (evolves s) (do {
     i \<leftarrow> gets (find_slot P);
     (case i of None \<Rightarrow> done_with () | Some i \<Rightarrow> upd_job i all_stopped) })" for s
    by (intro keeps_rules evolves_upd_job same_job_later)
  then show ?thesis
    by (rule jobs_ok_if_evolves)
qed

lemma jobs_ok_add_stopped:
  assumes "jobs_ok s" "fresh_id jid s" "pids \<noteq> []" "cmd_names \<noteq> []"
  shows "wp (jobs_add_stopped jid pg pids cmd_names full) (\<lambda>_. jobs_ok) s"
  unfolding jobs_add_stopped_def
  by (subst wp_bind) (rule wp_mono [OF jobs_ok_add [OF assms]], rule keepsD [OF keeps_add_rest])

lemma jobs_ok_alloc: "jobs_ok s \<Longrightarrow> wp jobs_alloc_id (\<lambda>n s'. jobs_ok s' \<and> fresh_id n s') s"
  by (fastforce simp: jobs_alloc_id_def wp_rules jobs_ok_def fresh_id_def entry_ok_def job_def)

end
