(* ===== verification/Jobs_Props.thy ===== *)
theory Jobs_Props
  imports Jobs_Inv
begin

text \<open>
  The properties of the job table: the invariant of the table under every operation,
  the processes a user can signal, the reports of finished jobs, and two ways in which
  jobs are lost.
\<close>

section \<open>Polling and the rest of the shell\<close>

lemma off_table_refresh: "off_table I \<Longrightarrow> keeps I (jobs_refresh_states os)"
proof -
  assume I: "off_table I"
  have s: "keeps I (sys os c)" if "polling c" for c
    using I that by (intro off_table_sys) (simp_all add: off_table_def)
  have p: "keeps I (refresh_proc os i k)" for i k
    unfolding refresh_proc_def refresh_wait_def refresh_stat_def
    by (intro keeps_rules off_table_upd_job s I) (simp_all add: polling_def)
  have "keeps I (refresh_procs os i ks a b)" for i ks a b
    by (induction ks arbitrary: a b) (auto intro!: keeps_rules p)
  then show ?thesis
    unfolding jobs_refresh_states_def refresh_job_def
    by (intro keeps_rules off_table_upd_job I)
qed

section \<open>Signals sent\<close>

definition is_kill :: "syscall \<Rightarrow> bool" where
  "is_kill c = (case c of Kill _ _ \<Rightarrow> True | _ \<Rightarrow> False)"

definition kills :: "shell \<Rightarrow> syscall list" where
  "kills s = filter is_kill (map fst (hist s))"

lemma off_table_kills [simp]: "off_table (\<lambda>s. kills s = K)"
  using polling_cases
  by (fastforce simp: off_table_def flag_free_def ignores_def kills_def is_kill_def)

lemma kills_sys: "\<not> is_kill c \<Longrightarrow> keeps (\<lambda>s. kills s = K) (sys os c)"
  by (rule off_table_sys [OF off_table_kills]) (simp add: ignores_def kills_def)

lemma kills_printf: "keeps (\<lambda>s. kills s = K) (printf os t)"
  by (intro keeps_printf kills_sys) (simp add: is_kill_def)

lemma sys_kill: "wp (sys os (Kill t sg)) (\<lambda>_ s'. kills s' = kills s @ [Kill t sg]) s"
proof -
  have k: "keeps (\<lambda>s'. kills s' = kills s) (do {
      d \<leftarrow> raw_sys os Deliver; for_each (rsigs d) (handle_signal os) })"
    using off_table_kills [of "kills s"]
    by (intro keeps_rules keeps_handle_signal off_table_handler off_table_poll)
      (simp_all only: off_table_def, simp_all add: polling_def)
  show ?thesis
    unfolding sys_def bind_assoc [symmetric]
    by (rule wp_bindI [OF keepsD [OF k refl]]) (simp add: wp_raw_sys kills_def is_kill_def)
qed

text \<open>Where a table comes from polling, its active jobs are those of the table before.\<close>

lemma tracks_find:
  assumes "jobs_ok s0" "tracks s0 s" "i < MAX_BG_JOBS"
  shows "active (job s0 i) = active (job s i)" "job_id (job s0 i) = job_id (job s i)"
    "pgid (job s0 i) = pgid (job s i)"
    "proc_pid ` set (procs (job s0 i)) = proc_pid ` set (procs (job s i))"
proof -
  have j: "same_job (job s0 i) (job s i)"
    using assms tracks_nth [of s0 s i] by (simp add: jobs_ok_def)
  then show "active (job s0 i) = active (job s i)" "job_id (job s0 i) = job_id (job s i)"
    "pgid (job s0 i) = pgid (job s i)"
    by (simp_all add: same_job_def)
  from j have "set (map proc_pid (procs (job s0 i))) = set (map proc_pid (procs (job s i)))"
    by (simp only: same_job_def)
  then show "proc_pid ` set (procs (job s0 i)) = proc_pid ` set (procs (job s i))"
    by simp
qed

lemma refresh_polls:
  assumes "jobs_ok s"
  shows "wp (jobs_refresh_states os) (\<lambda>_ s'. kills s' = kills s \<and> tracks s s') s"
  using keepsD [OF tracks_refresh [OF assms] tracks_refl]
    keepsD [OF off_table_refresh [OF off_table_kills [of "kills s"]]]
  by (simp add: wp_conj)

text \<open>The single signal of \<open>ping\<close>, to a job or to a process of the table.\<close>

definition job_target :: "shell \<Rightarrow> int \<Rightarrow> int \<Rightarrow> bool" where
  "job_target s jid t \<longleftrightarrow> (\<exists>i < MAX_BG_JOBS. active (job s i) \<and> job_id (job s i) = jid \<and> t = - pgid (job s i))"

definition pid_target :: "shell \<Rightarrow> int \<Rightarrow> bool" where
  "pid_target s t \<longleftrightarrow> (\<exists>i < MAX_BG_JOBS. active (job s i) \<and> t \<in> proc_pid ` set (procs (job s i)))"

definition one_kill :: "shell \<Rightarrow> (int \<Rightarrow> bool) \<Rightarrow> int \<Rightarrow> bool \<Rightarrow> shell \<Rightarrow> bool" where
  "one_kill s T sg ok s' \<longleftrightarrow>
     (if ok then (\<exists>t. T t \<and> kills s' = kills s @ [Kill t sg]) else kills s' = kills s)"

lemma get_by_id_polls:
  assumes "jobs_ok s"
  shows "wp (jobs_get_by_id os jid) (\<lambda>r s1. kills s1 = kills s \<and>
           (\<forall>i. r = Some i \<longrightarrow> job_target s jid (- pgid (job s1 i)))) s"
  unfolding jobs_get_by_id_def
proof (rule wp_bindI [OF refresh_polls [OF assms]])
  fix x s1
  assume a: "kills s1 = kills s \<and> tracks s s1"
  have "job_target s jid (- pgid (job s1 i))"
    if "find_slot (\<lambda>j. active j \<and> job_id j = jid \<and> has_alive j) s1 = Some i" for i
    using find_slot_Some [OF that] tracks_find [OF assms, of s1 i] a by (auto simp: job_target_def)
  with a show "wp (gets (find_slot (\<lambda>j. active j \<and> job_id j = jid \<and> has_alive j)))
      (\<lambda>r s1. kills s1 = kills s \<and> (\<forall>i. r = Some i \<longrightarrow> job_target s jid (- pgid (job s1 i)))) s1"
    by (simp add: wp_rules)
qed

lemma pid_is_tracked_polls:
  assumes "jobs_ok s"
  shows "wp (jobs_pid_is_tracked os pid) (\<lambda>t s1. kills s1 = kills s \<and> (t \<longrightarrow> pid_target s pid)) s"
  unfolding jobs_pid_is_tracked_def
proof (rule wp_bindI [OF refresh_polls [OF assms]])
  fix x s1
  assume a: "kills s1 = kills s \<and> tracks s s1"
  let ?f = "find_slot (\<lambda>j. active j \<and>
        (\<exists>p \<in> set (procs j). proc_pid p = pid \<and> proc_state p \<noteq> PROC_EXITED))"
  have "pid_target s pid" if "?f s1 = Some i" for i
  proof -
    have "active (job s1 i)" "pid \<in> proc_pid ` set (procs (job s1 i))" "i < MAX_BG_JOBS"
      using find_slot_Some [OF that] by auto
    then show ?thesis
      using tracks_find [OF assms, of s1 i] a unfolding pid_target_def by metis
  qed
  with a show "wp (do { i \<leftarrow> gets ?f; done_with (i \<noteq> None) })
      (\<lambda>t s1. kills s1 = kills s \<and> (t \<longrightarrow> pid_target s pid)) s1"
    by (auto simp: wp_rules)
qed

lemma sys_kill_one:
  "kills s1 = kills s \<Longrightarrow> T t \<Longrightarrow>
   wp (do { sys os (Kill t sg); done_with True }) (one_kill s T sg) s1"
  by (rule wp_bindI [OF sys_kill]) (auto simp: wp_return one_kill_def)

lemma send_signal_to_job:
  assumes "jobs_ok s"
  shows "wp (jobs_send_signal_to_job os jid sg) (one_kill s (job_target s jid) sg) s"
  unfolding jobs_send_signal_to_job_def
proof (rule wp_bindI [OF get_by_id_polls [OF assms]])
  fix r s1
  assume "kills s1 = kills s \<and> (\<forall>i. r = Some i \<longrightarrow> job_target s jid (- pgid (job s1 i)))"
  then show "wp (case r of None \<Rightarrow> done_with False | Some i \<Rightarrow> do {
          pg \<leftarrow> gets (\<lambda>s. pgid (job s i)); sys os (Kill (- pg) sg); done_with True })
        (one_kill s (job_target s jid) sg) s1"
    using sys_kill_one [of s1 s "job_target s jid"]
    by (cases r) (simp_all add: wp_return wp_bind wp_State one_kill_def)
qed

lemma send_signal_to_pid:
  assumes "jobs_ok s"
  shows "wp (jobs_send_signal_to_pid os pid sg) (one_kill s (\<lambda>t. t = pid \<and> pid_target s t) sg) s"
  unfolding jobs_send_signal_to_pid_def
proof (rule wp_bindI [OF pid_is_tracked_polls [OF assms]])
  fix t s1
  assume a: "kills s1 = kills s \<and> (t \<longrightarrow> pid_target s pid)"
  show "wp (if \<not> t then done_with False else do { sys os (Kill pid sg); done_with True })
        (one_kill s (\<lambda>t. t = pid \<and> pid_target s t) sg) s1"
    using a sys_kill_one [of s1 s "\<lambda>t. t = pid \<and> pid_target s t" pid]
    by (cases t) (simp_all add: wp_return one_kill_def)
qed

text \<open>The numbers that \<open>ping\<close> reads from its arguments.\<close>

lemma ping_sent_kills: "keeps (\<lambda>s. kills s = K) (ping_sent os n t ok)"
  unfolding ping_sent_def by (intro keeps_rules kills_printf)

lemma ping_invalid_kills: "wp (ping_invalid os) (\<lambda>_ s'. kills s' = kills s) s"
  unfolding ping_invalid_def
  by (rule keepsD [of "\<lambda>s'. kills s' = kills s"]) (intro keeps_rules kills_printf refl)+

lemma one_kill_then:
  assumes "wp m (one_kill s T sg) s"
  shows "wp (do { ok \<leftarrow> m; ping_sent os n t ok; done_with x })
           (\<lambda>_ s'. kills s' = kills s \<or> (\<exists>t. T t \<and> kills s' = kills s @ [Kill t sg])) s"
proof (rule wp_bindI [OF assms])
  fix ok s1
  assume "one_kill s T sg ok s1"
  moreover have "wp (ping_sent os n t ok) (\<lambda>_ s'. kills s' = kills s1) s1"
    by (rule keepsD [OF ping_sent_kills]) simp
  ultimately show "wp (do { ping_sent os n t ok; done_with x })
      (\<lambda>_ s'. kills s' = kills s \<or> (\<exists>t. T t \<and> kills s' = kills s @ [Kill t sg])) s1"
    by (intro wp_bindI [where P = "\<lambda>_ s'. kills s' = kills s1"])
      (auto simp: wp_return one_kill_def split: if_splits)
qed

section \<open>Reports\<close>

definition printed :: "shell \<Rightarrow> string list" where
  "printed s = concat (map (\<lambda>e. case fst e of Printf t \<Rightarrow> [t] | _ \<Rightarrow> []) (hist s))"

text \<open>Slots that are free or whose job has finished: no handler touches them.\<close>

definition settled :: "shell \<Rightarrow> shell \<Rightarrow> bool" where
  "settled s0 s \<longleftrightarrow> length (jobs_list s) = MAX_BG_JOBS \<and>
     (\<forall>i < MAX_BG_JOBS. \<not> active (job s0 i) \<or> finished (job s0 i) \<longrightarrow> job s i = job s0 i)"

lemma off_table_printed [simp]: "off_table (\<lambda>s. printed s = P)"
  using polling_cases
  by (fastforce simp: off_table_def flag_free_def ignores_def printed_def)

lemma settled_ignores [simp]: "ignores (settled s0) c" "flag_free (settled s0)"
  by (simp_all add: ignores_def flag_free_def settled_def job_def)

lemma settled_upd_job:
  "active (job s0 i) \<and> \<not> finished (job s0 i) \<Longrightarrow> keeps (settled s0) (upd_job i f)"
  by (cases "i < MAX_BG_JOBS") (auto simp: keeps_def wp_rules settled_def job_def nth_list_update)

lemma settled_sigchld_job:
  assumes "i < MAX_BG_JOBS"
  shows "keeps (settled s0) (sigchld_job os i)"
proof (rule keepsI)
  fix s
  assume s: "settled s0 s"
  let ?loop = "for_each [0..<length (procs (job s i))] (sigchld_proc os i)"
  show "wp (sigchld_job os i) (\<lambda>_. settled s0) s"
  proof (cases "active (job s i) \<and> \<not> finished (job s i)")
    case True
    then have o: "active (job s0 i) \<and> \<not> finished (job s0 i)"
      using s assms unfolding settled_def by metis
    have "keeps (settled s0) ?loop"
      unfolding sigchld_proc_def
      by (intro keeps_rules keeps_raw_sys settled_upd_job [OF o] settled_ignores)
    then have "wp ?loop (\<lambda>_. settled s0) s" using s by (rule keepsD)
    with True show ?thesis by (simp add: sigchld_job_def wp_rules)
  next
    case False
    with s show ?thesis by (auto simp: sigchld_job_def wp_rules)
  qed
qed

lemma settled_sys: "keeps (settled s0) (sys os c)"
  by (intro keeps_sys settled_ignores)
    (unfold sigchld_handler_def, intro keeps_rules settled_sigchld_job, simp)

lemma printf_effect:
  assumes "jobs_ok s"
  shows "wp (printf os t) (\<lambda>_ s'. tracks s s' \<and> settled s s' \<and> printed s' = printed s @ [t]) s"
proof -
  have "keeps (\<lambda>s'. printed s' = printed s) (do {
      d \<leftarrow> raw_sys os Deliver; for_each (rsigs d) (handle_signal os) })"
    using off_table_printed [of "printed s"]
    by (intro keeps_rules keeps_handle_signal off_table_handler off_table_poll)
      (simp_all only: off_table_def, simp_all add: polling_def)
  then have "wp (sys os (Printf t)) (\<lambda>_ s'. printed s' = printed s @ [t]) s"
    unfolding sys_def bind_assoc [symmetric]
    by (rule wp_bindI [OF keepsD [OF _ refl]]) (simp add: wp_raw_sys printed_def)
  moreover have "wp (sys os (Printf t)) (\<lambda>_. settled s) s" "wp (sys os (Printf t)) (\<lambda>_. tracks s) s"
    using assms by (auto intro!: keepsD [OF settled_sys] keepsD [OF tracks_sys] simp: settled_def jobs_ok_def)
  ultimately have "wp (sys os (Printf t)) (\<lambda>_ s'. tracks s s' \<and> settled s s' \<and> printed s' = printed s @ [t]) s"
    by (simp add: wp_conj)
  then show ?thesis
    unfolding printf_def by (rule wp_bindI) (simp add: wp_return)
qed

text \<open>
  The effect of one step of the reporting loop, at slot \<open>i\<close>: the job is left alone and
  nothing is printed, or it has finished, is reported and leaves the table.
\<close>

definition check_step :: "nat \<Rightarrow> shell \<Rightarrow> shell \<Rightarrow> bool" where
  "check_step i s s' \<longleftrightarrow> jobs_ok s' \<and>
     (\<forall>k < MAX_BG_JOBS. k \<noteq> i \<longrightarrow> active (job s' k) = active (job s k)) \<and>
     (\<forall>k < MAX_BG_JOBS. \<not> active (job s k) \<longrightarrow> job s' k = job s k) \<and>
     (if active (job s' i) = active (job s i) then printed s' = printed s
      else active (job s i) \<and> finished (job s' i) \<and> reported (job s' i) \<and>
           printed s' = printed s @ [report_text (job s' i)])"

lemma check_job_step:
  assumes ok: "jobs_ok s" and i: "i < MAX_BG_JOBS"
  shows "wp (check_job os i) (\<lambda>_. check_step i s) s"
proof (cases "active (job s i) \<and> finished (job s i) \<and> \<not> reported (job s i) \<and> \<not> is_stopped (job s i)")
  case True
  have "wp (do { printf os (report_text (job s i));
                 upd_job i (\<lambda>j. j\<lparr>reported := True, active := False\<rparr>) }) (\<lambda>_. check_step i s) s"
  proof (rule wp_bindI [OF printf_effect [OF ok]])
    fix x s1
    assume s1: "tracks s s1 \<and> settled s s1 \<and> printed s1 = printed s @ [report_text (job s i)]"
    let ?u = "(\<lambda>j. j\<lparr>reported := True, active := False\<rparr>)"
    define s2 where "s2 = s1\<lparr>jobs_list := (jobs_list s1)[i := ?u (jobs_list s1 ! i)]\<rparr>"
    have l: "length (jobs_list s1) = MAX_BG_JOBS" and ji: "job s1 i = job s i"
      using s1 i True by (auto simp: settled_def)
    have j2: "job s2 k = (if k = i then ?u (job s i) else job s1 k)" for k
      using l i ji by (auto simp: s2_def job_def nth_list_update)
    have "evolves s s1" using s1 evolves_tracks [OF evolves_refl [OF ok]] by blast
    then have "jobs_ok s2"
      using keepsD [OF evolves_upd_job [of ?u s i]] evolves_jobs_ok by (fastforce simp: wp_rules s2_def)
    moreover have "printed s2 = printed s1" by (simp add: s2_def printed_def)
    then have "printed s2 = printed s @ [report_text (job s2 i)]"
      using s1 by (simp add: j2 report_text_def)
    moreover have "\<forall>k < MAX_BG_JOBS. k \<noteq> i \<longrightarrow> active (job s2 k) = active (job s k)"
      using s1 ok tracks_find(1) [of s s1] by (simp add: j2)
    moreover have "\<forall>k < MAX_BG_JOBS. \<not> active (job s k) \<longrightarrow> job s2 k = job s k"
      using s1 True by (auto simp: j2 settled_def)
    ultimately have "check_step i s s2"
      using True by (simp add: check_step_def j2)
    then show "wp (upd_job i ?u) (\<lambda>_. check_step i s) s1"
      by (simp add: wp_rules s2_def)
  qed
  with True show ?thesis by (simp add: check_job_def wp_bind wp_State)
next
  case False
  then show ?thesis by (auto simp: check_job_def wp_rules check_step_def ok)
qed

definition reports :: "nat list \<Rightarrow> shell \<Rightarrow> shell \<Rightarrow> bool" where
  "reports is s s' \<longleftrightarrow>
     (\<forall>k < MAX_BG_JOBS. \<not> active (job s k) \<longrightarrow> job s' k = job s k) \<and>
     (\<forall>k < MAX_BG_JOBS. k \<notin> set is \<longrightarrow> active (job s' k) = active (job s k)) \<and>
     (\<forall>k \<in> set is. active (job s k) \<and> \<not> active (job s' k) \<longrightarrow> finished (job s' k) \<and> reported (job s' k)) \<and>
     printed s' = printed s @
       map (\<lambda>k. report_text (job s' k)) (filter (\<lambda>k. active (job s k) \<and> \<not> active (job s' k)) is)"

lemma reports_Cons:
  assumes c: "check_step i s s1" and r: "reports is s1 s2"
    and i: "i < MAX_BG_JOBS" "i \<notin> set is" "set is \<subseteq> {..<MAX_BG_JOBS}"
  shows "reports (i # is) s s2"
proof -
  have act: "active (job s1 k) = active (job s k)" if "k \<in> set is" for k
    using c i that unfolding check_step_def by (metis lessThan_iff subsetD)
  have ai: "active (job s2 i) = active (job s1 i)"
    using r i by (auto simp: reports_def)
  have same: "job s2 i = job s1 i" if "\<not> active (job s1 i)"
    using r i(1) that unfolding reports_def by blast
  have "filter (\<lambda>k. active (job s k) \<and> \<not> active (job s2 k)) is =
        filter (\<lambda>k. active (job s1 k) \<and> \<not> active (job s2 k)) is"
    using act by (simp cong: filter_cong)
  then have p: "printed s2 = printed s1 @
      map (\<lambda>k. report_text (job s2 k)) (filter (\<lambda>k. active (job s k) \<and> \<not> active (job s2 k)) is)"
    using r by (simp add: reports_def)
  have "printed s2 = printed s @ map (\<lambda>k. report_text (job s2 k))
          (filter (\<lambda>k. active (job s k) \<and> \<not> active (job s2 k)) (i # is))"
    using c p ai same by (cases "active (job s1 i) = active (job s i)") (auto simp: check_step_def)
  moreover have "\<forall>k < MAX_BG_JOBS. \<not> active (job s k) \<longrightarrow> job s2 k = job s k"
    using c r unfolding check_step_def reports_def by metis
  moreover have "\<forall>k < MAX_BG_JOBS. k \<notin> set (i # is) \<longrightarrow> active (job s2 k) = active (job s k)"
    using c r unfolding check_step_def reports_def by simp
  moreover have "\<forall>k \<in> set (i # is). active (job s k) \<and> \<not> active (job s2 k) \<longrightarrow>
      finished (job s2 k) \<and> reported (job s2 k)"
    using c r ai act same unfolding check_step_def reports_def by auto
  ultimately show ?thesis unfolding reports_def by blast
qed

lemma check_loop_reports:
  "jobs_ok s \<Longrightarrow> distinct is \<Longrightarrow> set is \<subseteq> {..<MAX_BG_JOBS} \<Longrightarrow>
   wp (for_each is (check_job os)) (\<lambda>_. reports is s) s"
proof (induction "is" arbitrary: s)
  case Nil
  then show ?case by (simp add: wp_rules reports_def)
next
  case (Cons i "is")
  have "wp (for_each is (check_job os)) (\<lambda>_. reports (i # is) s) s1" if "check_step i s s1" for s1
    using Cons.IH [of s1] Cons.prems that reports_Cons [OF that]
    by (auto simp: check_step_def elim!: wp_mono)
  then show ?case
    unfolding for_each.simps
    using Cons.prems by (intro wp_bindI [OF check_job_step]) auto
qed

section \<open>Jobs whose leader is gone\<close>

text \<open>Slot \<open>i\<close> holds an unfinished job of group \<open>pg\<close> (an active one, if \<open>a\<close>).\<close>

definition unfinished :: "nat \<Rightarrow> int \<Rightarrow> bool \<Rightarrow> shell \<Rightarrow> bool" where
  "unfinished i pg a s \<longleftrightarrow> pgid (job s i) = pg \<and> \<not> finished (job s i) \<and> (a \<longrightarrow> active (job s i))"

definition never_waited :: "environment \<Rightarrow> int \<Rightarrow> bool" where
  "never_waited os pg \<longleftrightarrow> (\<forall>h a b c. rv (os h (Waitpid pg a b c)) \<noteq> pg)"

lemma unfinished_ignores [simp]: "ignores (unfinished i pg a) c" "flag_free (unfinished i pg a)"
  by (simp_all add: ignores_def flag_free_def unfinished_def job_def)

lemma unfinished_upd_job:
  assumes "\<And>j. pgid j = pg \<Longrightarrow> \<not> finished j \<Longrightarrow>
             pgid (f j) = pg \<and> \<not> finished (f j) \<and> (a \<longrightarrow> active j \<longrightarrow> active (f j))"
  shows "keeps (unfinished i pg a) (upd_job k f)"
proof (rule keepsI)
  fix s
  assume u: "unfinished i pg a s"
  have "(jobs_list s)[k := x] ! i = jobs_list s ! i" if "\<not> (k = i \<and> i < length (jobs_list s))" for x
    using that by (metis list_update_beyond not_less nth_list_update_neq)
  with u show "wp (upd_job k f) (\<lambda>_. unfinished i pg a) s"
    using assms [of "job s i"]
    by (cases "k = i \<and> i < length (jobs_list s)") (simp_all add: wp_rules unfinished_def job_def)
qed

lemma unfinished_other: "k \<noteq> i \<Longrightarrow> keeps (unfinished i pg a) (upd_job k f)"
  by (simp add: keeps_def wp_rules unfinished_def job_def)

lemma unfinished_exited:
  "pid \<noteq> pg \<Longrightarrow> keeps (unfinished i pg a) (upd_job k (proc_exited n pid st))"
  by (rule unfinished_upd_job) (auto simp: proc_exited_def set_proc_state_def Let_def)

lemma unfinished_state:
  "keeps (unfinished i pg a) (upd_job k (set_proc_state n st))"
  "keeps (unfinished i pg a) (upd_job k (\<lambda>j. (set_proc_state n st j)\<lparr>is_stopped := b\<rparr>))"
  by (rule unfinished_upd_job, simp add: set_proc_state_def)+

lemma keeps_bind_from:
  "keeps I m \<Longrightarrow> yields P m \<Longrightarrow> (\<And>x. P x \<Longrightarrow> keeps I (f x)) \<Longrightarrow> keeps I (do { x \<leftarrow> m; f x })"
  by (auto simp: keeps_def intro!: wp_bindI [OF wp_yields])

text \<open>A wait for a process: its branch for success is not taken for the leader.\<close>

lemma waited_not_leader:
  assumes "never_waited os pg" "m = raw_sys os (Waitpid pid a b c) \<or> m = sys os (Waitpid pid a b c)"
  shows "yields (\<lambda>r. rv r = pid \<longrightarrow> pid \<noteq> pg) m"
  using assms by (auto simp: never_waited_def intro!: yields_sys)

lemma unfinished_sigchld_proc:
  assumes "never_waited os pg"
  shows "keeps (unfinished i pg a) (sigchld_proc os k n)"
  unfolding sigchld_proc_def
  by (rule keeps_bind [OF keeps_gets], rule keeps_bind_from [OF keeps_raw_sys
        [OF unfinished_ignores(1)] waited_not_leader [OF assms disjI1 [OF refl]]])
    (intro keeps_rules unfinished_exited unfinished_state; blast)

lemma unfinished_sys: "never_waited os pg \<Longrightarrow> keeps (unfinished i pg a) (sys os c)"
  by (intro keeps_sys sigchld_handler_keeps unfinished_sigchld_proc unfinished_ignores)

lemma unfinished_refresh:
  assumes "never_waited os pg"
  shows "keeps (unfinished i pg False) (jobs_refresh_states os)"
proof -
  have w: "keeps (unfinished i pg False) (refresh_wait os k n pid)" for k n pid
    unfolding refresh_wait_def
    by (rule keeps_bind_from [OF unfinished_sys [OF assms] waited_not_leader [OF assms disjI2 [OF refl]]])
      (intro keeps_rules unfinished_exited unfinished_state; blast)
  have p: "keeps (unfinished i pg False) (refresh_proc os k n)" for k n
    unfolding refresh_proc_def refresh_stat_def
    by (intro keeps_rules w unfinished_sys assms unfinished_state)
  have "keeps (unfinished i pg False) (refresh_procs os k ns u v)" for k ns u v
    by (induction ns arbitrary: u v) (auto intro!: keeps_rules p)
  then show ?thesis
    unfolding jobs_refresh_states_def refresh_job_def
    by (intro keeps_rules unfinished_upd_job) simp_all
qed

lemma unfinished_check_job:
  assumes "never_waited os pg"
  shows "keeps (unfinished i pg True) (check_job os k)"
proof (cases "k = i")
  case True
  then show ?thesis
    by (auto simp: keeps_def check_job_def wp_rules unfinished_def)
next
  case False
  then show ?thesis
    unfolding check_job_def
    by (intro keeps_rules keeps_printf unfinished_sys assms unfinished_other)
qed

text \<open>A shell with one background pipeline of two processes, and an environment to run it in.\<close>

definition two_procs :: shell where
  "two_procs = (shell_start Map.empty)\<lparr>next_job_id := 2,
     jobs_list := (replicate MAX_BG_JOBS zero_job)
       [0 := new_entry 1 7 [7, 8] [''ls'', ''cat''] (Some ''ls | cat'')]\<rparr>"

definition leader_exits :: environment where
  "leader_exits h c = \<lparr>rv = (case c of Waitpid p _ _ _ \<Rightarrow> if p = 7 then 7 else 0 | _ \<Rightarrow> 0),
     rerrno = EINTR, rstatus = Exited 0, rtext = None, rkind = REG, rnames = [], rnum = 0, rsigs = []\<rparr>"

definition no_news :: environment where
  "no_news h c = \<lparr>rv = 0, rerrno = EINTR, rstatus = Exited 0, rtext = None, rkind = REG, rnames = [], rnum = 0, rsigs = []\<rparr>"

lemma job_two_procs:
  "i < MAX_BG_JOBS \<Longrightarrow> job two_procs i =
     (if i = 0 then new_entry 1 7 [7, 8] [''ls'', ''cat''] (Some ''ls | cat'') else zero_job)"
  by (simp add: job_def two_procs_def nth_list_update)

lemma jobs_ok_two_procs: "jobs_ok two_procs"
proof -
  have "entry_ok 2 (new_entry 1 7 [7, 8] [''ls'', ''cat''] (Some ''ls | cat''))" "entry_ok 2 zero_job"
    by (simp add: new_entry_ok) (simp add: entry_ok_def zero_job_def)
  then have "\<forall>j \<in> set (jobs_list two_procs). entry_ok 2 j"
    using set_update_subset_insert by (fastforce simp: two_procs_def)
  moreover have "length (jobs_list two_procs) = MAX_BG_JOBS" "next_job_id two_procs = 2"
    by (simp_all add: two_procs_def)
  ultimately show ?thesis
    unfolding jobs_ok_def by (auto simp: job_two_procs zero_job_def)
qed

section \<open>Properties\<close>

lemma jobs_ok_start: "jobs_ok (shell_start env)"
  by (simp add: jobs_ok_def shell_start_def job_def zero_job_def entry_ok_def)

text \<open>
  The job table stays in order under every operation and signal, whatever the
  operating system answers: it has its 256 slots, no command name or command line
  overruns its buffer, every active job has between 1 and 64 processes and has not been
  reported, and no two active jobs share a number.
\<close>

theorem jobs_table_ok:
  "jobs_ok (shell_start env) \<and>
   keeps jobs_ok (sigchld_handler os) \<and> keeps jobs_ok (jobs_refresh_states os) \<and>
   keeps jobs_ok (jobs_check_completed os) \<and> keeps jobs_ok (activities os) \<and>
   keeps jobs_ok (ping_cmd os list) \<and> keeps jobs_ok (resume_cmd os fuel list) \<and>
   keeps jobs_ok (jobs_send_sighup_all os) \<and> keeps jobs_ok (jobs_has_stopped os) \<and>
   (\<forall>s pg pids cmd_names full. jobs_ok s \<and> pids \<noteq> [] \<and> cmd_names \<noteq> [] \<longrightarrow>
      wp (do { n \<leftarrow> jobs_alloc_id; jobs_add_pipeline n pg pids cmd_names full }) (\<lambda>_. jobs_ok) s \<and>
      wp (do { n \<leftarrow> jobs_alloc_id; jobs_add_stopped n pg pids cmd_names full }) (\<lambda>_. jobs_ok) s)"
proof (intro conjI allI impI)
  show "jobs_ok (shell_start env)" by (rule jobs_ok_start)
  show "keeps jobs_ok (sigchld_handler os)"
    by (intro jobs_ok_if_evolves evolves_if_keeps_tracks sigchld_handler_keeps tracks_sigchld_proc)
next
  fix s :: shell and pg :: int and pids :: "int list" and cmd_names :: "string list"
    and full :: "string option"
  assume "jobs_ok s \<and> pids \<noteq> [] \<and> cmd_names \<noteq> []"
  then show "wp (do { n \<leftarrow> jobs_alloc_id; jobs_add_pipeline n pg pids cmd_names full }) (\<lambda>_. jobs_ok) s"
    "wp (do { n \<leftarrow> jobs_alloc_id; jobs_add_stopped n pg pids cmd_names full }) (\<lambda>_. jobs_ok) s"
    by (auto intro!: wp_bindI [OF jobs_ok_alloc] jobs_ok_add jobs_ok_add_stopped)
qed (intro jobs_ok_if_evolves keeps_rules)+

theorem jobs_table_ok_witness:
  "jobs_ok (shell_start Map.empty) \<and>
   wp (do { n \<leftarrow> jobs_alloc_id; jobs_add_pipeline n 7 [7, 8] [''ls'', ''wc''] (Some ''ls | wc'') })
     (\<lambda>_. jobs_ok) (shell_start Map.empty)"
  using jobs_table_ok [of Map.empty "\<lambda>_ _. \<lparr>rv = 0, rerrno = EINTR, rstatus = Exited 0, rtext = None,
    rkind = REG, rnames = [], rnum = 0, rsigs = []\<rparr>" "[]" 0] by simp

text \<open>
  C8. \<^verbatim>\<open>jobs_check_completed\<close> prints exactly one line for every job that leaves the
  table, in the order of the slots, and nothing else; such a job was active and has
  finished, is marked as reported, and free slots are left as they were.
\<close>

theorem check_completed_reports:
  assumes "jobs_ok s"
  shows "wp (jobs_check_completed os)
     (\<lambda>_ s'. printed s' = printed s @ map (\<lambda>k. report_text (job s' k))
              (filter (\<lambda>k. active (job s k) \<and> \<not> active (job s' k)) [0..<MAX_BG_JOBS]) \<and>
        (\<forall>k < MAX_BG_JOBS. active (job s k) \<and> \<not> active (job s' k) \<longrightarrow>
           finished (job s' k) \<and> reported (job s' k)) \<and>
        (\<forall>k < MAX_BG_JOBS. \<not> active (job s k) \<longrightarrow> \<not> active (job s' k))) s"
proof -
  let ?P = "\<lambda>_ s1. printed s1 = printed s \<and> tracks s s1"
  have r: "wp (jobs_refresh_states os) ?P s"
    using keepsD [OF tracks_refresh [OF assms] tracks_refl]
      keepsD [OF off_table_refresh [OF off_table_printed [of "printed s"]]]
    by (simp add: wp_conj)
  have "wp (for_each [0..<MAX_BG_JOBS] (check_job os)) (\<lambda>_. reports [0..<MAX_BG_JOBS] s1) s1"
    if "tracks s s1" for s1
    using evolves_jobs_ok [OF evolves_tracks [OF evolves_refl [OF assms] that]]
    by (rule check_loop_reports) auto
  moreover have "printed s' = printed s @ map (\<lambda>k. report_text (job s' k))
              (filter (\<lambda>k. active (job s k) \<and> \<not> active (job s' k)) [0..<MAX_BG_JOBS]) \<and>
        (\<forall>k < MAX_BG_JOBS. active (job s k) \<and> \<not> active (job s' k) \<longrightarrow>
           finished (job s' k) \<and> reported (job s' k)) \<and>
        (\<forall>k < MAX_BG_JOBS. \<not> active (job s k) \<longrightarrow> \<not> active (job s' k))"
    if t: "tracks s s1" and p: "printed s1 = printed s" and r: "reports [0..<MAX_BG_JOBS] s1 s'" for s1 s'
  proof -
    have act: "active (job s1 k) = active (job s k)" if "k < MAX_BG_JOBS" for k
      using tracks_find(1) [OF assms t that] by simp
    then have "filter (\<lambda>k. active (job s1 k) \<and> \<not> active (job s' k)) [0..<MAX_BG_JOBS] =
        filter (\<lambda>k. active (job s k) \<and> \<not> active (job s' k)) [0..<MAX_BG_JOBS]"
      by (intro filter_cong) auto
    then show ?thesis
      using r p act unfolding reports_def by simp
  qed
  ultimately show ?thesis
    unfolding jobs_check_completed_def
    by (intro wp_bindI [OF r]) (elim conjE, rule wp_mono)
qed

theorem check_completed_reports_witness:
  "wp (jobs_check_completed (\<lambda>_ _. \<lparr>rv = 0, rerrno = EINTR, rstatus = Exited 0, rtext = None,
      rkind = REG, rnames = [], rnum = 0, rsigs = []\<rparr>))
     (\<lambda>_ s'. \<forall>k < MAX_BG_JOBS. \<not> active (job (shell_start Map.empty) k) \<longrightarrow> \<not> active (job s' k))
     (shell_start Map.empty)"
  using check_completed_reports [OF jobs_ok_start, of "\<lambda>_ _. \<lparr>rv = 0, rerrno = EINTR,
      rstatus = Exited 0, rtext = None, rkind = REG, rnames = [], rnum = 0, rsigs = []\<rparr>" Map.empty]
  by (simp add: wp_conj)

text \<open>
  C7. \<^verbatim>\<open>ping\<close> sends at most one signal, and only to a job of the table with the number
  given (as a process group) or to a process that belongs to an active job; the signal is the
  number given, modulo 64.
\<close>

theorem ping_signals:
  assumes "jobs_ok s"
  shows "wp (ping_cmd os list)
           (\<lambda>_ s'. kills s' = kills s \<or>
              (\<exists>t sig_str target. kills s' = kills s @ [Kill t (c_rem (atoi_digits sig_str) 64)] \<and>
                 length list = 3 \<and> ttext (list ! 2) = Some sig_str \<and> ttext (list ! 1) = Some target \<and>
                 (if hd target = CHR ''%'' then job_target s (atoi_digits (tl target)) t
                  else t = atoi_digits target \<and> pid_target s t))) s"
proof -
  define Q :: "unit outcome \<Rightarrow> shell \<Rightarrow> bool" where "Q = (\<lambda>_ s'. kills s' = kills s \<or>
              (\<exists>t sig_str target. kills s' = kills s @ [Kill t (c_rem (atoi_digits sig_str) 64)] \<and>
                 length list = 3 \<and> ttext (list ! 2) = Some sig_str \<and> ttext (list ! 1) = Some target \<and>
                 (if hd target = CHR ''%'' then job_target s (atoi_digits (tl target)) t
                  else t = atoi_digits target \<and> pid_target s t)))"
  have i: "wp (ping_invalid os) Q s"
    by (rule wp_mono [OF ping_invalid_kills]) (simp add: Q_def)
  have c: "wp (done_with Crash) Q s" by (simp add: wp_return Q_def)
  have j: "wp (do { ok \<leftarrow> jobs_send_signal_to_job os (atoi_digits (tl target)) (c_rem (atoi_digits sg) 64);
               ping_sent os (atoi_digits sg) target ok; done_with (Done ()) }) Q s"
    if "length list = 3" "ttext (list ! 2) = Some sg" "ttext (list ! 1) = Some target"
      "hd target = CHR ''%''" for sg target
    using that unfolding Q_def
    by (intro wp_mono [OF one_kill_then [OF send_signal_to_job [OF assms]]]) fastforce
  have p: "wp (do { ok \<leftarrow> jobs_send_signal_to_pid os (atoi_digits target) (c_rem (atoi_digits sg) 64);
               ping_sent os (atoi_digits sg) target ok; done_with (Done ()) }) Q s"
    if "length list = 3" "ttext (list ! 2) = Some sg" "ttext (list ! 1) = Some target"
      "target = [] \<or> hd target \<noteq> CHR ''%''" "is_all_digits target" for sg target
    using that unfolding Q_def
    by (intro wp_mono [OF one_kill_then [OF send_signal_to_pid [OF assms]]])
      (fastforce simp: is_all_digits_def)
  have "wp (ping_cmd os list) Q s"
  proof (cases "length list = 3")
    case True
    with i c j p show ?thesis
      by (cases "ttext (list ! 2)"; cases "ttext (list ! 1)") (simp_all add: ping_cmd_def Let_def)
  qed (simp add: ping_cmd_def i)
  then show ?thesis by (simp only: Q_def)
qed

theorem ping_signals_witness:
  "jobs_ok (shell_start Map.empty) \<and>
   wp (ping_cmd (\<lambda>_ _. \<lparr>rv = 0, rerrno = EINTR, rstatus = Exited 0, rtext = None, rkind = REG, rnames = [], rnum = 0,
        rsigs = []\<rparr>) [word_tok ''ping'', word_tok ''%1'', word_tok ''9''])
     (\<lambda>_ s'. kills s' = kills (shell_start Map.empty) \<or>
        (\<exists>t sig_str target. kills s' = kills (shell_start Map.empty) @ [Kill t (c_rem (atoi_digits sig_str) 64)] \<and>
           (3::nat) = 3 \<and> Some ''9'' = Some sig_str \<and> Some ''%1'' = Some target \<and>
           (if hd target = CHR ''%'' then job_target (shell_start Map.empty) (atoi_digits (tl target)) t
            else t = atoi_digits target \<and> pid_target (shell_start Map.empty) t)))
     (shell_start Map.empty)"
  using jobs_ok_start ping_signals [OF jobs_ok_start, of "\<lambda>_ _. \<lparr>rv = 0, rerrno = EINTR,
      rstatus = Exited 0, rtext = None, rkind = REG, rnames = [], rnum = 0, rsigs = []\<rparr>"
      "[word_tok ''ping'', word_tok ''%1'', word_tok ''9'']" Map.empty]
  by simp



text \<open>
  A job whose leader has been waited for elsewhere (as \<^verbatim>\<open>resume ... fg\<close> does when
  another process of the job stops) is never reported: as long as no wait returns the leader
  again, it stays in its slot, active and unfinished.
\<close>

theorem reaped_leader_never_reported:
  assumes ok: "jobs_ok s" and i: "i < MAX_BG_JOBS"
    and j: "active (job s i)" "\<not> finished (job s i)"
    and os: "never_waited os (pgid (job s i))"
  shows "wp (jobs_check_completed os) (\<lambda>_ s'. active (job s' i) \<and> \<not> finished (job s' i)) s"
proof -
  let ?pg = "pgid (job s i)"
  have "wp (jobs_refresh_states os) (\<lambda>_ s1. unfinished i ?pg False s1 \<and> tracks s s1) s"
    unfolding wp_conj
    by (intro conjI keepsD [OF unfinished_refresh [OF os]] keepsD [OF tracks_refresh [OF ok]])
      (simp_all add: unfinished_def j)
  then have "wp (jobs_refresh_states os) (\<lambda>_. unfinished i ?pg True) s"
    by (rule wp_mono) (use tracks_find(1) [OF ok _ i] j in \<open>auto simp: unfinished_def\<close>)
  then show ?thesis
    unfolding jobs_check_completed_def
  proof (rule wp_bindI)
    fix x s1
    assume "unfinished i ?pg True s1"
    then have "wp (for_each [0..<MAX_BG_JOBS] (check_job os)) (\<lambda>_. unfinished i ?pg True) s1"
      by (rule keepsD [rotated]) (intro keeps_rules unfinished_check_job os)
    then show "wp (for_each [0..<MAX_BG_JOBS] (check_job os))
        (\<lambda>_ s'. active (job s' i) \<and> \<not> finished (job s' i)) s1"
      by (rule wp_mono) (simp add: unfinished_def)
  qed
qed

theorem reaped_leader_never_reported_witness:
  "active (job two_procs 0) \<and>
   wp (jobs_check_completed no_news) (\<lambda>_ s'. active (job s' 0) \<and> \<not> finished (job s' 0)) two_procs"
  using reaped_leader_never_reported [OF jobs_ok_two_procs, of 0 no_news]
  by (simp add: job_two_procs MAX_BG_JOBS_def new_entry_def never_waited_def no_news_def)

end
