(* ===== verification/Shell_Inv.thy ===== *)
theory Shell_Inv
  imports Execute_Props Shell_Main Jobs_Props
begin

text \<open>
  Invariants of the whole shell. The locales say what an invariant has to ignore so that the
  commands keep it; the operations are gone through once, in the locales. The results are used
  for the descriptor table, which the shell gives back as it found it, and for the job table.
\<close>

section \<open>Rules for operations that may crash\<close>

lemma keeps_obind [keeps_rules]: "keeps I m \<Longrightarrow> (\<And>x. keeps I (f x)) \<Longrightarrow> keeps I (obind m f)"
  unfolding obind_def by (intro keeps_bind) (auto split: outcome.splits intro: keeps_return)

lemma keeps_lifted [keeps_rules]: "keeps I m \<Longrightarrow> keeps I (lifted m)"
  unfolding lifted_def by (intro keeps_rules)

lemma keeps_for_all [keeps_rules]: "(\<And>i. i \<in> set is \<Longrightarrow> keeps I (body i)) \<Longrightarrow> keeps I (for_all is body)"
  by (induction "is") (auto intro!: keeps_rules)

lemma keeps_outcome [keeps_rules]:
  "(\<And>x. r = Done x \<Longrightarrow> keeps I (f x)) \<Longrightarrow> (r = Crash \<Longrightarrow> keeps I m) \<Longrightarrow> (r = Waiting \<Longrightarrow> keeps I n) \<Longrightarrow>
   keeps I (case r of Done x \<Rightarrow> f x | Crash \<Rightarrow> m | Waiting \<Rightarrow> n)"
  by (cases r) auto

lemma keeps_sum [keeps_rules]:
  "(\<And>x. r = Inl x \<Longrightarrow> keeps I (f x)) \<Longrightarrow> (\<And>x. r = Inr x \<Longrightarrow> keeps I (g x)) \<Longrightarrow> keeps I (case r of Inl x \<Rightarrow> f x | Inr x \<Rightarrow> g x)"
  by (cases r) auto

section \<open>Invariants of the two tables\<close>

text \<open>An invariant of the job table and the descriptors that every system call keeps.\<close>

locale inert =
  fixes I :: "shell \<Rightarrow> bool" and os :: environment
  assumes sys: "keeps I (sys os c)"
    and frame: "I s \<Longrightarrow> jobs_list s' = jobs_list s \<Longrightarrow> next_job_id s' = next_job_id s \<Longrightarrow> fds s' = fds s \<Longrightarrow> I s'"
begin

lemma pr: "keeps I (printf os t)"
  by (intro keeps_printf sys)

lemma modify_frame:
  "(\<And>s. jobs_list (f s) = jobs_list s \<and> next_job_id (f s) = next_job_id s \<and> fds (f s) = fds s) \<Longrightarrow> keeps I (modify f)"
  by (rule keeps_modify) (blast intro: frame)

lemmas base = keeps_rules sys pr

lemma frecency:
  "keeps I (save_history os)" "keeps I (score os i)" "keeps I (is_dir os p)" "keeps I (set_entry i e)" "keeps I (no_such_dir os b)"
  unfolding save_history_def score_def is_dir_def set_entry_def no_such_dir_def
  by (intro base modify_frame; simp)+

lemma min_loop: "keeps I (min_loop os is a b)"
  by (induction "is" arbitrary: a b) (auto intro!: base frecency)

lemma update_frecency: "keeps I (update_frecency os p)"
  unfolding update_frecency_def Let_def by (intro base modify_frame frecency min_loop; simp)

lemma sorting: "keeps I (sort_step os i j order)"
  unfolding sort_step_def by (intro base frecency)

lemma sort_inner: "keeps I (sort_inner os i js order)"
  by (induction js arbitrary: order) (auto intro!: base sorting)

lemma sort_outer: "keeps I (sort_outer os n is order)"
  by (induction "is" arbitrary: order) (auto intro!: base sort_inner)

lemma match_loop: "keeps I (match_loop os nm order)"
  by (induction order) (auto intro!: base frecency)

lemma do_chdir: "keeps I (do_chdir os target)"
  unfolding do_chdir_def Let_def by (intro base modify_frame update_frecency; simp)

lemma hop_arg: "keeps I (hop_arg os a)"
  unfolding hop_arg_def frecency_lookup_def Let_def by (intro base do_chdir sort_outer match_loop frecency)

lemma hop_args: "keeps I (hop_args os ts)"
  by (induction ts) (auto split: token_category.splits option.splits intro!: base hop_arg)

lemma hop: "keeps I (hop os list)"
  unfolding hop_def by (intro base do_chdir hop_args)

lemma fork: "keeps I (posix_fork os body)"
  unfolding posix_fork_def by (intro base modify_frame) (simp add: Let_def split: prod.splits)

lemma executable:
  "keeps I (locate_is_executable os p)" "keeps I (execute_is_executable os p)"
  unfolding locate_is_executable_def execute_is_executable_def by (intro base)+

lemma locate_dirs: "keeps I (locate_dirs os cwd cmd ds n)"
  by (induction ds arbitrary: n) (auto simp: locate_try_def split: option.splits intro!: base executable)

lemma locate: "keeps I (locate os list)"
  unfolding locate_def locate_single_def locate_try_def by (intro base locate_dirs executable)

lemma reveal_list_dir: "keeps I (reveal_list_dir fuel os d p a t)"
  by (induction fuel arbitrary: d p) (auto simp: Let_def intro!: base)

lemma reveal: "keeps I (reveal os fuel list)"
  unfolding reveal_def resolve_target_def realpath_dir_def by (intro base reveal_list_dir)

lemma file_type: "keeps I (get_file_type os p t)"
  unfolding get_file_type_def by (intro base)

lemma spy_maps: "keeps I (spy_maps os pid ls seen)"
  by (induction ls arbitrary: seen) (auto simp: Let_def intro!: base file_type)

lemma spy: "keeps I (spy_cmd os list)"
  unfolding spy_cmd_def spy_target_def spy_fds_def spy_link_def Let_def
  by (intro base spy_maps file_type)

lemma snoop_loop: "keeps I (snoop_loop fuel os pid x)"
  by (induction fuel arbitrary: x) (auto simp: snoop_stop_def split: prod.splits intro!: base)

lemma first_executable: "keeps I (first_executable os cs)"
  by (induction cs) (auto intro!: base executable)

lemma snoop: "keeps I (snoop_cmd os fuel list)"
  unfolding snoop_cmd_def snoop_attach_def snoop_run_def snoop_path_def snoop_trace_def snoop_report_def Let_def
  by (intro base snoop_loop first_executable fork)

lemma run_peek: "keeps I (run_peek os list)"
  unfolding run_peek_def by (intro base)

lemma search_path: "keeps I (search_path os cmd ds)"
  by (induction ds) (auto simp: path_candidate_def intro!: base executable)

lemma find_exec: "keeps I (find_exec os b cmd)"
  unfolding find_exec_def search_cwd_def by (intro base first_executable search_path)

lemma fork_stages: "keeps I (fork_stages os body is pids)"
  by (induction "is" arbitrary: pids) (auto intro!: base fork)

lemma wait_stages: "keeps I (wait_stages os pids b)"
  by (induction pids arbitrary: b) (auto intro!: base)

lemma terminal: "keeps I (give_terminal os pg)" "keeps I (take_terminal os)" "keeps I (jobs_set_fg_active b)"
  unfolding give_terminal_def take_terminal_def jobs_set_fg_active_def by (intro base modify_frame; simp)+

lemma prompt: "keeps I (print_prompt os who)" "keeps I (init_shell_identity os)" "keeps I (reveal_init h)" "keeps I (hop_init os h)"
  unfolding print_prompt_def get_display_path_def init_shell_identity_def reveal_init_def hop_init_def load_history_def Let_def
  by (intro base modify_frame; simp)+

end

text \<open>An invariant that the commands on the job table keep as well.\<close>

locale tolerant = inert +
  assumes completed: "keeps I (jobs_check_completed os)"
    and queries: "keeps I (jobs_has_stopped os)" "keeps I (jobs_send_sighup_all os)" "keeps I (activities os)"
    and resume: "keeps I (resume_cmd os fuel list)"
    and ping: "keeps I (ping_cmd os list)"
begin

lemma builtin: "builtin os fuel list = Some m \<Longrightarrow> keeps I m"
  unfolding builtin_def Let_def
  by (auto split: if_splits intro!: base hop reveal run_peek locate queries resume ping spy snoop)

lemma on_null: "keeps I (on_null os err st)"
  unfolding on_null_def by (intro base queries modify_frame; simp)

end

text \<open>An invariant that does not look at the descriptors.\<close>

locale fd_blind = tolerant +
  assumes blind: "I s \<Longrightarrow> jobs_list s' = jobs_list s \<Longrightarrow> next_job_id s' = next_job_id s \<Longrightarrow> I s'"
begin

lemma modify_blind: "(\<And>s. jobs_list (f s) = jobs_list s \<and> next_job_id (f s) = next_job_id s) \<Longrightarrow> keeps I (modify f)"
  by (rule keeps_modify) (blast intro: blind)

lemma descriptors:
  "keeps I (posix_open os p fl)" "keeps I (posix_close os d)" "keeps I (posix_pipe os)"
  unfolding posix_open_def posix_close_def posix_pipe_def Let_def by (intro base modify_blind; simp)+

lemma check_inputs: "keeps I (check_inputs os fs)"
  by (induction fs) (auto intro!: base descriptors)

lemma open_outputs: "keeps I (open_outputs os fs ds)"
  by (induction fs arbitrary: ds) (auto intro!: base descriptors)

lemma closing: "keeps I (close_all os ds)" "keeps I (close_pipes os pipes)" "keeps I (release_child os sy jid pid)"
  unfolding close_all_def close_pipes_def release_child_def by (intro base descriptors)+

lemma make_pipes: "keeps I (make_pipes os n pipes)"
  by (induction n arbitrary: pipes) (auto intro!: base descriptors)

end


text \<open>An invariant of the descriptors alone.\<close>

locale job_blind =
  fixes I :: "shell \<Rightarrow> bool" and os :: environment
  assumes unseen: "I s \<Longrightarrow> fds s' = fds s \<Longrightarrow> I s'"
begin

lemma off: "off_table I"
  unfolding off_table_def flag_free_def ignores_def
  by (intro conjI allI impI; erule unseen; simp)

lemma call: "keeps I (sys os c)"
  by (rule off_table_sys [OF off]) (unfold ignores_def, intro allI impI, erule unseen, simp)

lemmas calls = keeps_rules call keeps_printf [OF call] off_table_refresh [OF off] off_table_upd_job [OF off]

lemma flags: "keeps I (modify (\<lambda>s. s\<lparr>resume_timed_out := b\<rparr>))" "keeps I (modify (\<lambda>s. s\<lparr>next_job_id := n\<rparr>))"
  "keeps I (jobs_set_fg_active b)"
  unfolding jobs_set_fg_active_def by (intro keeps_modify; erule unseen; simp)+

lemma resume_procs: "keeps I (resume_procs os i ks a b)"
  by (induction ks arbitrary: a b) (auto simp: resume_proc_def intro!: calls)

lemma resume_wait: "keeps I (resume_wait os fuel i b)"
  by (induction fuel arbitrary: b) (auto intro!: calls resume_procs)

lemma resume_fg: "keeps I (jobs_resume_fg os fuel jid t)"
  unfolding jobs_resume_fg_def jobs_get_by_id_def give_terminal_def take_terminal_def resume_end_def
  by (intro calls resume_wait flags)

lemma resuming: "keeps I (resume_cmd os fuel list)"
  unfolding resume_cmd_def resume_invalid_def jobs_resume_bg_def jobs_get_by_id_def
  by (auto split: option.splits list.splits outcome.splits intro!: calls resume_fg)

lemma pinging: "keeps I (ping_cmd os list)"
  unfolding ping_cmd_def ping_invalid_def ping_sent_def jobs_send_signal_to_job_def jobs_send_signal_to_pid_def
    jobs_pid_is_tracked_def jobs_get_by_id_def Let_def
  by (intro calls)

lemma adding: "keeps I jobs_alloc_id" "keeps I (jobs_add_pipeline jid pg pids names full)" "keeps I (jobs_add jid pg nm full)"
  "keeps I (jobs_add_stopped jid pg pids names full)"
  unfolding jobs_alloc_id_def jobs_add_def jobs_add_stopped_def jobs_add_pipeline_def by (intro calls flags)+

end

sublocale job_blind \<subseteq> tolerant I os
proof unfold_locales
  show "keeps I (jobs_check_completed os)" unfolding jobs_check_completed_def check_job_def by (intro calls)
  show "keeps I (jobs_has_stopped os)" "keeps I (jobs_send_sighup_all os)" "keeps I (activities os)"
    unfolding jobs_has_stopped_def jobs_send_sighup_all_def sighup_job_def activities_def
      jobs_refresh_and_print_activities_def print_job_def print_proc_def
    by (intro calls)+
qed (auto intro: call resuming pinging unseen)

section \<open>Descriptors in use\<close>

text \<open>The shell's table is \<open>W\<close>, apart from the descriptors in \<open>D\<close> that the code has opened and still has to close.\<close>

definition lent :: "(nat \<Rightarrow> fobj option) \<Rightarrow> nat set \<Rightarrow> shell \<Rightarrow> bool" where
  "lent W D s \<longleftrightarrow> (\<lambda>d. if d \<in> D then None else fdv s d) = W"

interpretation lent: job_blind "lent W D" os for W D os
  by unfold_locales (simp add: lent_def fdv_def cong: if_cong)

lemma lent_empty [simp]: "lent W {} s \<longleftrightarrow> fdv s = W"
  by (auto simp: lent_def)

lemma lent_at:
  assumes "\<And>V n K. (\<lambda>d. if d \<in> D then None else V d) = W \<Longrightarrow> triple (at V n K) m Q"
  shows "triple (lent W D) m Q"
  using assms unfolding triple_def lent_def at_def by blast

lemma lent_none: "lent W D s \<Longrightarrow> \<forall>d \<in> D. W d = None"
  by (auto simp: lent_def)

lemma lent_pure: "(\<forall>d \<in> D. W d = None \<Longrightarrow> triple (lent W D) m Q) \<Longrightarrow> triple (lent W D) m Q"
  unfolding triple_def using lent_none by blast

lemma lent_open: "triple (lent W D) (posix_open os p fl) (\<lambda>fd s. fd < 0 \<and> lent W D s \<or> 0 \<le> fd \<and> lent W (insert (nat fd) D) s)"
  by (rule lent_at, rule triple_post [OF at_open], erule disjE, rule disjI1, fastforce simp: lent_def at_def fun_eq_iff, rule disjI2)
    (fastforce simp: lent_def at_def fun_eq_iff)

lemma lent_pipe:
  "triple (lent W D) (posix_pipe os) (\<lambda>p s. p = None \<and> lent W D s \<or> (\<exists>a b. p = Some (a, b) \<and> lent W (insert a (insert b D)) s))"
  by (rule lent_at, rule triple_post [OF at_pipe]) (fastforce simp: lent_def at_def fun_eq_iff)

lemma lent_close: "W d = None \<Longrightarrow> triple (lent W D) (posix_close os d) (\<lambda>_. lent W (D - {d}))"
  by (rule lent_at, rule triple_post [OF at_close]) (fastforce simp: lent_def at_def fun_eq_iff)

lemma lent_close_all: "\<forall>d \<in> set ds. W d = None \<Longrightarrow> triple (lent W D) (close_all os ds) (\<lambda>_. lent W (D - set ds))"
  by (rule lent_at, rule triple_post [OF at_close_all]) (fastforce simp: lent_def at_def fun_eq_iff)

lemma lent_close_pipes: "\<forall>d \<in> pfds pipes. W d = None \<Longrightarrow> triple (lent W D) (close_pipes os pipes) (\<lambda>_. lent W (D - pfds pipes))"
  by (rule lent_at, rule triple_post [OF at_close_pipes]) (fastforce simp: lent_def at_def fun_eq_iff)

lemma lent_keeps: "keeps (lent W D) m \<Longrightarrow> triple (lent W D) m (\<lambda>_. lent W D)"
  by (rule triple_keeps)

lemma lent_check_inputs: "keeps (lent W D) (check_inputs os fs)"
proof -
  have "triple (lent W D) (check_inputs os fs) (\<lambda>_. lent W D)"
    by (rule lent_at, rule triple_post [OF at_check_inputs]) (auto simp: lent_def at_def)
  then show ?thesis by (simp add: triple_def keeps_def)
qed

lemma lent_open_outputs: "triple (lent W (set ds)) (open_outputs os fs ds) (\<lambda>r. lent W (set (snd r)))"
proof (induction fs arbitrary: ds)
  case (Cons f fs)
  obtain p ap where f: "f = (p, ap)" by (cases f)
  have "triple (lent W (insert (nat fd) (set ds))) (open_outputs os fs (ds @ [nat fd])) (\<lambda>r. lent W (set (snd r)))" for fd
    using Cons [of "ds @ [nat fd]"] by simp
  then show ?case unfolding f open_outputs.simps
    by (intro triple_bind [OF lent_open] triple_disj triple_pure triple_if) (auto intro: triple_return)
qed (simp add: triple_return)

lemma lent_release: "W a = None \<Longrightarrow> W b = None \<Longrightarrow> triple (lent W D) (release_child os (a, b) jid pid) (\<lambda>_. lent W (D - {a} - {b}))"
  unfolding release_child_def fst_conv snd_conv
  by (rule triple_bind [OF lent_close], assumption, rule triple_bind [OF lent_keeps [OF lent.pr]],
      rule triple_bind [OF lent_keeps [OF lent.sys]], rule lent_close)

section \<open>A single command gives every descriptor back\<close>

lemma lent_wait_fg: "keeps (lent W D) (wait_fg os pid cmd full)"
  unfolding wait_fg_def by (intro lent.base lent.terminal lent.adding)

lemma lent_spawn_fg: "triple (lent W (set ds)) (spawn os r ds p None full None) (\<lambda>_. lent W {})"
proof (rule lent_pure)
  assume n: "\<forall>d \<in> set ds. W d = None"
  note c = lent_close_all [where D = "set ds", OF n, unfolded Diff_cancel]
  show "triple (lent W (set ds)) (spawn os r ds p None full None) (\<lambda>_. lent W {})"
    unfolding spawn_def prod.case option.case
  proof (rule triple_bind [OF lent_keeps [OF lent.fork]], intro triple_if; rule triple_bind [OF lent_keeps [OF lent.sys]])
    show "triple (lent W (set ds)) (do { close_all os ds; wait_fg os pid (bare_cmd (hd (argv r))) full }) (\<lambda>_. lent W {})" for pid
      by (rule triple_bind [OF c], rule lent_keeps [OF lent_wait_fg])
    show "triple (lent W (set ds)) (do { close_all os ds; done_with (); done_with False }) (\<lambda>_. lent W {})"
      by (rule triple_bind [OF c], rule lent_keeps) (intro keeps_rules)
  qed
qed

lemma lent_spawn_bg:
  "triple (lent W (insert a (insert b (set ds)))) (spawn os r ds p (Some (jid, nm)) full (Some (a, b))) (\<lambda>_. lent W {})"
proof (rule lent_pure)
  assume n: "\<forall>d \<in> insert a (insert b (set ds)). W d = None"
  let ?D = "insert a (insert b (set ds))"
  have c: "triple (lent W ?D) (close_all os ds) (\<lambda>_. lent W (?D - set ds))" by (rule lent_close_all) (use n in simp)
  have e: "?D - set ds - {a} - {b} = {}" "?D - set ds - set [a, b] = {}" by auto
  have r: "triple (lent W (?D - set ds)) (release_child os (a, b) jid pid) (\<lambda>_. lent W {})" for pid
    using lent_release [of W a b "?D - set ds"] n unfolding e by simp
  have cl: "triple (lent W (?D - set ds)) (close_all os [a, b]) (\<lambda>_. lent W {})"
    using lent_close_all [of "[a, b]" W "?D - set ds"] n unfolding e by simp
  show "triple (lent W ?D) (spawn os r ds p (Some (jid, nm)) full (Some (a, b))) (\<lambda>_. lent W {})"
    unfolding spawn_def prod.case option.case
  proof (rule triple_bind [OF lent_keeps [OF lent.fork]], intro triple_if; rule triple_bind [OF lent_keeps [OF lent.sys]])
    show "triple (lent W ?D) (do { close_all os ds; release_child os (a, b) jid pid; jobs_add jid pid nm full; done_with True }) (\<lambda>_. lent W {})" for pid
      by (rule triple_bind [OF c], rule triple_bind [OF r], rule lent_keeps) (intro keeps_rules lent.adding)
    show "triple (lent W ?D) (do { close_all os ds; close_all os [a, b]; done_with False }) (\<lambda>_. lent W {})"
      by (rule triple_bind [OF c], rule triple_bind [OF cl], rule lent_keeps) (intro keeps_rules)
  qed
qed

lemma lent_run_command: "triple (lent W (set ds)) (run_command os r ds bg full) (\<lambda>_. lent W {})"
proof (rule lent_pure)
  assume n: "\<forall>d \<in> set ds. W d = None"
  note c = lent_close_all [where D = "set ds", OF n, unfolded Diff_cancel]
  have bad: "triple (lent W (set ds)) (do { close_all os ds; done_with False }) (\<lambda>_. lent W {})"
    by (rule triple_bind [OF c], rule lent_keeps) (intro keeps_rules)
  have bg: "triple (lent W (set ds)) (do {
               sync \<leftarrow> posix_pipe os;
               (case sync of
                  None \<Rightarrow> do { sys os (Perror ''cshell: pipe failed''); close_all os ds; done_with False }
                | Some sy \<Rightarrow> spawn os r ds p (Some x) full (Some sy)) }) (\<lambda>_. lent W {})" for p x
  proof (rule triple_bind [OF lent_pipe], intro triple_disj triple_pure triple_ex, goal_cases)
    case (1 y) then show ?case
      by (simp only: option.case) (rule triple_bind [OF lent_keeps [OF lent.sys]], rule bad)
  next
    case (2 y a b) then show ?case using lent_spawn_bg [of W a b ds os r p "fst x" "snd x"] by (simp only: option.case prod.collapse)
  qed
  show "triple (lent W (set ds)) (run_command os r ds bg full) (\<lambda>_. lent W {})"
    unfolding run_command_def Let_def
  proof (rule triple_bind [OF lent_keeps [OF lent.find_exec]], goal_cases)
    case (1 e)
    show ?case
    proof (cases e)
      case None
      then show ?thesis by (simp only: option.case) (rule triple_bind [OF lent_keeps [OF lent.pr]], rule bad)
    next
      case (Some p)
      then show ?thesis using lent_spawn_fg [of W ds] bg by (cases bg) (simp_all only: option.case option.distinct simp_thms if_True if_False)
    qed
  qed
qed

lemma lent_execute_cmd_internal: "keeps (lent W {}) (execute_cmd_internal os list bg full)"
proof -
  have fail: "triple (lent W (set ds)) (do { printf os t; close_all os ds; done_with False }) (\<lambda>_. lent W {})" for t ds
  proof (rule lent_pure, rule triple_bind [OF lent_keeps [OF lent.pr]])
    assume n: "\<forall>d \<in> set ds. W d = None"
    show "triple (lent W (set ds)) (do { close_all os ds; done_with False }) (\<lambda>_. lent W {})"
      by (rule triple_bind [OF lent_close_all [where D = "set ds", OF n, unfolded Diff_cancel]], rule lent_keeps) (intro keeps_rules)
  qed
  have go: "triple (lent W {}) (do {
                 (ok, out_fds) \<leftarrow> open_outputs os (output_files r) [];
                 if \<not> ok then do { printf os (nl ''cshell: unable to create file for writing''); close_all os out_fds; done_with False }
                 else run_command os r out_fds bg full }) (\<lambda>_. lent W {})" for r
  proof (rule triple_bind [OF lent_open_outputs [where ds = "[]", unfolded list.set]], goal_cases)
    case (1 x)
    show ?case using fail [of "snd x"] lent_run_command [of W "snd x"] by (cases x) (auto intro: triple_if)
  qed
  then have go: "keeps (lent W {}) (do {
                 (ok, out_fds) \<leftarrow> open_outputs os (output_files r) [];
                 if \<not> ok then do { printf os (nl ''cshell: unable to create file for writing''); close_all os out_fds; done_with False }
                 else run_command os r out_fds bg full })" for r
    unfolding triple_def keeps_def by simp
  show ?thesis
    unfolding execute_cmd_internal_def by (intro lent.base lent_check_inputs go)
qed

section \<open>A pipeline gives every descriptor back\<close>

definition pipe_ok :: "environment \<Rightarrow> bool" where
  "pipe_ok os \<longleftrightarrow> (\<forall>h. 0 \<le> rv (os h Pipe))"

lemma lent_make_pipes:
  assumes "pipe_ok os"
  shows "triple (lent W (pfds pipes)) (make_pipes os n pipes) (\<lambda>r s. \<exists>ps. r = Some ps \<and> lent W (pfds ps) s)"
proof (induction n arbitrary: pipes)
  case (Suc n)
  have "yields (\<lambda>p. p \<noteq> None) (posix_pipe os)"
    unfolding posix_pipe_def Let_def
    by (rule yields_bind_from [OF yields_sys(2) [where P = "\<lambda>r. 0 \<le> rv r"]]) (use assms in \<open>auto simp: pipe_ok_def intro!: yields_rules\<close>)
  note p = triple_yields [OF lent_pipe this]
  have e: "pfds (pipes @ [(a, b)]) = insert a (insert b (pfds pipes))" for a b by (auto simp: pfds_def)
  show ?case
    unfolding make_pipes.simps
    by (rule triple_bind [OF p], intro triple_pure triple_disj triple_ex) (use Suc e in \<open>auto simp flip: e\<close>)
qed (auto intro!: triple_return)

lemma lent_stop:
  "keeps (lent W D) (do {
     s_id \<leftarrow> jobs_alloc_id;
     jobs_add_stopped s_id pg pids names full;
     printf os (t s_id);
     done_with False })"
  by (intro lent.base lent.adding)

lemma lent_run_stages_fg:
  assumes "pipe_ok os"
  shows "keeps (lent W {}) (run_stages_fg os fuel stages full)"
proof -
  have "triple (lent W {}) (run_stages_fg os fuel stages full) (\<lambda>_. lent W {})"
    unfolding run_stages_fg_def
  proof (rule triple_bind [OF lent_make_pipes [where pipes = "[]", OF assms, unfolded pfds_def list.set image_empty Un_empty_left, folded pfds_def]],
      intro triple_ex triple_pure, goal_cases)
    case (1 r ps)
    show ?case unfolding 1 option.case
    proof (rule triple_bind [OF lent_keeps [OF lent.fork_stages]], rule lent_pure, goal_cases)
      case (1 pids)
      show ?case
        by (rule triple_bind [OF lent_close_pipes [where D = "pfds ps", OF 1, unfolded Diff_cancel]], rule lent_keeps)
          (unfold Let_def, intro lent.base lent.terminal lent.wait_stages lent_stop)
    qed
  qed
  then show ?thesis by (simp add: triple_def keeps_def)
qed

lemma lent_run_stages_bg:
  assumes "pipe_ok os"
  shows "keeps (lent W {}) (run_stages_bg os fuel stages jid full)"
proof -
  have "triple (lent W {}) (run_stages_bg os fuel stages jid full) (\<lambda>_. lent W {})"
    unfolding run_stages_bg_def
  proof (rule triple_bind [OF lent_make_pipes [where pipes = "[]", OF assms, unfolded pfds_def list.set image_empty Un_empty_left, folded pfds_def]],
      intro triple_ex triple_pure, goal_cases)
    case (1 r ps)
    show ?case unfolding 1 option.case
    proof (rule triple_bind [OF lent_pipe], intro triple_disj triple_pure triple_ex, goal_cases)
      case (1 y)
      show ?case unfolding 1 option.case
      proof (rule triple_bind [OF lent_keeps [OF lent.sys]], rule lent_pure, goal_cases)
        case (1 _)
        show ?case
          by (rule triple_bind [OF lent_close_pipes [where D = "pfds ps", OF 1, unfolded Diff_cancel]], rule lent_keeps) (intro keeps_rules)
      qed
    next
      case (2 y a b)
      let ?D = "insert a (insert b (pfds ps))"
      have e: "?D - pfds ps - {a} - {b} = {}" by auto
      show ?case unfolding 2 option.case
      proof (rule triple_bind [OF lent_keeps [OF lent.fork_stages]], rule lent_pure, goal_cases)
        case (1 pids)
        then have w: "\<forall>d \<in> pfds ps. W d = None" "W a = None" "W b = None" by auto
        show ?case
          by (rule triple_bind [OF lent_close_pipes [OF w(1)]], rule triple_bind [OF lent_release [OF w(2,3)]], unfold e, rule lent_keeps)
            (intro lent.base lent.adding)
      qed
    qed
  qed
  then show ?thesis by (simp add: triple_def keeps_def)
qed

lemma lent_builtin_bg: "keeps (lent W {}) (builtin_bg os m jid cmd full)"
proof -
  have "triple (lent W {}) (builtin_bg os m jid cmd full) (\<lambda>_. lent W {})"
    unfolding builtin_bg_def
  proof (rule triple_bind [OF lent_pipe], intro triple_disj triple_pure triple_ex, goal_cases)
    case (1 y)
    then show ?case by (simp only: option.case) (rule lent_keeps, intro lent.base)
  next
    case (2 y a b)
    have e: "{a, b} - {a} - {b} = {}" "{a, b} - set [a, b] = {}" by auto
    show ?case unfolding 2 option.case prod.case
    proof (rule triple_bind [OF lent_keeps [OF lent.fork]], rule lent_pure, (intro triple_if; rule triple_bind [OF lent_keeps [OF lent.sys]]), goal_cases)
      case (1 pid)
      then have n: "\<forall>d \<in> set [a, b]. W d = None" by simp
      show ?case by (rule triple_bind [OF lent_close_all [OF n]], unfold e, rule lent_keeps) (intro keeps_rules)
    next
      case (2 pid)
      then have w: "W a = None" "W b = None" by auto
      show ?case by (rule triple_bind [OF lent_release [OF w]], unfold e, rule lent_keeps) (intro lent.base lent.adding)
    qed
  qed
  then show ?thesis by (simp add: triple_def keeps_def)
qed

section \<open>The job table under commands\<close>

text \<open>The table is in order and \<open>jid\<close> is a job number handed out for a job not yet entered.\<close>

definition ready :: "int \<Rightarrow> shell \<Rightarrow> bool" where
  "ready jid s \<longleftrightarrow> jobs_ok s \<and> fresh_id jid s"

lemma ready_if_evolves:
  assumes "\<And>s. keeps (evolves s) m"
  shows "keeps (ready jid) m"
proof (rule keepsI)
  fix s
  assume r: "ready jid s"
  then have "wp m (\<lambda>_. evolves s) s" by (intro keepsD [OF assms evolves_refl]) (simp add: ready_def)
  then show "wp m (\<lambda>_. ready jid) s"
    by (rule wp_mono) (use r evolves_jobs_ok evolves_fresh in \<open>auto simp: ready_def\<close>)
qed

lemma jobs_ok_frame: "jobs_ok s \<Longrightarrow> jobs_list s' = jobs_list s \<Longrightarrow> next_job_id s' = next_job_id s \<Longrightarrow> jobs_ok s'"
  by (simp add: jobs_ok_def job_def)

interpretation table: fd_blind jobs_ok os for os
  by unfold_locales (intro jobs_ok_if_evolves keeps_rules | erule jobs_ok_frame; assumption)+

interpretation ready: fd_blind "ready jid" os for jid os
proof unfold_locales
  fix s s' :: shell
  assume "ready jid s" "jobs_list s' = jobs_list s" "next_job_id s' = next_job_id s"
  then show "ready jid s'" using jobs_ok_frame [of s s'] by (simp add: ready_def fresh_id_def)
  then show "ready jid s'" .
qed (intro ready_if_evolves keeps_rules)+

lemma ready_add:
  "pids \<noteq> [] \<Longrightarrow> names \<noteq> [] \<Longrightarrow> triple (ready jid) (jobs_add_pipeline jid pg pids names full) (\<lambda>_. jobs_ok)"
  "pids \<noteq> [] \<Longrightarrow> names \<noteq> [] \<Longrightarrow> triple (ready jid) (jobs_add_stopped jid pg pids names full) (\<lambda>_. jobs_ok)"
  "triple (ready jid) (jobs_add jid pid nm full) (\<lambda>_. jobs_ok)"
  by (auto simp: triple_def ready_def jobs_add_def intro: jobs_ok_add jobs_ok_add_stopped)

lemma ready_alloc: "triple jobs_ok jobs_alloc_id (\<lambda>n. ready n)"
  unfolding triple_def by (auto simp: ready_def intro: wp_mono [OF jobs_ok_alloc])

lemma table_stop:
  assumes "pids \<noteq> []" "names \<noteq> []"
  shows "keeps jobs_ok (do {
     s_id \<leftarrow> jobs_alloc_id;
     jobs_add_stopped s_id pg pids names full;
     printf os (t s_id);
     done_with False })"
proof -
  have "triple jobs_ok (do { s_id \<leftarrow> jobs_alloc_id; jobs_add_stopped s_id pg pids names full; printf os (t s_id); done_with False }) (\<lambda>_. jobs_ok)"
    by (rule triple_bind [OF ready_alloc], rule triple_bind [OF ready_add(2) [OF assms]], rule triple_keeps) (intro table.base)
  then show ?thesis by (simp add: triple_def keeps_def)
qed

lemma table_wait_fg: "keeps jobs_ok (wait_fg os pid cmd full)"
  unfolding wait_fg_def by (intro table.base table.terminal table_stop; simp)

lemma table_spawn_fg: "keeps jobs_ok (spawn os r ds p None full None)"
  unfolding spawn_def prod.case option.case by (intro table.base table.fork table.closing table_wait_fg)

lemma ready_done: "keeps (ready jid) m \<Longrightarrow> triple (ready jid) m (\<lambda>_. jobs_ok)"
  by (rule triple_post [OF triple_keeps]) (simp_all add: ready_def)

lemma ready_spawn_bg: "triple (ready jid) (spawn os r ds p (Some (jid, nm)) full (Some sy)) (\<lambda>_. jobs_ok)"
  unfolding spawn_def prod.case option.case
proof (rule triple_bind [OF triple_keeps [OF ready.fork]], intro triple_if, goal_cases)
  case (1 pid)
  show ?case
    by (intro triple_bind [OF triple_keeps [OF ready.sys]] triple_bind [OF triple_keeps [OF ready.closing(1)]]
        triple_bind [OF triple_keeps [OF ready.closing(3)]] triple_bind [OF ready_add(3)] triple_return) assumption
next
  case (2 pid)
  show ?case by (intro ready_done ready.base ready.closing)
qed

lemma ready_run_command: "triple (ready jid) (run_command os r ds (Some (jid, nm)) full) (\<lambda>_. jobs_ok)"
  unfolding run_command_def Let_def
proof (rule triple_bind [OF triple_keeps [OF ready.find_exec]], goal_cases)
  case (1 e)
  have bad: "triple (ready jid) (do { sys os c; close_all os ds; done_with False }) (\<lambda>_. jobs_ok)"
    "triple (ready jid) (do { printf os t; close_all os ds; done_with False }) (\<lambda>_. jobs_ok)" for c t
    by (intro ready_done ready.base ready.closing)+
  have "triple (ready jid) (case y of None \<Rightarrow> do { sys os c; close_all os ds; done_with False }
      | Some sy \<Rightarrow> spawn os r ds p (Some (jid, nm)) full (Some sy)) (\<lambda>_. jobs_ok)" for y c p
    using bad ready_spawn_bg by (cases y) (simp_all only: option.case)
  then show ?case using bad(2)
    by (cases e) (simp_all only: option.case option.distinct if_False triple_bind [OF triple_keeps [OF ready.descriptors(3)]])
qed

lemma table_run_command: "keeps jobs_ok (run_command os r ds None full)"
  unfolding run_command_def Let_def simp_thms if_True
  by (intro table.base table.find_exec table.closing table_spawn_fg)

lemma table_execute_cmd: "keeps jobs_ok (execute_cmd_internal os list None full)"
  unfolding execute_cmd_internal_def
  by (intro table.base table.check_inputs table.open_outputs table.closing table_run_command)

lemma ready_execute_cmd: "triple (ready jid) (execute_cmd_internal os list (Some (jid, nm)) full) (\<lambda>_. jobs_ok)"
proof -
  have l: "triple (ready jid) (lifted m) (\<lambda>_. jobs_ok)" if "triple (ready jid) m (\<lambda>_. jobs_ok)" for m :: "bool sh"
    unfolding lifted_def by (rule triple_bind [OF that], rule triple_return)
  have o: "triple (ready jid) (do {
                 (ok, out_fds) \<leftarrow> open_outputs os fs [];
                 if \<not> ok then do { printf os t; close_all os out_fds; done_with False }
                 else run_command os r out_fds (Some (jid, nm)) full }) (\<lambda>_. jobs_ok)" for fs t r
    by (rule triple_bind [OF triple_keeps [OF ready.open_outputs]], split prod.split, intro allI impI triple_if ready_run_command)
      (intro ready_done ready.base ready.closing)
  have r: "triple (ready jid) (if argv r = [] then done_with True else do {
               ok \<leftarrow> check_inputs os (input_files r);
               if \<not> ok then do { printf os t; done_with False }
               else do {
                 (ok, out_fds) \<leftarrow> open_outputs os (output_files r) [];
                 if \<not> ok then do { printf os t'; close_all os out_fds; done_with False }
                 else run_command os r out_fds (Some (jid, nm)) full } }) (\<lambda>_. jobs_ok)" for r t t'
    by (intro triple_if triple_bind [OF triple_keeps [OF ready.check_inputs]] o) (intro ready_done ready.base)+
  have d: "triple (ready jid) (done_with x) (\<lambda>_. jobs_ok)" for x :: "bool outcome"
    by (intro ready_done ready.base)
  have b: "triple (ready jid) (do { printf os t; done_with False }) (\<lambda>_. jobs_ok)" for t
    by (intro ready_done ready.base)
  show ?thesis
    unfolding execute_cmd_internal_def obind_def
    by (intro triple_if d triple_bind [OF triple_keeps [OF keeps_return]], split outcome.split, intro conjI allI impI d l,
        split option.split) (intro conjI allI impI b r)
qed

end
