(* ===== verification/Shell_Props.thy ===== *)
theory Shell_Props
  imports Shell_Inv
begin

text \<open>
  The whole shell, from \<^verbatim>\<open>main\<close> on: whatever is typed and whatever the operating system answers,
  the job table stays in order and the shell's descriptors stay what they were. Further, when
  a command line crashes the shell and when the main loop stops taking input.
\<close>

section \<open>Pipelines and the job table\<close>

lemma fork_stages_length: "yields (\<lambda>ps. length ps = length pids + length is) (fork_stages os body is pids)"
proof (induction "is" arbitrary: pids)
  case (Cons i "is")
  have "yields (\<lambda>ps. length ps = length pids + length (i # is)) (fork_stages os body is (pids @ [pid]))" for pid
    using Cons [of "pids @ [pid]"] by simp
  then show ?case by (auto intro!: yields_rules)
qed (auto intro: yields_rules)

lemma stages_of_Some: "stages_of list = Some stages \<Longrightarrow> stages \<noteq> []"
  by (auto simp: stages_of_def num_stages_def Let_def split: if_splits)

lemma table_run_stages_fg:
  assumes "stages \<noteq> []"
  shows "keeps jobs_ok (run_stages_fg os fuel stages full)"
  unfolding run_stages_fg_def
proof (rule keeps_bind [OF table.make_pipes], rule keeps_option, intro table.base, goal_cases)
  case (1 r pipes)
  have "triple jobs_ok (do {
          pids \<leftarrow> fork_stages os (stage_child os fuel stages pipes None) [0..<length stages] [];
          close_pipes os pipes;
          give_terminal os (pids ! 0);
          any_stopped \<leftarrow> wait_stages os pids False;
          take_terminal os;
          if any_stopped then
            (let disp = display_cmd full (stage_cmds stages ! 0) in do {
               s_id \<leftarrow> jobs_alloc_id;
               jobs_add_stopped s_id (pids ! 0) pids (stage_cmds stages) (Some disp);
               printf os (nl (''['' @ show_int s_id @ ''] + Stopped    '' @ disp));
               done_with False
             })
          else done_with True }) (\<lambda>_. jobs_ok)"
  proof (rule triple_bind [OF triple_yields [OF triple_keeps [OF table.fork_stages] fork_stages_length]], rule triple_pure, goal_cases)
    case (1 pids)
    then have "pids \<noteq> []" "stage_cmds stages \<noteq> []" using assms by (auto simp: stage_cmds_def)
    then show ?case unfolding Let_def
      by (intro triple_keeps table.base table.closing table.terminal table.wait_stages table_stop)
  qed
  then show ?case by (simp add: triple_def keeps_def)
qed

lemma ready_run_stages_bg:
  assumes "stages \<noteq> []"
  shows "triple (ready jid) (run_stages_bg os fuel stages jid full) (\<lambda>_. jobs_ok)"
  unfolding run_stages_bg_def
proof (rule triple_bind [OF triple_keeps [OF ready.make_pipes]], goal_cases)
  case (1 r)
  have bad: "triple (ready jid) (do { sys os c; done_with False }) (\<lambda>_. jobs_ok)"
    "triple (ready jid) (do { sys os c; close_pipes os ps; done_with False }) (\<lambda>_. jobs_ok)" for c ps
    by (intro ready_done ready.base ready.closing)+
  have go: "triple (ready jid) (do {
               pids \<leftarrow> fork_stages os (stage_child os fuel stages pipes (Some sy)) [0..<length stages] [];
               close_pipes os pipes;
               release_child os sy jid (pids ! 0);
               jobs_add_pipeline jid (pids ! 0) pids (stage_cmds stages) (Some (display_cmd full (stage_cmds stages ! 0)));
               done_with True }) (\<lambda>_. jobs_ok)" for pipes sy
  proof (rule triple_bind [OF triple_yields [OF triple_keeps [OF ready.fork_stages] fork_stages_length]], rule triple_pure, goal_cases)
    case (1 pids)
    then have "pids \<noteq> []" "stage_cmds stages \<noteq> []" using assms by (auto simp: stage_cmds_def)
    then show ?case
      by (intro triple_bind [OF triple_keeps [OF ready.closing(2)]] triple_bind [OF triple_keeps [OF ready.closing(3)]]
          triple_bind [OF ready_add(1)] triple_return)
  qed
  show ?case
    by (split option.split, intro conjI allI impI bad triple_bind [OF triple_keeps [OF ready.descriptors(3)]],
        split option.split, intro conjI allI impI bad go)
qed

lemma ready_builtin_bg: "triple (ready jid) (builtin_bg os m jid cmd full) (\<lambda>_. jobs_ok)"
  unfolding builtin_bg_def
proof (rule triple_bind [OF triple_keeps [OF ready.descriptors(3)]], goal_cases)
  case (1 r)
  have bad: "triple (ready jid) (do { sys os c; done_with False }) (\<lambda>_. jobs_ok)"
    "triple (ready jid) (do { sys os c; close_all os ds; done_with False }) (\<lambda>_. jobs_ok)" for c ds
    by (intro ready_done ready.base ready.closing)+
  show ?case
    by (split option.split, split prod.split, intro conjI allI impI bad triple_bind [OF triple_keeps [OF ready.fork]] triple_if
        triple_bind [OF triple_keeps [OF ready.sys]] triple_bind [OF triple_keeps [OF ready.closing(3)]] triple_bind [OF ready_add(3)] triple_return)
qed

lemma table_pipeline_fg: "keeps jobs_ok (execute_pipeline_fg os fuel list full)"
  unfolding execute_pipeline_fg_def
  by (intro table.base table_execute_cmd table_run_stages_fg) (auto intro: table.builtin dest: stages_of_Some)

lemma ready_pipeline_bg: "triple (ready jid) (execute_pipeline_bg os fuel list jid full) (\<lambda>_. jobs_ok)"
proof -
  have l: "triple (ready jid) (lifted m) (\<lambda>_. jobs_ok)" if "triple (ready jid) m (\<lambda>_. jobs_ok)" for m :: "bool sh"
    unfolding lifted_def by (rule triple_bind [OF that], rule triple_return)
  have b: "triple (ready jid) (do { printf os t; done_with False }) (\<lambda>_. jobs_ok)" "triple (ready jid) (done_with (Done True)) (\<lambda>_. jobs_ok)" for t
    by (intro ready_done ready.base)+
  have s: "triple (ready jid) (case stages_of list of
           None \<Rightarrow> do { printf os t; done_with False }
         | Some stages \<Rightarrow> run_stages_bg os fuel stages jid full) (\<lambda>_. jobs_ok)" for t
    using b ready_run_stages_bg stages_of_Some by (cases "stages_of list") auto
  show ?thesis
    unfolding execute_pipeline_bg_def
    by (intro triple_if b l s, split option.split, intro conjI allI impI l ready_execute_cmd ready_builtin_bg)
qed

lemma table_execute_one: "keeps jobs_ok (execute_one os fuel cmd is_bg)"
proof -
  have "triple jobs_ok (do { jid \<leftarrow> jobs_alloc_id; obind (execute_pipeline_bg os fuel cmd jid full) (\<lambda>_. done_with (Done True)) }) (\<lambda>_. jobs_ok)" for full
    unfolding obind_def
    by (intro triple_bind [OF ready_alloc] triple_bind [OF ready_pipeline_bg] triple_keeps table.base)
  then have "keeps jobs_ok (do { jid \<leftarrow> jobs_alloc_id; obind (execute_pipeline_bg os fuel cmd jid full) (\<lambda>_. done_with (Done True)) })" for full
    by (simp add: triple_def keeps_def)
  then show ?thesis
    unfolding execute_one_def Let_def
    by (rule keeps_if) (intro table.base table.terminal table.completed table_pipeline_fg)
qed

section \<open>A whole session\<close>

text \<open>An invariant that every single command keeps.\<close>

locale session = tolerant +
  assumes one: "keeps I (execute_one os fuel cmd is_bg)"
begin

lemma command_line: "keeps I (execute_command_line os fuel list)"
proof (induction list rule: length_induct)
  case (1 list)
  let ?rest = "tl (dropWhile (\<lambda>t. \<not> ends_group t) list)"
  have "list \<noteq> [] \<Longrightarrow> keeps I (execute_command_line os fuel ?rest)"
    using 1 tl_dropWhile_less by blast
  then show ?case
    by (subst execute_command_line.simps) (auto simp: Let_def intro!: base one)
qed

lemma run_line: "keeps I cont \<Longrightarrow> keeps I (run_line al os fuel line cont)"
  unfolding run_line_def
  by (auto split: cres.splits option.splits outcome.splits intro!: base command_line)

lemma main_step: "keeps I (main_step al os fuel who st)"
  unfolding main_step_def take_line_def Let_def
  by (intro base completed prompt on_null run_line)

lemma main_loop: "keeps I (main_loop k al os fuel who st)"
  by (induction k arbitrary: st) (auto split: loop_step.splits intro!: base main_step queries)

lemma whole: "keeps I (shell_main k al os fuel)"
  unfolding shell_main_def by (intro base prompt main_loop)

end

interpretation table: session jobs_ok os for os
  by unfold_locales (rule table_execute_one)

lemma lent_execute_one:
  assumes "pipe_ok os"
  shows "keeps (lent W {}) (execute_one os fuel cmd is_bg)"
  unfolding execute_one_def execute_pipeline_fg_def execute_pipeline_bg_def Let_def
  by (intro lent.base lent.adding lent.terminal lent.completed lent_execute_cmd_internal lent_run_stages_fg lent_run_stages_bg
      lent_builtin_bg assms) (auto intro: lent.builtin)

text \<open>The descriptors are \<open>W\<close>, provided \<^verbatim>\<open>pipe\<close> never fails.\<close>

definition whole_table :: "environment \<Rightarrow> (nat \<Rightarrow> fobj option) \<Rightarrow> shell \<Rightarrow> bool" where
  "whole_table os W s \<longleftrightarrow> (pipe_ok os \<longrightarrow> fdv s = W)"

interpretation whole: job_blind "whole_table os W" os for os W
  by unfold_locales (simp add: whole_table_def fdv_def)

interpretation whole: session "whole_table os W" os for os W
proof unfold_locales
  show "keeps (whole_table os W) (execute_one os fuel cmd is_bg)" for fuel cmd is_bg
    using lent_execute_one [of os W fuel cmd is_bg]
    by (cases "pipe_ok os") (auto simp: keeps_def whole_table_def wp_run)
qed

section \<open>When a command line brings the shell down\<close>

text \<open>The redirections of a command.\<close>

definition num_in :: "token_list_t \<Rightarrow> nat" where
  "num_in ts = length (filter (\<lambda>t. ttype t = OP_LT) ts)"

definition num_out :: "token_list_t \<Rightarrow> nat" where
  "num_out ts = length (filter (\<lambda>t. ttype t = OP_GT \<or> ttype t = OP_GTGT) ts)"

text \<open>Every redirection sign is followed by a word, as in every line that \<^verbatim>\<open>parse_tokens\<close> accepts.\<close>

fun targets_ok :: "token_list_t \<Rightarrow> bool" where
  "targets_ok [] \<longleftrightarrow> True"
| "targets_ok (t # ts) \<longleftrightarrow>
     (ttype t \<in> {OP_LT, OP_GT, OP_GTGT} \<longrightarrow> ts \<noteq> [] \<and> ttype (hd ts) = OP_WORD) \<and> targets_ok ts"

lemma targets_ok_skip: "targets_ok (t # u # ts) \<Longrightarrow> targets_ok ts"
  by simp

lemma num_redirs:
  "num_in [] = 0" "num_out [] = 0"
  "num_in (t # ts) = (if ttype t = OP_LT then Suc (num_in ts) else num_in ts)"
  "num_out (t # ts) = (if ttype t = OP_GT \<or> ttype t = OP_GTGT then Suc (num_out ts) else num_out ts)"
  by (simp_all add: num_in_def num_out_def)

text \<open>The scan overruns an array exactly when a command has more than 256 redirections of one kind.\<close>

lemma scan_redirs_crash:
  "targets_ok ts \<Longrightarrow> length (input_files r) \<le> MAX_ARRAY \<Longrightarrow> length (output_files r) \<le> MAX_ARRAY \<Longrightarrow>
   scan_redirs ts r = Crash \<longleftrightarrow>
     MAX_ARRAY < length (input_files r) + num_in ts \<or> MAX_ARRAY < length (output_files r) + num_out ts"
proof (induction ts r rule: scan_redirs.induct)
  case (1 r)
  then show ?case by (simp add: num_redirs)
next
  case (2 t r)
  then show ?case by (cases "ttype t") (simp_all add: num_redirs)
next
  case (3 t u ts r)
  have s: "targets_ok (u # ts)" "targets_ok ts" using "3.prems"(1) by simp_all
  have u: "ttype t \<in> {OP_LT, OP_GT, OP_GTGT} \<Longrightarrow> ttype u = OP_WORD" using "3.prems"(1) by simp
  show ?case
  proof (cases "ttype t")
    case OP_LT
    show ?thesis
    proof (cases "MAX_ARRAY \<le> length (input_files r)")
      case True
      then show ?thesis using OP_LT u by (simp add: num_redirs)
    next
      case False
      then show ?thesis using OP_LT u "3.IH"(4) [OF OP_LT _ False s(2)] "3.prems"(2,3) by (simp add: num_redirs)
    qed
  next
    case OP_GT
    show ?thesis
    proof (cases "MAX_ARRAY \<le> length (output_files r)")
      case True
      then show ?thesis using OP_GT u by (simp add: num_redirs)
    next
      case False
      then show ?thesis using OP_GT u "3.IH"(5) [OF OP_GT _ False s(2)] "3.prems"(2,3) by (simp add: num_redirs)
    qed
  next
    case OP_GTGT
    show ?thesis
    proof (cases "MAX_ARRAY \<le> length (output_files r)")
      case True
      then show ?thesis using OP_GTGT u by (simp add: num_redirs)
    next
      case False
      then show ?thesis using OP_GTGT u "3.IH"(6) [OF OP_GTGT _ False s(2)] "3.prems"(2,3) by (simp add: num_redirs)
    qed
  next
    case OP_WORD
    then show ?thesis using "3.IH"(7) [OF OP_WORD s(1)] "3.prems"(2,3) by (simp add: num_redirs)
  qed (use "3.IH"(1-3) s(1) "3.prems"(2,3) in \<open>simp_all add: num_redirs\<close>)
qed


section \<open>Properties\<close>


text \<open>
  C35. The shell leaks no descriptor. Running a single command, in the foreground or the
  background, leaves the shell's descriptor table as it was, whichever calls fail on the way;
  so does a whole session as long as \<^verbatim>\<open>pipe\<close> does not fail: after any number of rounds the
  table is that of the start.
\<close>

theorem session_descriptors:
  "keeps (\<lambda>s. fdv s = W) (execute_cmd_internal os list bg full) \<and>
   (pipe_ok os \<longrightarrow> fdv (snd (run_state (shell_main k al os fuel) (shell_start env))) = fdv (shell_start env))"
proof (intro conjI impI)
  show "keeps (\<lambda>s. fdv s = W) (execute_cmd_internal os list bg full)"
    using lent_execute_cmd_internal [of W os list bg full] by (simp add: keeps_def wp_run)
  assume "pipe_ok os"
  moreover have "whole_table os (fdv (shell_start env)) (snd (run_state (shell_main k al os fuel) (shell_start env)))"
    by (rule keeps_run [OF whole.whole]) (simp add: whole_table_def)
  ultimately show "fdv (snd (run_state (shell_main k al os fuel) (shell_start env))) = fdv (shell_start env)"
    by (simp add: whole_table_def)
qed

theorem session_descriptors_witness:
  "fdv (snd (run_state (shell_main 3 (\<lambda>n. Some (replicate n NUL)) obliging 5) (shell_start Map.empty))) = fdv (shell_start Map.empty)"
  using session_descriptors [of "fdv (shell_start Map.empty)" obliging "[]" None None 3 "\<lambda>n. Some (replicate n NUL)" 5 Map.empty]
  by (simp add: pipe_ok_def obliging_def)

text \<open>
  C37. The arrays for redirections have 256 elements and the code does not count: a command in
  which every redirection sign is followed by a word overruns one of them exactly when it has
  more than 256 input redirections or more than 256 output redirections. Nothing else in
  \<^verbatim>\<open>execute_cmd_internal\<close> goes outside an array.
\<close>

theorem redirections_overrun:
  assumes "list \<noteq> []" "targets_ok list" "\<forall>t \<in> set list. \<not> ends_group t"
  shows "fst (run_state (execute_cmd_internal os list bg full) s) = Crash \<longleftrightarrow> MAX_ARRAY < num_in list \<or> MAX_ARRAY < num_out list"
proof -
  have t: "takeWhile (\<lambda>t. \<not> ends_group t) list = list" using assms(3) by (simp add: takeWhile_eq_all_conv)
  have "scan_redirs list no_redirs = Crash \<longleftrightarrow> MAX_ARRAY < num_in list \<or> MAX_ARRAY < num_out list"
    using scan_redirs_crash [OF assms(2), of no_redirs] by (simp add: no_redirs_def)
  moreover have "scan_redirs ts r \<noteq> Waiting" for ts r
    by (induction ts r rule: scan_redirs.induct) (auto split: token_category.split)
  moreover have "fst (run_state (lifted m) s) \<noteq> Crash" for m :: "bool sh" and s
    by (simp add: lifted_def split: prod.splits)
  ultimately show ?thesis
    using assms(1) by (cases "scan_redirs list no_redirs") (simp_all add: execute_cmd_internal_def t obind_def)
qed

theorem redirections_overrun_witness:
  "fst (run_state (execute_cmd_internal obliging (word_tok ''cat'' # concat (replicate 257 [\<lparr>ttype = OP_LT, ttext = None\<rparr>, word_tok ''a''])) None None)
     (shell_start Map.empty)) = Crash"
proof -
  let ?r = "[\<lparr>ttype = OP_LT, ttext = None\<rparr>, word_tok ''a'']"
  have t: "targets_ok (concat (replicate n ?r))" "num_in (concat (replicate n ?r)) = n" for n
    by (induction n) (simp_all add: num_redirs)
  have "targets_ok (word_tok ''cat'' # concat (replicate 257 ?r))" using t(1) by simp
  moreover have "\<forall>t \<in> set (word_tok ''cat'' # concat (replicate 257 ?r)). \<not> ends_group t" by (auto simp: ends_group_def)
  moreover have "MAX_ARRAY < num_in (word_tok ''cat'' # concat (replicate 257 ?r))" using t(2) [of 257] by (simp add: num_redirs MAX_ARRAY_def)
  ultimately show ?thesis
    using redirections_overrun [of "word_tok ''cat'' # concat (replicate 257 ?r)"] by blast
qed

section \<open>Lines that are too long\<close>

text \<open>The accumulated text fills its buffer and has no newline.\<close>

definition stuck :: "loopst \<Rightarrow> bool" where
  "stuck st \<longleftrightarrow> length (accum_line st) = MAX_INPUT_LEN \<and> last (accum_line st) \<noteq> NL"

definition on_terminal :: "environment \<Rightarrow> bool" where
  "on_terminal os \<longleftrightarrow> (\<forall>h. rv (os h (Isatty 0)) \<noteq> 0)"

text \<open>Every read delivers a text with property \<open>P\<close>.\<close>

definition typing :: "environment \<Rightarrow> (string \<Rightarrow> bool) \<Rightarrow> bool" where
  "typing os P \<longleftrightarrow> (\<forall>h. \<exists>l. rtext (os h Fgets_stdin) = Some l \<and> P l)"

text \<open>Nothing was printed and no process was started.\<close>

definition quiet :: "shell \<Rightarrow> shell \<Rightarrow> bool" where
  "quiet s0 s \<longleftrightarrow> printed s = printed s0 \<and> kids s = kids s0"

lemma quiet_sys: "c = Fgets_stdin \<or> c = Isatty 0 \<Longrightarrow> keeps (quiet s0) (sys os c)"
  by (rule off_table_sys) (auto simp: off_table_def flag_free_def ignores_def quiet_def printed_def polling_def split: syscall.splits)

lemma take_line_stuck:
  assumes "on_terminal os" "stuck (st\<lparr>accum_line := acc\<rparr>)"
    "acc = (if length (accum_line st) + length (line_buf st) < MAX_INPUT_LEN + 1 then accum_line st @ line_buf st else accum_line st)"
  shows "triple (quiet s0) (take_line al os fuel st) (\<lambda>n s. n = Again (st\<lparr>accum_line := acc\<rparr>) \<and> quiet s0 s)"
proof -
  have a: "acc \<noteq> []" "last acc \<noteq> NL" using assms(2) by (auto simp: stuck_def MAX_INPUT_LEN_def)
  have t: "yields (\<lambda>r. rv r \<noteq> 0) (sys os (Isatty 0))" using assms(1) by (intro yields_sys) (simp add: on_terminal_def)
  show ?thesis
    unfolding take_line_def Let_def assms(3) [symmetric]
    using a
    by (simp only: if_False if_True simp_thms not_False_eq_True)
      (rule triple_bind, rule triple_bind [OF triple_yields [OF triple_keeps [OF quiet_sys] t]], simp,
       rule triple_pure, rule triple_return [where Q = "\<lambda>x s. x \<and> quiet s0 s"], simp, rule triple_pure, simp, rule triple_return, simp)
qed

lemma main_step_read:
  assumes "typing os P" "accum_line st \<noteq> []"
    and "\<And>l. P l \<Longrightarrow> triple (quiet s0) (take_line al os fuel (st\<lparr>line_buf := take MAX_INPUT_LEN l\<rparr>)) (\<lambda>n s. R n \<and> quiet s0 s)"
  shows "triple (quiet s0) (main_step al os fuel who st) (\<lambda>n s. R n \<and> quiet s0 s)"
proof -
  have y: "yields (\<lambda>r. \<exists>l. rtext r = Some l \<and> P l) (sys os Fgets_stdin)" using assms(1) by (intro yields_sys) (simp add: typing_def)
  have "triple (quiet s0) (do {
     r \<leftarrow> sys os Fgets_stdin;
     (case rtext r of
        Some line \<Rightarrow> take_line al os fuel (st\<lparr>line_buf := take MAX_INPUT_LEN line\<rparr>)
      | None \<Rightarrow> do {
          x \<leftarrow> on_null os (rerrno r) st;
          (case x of Inl st \<Rightarrow> take_line al os fuel st | Inr n \<Rightarrow> done_with n) }) }) (\<lambda>n s. R n \<and> quiet s0 s)"
    by (rule triple_bind [OF triple_yields [OF triple_keeps [OF quiet_sys] y]], simp, rule triple_pure) (use assms(3) in auto)
  then show ?thesis
    using assms(2) by (simp add: main_step_def)
qed

lemma main_step_stuck:
  assumes "on_terminal os" "typing os (\<lambda>l. l \<noteq> [])" "stuck st"
  shows "triple (quiet s0) (main_step al os fuel who st) (\<lambda>n s. (\<exists>st'. n = Again st' \<and> accum_line st' = accum_line st) \<and> quiet s0 s)"
proof (rule main_step_read [OF assms(2)])
  show "accum_line st \<noteq> []" using assms(3) by (auto simp: stuck_def MAX_INPUT_LEN_def)
  fix l :: string
  assume l: "l \<noteq> []"
  let ?st = "st\<lparr>line_buf := take MAX_INPUT_LEN l\<rparr>"
  have n: "\<not> length (accum_line ?st) + length (line_buf ?st) < MAX_INPUT_LEN + 1"
    using l assms(3) by (cases l) (auto simp: stuck_def MAX_INPUT_LEN_def)
  have "triple (quiet s0) (take_line al os fuel ?st) (\<lambda>n s. n = Again (?st\<lparr>accum_line := accum_line st\<rparr>) \<and> quiet s0 s)"
  proof (rule take_line_stuck [OF assms(1)])
    show "stuck (?st\<lparr>accum_line := accum_line st\<rparr>)" using assms(3) by (simp add: stuck_def)
    show "accum_line st = (if length (accum_line ?st) + length (line_buf ?st) < MAX_INPUT_LEN + 1 then accum_line ?st @ line_buf ?st else accum_line ?st)"
      using n by (simp only: if_False) simp
  qed
  then show "triple (quiet s0) (take_line al os fuel ?st) (\<lambda>n s. (\<exists>st'. n = Again st' \<and> accum_line st' = accum_line st) \<and> quiet s0 s)"
    by (rule triple_post) simp
qed

lemma main_loop_stuck:
  assumes "on_terminal os" "typing os (\<lambda>l. l \<noteq> [])"
  shows "stuck st \<Longrightarrow> triple (quiet s0) (main_loop k al os fuel who st) (\<lambda>r s. r = Waiting \<and> quiet s0 s)"
proof (induction k arbitrary: st)
  case (Suc k)
  show ?case
    unfolding main_loop.simps
  proof (rule triple_bind [OF main_step_stuck [OF assms Suc.prems]], intro triple_pure, elim exE conjE, goal_cases)
    case (1 n st')
    then have "stuck st'" using Suc.prems by (simp add: stuck_def)
    then show ?case unfolding 1 loop_step.case by (rule Suc.IH)
  qed
qed (auto intro: triple_return)

text \<open>
  C38. A line that does not fit blocks the shell. On a terminal, once the accumulated text has
  reached 1024 characters without a newline (a line of at least 1024 characters does that in
  one read), the shell runs for ever without printing a prompt, starting a process or taking
  any of the lines typed from then on, until a signal interrupts the read.
\<close>

theorem long_line_blocks:
  assumes "on_terminal os" "typing os (\<lambda>l. l \<noteq> [])" "stuck st"
  shows "wp (main_loop k al os fuel who st) (\<lambda>r s'. r = Waiting \<and> printed s' = printed s \<and> kids s' = kids s) s \<and>
    (\<forall>l. length (take MAX_INPUT_LEN l) = MAX_INPUT_LEN \<and> last (take MAX_INPUT_LEN l) \<noteq> NL \<longrightarrow>
       wp (take_line al os fuel \<lparr>line_buf = take MAX_INPUT_LEN l, accum_line = [], eof_warned = False\<rparr>)
         (\<lambda>n s'. \<exists>st'. n = Again st' \<and> stuck st') s)"
proof (intro conjI allI impI)
  have q: "quiet s s" by (simp add: quiet_def)
  show "wp (main_loop k al os fuel who st) (\<lambda>r s'. r = Waiting \<and> printed s' = printed s \<and> kids s' = kids s) s"
    using tripleD [OF main_loop_stuck [OF assms] q] by (simp add: quiet_def)
  fix l :: string
  assume l: "length (take MAX_INPUT_LEN l) = MAX_INPUT_LEN \<and> last (take MAX_INPUT_LEN l) \<noteq> NL"
  let ?st = "\<lparr>line_buf = take MAX_INPUT_LEN l, accum_line = [], eof_warned = False\<rparr>"
  have st: "stuck (?st\<lparr>accum_line := take MAX_INPUT_LEN l\<rparr>)" using l by (simp add: stuck_def)
  have "take MAX_INPUT_LEN l = (if length (accum_line ?st) + length (line_buf ?st) < MAX_INPUT_LEN + 1 then accum_line ?st @ line_buf ?st else accum_line ?st)"
    using l by simp
  from tripleD [OF take_line_stuck [OF assms(1) st this] q]
  show "wp (take_line al os fuel ?st) (\<lambda>n s'. \<exists>st'. n = Again st' \<and> stuck st') s"
    by (rule wp_mono) (use st in auto)
qed

text \<open>A terminal at which somebody keeps typing the same command.\<close>

definition typist :: environment where
  "typist h c = \<lparr>rv = 1, rerrno = Other_errno, rstatus = Exited 0, rtext = Some (''ls'' @ [NL]),
     rkind = REG, rnames = [], rnum = 0, rsigs = []\<rparr>"

theorem long_line_blocks_witness:
  "wp (main_loop 100 (\<lambda>n. Some (replicate n NUL)) typist 5 \<lparr>home_dir = [], username = [], hostname_buf = []\<rparr>
       \<lparr>line_buf = [], accum_line = replicate 1024 (CHR ''x''), eof_warned = False\<rparr>)
     (\<lambda>r s'. r = Waiting \<and> kids s' = []) (shell_start Map.empty)"
proof -
  have "on_terminal typist" "typing typist (\<lambda>l. l \<noteq> [])" by (simp_all add: on_terminal_def typing_def typist_def)
  moreover have "stuck \<lparr>line_buf = [], accum_line = replicate 1024 (CHR ''x''), eof_warned = False\<rparr>"
    by (simp add: stuck_def MAX_INPUT_LEN_def last_replicate)
  ultimately show ?thesis
    using long_line_blocks [of typist _ 100 _ 5 _ "shell_start Map.empty"]
    by (fastforce simp: shell_start_def elim: wp_mono)
qed

end
