(* ===== verification/Builtins_Props.thy ===== *)
theory Builtins_Props
  imports Execute_Props "HOL-Library.Multiset"
begin

text \<open>
  Which program a name stands for, the tables of \<^verbatim>\<open>snoop\<close>, and when \<^verbatim>\<open>reveal -t\<close> comes to an end.
\<close>

section \<open>Finding the executable\<close>

text \<open>A file system that does not change while the shell looks at it.\<close>

definition steady :: "environment \<Rightarrow> bool" where
  "steady os \<longleftrightarrow> (\<forall>h p. os h (Access_exec p) = os [] (Access_exec p) \<and> os h (Stat p) = os [] (Stat p) \<and> os h Getcwd = os [] Getcwd)"

definition file_exec :: "environment \<Rightarrow> string \<Rightarrow> bool" where
  "file_exec os p \<longleftrightarrow> rv (os [] (Access_exec p)) = 0 \<and> rv (os [] (Stat p)) = 0 \<and> \<not> risdir (os [] (Stat p))"

text \<open>The files a command name may stand for, in the order in which they are tried.\<close>

definition candidates :: "environment \<Rightarrow> bool \<Rightarrow> string \<Rightarrow> string option \<Rightarrow> string list" where
  "candidates os skip_cwd cmd env_path =
     (if \<not> skip_cwd \<and> has_char (CHR ''/'') cmd then [cmd]
      else (if skip_cwd then [] else (case rtext (os [] Getcwd) of None \<Rightarrow> [] | Some w \<Rightarrow> [under (PATH_MAX + 512) w cmd])) @
           (case env_path of None \<Rightarrow> [] | Some e \<Rightarrow> map (\<lambda>d. under (PATH_MAX + 512) d cmd) (strtok_all (CHR '':'') e)))"

lemma environ_sys: "keeps (\<lambda>s. environ s = e) (sys os c)"
  by (rule off_table_sys) (auto simp: off_table_def flag_free_def ignores_def)

text \<open>A call whose answer is known.\<close>

lemma sys_known: "(\<And>h. os h c = r) \<Longrightarrow> triple (\<lambda>s. environ s = e) (sys os c) (\<lambda>x s. x = r \<and> environ s = e)"
  by (rule triple_yields [OF triple_keeps [OF environ_sys]], rule yields_sys) simp

lemma find_is_executable:
  assumes "steady os"
  shows "triple (\<lambda>s. environ s = e) (execute_is_executable os p) (\<lambda>x s. x = file_exec os p \<and> environ s = e)"
  unfolding execute_is_executable_def
proof (rule triple_bind [OF sys_known [where r = "os [] (Access_exec p)"]], goal_cases)
  case (2 x)
  have "triple (\<lambda>s. environ s = e) (do { r \<leftarrow> sys os (Stat p); if rv r \<noteq> 0 then done_with False else done_with (\<not> risdir r) })
     (\<lambda>x s. x = (rv (os [] (Stat p)) = 0 \<and> \<not> risdir (os [] (Stat p))) \<and> environ s = e)"
    by (rule triple_bind [OF sys_known [where r = "os [] (Stat p)"]], use assms in \<open>simp add: steady_def\<close>, rule triple_pure)
      (auto intro!: triple_return)
  then show ?case
    by (intro triple_pure) (auto simp: file_exec_def intro: triple_return)
qed (use assms in \<open>simp add: steady_def\<close>)

lemma find_first_executable:
  assumes "steady os"
  shows "triple (\<lambda>s. environ s = e) (first_executable os cs) (\<lambda>x s. x = List.find (file_exec os) cs \<and> environ s = e)"
proof (induction cs)
  case (Cons c cs)
  show ?case unfolding first_executable.simps
    by (rule triple_bind [OF find_is_executable [OF assms]], rule triple_pure, rule triple_if)
      (use Cons in \<open>auto intro!: triple_return\<close>)
qed (auto intro: triple_return)

lemma find_search_path:
  assumes "steady os"
  shows "[] \<notin> set ds \<Longrightarrow> triple (\<lambda>s. environ s = e) (search_path os cmd ds)
    (\<lambda>x s. x = List.find (file_exec os) (map (\<lambda>d. under (PATH_MAX + 512) d cmd) ds) \<and> environ s = e)"
proof (induction ds)
  case (Cons d ds)
  have c: "triple (\<lambda>s. environ s = e) (path_candidate os cmd d) (\<lambda>c s. c = under (PATH_MAX + 512) d cmd \<and> environ s = e)"
    using Cons.prems unfolding path_candidate_def by (auto intro: triple_return)
  show ?case unfolding search_path.simps
    by (rule triple_bind [OF c], rule triple_pure, rule triple_bind [OF find_is_executable [OF assms]], rule triple_pure, rule triple_if)
      (use Cons in \<open>auto intro!: triple_return\<close>)
qed (auto intro: triple_return)

lemma find_search_cwd:
  assumes "steady os"
  shows "triple (\<lambda>s. environ s = e) (search_cwd os cmd)
    (\<lambda>x s. x = List.find (file_exec os) (case rtext (os [] Getcwd) of None \<Rightarrow> [] | Some w \<Rightarrow> [under (PATH_MAX + 512) w cmd]) \<and> environ s = e)"
  unfolding search_cwd_def
proof (rule triple_bind [OF sys_known [where r = "os [] Getcwd"]], goal_cases)
  case (2 x)
  show ?case
    by (rule triple_pure, cases "rtext (os [] Getcwd)")
      (use find_first_executable [OF assms] in \<open>auto simp del: first_executable.simps find.simps simp: find.simps(1) intro: triple_return\<close>)
qed (use assms in \<open>simp add: steady_def\<close>)

lemma find_append: "List.find P (xs @ ys) = (case List.find P xs of None \<Rightarrow> List.find P ys | Some x \<Rightarrow> Some x)"
  by (induction xs) auto

text \<open>
  C36. Which program a command name stands for, in a file system that does not change
  meanwhile: the first executable, non-directory file among the candidates. These are the name
  itself when it contains a slash; otherwise the file of that name in the current directory
  and then in each directory of \<^verbatim>\<open>PATH\<close> in order. A name written with a percent sign is never
  taken from the current directory.
\<close>

theorem find_exec_first:
  assumes "steady os"
  shows "wp (find_exec os skip_cwd cmd) (\<lambda>p _. p = List.find (file_exec os) (candidates os skip_cwd cmd (environ s ''PATH''))) s"
proof -
  let ?e = "environ s"
  have path: "triple (\<lambda>s. environ s = ?e) (do {
             env_path \<leftarrow> gets (\<lambda>s. environ s ''PATH'');
             search_path os cmd (case env_path of None \<Rightarrow> [] | Some e \<Rightarrow> strtok_all (CHR '':'') e) })
     (\<lambda>x s. x = List.find (file_exec os) (case ?e ''PATH'' of None \<Rightarrow> [] | Some e \<Rightarrow> map (\<lambda>d. under (PATH_MAX + 512) d cmd) (strtok_all (CHR '':'') e)))"
  proof (rule triple_bind [OF triple_gets [where Q = "\<lambda>x s. x = ?e ''PATH'' \<and> environ s = ?e"]], simp, rule triple_pure, goal_cases)
    case (1 x)
    have "[] \<notin> set (case x of None \<Rightarrow> [] | Some e \<Rightarrow> strtok_all (CHR '':'') e)" using strtok_all_nonempty by (auto split: option.splits)
    from triple_post [OF find_search_path [OF assms this]] show ?case using 1 by (auto split: option.splits)
  qed
  define cwd where "cwd = (if skip_cwd then [] else (case rtext (os [] Getcwd) of None \<Rightarrow> [] | Some w \<Rightarrow> [under (PATH_MAX + 512) w cmd]))"
  have cwd: "triple (\<lambda>s. environ s = ?e) (if skip_cwd then done_with None else search_cwd os cmd)
     (\<lambda>x s. x = List.find (file_exec os) cwd \<and> environ s = ?e)"
    using find_search_cwd [OF assms] by (auto simp: cwd_def intro: triple_return)
  have "triple (\<lambda>s. environ s = ?e) (find_exec os skip_cwd cmd) (\<lambda>p _. p = List.find (file_exec os) (candidates os skip_cwd cmd (?e ''PATH'')))"
  proof (cases "\<not> skip_cwd \<and> has_char (CHR ''/'') cmd")
    case True
    then show ?thesis using triple_post [OF find_first_executable [OF assms, of ?e "[cmd]"]]
      by (auto simp: find_exec_def candidates_def)
  next
    case False
    show ?thesis
      unfolding find_exec_def candidates_def if_not_P [OF False] cwd_def [symmetric] find_append
      by (rule triple_bind [OF cwd], rule triple_pure)
        (use path in \<open>auto split: option.split intro: triple_return\<close>)
  qed
  from tripleD [OF this] show ?thesis by simp
qed


theorem find_exec_first_witness:
  "wp (find_exec obliging True ''ls'') (\<lambda>p _. p = Some ''/bin/ls'') (shell_start [''PATH'' \<mapsto> '':/bin''])"
proof -
  have "List.find (file_exec obliging) (candidates obliging True ''ls'' (environ (shell_start [''PATH'' \<mapsto> '':/bin'']) ''PATH'')) = Some ''/bin/ls''"
    by (simp add: candidates_def shell_start_def strtok_all_def under_def bounded_copy_def file_exec_def obliging_def PATH_MAX_def)
  with find_exec_first [of obliging True "''ls''" "shell_start [''PATH'' \<mapsto> '':/bin'']"] show ?thesis
    by (simp add: steady_def obliging_def)
qed

section \<open>Sorting\<close>

lemma mset_qsort: "mset (qsort le xs) = mset xs"
proof -
  have "mset (insert_by le x ys) = add_mset x (mset ys)" for x ys by (induction ys) auto
  then show ?thesis unfolding qsort_def by (induction xs) auto
qed

lemma set_qsort [simp]: "set (qsort le xs) = set xs"
  by (metis mset_qsort set_mset_mset)

lemma sorted_qsort:
  assumes "\<And>x y. le x y \<or> le y x" "\<And>x y z. le x y \<Longrightarrow> le y z \<Longrightarrow> le x z"
  shows "sorted_wrt le (qsort le xs)"
proof -
  have s: "set (insert_by le x ys) = insert x (set ys)" for x ys by (induction ys) auto
  have "sorted_wrt le ys \<Longrightarrow> sorted_wrt le (insert_by le x ys)" for x ys
    by (induction ys) (use assms s in \<open>auto\<close>)
  then show ?thesis unfolding qsort_def by (induction xs) auto
qed

section \<open>The table of snoop\<close>

text \<open>The table after the calls \<open>evs\<close>, each with its number and its duration.\<close>

definition snoop_table :: "(int \<times> int) list \<Rightarrow> sys_stat_t list" where
  "snoop_table evs = foldl (\<lambda>sts e. add_syscall_time (fst e) (snd e) sts) [] evs"

definition durations :: "int \<Rightarrow> (int \<times> int) list \<Rightarrow> int list" where
  "durations n evs = map snd (filter (\<lambda>e. fst e = n) evs)"

lemma new_stat_fields: "sys_num (new_stat n d k) = n" "calls (new_stat n d k) = 1" "total_time (new_stat n d k) = d" "first_seen_order (new_stat n d k) = k"
  by (simp_all add: new_stat_def)

lemma bump_map: "map sys_num (bump n d sts) = map sys_num sts" "map first_seen_order (bump n d sts) = map first_seen_order sts"
  by (induction sts) simp_all

lemma bump_nums: "sys_num ` set (bump n d sts) = sys_num ` set sts" "length (bump n d sts) = length sts"
  using bump_map(1) [of n d sts] by (metis set_map, metis length_map)

lemma bump_set: "distinct (map sys_num sts) \<Longrightarrow> st \<in> set (bump n d sts) \<Longrightarrow>
   (st \<in> set sts \<and> sys_num st \<noteq> n) \<or> (\<exists>st0 \<in> set sts. sys_num st0 = n \<and> st = st0\<lparr>calls := calls st0 + 1, total_time := total_time st0 + d\<rparr>)"
  by (induction sts) (auto simp: image_iff split: if_splits)

lemma snoop_table_snoc: "snoop_table (evs @ [e]) = add_syscall_time (fst e) (snd e) (snoop_table evs)"
  by (simp add: snoop_table_def)

lemma snoop_table_distinct:
  "distinct (map sys_num (snoop_table evs)) \<and> map first_seen_order (snoop_table evs) = [0..<length (snoop_table evs)]
   \<and> length (snoop_table evs) \<le> MAX_SYSCALLS \<and> sys_num ` set (snoop_table evs) \<subseteq> fst ` set evs"
proof (induction evs rule: rev_induct)
  case (snoc e evs)
  show ?case using snoc unfolding snoop_table_snoc add_syscall_time_def
    by (auto simp: bump_map bump_nums new_stat_fields)
qed (simp add: snoop_table_def)

lemma snoop_table_room: "length (snoop_table evs) < MAX_SYSCALLS \<Longrightarrow> sys_num ` set (snoop_table evs) = fst ` set evs"
proof (induction evs rule: rev_induct)
  case (snoc e evs)
  then show ?case by (auto simp: snoop_table_snoc add_syscall_time_def bump_nums new_stat_fields split: if_splits)
qed (simp add: snoop_table_def)

lemma snoop_table_domain:
  assumes "card (fst ` set evs) \<le> MAX_SYSCALLS"
  shows "sys_num ` set (snoop_table evs) = fst ` set evs"
  using assms
proof (induction evs rule: rev_induct)
  case (snoc e evs)
  have c: "card (fst ` set evs) \<le> card (fst ` set (evs @ [e]))" by (rule card_mono) auto
  then have IH: "sys_num ` set (snoop_table evs) = fst ` set evs" using snoc by simp
  show ?case
  proof (cases "fst e \<in> fst ` set evs")
    case True
    then show ?thesis using True IH by (auto simp: snoop_table_snoc add_syscall_time_def bump_nums)
  next
    case False
    then have "card (fst ` set (evs @ [e])) = Suc (card (fst ` set evs))" by simp
    then have "card (fst ` set evs) < MAX_SYSCALLS" using snoc.prems by simp
    moreover have "length (snoop_table evs) = card (fst ` set evs)"
      using snoop_table_distinct [of evs] IH by (metis distinct_card length_map set_map)
    ultimately show ?thesis using False IH by (auto simp: snoop_table_snoc add_syscall_time_def new_stat_fields)
  qed
qed (simp add: snoop_table_def)

lemma snoop_table_counts:
  "st \<in> set (snoop_table evs) \<Longrightarrow> calls st = int (length (durations (sys_num st) evs)) \<and> total_time st = sum_list (durations (sys_num st) evs)"
proof (induction evs arbitrary: st rule: rev_induct)
  case (snoc e evs)
  have d: "distinct (map sys_num (snoop_table evs))" and sub: "sys_num ` set (snoop_table evs) \<subseteq> fst ` set evs" using snoop_table_distinct by auto
  have snocd: "durations n (evs @ [e]) = durations n evs @ (if fst e = n then [snd e] else [])" for n by (simp add: durations_def)
  show ?case
  proof (cases "fst e \<in> sys_num ` set (snoop_table evs)")
    case True
    then have "st \<in> set (bump (fst e) (snd e) (snoop_table evs))" using snoc.prems by (simp add: snoop_table_snoc add_syscall_time_def)
    from bump_set [OF d this] show ?thesis
    proof (elim disjE bexE conjE)
      assume "st \<in> set (snoop_table evs)" "sys_num st \<noteq> fst e"
      then show ?thesis using snoc.IH [of st] snocd by simp
    next
      fix st0
      assume "st0 \<in> set (snoop_table evs)" "sys_num st0 = fst e" "st = st0\<lparr>calls := calls st0 + 1, total_time := total_time st0 + snd e\<rparr>"
      then show ?thesis using snoc.IH [of st0] snocd by simp
    qed
  next
    case False
    consider "st \<in> set (snoop_table evs)" | "st = new_stat (fst e) (snd e) (length (snoop_table evs))" "length (snoop_table evs) < MAX_SYSCALLS"
      using False snoc.prems by (auto simp: snoop_table_snoc add_syscall_time_def split: if_splits)
    then show ?thesis
    proof cases
      case 1
      then have "fst e \<noteq> sys_num st" using False by auto
      then show ?thesis using snoc.IH [OF 1] snocd by simp
    next
      case 2
      then have "fst e \<notin> fst ` set evs" using False snoop_table_room [of evs] by simp
      then have "\<forall>x \<in> set evs. fst x \<noteq> fst e" by (metis image_eqI)
      then have "durations (fst e) evs = []" by (simp add: durations_def filter_empty_conv)
      then show ?thesis using 2 snocd by (simp add: new_stat_fields)
    qed
  qed
qed (simp add: snoop_table_def)

lemma compare_sys_stats_total: "compare_sys_stats a b \<or> compare_sys_stats b a"
  by (auto simp: compare_sys_stats_def)

lemma compare_sys_stats_trans: "compare_sys_stats a b \<Longrightarrow> compare_sys_stats b c \<Longrightarrow> compare_sys_stats a c"
  by (auto simp: compare_sys_stats_def split: if_splits)



section \<open>Listing a tree\<close>

text \<open>
  The directories of the file system nest finitely: \<open>rank\<close> falls from a directory to whatever
  \<^verbatim>\<open>stat\<close> takes for a directory in it.
\<close>

definition nests :: "environment \<Rightarrow> (string \<Rightarrow> nat) \<Rightarrow> bool" where
  "nests os rank \<longleftrightarrow> (\<forall>h h' d n. n \<in> set (rnames (os h (Readdir d))) \<and> n \<noteq> ''.'' \<and> n \<noteq> ''..'' \<and>
     rv (os h' (Stat (under PATH_MAX d n))) = 0 \<and> risdir (os h' (Stat (under PATH_MAX d n))) \<longrightarrow> rank (under PATH_MAX d n) < rank d)"

lemma yields_obind: "yields (\<lambda>r. \<exists>x. r = Done x) m \<Longrightarrow> (\<And>x. yields Q (f x)) \<Longrightarrow> yields Q (obind m f)"
  unfolding obind_def by (rule yields_bind_from [where P = "\<lambda>r. \<exists>x. r = Done x"]) auto

lemma yields_lifted: "yields (\<lambda>r. r = Done ()) (lifted m)"
  unfolding lifted_def by (intro yields_rules) simp

lemma yields_for_all: "(\<And>i. i \<in> set is \<Longrightarrow> yields (\<lambda>r. r = Done ()) (body i)) \<Longrightarrow> yields (\<lambda>r. r = Done ()) (for_all is body)"
proof (induction "is")
  case (Cons i "is")
  then have "yields (\<lambda>r. \<exists>x. r = Done x) (body i)" by (auto simp: yields_def wp_run)
  then show ?case using Cons by (auto intro: yields_obind)
qed (simp add: yields_rules)

lemma reveal_list_dir_ends:
  assumes "nests os rank"
  shows "rank d < fuel \<Longrightarrow> yields (\<lambda>r. r = Done ()) (reveal_list_dir fuel os d p a t)"
proof (induction fuel arbitrary: d p)
  case (Suc fuel)
  have names: "n \<in> set (reveal_names a ns) \<Longrightarrow> n \<in> set ns \<and> n \<noteq> ''.'' \<and> n \<noteq> ''..''" for n ns
    by (simp add: reveal_names_def)
  show ?case
    unfolding reveal_list_dir.simps
  proof (rule yields_bind_from [OF yields_sys(2) [where P = "\<lambda>r. \<exists>h. r = os h (Readdir d)"]], blast, elim exE, intro yields_if yields_for_all, goal_cases)
    case (2 dr h n)
    then have n: "n \<in> set (rnames (os h (Readdir d)))" "n \<noteq> ''.''" "n \<noteq> ''..''" using names by auto
    show ?case
    proof (rule yields_bind_from [OF yields_sys(2) [where P = "\<lambda>r. \<exists>h'. r = os h' (Stat (under PATH_MAX d n))"]], blast, elim exE, goal_cases)
      case (1 r h')
      have "rank (under PATH_MAX d n) < fuel" if "rv r = 0 \<and> risdir r"
      proof -
        have "rank (under PATH_MAX d n) < rank d" using assms n 1 that unfolding nests_def by blast
        then show ?thesis using Suc.prems by simp
      qed
      then show ?case using Suc.IH unfolding Let_def by (intro yields_if yields_bind yields_lifted) (auto intro: yields_rules)
    qed
  qed (auto intro: yields_rules)
qed simp

lemma reveal_args_done: "None \<notin> set as \<Longrightarrow> \<exists>x. reveal_args as a t target = Done x"
proof (induction as arbitrary: a t target)
  case (Cons x as)
  then obtain arg where x: "x = Some arg" and n: "None \<notin> set as" by (cases x) auto
  note IH = Cons.IH [OF n]
  show ?case unfolding x reveal_args.simps
    by (cases arg; cases "tl arg"; cases "target = None"; cases "reveal_flags (tl arg) a t") (simp_all add: IH split: prod.split)
qed simp

text \<open>
  C40. \<^verbatim>\<open>reveal\<close> comes to an end: if the directories nest finitely as \<^verbatim>\<open>stat\<close> sees them, the recursion
  over the tree ends, whatever the flags, with the depth of the nesting as a bound on its
  depth, and the command returns without a crash on every argument list the lexer produces.
\<close>

theorem reveal_terminates:
  assumes "nests os rank" "\<forall>d. rank d < fuel" "\<forall>t \<in> set list. ttype t = OP_WORD \<longrightarrow> ttext t \<noteq> None"
  shows "fst (run_state (reveal os fuel list) s) = Done ()"
proof -
  have w: "None \<notin> set (word_args list)" using assms(3) by (cases list) (auto simp: word_args_def)
  then have y: "yields (\<lambda>r. \<exists>x. r = Done x) (done_with (reveal_args (word_args list) False False None))"
    by (intro yields_rules reveal_args_done)
  have "yields (\<lambda>r. r = Done ()) (reveal os fuel list)"
    unfolding reveal_def
    by (rule yields_obind [OF y], intro yields_option yields_lifted)
      (auto intro!: yields_rules yields_lifted reveal_list_dir_ends [OF assms(1)] simp: assms(2) split: option.split)
  then show ?thesis by (simp add: yields_def wp_run)
qed

text \<open>A file system with one directory in another.\<close>

definition two_dirs :: environment where
  "two_dirs h c = \<lparr>rv = 0, rerrno = Other_errno, rstatus = Exited 0, rtext = Some ''/r'',
     rkind = (if c = Stat ''/r'' \<or> c = Stat ''/r/d'' then DIR else REG), rnames = (if c = Readdir ''/r'' then [''d''] else []), rnum = 0, rsigs = []\<rparr>"

theorem reveal_terminates_witness:
  "fst (run_state (reveal two_dirs 2 [word_tok ''reveal'', word_tok ''-t'']) (shell_start Map.empty)) = Done ()"
proof (rule reveal_terminates [where rank = "\<lambda>d. if d = ''/r'' then 1 else 0"])
  show "nests two_dirs (\<lambda>d. if d = ''/r'' then 1 else 0)"
    by (auto simp: nests_def two_dirs_def under_def bounded_copy_def PATH_MAX_def split: if_splits)
qed auto

end
