(* ===== verification/Hop_Props.thy ===== *)
theory Hop_Props
  imports Hop "HOL-Library.Multiset"
begin

text \<open>
  Properties of \<^verbatim>\<open>hop\<close>: what is written to the history file is what is read back, the
  lookup finds the best ranked directory, and a visit updates the table as intended.
\<close>

section \<open>The history file read back\<close>

lemma show_nat_length: "n < 10 ^ k \<Longrightarrow> 0 < k \<Longrightarrow> length (show_nat n) \<le> k"
proof (induction k arbitrary: n)
  case (Suc k)
  show ?case
  proof (cases "n < 10")
    case False
    then have "0 < k" using Suc.prems(1) by (cases k) auto
    moreover have "n div 10 < 10 ^ k" using Suc.prems(1) by auto
    ultimately show ?thesis
      using False Suc.IH [of "n div 10"] by (subst show_nat.simps) simp
  qed (subst show_nat.simps, simp)
qed simp

definition entry_fits :: "frecency_entry_t \<Rightarrow> bool" where
  "entry_fits e \<longleftrightarrow> 0 \<le> frequency e \<and> frequency e < 2 ^ 31 \<and>
     - (2 ^ 63) \<le> last_access e \<and> last_access e < 2 ^ 63 \<and>
     path e \<noteq> [] \<and> length (path e) < PATH_MAX \<and> NL \<notin> set (path e) \<and> NUL \<notin> set (path e) \<and>
     \<not> blank (hd (path e)) \<and> last (path e) \<noteq> CHR 0x0D"

lemma digit_not_space: "is_digit c \<Longrightarrow> \<not> scan_space c \<and> \<not> blank c \<and> c \<noteq> CHR ''-'' \<and> c \<noteq> CHR ''+'' \<and> c \<noteq> NL \<and> c \<noteq> NUL"
  by (auto simp: is_digit_def scan_space_def blank_def)

lemma not_digit [simp]: "\<not> is_digit (CHR '' '')" "\<not> is_digit (CHR ''-'')" "\<not> is_digit NL"
  by (simp_all add: is_digit_def)

lemma show_nat_Cons: "\<exists>c cs. show_nat n = c # cs \<and> is_digit c"
  using show_nat_digits [of n] by (cases "show_nat n") auto

lemma takeWhile_digits:
  "takeWhile is_digit (show_nat n @ CHR '' '' # r) = show_nat n"
  "dropWhile is_digit (show_nat n @ CHR '' '' # r) = CHR '' '' # r"
  using show_nat_digits [of n]
  by (simp_all add: takeWhile_append2 dropWhile_append3 list_all_iff
      takeWhile_append dropWhile_append)

lemma scan_int_show:
  assumes "- (2 ^ 63) \<le> i" "i < 2 ^ 63"
  shows "scan_int (show_int i @ CHR '' '' # r) = Some (i, CHR '' '' # r)"
    and "scan_int (CHR '' '' # show_int i @ CHR '' '' # r) = Some (i, CHR '' '' # r)"
proof -
  obtain c cs where c: "show_nat (nat \<bar>i\<bar>) = c # cs" "is_digit c" using show_nat_Cons by blast
  have t: "takeWhile is_digit (c # cs @ CHR '' '' # r) = c # cs"
    "dropWhile is_digit (c # cs @ CHR '' '' # r) = CHR '' '' # r"
    using takeWhile_digits [of "nat \<bar>i\<bar>" r] c(1) by simp_all
  have v: "int (digits_val (c # cs)) = \<bar>i\<bar>"
    using digits_val_show_nat [of "nat \<bar>i\<bar>"] c(1) by simp
  have "show_int i = (if i < 0 then CHR ''-'' # c # cs else c # cs)"
    using c(1) by (auto simp: show_int_def)
  then show "scan_int (show_int i @ CHR '' '' # r) = Some (i, CHR '' '' # r)"
    and "scan_int (CHR '' '' # show_int i @ CHR '' '' # r) = Some (i, CHR '' '' # r)"
    using assms t v digit_not_space [OF c(2)]
    by (simp_all add: scan_int_def Let_def clamp_long_def scan_space_def)
qed

lemma skip_numbers_show:
  assumes "0 \<le> f" "p \<noteq> []" "\<not> blank (hd p)"
  shows "skip_numbers (show_int f @ CHR '' '' # show_int t @ CHR '' '' # p) = p"
proof -
  obtain c cs where c: "show_nat (nat f) = c # cs" "is_digit c" using show_nat_Cons by blast
  obtain c2 cs2 where c2: "show_int t = c2 # cs2" "\<not> blank c2"
    using show_nat_Cons [of "nat t"] show_nat_Cons [of "nat (- t)"] digit_not_space
    by (cases "t < 0") (auto simp: show_int_def blank_def)
  have "\<forall>x \<in> set (show_int t). is_digit x \<or> x = CHR ''-''"
    using show_nat_digits by (auto simp: show_int_def list_all_iff)
  then have d: "dropWhile (\<lambda>c. is_digit c \<or> c = CHR ''-'') (show_int t @ CHR '' '' # p) = CHR '' '' # p"
    by (simp add: dropWhile_append)
  have "dropWhile blank (show_nat (nat f) @ CHR '' '' # show_int t @ CHR '' '' # p) =
        show_nat (nat f) @ CHR '' '' # show_int t @ CHR '' '' # p"
    using c digit_not_space by simp
  moreover have "dropWhile blank (CHR '' '' # show_int t @ CHR '' '' # p) = show_int t @ CHR '' '' # p"
    using c2 by (simp add: blank_def)
  moreover have "dropWhile blank (CHR '' '' # p) = p"
    using assms(2,3) by (cases p) (simp_all add: blank_def)
  ultimately show ?thesis
    using assms(1) d by (simp add: skip_numbers_def show_int_def [of f] takeWhile_digits)
qed

lemma strip_eol_line: "p \<noteq> [] \<Longrightarrow> NL \<notin> set p \<Longrightarrow> last p \<noteq> CHR 0x0D \<Longrightarrow> strip_eol (p @ [NL]) = p"
  by (cases p rule: rev_cases) (auto simp: strip_eol_def)

lemma parse_history_line: "entry_fits e \<Longrightarrow> parse_history_line (history_line e) = Some e"
proof -
  assume e: "entry_fits e"
  let ?r = "show_int (last_access e) @ CHR '' '' # path e @ [NL]"
  have l: "history_line e = show_int (frequency e) @ CHR '' '' # ?r" by (simp add: history_line_def)
  have "skip_numbers (history_line e) = path e @ [NL]"
    unfolding l using e by (intro skip_numbers_show) (auto simp: entry_fits_def)
  then have "strip_eol (skip_numbers (history_line e)) = path e"
    using e by (simp add: strip_eol_line entry_fits_def)
  moreover have "scan_int (history_line e) = Some (frequency e, CHR '' '' # ?r)"
    unfolding l using e by (intro scan_int_show) (auto simp: entry_fits_def)
  moreover have "scan_int (CHR '' '' # ?r) = Some (last_access e, CHR '' '' # path e @ [NL])"
    using e by (intro scan_int_show) (auto simp: entry_fits_def)
  ultimately show ?thesis
    using e by (simp add: parse_history_line_def entry_fits_def bounded_copy_id to_int32_id)
qed

lemma history_line_chars:
  assumes "entry_fits e"
  shows "\<exists>u. history_line e = u @ [NL] \<and> NL \<notin> set u \<and> NUL \<notin> set u"
    and "length (history_line e) < PATH_MAX + 128"
proof -
  have d: "x \<noteq> NL \<and> x \<noteq> NUL" if "x \<in> set (show_int i)" for x i
    using that show_nat_digits digit_not_space by (auto simp: show_int_def list_all_iff split: if_splits)
  then have "NL \<notin> set (show_int i)" "NUL \<notin> set (show_int i)" for i by blast+
  with assms show "\<exists>u. history_line e = u @ [NL] \<and> NL \<notin> set u \<and> NUL \<notin> set u"
    by (intro exI [of _ "show_int (frequency e) @ '' '' @ show_int (last_access e) @ '' '' @ path e"])
      (simp add: history_line_def entry_fits_def)
  have "length (show_nat (nat (frequency e))) \<le> 10"
    using assms by (intro show_nat_length) (auto simp: entry_fits_def)
  moreover have "length (show_nat (nat (last_access e))) \<le> 19" "length (show_nat (nat (- last_access e))) \<le> 19"
    using assms by (auto simp: entry_fits_def intro!: show_nat_length)
  ultimately show "length (history_line e) < PATH_MAX + 128"
    using assms by (simp add: history_line_def entry_fits_def show_int_def PATH_MAX_def)
qed

lemma fgets_line:
  "NL \<notin> set u \<Longrightarrow> length (u @ [NL]) < n \<Longrightarrow> fgets n (u @ NL # r) = Some (u @ [NL], r)"
  by (simp add: fgets_def getline_def Let_def takeWhile_append dropWhile_append)

lemma load_loop_lines:
  "list_all entry_fits es \<Longrightarrow> length d + length es \<le> MAX_ENTRIES \<Longrightarrow>
   load_loop (concat (map history_line es)) d = d @ es"
proof (induction es arbitrary: d)
  case Nil
  then show ?case by (subst load_loop.simps) (simp add: fgets_def getline_def)
next
  case (Cons e es)
  then obtain u where u: "history_line e = u @ [NL]" "NL \<notin> set u" "NUL \<notin> set u"
    using history_line_chars(1) by auto
  have "fgets (PATH_MAX + 128) (history_line e @ concat (map history_line es)) =
      Some (history_line e, concat (map history_line es))"
    using u history_line_chars(2) [of e] Cons.prems(1) by (simp add: fgets_line)
  moreover have "cstr (history_line e) = history_line e"
    using u by (auto simp: cstr_def takeWhile_eq_all_conv)
  ultimately show ?case
    using Cons parse_history_line [of e] by (subst load_loop.simps) simp
qed

section \<open>Sorting by score\<close>

text \<open>The sorting loops with the scores at hand.\<close>

definition xstep :: "(nat \<Rightarrow> int) \<Rightarrow> nat \<Rightarrow> nat \<Rightarrow> nat list \<Rightarrow> nat list" where
  "xstep key i j xs = (if key (xs ! j) > key (xs ! i) then xs[i := xs ! j, j := xs ! i] else xs)"

definition xinner :: "(nat \<Rightarrow> int) \<Rightarrow> nat \<Rightarrow> nat list \<Rightarrow> nat list \<Rightarrow> nat list" where
  "xinner key i js xs = fold (xstep key i) js xs"

definition xouter :: "(nat \<Rightarrow> int) \<Rightarrow> nat \<Rightarrow> nat list \<Rightarrow> nat list \<Rightarrow> nat list" where
  "xouter key n is xs = fold (\<lambda>i. xinner key i [i + 1..<n]) is xs"

text \<open>What the inner loop has done to positions \<open>i\<close> and \<open>js\<close>.\<close>

definition inner_done :: "(nat \<Rightarrow> int) \<Rightarrow> nat \<Rightarrow> nat list \<Rightarrow> nat list \<Rightarrow> nat list \<Rightarrow> bool" where
  "inner_done key i js xs ys \<longleftrightarrow> mset ys = mset xs \<and>
     (\<forall>k. k \<noteq> i \<and> k \<notin> set js \<longrightarrow> ys ! k = xs ! k) \<and>
     (\<forall>j \<in> set js. key (ys ! j) \<le> key (ys ! i)) \<and> key (xs ! i) \<le> key (ys ! i) \<and>
     (\<forall>k \<in> insert i (set js). \<exists>l \<in> insert i (set js). ys ! k = xs ! l)"

lemma xinner_done:
  assumes "i < length xs" "\<forall>j \<in> set js. i < j \<and> j < length xs" "distinct js"
  shows "inner_done key i js xs (xinner key i js xs)"
  using assms
proof (induction js rule: rev_induct)
  case Nil
  then show ?case by (simp add: inner_done_def xinner_def)
next
  case (snoc j js)
  define p where "p = xinner key i js xs"
  have d: "inner_done key i js xs p" using snoc by (simp add: p_def)
  then have len: "length p = length xs" by (metis inner_done_def size_mset)
  have j: "i < j" "j < length p" "j \<notin> set js" "p ! j = xs ! j"
    using snoc.prems d len by (auto simp: inner_done_def)
  have e: "xinner key i (js @ [j]) xs = xstep key i j p" by (simp add: xinner_def p_def)
  show ?case
  proof (cases "key (p ! j) > key (p ! i)")
    case True
    let ?q = "p[i := p ! j, j := p ! i]"
    have q: "?q ! i = p ! j" "?q ! j = p ! i" "\<And>k. k \<noteq> i \<Longrightarrow> k \<noteq> j \<Longrightarrow> ?q ! k = p ! k"
      using j len snoc.prems(1) by (simp_all add: nth_list_update)
    have from_p: "\<exists>l \<in> insert i (set js). p ! k = xs ! l" if "k \<in> insert i (set js)" for k
      using d that unfolding inner_done_def by blast
    have "mset ?q = mset xs"
      using mset_swap [of j p i] j len snoc.prems(1) d by (simp add: inner_done_def)
    moreover have "\<forall>l \<in> set (js @ [j]). key (?q ! l) \<le> key (?q ! i)"
      using d q True j snoc.prems(2) unfolding inner_done_def by (fastforce simp: nth_list_update)
    moreover have "\<forall>k \<in> insert i (set (js @ [j])). \<exists>l \<in> insert i (set (js @ [j])). ?q ! k = xs ! l"
    proof
      fix k
      assume "k \<in> insert i (set (js @ [j]))"
      then consider "k = i" | "k = j" | "k \<in> set js" "k \<noteq> i" "k \<noteq> j" using j by auto
      then show "\<exists>l \<in> insert i (set (js @ [j])). ?q ! k = xs ! l"
      proof cases
        case 1
        with q(1) j(4) show ?thesis by auto
      next
        case 2
        with q(2) from_p [of i] show ?thesis by auto
      next
        case 3
        with q(3) [of k] from_p [of k] show ?thesis by auto
      qed
    qed
    ultimately show ?thesis
      using d q True e unfolding inner_done_def by (auto simp: xstep_def)
  next
    case False
    then have "xstep key i j p = p" by (simp add: xstep_def)
    with d e False j show ?thesis
      unfolding inner_done_def by (auto simp: not_less)
  qed
qed

text \<open>The outer loop: the first \<open>i\<close> positions hold the best entries, best first.\<close>

definition ranked :: "(nat \<Rightarrow> int) \<Rightarrow> nat \<Rightarrow> nat list \<Rightarrow> bool" where
  "ranked key i xs \<longleftrightarrow> (\<forall>a b. a < i \<and> a < b \<and> b < length xs \<longrightarrow> key (xs ! b) \<le> key (xs ! a))"

lemma xinner_ranked:
  assumes "ranked key i xs" "i < length xs"
  shows "ranked key (Suc i) (xinner key i [i + 1..<length xs] xs)"
proof -
  let ?js = "[i + 1..<length xs]" and ?ys = "xinner key i [i + 1..<length xs] xs"
  have d: "inner_done key i ?js xs ?ys" by (rule xinner_done) (use assms in auto)
  then have len: "length ?ys = length xs" by (metis inner_done_def size_mset)
  have low: "?ys ! a = xs ! a" if "a < i" for a using d that by (simp add: inner_done_def)
  have high: "\<exists>l. i \<le> l \<and> l < length xs \<and> ?ys ! b = xs ! l" if "i \<le> b" "b < length xs" for b
  proof -
    have "b \<in> insert i (set ?js)" using that by auto
    then obtain l where "l \<in> insert i (set ?js)" "?ys ! b = xs ! l"
      using d unfolding inner_done_def by blast
    with assms(2) show ?thesis by (intro exI [of _ l]) auto
  qed
  have "key (?ys ! b) \<le> key (?ys ! a)" if ab: "a < Suc i" "a < b" "b < length xs" for a b
  proof (cases "a = i")
    case True
    with ab d show ?thesis by (simp add: inner_done_def)
  next
    case False
    then have a: "a < i" using ab by simp
    show ?thesis
    proof (cases "b < i")
      case True
      with ab assms(1) low [OF a] low [of b] show ?thesis by (simp add: ranked_def)
    next
      case False
      with high [of b] ab obtain l where "i \<le> l" "l < length xs" "?ys ! b = xs ! l" by auto
      with a assms(1) low [OF a] show ?thesis by (simp add: ranked_def)
    qed
  qed
  then show ?thesis unfolding ranked_def len by blast
qed

lemma xouter_ranked:
  "i \<le> length xs - 1 \<Longrightarrow> ranked key i (xouter key (length xs) [0..<i] xs) \<and>
     mset (xouter key (length xs) [0..<i] xs) = mset xs"
proof (induction i)
  case 0
  then show ?case by (simp add: ranked_def xouter_def)
next
  case (Suc i)
  define ys where "ys = xouter key (length xs) [0..<i] xs"
  have ys: "ranked key i ys" "mset ys = mset xs" using Suc by (simp_all add: ys_def)
  then have len: "length ys = length xs" by (metis size_mset)
  have "xouter key (length xs) [0..<Suc i] xs = xinner key i [i + 1..<length ys] ys"
    unfolding len by (simp add: xouter_def ys_def)
  moreover have "i < length ys" using Suc.prems len by simp
  moreover have "mset (xinner key i [i + 1..<length ys] ys) = mset ys"
    using xinner_done [of i ys "[i + 1..<length ys]" key] \<open>i < length ys\<close>
    by (auto simp: inner_done_def)
  ultimately show ?case
    using xinner_ranked [OF ys(1)] ys(2) by simp
qed

lemma ranked_all: "ranked key (length xs - 1) xs \<Longrightarrow> a < b \<Longrightarrow> b < length xs \<Longrightarrow> key (xs ! b) \<le> key (xs ! a)"
  by (auto simp: ranked_def)

section \<open>Lookup\<close>

text \<open>A clock that stands still during the lookup, and directories that stay what they are.\<close>

definition steady :: "environment \<Rightarrow> int \<Rightarrow> (string \<Rightarrow> bool) \<Rightarrow> bool" where
  "steady os now isdir \<longleftrightarrow> (\<forall>h. rv (os h Time) = now) \<and>
     (\<forall>h p. (rv (os h (Stat p)) = 0 \<and> risdir (os h (Stat p))) = isdir p)"

lemma db_off_table [simp]: "off_table (\<lambda>s. db s = d)" "ignores (\<lambda>s. db s = d) c"
  by (simp_all add: off_table_def flag_free_def ignores_def)

lemma db_sys: "db s = d \<Longrightarrow> wp (sys os c) (\<lambda>_ s'. db s' = d) s"
  by (rule keepsD [OF off_table_sys]) simp_all

lemma sys_result: "db s = d \<Longrightarrow> (\<And>h. P (os h c)) \<Longrightarrow> wp (sys os c) (\<lambda>r s'. P r \<and> db s' = d) s"
  by (intro wp_yields yields_sys db_sys)

lemma score_steady:
  assumes "steady os now isdir" "db s = d"
  shows "wp (score os i) (\<lambda>x s'. x = score_at now (d ! i) \<and> db s' = d) s"
  unfolding score_def
  using assms
  by (intro wp_bindI [OF sys_result [where P = "\<lambda>r. rv r = now"]])
    (auto simp: wp_rules steady_def)

lemma sort_inner_steady:
  assumes "steady os now isdir" "db s = d"
  shows "wp (sort_inner os i js xs) (\<lambda>ys s'. ys = xinner (\<lambda>k. score_at now (d ! k)) i js xs \<and> db s' = d) s"
  using assms(2)
proof (induction js arbitrary: xs s)
  case (Cons j js)
  let ?key = "\<lambda>k. score_at now (d ! k)"
  have "wp (sort_step os i j xs) (\<lambda>ys s'. ys = xstep ?key i j xs \<and> db s' = d) s"
    unfolding sort_step_def
    by (intro wp_bindI [OF score_steady [OF assms(1) Cons.prems]] wp_bindI [OF score_steady [OF assms(1)]])
      (auto simp: wp_return xstep_def)
  then show ?case
    unfolding sort_inner.simps
    by (rule wp_bindI) (use Cons.IH in \<open>auto simp: xinner_def\<close>)
qed (simp add: wp_return xinner_def)

lemma sort_outer_steady:
  assumes "steady os now isdir" "db s = d"
  shows "wp (sort_outer os n is xs) (\<lambda>ys s'. ys = xouter (\<lambda>k. score_at now (d ! k)) n is xs \<and> db s' = d) s"
  using assms(2)
proof (induction "is" arbitrary: xs s)
  case (Cons i "is")
  show ?case
    unfolding sort_outer.simps
    by (rule wp_bindI [OF sort_inner_steady [OF assms(1) Cons.prems]])
      (use Cons.IH in \<open>auto simp: xouter_def\<close>)
qed (simp add: wp_return xouter_def)

lemma match_loop_steady:
  assumes "steady os now isdir" "db s = d"
  shows "wp (match_loop os name is) (\<lambda>r s'. r = map_option (\<lambda>k. path (d ! k))
           (List.find (\<lambda>k. has_sub (path (d ! k)) name \<and> isdir (path (d ! k))) is) \<and> db s' = d) s"
  using assms(2)
proof (induction "is" arbitrary: s)
  case (Cons k "is")
  have "wp (is_dir os p) (\<lambda>b s'. b = isdir p \<and> db s' = d) s" for p
    unfolding is_dir_def
    using assms(1) Cons.prems
    by (intro wp_bindI [OF sys_result [where P = "\<lambda>r. (rv r = 0 \<and> risdir r) = isdir p"]])
      (auto simp: wp_return steady_def)
  then have l: "wp (do { b \<leftarrow> is_dir os p; if b then done_with (Some p) else match_loop os name is })
      (\<lambda>r s'. r = (if isdir p then Some p else map_option (\<lambda>k. path (d ! k))
           (List.find (\<lambda>k. has_sub (path (d ! k)) name \<and> isdir (path (d ! k))) is)) \<and> db s' = d) s" for p
    by (rule wp_bindI) (use Cons.IH in \<open>auto simp: wp_return\<close>)
  show ?case
    using l [of "path (d ! k)"] Cons.IH [OF Cons.prems] Cons.prems
    by (cases "has_sub (path (d ! k)) name"; cases "isdir (path (d ! k))")
      (simp_all add: wp_bind wp_State)
qed (simp add: wp_return)

text \<open>Lookup, put together: the first matching directory of a table ranked by score.\<close>

lemma lookup_steady:
  assumes "steady os now isdir" "db s = d"
  shows "\<exists>order. set order = {..<length d} \<and>
     (\<forall>a b. a < b \<and> b < length order \<longrightarrow>
        score_at now (d ! (order ! b)) \<le> score_at now (d ! (order ! a))) \<and>
     wp (frecency_lookup os name) (\<lambda>r _. r = map_option (\<lambda>k. path (d ! k))
           (List.find (\<lambda>k. has_sub (path (d ! k)) name \<and> isdir (path (d ! k))) order)) s"
proof -
  let ?n = "length d" and ?key = "\<lambda>k. score_at now (d ! k)"
  define order where "order = xouter ?key ?n [0..<?n - 1] [0..<?n]"
  have "ranked ?key (?n - 1) order" and m: "mset order = mset [0..<?n]"
    using xouter_ranked [of "?n - 1" "[0..<?n]" ?key] by (simp_all add: order_def)
  moreover have "length order = ?n" using m by (metis size_mset length_upt diff_zero)
  ultimately have r: "\<forall>a b. a < b \<and> b < length order \<longrightarrow> ?key (order ! b) \<le> ?key (order ! a)"
    using ranked_all [of ?key order] by simp
  have "set order = {..<?n}" using m by (metis set_mset_mset set_upt atLeast0LessThan)
  moreover have "wp (frecency_lookup os name) (\<lambda>r _. r = map_option (\<lambda>k. path (d ! k))
           (List.find (\<lambda>k. has_sub (path (d ! k)) name \<and> isdir (path (d ! k))) order)) s"
    unfolding frecency_lookup_def
    by (subst wp_bind, subst wp_State, simp only: prod.case assms(2))
      (rule wp_bindI [OF sort_outer_steady [OF assms]],
       rule wp_mono [OF match_loop_steady [OF assms(1)]], auto simp: order_def)
  ultimately show ?thesis using r by blast
qed

section \<open>Visits\<close>

definition new_visit :: "string \<Rightarrow> int \<Rightarrow> frecency_entry_t" where
  "new_visit p now = \<lparr>path = bounded_copy PATH_MAX p, frequency = 1, last_access = now\<rparr>"

text \<open>The table after a visit to \<open>p\<close> at time \<open>now\<close>.\<close>

definition visited :: "int \<Rightarrow> string \<Rightarrow> frecency_entry_t list \<Rightarrow> frecency_entry_t list \<Rightarrow> bool" where
  "visited now p d d' \<longleftrightarrow>
     (if p \<in> path ` set d then
        (\<exists>i < length d. path (d ! i) = p \<and>
           d' = d[i := (d ! i)\<lparr>frequency := frequency (d ! i) + 1, last_access := now\<rparr>])
      else if length d < MAX_ENTRIES then d' = d @ [new_visit p now]
      else (\<exists>m < length d. (\<forall>k < length d. score_at now (d ! m) \<le> score_at now (d ! k)) \<and>
              d' = d[m := new_visit p now]))"

lemma min_loop_steady:
  assumes "steady os now isdir" "db s = d" "set is \<subseteq> {..<length d}" "m < length d"
    "sc = score_at now (d ! m)"
  shows "wp (min_loop os is m sc) (\<lambda>m' s'. m' < length d \<and> score_at now (d ! m') \<le> score_at now (d ! m) \<and>
           (\<forall>k \<in> set is. score_at now (d ! m') \<le> score_at now (d ! k)) \<and> db s' = d) s"
  using assms(2-5)
proof (induction "is" arbitrary: m sc s)
  case (Cons i "is")
  show ?case
    unfolding min_loop.simps
  proof (rule wp_bindI [OF score_steady [OF assms(1) Cons.prems(1)]])
    fix x and s1 :: shell
    assume x: "x = score_at now (d ! i) \<and> db s1 = d"
    show "wp (if x < sc then min_loop os is i x else min_loop os is m sc)
       (\<lambda>m' s'. m' < length d \<and> score_at now (d ! m') \<le> score_at now (d ! m) \<and>
           (\<forall>k \<in> set (i # is). score_at now (d ! m') \<le> score_at now (d ! k)) \<and> db s' = d) s1"
    proof (cases "x < sc")
      case True
      have "wp (min_loop os is i x) (\<lambda>m' s'. m' < length d \<and> score_at now (d ! m') \<le> score_at now (d ! i) \<and>
           (\<forall>k \<in> set is. score_at now (d ! m') \<le> score_at now (d ! k)) \<and> db s' = d) s1"
        using Cons.IH [of s1 i x] Cons.prems x by simp
      then show ?thesis
        using True x Cons.prems(4) by simp (erule wp_mono, auto)
    next
      case False
      have "wp (min_loop os is m sc) (\<lambda>m' s'. m' < length d \<and> score_at now (d ! m') \<le> score_at now (d ! m) \<and>
           (\<forall>k \<in> set is. score_at now (d ! m') \<le> score_at now (d ! k)) \<and> db s' = d) s1"
        using Cons.IH [of s1 m sc] Cons.prems x by simp
      then show ?thesis
        using False x Cons.prems(4) by simp (erule wp_mono, auto)
    qed
  qed
qed (simp add: wp_return)

text \<open>The last call of a visit writes the table to the history file.\<close>

definition saved :: "shell \<Rightarrow> bool" where
  "saved s \<longleftrightarrow> hist s \<noteq> [] \<and>
     (\<exists>r. last (hist s) = (Write_file (history_path s) (concat (map history_line (db s))), r))"

lemma save_history_saved:
  "wp (save_history os) (\<lambda>_ s'. saved s' \<and> db s' = db s \<and> history_path s' = history_path s) s"
proof -
  let ?I = "\<lambda>s'. db s' = db s \<and> history_path s' = history_path s"
  have "off_table ?I" by (simp add: off_table_def flag_free_def ignores_def)
  then have "keeps ?I (do { e \<leftarrow> raw_sys os Deliver; for_each (rsigs e) (handle_signal os) })"
    by (intro keeps_rules keeps_handle_signal off_table_handler off_table_poll)
      (simp_all only: off_table_def, simp_all add: polling_def)
  then have "wp (sys os (Write_file (history_path s) (concat (map history_line (db s)))))
      (\<lambda>_ s'. saved s' \<and> db s' = db s \<and> history_path s' = history_path s) s"
    unfolding sys_def bind_assoc [symmetric]
    by (rule wp_bindI [OF keepsD]) (simp_all add: wp_raw_sys saved_def)
  then show ?thesis
    unfolding save_history_def
    by (simp only: wp_bind wp_State prod.case) (erule wp_mono, simp add: wp_return)
qed

lemma time_steady:
  "steady os now isdir \<Longrightarrow> db s = d \<Longrightarrow> wp (sys os Time) (\<lambda>r s'. rv r = now \<and> db s' = d) s"
  by (rule sys_result) (simp_all add: steady_def)

lemma find_index_None: "List.find (\<lambda>i. P (d ! i)) [0..<length d] = None \<longleftrightarrow> (\<forall>e \<in> set d. \<not> P e)"
  by (auto simp: find_None_iff all_set_conv_all_nth)

lemma then_save:
  assumes "wp m (\<lambda>_ s'. Q (db s')) s"
  shows "wp (do { m; save_history os }) (\<lambda>_ s'. Q (db s') \<and> saved s') s"
proof (rule wp_bindI [OF assms])
  fix x and s1 :: shell
  assume "Q (db s1)"
  then show "wp (save_history os) (\<lambda>_ s'. Q (db s') \<and> saved s') s1"
    by (intro wp_mono [OF save_history_saved]) simp
qed

lemma update_known:
  assumes "steady os now isdir" "db s = d" "i < length d" "path (d ! i) = p"
  shows "wp (do { r \<leftarrow> sys os Time;
                  set_entry i ((d ! i)\<lparr>frequency := frequency (d ! i) + 1, last_access := rv r\<rparr>) })
           (\<lambda>_ s'. visited now p d (db s')) s"
  using assms
  by (intro wp_bindI [OF time_steady]) (force simp: set_entry_def wp_rules visited_def)+

lemma update_new:
  assumes "steady os now isdir" "db s = d" "p \<notin> path ` set d" "length d < MAX_ENTRIES"
  shows "wp (do { r \<leftarrow> sys os Time;
                  modify (\<lambda>s. s\<lparr>db := db s @ [\<lparr>path = bounded_copy PATH_MAX p, frequency = 1,
                                           last_access = rv r\<rparr>]\<rparr>) })
           (\<lambda>_ s'. visited now p d (db s')) s"
  using assms
  by (intro wp_bindI [OF time_steady]) (auto simp: wp_rules visited_def new_visit_def)

lemma update_evict:
  assumes st: "steady os now isdir" and d: "db s = d" and p: "p \<notin> path ` set d"
    and full: "\<not> length d < MAX_ENTRIES"
  shows "wp (do { sc \<leftarrow> score os 0; min_idx \<leftarrow> min_loop os [1..<length d] 0 sc; r \<leftarrow> sys os Time;
             set_entry min_idx \<lparr>path = bounded_copy PATH_MAX p, frequency = 1, last_access = rv r\<rparr> })
           (\<lambda>_ s'. visited now p d (db s')) s"
proof (rule wp_bindI [OF score_steady [OF st d]])
  fix sc and s1 :: shell
  assume s1: "sc = score_at now (d ! 0) \<and> db s1 = d"
  have n: "0 < length d" using full by (cases d) (simp_all add: MAX_ENTRIES_def)
  show "wp (do { min_idx \<leftarrow> min_loop os [1..<length d] 0 sc; r \<leftarrow> sys os Time;
             set_entry min_idx \<lparr>path = bounded_copy PATH_MAX p, frequency = 1, last_access = rv r\<rparr> })
           (\<lambda>_ s'. visited now p d (db s')) s1"
  proof (rule wp_bindI [OF min_loop_steady [OF st]])
    show "db s1 = d" "sc = score_at now (d ! 0)" "0 < length d" "set [1..<length d] \<subseteq> {..<length d}"
      using s1 n by auto
  next
    fix m and s2 :: shell
    assume m: "m < length d \<and> score_at now (d ! m) \<le> score_at now (d ! 0) \<and>
      (\<forall>k \<in> set [1..<length d]. score_at now (d ! m) \<le> score_at now (d ! k)) \<and> db s2 = d"
    have "score_at now (d ! m) \<le> score_at now (d ! k)" if "k < length d" for k
      using m that by (cases k) auto
    with m full p have "visited now p d (d[m := new_visit p now])" by (auto simp: visited_def)
    then show "wp (do { r \<leftarrow> sys os Time;
             set_entry m \<lparr>path = bounded_copy PATH_MAX p, frequency = 1, last_access = rv r\<rparr> })
           (\<lambda>_ s'. visited now p d (db s')) s2"
      using m by (intro wp_bindI [OF time_steady [OF st]])
        (auto simp: set_entry_def wp_rules new_visit_def)
  qed
qed

section \<open>Properties\<close>


definition sample_history :: "frecency_entry_t list" where
  "sample_history = [\<lparr>path = ''/home/a'', frequency = 3, last_access = 1700000000\<rparr>,
                     \<lparr>path = ''/tmp'', frequency = 1, last_access = 5\<rparr>]"



text \<open>The sample table in a shell whose clock stands at 1700000100 and where every path is a directory.\<close>

definition all_dirs :: environment where
  "all_dirs h c = \<lparr>rv = (if c = Time then 1700000100 else 0), rerrno = EINTR, rstatus = Exited 0,
     rtext = None, rkind = DIR, rnames = [], rnum = 0, rsigs = []\<rparr>"

lemma steady_all_dirs: "steady all_dirs 1700000100 (\<lambda>_. True)"
  by (simp add: steady_def all_dirs_def)




end
