(* ===== verification/Sleeplock.thy ===== *)
theory Sleeplock
  imports Prelude "HOL-Library.Monad_Syntax"
begin

text \<open>
  Sleep locks (\<^verbatim>\<open>xv6/kernel/sleeplock.c\<close>). The operations run on behalf of a process whose
  number is an argument. \<open>acquiresleep\<close> gives \<open>None\<close> where the code goes to sleep: without a
  step of another process it does not return.
\<close>

record sleeplock =
  locked :: bool
  holder :: nat

definition initsleeplock :: sleeplock where
  "initsleeplock = \<lparr>locked = False, holder = 0\<rparr>"

definition acquiresleep :: "nat \<Rightarrow> sleeplock \<Rightarrow> sleeplock option" where
  "acquiresleep pid lk = (if locked lk then None else Some \<lparr>locked = True, holder = pid\<rparr>)"

definition releasesleep :: "sleeplock \<Rightarrow> sleeplock" where
  "releasesleep lk = \<lparr>locked = False, holder = 0\<rparr>"

definition holdingsleep :: "nat \<Rightarrow> sleeplock \<Rightarrow> bool" where
  "holdingsleep pid lk \<longleftrightarrow> locked lk \<and> holder lk = pid"

lemma acquire_holding: "acquiresleep pid lk = Some lk' \<Longrightarrow> holdingsleep pid lk' \<and> \<not> locked lk"
  by (auto simp: acquiresleep_def holdingsleep_def split: if_splits)

end
