(* ===== verification/Bio.thy ===== *)
theory Bio
  imports Sleeplock "HOL-Library.Word"
begin

text \<open>
  The buffer cache (\<^verbatim>\<open>xv6/kernel/bio.c\<close>). A buffer is a slot of an array; the circular list
  through \<^verbatim>\<open>bcache.head\<close> is the list \<open>lru\<close> of the slots, the most recently released first.
  The disk is a map from block numbers to blocks, and \<^verbatim>\<open>virtio_disk_rw\<close> transfers one
  block; \<open>writes\<close> records the blocks written, in order. An operation that panics, or that
  waits for a sleep lock, is \<open>None\<close>.
\<close>

section \<open>State\<close>

text \<open>A block of \<^verbatim>\<open>BSIZE\<close> bytes, as 32-bit words.\<close>

type_synonym block = "32 word list"

definition BSIZE :: nat where "BSIZE = 1024"
definition NBUF :: nat where "NBUF = 30"
definition ROOTDEV :: nat where "ROOTDEV = 1"

record buf =
  valid :: bool
  dev :: nat
  blockno :: nat
  lock :: sleeplock
  refcnt :: nat
  data :: block

record bst =
  me :: nat
  bufs :: "buf list"
  lru :: "nat list"
  disk :: "nat \<Rightarrow> block"
  writes :: "(nat \<times> block) list"

definition buf_at :: "('a bst_scheme) \<Rightarrow> nat \<Rightarrow> buf" where
  "buf_at s i = bufs s ! i"

definition set_buf :: "nat \<Rightarrow> buf \<Rightarrow> 'a bst_scheme \<Rightarrow> 'a bst_scheme" where
  "set_buf i b s = s\<lparr>bufs := (bufs s)[i := b]\<rparr>"

section \<open>Operations\<close>

definition zero_block :: block where
  "zero_block = replicate (BSIZE div 4) 0"

definition zero_buf :: buf where
  "zero_buf = \<lparr>valid = False, dev = 0, blockno = 0, lock = initsleeplock, refcnt = 0, data = zero_block\<rparr>"

text \<open>\<^verbatim>\<open>binit\<close> puts every buffer in front of the list, so the last one comes first.\<close>

definition binit :: "'a bst_scheme \<Rightarrow> 'a bst_scheme" where
  "binit s = s\<lparr>bufs := replicate NBUF zero_buf, lru := fold (\<lambda>i l. i # l) [0..<NBUF] []\<rparr>"

definition lock_buf :: "nat \<Rightarrow> 'a bst_scheme \<Rightarrow> (nat \<times> 'a bst_scheme) option" where
  "lock_buf i s = do {
     lk \<leftarrow> acquiresleep (me s) (lock (buf_at s i));
     Some (i, set_buf i ((buf_at s i)\<lparr>lock := lk\<rparr>) s)
   }"

definition bget :: "nat \<Rightarrow> nat \<Rightarrow> 'a bst_scheme \<Rightarrow> (nat \<times> 'a bst_scheme) option" where
  "bget d bno s =
     (case List.find (\<lambda>i. dev (buf_at s i) = d \<and> blockno (buf_at s i) = bno) (lru s) of
        Some i \<Rightarrow> lock_buf i (set_buf i ((buf_at s i)\<lparr>refcnt := refcnt (buf_at s i) + 1\<rparr>) s)
      | None \<Rightarrow>
          (case List.find (\<lambda>i. refcnt (buf_at s i) = 0) (rev (lru s)) of
             Some i \<Rightarrow> lock_buf i (set_buf i ((buf_at s i)\<lparr>dev := d, blockno := bno, valid := False,
                                                            refcnt := 1\<rparr>) s)
           | None \<Rightarrow> None))"

definition virtio_disk_rw :: "nat \<Rightarrow> bool \<Rightarrow> 'a bst_scheme \<Rightarrow> 'a bst_scheme" where
  "virtio_disk_rw i write s =
     (let b = buf_at s i in
      if write then s\<lparr>disk := (disk s)(blockno b := data b), writes := writes s @ [(blockno b, data b)]\<rparr>
      else set_buf i (b\<lparr>data := disk s (blockno b)\<rparr>) s)"

definition bread :: "nat \<Rightarrow> nat \<Rightarrow> 'a bst_scheme \<Rightarrow> (nat \<times> 'a bst_scheme) option" where
  "bread d bno s = do {
     (i, s) \<leftarrow> bget d bno s;
     if \<not> valid (buf_at s i) then
       (let s = virtio_disk_rw i False s in Some (i, set_buf i ((buf_at s i)\<lparr>valid := True\<rparr>) s))
     else Some (i, s)
   }"

definition bwrite :: "nat \<Rightarrow> 'a bst_scheme \<Rightarrow> 'a bst_scheme option" where
  "bwrite i s = (if holdingsleep (me s) (lock (buf_at s i)) then Some (virtio_disk_rw i True s) else None)"

definition brelse :: "nat \<Rightarrow> 'a bst_scheme \<Rightarrow> 'a bst_scheme option" where
  "brelse i s =
     (if \<not> holdingsleep (me s) (lock (buf_at s i)) then None
      else
        (let b = buf_at s i;
             s = set_buf i (b\<lparr>lock := releasesleep (lock b), refcnt := refcnt b - 1\<rparr>) s in
         Some (if refcnt b - 1 = 0 then s\<lparr>lru := i # filter (\<lambda>k. k \<noteq> i) (lru s)\<rparr> else s)))"

definition bpin :: "nat \<Rightarrow> 'a bst_scheme \<Rightarrow> 'a bst_scheme" where
  "bpin i s = set_buf i ((buf_at s i)\<lparr>refcnt := refcnt (buf_at s i) + 1\<rparr>) s"

definition bunpin :: "nat \<Rightarrow> 'a bst_scheme \<Rightarrow> 'a bst_scheme" where
  "bunpin i s = set_buf i ((buf_at s i)\<lparr>refcnt := refcnt (buf_at s i) - 1\<rparr>) s"

text \<open>A holder of a buffer changes its data.\<close>

definition set_data :: "nat \<Rightarrow> block \<Rightarrow> 'a bst_scheme \<Rightarrow> 'a bst_scheme" where
  "set_data i d s = set_buf i ((buf_at s i)\<lparr>data := d\<rparr>) s"

section \<open>The invariant of the cache\<close>

text \<open>
  The list holds every buffer once; no block of the root device is in two buffers; a
  valid buffer holds a block of that device; a buffer nobody uses is unlocked and, if valid, agrees with the disk.
\<close>

definition cached :: "'a bst_scheme \<Rightarrow> nat \<Rightarrow> nat \<Rightarrow> bool" where
  "cached s bno i \<longleftrightarrow> i < NBUF \<and> dev (buf_at s i) = ROOTDEV \<and> blockno (buf_at s i) = bno"

definition binv :: "'a bst_scheme \<Rightarrow> bool" where
  "binv s \<longleftrightarrow> length (bufs s) = NBUF \<and> distinct (lru s) \<and> set (lru s) = {..<NBUF} \<and>
     (\<forall>bno i j. cached s bno i \<and> cached s bno j \<longrightarrow> i = j) \<and>
     (\<forall>i < NBUF. valid (buf_at s i) \<longrightarrow> dev (buf_at s i) = ROOTDEV) \<and>
     (\<forall>i < NBUF. refcnt (buf_at s i) = 0 \<longrightarrow> \<not> locked (lock (buf_at s i)) \<and>
        (valid (buf_at s i) \<longrightarrow> data (buf_at s i) = disk s (blockno (buf_at s i))))"

text \<open>What a reader of block \<open>bno\<close> gets: the buffer's data if there is a valid one, else the disk's.\<close>

definition content :: "'a bst_scheme \<Rightarrow> nat \<Rightarrow> block" where
  "content s bno =
     (case List.find (\<lambda>i. cached s bno i \<and> valid (buf_at s i)) [0..<NBUF] of
        None \<Rightarrow> disk s bno | Some i \<Rightarrow> data (buf_at s i))"

lemma find_SomeD: "List.find P xs = Some x \<Longrightarrow> P x \<and> x \<in> set xs"
  by (auto simp: find_Some_iff)

lemma buf_at_set_buf:
  "i < length (bufs s) \<Longrightarrow> buf_at (set_buf i b s) k = (if k = i then b else buf_at s k)"
  by (simp add: buf_at_def set_buf_def nth_list_update)

lemma set_buf_simps [simp]:
  "lru (set_buf i b s) = lru s" "disk (set_buf i b s) = disk s" "me (set_buf i b s) = me s"
  "writes (set_buf i b s) = writes s" "length (bufs (set_buf i b s)) = length (bufs s)"
  by (simp_all add: set_buf_def)

lemma cached_unique: "binv s \<Longrightarrow> cached s bno i \<Longrightarrow> cached s bno j \<Longrightarrow> i = j"
  by (simp add: binv_def)

lemma lru_set: "binv s \<Longrightarrow> set (lru s) = {..<NBUF}"
  by (simp add: binv_def)

lemma content_cached:
  assumes "binv s" "cached s bno i" "valid (buf_at s i)"
  shows "content s bno = data (buf_at s i)"
proof (cases "List.find (\<lambda>i. cached s bno i \<and> valid (buf_at s i)) [0..<NBUF]")
  case None
  with assms(2,3) show ?thesis by (auto simp: find_None_iff cached_def)
next
  case (Some j)
  then have "cached s bno j" using find_SomeD [OF Some] by blast
  then have "j = i" using cached_unique [OF assms(1)] assms(2) by blast
  with Some show ?thesis by (simp add: content_def)
qed

lemma content_uncached:
  assumes "\<And>i. cached s bno i \<Longrightarrow> \<not> valid (buf_at s i)"
  shows "content s bno = disk s bno"
proof -
  have "List.find (\<lambda>i. cached s bno i \<and> valid (buf_at s i)) [0..<NBUF] = None"
    using assms by (auto simp: find_None_iff)
  then show ?thesis by (simp add: content_def)
qed

text \<open>The content of a block depends only on the buffers that hold it and on the disk.\<close>

lemma content_cong:
  assumes "\<And>i. (cached s' bno i \<and> valid (buf_at s' i)) = (cached s bno i \<and> valid (buf_at s i))"
    and "\<And>i. cached s bno i \<Longrightarrow> valid (buf_at s i) \<Longrightarrow> data (buf_at s' i) = data (buf_at s i)"
    and "disk s' bno = disk s bno"
  shows "content s' bno = content s bno"
proof -
  let ?f = "List.find (\<lambda>i. cached s bno i \<and> valid (buf_at s i)) [0..<NBUF]"
  have "content s' bno = (case ?f of None \<Rightarrow> disk s' bno | Some i \<Rightarrow> data (buf_at s' i))"
    by (simp add: content_def assms(1))
  also have "\<dots> = content s bno"
    using assms(2,3) by (cases ?f) (auto simp: content_def dest!: find_SomeD)
  finally show ?thesis .
qed

section \<open>Reading a block\<close>

text \<open>
  A read succeeds when the block is cached in an unlocked buffer, or not cached and some
  buffer is unused.
\<close>

definition can_read :: "nat \<Rightarrow> 'a bst_scheme \<Rightarrow> bool" where
  "can_read bno s \<longleftrightarrow>
     (if \<exists>i. cached s bno i then \<exists>i. cached s bno i \<and> \<not> locked (lock (buf_at s i))
      else \<exists>i < NBUF. refcnt (buf_at s i) = 0)"

text \<open>
  The outcome: buffer \<open>i\<close> is locked by the caller, valid and holds the block; its count is
  one more than before (than 0, when it was recycled); nothing else has changed, nor has the
  content of any block.
\<close>

definition read_ok :: "nat \<Rightarrow> 'a bst_scheme \<Rightarrow> nat \<Rightarrow> 'a bst_scheme \<Rightarrow> bool" where
  "read_ok bno s i s' \<longleftrightarrow> cached s' bno i \<and> valid (buf_at s' i) \<and> data (buf_at s' i) = content s bno \<and>
     lock (buf_at s' i) = \<lparr>locked = True, holder = me s\<rparr> \<and>
     refcnt (buf_at s' i) = (if cached s bno i then refcnt (buf_at s i) + 1 else 1) \<and>
     (cached s bno i \<or> refcnt (buf_at s i) = 0) \<and>
     (\<forall>k. k \<noteq> i \<longrightarrow> buf_at s' k = buf_at s k) \<and>
     lru s' = lru s \<and> disk s' = disk s \<and> writes s' = writes s \<and> me s' = me s \<and>
     content s' = content s \<and> binv s'"

lemma find_root:
  assumes "binv s"
  shows "List.find (\<lambda>i. dev (buf_at s i) = ROOTDEV \<and> blockno (buf_at s i) = bno) (lru s) =
     (if \<exists>i. cached s bno i then Some (THE i. cached s bno i) else None)"
proof (cases "\<exists>i. cached s bno i")
  case True
  then obtain i where i: "cached s bno i" by blast
  have "(THE j. cached s bno j) = i" using i cached_unique [OF assms] by blast
  moreover have "List.find (\<lambda>i. dev (buf_at s i) = ROOTDEV \<and> blockno (buf_at s i) = bno) (lru s) = Some i"
  proof (cases "List.find (\<lambda>i. dev (buf_at s i) = ROOTDEV \<and> blockno (buf_at s i) = bno) (lru s)")
    case None
    with i lru_set [OF assms] show ?thesis by (auto simp: find_None_iff cached_def)
  next
    case (Some j)
    then have "cached s bno j"
      using find_SomeD [OF Some] lru_set [OF assms] by (simp add: cached_def)
    with Some show ?thesis using cached_unique [OF assms i] by simp
  qed
  ultimately show ?thesis using True by simp
next
  case False
  then show ?thesis using lru_set [OF assms] by (auto simp: find_None_iff cached_def)
qed

lemma set_buf_set_buf [simp]: "set_buf i b' (set_buf i b s) = set_buf i b' s"
  by (simp add: set_buf_def)

lemma binv_len: "binv s \<Longrightarrow> length (bufs s) = NBUF"
  by (simp add: binv_def)

lemma binv_valid: "binv s \<Longrightarrow> i < NBUF \<Longrightarrow> valid (buf_at s i) \<Longrightarrow> dev (buf_at s i) = ROOTDEV"
  unfolding binv_def by blast

lemma binv_free:
  "binv s \<Longrightarrow> i < NBUF \<Longrightarrow> refcnt (buf_at s i) = 0 \<Longrightarrow> \<not> locked (lock (buf_at s i)) \<and>
     (valid (buf_at s i) \<longrightarrow> data (buf_at s i) = disk s (blockno (buf_at s i)))"
  by (simp add: binv_def)

text \<open>
  Replacing a buffer by one that holds block \<open>bno\<close>, where the buffer held \<open>bno\<close> before or
  was unused: the other blocks keep their content.
\<close>

lemma cached_set_buf:
  assumes "binv s" "i < NBUF" "dev b = ROOTDEV" "blockno b = bno"
    "cached s bno i \<or> (\<forall>k. \<not> cached s bno k)"
  shows "cached (set_buf i b s) x k \<longleftrightarrow> (if x = bno then k = i else k \<noteq> i \<and> cached s x k)"
  using assms cached_unique [OF assms(1), of bno i k] binv_len [OF assms(1)]
  by (auto simp: cached_def buf_at_set_buf)

lemma content_set_buf:
  assumes s: "binv s" and i: "i < NBUF" and b: "dev b = ROOTDEV" "blockno b = bno"
    and was: "cached s bno i \<or> (\<forall>k. \<not> cached s bno k) \<and> refcnt (buf_at s i) = 0"
    and x: "x \<noteq> bno"
  shows "content (set_buf i b s) x = content s x"
proof -
  note l = binv_len [OF s]
  have c: "cached (set_buf i b s) x k \<longleftrightarrow> k \<noteq> i \<and> cached s x k" for k
    using cached_set_buf [OF s i b, of x k] was x by auto
  show ?thesis
  proof (cases "cached s x i")
    case True
    then have "refcnt (buf_at s i) = 0" using was x by (auto simp: cached_def)
    note free = binv_free [OF s i this]
    have "blockno (buf_at s i) = x" using True by (simp add: cached_def)
    then have "content s x = disk s x"
    proof (cases "valid (buf_at s i)")
      case valid: True
      then show ?thesis using content_cached [OF s True valid] free \<open>blockno (buf_at s i) = x\<close> by simp
    next
      case False
      then show ?thesis using content_uncached [of s x] cached_unique [OF s True] by blast
    qed
    moreover have "\<not> cached (set_buf i b s) x k" for k
      using c cached_unique [OF s True, of k] by blast
    ultimately show ?thesis using content_uncached [of "set_buf i b s" x] by simp
  next
    case False
    then show ?thesis
      using c l i by (intro content_cong) (auto simp: buf_at_set_buf)
  qed
qed

lemma binv_set_buf:
  assumes s: "binv s" and i: "i < NBUF" and b: "dev b = ROOTDEV" "blockno b = bno" "0 < refcnt b"
    and was: "cached s bno i \<or> (\<forall>k. \<not> cached s bno k)"
  shows "binv (set_buf i b s)"
proof -
  have "k = l" if "cached (set_buf i b s) x k" "cached (set_buf i b s) x l" for x k l
    using that cached_unique [OF s] unfolding cached_set_buf [OF s i b(1,2) was] by (auto split: if_splits)
  then show ?thesis
    using s i b(1,3) unfolding binv_def by (auto simp: buf_at_set_buf)
qed

lemma read_ok_set_buf:
  assumes s: "binv s" and i: "i < NBUF" and b: "dev b = ROOTDEV" "blockno b = bno" "valid b"
    "data b = content s bno" "lock b = \<lparr>locked = True, holder = me s\<rparr>"
    "refcnt b = (if cached s bno i then refcnt (buf_at s i) + 1 else 1)"
    and was: "cached s bno i \<or> (\<forall>k. \<not> cached s bno k) \<and> refcnt (buf_at s i) = 0"
  shows "read_ok bno s i (set_buf i b s)"
proof -
  have "0 < refcnt b" using b(6) by simp
  then have inv: "binv (set_buf i b s)" by (intro binv_set_buf [OF s i b(1,2)]) (use was in blast)+
  have c: "cached (set_buf i b s) bno i" using b i binv_len [OF s] by (simp add: cached_def buf_at_set_buf)
  have "content (set_buf i b s) bno = content s bno"
    using content_cached [OF inv c] b i binv_len [OF s] by (simp add: buf_at_set_buf)
  then have "content (set_buf i b s) = content s"
    using content_set_buf [OF s i b(1,2) was] by fastforce
  with inv c show ?thesis
    using b was i binv_len [OF s] by (auto simp: read_ok_def buf_at_set_buf)
qed

lemma bread_lock:
  assumes "i < NBUF" "length (bufs s) = NBUF" "\<not> locked (lock b)" "blockno b = bno"
  shows "(do { (i, s) \<leftarrow> lock_buf i (set_buf i b s);
     if \<not> valid (buf_at s i) then
       (let s = virtio_disk_rw i False s in Some (i, set_buf i ((buf_at s i)\<lparr>valid := True\<rparr>) s))
     else Some (i, s) }) =
     Some (i, set_buf i (b\<lparr>lock := \<lparr>locked = True, holder = me s\<rparr>, valid := True,
       data := (if valid b then data b else disk s bno)\<rparr>) s)"
  using assms
  by (cases b) (simp add: lock_buf_def acquiresleep_def virtio_disk_rw_def Let_def buf_at_set_buf)

lemma bread_ok:
  assumes s: "binv s" and r: "can_read bno s"
  shows "\<exists>i s'. bread ROOTDEV bno s = Some (i, s') \<and> read_ok bno s i s'"
proof (cases "\<exists>i. cached s bno i")
  case True
  then obtain i where c: "cached s bno i" and l: "\<not> locked (lock (buf_at s i))"
    using r by (auto simp: can_read_def)
  then have i: "i < NBUF" by (simp add: cached_def)
  have t: "(THE i. cached s bno i) = i" using c cached_unique [OF s c] by blast
  let ?b = "(buf_at s i)\<lparr>refcnt := refcnt (buf_at s i) + 1\<rparr>"
  let ?b' = "?b\<lparr>lock := \<lparr>locked = True, holder = me s\<rparr>, valid := True,
       data := (if valid ?b then data ?b else disk s bno)\<rparr>"
  have "bread ROOTDEV bno s = Some (i, set_buf i ?b' s)"
    using bread_lock [of i s ?b bno] i l c binv_len [OF s] True
    by (simp add: bread_def bget_def find_root [OF s] t cached_def)
  moreover have "data ?b' = content s bno"
    using content_cached [OF s c] content_uncached [of s bno] cached_unique [OF s c]
    by (cases "valid (buf_at s i)") (simp_all, metis)
  then have "read_ok bno s i (set_buf i ?b' s)"
    using c by (intro read_ok_set_buf [OF s i]) (simp_all add: cached_def)
  ultimately show ?thesis by blast
next
  case False
  then obtain k where k: "k < NBUF" "refcnt (buf_at s k) = 0" using r by (auto simp: can_read_def)
  obtain i where f: "List.find (\<lambda>i. refcnt (buf_at s i) = 0) (rev (lru s)) = Some i"
    using k lru_set [OF s]
    by (cases "List.find (\<lambda>i. refcnt (buf_at s i) = 0) (rev (lru s))") (auto simp: find_None_iff)
  then have i: "i < NBUF" "refcnt (buf_at s i) = 0" using find_SomeD [OF f] lru_set [OF s] by auto
  let ?b = "(buf_at s i)\<lparr>dev := ROOTDEV, blockno := bno, valid := False, refcnt := 1\<rparr>"
  let ?b' = "?b\<lparr>lock := \<lparr>locked = True, holder = me s\<rparr>, valid := True,
       data := (if valid ?b then data ?b else disk s bno)\<rparr>"
  have "bread ROOTDEV bno s = Some (i, set_buf i ?b' s)"
    using bread_lock [of i s ?b bno] i binv_free [OF s i] binv_len [OF s] False f
    by (simp add: bread_def bget_def find_root [OF s])
  moreover have "data ?b' = content s bno" using content_uncached [of s bno] False by simp
  then have "read_ok bno s i (set_buf i ?b' s)"
    using False i by (intro read_ok_set_buf [OF s i(1)]) simp_all
  ultimately show ?thesis by blast
qed

section \<open>Writing and releasing a block\<close>

text \<open>Buffer \<open>i\<close> holds block \<open>bno\<close>, is valid and locked by the caller.\<close>

definition holds :: "'a bst_scheme \<Rightarrow> nat \<Rightarrow> nat \<Rightarrow> bool" where
  "holds s bno i \<longleftrightarrow> cached s bno i \<and> valid (buf_at s i) \<and> 0 < refcnt (buf_at s i) \<and>
     holdingsleep (me s) (lock (buf_at s i))"

lemma read_ok_holds: "read_ok bno s i s' \<Longrightarrow> holds s' bno i"
  by (simp add: read_ok_def holds_def holdingsleep_def split: if_splits)

lemma bwrite_ok:
  assumes s: "binv s" and h: "holds s bno i"
  shows "\<exists>s'. bwrite i s = Some s' \<and> disk s' = (disk s)(bno := content s bno) \<and>
     writes s' = writes s @ [(bno, content s bno)] \<and> bufs s' = bufs s \<and> lru s' = lru s \<and> me s' = me s \<and>
     content s' = content s \<and> binv s'"
proof -
  have c: "cached s bno i" "valid (buf_at s i)" "blockno (buf_at s i) = bno"
    using h by (auto simp: holds_def cached_def)
  note d = content_cached [OF s c(1,2)]
  let ?s = "s\<lparr>disk := (disk s)(bno := data (buf_at s i)), writes := writes s @ [(bno, data (buf_at s i))]\<rparr>"
  have b: "buf_at ?s k = buf_at s k" "cached ?s x k = cached s x k" for x k
    by (simp_all add: buf_at_def cached_def)
  have "data (buf_at s k) = ((disk s)(bno := data (buf_at s i))) (blockno (buf_at s k))"
    if "k < NBUF" "refcnt (buf_at s k) = 0" "valid (buf_at s k)" for k
  proof (cases "blockno (buf_at s k) = bno")
    case True
    then have "cached s bno k" using binv_valid [OF s] that by (simp add: cached_def)
    then have "k = i" using cached_unique [OF s c(1)] by blast
    with True show ?thesis by simp
  qed (use binv_free [OF s] that in simp)
  then have inv: "binv ?s" using s unfolding binv_def by (simp add: b)
  have "content ?s x = content s x" for x
  proof (cases "x = bno")
    case True
    then show ?thesis using content_cached [OF inv, of bno i] c d b by simp
  qed (intro content_cong, simp_all add: b)
  then have "content ?s = content s" by blast
  with inv show ?thesis
    using h c d by (intro exI [of _ ?s]) (simp add: bwrite_def virtio_disk_rw_def Let_def holds_def)
qed

lemma set_data_ok:
  assumes s: "binv s" and h: "holds s bno i"
  shows "binv (set_data i d s)" "content (set_data i d s) = (content s)(bno := d)" "holds (set_data i d s) bno i"
proof -
  have c: "cached s bno i" "i < NBUF" "dev (buf_at s i) = ROOTDEV" "blockno (buf_at s i) = bno"
    using h by (auto simp: holds_def cached_def)
  let ?b = "(buf_at s i)\<lparr>data := d\<rparr>"
  show inv: "binv (set_data i d s)"
    unfolding set_data_def
    by (rule binv_set_buf [OF s c(2) _ _ _ disjI1 [OF c(1)]]) (use h c in \<open>simp_all add: holds_def\<close>)
  show h': "holds (set_data i d s) bno i"
    using h c binv_len [OF s] by (simp add: set_data_def holds_def cached_def buf_at_set_buf)
  have "content (set_data i d s) bno = d"
    using content_cached [OF inv] h' c binv_len [OF s]
    by (auto simp: holds_def set_data_def buf_at_set_buf)
  moreover have "content (set_data i d s) x = content s x" if "x \<noteq> bno" for x
    unfolding set_data_def
    by (rule content_set_buf [OF s c(2) _ _ disjI1 [OF c(1)] that]) (use c in simp_all)
  ultimately show "content (set_data i d s) = (content s)(bno := d)" by auto
qed

lemma brelse_ok:
  assumes s: "binv s" and h: "holds s bno i"
    and clean: "refcnt (buf_at s i) = 1 \<Longrightarrow> data (buf_at s i) = disk s bno"
  shows "\<exists>s'. brelse i s = Some s' \<and> disk s' = disk s \<and> writes s' = writes s \<and> me s' = me s \<and>
     (\<forall>k. buf_at s' k = (if k = i then (buf_at s i)\<lparr>lock := \<lparr>locked = False, holder = 0\<rparr>,
                            refcnt := refcnt (buf_at s i) - 1\<rparr> else buf_at s k)) \<and>
     content s' = content s \<and> binv s'"
proof -
  have c: "cached s bno i" "i < NBUF" "blockno (buf_at s i) = bno" "valid (buf_at s i)"
    using h by (auto simp: holds_def cached_def)
  note l = binv_len [OF s]
  let ?b = "(buf_at s i)\<lparr>lock := \<lparr>locked = False, holder = 0\<rparr>, refcnt := refcnt (buf_at s i) - 1\<rparr>"
  let ?t = "set_buf i ?b s"
  define t where "t = (if refcnt (buf_at s i) - 1 = 0 then ?t\<lparr>lru := i # filter (\<lambda>k. k \<noteq> i) (lru s)\<rparr> else ?t)"
  have at: "buf_at t k = (if k = i then ?b else buf_at s k)" for k
    using c l by (simp add: t_def buf_at_def set_buf_def nth_list_update)
  have ca: "cached t x k = cached s x k" for x k using c by (auto simp: cached_def at)
  have ds: "disk t = disk s" "length (bufs t) = NBUF" "writes t = writes s" "me t = me s"
    using l by (simp_all add: t_def)
  have "distinct (lru t) \<and> set (lru t) = {..<NBUF}"
    using s c by (auto simp: t_def binv_def)
  then have inv: "binv t"
    using s clean c unfolding binv_def ca ds by (auto simp: at)
  have "content t = content s"
    by (rule ext, rule content_cong) (auto simp: ca at ds split: if_splits)
  moreover have "brelse i s = Some t"
    using h by (simp add: brelse_def Let_def t_def holds_def releasesleep_def)
  ultimately show ?thesis using inv at ds by blast
qed

lemma bread_stuck:
  assumes s: "binv s" and r: "\<not> can_read bno s"
  shows "bread ROOTDEV bno s = None"
proof (cases "\<exists>i. cached s bno i")
  case True
  then obtain i where c: "cached s bno i" and l: "locked (lock (buf_at s i))"
    using r by (auto simp: can_read_def)
  have t: "(THE i. cached s bno i) = i" using c cached_unique [OF s c] by blast
  have "i < length (bufs s)" using c binv_len [OF s] by (simp add: cached_def)
  then show ?thesis
    using True l by (simp add: bread_def bget_def find_root [OF s] t lock_buf_def acquiresleep_def buf_at_set_buf)
next
  case False
  then have "List.find (\<lambda>i. refcnt (buf_at s i) = 0) (rev (lru s)) = None"
    using r lru_set [OF s] by (auto simp: can_read_def find_None_iff)
  with False show ?thesis by (simp add: bread_def bget_def find_root [OF s])
qed

section \<open>Properties\<close>

text \<open>A booted machine with an empty cache and the given disk.\<close>

definition boot :: "(nat \<Rightarrow> block) \<Rightarrow> bst" where
  "boot d = binit \<lparr>me = 1, bufs = [], lru = [], disk = d, writes = []\<rparr>"

lemma fold_Cons_rev: "fold (\<lambda>i l. i # l) xs ys = rev xs @ ys"
  by (induction xs arbitrary: ys) auto

lemma binv_binit: "binv (binit s)" "\<not> cached (binit s) bno i" "i < NBUF \<Longrightarrow> refcnt (buf_at (binit s) i) = 0"
  by (auto simp: binv_def binit_def buf_at_def cached_def zero_buf_def fold_Cons_rev
      initsleeplock_def ROOTDEV_def)

text \<open>
  C13. Reading through the cache: with the cache in order, \<^verbatim>\<open>bread\<close> returns exactly when
  the block is cached in an unlocked buffer, or is not cached and some buffer is unused. It
  then returns a buffer, locked by the caller, with the current content of the block, and
  changes neither the content of any block nor any other buffer; the cache stays in order,
  with every block in at most one buffer.
\<close>

theorem bread_reads_block:
  assumes "binv s"
  shows "if can_read bno s then \<exists>i s'. bread ROOTDEV bno s = Some (i, s') \<and> read_ok bno s i s'
         else bread ROOTDEV bno s = None"
  using bread_ok [OF assms] bread_stuck [OF assms] by simp

theorem bread_reads_block_witness:
  "can_read 7 (boot (\<lambda>_. zero_block)) \<and>
   (\<exists>i s'. bread ROOTDEV 7 (boot (\<lambda>_. zero_block)) = Some (i, s') \<and> read_ok 7 (boot (\<lambda>_. zero_block)) i s')"
proof -
  have "can_read 7 (boot (\<lambda>_. zero_block))"
    unfolding can_read_def boot_def using binv_binit(3) [of 0]
    by (auto simp: binv_binit NBUF_def intro!: exI [of _ 0])
  then show ?thesis
    using bread_reads_block [of "boot (\<lambda>_. zero_block)" 7] by (simp add: boot_def binv_binit)
qed

end
