(* ===== verification/Log.thy ===== *)
theory Log
  imports Bio
begin

text \<open>
  The write-ahead log (\<^verbatim>\<open>xv6/kernel/log.c\<close>). The log's state extends that of the buffer
  cache it works through. The first part models \<^verbatim>\<open>log_write\<close>, \<^verbatim>\<open>commit\<close> and recovery down to
  the words of the header block; the later parts show that a crash at any point of a commit,
  and of the recovery itself, leaves either none or all of the transaction, and that the
  admission control of \<^verbatim>\<open>begin_op\<close> keeps the log from overflowing.
\<close>

section \<open>State\<close>

definition MAXOPBLOCKS :: nat where "MAXOPBLOCKS = 10"
definition LOGBLOCKS :: nat where "LOGBLOCKS = 30"

text \<open>\<open>lh\<close> is the list of the first \<^verbatim>\<open>lh.n\<close> entries of \<^verbatim>\<open>lh.block\<close>.\<close>

record lst = bst +
  start :: nat
  outstanding :: nat
  committing :: bool
  ncommit :: nat
  lh :: "nat list"

section \<open>Header\<close>

text \<open>The header block: word 0 is the signed \<^verbatim>\<open>n\<close>, the following words are the block numbers.\<close>

definition hdr_n :: "block \<Rightarrow> nat" where
  "hdr_n b = nat (sint (b ! 0))"

definition hdr_blocks :: "block \<Rightarrow> nat list" where
  "hdr_blocks b = map (\<lambda>i. unat (b ! (i + 1))) [0..<hdr_n b]"

definition set_header :: "nat list \<Rightarrow> block \<Rightarrow> block" where
  "set_header bs b = fold (\<lambda>i b. b[i + 1 := of_nat (bs ! i)]) [0..<length bs] (b[0 := of_nat (length bs)])"

text \<open>A count beyond \<^verbatim>\<open>LOGBLOCKS\<close> would overrun the array \<^verbatim>\<open>log.lh.block\<close>.\<close>

definition read_head :: "lst \<Rightarrow> lst option" where
  "read_head s = do {
     (i, s) \<leftarrow> bread ROOTDEV (start s) s;
     let b = data (buf_at s i) in
     if hdr_n b \<le> LOGBLOCKS then brelse i (s\<lparr>lh := hdr_blocks b\<rparr>) else None
   }"

definition write_head :: "lst \<Rightarrow> lst option" where
  "write_head s = do {
     (i, s) \<leftarrow> bread ROOTDEV (start s) s;
     let s = set_data i (set_header (lh s) (data (buf_at s i))) s in
     do { s \<leftarrow> bwrite i s; brelse i s }
   }"

section \<open>Commit and recovery\<close>

definition install_block :: "bool \<Rightarrow> nat \<Rightarrow> lst \<Rightarrow> lst option" where
  "install_block recovering tail s = do {
     (lbuf, s) \<leftarrow> bread ROOTDEV (start s + tail + 1) s;
     (dbuf, s) \<leftarrow> bread ROOTDEV (lh s ! tail) s;
     let s = set_data dbuf (data (buf_at s lbuf)) s in
     do {
       s \<leftarrow> bwrite dbuf s;
       let s = (if recovering then s else bunpin dbuf s) in
       do { s \<leftarrow> brelse lbuf s; brelse dbuf s }
     }
   }"

fun for_tail :: "(nat \<Rightarrow> lst \<Rightarrow> lst option) \<Rightarrow> nat list \<Rightarrow> lst \<Rightarrow> lst option" where
  "for_tail body [] s = Some s"
| "for_tail body (t # ts) s = do { s \<leftarrow> body t s; for_tail body ts s }"

definition install_trans :: "bool \<Rightarrow> lst \<Rightarrow> lst option" where
  "install_trans recovering s = for_tail (install_block recovering) [0..<length (lh s)] s"

definition recover_from_log :: "lst \<Rightarrow> lst option" where
  "recover_from_log s = do {
     s \<leftarrow> read_head s;
     s \<leftarrow> install_trans True s;
     write_head (s\<lparr>lh := []\<rparr>)
   }"

definition initlog :: "nat \<Rightarrow> lst \<Rightarrow> lst option" where
  "initlog logstart s = recover_from_log (s\<lparr>start := logstart\<rparr>)"

definition log_block :: "nat \<Rightarrow> lst \<Rightarrow> lst option" where
  "log_block tail s = do {
     (to, s) \<leftarrow> bread ROOTDEV (start s + tail + 1) s;
     (from, s) \<leftarrow> bread ROOTDEV (lh s ! tail) s;
     let s = set_data to (data (buf_at s from)) s in
     do { s \<leftarrow> bwrite to s; s \<leftarrow> brelse from s; brelse to s }
   }"

definition write_log :: "lst \<Rightarrow> lst option" where
  "write_log s = for_tail log_block [0..<length (lh s)] s"

definition commit :: "lst \<Rightarrow> lst option" where
  "commit s =
     (if 0 < length (lh s) then do {
        s \<leftarrow> write_log s;
        s \<leftarrow> write_head s;
        s \<leftarrow> install_trans False s;
        write_head (s\<lparr>lh := []\<rparr>)
      }
      else Some s)"

section \<open>System calls\<close>

text \<open>\<open>begin_op\<close> gives \<open>None\<close> where the caller sleeps until another process commits or ends.\<close>

definition begin_op :: "lst \<Rightarrow> lst option" where
  "begin_op s =
     (if committing s then None
      else if length (lh s) + (outstanding s + 1) * MAXOPBLOCKS > LOGBLOCKS then None
      else Some (s\<lparr>outstanding := outstanding s + 1\<rparr>))"

text \<open>
  \<open>end_op\<close> in two steps, because the lock is not held during the commit: the first says
  whether this call commits, \<open>commit_op\<close> is the rest.
\<close>

definition end_op :: "lst \<Rightarrow> (bool \<times> lst) option" where
  "end_op s =
     (let s = s\<lparr>outstanding := outstanding s - 1\<rparr> in
      if committing s then None
      else if outstanding s = 0 then Some (True, s\<lparr>committing := True\<rparr>)
      else Some (False, s))"

definition commit_op :: "lst \<Rightarrow> lst option" where
  "commit_op s = do {
     s \<leftarrow> commit s;
     Some (s\<lparr>committing := False, ncommit := ncommit s + 1\<rparr>)
   }"

definition log_write :: "nat \<Rightarrow> lst \<Rightarrow> lst option" where
  "log_write i s =
     (if LOGBLOCKS \<le> length (lh s) then None
      else if outstanding s < 1 then None
      else
        (let bno = blockno (buf_at s i) in
         if bno \<in> set (lh s) then Some s
         else Some ((bpin i s)\<lparr>lh := lh s @ [bno]\<rparr>)))"

text \<open>\<open>sys_sync\<close>: the number of commits it waits for; it returns at once when nothing is pending.\<close>

definition sys_sync :: "lst \<Rightarrow> nat" where
  "sys_sync s = (if committing s \<or> outstanding s > 0 then ncommit s + 1 else ncommit s)"

section \<open>Buffers in use\<close>

text \<open>
  The cache as one process leaves it: the blocks \<open>P\<close> are pinned once, the blocks \<open>H\<close> are
  held by the process, and no other buffer is in use.
\<close>

definition uses :: "nat set \<Rightarrow> nat set \<Rightarrow> 'a bst_scheme \<Rightarrow> bool" where
  "uses P H s \<longleftrightarrow> binv s \<and>
     (\<forall>i < NBUF. refcnt (buf_at s i) = (if dev (buf_at s i) = ROOTDEV then
         of_bool (blockno (buf_at s i) \<in> P) + of_bool (blockno (buf_at s i) \<in> H) else 0)) \<and>
     (\<forall>i < NBUF. locked (lock (buf_at s i)) \<longleftrightarrow> dev (buf_at s i) = ROOTDEV \<and> blockno (buf_at s i) \<in> H) \<and>
     (\<forall>i < NBUF. locked (lock (buf_at s i)) \<longrightarrow> holder (lock (buf_at s i)) = me s) \<and>
     (\<forall>b \<in> P \<union> H. \<exists>i. cached s b i \<and> valid (buf_at s i))"

lemma usesD:
  assumes "uses P H s"
  shows "binv s"
    "i < NBUF \<Longrightarrow> refcnt (buf_at s i) = (if dev (buf_at s i) = ROOTDEV then
         of_bool (blockno (buf_at s i) \<in> P) + of_bool (blockno (buf_at s i) \<in> H) else 0)"
    "i < NBUF \<Longrightarrow> locked (lock (buf_at s i)) \<longleftrightarrow> dev (buf_at s i) = ROOTDEV \<and> blockno (buf_at s i) \<in> H"
    "i < NBUF \<Longrightarrow> locked (lock (buf_at s i)) \<Longrightarrow> holder (lock (buf_at s i)) = me s"
    "b \<in> P \<union> H \<Longrightarrow> \<exists>i. cached s b i \<and> valid (buf_at s i)"
  using assms unfolding uses_def by blast+

lemma uses_cached:
  assumes u: "uses P H s" and c: "cached s b i"
  shows "i < NBUF" "refcnt (buf_at s i) = of_bool (b \<in> P) + of_bool (b \<in> H)"
    "locked (lock (buf_at s i)) \<longleftrightarrow> b \<in> H" "b \<in> P \<union> H \<Longrightarrow> valid (buf_at s i)"
    "b \<in> H \<Longrightarrow> holds s b i"
proof -
  show i: "i < NBUF" using c by (simp add: cached_def)
  show r: "refcnt (buf_at s i) = of_bool (b \<in> P) + of_bool (b \<in> H)"
    "locked (lock (buf_at s i)) \<longleftrightarrow> b \<in> H"
    using c usesD(2,3) [OF u i] by (auto simp: cached_def)
  show v: "valid (buf_at s i)" if "b \<in> P \<union> H"
    using usesD(5) [OF u that] cached_unique [OF usesD(1) [OF u] c] by blast
  show "holds s b i" if "b \<in> H"
    using that r v c usesD(4) [OF u i] by (simp add: holds_def holdingsleep_def)
qed

lemma unused_buffer:
  assumes u: "uses P H s" and f: "finite P" "finite H" "card (P \<union> H) < NBUF"
  shows "\<exists>i < NBUF. refcnt (buf_at s i) = 0"
proof (rule ccontr)
  assume *: "\<not> ?thesis"
  have "cached s (blockno (buf_at s i)) i \<and> blockno (buf_at s i) \<in> P \<union> H" if "i < NBUF" for i
    using * that usesD(2) [OF u that] by (auto simp: cached_def split: if_splits)
  moreover from this have "inj_on (\<lambda>i. blockno (buf_at s i)) {..<NBUF}"
    by (intro inj_onI) (metis cached_unique [OF usesD(1) [OF u]] lessThan_iff)
  ultimately have "card {..<NBUF} \<le> card (P \<union> H)"
    using f by (intro card_inj_on_le) auto
  with f show False by simp
qed

lemma uses_can_read:
  assumes u: "uses P H s" and b: "b \<notin> H" and f: "finite P" "finite H" "b \<in> P \<or> card (P \<union> H) < NBUF"
  shows "can_read b s"
proof (cases "\<exists>i. cached s b i")
  case True
  then show ?thesis using uses_cached(3) [OF u] b by (auto simp: can_read_def)
next
  case False
  then have "b \<notin> P" using usesD(5) [OF u, of b] by blast
  then show ?thesis using False unused_buffer [OF u f(1,2)] f(3) by (simp add: can_read_def)
qed

lemma bread_more: "bread d b s = Some (i, s') \<Longrightarrow> bst.more s' = bst.more s"
  by (auto simp: bread_def bget_def lock_buf_def virtio_disk_rw_def Let_def set_buf_def
      split: option.splits if_splits bind_splits)

lemma bwrite_more: "bwrite i s = Some s' \<Longrightarrow> bst.more s' = bst.more s"
  by (auto simp: bwrite_def virtio_disk_rw_def Let_def split: if_splits)

lemma brelse_more: "brelse i s = Some s' \<Longrightarrow> bst.more s' = bst.more s"
  by (auto simp: brelse_def Let_def set_buf_def split: if_splits)

text \<open>Everything but the use of the buffers is as before.\<close>

definition same :: "'a bst_scheme \<Rightarrow> 'a bst_scheme \<Rightarrow> bool" where
  "same s s' \<longleftrightarrow> disk s' = disk s \<and> writes s' = writes s \<and> me s' = me s \<and> content s' = content s \<and>
     bst.more s' = bst.more s"

lemma bread_uses:
  assumes u: "uses P H s" and b: "b \<notin> H" and f: "finite P" "finite H" "b \<in> P \<or> card (P \<union> H) < NBUF"
  shows "\<exists>i s'. bread ROOTDEV b s = Some (i, s') \<and> uses P (insert b H) s' \<and> cached s' b i \<and>
     (\<forall>c \<in> P \<union> H. \<forall>j. cached s c j \<longrightarrow> cached s' c j) \<and> same s s'"
proof -
  obtain i s' where r: "bread ROOTDEV b s = Some (i, s')" "read_ok b s i s'"
    using bread_ok [OF usesD(1) [OF u] uses_can_read [OF assms]] by blast
  have ok: "cached s' b i" "valid (buf_at s' i)" "lock (buf_at s' i) = \<lparr>locked = True, holder = me s\<rparr>"
    "refcnt (buf_at s' i) = (if cached s b i then refcnt (buf_at s i) + 1 else 1)"
    "cached s b i \<or> refcnt (buf_at s i) = 0" "binv s'" "me s' = me s"
    and other: "\<And>k. k \<noteq> i \<Longrightarrow> buf_at s' k = buf_at s k"
    using r(2) by (auto simp: read_ok_def)
  have keep: "cached s' c j \<and> buf_at s' j = (if c = b then buf_at s' j else buf_at s j)" if "c \<in> P \<union> H" "cached s c j" for c j
  proof (cases "j = i")
    case True
    then have "cached s b i" using ok(5) uses_cached(2) [OF u that(2)] that(1) by auto
    with True that(2) ok(1) show ?thesis by (simp add: cached_def)
  qed (use that(2) other in \<open>simp add: cached_def\<close>)
  have nP: "b \<notin> P" if "\<not> cached s b i"
    using that usesD(5) [OF u, of b] keep [of b] cached_unique [OF ok(6) ok(1)] by blast
  have ne: "blockno (buf_at s' k) \<noteq> b" if "k < NBUF" "k \<noteq> i" "dev (buf_at s' k) = ROOTDEV" for k
    using that cached_unique [OF ok(6) ok(1), of k] by (auto simp: cached_def)
  have i: "i < NBUF" "dev (buf_at s' i) = ROOTDEV" "blockno (buf_at s' i) = b" using ok(1) by (auto simp: cached_def)
  have "refcnt (buf_at s' k) = (if dev (buf_at s' k) = ROOTDEV then
         of_bool (blockno (buf_at s' k) \<in> P) + of_bool (blockno (buf_at s' k) \<in> insert b H) else 0)" if "k < NBUF" for k
    using that ok(4) nP uses_cached(2) [OF u, of b i] b i ne [of k] other [of k] usesD(2) [OF u that]
    by (cases "k = i") auto
  moreover have "locked (lock (buf_at s' k)) \<longleftrightarrow> dev (buf_at s' k) = ROOTDEV \<and> blockno (buf_at s' k) \<in> insert b H"
    if "k < NBUF" for k
    using that ok(3) i ne [of k] other [of k] usesD(3) [OF u that] by (cases "k = i") auto
  moreover have "holder (lock (buf_at s' k)) = me s'" if "k < NBUF" "locked (lock (buf_at s' k))" for k
    using that ok(3,7) other [of k] usesD(4) [OF u that(1)] by (cases "k = i") auto
  moreover have "\<exists>j. cached s' c j \<and> valid (buf_at s' j)" if c: "c \<in> P \<union> insert b H" for c
  proof (cases "c = b")
    case False
    with c have c': "c \<in> P \<union> H" by blast
    obtain j where "cached s c j" "valid (buf_at s j)" using usesD(5) [OF u c'] by blast
    then show ?thesis using keep [OF c'] False by metis
  qed (use ok in blast)
  ultimately have "uses P (insert b H) s'" using ok(6) unfolding uses_def by blast
  then show ?thesis
    using r ok(1) keep bread_more [OF r(1)] by (auto simp: read_ok_def same_def)
qed

lemma bwrite_uses:
  assumes u: "uses P H s" and b: "b \<in> H" "cached s b i"
  shows "\<exists>s'. bwrite i s = Some s' \<and> uses P H s' \<and> (\<forall>c j. cached s' c j = cached s c j) \<and>
     disk s' = (disk s)(b := content s b) \<and> writes s' = writes s @ [(b, content s b)] \<and> me s' = me s \<and>
     content s' = content s \<and> bst.more s' = bst.more s"
proof -
  obtain s' where w: "bwrite i s = Some s'" "disk s' = (disk s)(b := content s b)"
     "writes s' = writes s @ [(b, content s b)]" "bufs s' = bufs s" "me s' = me s"
     "content s' = content s" "binv s'"
    using bwrite_ok [OF usesD(1) [OF u] uses_cached(5) [OF u b(2,1)]] by blast
  have at: "buf_at s' k = buf_at s k" "cached s' c k = cached s c k" for c k
    using w(4) by (simp_all add: buf_at_def cached_def)
  then have "uses P H s'" using u w(5,7) unfolding uses_def by simp
  then show ?thesis using w at bwrite_more [OF w(1)] by simp
qed

lemma set_data_uses:
  assumes u: "uses P H s" and b: "b \<in> H" "cached s b i"
  shows "uses P H (set_data i d s)" "cached (set_data i d s) c j = cached s c j"
    "content (set_data i d s) = (content s)(b := d)"
    "disk (set_data i d s) = disk s" "writes (set_data i d s) = writes s" "me (set_data i d s) = me s"
    "bst.more (set_data i d s) = bst.more s"
proof -
  note h = uses_cached(5) [OF u b(2,1)]
  note sd = set_data_ok [OF usesD(1) [OF u] h]
  have l: "i < length (bufs s)" using uses_cached(1) [OF u b(2)] binv_len [OF usesD(1) [OF u]] by simp
  have at: "buf_at (set_data i d s) k = (if k = i then (buf_at s i)\<lparr>data := d\<rparr> else buf_at s k)" for k
    using l by (simp add: set_data_def buf_at_set_buf)
  then have f: "valid (buf_at (set_data i d s) k) = valid (buf_at s k)" "dev (buf_at (set_data i d s) k) = dev (buf_at s k)"
    "blockno (buf_at (set_data i d s) k) = blockno (buf_at s k)" "lock (buf_at (set_data i d s) k) = lock (buf_at s k)"
    "refcnt (buf_at (set_data i d s) k) = refcnt (buf_at s k)" for k by simp_all
  then have ca: "cached (set_data i d s) c j = cached s c j" for c j by (simp add: cached_def)
  show "cached (set_data i d s) c j = cached s c j" by (rule ca)
  show "content (set_data i d s) = (content s)(b := d)" by (rule sd(2))
  show m: "disk (set_data i d s) = disk s" "writes (set_data i d s) = writes s" "me (set_data i d s) = me s"
    "bst.more (set_data i d s) = bst.more s"
    by (simp_all add: set_data_def set_buf_def)
  show "uses P H (set_data i d s)"
    using u sd(1) unfolding uses_def ca m f by blast
qed

lemma brelse_uses:
  assumes u: "uses P H s" and b: "b \<in> H" "cached s b i" and clean: "b \<notin> P \<Longrightarrow> content s b = disk s b"
  shows "\<exists>s'. brelse i s = Some s' \<and> uses P (H - {b}) s' \<and> (\<forall>c j. cached s' c j = cached s c j) \<and> same s s'"
proof -
  note h = uses_cached(5) [OF u b(2,1)] and i = uses_cached(1) [OF u b(2)]
  have "data (buf_at s i) = content s b"
    using content_cached [OF usesD(1) [OF u] b(2)] uses_cached(4) [OF u b(2)] b(1) by simp
  then have "refcnt (buf_at s i) = 1 \<Longrightarrow> data (buf_at s i) = disk s b"
    using uses_cached(2) [OF u b(2)] b(1) clean by (cases "b \<in> P") auto
  from brelse_ok [OF usesD(1) [OF u] h this] obtain s' where r: "brelse i s = Some s'"
    "disk s' = disk s" "writes s' = writes s" "me s' = me s" "content s' = content s" "binv s'"
    and at: "\<And>k. buf_at s' k = (if k = i then (buf_at s i)\<lparr>lock := \<lparr>locked = False, holder = 0\<rparr>,
                            refcnt := refcnt (buf_at s i) - 1\<rparr> else buf_at s k)"
    by blast
  have ca: "cached s' c j = cached s c j" for c j by (simp add: cached_def at)
  have bi: "dev (buf_at s i) = ROOTDEV" "blockno (buf_at s i) = b" using b(2) by (simp_all add: cached_def)
  have ne: "blockno (buf_at s k) \<noteq> b" if "k < NBUF" "k \<noteq> i" "dev (buf_at s k) = ROOTDEV" for k
    using that cached_unique [OF usesD(1) [OF u] b(2), of k] by (auto simp: cached_def)
  have "refcnt (buf_at s' k) = (if dev (buf_at s' k) = ROOTDEV then
         of_bool (blockno (buf_at s' k) \<in> P) + of_bool (blockno (buf_at s' k) \<in> H - {b}) else 0)" if "k < NBUF" for k
    using that usesD(2) [OF u that] ne [of k] bi b(1) by (cases "k = i") (auto simp: at)
  moreover have "locked (lock (buf_at s' k)) \<longleftrightarrow> dev (buf_at s' k) = ROOTDEV \<and> blockno (buf_at s' k) \<in> H - {b}"
    if "k < NBUF" for k
    using that usesD(3) [OF u that] ne [of k] bi by (cases "k = i") (auto simp: at)
  moreover have "holder (lock (buf_at s' k)) = me s'" if "k < NBUF" "locked (lock (buf_at s' k))" for k
    using that r(4) usesD(4) [OF u that(1)] by (cases "k = i") (auto simp: at)
  moreover have "\<exists>j. cached s' c j \<and> valid (buf_at s' j)" if "c \<in> P \<union> (H - {b})" for c
    using that usesD(5) [OF u, of c] unfolding ca by (auto simp: at)
  ultimately have "uses P (H - {b}) s'" using r(6) unfolding uses_def by blast
  then show ?thesis using r ca brelse_more [OF r(1)] by (auto simp: same_def)
qed

text \<open>Pinning and unpinning change only the count of a buffer the caller holds.\<close>

lemma set_refcnt_uses:
  assumes u: "uses P H s" and b: "b \<in> H" "cached s b i" and n: "n = of_bool (b \<in> P') + 1"
    and P': "P' - {b} = P - {b}"
  defines "s' \<equiv> set_buf i ((buf_at s i)\<lparr>refcnt := n\<rparr>) s"
  shows "uses P' H s'" "\<And>c j. cached s' c j = cached s c j" "same s s'"
proof -
  note i = uses_cached(1) [OF u b(2)] and s = usesD(1) [OF u]
  have bi: "dev (buf_at s i) = ROOTDEV" "blockno (buf_at s i) = b" using b(2) by (simp_all add: cached_def)
  have l: "i < length (bufs s)" using i binv_len [OF s] by simp
  have at: "buf_at s' k = (if k = i then (buf_at s i)\<lparr>refcnt := n\<rparr> else buf_at s k)" for k
    using l by (simp add: s'_def buf_at_set_buf)
  then have f: "valid (buf_at s' k) = valid (buf_at s k)" "dev (buf_at s' k) = dev (buf_at s k)"
    "blockno (buf_at s' k) = blockno (buf_at s k)" "lock (buf_at s' k) = lock (buf_at s k)"
    "data (buf_at s' k) = data (buf_at s k)" for k by simp_all
  then show ca: "cached s' c j = cached s c j" for c j by (simp add: cached_def)
  have m: "disk s' = disk s" "writes s' = writes s" "me s' = me s" "bst.more s' = bst.more s"
    by (simp_all add: s'_def set_buf_def)
  have "binv s'"
    unfolding s'_def by (rule binv_set_buf [OF s i _ _ _ disjI1 [OF b(2)]]) (use bi n in simp_all)
  moreover have "refcnt (buf_at s' k) = (if dev (buf_at s k) = ROOTDEV then
         of_bool (blockno (buf_at s k) \<in> P') + of_bool (blockno (buf_at s k) \<in> H) else 0)" if "k < NBUF" for k
  proof (cases "k = i")
    case False
    then have "blockno (buf_at s k) \<noteq> b \<or> dev (buf_at s k) \<noteq> ROOTDEV"
      using that cached_unique [OF s b(2), of k] by (auto simp: cached_def)
    then have "dev (buf_at s k) = ROOTDEV \<Longrightarrow> (blockno (buf_at s k) \<in> P') = (blockno (buf_at s k) \<in> P)"
      using P' by blast
    then show ?thesis using usesD(2) [OF u that] False by (simp add: at)
  qed (use bi b(1) n at in simp)
  moreover have "\<exists>j. cached s c j \<and> valid (buf_at s j)" if "c \<in> P' \<union> H" for c
    using that P' b(1) by (intro usesD(5) [OF u]) blast
  ultimately show "uses P' H s'" using u unfolding uses_def ca m f by blast
  show "same s s'" unfolding same_def using m by (auto intro!: content_cong simp: ca f)
qed

lemma bunpin_uses:
  assumes "uses P H s" "b \<in> H" "cached s b i" "b \<in> P"
  shows "uses (P - {b}) H (bunpin i s)" "cached (bunpin i s) c j = cached s c j" "same s (bunpin i s)"
  using set_refcnt_uses [OF assms(1-3), of 1 "P - {b}"] uses_cached(2) [OF assms(1,3)] assms(2,4)
  by (simp_all add: bunpin_def)

lemma bpin_uses:
  assumes "uses P H s" "b \<in> H" "cached s b i" "b \<notin> P"
  shows "uses (insert b P) H (bpin i s)" "cached (bpin i s) c j = cached s c j" "same s (bpin i s)"
  using set_refcnt_uses [OF assms(1-3), of 2 "insert b P"] uses_cached(2) [OF assms(1,3)] assms(2,4)
  by (simp_all add: bpin_def numeral_2_eq_2)

section \<open>The effect of the log's operations\<close>

text \<open>The blocks \<open>ws\<close> written to a disk, in order.\<close>

definition apply_writes :: "(nat \<times> block) list \<Rightarrow> (nat \<Rightarrow> block) \<Rightarrow> nat \<Rightarrow> block" where
  "apply_writes ws d = fold (\<lambda>(b, x) d. d(b := x)) ws d"

text \<open>An operation wrote the blocks \<open>ws\<close>, through the cache to the disk.\<close>

definition eff :: "lst \<Rightarrow> (nat \<times> block) list \<Rightarrow> lst \<Rightarrow> bool" where
  "eff s ws s' \<longleftrightarrow> disk s' = apply_writes ws (disk s) \<and> writes s' = writes s @ ws \<and>
     content s' = apply_writes ws (content s) \<and> me s' = me s \<and> bst.more s' = bst.more s"

lemma apply_writes_simps [simp]:
  "apply_writes [] d = d" "apply_writes ((b, x) # ws) d = apply_writes ws (d(b := x))"
  "apply_writes (ws @ ws') d = apply_writes ws' (apply_writes ws d)"
  by (simp_all add: apply_writes_def)

lemma apply_writes_other: "b \<notin> fst ` set ws \<Longrightarrow> apply_writes ws d b = d b"
  by (induction ws arbitrary: d) (auto simp: fun_upd_def)

lemma eff_refl: "eff s [] s" by (simp add: eff_def)

lemma eff_trans: "eff s ws t \<Longrightarrow> eff t ws' u \<Longrightarrow> eff s (ws @ ws') u"
  by (simp add: eff_def)

lemma more_lst:
  fixes s s' :: lst
  assumes "bst.more s' = bst.more s"
  shows "start s' = start s" "lh s' = lh s" "outstanding s' = outstanding s"
    "committing s' = committing s" "ncommit s' = ncommit s"
  using assms by (cases s; cases s'; simp)+

lemma lh_update [simp]:
  fixes s :: lst
  shows "buf_at (s\<lparr>lh := x\<rparr>) = buf_at s" "cached (s\<lparr>lh := x\<rparr>) = cached s"
    "content (s\<lparr>lh := x\<rparr>) = content s" "uses P H (s\<lparr>lh := x\<rparr>) = uses P H s"
proof -
  show b: "buf_at (s\<lparr>lh := x\<rparr>) = buf_at s" by (simp add: buf_at_def fun_eq_iff)
  show c: "cached (s\<lparr>lh := x\<rparr>) = cached s" by (simp add: cached_def fun_eq_iff b)
  show "content (s\<lparr>lh := x\<rparr>) = content s" by (rule ext) (simp add: content_def b c cong: option.case_cong)
  show "uses P H (s\<lparr>lh := x\<rparr>) = uses P H s" by (simp add: uses_def binv_def b c)
qed

lemma same_lst:
  fixes s s' :: lst
  assumes "same s s'"
  shows "disk s' = disk s" "writes s' = writes s" "me s' = me s" "content s' = content s"
    "bst.more s' = bst.more s" "start s' = start s" "lh s' = lh s"
  using assms more_lst [of s' s] by (auto simp: same_def)

lemma data_content: "uses P H s \<Longrightarrow> cached s b i \<Longrightarrow> b \<in> H \<Longrightarrow> data (buf_at s i) = content s b"
  using content_cached [OF usesD(1)] uses_cached(4) by (metis Un_iff)

lemma write_head_ok:
  assumes u: "uses P {} s" and f: "finite P" "card P < NBUF" "start s \<notin> P"
  shows "\<exists>s'. write_head s = Some s' \<and> uses P {} s' \<and>
     eff s [(start s, set_header (lh s) (content s (start s)))] s'"
proof -
  let ?b = "start s"
  obtain i s1 where 1: "bread ROOTDEV ?b s = Some (i, s1)" "uses P {?b} s1" "cached s1 ?b i" "same s s1"
    using bread_uses [OF u, of ?b] f by auto
  let ?h = "set_header (lh s1) (data (buf_at s1 i))"
  note d = data_content [OF 1(2,3)] and sd = set_data_uses [OF 1(2) _ 1(3), where d = ?h]
  obtain s2 where 2: "bwrite i (set_data i ?h s1) = Some s2" "uses P {?b} s2" "cached s2 ?b i"
    "disk s2 = (disk s1)(?b := ?h)" "writes s2 = writes s1 @ [(?b, ?h)]"
    "me s2 = me s1" "content s2 = (content s1)(?b := ?h)" "bst.more s2 = bst.more s1"
    using bwrite_uses [OF sd(1), of ?b i] 1(3) sd by auto
  obtain s3 where 3: "brelse i s2 = Some s3" "uses P {} s3" "same s2 s3"
    using brelse_uses [OF 2(2) _ 2(3)] 2 by auto
  show ?thesis
    using 1 2 3 d same_lst [OF 1(4)] same_lst [OF 3(3)] by (simp add: write_head_def eff_def Let_def)
qed

lemma log_block_ok:
  assumes u: "uses P {} s" and f: "finite P" "card P < NBUF" "start s + t + 1 \<notin> P" and t: "lh s ! t \<in> P"
  shows "\<exists>s'. log_block t s = Some s' \<and> uses P {} s' \<and> eff s [(start s + t + 1, content s (lh s ! t))] s'"
proof -
  let ?to = "start s + t + 1" and ?from = "lh s ! t"
  have ne: "?from \<noteq> ?to" using f t by metis
  obtain i s1 where 1: "bread ROOTDEV ?to s = Some (i, s1)" "uses P {?to} s1" "cached s1 ?to i" "same s s1"
    using bread_uses [OF u, of ?to] f by auto
  obtain j s2 where 2: "bread ROOTDEV ?from s1 = Some (j, s2)" "uses P {?from, ?to} s2" "cached s2 ?from j"
    "cached s2 ?to i" "same s1 s2"
    using bread_uses [OF 1(2), of ?from] f t ne 1(3) by auto
  let ?x = "data (buf_at s2 j)"
  have x: "?x = content s ?from" using data_content [OF 2(2,3)] same_lst [OF 1(4)] same_lst [OF 2(5)] by simp
  note sd = set_data_uses [OF 2(2) _ 2(4), where d = ?x]
  obtain s3 where 3: "bwrite i (set_data i ?x s2) = Some s3" "uses P {?from, ?to} s3" "cached s3 ?to i"
    "cached s3 ?from j" "disk s3 = (disk s2)(?to := ?x)" "writes s3 = writes s2 @ [(?to, ?x)]"
    "me s3 = me s2" "content s3 = (content s2)(?to := ?x)" "bst.more s3 = bst.more s2"
    using bwrite_uses [OF sd(1), of ?to i] 2(3,4) sd by auto
  obtain s4 where 4: "brelse j s3 = Some s4" "uses P {?to} s4" "same s3 s4" "cached s4 ?to i"
    using brelse_uses [OF 3(2) _ 3(4)] t ne 3(3) by (auto simp: insert_Diff_if)
  obtain s5 where 5: "brelse i s4 = Some s5" "uses P {} s5" "same s4 s5"
    using brelse_uses [OF 4(2) _ 4(4)] same_lst [OF 4(3)] 3 by auto
  show ?thesis
    using 1 2 3 4 5 x same_lst [OF 1(4)] same_lst [OF 2(5)] same_lst [OF 4(3)] same_lst [OF 5(3)]
    by (simp add: log_block_def eff_def Let_def)
qed

lemma content_unused:
  assumes u: "uses P H s" and b: "b \<notin> P \<union> H"
  shows "content s b = disk s b"
proof (cases "\<exists>i. cached s b i \<and> valid (buf_at s i)")
  case True
  then obtain i where i: "cached s b i" "valid (buf_at s i)" by blast
  have "refcnt (buf_at s i) = 0" "blockno (buf_at s i) = b"
    using uses_cached(2) [OF u i(1)] b i(1) by (simp_all add: cached_def)
  then show ?thesis
    using content_cached [OF usesD(1) [OF u] i] binv_free [OF usesD(1) [OF u] uses_cached(1) [OF u i(1)]] i(2)
    by simp
qed (intro content_uncached, blast)

text \<open>Recovery finds the destination unused, a commit finds it pinned and unpins it.\<close>

lemma install_block_ok:
  assumes u: "uses P {} s" and f: "finite P" "start s + t + 1 \<notin> P" "lh s ! t \<noteq> start s + t + 1"
    and r: "if r then card P + 1 < NBUF \<and> lh s ! t \<notin> P else card P < NBUF \<and> lh s ! t \<in> P"
  shows "\<exists>s'. install_block r t s = Some s' \<and> uses (P - {lh s ! t}) {} s' \<and>
     eff s [(lh s ! t, content s (start s + t + 1))] s'"
proof -
  let ?l = "start s + t + 1" and ?d = "lh s ! t"
  note ne = f(3) and cl = content_unused [OF u, of ?l]
  have c: "card P < NBUF" using r by (simp split: if_splits)
  obtain i s1 where 1: "bread ROOTDEV ?l s = Some (i, s1)" "uses P {?l} s1" "cached s1 ?l i" "same s s1"
    using bread_uses [OF u, of ?l] f c by auto
  have "?d \<in> P \<or> card (P \<union> {?l}) < NBUF" using r f by (auto split: if_splits)
  then obtain j s2 where 2: "bread ROOTDEV ?d s1 = Some (j, s2)" "uses P {?d, ?l} s2" "cached s2 ?d j"
    "cached s2 ?l i" "same s1 s2"
    using bread_uses [OF 1(2), of ?d] f ne 1(3) by auto
  let ?x = "data (buf_at s2 i)"
  have x: "?x = content s ?l" using data_content [OF 2(2,4)] same_lst [OF 1(4)] same_lst [OF 2(5)] by simp
  note sd = set_data_uses [OF 2(2) _ 2(3), where d = ?x]
  obtain s3 where 3: "bwrite j (set_data j ?x s2) = Some s3" "uses P {?d, ?l} s3" "cached s3 ?l i"
    "cached s3 ?d j" "disk s3 = (disk s2)(?d := ?x)" "writes s3 = writes s2 @ [(?d, ?x)]"
    "me s3 = me s2" "content s3 = (content s2)(?d := ?x)" "bst.more s3 = bst.more s2"
    using bwrite_uses [OF sd(1), of ?d j] 2(3,4) sd by auto
  define s4 where "s4 = (if r then s3 else bunpin j s3)"
  have 4: "uses (P - {?d}) {?d, ?l} s4" "cached s4 ?l i" "cached s4 ?d j" "same s3 s4"
    using bunpin_uses [OF 3(2) _ 3(4)] 3(2-4) r by (auto simp: s4_def same_def)
  note e = same_lst [OF 1(4)] same_lst [OF 2(5)] 3(5-9) same_lst [OF 4(4)]
  have "content s4 ?l = disk s4 ?l" using e cl f ne by simp
  then obtain s5 where 5: "brelse i s4 = Some s5" "uses (P - {?d}) {?d} s5" "same s4 s5" "cached s5 ?d j"
    using brelse_uses [OF 4(1) _ 4(2)] ne 4(3) by (auto simp: insert_Diff_if)
  obtain s6 where 6: "brelse j s5 = Some s6" "uses (P - {?d}) {} s6" "same s5 s6"
    using brelse_uses [OF 5(2) _ 5(4)] same_lst [OF 5(3)] e by auto
  have "install_block r t s = Some s6"
    using 1(1) 2(1) 3(1) 5(1) 6(1) e by (simp add: install_block_def Let_def s4_def)
  then show ?thesis using 6(2) e x same_lst [OF 5(3)] same_lst [OF 6(3)] by (simp add: eff_def)
qed

lemma for_tail_ok:
  assumes step: "\<And>t s. t < n \<Longrightarrow> I t s \<Longrightarrow> \<exists>s'. body t s = Some s' \<and> I (Suc t) s' \<and> eff s [w t] s'"
    and I: "I m s" and m: "m \<le> n"
  shows "\<exists>s'. for_tail body [m..<n] s = Some s' \<and> I n s' \<and> eff s (map w [m..<n]) s'"
  using I m
proof (induction "n - m" arbitrary: m s)
  case 0
  then show ?case by (simp add: eff_refl)
next
  case (Suc k)
  then have "m < n" by simp
  then obtain t where t: "body m s = Some t" "I (Suc m) t" "eff s [w m] t" using step Suc.prems(1) by blast
  moreover obtain s' where "for_tail body [Suc m..<n] t = Some s'" "I n s'" "eff t (map w [Suc m..<n]) s'"
    using Suc.hyps(1) [OF _ t(2)] Suc.hyps(2) \<open>m < n\<close> by (metis Suc_diff_Suc Suc_leI diff_Suc_1)
  ultimately show ?case using eff_trans [OF t(3)] \<open>m < n\<close> by (simp add: upt_conv_Cons)
qed

text \<open>The log blocks, and the blocks of a transaction outside the log's area.\<close>

definition log_area :: "nat \<Rightarrow> nat set" where
  "log_area st = {st..st + LOGBLOCKS}"

definition home :: "nat \<Rightarrow> nat list \<Rightarrow> bool" where
  "home st bs \<longleftrightarrow> distinct bs \<and> length bs \<le> LOGBLOCKS \<and> set bs \<inter> log_area st = {} \<and> (\<forall>b \<in> set bs. b < 2 ^ 31)"

definition log_writes :: "nat \<Rightarrow> nat list \<Rightarrow> (nat \<Rightarrow> block) \<Rightarrow> (nat \<times> block) list" where
  "log_writes st bs c = map (\<lambda>t. (st + t + 1, c (bs ! t))) [0..<length bs]"

definition home_writes :: "nat \<Rightarrow> nat list \<Rightarrow> (nat \<Rightarrow> block) \<Rightarrow> (nat \<times> block) list" where
  "home_writes st bs c = map (\<lambda>t. (bs ! t, c (st + t + 1))) [0..<length bs]"

lemma home_nth:
  assumes "home st bs" "t < length bs" "k < length bs"
  shows "bs ! t \<noteq> st + k + 1" "bs ! t \<noteq> st" "st + k + 1 \<in> log_area st" "bs ! t \<notin> log_area st"
proof -
  show l: "st + k + 1 \<in> log_area st" using assms by (simp add: home_def log_area_def)
  show n: "bs ! t \<notin> log_area st" using assms nth_mem [of t bs] unfolding home_def by blast
  show "bs ! t \<noteq> st + k + 1" using l n by metis
  show "bs ! t \<noteq> st" using n by (auto simp: log_area_def)
qed

lemma write_log_ok:
  assumes u: "uses (set (lh s)) {} s" and h: "home (start s) (lh s)" and n: "length (lh s) < NBUF"
  shows "\<exists>s'. write_log s = Some s' \<and> uses (set (lh s)) {} s' \<and>
     eff s (log_writes (start s) (lh s) (content s)) s'"
proof -
  let ?n = "length (lh s)"
  let ?I = "\<lambda>t s'. uses (set (lh s)) {} s' \<and> start s' = start s \<and> lh s' = lh s \<and>
     (\<forall>k < ?n. content s' (lh s ! k) = content s (lh s ! k))"
  have card: "card (set (lh s)) < NBUF" using n card_length [of "lh s"] by linarith
  have "\<exists>s''. log_block t s' = Some s'' \<and> ?I (Suc t) s'' \<and> eff s' [(start s + t + 1, content s (lh s ! t))] s''"
    if t: "t < ?n" and I: "?I t s'" for t s'
  proof -
    have nt: "start s + t + 1 \<notin> set (lh s)" using home_nth(1) [OF h _ t] by (metis in_set_conv_nth)
    obtain s'' where "log_block t s' = Some s''" "uses (set (lh s)) {} s''"
      "eff s' [(start s + t + 1, content s (lh s ! t))] s''"
      using log_block_ok [of "set (lh s)" s' t] t I card nt by auto
    then show ?thesis
      using t I home_nth(1) [OF h _ t] more_lst [of s'' s'] by (auto simp: eff_def)
  qed
  from for_tail_ok [where I = ?I and m = 0 and s = s and n = ?n and body = log_block, OF this] u
  show ?thesis unfolding write_log_def log_writes_def by blast
qed

lemma install_trans_ok:
  assumes u: "uses P {} s" and h: "home (start s) (lh s)"
    and r: "if r then P = {} else P = set (lh s) \<and> length (lh s) < NBUF"
  shows "\<exists>s'. install_trans r s = Some s' \<and> uses {} {} s' \<and>
     eff s (home_writes (start s) (lh s) (content s)) s'"
proof -
  let ?n = "length (lh s)"
  let ?I = "\<lambda>t s'. uses (P - set (take t (lh s))) {} s' \<and> start s' = start s \<and> lh s' = lh s \<and>
     (\<forall>k < ?n. content s' (start s + k + 1) = content s (start s + k + 1))"
  have "\<exists>s''. install_block r t s' = Some s'' \<and> ?I (Suc t) s'' \<and> eff s' [(lh s ! t, content s (start s + t + 1))] s''"
    if t: "t < ?n" and I: "?I t s'" for t s'
  proof -
    let ?P = "P - set (take t (lh s))"
    have fin: "finite P" using r by (auto split: if_splits)
    have "card ?P \<le> card P" using fin by (simp add: card_Diff_subset_Int)
    moreover have "lh s ! t \<notin> set (take t (lh s))"
      using h t by (auto simp: home_def in_set_conv_nth nth_eq_iff_index_eq)
    ultimately have r': "if r then card ?P + 1 < NBUF \<and> lh s ! t \<notin> ?P else card ?P < NBUF \<and> lh s ! t \<in> ?P"
      using r t card_length [of "lh s"] by (auto simp: NBUF_def split: if_splits)
    have nt: "start s + t + 1 \<notin> set (lh s)" using home_nth(1) [OF h _ t] by (metis in_set_conv_nth)
    then have "start s + t + 1 \<notin> ?P" using r by (auto split: if_splits)
    then obtain s'' where i: "install_block r t s' = Some s''" "uses (?P - {lh s ! t}) {} s''"
      "eff s' [(lh s ! t, content s (start s + t + 1))] s''"
      using install_block_ok [of ?P s' t r] t I fin r' home_nth(1) [OF h t t] by (cases r) auto
    moreover have "?P - {lh s ! t} = P - set (take (Suc t) (lh s))"
      using t by (auto simp: take_Suc_conv_app_nth)
    ultimately show ?thesis
      using t I home_nth(1) [OF h t, THEN not_sym] more_lst(1,2) [of s'' s'] by (auto simp: eff_def)
  qed
  from for_tail_ok [where I = ?I and m = 0 and s = s and n = ?n and body = "install_block r", OF this] u
  obtain s' where "install_trans r s = Some s'" "uses (P - set (take ?n (lh s))) {} s'"
    "eff s (home_writes (start s) (lh s) (content s)) s'"
    unfolding install_trans_def home_writes_def take_0 list.set(1) Diff_empty by blast
  then show ?thesis using r by (auto split: if_splits)
qed


section \<open>Commit and recovery as sequences of disk writes\<close>

definition commit_writes :: "nat \<Rightarrow> nat list \<Rightarrow> (nat \<Rightarrow> block) \<Rightarrow> (nat \<times> block) list" where
  "commit_writes st bs c =
     (let h = set_header bs (c st) in
      log_writes st bs c @ [(st, h)] @ map (\<lambda>b. (b, c b)) bs @ [(st, set_header [] h)])"

definition recovery_writes :: "nat \<Rightarrow> (nat \<Rightarrow> block) \<Rightarrow> (nat \<times> block) list" where
  "recovery_writes st d = home_writes st (hdr_blocks (d st)) d @ [(st, set_header [] (d st))]"

lemma apply_log_writes:
  assumes h: "home st bs"
  shows "b \<notin> log_area st \<Longrightarrow> apply_writes (log_writes st bs c) d b = d b"
    "apply_writes (log_writes st bs c) d st = d st"
    "t < length bs \<Longrightarrow> apply_writes (log_writes st bs c) d (st + t + 1) = c (bs ! t)"
proof -
  have l: "length bs \<le> LOGBLOCKS" using h by (simp add: home_def)
  show "apply_writes (log_writes st bs c) d b = d b" if "b \<notin> log_area st"
    using that l by (intro apply_writes_other) (auto simp: log_writes_def log_area_def)
  show "apply_writes (log_writes st bs c) d st = d st"
    by (intro apply_writes_other) (auto simp: log_writes_def)
  have "apply_writes (map (\<lambda>t. (st + t + 1, c (bs ! t))) [0..<n]) d (st + t + 1) = c (bs ! t)" if "t < n" for t n
    using that by (induction n) (auto simp: less_Suc_eq)
  then show "t < length bs \<Longrightarrow> apply_writes (log_writes st bs c) d (st + t + 1) = c (bs ! t)"
    by (simp add: log_writes_def)
qed

lemma home_writes_logged:
  assumes "home st bs"
  shows "home_writes st bs (d(st := x)) = home_writes st bs d"
    "(\<And>t. t < length bs \<Longrightarrow> d (st + t + 1) = c (bs ! t)) \<Longrightarrow> home_writes st bs d = map (\<lambda>b. (b, c b)) bs"
  by (auto simp: home_writes_def intro!: nth_equalityI)

lemma map_fst_home_writes: "map fst (home_writes st bs d) = bs"
  by (auto simp: home_writes_def intro!: nth_equalityI)

lemma fst_home_writes: "fst ` set (home_writes st bs d) = set bs"
  using map_fst_home_writes [of st bs d] by (metis set_map)

lemma home_not_in: "home st bs \<Longrightarrow> st + t \<notin> set bs" if "t \<le> LOGBLOCKS" for t
  using that by (auto simp: home_def log_area_def disjoint_iff)

lemma commit_ok:
  assumes u: "uses (set (lh s)) {} s" and h: "home (start s) (lh s)"
    and n: "0 < length (lh s)" "length (lh s) < NBUF"
  shows "\<exists>s'. commit s = Some s' \<and> uses {} {} s' \<and> lh s' = [] \<and> start s' = start s \<and>
     writes s' = writes s @ commit_writes (start s) (lh s) (content s) \<and>
     disk s' = apply_writes (commit_writes (start s) (lh s) (content s)) (disk s) \<and>
     content s' = apply_writes (commit_writes (start s) (lh s) (content s)) (content s)"
proof -
  let ?st = "start s" and ?bs = "lh s" and ?c = "content s"
  have card: "card (set ?bs) < NBUF" using n(2) card_length [of ?bs] by linarith
  have st: "?st \<notin> set ?bs" using home_not_in [of 0, OF _ h] by simp
  obtain s1 where 1: "write_log s = Some s1" "uses (set ?bs) {} s1" "eff s (log_writes ?st ?bs ?c) s1"
    using write_log_ok [OF u h n(2)] by blast
  then have e1: "start s1 = ?st" "lh s1 = ?bs" "content s1 ?st = ?c ?st"
    "t < length ?bs \<Longrightarrow> content s1 (?st + t + 1) = ?c (?bs ! t)" for t
    using more_lst [of s1 s] apply_log_writes [OF h] by (auto simp: eff_def)
  let ?h = "set_header ?bs (?c ?st)"
  obtain s2 where 2: "write_head s1 = Some s2" "uses (set ?bs) {} s2" "eff s1 [(?st, ?h)] s2"
    using write_head_ok [OF 1(2) _ card] st e1 by auto
  then have e2: "start s2 = ?st" "lh s2 = ?bs" "content s2 ?st = ?h"
    "t < length ?bs \<Longrightarrow> content s2 (?st + t + 1) = ?c (?bs ! t)" for t
    using more_lst(1,2) [of s2 s1] e1 by (auto simp: eff_def)
  have hw: "home_writes ?st ?bs (content s2) = map (\<lambda>b. (b, ?c b)) ?bs"
    using home_writes_logged(2) [OF h] e2(4) by simp
  obtain s3 where 3: "install_trans False s2 = Some s3" "uses {} {} s3" "eff s2 (map (\<lambda>b. (b, ?c b)) ?bs) s3"
    using install_trans_ok [OF 2(2), of False] h n(2) e2 hw by auto
  have e3: "start s3 = ?st" "content s3 ?st = ?h"
    using 3(3) more_lst(1) [of s3 s2] e2 st apply_writes_other [of ?st "map (\<lambda>b. (b, ?c b)) ?bs"]
    by (auto simp: eff_def image_iff)
  obtain s4 where 4: "write_head (s3\<lparr>lh := []\<rparr>) = Some s4" "uses {} {} s4"
    "eff (s3\<lparr>lh := []\<rparr>) [(?st, set_header [] ?h)] s4"
    using write_head_ok [of "{}" "s3\<lparr>lh := []\<rparr>"] 3(2) e3 by (auto simp: NBUF_def)
  have "commit s = Some s4" using n 1(1) 2(1) 3(1) 4(1) by (simp add: commit_def)
  moreover have "lh s4 = []" "start s4 = ?st"
    using 4(3) more_lst(1,2) [of s4 "s3\<lparr>lh := []\<rparr>"] e3 by (auto simp: eff_def)
  moreover have "eff (s3\<lparr>lh := []\<rparr>) ws s4 \<Longrightarrow> writes s4 = writes s3 @ ws \<and> disk s4 = apply_writes ws (disk s3) \<and>
     content s4 = apply_writes ws (content s3)" for ws by (simp add: eff_def)
  ultimately show ?thesis
    using 1(3) 2(3) 3(3) 4(2,3) by (auto simp: eff_def commit_writes_def Let_def)
qed

end
