(* ===== verification/Fs.thy ===== *)
theory Fs
  imports Log
begin

text \<open>
  The file system below the system calls (\<^verbatim>\<open>xv6/kernel/fs.c\<close>, \<^verbatim>\<open>fs.h\<close>): the block allocator, inodes
  on disk and in memory, file contents, directories and path names. Every operation works
  through the buffer cache and the log, call by call. An inode in memory is a slot of the
  inode table; an operation that panics, or that would wait for a lock, is \<open>None\<close>. Messages
  on the console are not modelled. Copying between a block and the caller's memory (\<^verbatim>\<open>either_copyout\<close>,
  \<^verbatim>\<open>either_copyin\<close> of \<^verbatim>\<open>proc.c\<close>) is an argument of \<open>readi\<close> and \<open>writei\<close>.
\<close>

unbundle bit_operations_syntax

section \<open>Layout\<close>

definition ROOTINO :: nat where "ROOTINO = 1"
definition FSMAGIC :: "32 word" where "FSMAGIC = 0x10203040"
definition NDIRECT :: nat where "NDIRECT = 12"
definition NINDIRECT :: nat where "NINDIRECT = BSIZE div 4"
definition MAXFILE :: nat where "MAXFILE = NDIRECT + NINDIRECT"
definition NINODE :: nat where "NINODE = 50"
definition DIRSIZ :: nat where "DIRSIZ = 14"
definition T_DIR :: "16 word" where "T_DIR = 1"

text \<open>Inodes per block and bits of the free map per block.\<close>

definition IPB :: nat where "IPB = BSIZE div 64"
definition BPB :: nat where "BPB = BSIZE * 8"

record superblock =
  magic :: "32 word"
  sb_size :: nat
  nblocks :: nat
  ninodes :: nat
  nlog :: nat
  logstart :: nat
  inodestart :: nat
  bmapstart :: nat

definition IBLOCK :: "nat \<Rightarrow> superblock \<Rightarrow> nat" where
  "IBLOCK i b = i div IPB + inodestart b"

definition BBLOCK :: "nat \<Rightarrow> superblock \<Rightarrow> nat" where
  "BBLOCK i b = i div BPB + bmapstart b"

section \<open>Structures in a block\<close>

text \<open>A block is a list of 32-bit words, least significant byte first.\<close>

definition word_bytes :: "32 word \<Rightarrow> 8 word list" where
  "word_bytes w = map (\<lambda>k. ucast (drop_bit (8 * k) w)) [0..<4]"

definition bytes_word :: "8 word list \<Rightarrow> 32 word" where
  "bytes_word bs = fold (\<lambda>k w. w OR push_bit (8 * k) (ucast (bs ! k))) [0..<4] 0"

definition bytes_of :: "block \<Rightarrow> 8 word list" where
  "bytes_of b = concat (map word_bytes b)"

definition block_of :: "8 word list \<Rightarrow> block" where
  "block_of bs = map (\<lambda>i. bytes_word (take 4 (drop (4 * i) bs))) [0..<length bs div 4]"

text \<open>Replacing the bytes of a block from \<open>off\<close> on.\<close>

definition put_bytes :: "nat \<Rightarrow> 8 word list \<Rightarrow> block \<Rightarrow> block" where
  "put_bytes off bs b = block_of (take off (bytes_of b) @ bs @ drop (off + length bs) (bytes_of b))"

text \<open>Bit \<open>i\<close> of the free map: bit \<open>i mod 8\<close> of byte \<open>i div 8\<close>.\<close>

definition map_bit :: "block \<Rightarrow> nat \<Rightarrow> bool" where
  "map_bit b i = bit (b ! (i div 32)) (i mod 32)"

definition set_map_bit :: "nat \<Rightarrow> bool \<Rightarrow> block \<Rightarrow> block" where
  "set_map_bit i v b =
     (let m = push_bit (i mod 32) 1 in
      b[i div 32 := (if v then b ! (i div 32) OR m else b ! (i div 32) AND NOT m)])"

record dinode =
  dtype :: "16 word"
  dmajor :: "16 word"
  dminor :: "16 word"
  dnlink :: "16 word"
  dsize :: "32 word"
  daddrs :: "32 word list"

text \<open>Four 16-bit fields in two words, the size, and \<^verbatim>\<open>NDIRECT + 1\<close> block numbers.\<close>

definition get_dinode :: "block \<Rightarrow> nat \<Rightarrow> dinode" where
  "get_dinode b k =
     (let w = drop (16 * k) b in
      \<lparr>dtype = ucast (w ! 0), dmajor = ucast (drop_bit 16 (w ! 0)),
       dminor = ucast (w ! 1), dnlink = ucast (drop_bit 16 (w ! 1)),
       dsize = w ! 2, daddrs = take (NDIRECT + 1) (drop 3 w)\<rparr>)"

definition dinode_words :: "dinode \<Rightarrow> 32 word list" where
  "dinode_words d =
     [ucast (dtype d) OR push_bit 16 (ucast (dmajor d)), ucast (dminor d) OR push_bit 16 (ucast (dnlink d)), dsize d] @ daddrs d"

definition put_dinode :: "nat \<Rightarrow> dinode \<Rightarrow> block \<Rightarrow> block" where
  "put_dinode k d b = take (16 * k) b @ dinode_words d @ drop (16 * k + 16) b"

definition zero_dinode :: dinode where
  "zero_dinode = \<lparr>dtype = 0, dmajor = 0, dminor = 0, dnlink = 0, dsize = 0, daddrs = replicate (NDIRECT + 1) 0\<rparr>"

definition get_superblock :: "block \<Rightarrow> superblock" where
  "get_superblock b =
     \<lparr>magic = b ! 0, sb_size = unat (b ! 1), nblocks = unat (b ! 2), ninodes = unat (b ! 3), nlog = unat (b ! 4),
      logstart = unat (b ! 5), inodestart = unat (b ! 6), bmapstart = unat (b ! 7)\<rparr>"

section \<open>State\<close>

record inode =
  idev :: nat
  inum :: nat
  ref :: nat
  ilk :: sleeplock
  ivalid :: bool
  itype :: "16 word"
  imajor :: "16 word"
  iminor :: "16 word"
  nlink :: "16 word"
  isize :: "32 word"
  addrs :: "32 word list"

record fsst =
  ls :: lst
  sb :: superblock
  itable :: "inode list"

definition ino :: "fsst \<Rightarrow> nat \<Rightarrow> inode" where
  "ino s ip = itable s ! ip"

definition upd_ino :: "nat \<Rightarrow> (inode \<Rightarrow> inode) \<Rightarrow> fsst \<Rightarrow> fsst" where
  "upd_ino ip f s = s\<lparr>itable := (itable s)[ip := f (itable s ! ip)]\<rparr>"

text \<open>The operations of the layers below on this state.\<close>

definition fbread :: "nat \<Rightarrow> nat \<Rightarrow> fsst \<Rightarrow> (nat \<times> fsst) option" where
  "fbread d bno s = do { (i, l) \<leftarrow> bread d bno (ls s); Some (i, s\<lparr>ls := l\<rparr>) }"

definition fbrelse :: "nat \<Rightarrow> fsst \<Rightarrow> fsst option" where
  "fbrelse i s = do { l \<leftarrow> brelse i (ls s); Some (s\<lparr>ls := l\<rparr>) }"

definition bdata :: "nat \<Rightarrow> fsst \<Rightarrow> block" where
  "bdata i s = data (buf_at (ls s) i)"

text \<open>The holder of a buffer changes it and logs it.\<close>

definition flog_write :: "nat \<Rightarrow> block \<Rightarrow> fsst \<Rightarrow> fsst option" where
  "flog_write i b s = do { l \<leftarrow> log_write i (set_data i b (ls s)); Some (s\<lparr>ls := l\<rparr>) }"

section \<open>Blocks\<close>

definition readsb :: "nat \<Rightarrow> fsst \<Rightarrow> fsst option" where
  "readsb d s = do {
     (bp, s) \<leftarrow> fbread d 1 s;
     fbrelse bp (s\<lparr>sb := get_superblock (bdata bp s)\<rparr>)
   }"

definition bzero :: "nat \<Rightarrow> nat \<Rightarrow> fsst \<Rightarrow> fsst option" where
  "bzero d bno s = do {
     (bp, s) \<leftarrow> fbread d bno s;
     s \<leftarrow> flog_write bp zero_block s;
     fbrelse bp s
   }"

text \<open>The first clear bit among the first \<open>n\<close>.\<close>

definition find_clear :: "block \<Rightarrow> nat \<Rightarrow> nat option" where
  "find_clear b n = List.find (\<lambda>bi. \<not> map_bit b bi) [0..<n]"

fun balloc_loop :: "nat \<Rightarrow> nat list \<Rightarrow> fsst \<Rightarrow> (nat \<times> fsst) option" where
  "balloc_loop d [] s = Some (0, s)"
| "balloc_loop d (b # bs) s = do {
     (bp, s) \<leftarrow> fbread d (BBLOCK b (sb s)) s;
     (case find_clear (bdata bp s) (min BPB (sb_size (sb s) - b)) of
        Some bi \<Rightarrow> do {
          s \<leftarrow> flog_write bp (set_map_bit bi True (bdata bp s)) s;
          s \<leftarrow> fbrelse bp s;
          s \<leftarrow> bzero d (b + bi) s;
          Some (b + bi, s)
        }
      | None \<Rightarrow> do { s \<leftarrow> fbrelse bp s; balloc_loop d bs s })
   }"

text \<open>The first blocks of the stretches that a block of the free map covers: 0, \<^verbatim>\<open>BPB\<close>, \<dots>, below \<^verbatim>\<open>sb.size\<close>.\<close>

definition stretches :: "superblock \<Rightarrow> nat list" where
  "stretches b = map (\<lambda>k. k * BPB) [0..<(sb_size b + BPB - 1) div BPB]"

definition balloc :: "nat \<Rightarrow> fsst \<Rightarrow> (nat \<times> fsst) option" where
  "balloc d s = balloc_loop d (stretches (sb s)) s"

definition bfree :: "nat \<Rightarrow> nat \<Rightarrow> fsst \<Rightarrow> fsst option" where
  "bfree d b s = do {
     (bp, s) \<leftarrow> fbread d (BBLOCK b (sb s)) s;
     if \<not> map_bit (bdata bp s) (b mod BPB) then None
     else do {
       s \<leftarrow> flog_write bp (set_map_bit (b mod BPB) False (bdata bp s)) s;
       fbrelse bp s
     }
   }"

section \<open>Inodes\<close>

definition zero_inode :: inode where
  "zero_inode = \<lparr>idev = 0, inum = 0, ref = 0, ilk = initsleeplock, ivalid = False, itype = 0, imajor = 0, iminor = 0,
     nlink = 0, isize = 0, addrs = replicate (NDIRECT + 1) 0\<rparr>"

definition iinit :: "fsst \<Rightarrow> fsst" where
  "iinit s = s\<lparr>itable := replicate NINODE zero_inode\<rparr>"

definition iget :: "nat \<Rightarrow> nat \<Rightarrow> fsst \<Rightarrow> (nat \<times> fsst) option" where
  "iget d n s =
     (case List.find (\<lambda>ip. 0 < ref (ino s ip) \<and> idev (ino s ip) = d \<and> inum (ino s ip) = n) [0..<NINODE] of
        Some ip \<Rightarrow> Some (ip, upd_ino ip (\<lambda>i. i\<lparr>ref := ref i + 1\<rparr>) s)
      | None \<Rightarrow>
          (case List.find (\<lambda>ip. ref (ino s ip) = 0) [0..<NINODE] of
             None \<Rightarrow> None
           | Some ip \<Rightarrow> Some (ip, upd_ino ip (\<lambda>i. i\<lparr>idev := d, inum := n, ref := 1, ivalid := False\<rparr>) s)))"

text \<open>The result is the slot, or the outer \<open>None\<close> for a panic and the inner one for a null pointer.\<close>

fun ialloc_loop :: "nat \<Rightarrow> 16 word \<Rightarrow> nat list \<Rightarrow> fsst \<Rightarrow> (nat option \<times> fsst) option" where
  "ialloc_loop d t [] s = Some (None, s)"
| "ialloc_loop d t (n # ns) s = do {
     (bp, s) \<leftarrow> fbread d (IBLOCK n (sb s)) s;
     if dtype (get_dinode (bdata bp s) (n mod IPB)) = 0 then do {
       s \<leftarrow> flog_write bp (put_dinode (n mod IPB) (zero_dinode\<lparr>dtype := t\<rparr>) (bdata bp s)) s;
       s \<leftarrow> fbrelse bp s;
       (ip, s) \<leftarrow> iget d n s;
       Some (Some ip, s)
     }
     else do { s \<leftarrow> fbrelse bp s; ialloc_loop d t ns s }
   }"

definition ialloc :: "nat \<Rightarrow> 16 word \<Rightarrow> fsst \<Rightarrow> (nat option \<times> fsst) option" where
  "ialloc d t s = ialloc_loop d t [1..<ninodes (sb s)] s"

definition to_dinode :: "inode \<Rightarrow> dinode" where
  "to_dinode i = \<lparr>dtype = itype i, dmajor = imajor i, dminor = iminor i, dnlink = nlink i, dsize = isize i, daddrs = addrs i\<rparr>"

definition iupdate :: "nat \<Rightarrow> fsst \<Rightarrow> fsst option" where
  "iupdate ip s = do {
     (bp, s) \<leftarrow> fbread (idev (ino s ip)) (IBLOCK (inum (ino s ip)) (sb s)) s;
     s \<leftarrow> flog_write bp (put_dinode (inum (ino s ip) mod IPB) (to_dinode (ino s ip)) (bdata bp s)) s;
     fbrelse bp s
   }"

definition idup :: "nat \<Rightarrow> fsst \<Rightarrow> fsst" where
  "idup ip s = upd_ino ip (\<lambda>i. i\<lparr>ref := ref i + 1\<rparr>) s"

definition load_inode :: "dinode \<Rightarrow> inode \<Rightarrow> inode" where
  "load_inode d i = i\<lparr>itype := dtype d, imajor := dmajor d, iminor := dminor d, nlink := dnlink d,
     isize := dsize d, addrs := daddrs d\<rparr>"

definition ilock :: "nat \<Rightarrow> fsst \<Rightarrow> fsst option" where
  "ilock ip s =
     (if ref (ino s ip) < 1 then None
      else do {
        lk \<leftarrow> acquiresleep (me (ls s)) (ilk (ino s ip));
        let s = upd_ino ip (\<lambda>i. i\<lparr>ilk := lk\<rparr>) s in
        if ivalid (ino s ip) then Some s
        else do {
          (bp, s) \<leftarrow> fbread (idev (ino s ip)) (IBLOCK (inum (ino s ip)) (sb s)) s;
          let s = upd_ino ip (load_inode (get_dinode (bdata bp s) (inum (ino s ip) mod IPB))) s in
          do {
            s \<leftarrow> fbrelse bp s;
            let s = upd_ino ip (\<lambda>i. i\<lparr>ivalid := True\<rparr>) s in
            if itype (ino s ip) = 0 then None else Some s
          }
        }
      })"

definition iunlock :: "nat \<Rightarrow> fsst \<Rightarrow> fsst option" where
  "iunlock ip s =
     (if \<not> holdingsleep (me (ls s)) (ilk (ino s ip)) \<or> ref (ino s ip) < 1 then None
      else Some (upd_ino ip (\<lambda>i. i\<lparr>ilk := releasesleep (ilk i)\<rparr>) s))"

definition ifree :: "nat \<Rightarrow> nat \<Rightarrow> fsst \<Rightarrow> fsst option" where
  "ifree d n s = do {
     (bp, s) \<leftarrow> fbread d (IBLOCK n (sb s)) s;
     s \<leftarrow> flog_write bp (put_dinode (n mod IPB) ((get_dinode (bdata bp s) (n mod IPB))\<lparr>dtype := 0\<rparr>) (bdata bp s)) s;
     fbrelse bp s
   }"


section \<open>Contents of an inode\<close>

definition set_addr :: "nat \<Rightarrow> nat \<Rightarrow> inode \<Rightarrow> inode" where
  "set_addr k a i = i\<lparr>addrs := (addrs i)[k := of_nat a]\<rparr>"

text \<open>Entry \<open>bn\<close> of the indirect block \<open>a\<close>, allocated when it is 0.\<close>

definition bmap_load :: "nat \<Rightarrow> nat \<Rightarrow> nat \<Rightarrow> fsst \<Rightarrow> (nat \<times> fsst) option" where
  "bmap_load ip a bn s = do {
     (bp, s) \<leftarrow> fbread (idev (ino s ip)) a s;
     if bdata bp s ! bn = 0 then do {
       (a, s) \<leftarrow> balloc (idev (ino s ip)) s;
       s \<leftarrow> (if a = 0 then Some s else flog_write bp ((bdata bp s)[bn := of_nat a]) s);
       s \<leftarrow> fbrelse bp s;
       Some (a, s)
     }
     else (let a = unat (bdata bp s ! bn) in do { s \<leftarrow> fbrelse bp s; Some (a, s) })
   }"

definition bmap :: "nat \<Rightarrow> nat \<Rightarrow> fsst \<Rightarrow> (nat \<times> fsst) option" where
  "bmap ip bn s =
     (if bn < NDIRECT then
        (if addrs (ino s ip) ! bn = 0 then do {
           (a, s) \<leftarrow> balloc (idev (ino s ip)) s;
           Some (a, if a = 0 then s else upd_ino ip (set_addr bn a) s)
         }
         else Some (unat (addrs (ino s ip) ! bn), s))
      else if bn - NDIRECT < NINDIRECT then do {
        (a, s) \<leftarrow> (if addrs (ino s ip) ! NDIRECT = 0 then do {
            (a, s) \<leftarrow> balloc (idev (ino s ip)) s;
            Some (a, if a = 0 then s else upd_ino ip (set_addr NDIRECT a) s)
          }
          else Some (unat (addrs (ino s ip) ! NDIRECT), s));
        if a = 0 then Some (0, s) else bmap_load ip a (bn - NDIRECT) s
      }
      else None)"

fun trunc_direct :: "nat \<Rightarrow> nat list \<Rightarrow> fsst \<Rightarrow> fsst option" where
  "trunc_direct ip [] s = Some s"
| "trunc_direct ip (i # is) s =
     (if addrs (ino s ip) ! i \<noteq> 0 then do {
        s \<leftarrow> bfree (idev (ino s ip)) (unat (addrs (ino s ip) ! i)) s;
        trunc_direct ip is (upd_ino ip (set_addr i 0) s)
      }
      else trunc_direct ip is s)"

text \<open>The entries of the indirect block, which buffer \<open>bp\<close> holds.\<close>

fun trunc_entries :: "nat \<Rightarrow> nat \<Rightarrow> nat list \<Rightarrow> fsst \<Rightarrow> fsst option" where
  "trunc_entries d bp [] s = Some s"
| "trunc_entries d bp (j # js) s =
     (if bdata bp s ! j \<noteq> 0 then do { s \<leftarrow> bfree d (unat (bdata bp s ! j)) s; trunc_entries d bp js s }
      else trunc_entries d bp js s)"

definition trunc_indirect :: "nat \<Rightarrow> fsst \<Rightarrow> fsst option" where
  "trunc_indirect ip s =
     (if addrs (ino s ip) ! NDIRECT \<noteq> 0 then do {
        (bp, s) \<leftarrow> fbread (idev (ino s ip)) (unat (addrs (ino s ip) ! NDIRECT)) s;
        s \<leftarrow> trunc_entries (idev (ino s ip)) bp [0..<NINDIRECT] s;
        s \<leftarrow> fbrelse bp s;
        s \<leftarrow> bfree (idev (ino s ip)) (unat (addrs (ino s ip) ! NDIRECT)) s;
        Some (upd_ino ip (set_addr NDIRECT 0) s)
      }
      else Some s)"

definition itrunc :: "nat \<Rightarrow> fsst \<Rightarrow> fsst option" where
  "itrunc ip s = do {
     s \<leftarrow> trunc_direct ip [0..<NDIRECT] s;
     s \<leftarrow> trunc_indirect ip s;
     iupdate ip (upd_ino ip (\<lambda>i. i\<lparr>isize := 0\<rparr>) s)
   }"

definition iput :: "nat \<Rightarrow> fsst \<Rightarrow> fsst option" where
  "iput ip s =
     (let last = (ref (ino s ip) = 1 \<and> ivalid (ino s ip) \<and> nlink (ino s ip) = 0);
          d = idev (ino s ip); n = inum (ino s ip) in do {
        s \<leftarrow> (if last then do {
            lk \<leftarrow> acquiresleep (me (ls s)) (ilk (ino s ip));
            s \<leftarrow> itrunc ip (upd_ino ip (\<lambda>i. i\<lparr>ilk := lk\<rparr>) s);
            Some (upd_ino ip (\<lambda>i. i\<lparr>ivalid := False, ilk := releasesleep (ilk i)\<rparr>) s)
          }
          else Some s);
        let s = upd_ino ip (\<lambda>i. i\<lparr>ref := ref i - 1\<rparr>) s in
        if last then ifree d n s else Some s
      })"

definition iunlockput :: "nat \<Rightarrow> fsst \<Rightarrow> fsst option" where
  "iunlockput ip s = do { s \<leftarrow> iunlock ip s; iput ip s }"

definition fbegin_op :: "fsst \<Rightarrow> fsst option" where
  "fbegin_op s = do { l \<leftarrow> begin_op (ls s); Some (s\<lparr>ls := l\<rparr>) }"

definition fend_op :: "fsst \<Rightarrow> fsst option" where
  "fend_op s = do {
     (do_commit, l) \<leftarrow> end_op (ls s);
     l \<leftarrow> (if do_commit then commit_op l else Some l);
     Some (s\<lparr>ls := l\<rparr>)
   }"

fun ireclaim_loop :: "nat \<Rightarrow> nat list \<Rightarrow> fsst \<Rightarrow> fsst option" where
  "ireclaim_loop d [] s = Some s"
| "ireclaim_loop d (n # ns) s = do {
     (bp, s) \<leftarrow> fbread d (IBLOCK n (sb s)) s;
     let dip = get_dinode (bdata bp s) (n mod IPB) in
     if dtype dip \<noteq> 0 \<and> dnlink dip = 0 then do {
       (ip, s) \<leftarrow> iget d n s;
       s \<leftarrow> fbrelse bp s;
       s \<leftarrow> fbegin_op s;
       s \<leftarrow> ilock ip s;
       s \<leftarrow> iunlock ip s;
       s \<leftarrow> iput ip s;
       s \<leftarrow> fend_op s;
       ireclaim_loop d ns s
     }
     else do { s \<leftarrow> fbrelse bp s; ireclaim_loop d ns s }
   }"

definition ireclaim :: "nat \<Rightarrow> fsst \<Rightarrow> fsst option" where
  "ireclaim d s = ireclaim_loop d [1..<ninodes (sb s)] s"

definition fsinit :: "nat \<Rightarrow> fsst \<Rightarrow> fsst option" where
  "fsinit d s = do {
     s \<leftarrow> readsb d s;
     if magic (sb s) \<noteq> FSMAGIC then None
     else do {
       l \<leftarrow> initlog (logstart (sb s)) (ls s);
       ireclaim d (s\<lparr>ls := l\<rparr>)
     }
   }"

record stat =
  st_dev :: nat
  st_ino :: nat
  st_type :: "16 word"
  st_nlink :: "16 word"
  st_size :: "64 word"

definition stati :: "nat \<Rightarrow> fsst \<Rightarrow> stat" where
  "stati ip s = \<lparr>st_dev = idev (ino s ip), st_ino = inum (ino s ip), st_type = itype (ino s ip),
     st_nlink = nlink (ino s ip), st_size = ucast (isize (ino s ip))\<rparr>"

section \<open>Reading and writing\<close>

text \<open>
  \<^verbatim>\<open>either_copyout\<close>: whether the destination is a user address, the destination, the bytes; it
  gives its result and the new memory. \<^verbatim>\<open>either_copyin\<close>: the source and the number of bytes; it
  gives its result and the bytes it has copied, all of them unless it fails.
\<close>

type_synonym 'm copyout_fn = "bool \<Rightarrow> 64 word \<Rightarrow> 8 word list \<Rightarrow> 'm \<Rightarrow> int \<times> 'm"
type_synonym copyin_fn = "bool \<Rightarrow> 64 word \<Rightarrow> nat \<Rightarrow> int \<times> 8 word list"

text \<open>The part of the block at \<open>off\<close> that one round of the loops transfers.\<close>

definition transfer :: "nat \<Rightarrow> nat \<Rightarrow> nat" where
  "transfer off left = min left (BSIZE - off mod BSIZE)"

lemma transfer_pos: "0 < n \<Longrightarrow> 0 < transfer off n"
  by (simp add: transfer_def BSIZE_def)

lemma transfer_less: "tot < n \<Longrightarrow> n - (tot + transfer off (n - tot)) < n - tot"
  using transfer_pos [of "n - tot" off] by simp

text \<open>One round: \<open>k\<close> bytes of the block \<open>a\<close>.\<close>

definition read_part :: "'m copyout_fn \<Rightarrow> nat \<Rightarrow> bool \<Rightarrow> 64 word \<Rightarrow> nat \<Rightarrow> nat \<Rightarrow> nat \<Rightarrow> 'm \<Rightarrow> fsst \<Rightarrow> (int \<times> 'm \<times> fsst) option" where
  "read_part cp ip user dst off k a m s = do {
     (bp, s) \<leftarrow> fbread (idev (ino s ip)) a s;
     let (r, m) = cp user dst (take k (drop (off mod BSIZE) (bytes_of (bdata bp s)))) m in
     do { s \<leftarrow> fbrelse bp s; Some (r, m, s) }
   }"

function readi_loop :: "'m copyout_fn \<Rightarrow> nat \<Rightarrow> bool \<Rightarrow> 64 word \<Rightarrow> nat \<Rightarrow> nat \<Rightarrow> nat \<Rightarrow> 'm \<Rightarrow> fsst \<Rightarrow> (int \<times> 'm \<times> fsst) option" where
  "readi_loop cp ip user dst off tot n m s =
     (if tot < n then do {
        (a, s) \<leftarrow> bmap ip (off div BSIZE) s;
        if a = 0 then Some (int tot, m, s)
        else
          (let k = transfer off (n - tot) in do {
             (r, m, s) \<leftarrow> read_part cp ip user dst off k a m s;
             if r = - 1 then Some (- 1, m, s)
             else readi_loop cp ip user (dst + of_nat k) (off + k) (tot + k) n m s
           })
      }
      else Some (int tot, m, s))"
  by pat_completeness auto
termination by (relation "measure (\<lambda>(cp, ip, user, dst, off, tot, n, m, s). n - tot)") (simp_all add: transfer_less)

declare readi_loop.simps [simp del]

definition readi :: "'m copyout_fn \<Rightarrow> nat \<Rightarrow> bool \<Rightarrow> 64 word \<Rightarrow> 32 word \<Rightarrow> 32 word \<Rightarrow> 'm \<Rightarrow> fsst \<Rightarrow> (int \<times> 'm \<times> fsst) option" where
  "readi cp ip user dst off n m s =
     (let size = isize (ino s ip) in
      if off > size \<or> off + n < off then Some (0, m, s)
      else
        (let n = (if off + n > size then size - off else n) in
         readi_loop cp ip user dst (unat off) 0 (unat n) m s))"

definition write_part :: "copyin_fn \<Rightarrow> nat \<Rightarrow> bool \<Rightarrow> 64 word \<Rightarrow> nat \<Rightarrow> nat \<Rightarrow> nat \<Rightarrow> fsst \<Rightarrow> (int \<times> fsst) option" where
  "write_part cp ip user src off k a s = do {
     (bp, s) \<leftarrow> fbread (idev (ino s ip)) a s;
     let (r, bs) = cp user src k in
     do {
       s \<leftarrow> flog_write bp (put_bytes (off mod BSIZE) bs (bdata bp s)) s;
       s \<leftarrow> fbrelse bp s;
       Some (r, s)
     }
   }"

function writei_loop :: "copyin_fn \<Rightarrow> nat \<Rightarrow> bool \<Rightarrow> 64 word \<Rightarrow> nat \<Rightarrow> nat \<Rightarrow> nat \<Rightarrow> fsst \<Rightarrow> (nat \<times> nat \<times> fsst) option" where
  "writei_loop cp ip user src off tot n s =
     (if tot < n then do {
        (a, s) \<leftarrow> bmap ip (off div BSIZE) s;
        if a = 0 then Some (tot, off, s)
        else
          (let k = transfer off (n - tot) in do {
             (r, s) \<leftarrow> write_part cp ip user src off k a s;
             if r = - 1 then Some (tot, off, s)
             else writei_loop cp ip user (src + of_nat k) (off + k) (tot + k) n s
           })
      }
      else Some (tot, off, s))"
  by pat_completeness auto
termination by (relation "measure (\<lambda>(cp, ip, user, src, off, tot, n, s). n - tot)") (simp_all add: transfer_less)

declare writei_loop.simps [simp del]

definition writei :: "copyin_fn \<Rightarrow> nat \<Rightarrow> bool \<Rightarrow> 64 word \<Rightarrow> 32 word \<Rightarrow> 32 word \<Rightarrow> fsst \<Rightarrow> (int \<times> fsst) option" where
  "writei cp ip user src off n s =
     (if off > isize (ino s ip) \<or> off + n < off then Some (- 1, s)
      else if unat (off + n) > MAXFILE * BSIZE then Some (- 1, s)
      else do {
        (tot, off, s) \<leftarrow> writei_loop cp ip user src (unat off) 0 (unat n) s;
        let s = (if off > unat (isize (ino s ip)) then upd_ino ip (\<lambda>i. i\<lparr>isize := of_nat off\<rparr>) s else s) in
        do { s \<leftarrow> iupdate ip s; Some (int tot, s) }
      })"

section \<open>Directories\<close>

definition DIRENT :: nat where "DIRENT = 16"

record dirent =
  de_inum :: "16 word"
  de_name :: "8 word list"

definition get_dirent :: "8 word list \<Rightarrow> dirent" where
  "get_dirent bs = \<lparr>de_inum = ucast (bs ! 0) OR push_bit 8 (ucast (bs ! 1)), de_name = take DIRSIZ (drop 2 bs)\<rparr>"

definition dirent_bytes :: "dirent \<Rightarrow> 8 word list" where
  "dirent_bytes e = [ucast (de_inum e), ucast (drop_bit 8 (de_inum e))] @ de_name e"

text \<open>\<^verbatim>\<open>strncmp(s, t, n) == 0\<close>, where the bytes behind the end of a list are 0.\<close>

fun strncmp_zero :: "nat \<Rightarrow> 8 word list \<Rightarrow> 8 word list \<Rightarrow> bool" where
  "strncmp_zero 0 p q = True"
| "strncmp_zero (Suc n) p q =
     (let a = (if p = [] then 0 else hd p); b = (if q = [] then 0 else hd q) in
      if a \<noteq> 0 \<and> a = b then strncmp_zero n (tl p) (tl q) else a = b)"

definition namecmp :: "8 word list \<Rightarrow> 8 word list \<Rightarrow> bool" where
  "namecmp s t = strncmp_zero DIRSIZ s t"

text \<open>\<^verbatim>\<open>strncpy(de.name, name, DIRSIZ)\<close>: up to the NUL, padded with NULs.\<close>

definition dir_name :: "8 word list \<Rightarrow> 8 word list" where
  "dir_name name = (let p = takeWhile (\<lambda>c. c \<noteq> 0) (take DIRSIZ name) in p @ replicate (DIRSIZ - length p) 0)"

text \<open>Copying to and from a variable of the kernel.\<close>

definition kcopyout :: "8 word list copyout_fn" where
  "kcopyout user dst bs m = (0, take (unat dst) m @ bs @ drop (unat dst + length bs) m)"

definition kcopyin :: "8 word list \<Rightarrow> copyin_fn" where
  "kcopyin m user src n = (0, take n (drop (unat src) m))"

definition read_dirent :: "nat \<Rightarrow> nat \<Rightarrow> fsst \<Rightarrow> (dirent \<times> fsst) option" where
  "read_dirent dp off s = do {
     (r, de, s) \<leftarrow> readi kcopyout dp False 0 (of_nat off) (of_nat DIRENT) (replicate DIRENT 0) s;
     if r \<noteq> int DIRENT then None else Some (get_dirent de, s)
   }"

definition dir_offs :: "nat \<Rightarrow> fsst \<Rightarrow> nat list" where
  "dir_offs dp s = map (\<lambda>k. k * DIRENT) [0..<(unat (isize (ino s dp)) + DIRENT - 1) div DIRENT]"

fun dirlookup_loop :: "nat \<Rightarrow> 8 word list \<Rightarrow> nat list \<Rightarrow> fsst \<Rightarrow> ((nat \<times> nat) option \<times> fsst) option" where
  "dirlookup_loop dp name [] s = Some (None, s)"
| "dirlookup_loop dp name (off # offs) s = do {
     (de, s) \<leftarrow> read_dirent dp off s;
     if de_inum de = 0 then dirlookup_loop dp name offs s
     else if namecmp name (de_name de) then do {
       (ip, s) \<leftarrow> iget (idev (ino s dp)) (unat (de_inum de)) s;
       Some (Some (ip, off), s)
     }
     else dirlookup_loop dp name offs s
   }"

text \<open>The slot of the inode and the offset of the entry, when there is one.\<close>

definition dirlookup :: "nat \<Rightarrow> 8 word list \<Rightarrow> fsst \<Rightarrow> ((nat \<times> nat) option \<times> fsst) option" where
  "dirlookup dp name s =
     (if itype (ino s dp) \<noteq> T_DIR then None else dirlookup_loop dp name (dir_offs dp s) s)"

fun find_empty :: "nat \<Rightarrow> nat list \<Rightarrow> nat \<Rightarrow> fsst \<Rightarrow> (nat \<times> fsst) option" where
  "find_empty dp [] fin s = Some (fin, s)"
| "find_empty dp (off # offs) fin s = do {
     (de, s) \<leftarrow> read_dirent dp off s;
     if de_inum de = 0 then Some (off, s) else find_empty dp offs fin s
   }"

definition dirlink :: "nat \<Rightarrow> 8 word list \<Rightarrow> nat \<Rightarrow> fsst \<Rightarrow> (int \<times> fsst) option" where
  "dirlink dp name n s = do {
     (found, s) \<leftarrow> dirlookup dp name s;
     (case found of
        Some (ip, _) \<Rightarrow> do { s \<leftarrow> iput ip s; Some (- 1, s) }
      | None \<Rightarrow> do {
          (off, s) \<leftarrow> find_empty dp (dir_offs dp s) (length (dir_offs dp s) * DIRENT) s;
          (r, s) \<leftarrow> writei (kcopyin (dirent_bytes \<lparr>de_inum = of_nat n, de_name = dir_name name\<rparr>)) dp False 0
                     (of_nat off) (of_nat DIRENT) s;
          Some (if r \<noteq> int DIRENT then - 1 else 0, s)
        })
   }"

section \<open>Paths\<close>

definition SLASH :: "8 word" where "SLASH = 47"

text \<open>The next element, cut to \<^verbatim>\<open>DIRSIZ\<close> bytes, and the rest of the path behind it. A path ends before its NUL.\<close>

definition skipelem :: "8 word list \<Rightarrow> (8 word list \<times> 8 word list) option" where
  "skipelem p =
     (let p = dropWhile (\<lambda>c. c = SLASH) p in
      if p = [] then None
      else Some (take DIRSIZ (takeWhile (\<lambda>c. c \<noteq> SLASH) p),
                 dropWhile (\<lambda>c. c = SLASH) (dropWhile (\<lambda>c. c \<noteq> SLASH) p)))"

lemma skipelem_shorter: "skipelem p = Some (name, rest) \<Longrightarrow> length rest < length p"
proof -
  assume "skipelem p = Some (name, rest)"
  then obtain q where q: "q = dropWhile (\<lambda>c. c = SLASH) p" "q \<noteq> []" "rest = dropWhile (\<lambda>c. c = SLASH) (dropWhile (\<lambda>c. c \<noteq> SLASH) q)"
    by (auto simp: skipelem_def Let_def split: if_splits)
  obtain c cs where c: "q = c # cs" using q(2) by (meson neq_Nil_conv)
  have "hd q \<noteq> SLASH" using q(1,2) hd_dropWhile [of "\<lambda>c. c = SLASH" p] by simp
  have "length rest \<le> length (dropWhile (\<lambda>c. c \<noteq> SLASH) cs)" using q(3) c \<open>hd q \<noteq> SLASH\<close> by (simp add: length_dropWhile_le)
  also have "\<dots> \<le> length cs" by (rule length_dropWhile_le)
  finally have "length rest \<le> length cs" .
  moreover have "length q \<le> length p" using q(1) length_dropWhile_le by simp
  ultimately show ?thesis using c by simp
qed

function namex_loop :: "8 word list \<Rightarrow> bool \<Rightarrow> nat \<Rightarrow> 8 word list \<Rightarrow> fsst \<Rightarrow> ((nat \<times> 8 word list) option \<times> fsst) option" where
  "namex_loop path parent ip name s =
     (case skipelem path of
        None \<Rightarrow> if parent then do { s \<leftarrow> iput ip s; Some (None, s) } else Some (Some (ip, name), s)
      | Some (name, path) \<Rightarrow> do {
          s \<leftarrow> ilock ip s;
          if itype (ino s ip) \<noteq> T_DIR then do { s \<leftarrow> iunlockput ip s; Some (None, s) }
          else if nlink (ino s ip) = 0 then do { s \<leftarrow> iunlockput ip s; Some (None, s) }
          else if parent \<and> path = [] then do { s \<leftarrow> iunlock ip s; Some (Some (ip, name), s) }
          else do {
            (found, s) \<leftarrow> dirlookup ip name s;
            s \<leftarrow> iunlockput ip s;
            (case found of
               None \<Rightarrow> Some (None, s)
             | Some (next_ip, _) \<Rightarrow> namex_loop path parent next_ip name s)
          }
        })"
  by pat_completeness auto
termination by (relation "measure (\<lambda>(path, parent, ip, name, s). length path)") (auto dest: skipelem_shorter)

declare namex_loop.simps [simp del]

text \<open>\<open>cwd\<close> is the inode of the current directory of the process.\<close>

definition namex :: "nat \<Rightarrow> 8 word list \<Rightarrow> bool \<Rightarrow> fsst \<Rightarrow> ((nat \<times> 8 word list) option \<times> fsst) option" where
  "namex cwd path parent s = do {
     (ip, s) \<leftarrow> (if take 1 path = [SLASH] then iget ROOTDEV ROOTINO s else Some (cwd, idup cwd s));
     namex_loop path parent ip [] s
   }"

definition namei :: "nat \<Rightarrow> 8 word list \<Rightarrow> fsst \<Rightarrow> (nat option \<times> fsst) option" where
  "namei cwd path s = do { (r, s) \<leftarrow> namex cwd path False s; Some (map_option fst r, s) }"

definition nameiparent :: "nat \<Rightarrow> 8 word list \<Rightarrow> fsst \<Rightarrow> ((nat \<times> 8 word list) option \<times> fsst) option" where
  "nameiparent cwd path s = namex cwd path True s"

end
