(* ===== verification/Log_Crash.thy ===== *)
theory Log_Crash
  imports Log
begin

text \<open>
  Crash safety of the log (\<^verbatim>\<open>xv6/kernel/log.c\<close>): what the disk holds after a crash at any of
  the writes of a commit, followed by any number of recoveries that are themselves cut short,
  and a last one that is not. The unit of a crash is one block: \<^verbatim>\<open>virtio_disk_rw\<close> returns when
  the disk has written the block.
\<close>

section \<open>The header block\<close>

lemma set_header_fold:
  assumes "n < length b"
  shows "length (fold (\<lambda>i b. b[i + 1 := f i]) [0..<n] b) = length b"
    "fold (\<lambda>i b. b[i + 1 := f i]) [0..<n] b ! 0 = b ! 0"
    "k < n \<Longrightarrow> fold (\<lambda>i b. b[i + 1 := f i]) [0..<n] b ! (k + 1) = f k"
proof -
  have "length (fold (\<lambda>i b. b[i + 1 := f i]) [0..<n] b) = length b \<and>
    fold (\<lambda>i b. b[i + 1 := f i]) [0..<n] b ! 0 = b ! 0 \<and>
    (\<forall>k < n. fold (\<lambda>i b. b[i + 1 := f i]) [0..<n] b ! (k + 1) = f k)"
    using assms by (induction n) (auto simp: nth_list_update less_Suc_eq)
  then show "length (fold (\<lambda>i b. b[i + 1 := f i]) [0..<n] b) = length b"
    "fold (\<lambda>i b. b[i + 1 := f i]) [0..<n] b ! 0 = b ! 0"
    "k < n \<Longrightarrow> fold (\<lambda>i b. b[i + 1 := f i]) [0..<n] b ! (k + 1) = f k" by blast+
qed

lemma set_header_length: "length bs < length b \<Longrightarrow> length (set_header bs b) = length b"
  using set_header_fold(1) [of "length bs" "b[0 := of_nat (length bs)]"] by (simp add: set_header_def)

lemma hdr_n_set_header:
  assumes "length bs < length b" "length bs < 2 ^ 31"
  shows "hdr_n (set_header bs b) = length bs"
proof -
  have "set_header bs b ! 0 = of_nat (length bs)"
    using set_header_fold(2) [of "length bs" "b[0 := of_nat (length bs)]"] assms(1)
    by (cases b) (simp_all add: set_header_def)
  moreover have "sint (of_nat (length bs) :: 32 word) = int (length bs)"
    using assms(2) by (simp add: signed_of_nat signed_take_bit_int_eq_self)
  ultimately show ?thesis by (simp add: hdr_n_def)
qed

lemma hdr_blocks_set_header:
  assumes "length bs < length b" "length bs < 2 ^ 31" "\<forall>x \<in> set bs. x < 2 ^ 31"
  shows "hdr_blocks (set_header bs b) = bs"
proof (rule nth_equalityI)
  show l: "length (hdr_blocks (set_header bs b)) = length bs"
    using hdr_n_set_header [OF assms(1,2)] by (simp add: hdr_blocks_def)
  fix i assume "i < length (hdr_blocks (set_header bs b))"
  then have i: "i < length bs" using l by simp
  then have "bs ! i < 2 ^ 31" using assms(3) by simp
  then have "unat (of_nat (bs ! i) :: 32 word) = bs ! i" by (simp add: unat_of_nat)
  then show "hdr_blocks (set_header bs b) ! i = bs ! i"
    using hdr_n_set_header [OF assms(1,2)] i assms(1)
      set_header_fold(3) [of "length bs" "b[0 := of_nat (length bs)]" i]
    by (simp add: hdr_blocks_def set_header_def)
qed

section \<open>Recovery\<close>

definition valid_log :: "nat \<Rightarrow> (nat \<Rightarrow> block) \<Rightarrow> bool" where
  "valid_log st d \<longleftrightarrow> home st (hdr_blocks (d st)) \<and> length (d st) = BSIZE div 4"

definition recovered :: "nat \<Rightarrow> (nat \<Rightarrow> block) \<Rightarrow> nat \<Rightarrow> block" where
  "recovered st d = apply_writes (recovery_writes st d) d"

lemma content_idle: "uses {} {} s \<Longrightarrow> content s = disk s"
  using content_unused by fastforce

lemma read_head_ok:
  assumes u: "uses {} {} s" and n: "hdr_n (disk s (start s)) \<le> LOGBLOCKS"
  shows "\<exists>s'. read_head s = Some s' \<and> uses {} {} s' \<and> disk s' = disk s \<and> writes s' = writes s \<and> content s' = content s \<and>
     bst.more s' = bst.more (s\<lparr>lh := hdr_blocks (disk s (start s))\<rparr>)"
proof -
  let ?b = "start s"
  obtain i s1 where 1: "bread ROOTDEV ?b s = Some (i, s1)" "uses {} {?b} s1" "cached s1 ?b i" "same s s1"
    using bread_uses [OF u, of ?b] by (auto simp: NBUF_def)
  have d: "data (buf_at s1 i) = disk s ?b"
    using data_content [OF 1(2,3)] same_lst [OF 1(4)] content_idle [OF u] by simp
  let ?t = "s1\<lparr>lh := hdr_blocks (disk s ?b)\<rparr>"
  obtain s2 where 2: "brelse i ?t = Some s2" "uses {} {} s2" "same ?t s2"
    using brelse_uses [of "{}" "{?b}" ?t ?b i] 1 same_lst [OF 1(4)] content_idle [OF u] by auto
  have "bst.more ?t = bst.more (s\<lparr>lh := hdr_blocks (disk s ?b)\<rparr>)"
    using same_lst(5) [OF 1(4)] by (cases s; cases s1) simp
  then show ?thesis
    using 1(1) 2 d n same_lst [OF 1(4)] by (simp add: read_head_def Let_def same_def)
qed

lemma recover_ok:
  assumes u: "uses {} {} s" and v: "valid_log (start s) (disk s)"
  shows "\<exists>s'. recover_from_log s = Some s' \<and> uses {} {} s' \<and> lh s' = [] \<and> start s' = start s \<and>
     writes s' = writes s @ recovery_writes (start s) (disk s) \<and> disk s' = recovered (start s) (disk s)"
proof -
  let ?st = "start s" and ?d = "disk s"
  let ?bs = "hdr_blocks (?d ?st)"
  have h: "home ?st ?bs" using v by (simp add: valid_log_def)
  then have "hdr_n (?d ?st) \<le> LOGBLOCKS" by (simp add: home_def hdr_blocks_def)
  then obtain s1 where 1: "read_head s = Some s1" "uses {} {} s1" "disk s1 = ?d" "writes s1 = writes s"
    "bst.more s1 = bst.more (s\<lparr>lh := ?bs\<rparr>)"
    using read_head_ok [OF u] by blast
  then have e1: "start s1 = ?st" "lh s1 = ?bs" "content s1 = ?d"
    using more_lst [of s1 "s\<lparr>lh := ?bs\<rparr>"] content_idle [of s1] by auto
  obtain s2 where 2: "install_trans True s1 = Some s2" "uses {} {} s2" "eff s1 (home_writes ?st ?bs ?d) s2"
    using install_trans_ok [OF 1(2), of True] h e1 by auto
  have "?st \<notin> fst ` set (home_writes ?st ?bs ?d)"
    using home_not_in [of 0, OF _ h] by (simp add: fst_home_writes)
  then have e2: "start s2 = ?st" "content s2 ?st = ?d ?st" "disk s2 = apply_writes (home_writes ?st ?bs ?d) ?d"
    "writes s2 = writes s @ home_writes ?st ?bs ?d"
    using 1 2(3) e1 more_lst(1) [of s2 s1] by (auto simp: eff_def apply_writes_other)
  obtain s3 where 3: "write_head (s2\<lparr>lh := []\<rparr>) = Some s3" "uses {} {} s3"
    "eff (s2\<lparr>lh := []\<rparr>) [(?st, set_header [] (?d ?st))] s3"
    using write_head_ok [of "{}" "s2\<lparr>lh := []\<rparr>"] 2(2) e2 by (auto simp: NBUF_def)
  have "lh s3 = []" "start s3 = ?st" "disk s3 = apply_writes [(?st, set_header [] (?d ?st))] (disk s2)"
    "writes s3 = writes s2 @ [(?st, set_header [] (?d ?st))]"
    using 3(3) more_lst(1,2) [of s3 "s2\<lparr>lh := []\<rparr>"] e2 by (auto simp: eff_def)
  then show ?thesis
    using 1(1) 2(1) 3(1,2) e2 by (auto simp: recover_from_log_def recovered_def recovery_writes_def)
qed

lemma apply_home:
  "apply_writes (map (\<lambda>b. (b, c b)) bs) d b = (if b \<in> set bs then c b else d b)"
  by (induction bs arbitrary: d) auto

lemma home_writes_eq:
  assumes "distinct bs"
  shows "home_writes st bs d = map (\<lambda>b. (b, apply_writes (home_writes st bs d) e b)) bs"
proof -
  have *: "apply_writes (map (\<lambda>t. (bs ! t, f t)) [0..<n]) e (bs ! t) = f t" if "t < n" "n \<le> length bs" for t n and f :: "nat \<Rightarrow> block"
    using that
  proof (induction n)
    case (Suc n)
    then show ?case using assms nth_eq_iff_index_eq [of bs t n] by (cases "t = n") auto
  qed simp
  show ?thesis
    by (rule nth_equalityI) (simp_all add: home_writes_def *)
qed

text \<open>
  A disk whose log holds the blocks \<open>bs\<close> with contents \<open>c\<close> recovers to \<open>c\<close> there.
\<close>

lemma recovered_committed:
  assumes v: "home st bs" and h: "hdr_blocks (d st) = bs"
    and c: "\<And>t. t < length bs \<Longrightarrow> d (st + t + 1) = c (bs ! t)" and b: "b \<notin> log_area st"
  shows "recovered st d b = (if b \<in> set bs then c b else d b)"
proof -
  have "b \<noteq> st" using b by (auto simp: log_area_def)
  moreover have "home_writes st bs d = map (\<lambda>b. (b, c b)) bs"
    using v c by (rule home_writes_logged(2))
  ultimately show ?thesis by (simp add: recovered_def recovery_writes_def h apply_home)
qed

lemma recovered_clean:
  assumes "hdr_n (d st) = 0" "b \<notin> log_area st"
  shows "recovered st d b = d b"
  using assms by (auto simp: recovered_def recovery_writes_def hdr_blocks_def home_writes_def log_area_def)

lemma valid_log_clean: "hdr_n (d st) = 0 \<Longrightarrow> length (d st) = BSIZE div 4 \<Longrightarrow> valid_log st d"
  by (simp add: valid_log_def hdr_blocks_def home_def)

lemma hdr_room: "LOGBLOCKS < BSIZE div 4" by (simp add: LOGBLOCKS_def BSIZE_def)

lemma clear_header:
  assumes "length b = BSIZE div 4"
  shows "hdr_n (set_header [] b) = 0" "length (set_header [] b) = BSIZE div 4"
  using hdr_n_set_header [of "[]" b] set_header_length [of "[]" b] assms by (simp_all add: BSIZE_def)

lemma take_map_subset: "fst ` set (take j (map (\<lambda>b. (b, c b)) bs)) \<subseteq> set bs"
  by (auto dest: in_set_takeD)

text \<open>A recovery that is cut short leaves a disk that recovers to the same.\<close>

lemma recovery_cut:
  fixes j :: nat
  assumes v: "valid_log st d"
  defines "d' \<equiv> apply_writes (take j (recovery_writes st d)) d"
  shows "valid_log st d'" "b \<notin> log_area st \<Longrightarrow> recovered st d' b = recovered st d b"
proof -
  let ?bs = "hdr_blocks (d st)"
  have h: "home st ?bs" and l: "length (d st) = BSIZE div 4" using v by (auto simp: valid_log_def)
  then have dist: "distinct ?bs" by (simp add: home_def)
  let ?c = "\<lambda>b. apply_writes (home_writes st ?bs d) d b"
  let ?w = "map (\<lambda>b. (b, ?c b)) ?bs"
  have w: "recovery_writes st d = ?w @ [(st, set_header [] (d st))]"
    using home_writes_eq [OF dist, of st d d] by (simp add: recovery_writes_def)
  have *: "valid_log st d' \<and> (b \<notin> log_area st \<longrightarrow> recovered st d' b = recovered st d b)"
  proof (cases "j \<le> length ?bs")
    case True
    then have d': "d' = apply_writes (take j ?w) d" by (simp add: d'_def w)
    have out: "d' x = d x" if "x \<in> log_area st" for x
      using that h take_map_subset [of j ?c ?bs]
      by (auto simp: d' home_def intro!: apply_writes_other)
    then have st: "d' st = d st" by (simp add: log_area_def)
    have "d' (st + t + 1) = d (st + t + 1)" if "t < length ?bs" for t
      using out [OF home_nth(3) [OF h that that]] .
    then have hw: "home_writes st ?bs d' = home_writes st ?bs d" by (simp add: home_writes_def)
    have "recovered st d' b = recovered st d b" if b: "b \<notin> log_area st"
    proof -
      have "apply_writes ?w d' b = apply_writes ?w d b"
        using apply_writes_other [of b "take j ?w" d] take_map_subset [of j ?c ?bs]
        by (auto simp: apply_home d' subset_iff)
      moreover have "b \<noteq> st" using b by (auto simp: log_area_def)
      ultimately show ?thesis
        using w hw home_writes_eq [OF dist, of st d d] by (simp add: recovered_def recovery_writes_def st)
    qed
    then show ?thesis using v st by (simp add: valid_log_def)
  next
    case False
    then have d': "d' = recovered st d" by (simp add: d'_def w recovered_def)
    then have "d' st = set_header [] (d st)" by (simp add: recovered_def recovery_writes_def)
    then have "hdr_n (d' st) = 0" "length (d' st) = BSIZE div 4" using clear_header [OF l] by simp_all
    then show ?thesis using recovered_clean [of d' st b] valid_log_clean d' by simp
  qed
  show "valid_log st d'" "b \<notin> log_area st \<Longrightarrow> recovered st d' b = recovered st d b" using * by blast+
qed

section \<open>Crashes\<close>

text \<open>A machine that boots on the disk \<open>d\<close>.\<close>

definition restart :: "(nat \<Rightarrow> block) \<Rightarrow> lst" where
  "restart d = binit \<lparr>me = 1, bufs = [], lru = [], disk = d, writes = [],
     start = 0, outstanding = 0, committing = False, ncommit = 0, lh = []\<rparr>"

text \<open>
  \<open>crashed st d d'\<close>: from the disk \<open>d\<close>, any number of boots, each of which crashes after some
  of the writes of its recovery, lead to \<open>d'\<close>.
\<close>

inductive crashed :: "nat \<Rightarrow> (nat \<Rightarrow> block) \<Rightarrow> (nat \<Rightarrow> block) \<Rightarrow> bool" for st d where
  crashed_none: "crashed st d d"
| crashed_again: "crashed st d d' \<Longrightarrow> initlog st (restart d') = Some r \<Longrightarrow>
     crashed st d (apply_writes (take j (writes r)) d')"

text \<open>Whatever happens, the next boot that gets through leaves the blocks \<open>e\<close> outside the log.\<close>

definition survives :: "nat \<Rightarrow> (nat \<Rightarrow> block) \<Rightarrow> (nat \<Rightarrow> block) \<Rightarrow> bool" where
  "survives st d e \<longleftrightarrow> (\<forall>d'. crashed st d d' \<longrightarrow>
     (\<exists>r. initlog st (restart d') = Some r \<and> (\<forall>b. b \<notin> log_area st \<longrightarrow> disk r b = e b) \<and> hdr_n (disk r st) = 0))"

lemma uses_restart: "uses {} {} (restart d)" "disk (restart d) = d" "writes (restart d) = []"
proof -
  let ?z = "\<lparr>me = 1, bufs = [], lru = [], disk = d, writes = [],
     start = 0, outstanding = 0, committing = False, ncommit = 0, lh = []\<rparr>"
  have "buf_at (binit ?z) i = zero_buf" if "i < NBUF" for i
    using that by (simp add: binit_def buf_at_def)
  then show "uses {} {} (restart d)"
    using binv_binit(1) [of ?z]
    by (auto simp: uses_def restart_def zero_buf_def initsleeplock_def ROOTDEV_def)
qed (simp_all add: restart_def binit_def)

lemma start_update [simp]:
  fixes s :: lst
  shows "uses P H (s\<lparr>start := x\<rparr>) = uses P H s"
proof -
  have b: "buf_at (s\<lparr>start := x\<rparr>) = buf_at s" by (simp add: buf_at_def fun_eq_iff)
  have c: "cached (s\<lparr>start := x\<rparr>) = cached s" by (simp add: cached_def fun_eq_iff b)
  show ?thesis by (simp add: uses_def binv_def b c)
qed

lemma initlog_ok:
  assumes "valid_log st d"
  shows "\<exists>r. initlog st (restart d) = Some r \<and> uses {} {} r \<and> lh r = [] \<and> start r = st \<and>
    writes r = recovery_writes st d \<and> disk r = recovered st d"
  using recover_ok [of "(restart d)\<lparr>start := st\<rparr>"] assms by (simp add: uses_restart initlog_def)

lemma valid_log_survives:
  assumes v: "valid_log st d" and e: "\<And>b. b \<notin> log_area st \<Longrightarrow> recovered st d b = e b"
  shows "survives st d e"
  unfolding survives_def
proof (intro allI impI)
  fix d'
  assume "crashed st d d'"
  then have *: "valid_log st d' \<and> (\<forall>b. b \<notin> log_area st \<longrightarrow> recovered st d' b = recovered st d b)"
  proof induction
    case (crashed_again d' r j)
    then have "writes r = recovery_writes st d'" using initlog_ok [of st d'] by auto
    then show ?case using recovery_cut [where st = st and d = d' and j = j] crashed_again by simp
  qed (use v in simp)
  then obtain r where r: "initlog st (restart d') = Some r" "disk r = recovered st d'" using initlog_ok by blast
  have "disk r st = set_header [] (d' st)" by (simp add: r(2) recovered_def recovery_writes_def)
  then have "hdr_n (disk r st) = 0" using clear_header(1) * by (simp add: valid_log_def)
  then show "\<exists>r. initlog st (restart d') = Some r \<and> (\<forall>b. b \<notin> log_area st \<longrightarrow> disk r b = e b) \<and> hdr_n (disk r st) = 0"
    using r * e by simp
qed

text \<open>The disk after the first \<open>k\<close> writes of a commit.\<close>

lemma commit_cut:
  fixes k :: nat
  assumes h: "home st bs" and l: "hdr_n (d st) = 0" "length (d st) = BSIZE div 4"
    and c: "\<And>b. b \<notin> set bs \<Longrightarrow> c b = d b"
  defines "d' \<equiv> apply_writes (take k (commit_writes st bs c)) d"
  shows "survives st d' (if k \<le> length bs then d else c)"
proof -
  let ?n = "length bs"
  have st: "st \<notin> set bs" using home_not_in [of 0, OF _ h] by simp
  let ?h = "set_header bs (c st)" and ?w = "map (\<lambda>b. (b, c b)) bs"
  have lb: "?n < length (c st)" "?n < 2 ^ 31"
    using h l(2) c [OF st] by (simp_all add: home_def LOGBLOCKS_def BSIZE_def)
  have hb: "hdr_blocks ?h = bs" using h hdr_blocks_set_header [OF lb] by (simp add: home_def)
  have hl: "length ?h = BSIZE div 4" using set_header_length [OF lb(1)] c [OF st] l(2) by simp
  have len: "length (log_writes st bs c) = ?n" by (simp add: log_writes_def)
  note ws = commit_writes_def Let_def
  define d1 where "d1 = (apply_writes (log_writes st bs c) d)(st := ?h)"
  have d1: "d1 st = ?h" "t < ?n \<Longrightarrow> d1 (st + t + 1) = c (bs ! t)" "b \<notin> log_area st \<Longrightarrow> d1 b = d b" for t b
    using apply_log_writes [OF h] by (auto simp: d1_def log_area_def)
  have "k \<le> ?n \<or> (\<exists>j. k = ?n + 1 + j \<and> j \<le> ?n) \<or> 2 * ?n + 1 < k" by presburger
  then consider (old) "k \<le> ?n" | (mid) j where "k = ?n + 1 + j" "j \<le> ?n" | (after) "2 * ?n + 1 < k"
    by blast
  then show ?thesis
  proof cases
    case old
    then have d': "d' = apply_writes (take k (log_writes st bs c)) d" by (simp add: d'_def ws len)
    have "set (take k (log_writes st bs c)) \<subseteq> set (log_writes st bs c)" by (rule set_take_subset)
    then have "fst ` set (take k (log_writes st bs c)) \<subseteq> log_area st - {st}"
      using h by (auto simp: log_writes_def log_area_def home_def)
    then have "d' b = d b" if "b \<notin> log_area st - {st}" for b
      using that by (auto simp: d' intro!: apply_writes_other)
    then show ?thesis
      using old l recovered_clean [of d' st] valid_log_clean [of d' st] by (intro valid_log_survives) auto
  next
    case mid
    then have "d' = apply_writes (take j ?w) d1" by (simp add: d'_def ws len d1_def)
    then have out: "d' b = d1 b" if "b \<notin> set (take j bs)" for b
      using that by (auto simp: take_map intro!: apply_writes_other)
    have nin: "x \<in> log_area st \<Longrightarrow> x \<notin> set (take j bs)" for x
      using h by (auto simp: home_def dest: in_set_takeD)
    have d': "d' st = ?h" "t < ?n \<Longrightarrow> d' (st + t + 1) = c (bs ! t)" for t
      using out nin d1 home_nth(3) [OF h, of t t] by (simp_all add: log_area_def)
    have "recovered st d' b = c b" if b: "b \<notin> log_area st" for b
      using recovered_committed [OF h, of d' c b] d' hb b c [of b] out [of b] d1(3) [of b]
      by (auto dest: in_set_takeD)
    moreover have "valid_log st d'" using d' hb h hl by (simp add: valid_log_def)
    ultimately show ?thesis using mid by (intro valid_log_survives) simp_all
  next
    case after
    then have d': "d' = (apply_writes ?w d1)(st := set_header [] ?h)" by (simp add: d'_def ws len d1_def)
    have "hdr_n (d' st) = 0" "length (d' st) = BSIZE div 4" using clear_header [OF hl] by (simp_all add: d')
    moreover have "d' b = c b" if "b \<notin> log_area st" for b
      using that c [of b] d1(3) [of b] st by (auto simp: d' apply_home log_area_def)
    ultimately show ?thesis
      using after recovered_clean [of d' st] valid_log_clean [of d' st] by (intro valid_log_survives) auto
  qed
qed

text \<open>The disk after all of them.\<close>

lemma commit_done:
  assumes h: "home st bs" and l: "length (d st) = BSIZE div 4" and c: "\<And>b. b \<notin> set bs \<Longrightarrow> c b = d b"
  defines "d' \<equiv> apply_writes (commit_writes st bs c) d"
  shows "b \<notin> log_area st \<Longrightarrow> d' b = c b" "hdr_n (d' st) = 0" "length (d' st) = BSIZE div 4"
proof -
  have st: "st \<notin> set bs" using home_not_in [of 0, OF _ h] by simp
  let ?h = "set_header bs (c st)"
  have "length bs < length (c st)" using h l c [OF st] by (simp add: home_def LOGBLOCKS_def BSIZE_def)
  then have hl: "length ?h = BSIZE div 4" using set_header_length c [OF st] l by simp
  have d': "d' = (apply_writes (map (\<lambda>b. (b, c b)) bs) ((apply_writes (log_writes st bs c) d)(st := ?h)))
      (st := set_header [] ?h)"
    by (simp add: d'_def commit_writes_def Let_def)
  show "hdr_n (d' st) = 0" "length (d' st) = BSIZE div 4" using clear_header [OF hl] by (simp_all add: d')
  show "d' b = c b" if "b \<notin> log_area st"
    using that c [of b] apply_log_writes(1) [OF h that] by (auto simp: d' apply_home log_area_def)
qed

end
