(* ===== verification/Log_Props.thy ===== *)
theory Log_Props
  imports Log_Crash
begin

text \<open>
  File system operations as transactions (\<^verbatim>\<open>xv6/kernel/log.c\<close>): the sequence of calls an
  operation makes, its atomicity across crashes, and the protocol between concurrent
  operations.
\<close>

section \<open>A transaction\<close>

text \<open>The use of the log its comments prescribe: read a block, modify it, log it, release it.\<close>

definition update_block :: "nat \<times> block \<Rightarrow> lst \<Rightarrow> lst option" where
  "update_block u s = do {
     (i, s) \<leftarrow> bread ROOTDEV (fst u) s;
     s \<leftarrow> log_write i (set_data i (snd u) s);
     brelse i s
   }"

fun update_blocks :: "(nat \<times> block) list \<Rightarrow> lst \<Rightarrow> lst option" where
  "update_blocks [] s = Some s"
| "update_blocks (u # us) s = do { s \<leftarrow> update_block u s; update_blocks us s }"

definition transaction :: "(nat \<times> block) list \<Rightarrow> lst \<Rightarrow> lst option" where
  "transaction us s = do {
     s \<leftarrow> begin_op s;
     s \<leftarrow> update_blocks us s;
     (do_commit, s) \<leftarrow> end_op s;
     if do_commit then commit_op s else Some s
   }"

text \<open>The blocks of the file system, outside the log.\<close>

definition fs_block :: "nat \<Rightarrow> nat \<Rightarrow> bool" where
  "fs_block st b \<longleftrightarrow> b \<notin> log_area st \<and> b < 2 ^ 31"

text \<open>The state during a transaction: the pinned blocks are those of the log, once each.\<close>

definition logging :: "lst \<Rightarrow> bool" where
  "logging s \<longleftrightarrow> uses (set (lh s)) {} s \<and> distinct (lh s) \<and> (\<forall>b \<in> set (lh s). fs_block (start s) b)"

definition idle :: "lst \<Rightarrow> bool" where
  "idle s \<longleftrightarrow> uses {} {} s \<and> lh s = [] \<and> outstanding s = 0 \<and> \<not> committing s \<and>
     hdr_n (disk s (start s)) = 0 \<and> length (disk s (start s)) = BSIZE div 4"

lemma update_block_ok:
  assumes s: "logging s" "length (lh s) < LOGBLOCKS" "0 < outstanding s" and b: "fs_block (start s) b"
  shows "\<exists>s'. update_block (b, x) s = Some s' \<and> logging s' \<and>
     lh s' = (if b \<in> set (lh s) then lh s else lh s @ [b]) \<and>
     disk s' = disk s \<and> writes s' = writes s \<and> content s' = (content s)(b := x) \<and>
     start s' = start s \<and> outstanding s' = outstanding s \<and> committing s' = committing s"
proof -
  let ?P = "set (lh s)"
  have u: "uses ?P {} s" using s by (simp add: logging_def)
  have card: "card ?P < NBUF" using s(2) card_length [of "lh s"] by (simp add: NBUF_def LOGBLOCKS_def)
  obtain i s1 where 1: "bread ROOTDEV b s = Some (i, s1)" "uses ?P {b} s1" "cached s1 b i" "same s s1"
    using bread_uses [OF u, of b] card by auto
  note e1 = same_lst [OF 1(4)] more_lst(3-5) [OF same_lst(5) [OF 1(4)]]
  let ?s2 = "set_data i x s1"
  note sd = set_data_uses [OF 1(2) _ 1(3), where d = x]
  note e2 = more_lst [OF sd(7)]
  have bno: "blockno (buf_at ?s2 i) = b" using sd(2) [of b i] 1(3) by (simp add: cached_def)
  define s3 where "s3 = (if b \<in> ?P then ?s2 else bpin i ?s2)"
  define l where "l = (if b \<in> ?P then lh s else lh s @ [b])"
  have 3: "uses (insert b ?P) {b} s3" "cached s3 b i" "same ?s2 s3"
    using bpin_uses [OF sd(1), of b i] sd(2) 1(3) sd(1) by (auto simp: s3_def same_def insert_absorb)
  note e3 = same_lst [OF 3(3)] more_lst(3-5) [OF same_lst(5) [OF 3(3)]]
  have w: "log_write i ?s2 = Some (s3\<lparr>lh := l\<rparr>)"
    using s e1 e2 e3 bno by (cases "b \<in> ?P") (auto simp: log_write_def Let_def s3_def l_def)
  obtain s4 where 4: "brelse i (s3\<lparr>lh := l\<rparr>) = Some s4" "uses (insert b ?P) {} s4" "same (s3\<lparr>lh := l\<rparr>) s4"
    using brelse_uses [of "insert b ?P" "{b}" "s3\<lparr>lh := l\<rparr>" b i] 3 by auto
  note e4 = same_lst [OF 4(3)] more_lst(3-5) [OF same_lst(5) [OF 4(3)]]
  have "set l = insert b ?P" by (auto simp: l_def)
  then have "logging s4" using s(1) b 4(2) e1 e2 e3 e4 by (auto simp: logging_def l_def)
  then show ?thesis
    using 1(1) w 4(1) sd e1 e2 e3 e4 by (auto simp: update_block_def l_def)
qed

lemma update_blocks_ok:
  assumes "logging s" "length (lh s) + length us \<le> LOGBLOCKS" "0 < outstanding s"
    "\<forall>u \<in> set us. fs_block (start s) (fst u)"
  shows "\<exists>s'. update_blocks us s = Some s' \<and> logging s' \<and> set (lh s') = set (lh s) \<union> fst ` set us \<and>
     disk s' = disk s \<and> writes s' = writes s \<and> content s' = apply_writes us (content s) \<and>
     start s' = start s \<and> outstanding s' = outstanding s \<and> committing s' = committing s"
  using assms
proof (induction us arbitrary: s)
  case (Cons u us)
  obtain b x where u: "u = (b, x)" by force
  obtain t where t: "update_block (b, x) s = Some t" "logging t"
     "lh t = (if b \<in> set (lh s) then lh s else lh s @ [b])"
     "disk t = disk s" "writes t = writes s" "content t = (content s)(b := x)"
     "start t = start s" "outstanding t = outstanding s" "committing t = committing s"
    using update_block_ok [of s b x] Cons.prems u by auto
  have "length (lh t) + length us \<le> LOGBLOCKS" using t(3) Cons.prems(2) by auto
  moreover have "0 < outstanding t" "\<forall>u \<in> set us. fs_block (start t) (fst u)" using t(7,8) Cons.prems(3,4) by auto
  ultimately obtain s' where s': "update_blocks us t = Some s'" "logging s'" "set (lh s') = set (lh t) \<union> fst ` set us"
     "disk s' = disk t" "writes s' = writes t" "content s' = apply_writes us (content t)"
     "start s' = start t" "outstanding s' = outstanding t" "committing s' = committing t"
    using Cons.IH [OF t(2)] by blast
  have "set (lh t) \<union> fst ` set us = set (lh s) \<union> fst ` set (u # us)" using t(3) u by auto
  then show ?case using s' t u by simp
qed simp

lemma logging_home:
  assumes "logging s" "length (lh s) \<le> LOGBLOCKS"
  shows "home (start s) (lh s)"
  using assms by (auto simp: logging_def home_def fs_block_def)

text \<open>The fields of the log that the buffers' use and content do not depend on.\<close>

lemma log_fields_update [simp]:
  fixes s :: lst
  shows "uses P H (s\<lparr>outstanding := n\<rparr>) = uses P H s" "uses P H (s\<lparr>committing := b\<rparr>) = uses P H s"
    "uses P H (s\<lparr>ncommit := n\<rparr>) = uses P H s"
    "content (s\<lparr>outstanding := n\<rparr>) = content s" "content (s\<lparr>committing := b\<rparr>) = content s"
proof -
  have b: "buf_at (s\<lparr>outstanding := n\<rparr>) = buf_at s" "buf_at (s\<lparr>committing := b\<rparr>) = buf_at s"
    "buf_at (s\<lparr>ncommit := n\<rparr>) = buf_at s" by (simp_all add: buf_at_def fun_eq_iff)
  have c: "cached (s\<lparr>outstanding := n\<rparr>) = cached s" "cached (s\<lparr>committing := b\<rparr>) = cached s"
    "cached (s\<lparr>ncommit := n\<rparr>) = cached s" by (simp_all add: cached_def fun_eq_iff b)
  show "uses P H (s\<lparr>outstanding := n\<rparr>) = uses P H s" "uses P H (s\<lparr>committing := b\<rparr>) = uses P H s"
    "uses P H (s\<lparr>ncommit := n\<rparr>) = uses P H s" by (simp_all add: uses_def binv_def b c)
  show "content (s\<lparr>outstanding := n\<rparr>) = content s" "content (s\<lparr>committing := b\<rparr>) = content s"
    by (rule ext, simp add: content_def b c cong: option.case_cong)+
qed

text \<open>A commit changes no field of the log but \<open>lh\<close>, which it empties.\<close>

lemma write_head_more: "write_head s = Some s' \<Longrightarrow> bst.more s' = bst.more s"
  by (auto simp: write_head_def Let_def set_data_def set_buf_def split: bind_splits
      dest!: bread_more bwrite_more brelse_more)

lemma for_tail_more:
  assumes "\<And>t s s'. body t s = Some s' \<Longrightarrow> bst.more s' = bst.more s"
  shows "for_tail body ts s = Some s' \<Longrightarrow> bst.more s' = bst.more s"
  by (induction ts arbitrary: s) (auto split: bind_splits dest!: assms)

lemma log_block_more: "log_block t s = Some s' \<Longrightarrow> bst.more s' = bst.more s"
  by (auto simp: log_block_def Let_def set_data_def set_buf_def split: bind_splits
      dest!: bread_more bwrite_more brelse_more)

lemma install_block_more: "install_block r t s = Some s' \<Longrightarrow> bst.more s' = bst.more s"
  by (auto simp: install_block_def Let_def set_data_def bunpin_def set_buf_def split: bind_splits if_splits
      dest!: bread_more bwrite_more brelse_more)

lemma commit_fields:
  assumes "commit s = Some s'"
  shows "lh s' = []" "outstanding s' = outstanding s" "committing s' = committing s" "start s' = start s"
    "ncommit s' = ncommit s"
proof -
  have "bst.more s' = bst.more (s\<lparr>lh := []\<rparr>)"
  proof (cases "lh s = []")
    case False
    then obtain s1 s2 s3 where *: "write_log s = Some s1" "write_head s1 = Some s2" "install_trans False s2 = Some s3"
      "write_head (s3\<lparr>lh := []\<rparr>) = Some s'"
      using assms by (auto simp: commit_def split: bind_splits)
    have "bst.more s3 = bst.more s"
      using for_tail_more [OF log_block_more] *(1) for_tail_more [OF install_block_more] *(3) write_head_more [OF *(2)]
      by (simp add: write_log_def install_trans_def)
    then show ?thesis using write_head_more [OF *(4)] by (cases s; cases s3) simp
  next
    case True
    then have "s' = s" "s\<lparr>lh := []\<rparr> = s" using assms by (auto simp: commit_def)
    then show ?thesis by simp
  qed
  then show "lh s' = []" "outstanding s' = outstanding s" "committing s' = committing s" "start s' = start s"
    "ncommit s' = ncommit s"
    using more_lst [of s' "s\<lparr>lh := []\<rparr>"] by simp_all
qed

lemma commit_op_ok:
  assumes s: "logging s" "length (lh s) < NBUF" "committing s" "outstanding s = 0"
    and d: "hdr_n (disk s (start s)) = 0" "length (disk s (start s)) = BSIZE div 4"
  shows "\<exists>s' ws. commit_op s = Some s' \<and> idle s' \<and> start s' = start s \<and> writes s' = writes s @ ws \<and>
     (\<forall>b. b \<notin> log_area (start s) \<longrightarrow> disk s' b = content s b) \<and>
     (\<forall>k. survives (start s) (apply_writes (take k ws) (disk s)) (if k \<le> length (lh s) then disk s else content s))"
proof (cases "lh s = []")
  case True
  let ?s = "s\<lparr>committing := False, ncommit := ncommit s + 1\<rparr>"
  have u: "uses {} {} s" using s(1) True by (simp add: logging_def)
  have "survives (start s) (disk s) (disk s)"
    using valid_log_clean [of "disk s"] recovered_clean [of "disk s"] d by (intro valid_log_survives) auto
  then show ?thesis
    using True u d s(4) content_idle [OF u]
    by (intro exI [of _ ?s] exI [of _ "[]"]) (simp add: commit_op_def commit_def idle_def)
next
  case False
  let ?bs = "lh s" and ?st = "start s" and ?c = "content s"
  have u: "uses (set ?bs) {} s" using s(1) by (simp add: logging_def)
  have h: "home ?st ?bs" using logging_home [OF s(1)] s(2) by (simp add: NBUF_def LOGBLOCKS_def)
  have c: "b \<notin> set ?bs \<Longrightarrow> ?c b = disk s b" for b using content_unused [OF u] by simp
  let ?ws = "commit_writes ?st ?bs ?c"
  obtain t where t: "commit s = Some t" "uses {} {} t" "writes t = writes s @ ?ws" "disk t = apply_writes ?ws (disk s)"
    using commit_ok [OF u h] False s(2) by auto
  note f = commit_fields [OF t(1)]
  have fin: "\<And>b. b \<notin> log_area ?st \<Longrightarrow> apply_writes ?ws (disk s) b = ?c b"
    "hdr_n (apply_writes ?ws (disk s) ?st) = 0" "length (apply_writes ?ws (disk s) ?st) = BSIZE div 4"
    using commit_done [where st = ?st and bs = ?bs and d = "disk s" and c = ?c, OF h d(2)] c by simp_all
  have "survives ?st (apply_writes (take k ?ws) (disk s)) (if k \<le> length ?bs then disk s else ?c)" for k
    using h d c by (rule commit_cut [where st = ?st and bs = ?bs and d = "disk s" and c = ?c])
  then show ?thesis
    using t f fin s(4)
    by (intro exI [of _ "t\<lparr>committing := False, ncommit := ncommit t + 1\<rparr>"] exI [of _ ?ws])
      (simp add: commit_op_def idle_def)
qed

text \<open>
  C14. Crash atomicity of a file system operation: on an idle machine with a clean log, an
  operation that begins, updates at most \<^verbatim>\<open>MAXOPBLOCKS\<close> blocks and ends runs to completion and
  leaves exactly its updates on the disk. If the machine stops after any number \<open>k\<close> of the
  operation's disk writes, then after any number of reboots that stop during their recovery,
  a recovery that completes leaves either the old blocks or all the new ones: the old ones
  as long as the header has not been written, the new ones from then on.
\<close>

theorem transaction_atomic:
  assumes "idle s" "length us \<le> MAXOPBLOCKS" "\<forall>u \<in> set us. fs_block (start s) (fst u)"
  shows "\<exists>s' ws. transaction us s = Some s' \<and> idle s' \<and> start s' = start s \<and> writes s' = writes s @ ws \<and>
     (\<forall>b. b \<notin> log_area (start s) \<longrightarrow> disk s' b = apply_writes us (disk s) b) \<and>
     (\<forall>k. survives (start s) (apply_writes (take k ws) (disk s))
        (if k \<le> card (fst ` set us) then disk s else apply_writes us (disk s)))"
proof -
  have s: "uses {} {} s" "lh s = []" "outstanding s = 0" "\<not> committing s"
    "hdr_n (disk s (start s)) = 0" "length (disk s (start s)) = BSIZE div 4"
    using assms(1) by (auto simp: idle_def)
  let ?s1 = "s\<lparr>outstanding := 1\<rparr>"
  have b: "begin_op s = Some ?s1" using s by (simp add: begin_op_def LOGBLOCKS_def MAXOPBLOCKS_def)
  obtain s2 where 2: "update_blocks us ?s1 = Some s2" "logging s2" "set (lh s2) = fst ` set us"
     "disk s2 = disk s" "writes s2 = writes s" "content s2 = apply_writes us (disk s)"
     "start s2 = start s" "outstanding s2 = 1" "\<not> committing s2"
    using update_blocks_ok [of ?s1 us] s assms(2,3) content_idle [OF s(1)]
    by (auto simp: logging_def LOGBLOCKS_def MAXOPBLOCKS_def)
  let ?s3 = "s2\<lparr>outstanding := 0, committing := True\<rparr>"
  have n: "length (lh s2) = card (fst ` set us)"
    using 2(2,3) distinct_card [of "lh s2"] by (simp add: logging_def)
  have "card (fst ` set us) \<le> length us" using card_length [of "map fst us"] by simp
  then have "length (lh ?s3) < NBUF" using n assms(2) by (simp add: NBUF_def MAXOPBLOCKS_def)
  moreover have "logging ?s3" using 2(2) by (simp add: logging_def)
  moreover have "end_op s2 = Some (True, ?s3)" using 2 by (simp add: end_op_def Let_def)
  ultimately have "transaction us s = commit_op ?s3" "logging ?s3" "length (lh ?s3) < NBUF"
    using b 2(1) by (simp_all add: transaction_def)
  moreover have "hdr_n (disk ?s3 (start ?s3)) = 0" "length (disk ?s3 (start ?s3)) = BSIZE div 4"
    using s(5,6) 2(4,7) by simp_all
  moreover have "content ?s3 = content s2" "writes ?s3 = writes s2" "start ?s3 = start s2" "disk ?s3 = disk s2" by simp_all
  ultimately show ?thesis using commit_op_ok [of ?s3] 2(4-7) n by (simp split del: if_split cong: if_cong)
qed

text \<open>A machine with the log at block 2 and a disk of zeros.\<close>

definition blank :: lst where
  "blank = (restart (\<lambda>_. zero_block))\<lparr>start := 2\<rparr>"

lemma idle_blank: "idle blank" "start blank = 2" "disk blank = (\<lambda>_. zero_block)"
proof -
  have "hdr_n zero_block = 0" "length zero_block = BSIZE div 4"
    by (simp_all add: hdr_n_def zero_block_def BSIZE_def)
  moreover have "uses {} {} blank" using uses_restart(1) by (simp add: blank_def)
  ultimately show "idle blank" unfolding idle_def by (simp add: blank_def restart_def binit_def)
qed (simp_all add: blank_def restart_def binit_def)

theorem transaction_atomic_witness:
  "fs_block 2 50 \<and> (\<exists>s'. transaction [(50, [1, 2])] blank = Some s' \<and> disk s' 50 = [1, 2] \<and> disk s' 51 = zero_block)"
proof -
  have b: "fs_block 2 50" by (simp add: fs_block_def log_area_def LOGBLOCKS_def)
  then obtain s' where "transaction [(50, [1, 2])] blank = Some s'"
    "\<And>b. b \<notin> log_area 2 \<Longrightarrow> disk s' b = apply_writes [(50, [1, 2])] (\<lambda>_. zero_block) b"
    using transaction_atomic [of blank "[(50, [1, 2])]"] idle_blank by (auto simp: MAXOPBLOCKS_def)
  with b show ?thesis by (simp add: log_area_def LOGBLOCKS_def)
qed

section \<open>A full log\<close>

text \<open>With as many pinned blocks as there are buffers, no other block can be read.\<close>

lemma all_pinned:
  assumes u: "uses P {} s" and P: "finite P" "card P = NBUF" and b: "b \<notin> P"
  shows "bread ROOTDEV b s = None"
proof -
  obtain f where f: "\<And>b. b \<in> P \<Longrightarrow> cached s b (f b)" using usesD(5) [OF u] by (metis sup_bot_right)
  have "f b < NBUF \<and> blockno (buf_at s (f b)) = b" if "b \<in> P" for b using f [OF that] by (simp add: cached_def)
  then have "inj_on f P" "f ` P \<subseteq> {..<NBUF}" by (auto intro: inj_onI) (metis inj_onI)
  then have "f ` P = {..<NBUF}" using P by (intro card_subset_eq) (simp_all add: card_image)
  then have *: "\<exists>c \<in> P. cached s c i" if "i < NBUF" for i using f that by (metis imageE lessThan_iff)
  have "\<not> cached s b i" for i using * [of i] b by (auto simp: cached_def)
  moreover have "refcnt (buf_at s i) \<noteq> 0" if "i < NBUF" for i using * [OF that] uses_cached(2) [OF u] by fastforce
  ultimately have "\<not> can_read b s" by (auto simp: can_read_def)
  then show ?thesis by (rule bread_stuck [OF usesD(1) [OF u]])
qed

text \<open>Three operations that together log as many blocks as the log takes.\<close>

definition three_ops :: "(nat \<times> block) list \<Rightarrow> lst \<Rightarrow> (bool \<times> lst) option" where
  "three_ops us s = do {
     s \<leftarrow> begin_op s; s \<leftarrow> begin_op s; s \<leftarrow> begin_op s;
     s \<leftarrow> update_blocks us s;
     (_, s) \<leftarrow> end_op s; (_, s) \<leftarrow> end_op s; end_op s
   }"

text \<open>
  C15. The buffer cache is too small for the log: three concurrent operations of
  \<^verbatim>\<open>MAXOPBLOCKS\<close> blocks each are admitted, and may log \<^verbatim>\<open>LOGBLOCKS\<close> different blocks. These are
  then pinned in all \<^verbatim>\<open>NBUF\<close> buffers, and the commit that the last \<^verbatim>\<open>end_op\<close> starts finds no
  buffer for the first block of the log: \<^verbatim>\<open>bget\<close> panics.
\<close>

theorem full_log_panics:
  assumes "idle s" "length us = LOGBLOCKS" "distinct (map fst us)" "\<forall>u \<in> set us. fs_block (start s) (fst u)"
  shows "\<exists>s'. three_ops us s = Some (True, s') \<and> length (lh s') = LOGBLOCKS \<and> commit_op s' = None"
proof -
  have s: "uses {} {} s" "lh s = []" "outstanding s = 0" "\<not> committing s"
    using assms(1) by (auto simp: idle_def)
  let ?s1 = "s\<lparr>outstanding := 3\<rparr>"
  have b: "begin_op s = Some (s\<lparr>outstanding := 1\<rparr>)"
    "begin_op (s\<lparr>outstanding := 1\<rparr>) = Some (s\<lparr>outstanding := 2\<rparr>)" "begin_op (s\<lparr>outstanding := 2\<rparr>) = Some ?s1"
    using s by (simp_all add: begin_op_def LOGBLOCKS_def MAXOPBLOCKS_def)
  obtain s2 where 2: "update_blocks us ?s1 = Some s2" "logging s2" "set (lh s2) = fst ` set us"
     "start s2 = start s" "outstanding s2 = 3" "\<not> committing s2"
    using update_blocks_ok [of ?s1 us] s assms(2,4) by (auto simp: logging_def)
  let ?s3 = "s2\<lparr>outstanding := 0, committing := True\<rparr>"
  have n: "card (set (lh s2)) = LOGBLOCKS" "length (lh s2) = LOGBLOCKS"
    using assms(2) distinct_card [OF assms(3)] 2(2,3) distinct_card [of "lh s2"] by (simp_all add: logging_def)
  have e: "end_op s2 = Some (False, s2\<lparr>outstanding := 2\<rparr>)"
    "end_op (s2\<lparr>outstanding := 2\<rparr>) = Some (False, s2\<lparr>outstanding := 1\<rparr>)"
    "end_op (s2\<lparr>outstanding := 1\<rparr>) = Some (True, ?s3)"
    using 2(5,6) by (simp_all add: end_op_def Let_def)
  have "start s + 1 \<notin> set (lh s2)"
    using 2(2,4) by (auto simp: logging_def fs_block_def log_area_def LOGBLOCKS_def)
  moreover have "uses (set (lh s2)) {} ?s3" using 2(2) by (simp add: logging_def)
  ultimately have "bread ROOTDEV (start s + 1) ?s3 = None"
    using n(1) all_pinned [of "set (lh s2)" ?s3] by (simp add: NBUF_def LOGBLOCKS_def)
  then have "commit_op ?s3 = None"
    using n(2) 2(4) by (simp add: commit_op_def commit_def write_log_def log_block_def LOGBLOCKS_def upt_conv_Cons)
  moreover have "three_ops us s = Some (True, ?s3)"
    by (simp add: three_ops_def b e 2(1) del: One_nat_def)
  ultimately show ?thesis using n by simp
qed

theorem full_log_panics_witness:
  "\<exists>s'. three_ops (map (\<lambda>i. (100 + i, zero_block)) [0..<LOGBLOCKS]) blank = Some (True, s') \<and> commit_op s' = None"
proof -
  let ?us = "map (\<lambda>i. (100 + i, zero_block)) [0..<LOGBLOCKS]"
  have "distinct (map fst ?us)" by (simp add: comp_def distinct_map inj_on_def)
  moreover have "fs_block 2 (100 + i)" if "i < LOGBLOCKS" for i
    using that by (simp add: fs_block_def log_area_def LOGBLOCKS_def)
  then have "\<forall>u \<in> set ?us. fs_block (start blank) (fst u)" using idle_blank(2) by auto
  ultimately show ?thesis using full_log_panics [of blank ?us] idle_blank(1) by auto
qed

section \<open>Concurrent operations\<close>

text \<open>
  Several operations at once: \<open>ops\<close> gives for each running one how many blocks it has
  logged. A step is a call of one of them, the commit started by the last \<^verbatim>\<open>end_op\<close>, or a
  step elsewhere that leaves the log's fields alone.
\<close>

inductive log_step :: "lst \<times> (nat \<rightharpoonup> nat) \<Rightarrow> lst \<times> (nat \<rightharpoonup> nat) \<Rightarrow> bool" where
  step_begin: "p \<notin> dom ops \<Longrightarrow> begin_op s = Some s' \<Longrightarrow> log_step (s, ops) (s', ops(p \<mapsto> 0))"
| step_write: "ops p = Some k \<Longrightarrow> k < MAXOPBLOCKS \<Longrightarrow> log_write i s = Some s' \<Longrightarrow>
     log_step (s, ops) (s', ops(p \<mapsto> k + 1))"
| step_end: "ops p = Some k \<Longrightarrow> end_op s = Some (c, s') \<Longrightarrow> log_step (s, ops) (s', ops(p := None))"
| step_commit: "committing s \<Longrightarrow> commit_op s = Some s' \<Longrightarrow> log_step (s, ops) (s', ops)"
| step_other: "bst.more s' = bst.more s \<Longrightarrow> log_step (s, ops) (s', ops)"

definition log_init :: "lst \<times> (nat \<rightharpoonup> nat) \<Rightarrow> bool" where
  "log_init x \<longleftrightarrow> snd x = Map.empty \<and> lh (fst x) = [] \<and> outstanding (fst x) = 0 \<and> \<not> committing (fst x)"

text \<open>What the operations may still log.\<close>

definition reserved :: "(nat \<rightharpoonup> nat) \<Rightarrow> nat" where
  "reserved ops = (\<Sum>p \<in> dom ops. MAXOPBLOCKS - the (ops p))"

definition log_inv :: "lst \<times> (nat \<rightharpoonup> nat) \<Rightarrow> bool" where
  "log_inv x = (case x of (s, ops) \<Rightarrow> finite (dom ops) \<and> outstanding s = card (dom ops) \<and>
     (committing s \<longrightarrow> ops = Map.empty) \<and> length (lh s) + reserved ops \<le> LOGBLOCKS \<and>
     (lh s \<noteq> [] \<longrightarrow> 0 < outstanding s \<or> committing s))"

lemma reserved_upd:
  assumes "finite (dom ops)"
  shows "p \<notin> dom ops \<Longrightarrow> reserved (ops(p \<mapsto> k)) = reserved ops + (MAXOPBLOCKS - k)"
    "ops p = Some k \<Longrightarrow> reserved (ops(p := None)) = reserved ops - (MAXOPBLOCKS - k)"
    "ops p = Some k \<Longrightarrow> k < MAXOPBLOCKS \<Longrightarrow> reserved (ops(p \<mapsto> k + 1)) + 1 = reserved ops"
    "ops p = Some k \<Longrightarrow> MAXOPBLOCKS - k \<le> reserved ops"
proof -
  have *: "reserved ops = (MAXOPBLOCKS - k) + (\<Sum>q \<in> dom ops - {p}. MAXOPBLOCKS - the (ops q))" if "ops p = Some k"
    using that assms sum.remove [of "dom ops" p "\<lambda>q. MAXOPBLOCKS - the (ops q)"] by (auto simp: reserved_def)
  have eq: "(\<Sum>q \<in> dom ops - {p}. MAXOPBLOCKS - the ((ops(p := v)) q)) = (\<Sum>q \<in> dom ops - {p}. MAXOPBLOCKS - the (ops q))" for v
    by (intro sum.cong) auto
  show "p \<notin> dom ops \<Longrightarrow> reserved (ops(p \<mapsto> k)) = reserved ops + (MAXOPBLOCKS - k)"
    using assms eq [of "Some k"] by (simp add: reserved_def)
  show "ops p = Some k \<Longrightarrow> reserved (ops(p := None)) = reserved ops - (MAXOPBLOCKS - k)"
    using * eq [of None] by (simp add: reserved_def)
  show "ops p = Some k \<Longrightarrow> MAXOPBLOCKS - k \<le> reserved ops" using * by simp
  show "reserved (ops(p \<mapsto> k + 1)) + 1 = reserved ops" if k: "ops p = Some k" "k < MAXOPBLOCKS"
  proof -
    have "reserved (ops(p \<mapsto> k + 1)) = (MAXOPBLOCKS - (k + 1)) + (\<Sum>q \<in> dom ops - {p}. MAXOPBLOCKS - the (ops q))"
      using assms eq [of "Some (k + 1)"] sum.insert_remove [of "dom ops" "\<lambda>q. MAXOPBLOCKS - the ((ops(p \<mapsto> k + 1)) q)" p]
      by (simp add: reserved_def)
    then show ?thesis using * k by simp
  qed
qed

lemma reserved_le: "finite (dom ops) \<Longrightarrow> reserved ops \<le> card (dom ops) * MAXOPBLOCKS"
  unfolding reserved_def using sum_bounded_above [of "dom ops" "\<lambda>p. MAXOPBLOCKS - the (ops p)" MAXOPBLOCKS] by simp

lemma log_inv_step:
  assumes "log_step x y" "log_inv x"
  shows "log_inv y"
  using assms
proof cases
  case (step_begin p ops s s')
  then have f: "finite (dom ops)" "outstanding s = card (dom ops)" using assms(2) by (auto simp: log_inv_def)
  have b: "s' = s\<lparr>outstanding := outstanding s + 1\<rparr>" "\<not> committing s"
    "length (lh s) + (outstanding s + 1) * MAXOPBLOCKS \<le> LOGBLOCKS"
    using step_begin(4) by (auto simp: begin_op_def split: if_splits)
  have "reserved ops + MAXOPBLOCKS \<le> (outstanding s + 1) * MAXOPBLOCKS" using reserved_le [OF f(1)] f(2) by simp
  then show ?thesis
    using step_begin(1-3) b f reserved_upd(1) [OF f(1) step_begin(3), of 0] by (simp add: log_inv_def)
next
  case (step_write ops p k i s s')
  then have f: "finite (dom ops)" "p \<in> dom ops" using assms(2) by (auto simp: log_inv_def)
  have b: "0 < outstanding s" "outstanding s' = outstanding s" "committing s' = committing s"
    "length (lh s') \<le> length (lh s) + 1"
    using step_write(5) by (auto simp: log_write_def Let_def bpin_def set_buf_def split: if_splits)
  have "card (dom (ops(p \<mapsto> k + 1))) = card (dom ops)" using f by (simp add: insert_absorb)
  moreover have "ops \<noteq> Map.empty" using f by auto
  ultimately show ?thesis
    using step_write(1,2) assms(2) b f reserved_upd(3) [OF f(1) step_write(3,4)] by (auto simp: log_inv_def)
next
  case (step_end ops p k s c s')
  then have f: "finite (dom ops)" "p \<in> dom ops" "outstanding s = card (dom ops)" using assms(2) by (auto simp: log_inv_def)
  have b: "outstanding s' = outstanding s - 1" "lh s' = lh s" "committing s' \<longleftrightarrow> outstanding s - 1 = 0"
    using step_end(4) by (auto simp: end_op_def Let_def split: if_splits)
  have c: "card (dom (ops(p := None))) = card (dom ops) - 1" using f by simp
  have "outstanding s - 1 = 0 \<Longrightarrow> ops(p := None) = Map.empty"
    using c f(1,3) by (metis card_0_eq dom_empty dom_eq_empty_conv dom_fun_upd finite_Diff)
  then show ?thesis
    using step_end(1,2) assms(2) b c f reserved_upd(2) [OF f(1) step_end(3)] by (auto simp: log_inv_def)
next
  case (step_commit s s' ops)
  then show ?thesis
    using assms(2) commit_fields by (auto simp: log_inv_def commit_op_def reserved_def split: bind_splits)
next
  case (step_other s' s ops)
  then show ?thesis using assms(2) more_lst(2-4) [of s' s] by (auto simp: log_inv_def)
qed

lemma log_inv_reachable:
  assumes "log_step\<^sup>*\<^sup>* x y" "log_init x"
  shows "log_inv y"
  using assms
proof (induction rule: rtranclp_induct)
  case base
  then show ?case by (cases x) (auto simp: log_init_def log_inv_def reserved_def)
qed (use log_inv_step in blast)

text \<open>
  C16. The admission control of the log: in every interleaving of operations that log at most
  \<^verbatim>\<open>MAXOPBLOCKS\<close> blocks each, neither \<^verbatim>\<open>log_write\<close> nor \<^verbatim>\<open>end_op\<close> panics, the log never overflows,
  no operation runs during a commit, and when \<^verbatim>\<open>sys_sync\<close> returns at once nothing is pending.
\<close>

theorem log_admission:
  assumes "log_init x" "log_step\<^sup>*\<^sup>* x (s, ops)"
  shows "length (lh s) \<le> LOGBLOCKS \<and> (committing s \<longrightarrow> ops = Map.empty) \<and>
     (\<forall>p k. ops p = Some k \<longrightarrow> end_op s \<noteq> None \<and> (k < MAXOPBLOCKS \<longrightarrow> (\<forall>i. log_write i s \<noteq> None))) \<and>
     (sys_sync s = ncommit s \<longrightarrow> lh s = [])"
proof -
  have inv: "finite (dom ops)" "outstanding s = card (dom ops)" "committing s \<longrightarrow> ops = Map.empty"
     "length (lh s) + reserved ops \<le> LOGBLOCKS" "lh s \<noteq> [] \<longrightarrow> 0 < outstanding s \<or> committing s"
    using log_inv_reachable [OF assms(2,1)] by (auto simp: log_inv_def)
  have op: "\<not> committing s" "0 < outstanding s" if "ops p = Some k" for p k
    using that inv(1-3) card_gt_0_iff [of "dom ops"] by auto
  have "length (lh s) < LOGBLOCKS" if "ops p = Some k" "k < MAXOPBLOCKS" for p k
    using reserved_upd(4) [OF inv(1) that(1)] that(2) inv(4) by linarith
  then show ?thesis
    using inv op by (auto simp: end_op_def log_write_def sys_sync_def Let_def split: if_splits)
qed

theorem log_admission_witness:
  "\<exists>s. log_step\<^sup>*\<^sup>* (blank, Map.empty) (s, [7 \<mapsto> 0]) \<and> log_write 0 s \<noteq> None"
proof -
  let ?s = "blank\<lparr>outstanding := 1\<rparr>"
  have i: "lh blank = []" "outstanding blank = 0" "\<not> committing blank" using idle_blank(1) by (auto simp: idle_def)
  then have "begin_op blank = Some ?s" by (simp add: begin_op_def LOGBLOCKS_def MAXOPBLOCKS_def)
  then have r: "log_step\<^sup>*\<^sup>* (blank, Map.empty) (?s, [7 \<mapsto> 0])"
    using step_begin [of 7 Map.empty blank ?s] by simp
  moreover have "log_init (blank, Map.empty)" using i by (simp add: log_init_def)
  from log_admission [OF this r] have "[7 \<mapsto> 0] p = Some k \<longrightarrow> k < MAXOPBLOCKS \<longrightarrow> log_write 0 ?s \<noteq> None" for p k :: nat
    by blast
  from this [of 7 0] have "log_write 0 ?s \<noteq> None" by (simp add: MAXOPBLOCKS_def)
  ultimately show ?thesis by blast
qed

end
