(* ===== verification/Fs_Blocks.thy ===== *)
theory Fs_Blocks
  imports Fs Log_Props
begin

text \<open>
  The block layer of the file system inside a transaction: reading, changing and releasing
  blocks, and the allocator. An operation is described by what it does to the blocks as the
  cache shows them (\<open>blocks\<close>), to the log and to nothing else.
\<close>

section \<open>Operations that return\<close>

definition does :: "'a option \<Rightarrow> ('a \<Rightarrow> bool) \<Rightarrow> bool" where
  "does m Q \<longleftrightarrow> (\<exists>x. m = Some x \<and> Q x)"

lemma does_simps [simp]:
  "does None Q \<longleftrightarrow> False" "does (Some x) Q \<longleftrightarrow> Q x" "does (Option.bind m f) Q \<longleftrightarrow> does m (\<lambda>x. does (f x) Q)"
  by (auto simp: does_def bind_eq_Some_conv)

lemma does_if: "does (if c then m else m') Q \<longleftrightarrow> (if c then does m Q else does m' Q)" by simp

lemma does_mono: "does m Q \<Longrightarrow> (\<And>x. Q x \<Longrightarrow> R x) \<Longrightarrow> does m R"
  by (auto simp: does_def)

lemma does_Some: "m = Some x \<Longrightarrow> Q x \<Longrightarrow> does m Q" by (simp add: does_def)

section \<open>Blocks in a transaction\<close>

text \<open>The blocks as a reader sees them.\<close>

definition blocks :: "fsst \<Rightarrow> nat \<Rightarrow> block" where
  "blocks s = content (ls s)"

definition logged :: "fsst \<Rightarrow> nat set" where
  "logged s = set (lh (ls s))"

text \<open>
  The cache when the process holds the buffers of the blocks \<open>H\<close>: the pinned blocks are
  those of the log, and a block that is not in the log is as on the disk.
\<close>

definition cache_ok :: "nat set \<Rightarrow> fsst \<Rightarrow> bool" where
  "cache_ok H s \<longleftrightarrow> uses (logged s) H (ls s) \<and> distinct (lh (ls s)) \<and> finite H \<and>
     (\<forall>b \<in> logged s. fs_block (start (ls s)) b) \<and> (\<forall>b. b \<notin> logged s \<longrightarrow> blocks s b = disk (ls s) b)"

lemma cache_ok_logging: "cache_ok {} s \<Longrightarrow> logging (ls s)"
  by (simp add: cache_ok_def logging_def logged_def)

lemma logging_holding:
  assumes "logging (ls s)"
  shows "cache_ok {} s"
  using assms content_unused [of "set (lh (ls s))" "{}" "ls s"]
  by (auto simp: cache_ok_def logging_def logged_def blocks_def)

text \<open>What a sequence of operations on blocks keeps.\<close>

definition frame :: "fsst \<Rightarrow> fsst \<Rightarrow> bool" where
  "frame s s' \<longleftrightarrow> sb s' = sb s \<and> itable s' = itable s \<and> start (ls s') = start (ls s) \<and> me (ls s') = me (ls s) \<and>
     outstanding (ls s') = outstanding (ls s) \<and> committing (ls s') = committing (ls s) \<and> disk (ls s') = disk (ls s)"

lemma frame_refl [simp]: "frame s s" by (simp add: frame_def)

lemma frame_trans: "frame s t \<Longrightarrow> frame t u \<Longrightarrow> frame s u" by (simp add: frame_def)

lemma frameD:
  assumes "frame s s'"
  shows "sb s' = sb s" "itable s' = itable s" "ino s' = ino s" "start (ls s') = start (ls s)" "me (ls s') = me (ls s)"
  using assms by (auto simp: frame_def ino_def fun_eq_iff)

lemma same_frame:
  assumes "same (ls s) l"
  shows "frame s (s\<lparr>ls := l\<rparr>)" "blocks (s\<lparr>ls := l\<rparr>) = blocks s" "logged (s\<lparr>ls := l\<rparr>) = logged s"
  using same_lst [OF assms] more_lst [OF same_lst(5) [OF assms]] by (auto simp: frame_def blocks_def logged_def)

lemma cache_ok_finite: "cache_ok H s \<Longrightarrow> finite H \<and> finite (logged s)"
  by (simp add: cache_ok_def logged_def)

lemma fbread_ok:
  assumes s: "cache_ok H s" and b: "b \<notin> H" and c: "card (logged s \<union> H) < NBUF"
  shows "does (fbread ROOTDEV b s) (\<lambda>(i, s'). cache_ok (insert b H) s' \<and> cached (ls s') b i \<and> bdata i s' = blocks s b \<and>
     (\<forall>c \<in> H. \<forall>j. cached (ls s) c j \<longrightarrow> cached (ls s') c j) \<and> frame s s' \<and> blocks s' = blocks s \<and> logged s' = logged s)"
proof -
  have u: "uses (logged s) H (ls s)" using s by (simp add: cache_ok_def)
  obtain i l where r: "bread ROOTDEV b (ls s) = Some (i, l)" "uses (logged s) (insert b H) l" "cached l b i"
    "\<forall>c \<in> H. \<forall>j. cached (ls s) c j \<longrightarrow> cached l c j" "same (ls s) l"
    using bread_uses [OF u b] cache_ok_finite [OF s] c by auto
  note f = same_frame [OF r(5)] and l = same_lst [OF r(5)] and m = more_lst [OF same_lst(5) [OF r(5)]]
  have "data (buf_at l i) = blocks s b" using data_content [OF r(2,3)] l by (simp add: blocks_def)
  moreover have "cache_ok (insert b H) (s\<lparr>ls := l\<rparr>)" using s r(2) f l m by (simp add: cache_ok_def)
  ultimately show ?thesis using r f by (simp add: fbread_def bdata_def)
qed

lemma fbrelse_ok:
  assumes s: "cache_ok H s" and b: "b \<in> H" "cached (ls s) b i"
  shows "does (fbrelse i s) (\<lambda>s'. cache_ok (H - {b}) s' \<and> (\<forall>c j. cached (ls s') c j = cached (ls s) c j) \<and>
     frame s s' \<and> blocks s' = blocks s \<and> logged s' = logged s)"
proof -
  obtain l where r: "brelse i (ls s) = Some l" "uses (logged s) (H - {b}) l" "\<forall>c j. cached l c j = cached (ls s) c j" "same (ls s) l"
    using brelse_uses [of "logged s" H "ls s" b i] s b by (auto simp: cache_ok_def blocks_def)
  note f = same_frame [OF r(4)] and l = same_lst [OF r(4)] and m = more_lst [OF same_lst(5) [OF r(4)]]
  have "cache_ok (H - {b}) (s\<lparr>ls := l\<rparr>)" using s r(2) f l m by (simp add: cache_ok_def)
  then show ?thesis using r f by (simp add: fbrelse_def)
qed

lemma flog_write_ok:
  assumes s: "cache_ok H s" and b: "b \<in> H" "cached (ls s) b i" "fs_block (start (ls s)) b" and c: "card (logged s) < LOGBLOCKS" "0 < outstanding (ls s)"
  shows "does (flog_write i x s) (\<lambda>s'. cache_ok H s' \<and> (\<forall>c j. cached (ls s') c j = cached (ls s) c j) \<and>
     frame s s' \<and> blocks s' = (blocks s)(b := x) \<and> logged s' = insert b (logged s))"
proof -
  let ?P = "logged s" and ?s = "set_data i x (ls s)"
  have u: "uses ?P H (ls s)" using s by (simp add: cache_ok_def)
  note sd = set_data_uses [OF u b(1,2), where d = x]
  note m = more_lst [OF sd(7)]
  have bno: "blockno (buf_at ?s i) = b" using sd(2) [of b i] b(2) by (simp add: cached_def)
  define t where "t = (if b \<in> ?P then ?s else bpin i ?s)"
  define l where "l = (if b \<in> ?P then lh (ls s) else lh (ls s) @ [b])"
  have 3: "uses (insert b ?P) H t" "\<And>c j. cached t c j = cached (ls s) c j" "same ?s t"
    using bpin_uses [OF sd(1), of b i] b sd(1,2) by (auto simp: t_def same_def insert_absorb)
  note e = same_lst [OF 3(3)] more_lst [OF same_lst(5) [OF 3(3)]]
  have len: "length (lh (ls s)) < LOGBLOCKS" "0 < outstanding (ls s)"
    using s c distinct_card [of "lh (ls s)"] by (auto simp: cache_ok_def logged_def)
  have w: "log_write i ?s = Some (t\<lparr>lh := l\<rparr>)"
    using len m e bno by (auto simp: log_write_def Let_def t_def l_def logged_def)
  let ?t = "s\<lparr>ls := t\<lparr>lh := l\<rparr>\<rparr>"
  have L: "logged ?t = insert b ?P" by (auto simp: l_def logged_def)
  have "cache_ok H ?t" using s b(3) 3(1) e m sd(3,4) L by (auto simp: cache_ok_def l_def logged_def blocks_def)
  moreover have "frame s ?t" using e m sd(4,6) by (simp add: frame_def)
  moreover have "blocks ?t = (blocks s)(b := x)" using e sd(3) by (simp add: blocks_def)
  ultimately show ?thesis using w L 3(2) by (simp add: flog_write_def)
qed

section \<open>Steps\<close>

text \<open>
  \<open>step H s D T W s'\<close>: the blocks are now \<open>D\<close>, the inode table is \<open>T\<close>, the blocks \<open>W\<close> were
  logged, the buffers of \<open>H\<close> are still held, and the rest is as before.
\<close>

definition step :: "nat set \<Rightarrow> fsst \<Rightarrow> (nat \<Rightarrow> block) \<Rightarrow> inode list \<Rightarrow> nat set \<Rightarrow> fsst \<Rightarrow> bool" where
  "step H s D T W s' \<longleftrightarrow> cache_ok H s' \<and> (\<forall>c \<in> H. \<forall>j. cached (ls s) c j \<longrightarrow> cached (ls s') c j) \<and>
     frame (s\<lparr>itable := T\<rparr>) s' \<and> blocks s' = D \<and> logged s' = logged s \<union> W"

lemma table_update [simp]:
  "cache_ok H (s\<lparr>itable := T\<rparr>) = cache_ok H s" "blocks (s\<lparr>itable := T\<rparr>) = blocks s" "logged (s\<lparr>itable := T\<rparr>) = logged s"
  by (simp_all add: cache_ok_def blocks_def logged_def)

lemma stepD:
  assumes "step H s D T W s'"
  shows "cache_ok H s'" "blocks s' = D" "itable s' = T" "logged s' = logged s \<union> W" "sb s' = sb s"
    "start (ls s') = start (ls s)" "me (ls s') = me (ls s)" "c \<in> H \<Longrightarrow> cached (ls s) c j \<Longrightarrow> cached (ls s') c j"
    "disk (ls s') = disk (ls s)" "outstanding (ls s') = outstanding (ls s)" "committing (ls s') = committing (ls s)"
  using assms by (auto simp: step_def frame_def)

lemma step_refl: "cache_ok H s \<Longrightarrow> step H s (blocks s) (itable s) {} s"
  by (simp add: step_def frame_def)

lemma step_trans: "step H s D T W t \<Longrightarrow> step H t D' T' W' u \<Longrightarrow> step H s D' T' (W \<union> W') u"
  by (auto simp: step_def frame_def)

lemma step_table: "step H s D T W t \<Longrightarrow> step H s D T' W (t\<lparr>itable := T'\<rparr>)"
  by (simp add: step_def frame_def)

lemma step_weaken: "step H s D T W t \<Longrightarrow> H' \<subseteq> H \<Longrightarrow> cache_ok H' t \<Longrightarrow> step H' s D T W t"
  by (auto simp: step_def)

text \<open>
  Inside a transaction, room in the log for \<open>k\<close> more blocks besides those of \<open>M\<close>, with one buffer
  to spare for a block that is only read.
\<close>

definition slack :: "fsst \<Rightarrow> bool" where
  "slack s \<longleftrightarrow> card (logged s) + 1 < NBUF"

definition room :: "nat set \<Rightarrow> nat \<Rightarrow> fsst \<Rightarrow> bool" where
  "room M k s \<longleftrightarrow> 0 < outstanding (ls s) \<and> finite M \<and> card (logged s \<union> M) + k + 1 < LOGBLOCKS"

lemma room_card:
  assumes "room M k s"
  shows "card (logged s) + k + 1 < LOGBLOCKS"
proof -
  have "card (logged s) \<le> card (logged s \<union> M)" using assms by (intro card_mono) (auto simp: room_def logged_def)
  then show ?thesis using assms by (simp add: room_def)
qed

lemma room_slack: "room M k s \<Longrightarrow> slack s"
  using room_card by (fastforce simp: slack_def NBUF_def LOGBLOCKS_def)

lemma slack_buffers:
  assumes "slack s" "card H \<le> 1"
  shows "card (logged s \<union> H) < NBUF"
  using assms card_Un_le [of "logged s" H] by (simp add: slack_def)

lemma room_logged:
  assumes "room M (k + card (W - M)) s" "logged s' = logged s \<union> W" "finite W" "outstanding (ls s') = outstanding (ls s)"
  shows "room M k s'"
proof -
  have "card (logged s' \<union> M) = card (logged s \<union> M \<union> (W - M))" using assms(2) by (intro arg_cong [where f = card]) blast
  also have "\<dots> \<le> card (logged s \<union> M) + card (W - M)" by (rule card_Un_le)
  finally show ?thesis using assms by (simp add: room_def)
qed

lemma room_mono: "room M k s \<Longrightarrow> k' \<le> k \<Longrightarrow> room M k' s"
  by (simp add: room_def)

lemma room_step:
  assumes "room M (k + n) s" "step H s D T W s'" "W \<subseteq> M \<union> X" "finite X" "card X \<le> n"
  shows "room M k s'"
proof -
  have M: "finite M" using assms(1) by (simp add: room_def)
  have "W - M \<subseteq> X" using assms(3) by blast
  then have "card (W - M) \<le> n" using card_mono [OF assms(4)] assms(5) by (meson le_trans)
  moreover have "finite W" using assms(3,4) M finite_subset by blast
  ultimately show ?thesis using room_logged [OF room_mono [OF assms(1)]] stepD(4,10) [OF assms(2)] by (metis add_le_cancel_left)
qed

text \<open>A block that was read: the buffer is held until it is released.\<close>

definition bopen :: "nat set \<Rightarrow> fsst \<Rightarrow> nat \<Rightarrow> nat \<Rightarrow> fsst \<Rightarrow> bool" where
  "bopen H s b i t \<longleftrightarrow> b \<notin> H \<and> cache_ok (insert b H) t \<and> cached (ls t) b i \<and>
     (\<forall>c \<in> H. \<forall>j. cached (ls s) c j \<longrightarrow> cached (ls t) c j) \<and> frame s t \<and> blocks t = blocks s \<and> logged t = logged s"

lemma fbread_bopen:
  assumes "cache_ok H s" "b \<notin> H" "slack s" "card H \<le> 1"
  shows "does (fbread ROOTDEV b s) (\<lambda>(i, t). bopen H s b i t)"
  by (rule does_mono [OF fbread_ok [OF assms(1,2) slack_buffers [OF assms(3,4)]]]) (use assms(2) in \<open>auto simp: bopen_def\<close>)

lemma bopenD:
  assumes "bopen H s b i t"
  shows "cache_ok (insert b H) t" "cached (ls t) b i" "bdata i t = blocks s b" "blocks t = blocks s" "logged t = logged s"
    "sb t = sb s" "itable t = itable s" "ino t = ino s" "start (ls t) = start (ls s)" "me (ls t) = me (ls s)" "b \<notin> H"
    "outstanding (ls t) = outstanding (ls s)" "room M k t = room M k s"
proof -
  have "cache_ok (insert b H) t" using assms by (simp add: bopen_def)
  then have "uses (logged t) (insert b H) (ls t)" by (simp add: cache_ok_def)
  with assms show "bdata i t = blocks s b" by (auto simp: bopen_def bdata_def blocks_def dest: data_content [of _ _ _ b i])
qed (use assms in \<open>auto simp: bopen_def frame_def ino_def room_def fun_eq_iff\<close>)

lemma bopen_step:
  assumes "bopen H s b i t" "step (insert b H) t D T W u"
  shows "cached (ls u) b i" "bdata i u = D b"
proof -
  show c: "cached (ls u) b i" using stepD(8) [OF assms(2)] bopenD(2) [OF assms(1)] by blast
  have "uses (logged u) (insert b H) (ls u)" using stepD(1) [OF assms(2)] by (simp add: cache_ok_def)
  from data_content [OF this c] show "bdata i u = D b" using stepD(2) [OF assms(2)] by (simp add: bdata_def blocks_def)
qed

lemma bopen_self: "bopen H s b i t \<Longrightarrow> step (insert b H) t (blocks s) (itable s) {} t"
  using step_refl [OF bopenD(1)] bopenD(4,7) by metis

lemma close_block:
  assumes o: "bopen H s b i t" and u: "step (insert b H) t D T W u"
  shows "does (fbrelse i u) (step H s D T W)"
proof (rule does_mono [OF fbrelse_ok [OF stepD(1) [OF u] _ bopen_step(1) [OF o u]]])
  fix s' assume a: "cache_ok (insert b H - {b}) s' \<and> (\<forall>c j. cached (ls s') c j = cached (ls u) c j) \<and>
     frame u s' \<and> blocks s' = blocks u \<and> logged s' = logged u"
  then have "cache_ok H s'" using bopenD(11) [OF o] by simp
  moreover have "\<forall>c \<in> H. \<forall>j. cached (ls s) c j \<longrightarrow> cached (ls s') c j"
    using a o stepD(8) [OF u] by (simp add: bopen_def)
  ultimately show "step H s D T W s'" using a o u by (simp add: step_def bopen_def frame_def)
qed simp

lemma flog_write_step:
  assumes "cache_ok H s" "b \<in> H" "cached (ls s) b i" "fs_block (start (ls s)) b" "room M k s"
  shows "does (flog_write i x s) (step H s ((blocks s)(b := x)) (itable s) {b})"
proof -
  have "card (logged s) < LOGBLOCKS" "0 < outstanding (ls s)" using room_card [OF assms(5)] assms(5) by (simp_all add: room_def)
  from flog_write_ok [OF assms(1-4) this] show ?thesis
    by (rule does_mono) (auto simp: step_def frame_def)
qed

lemma write_bopen:
  assumes o: "bopen H s b i t" and u: "step (insert b H) t D T W u" and b: "fs_block (start (ls s)) b" and r: "room M k u"
  shows "does (flog_write i x u) (step (insert b H) t (D(b := x)) T (insert b W))"
proof -
  have "fs_block (start (ls u)) b" using stepD(6) [OF u] bopenD(9) [OF o] b by simp
  from flog_write_step [OF stepD(1) [OF u] _ bopen_step(1) [OF o u] this r, of x]
  have "does (flog_write i x u) (step (insert b H) u (D(b := x)) T {b})" using stepD(2,3) [OF u] by simp
  then show ?thesis by (rule does_mono) (use step_trans [OF u] in fastforce)
qed

text \<open>The pattern read, change, log, release.\<close>

lemma change_block:
  assumes s: "cache_ok H s" "b \<notin> H" "fs_block (start (ls s)) b" "room M k s" "card H \<le> 1"
    and f: "\<And>i t. bopen H s b i t \<Longrightarrow> f i t = x"
  shows "does (fbread ROOTDEV b s) (\<lambda>(i, t). does (flog_write i (f i t) t) (\<lambda>u. does (fbrelse i u)
     (step H s ((blocks s)(b := x)) (itable s) {b})))"
proof (rule does_mono [OF fbread_bopen [OF s(1,2) room_slack [OF s(4)] s(5)]], clarify)
  fix i t assume o: "bopen H s b i t"
  have "room M k t" using s(4) bopenD(13) [OF o] by simp
  from write_bopen [OF o bopen_self [OF o] s(3) this, of x] f [OF o]
  show "does (flog_write i (f i t) t) (\<lambda>u. does (fbrelse i u) (step H s ((blocks s)(b := x)) (itable s) {b}))"
    by (auto elim!: does_mono intro: close_block [OF o])
qed

lemma bzero_ok:
  assumes "cache_ok H s" "b \<notin> H" "fs_block (start (ls s)) b" "room M k s" "card H \<le> 1"
  shows "does (bzero ROOTDEV b s) (step H s ((blocks s)(b := zero_block)) (itable s) {b})"
  using change_block [OF assms, of "\<lambda>i t. zero_block"] by (simp add: bzero_def case_prod_unfold)

section \<open>The free map\<close>

definition used :: "(nat \<Rightarrow> block) \<Rightarrow> superblock \<Rightarrow> nat \<Rightarrow> bool" where
  "used D S b = map_bit (D (BBLOCK b S)) (b mod BPB)"

definition mark :: "bool \<Rightarrow> nat \<Rightarrow> superblock \<Rightarrow> (nat \<Rightarrow> block) \<Rightarrow> nat \<Rightarrow> block" where
  "mark v b S D = D(BBLOCK b S := set_map_bit (b mod BPB) v (D (BBLOCK b S)))"

definition mapblocks :: "superblock \<Rightarrow> nat set" where
  "mapblocks S = (\<lambda>b. BBLOCK b S) ` {..<sb_size S}"

definition inodeblocks :: "superblock \<Rightarrow> nat set" where
  "inodeblocks S = (\<lambda>n. IBLOCK n S) ` {..<ninodes S}"

text \<open>The inodes, the free map and the log do not overlap.\<close>

definition geometry :: "nat \<Rightarrow> superblock \<Rightarrow> bool" where
  "geometry st S \<longleftrightarrow> sb_size S < 2 ^ 31 \<and> mapblocks S \<union> inodeblocks S \<subseteq> {..<sb_size S} \<and>
     mapblocks S \<inter> inodeblocks S = {} \<and> (mapblocks S \<union> inodeblocks S) \<inter> log_area st = {}"

definition meta :: "nat \<Rightarrow> superblock \<Rightarrow> nat set" where
  "meta st S = {0, 1} \<union> log_area st \<union> mapblocks S \<union> inodeblocks S"

text \<open>Every block outside the log has the size of a block, and the free map never offers a reserved one.\<close>

definition sized :: "nat \<Rightarrow> superblock \<Rightarrow> nat \<Rightarrow> bool" where
  "sized st S b \<longleftrightarrow> b \<notin> log_area st \<or> b \<in> mapblocks S \<union> inodeblocks S"

definition sound :: "nat \<Rightarrow> superblock \<Rightarrow> (nat \<Rightarrow> block) \<Rightarrow> bool" where
  "sound st S D \<longleftrightarrow> (\<forall>b. sized st S b \<longrightarrow> length (D b) = BSIZE div 4) \<and> (\<forall>b \<in> meta st S. b < sb_size S \<longrightarrow> used D S b)"

lemma length_set_map_bit [simp]: "length (set_map_bit i v b) = length b"
  by (simp add: set_map_bit_def Let_def)

lemma map_bit_set:
  assumes "i div 32 < length b"
  shows "map_bit (set_map_bit i v b) j = (if j = i then v else map_bit b j)"
proof (cases "j div 32 = i div 32")
  case True
  have "j mod 32 = i mod 32 \<longleftrightarrow> j = i" using True by (metis div_mult_mod_eq)
  with True assms show ?thesis
    by (auto simp: map_bit_def set_map_bit_def Let_def bit_simps)
qed (auto simp: map_bit_def set_map_bit_def Let_def)

lemma used_mark:
  assumes "length (D (BBLOCK a S)) = BSIZE div 4"
  shows "used (mark v a S D) S b = (if b = a then v else used D S b)"
proof (cases "BBLOCK b S = BBLOCK a S")
  case True
  then have "b div BPB = a div BPB" by (simp add: BBLOCK_def)
  then have "b mod BPB = a mod BPB \<longleftrightarrow> b = a" by (metis div_mult_mod_eq)
  moreover have "a mod BPB div 32 < length (D (BBLOCK a S))"
    unfolding assms by (rule less_mult_imp_div_less) (simp add: BPB_def BSIZE_def)
  ultimately show ?thesis using True by (simp add: used_def mark_def map_bit_set)
qed (auto simp: used_def mark_def)

lemma length_mark: "length (mark v a S D b) = length (D b)"
  by (simp add: mark_def)

lemma used_other: "x \<notin> mapblocks S \<Longrightarrow> b < sb_size S \<Longrightarrow> used (D(x := y)) S b = used D S b"
  by (auto simp: used_def mapblocks_def)

lemma mark_other: "x \<notin> mapblocks S \<Longrightarrow> b < sb_size S \<Longrightarrow> mark v b S D x = D x"
  by (auto simp: mark_def mapblocks_def)

lemma mapblocks_in: "b < sb_size S \<Longrightarrow> BBLOCK b S \<in> mapblocks S"
  by (simp add: mapblocks_def)

lemma geometry_block:
  assumes "geometry st S" "x \<in> mapblocks S \<union> inodeblocks S"
  shows "fs_block st x" "x < sb_size S"
  using assms by (auto simp: geometry_def fs_block_def)

lemma soundD: "sound st S D \<Longrightarrow> sized st S b \<Longrightarrow> length (D b) = BSIZE div 4" "sound st S D \<Longrightarrow> b \<in> meta st S \<Longrightarrow> b < sb_size S \<Longrightarrow> used D S b"
  by (auto simp: sound_def)

lemma sized_map: "b < sb_size S \<Longrightarrow> sized st S (BBLOCK b S)"
  by (simp add: sized_def mapblocks_in)

lemma unused_block:
  assumes "sound st S D" "geometry st S" "b < sb_size S" "\<not> used D S b"
  shows "b \<notin> meta st S" "fs_block st b" "0 < b" "b \<notin> mapblocks S"
proof -
  show r: "b \<notin> meta st S" using soundD(2) [OF assms(1)] assms by blast
  then show "0 < b" "b \<notin> mapblocks S" by (auto simp: meta_def intro: Suc_leI)
  show "fs_block st b" using r assms by (auto simp: fs_block_def geometry_def meta_def)
qed

text \<open>A block the allocator hands out: marked, and zeroed.\<close>

definition allocated :: "nat \<Rightarrow> superblock \<Rightarrow> (nat \<Rightarrow> block) \<Rightarrow> nat \<Rightarrow> block" where
  "allocated a S D = (mark True a S D)(a := zero_block)"

lemma used_allocated:
  assumes "sound st S D" "geometry st S" "a < sb_size S" "\<not> used D S a" "b < sb_size S"
  shows "used (allocated a S D) S b \<longleftrightarrow> b = a \<or> used D S b"
  using used_mark [of D a S True b] soundD(1) [OF assms(1) sized_map [OF assms(3)]] used_other [of a S b] unused_block(4) [OF assms(1-4)] assms(5)
  by (simp add: allocated_def)

lemma sound_mark_free:
  assumes "sound st S D" "a \<notin> meta st S" "a < sb_size S"
  shows "sound st S (mark v a S D)"
  using assms used_mark [of D a S v, OF soundD(1) [OF assms(1) sized_map [OF assms(3)]]] by (auto simp: sound_def length_mark)

lemma sound_upd:
  assumes "sound st S D" "x \<notin> mapblocks S" "length y = BSIZE div 4"
  shows "sound st S (D(x := y))"
  using assms used_other [OF assms(2)] by (auto simp: sound_def)

lemma sound_allocated:
  assumes "sound st S D" "geometry st S" "a < sb_size S" "\<not> used D S a"
  shows "sound st S (allocated a S D)"
  unfolding allocated_def
  by (intro sound_upd sound_mark_free assms unused_block [OF assms]) (simp add: zero_block_def)

section \<open>The allocator\<close>

definition volume :: "fsst \<Rightarrow> bool" where
  "volume s \<longleftrightarrow> geometry (start (ls s)) (sb s) \<and> sound (start (ls s)) (sb s) (blocks s)"

lemma volume_step: "volume s \<Longrightarrow> step H s D T W s' \<Longrightarrow> sound (start (ls s)) (sb s) D \<Longrightarrow> volume s'"
  by (simp add: volume_def stepD)

lemma find_clear_cases:
  obtains (full) "find_clear b n = None" "\<And>i. i < n \<Longrightarrow> map_bit b i"
  | (free) i where "find_clear b n = Some i" "i < n" "\<not> map_bit b i"
proof (cases "find_clear b n")
  case None
  then show thesis by (intro full) (auto simp: find_clear_def find_None_iff)
next
  case (Some i)
  then show thesis by (intro free [of i]) (auto simp: find_clear_def find_Some_iff)
qed

lemma stretch:
  assumes "b = k * BPB" "i < BPB"
  shows "BBLOCK (b + i) S = BBLOCK b S" "(b + i) mod BPB = i" "(b + i) div BPB = k"
  using assms by (simp_all add: BBLOCK_def)

text \<open>The outcome of an allocation, the buffers of \<open>H\<close> being held.\<close>

definition alloc_result :: "nat set \<Rightarrow> fsst \<Rightarrow> (nat \<Rightarrow> bool) \<Rightarrow> nat \<times> fsst \<Rightarrow> bool" where
  "alloc_result H s looked r \<longleftrightarrow> (case r of (a, s') \<Rightarrow>
     a = 0 \<and> (\<forall>b < sb_size (sb s). looked b \<longrightarrow> used (blocks s) (sb s) b) \<and> step H s (blocks s) (itable s) {} s' \<or>
     0 < a \<and> a < sb_size (sb s) \<and> \<not> used (blocks s) (sb s) a \<and>
       step H s (allocated a (sb s) (blocks s)) (itable s) {BBLOCK a (sb s), a} s')"

lemma alloc_result_step:
  assumes "step H s (blocks s) (itable s) {} t" "alloc_result H t P (a, s')"
    "\<And>b. b < sb_size (sb s) \<Longrightarrow> Q b \<Longrightarrow> P b \<or> used (blocks s) (sb s) b"
  shows "alloc_result H s Q (a, s')"
  using assms stepD(2,3,5) [OF assms(1)] step_trans [OF assms(1)] unfolding alloc_result_def by (fastforce)

lemma balloc_found:
  assumes v: "volume s" and o: "bopen H s (BBLOCK a (sb s)) i t" and a: "a < sb_size (sb s)" "\<not> used (blocks s) (sb s) a" "a \<notin> H"
    and r: "room M (k + 1) s" "mapblocks (sb s) \<subseteq> M" "card H \<le> 1"
  shows "does (do { u \<leftarrow> flog_write i (set_map_bit (a mod BPB) True (bdata i t)) t; u \<leftarrow> fbrelse i u; u \<leftarrow> bzero ROOTDEV a u; Some (a, u) })
    (alloc_result H s P)"
proof -
  let ?st = "start (ls s)" and ?S = "sb s" and ?D = "blocks s"
  let ?m = "BBLOCK a ?S" and ?D' = "mark True a ?S ?D"
  have g: "geometry ?st ?S" "sound ?st ?S ?D" using v by (auto simp: volume_def)
  note m = mapblocks_in [OF a(1)] and n = unused_block [OF g(2,1) a(1,2)]
  have fm: "fs_block ?st ?m" using geometry_block(1) [OF g(1)] m by blast
  have rt: "room M (k + 1) t" using r(1) bopenD(13) [OF o] by simp
  note w = write_bopen [OF o bopen_self [OF o] fm rt, of "set_map_bit (a mod BPB) True (bdata i t)"]
  have z: "does (bzero ROOTDEV a u) (step H s (allocated a ?S ?D) (itable s) {?m, a})" if u: "step H s ?D' (itable s) {?m} u" for u
  proof -
    have "room M k u" using room_step [OF r(1) u, of "{}"] m r(2) by (auto intro: room_mono)
    from bzero_ok [OF stepD(1) [OF u] a(3) _ this r(3)] n(2) stepD [OF u]
    have "does (bzero ROOTDEV a u) (step H u (allocated a ?S ?D) (itable s) {a})" by (simp add: allocated_def)
    then show ?thesis by (rule does_mono) (use step_trans [OF u] in fastforce)
  qed
  have "does (flog_write i (set_map_bit (a mod BPB) True (bdata i t)) t) (\<lambda>u. does (fbrelse i u) (step H s ?D' (itable s) {?m}))"
    by (rule does_mono [OF w]) (use close_block [OF o] bopenD(3) [OF o] in \<open>simp add: mark_def\<close>)
  then show ?thesis using a(1,2) n(3) by (auto elim!: does_mono dest!: z simp: alloc_result_def)
qed

lemma balloc_loop_ok:
  assumes "volume s" "cache_ok H s" "H \<inter> mapblocks (sb s) = {}" "\<forall>b \<in> H. used (blocks s) (sb s) b" "card H \<le> 1"
    "room M (k + 1) s" "mapblocks (sb s) \<subseteq> M" "\<forall>b \<in> set bs. \<exists>k. b = k * BPB" "\<forall>b \<in> set bs. b < sb_size (sb s)"
  shows "does (balloc_loop ROOTDEV bs s) (alloc_result H s (\<lambda>x. \<exists>b \<in> set bs. x div BPB = b div BPB))"
  using assms
proof (induction bs arbitrary: s)
  case Nil
  then show ?case by (simp add: alloc_result_def step_refl)
next
  case (Cons b bs)
  let ?S = "sb s" and ?D = "blocks s"
  obtain kb where kb: "b = kb * BPB" using Cons.prems(8) by auto
  have b: "b < sb_size ?S" "BBLOCK b ?S \<notin> H" using Cons.prems(3,9) mapblocks_in [of b ?S] by auto
  have body: "does (case find_clear (bdata i t) (min BPB (sb_size (sb t) - b)) of
        Some bi \<Rightarrow> do { s \<leftarrow> flog_write i (set_map_bit bi True (bdata i t)) t; s \<leftarrow> fbrelse i s; s \<leftarrow> bzero ROOTDEV (b + bi) s; Some (b + bi, s) }
      | None \<Rightarrow> do { s \<leftarrow> fbrelse i t; balloc_loop ROOTDEV bs s })
     (alloc_result H s (\<lambda>x. \<exists>b \<in> set (b # bs). x div BPB = b div BPB))" if o: "bopen H s (BBLOCK b ?S) i t" for i t
  proof (cases rule: find_clear_cases [of "bdata i t" "min BPB (sb_size (sb t) - b)"])
    case full
    have looked: "used ?D ?S x" if "x < sb_size ?S" "x div BPB = b div BPB" for x
    proof -
      have "x = b + x mod BPB" using that(2) kb div_mult_mod_eq [of x BPB] by (simp add: BPB_def BSIZE_def)
      moreover have "x mod BPB < BPB" by (simp add: BPB_def BSIZE_def)
      ultimately show ?thesis using full(2) [of "x mod BPB"] that stretch(1) [OF kb, of "x mod BPB" ?S] bopenD(3,6) [OF o]
        by (simp add: used_def)
    qed
    have rest: "does (balloc_loop ROOTDEV bs u) (alloc_result H s (\<lambda>x. \<exists>b \<in> set (b # bs). x div BPB = b div BPB))"
      if u: "step H s ?D (itable s) {} u" for u
    proof -
      have "room M (k + 1) u" using Cons.prems(6) stepD(4,10) [OF u] by (simp add: room_def)
      then have "does (balloc_loop ROOTDEV bs u) (alloc_result H u (\<lambda>x. \<exists>b \<in> set bs. x div BPB = b div BPB))"
        using Cons.prems stepD [OF u] by (intro Cons.IH) (auto simp: volume_def)
      then show ?thesis by (rule does_mono) (clarify, rule alloc_result_step [OF u], use looked in auto)
    qed
    show ?thesis using full(1) does_mono [OF close_block [OF o bopen_self [OF o]] rest] by simp
  next
    case (free bi)
    then have f: "bi < BPB" "b + bi < sb_size ?S" using bopenD(6) [OF o] by auto
    note e = stretch [OF kb f(1)]
    have "\<not> used ?D ?S (b + bi)" using free(3) bopenD(3) [OF o] e by (simp add: used_def)
    moreover from this have "b + bi \<notin> H" using Cons.prems(4) by blast
    ultimately show ?thesis
      using balloc_found [OF Cons.prems(1) _ f(2), of H i t M k] o e free(1) Cons.prems(5-7) by simp
  qed
  show ?case
    unfolding balloc_loop.simps(2) does_simps
    by (rule does_mono [OF fbread_bopen [OF Cons.prems(2) b(2) room_slack [OF Cons.prems(6)] Cons.prems(5)]]) (use body in \<open>simp add: case_prod_unfold\<close>)
qed

lemma stretches_cover: "b < sb_size S \<Longrightarrow> \<exists>x \<in> set (stretches S). b div BPB = x div BPB"
  by (intro bexI [of _ "(b div BPB) * BPB"]) (auto simp: stretches_def BPB_def BSIZE_def)

lemma stretches_start: "x \<in> set (stretches S) \<Longrightarrow> (\<exists>k. x = k * BPB) \<and> x < sb_size S"
  by (auto simp: stretches_def BPB_def BSIZE_def)

lemma balloc_ok:
  assumes "volume s" "cache_ok H s" "H \<inter> mapblocks (sb s) = {}" "\<forall>b \<in> H. used (blocks s) (sb s) b" "card H \<le> 1"
    "room M (k + 1) s" "mapblocks (sb s) \<subseteq> M"
  shows "does (balloc ROOTDEV s) (alloc_result H s (\<lambda>b. True))"
proof (rule does_mono)
  show "does (balloc ROOTDEV s) (alloc_result H s (\<lambda>x. \<exists>b \<in> set (stretches (sb s)). x div BPB = b div BPB))"
    unfolding balloc_def by (rule balloc_loop_ok [OF assms]) (use stretches_start in blast)+
qed (use stretches_cover in \<open>auto simp: alloc_result_def\<close>)

lemma bfree_ok:
  assumes v: "volume s" and H: "cache_ok H s" "H \<inter> mapblocks (sb s) = {}" "card H \<le> 1" and r: "room M k s"
    and b: "b < sb_size (sb s)"
  shows "if used (blocks s) (sb s) b
    then does (bfree ROOTDEV b s) (step H s (mark False b (sb s) (blocks s)) (itable s) {BBLOCK b (sb s)})
    else bfree ROOTDEV b s = None"
proof -
  let ?m = "BBLOCK b (sb s)"
  have m: "?m \<notin> H" "fs_block (start (ls s)) ?m"
    using H(2) mapblocks_in [OF b] geometry_block(1) v by (auto simp: volume_def)
  have c: "does (fbread ROOTDEV ?m s) (\<lambda>(i, t). bopen H s ?m i t)" by (rule fbread_bopen [OF H(1) m(1) room_slack [OF r] H(3)])
  then obtain i t where o: "fbread ROOTDEV ?m s = Some (i, t)" "bopen H s ?m i t" by (auto simp: does_def)
  have u: "map_bit (bdata i t) (b mod BPB) \<longleftrightarrow> used (blocks s) (sb s) b" using bopenD(3) [OF o(2)] by (simp add: used_def)
  show ?thesis
    using change_block [OF H(1) m r H(3), of "\<lambda>i t. set_map_bit (b mod BPB) False (bdata i t)"] bopenD(3) o u
    by (simp add: bfree_def mark_def)
qed

end
