(* ===== verification/Fs_File.thy ===== *)
theory Fs_File
  imports Fs_Blocks
begin

text \<open>
  The blocks of a file: which blocks an inode owns, how \<open>bmap\<close> adds to them, and the contents of
  the file as \<open>readi\<close> and \<open>writei\<close> see and change them.
\<close>

section \<open>The blocks of an inode\<close>

definition NSLOT :: nat where "NSLOT = NDIRECT + 1 + NINDIRECT"

text \<open>The block numbers of an inode: the direct ones, the indirect block, the entries of the indirect block.\<close>

definition bslot :: "(nat \<Rightarrow> block) \<Rightarrow> 32 word list \<Rightarrow> nat \<Rightarrow> 32 word" where
  "bslot D as k = (if k \<le> NDIRECT then as ! k else if as ! NDIRECT = 0 then 0
     else D (unat (as ! NDIRECT)) ! (k - NDIRECT - 1))"

definition bpos :: "nat \<Rightarrow> nat" where
  "bpos bn = (if bn < NDIRECT then bn else bn + 1)"

definition addr :: "(nat \<Rightarrow> block) \<Rightarrow> 32 word list \<Rightarrow> nat \<Rightarrow> nat" where
  "addr D as bn = unat (bslot D as (bpos bn))"

definition owned :: "(nat \<Rightarrow> block) \<Rightarrow> 32 word list \<Rightarrow> nat set" where
  "owned D as = {unat (bslot D as k) |k. k < NSLOT \<and> bslot D as k \<noteq> 0}"

definition file_ok :: "nat \<Rightarrow> superblock \<Rightarrow> (nat \<Rightarrow> block) \<Rightarrow> 32 word list \<Rightarrow> bool" where
  "file_ok st S D as \<longleftrightarrow> length as = NDIRECT + 1 \<and>
     (\<forall>b \<in> owned D as. b < sb_size S \<and> used D S b \<and> b \<notin> meta st S) \<and>
     (\<forall>j < NSLOT. \<forall>k < NSLOT. bslot D as j = bslot D as k \<longrightarrow> bslot D as j \<noteq> 0 \<longrightarrow> j = k)"

lemmas slot_consts = NSLOT_def NDIRECT_def NINDIRECT_def MAXFILE_def BSIZE_def

lemma ownedI: "k < NSLOT \<Longrightarrow> bslot D as k \<noteq> 0 \<Longrightarrow> unat (bslot D as k) \<in> owned D as"
  by (auto simp: owned_def)

lemma slot_indirect [simp]: "bslot D as NDIRECT = as ! NDIRECT" "NDIRECT < NSLOT"
  by (simp_all add: bslot_def NSLOT_def)

lemma pos_slot: "bn < MAXFILE \<Longrightarrow> bpos bn < NSLOT" "bn < MAXFILE \<Longrightarrow> bpos bn \<noteq> NDIRECT" "bpos bn = bpos bn' \<longleftrightarrow> bn = bn'"
  by (auto simp: bpos_def slot_consts)

lemma addr_owned: "bn < MAXFILE \<Longrightarrow> addr D as bn \<noteq> 0 \<Longrightarrow> addr D as bn \<in> owned D as"
  using pos_slot(1) by (auto simp: addr_def intro!: ownedI)

lemma file_okD:
  assumes "file_ok st S D as"
  shows "length as = NDIRECT + 1" "b \<in> owned D as \<Longrightarrow> b < sb_size S" "b \<in> owned D as \<Longrightarrow> used D S b"
    "b \<in> owned D as \<Longrightarrow> b \<notin> meta st S"
    "j < NSLOT \<Longrightarrow> k < NSLOT \<Longrightarrow> bslot D as j = bslot D as k \<Longrightarrow> bslot D as j \<noteq> 0 \<Longrightarrow> j = k"
  using assms by (auto simp: file_ok_def)

lemma owned_not_meta: "file_ok st S D as \<Longrightarrow> b \<in> owned D as \<Longrightarrow> b \<notin> mapblocks S \<and> b \<notin> inodeblocks S \<and> b \<notin> log_area st \<and> b \<noteq> 0"
  using file_okD(4) by (auto simp: meta_def)

lemma owned_sized: "file_ok st S D as \<Longrightarrow> b \<in> owned D as \<Longrightarrow> sized st S b"
  using owned_not_meta by (auto simp: sized_def)

lemma owned_fs_block: "file_ok st S D as \<Longrightarrow> geometry st S \<Longrightarrow> b \<in> owned D as \<Longrightarrow> fs_block st b"
  using owned_not_meta file_okD(2) by (fastforce simp: fs_block_def geometry_def)

lemma indirect_owned: "as ! NDIRECT \<noteq> 0 \<Longrightarrow> unat (as ! NDIRECT) \<in> owned D as"
  using ownedI [of NDIRECT D as] by simp

lemma indirect_not_addr:
  assumes "file_ok st S D as" "as ! NDIRECT \<noteq> 0" "bn < MAXFILE"
  shows "addr D as bn \<noteq> unat (as ! NDIRECT)"
proof
  assume "addr D as bn = unat (as ! NDIRECT)"
  then have "bslot D as NDIRECT = bslot D as (bpos bn)" by (simp add: addr_def word_unat_eq_iff)
  then have "NDIRECT = bpos bn"
    using assms(2) by (intro file_okD(5) [OF assms(1) slot_indirect(2) pos_slot(1) [OF assms(3)]]) simp_all
  then show False using pos_slot(2) [OF assms(3)] by simp
qed

lemma addr_inj:
  assumes "file_ok st S D as" "m < MAXFILE" "n < MAXFILE" "addr D as m = addr D as n" "addr D as m \<noteq> 0"
  shows "m = n"
proof -
  have "bslot D as (bpos m) = bslot D as (bpos n)" "bslot D as (bpos m) \<noteq> 0" using assms(4,5) by (auto simp: addr_def word_unat_eq_iff)
  then show ?thesis using file_okD(5) [OF assms(1)] pos_slot assms(2,3) by metis
qed

text \<open>An inode does not change when the blocks it owns do not.\<close>

lemma slot_cong: "(\<And>b. b \<in> owned D as \<Longrightarrow> D' b = D b) \<Longrightarrow> bslot D' as = bslot D as"
  using indirect_owned [of as D] by (auto simp: bslot_def fun_eq_iff)

lemma owned_cong:
  assumes "\<And>b. b \<in> owned D as \<Longrightarrow> D' b = D b"
  shows "owned D' as = owned D as" "addr D' as = addr D as"
  using slot_cong [OF assms] by (simp_all add: owned_def addr_def fun_eq_iff)

lemma file_ok_cong:
  assumes "file_ok st S D as" "\<And>b. b \<in> owned D as \<Longrightarrow> D' b = D b" "\<And>b. b \<in> owned D as \<Longrightarrow> used D' S b"
  shows "file_ok st S D' as"
  using assms(1,3) slot_cong [of D as D', OF assms(2)] owned_cong [of D as D', OF assms(2)] by (auto simp: file_ok_def)

section \<open>Adding a block to an inode\<close>

text \<open>Block \<open>a\<close>, free so far, becomes number \<open>k\<close> of the inode.\<close>

definition grow_at :: "nat \<Rightarrow> superblock \<Rightarrow> nat \<Rightarrow> nat \<Rightarrow> (nat \<Rightarrow> block) \<Rightarrow> 32 word list \<Rightarrow> (nat \<Rightarrow> block) \<Rightarrow> 32 word list \<Rightarrow> bool" where
  "grow_at st S k a D as D' as' \<longleftrightarrow> k < NSLOT \<and> a < sb_size S \<and> \<not> used D S a \<and> a \<notin> meta st S \<and>
     bslot D as k = 0 \<and> (NDIRECT < k \<longrightarrow> as ! NDIRECT \<noteq> 0) \<and> length as' = NDIRECT + 1 \<and> sound st S D' \<and>
     (\<forall>b < sb_size S. used D' S b \<longleftrightarrow> b = a \<or> used D S b) \<and>
     (\<forall>j < NSLOT. bslot D' as' j = (if j = k then of_nat a else bslot D as j)) \<and> D' a = zero_block \<and>
     (\<forall>b. b \<notin> mapblocks S \<longrightarrow> b \<noteq> a \<longrightarrow> (NDIRECT < k \<longrightarrow> b \<noteq> unat (as ! NDIRECT)) \<longrightarrow> D' b = D b)"

lemma block_number:
  assumes "a < 2 ^ 31"
  shows "unat (of_nat a :: 32 word) = a" "0 < a \<Longrightarrow> (of_nat a :: 32 word) \<noteq> 0"
proof -
  show *: "unat (of_nat a :: 32 word) = a" using assms by (simp add: unat_of_nat take_bit_nat_eq_self)
  show "(of_nat a :: 32 word) \<noteq> 0" if "0 < a" using * that by (metis less_not_refl unat_0)
qed

lemma allocated_other: "b \<notin> mapblocks S \<Longrightarrow> b \<noteq> a \<Longrightarrow> a < sb_size S \<Longrightarrow> allocated a S D b = D b"
  by (simp add: allocated_def mark_other)

lemma grow_direct:
  assumes f: "file_ok st S D as" "sound st S D" "geometry st S" and a: "a < sb_size S" "\<not> used D S a" and k: "k \<le> NDIRECT" "as ! k = 0"
  shows "grow_at st S k a D as (allocated a S D) (as[k := of_nat a])"
proof -
  note n = unused_block [OF f(2,3) a]
  have ind: "allocated a S D (unat (as ! NDIRECT)) = D (unat (as ! NDIRECT))" if "as ! NDIRECT \<noteq> 0"
    using allocated_other [of "unat (as ! NDIRECT)" S a D] indirect_owned [OF that, of D] owned_not_meta [OF f(1)] file_okD(3) [OF f(1)] a by metis
  have z: "allocated a S D a = zero_block" by (simp add: allocated_def)
  have v: "unat (of_nat a :: 32 word) = a" "(of_nat a :: 32 word) \<noteq> 0"
    using block_number [of a] a(1) f(3) n(3) by (simp_all add: geometry_def)
  have "bslot (allocated a S D) (as[k := of_nat a]) j = (if j = k then of_nat a else bslot D as j)" if "j < NSLOT" for j
    using that k v z ind file_okD(1) [OF f(1)]
    by (auto simp: bslot_def nth_list_update zero_block_def slot_consts)
  then show ?thesis
    using assms n file_okD(1) [OF f(1)] sound_allocated [OF f(2,3) a] used_allocated [OF f(2,3) a] z
    by (auto simp: grow_at_def allocated_other bslot_def slot_consts)
qed

lemma grow_indirect:
  assumes f: "file_ok st S D as" "sound st S D" "geometry st S" and a: "a < sb_size S" "\<not> used D S a"
    and k: "NDIRECT < k" "k < NSLOT" "as ! NDIRECT \<noteq> 0" "bslot D as k = 0"
  shows "grow_at st S k a D as ((allocated a S D)(unat (as ! NDIRECT) := (D (unat (as ! NDIRECT)))[k - NDIRECT - 1 := of_nat a])) as"
proof -
  let ?i = "unat (as ! NDIRECT)" and ?A = "allocated a S D"
  let ?D = "?A(?i := (D ?i)[k - NDIRECT - 1 := of_nat a])"
  note n = unused_block [OF f(2,3) a] and l = soundD(1) [OF f(2) owned_sized [OF f(1) indirect_owned [OF k(3)]]]
  have i: "?i \<notin> mapblocks S" "?i \<noteq> a"
    using indirect_owned [OF k(3), of D] owned_not_meta [OF f(1)] file_okD(3) [OF f(1)] a(2) by metis+
  have "bslot ?D as j = (if j = k then of_nat a else bslot D as j)" if "j < NSLOT" for j
  proof (cases "j \<le> NDIRECT")
    case False
    then have "j - NDIRECT - 1 = k - NDIRECT - 1 \<longleftrightarrow> j = k" "k - NDIRECT - 1 < BSIZE div 4"
      using k by (auto simp: slot_consts)
    with False show ?thesis using k(1,3) l by (auto simp: bslot_def nth_list_update)
  qed (use k in \<open>simp add: bslot_def\<close>)
  moreover have "used ?D S b \<longleftrightarrow> b = a \<or> used D S b" if "b < sb_size S" for b
    using used_other [OF i(1) that] used_allocated [OF f(2,3) a that] by simp
  moreover have "sound st S ?D" by (rule sound_upd [OF sound_allocated [OF f(2,3) a] i(1)]) (simp add: l)
  moreover have "?D a = zero_block" using i by (simp add: allocated_def)
  ultimately show ?thesis
    using a n k file_okD(1) [OF f(1)] by (simp add: grow_at_def allocated_other)
qed

text \<open>
  A file that grew: it keeps its blocks, what it gained was free, no other block became used,
  and only the free map and its own blocks have changed.
\<close>

definition grew :: "nat \<Rightarrow> superblock \<Rightarrow> (nat \<Rightarrow> block) \<Rightarrow> 32 word list \<Rightarrow> (nat \<Rightarrow> block) \<Rightarrow> 32 word list \<Rightarrow> bool" where
  "grew st S D as D' as' \<longleftrightarrow> sound st S D' \<and> file_ok st S D' as' \<and> owned D as \<subseteq> owned D' as' \<and>
     (\<forall>b \<in> owned D' as' - owned D as. \<not> used D S b) \<and>
     (\<forall>b < sb_size S. used D' S b \<longleftrightarrow> used D S b \<or> b \<in> owned D' as') \<and>
     (\<forall>b. b \<notin> mapblocks S \<longrightarrow> b \<notin> owned D' as' \<longrightarrow> D' b = D b) \<and>
     (\<forall>bn < MAXFILE. addr D as bn \<noteq> 0 \<longrightarrow> addr D' as' bn = addr D as bn) \<and>
     (as ! NDIRECT \<noteq> 0 \<longrightarrow> as' ! NDIRECT = as ! NDIRECT)"

lemma grew_refl: "sound st S D \<Longrightarrow> file_ok st S D as \<Longrightarrow> grew st S D as D as"
  using file_okD(3) by (auto simp: grew_def)

lemma grewD:
  assumes "grew st S D as D' as'"
  shows "sound st S D'" "file_ok st S D' as'" "owned D as \<subseteq> owned D' as'"
    "b \<in> owned D' as' \<Longrightarrow> used D S b \<Longrightarrow> b \<in> owned D as"
    "b < sb_size S \<Longrightarrow> used D' S b \<longleftrightarrow> used D S b \<or> b \<in> owned D' as'"
    "b \<notin> mapblocks S \<Longrightarrow> b \<notin> owned D' as' \<Longrightarrow> D' b = D b"
    "bn < MAXFILE \<Longrightarrow> addr D as bn \<noteq> 0 \<Longrightarrow> addr D' as' bn = addr D as bn"
    "as ! NDIRECT \<noteq> 0 \<Longrightarrow> as' ! NDIRECT = as ! NDIRECT"
  using assms by (auto simp: grew_def)

lemma grew_trans:
  assumes 1: "grew st S D as D1 as1" and 2: "grew st S D1 as1 D2 as2"
  shows "grew st S D as D2 as2"
proof -
  have "\<not> used D S b" if "b \<in> owned D2 as2" "b \<notin> owned D as" for b
    using that grewD(4) [OF 1] grewD(4) [OF 2] grewD(5) [OF 1] file_okD(2) [OF grewD(2) [OF 2]] by blast
  moreover have "D2 b = D b" if "b \<notin> mapblocks S" "b \<notin> owned D2 as2" for b
    using that grewD(6) [OF 2] grewD(6) [OF 1] grewD(3) [OF 2] by (metis subsetD)
  moreover have "used D2 S b \<longleftrightarrow> used D S b \<or> b \<in> owned D2 as2" if "b < sb_size S" for b
    using grewD(5) [OF 1 that] grewD(5) [OF 2 that] grewD(3) [OF 2] by blast
  moreover have "addr D2 as2 bn = addr D as bn" if "bn < MAXFILE" "addr D as bn \<noteq> 0" for bn
    using grewD(7) [OF 1 that] grewD(7) [OF 2 that(1)] that(2) by simp
  ultimately show ?thesis
    using grewD(1-3,8) [OF 2] grewD(3,8) [OF 1] by (simp add: grew_def)
qed

text \<open>Other files do not notice.\<close>

lemma grew_others:
  assumes g: "grew st S D as D' as'" and o: "file_ok st S D bs" "owned D bs \<inter> owned D as = {}"
  shows "file_ok st S D' bs" "owned D' bs = owned D bs" "addr D' bs = addr D bs" "owned D' bs \<inter> owned D' as' = {}"
    "b \<in> owned D bs \<Longrightarrow> D' b = D b"
proof -
  have disj: "b \<notin> owned D' as'" if "b \<in> owned D bs" for b
    using that grewD(4) [OF g, of b] file_okD(3) [OF o(1) that] o(2) by blast
  show same: "D' b = D b" if "b \<in> owned D bs" for b
    using grewD(6) [OF g] disj [OF that] owned_not_meta [OF o(1) that] by blast
  show "owned D' bs = owned D bs" "addr D' bs = addr D bs" using owned_cong [of D bs D'] same by blast+
  then show "owned D' bs \<inter> owned D' as' = {}" using disj by auto
  show "file_ok st S D' bs"
    by (rule file_ok_cong [OF o(1) same]) (use grewD(5) [OF g] file_okD(2,3) [OF o(1)] in auto)
qed

lemma grow_at_owned:
  assumes g: "grow_at st S k a D as D' as'" and S: "geometry st S"
  shows "owned D' as' = insert a (owned D as)" "unat (of_nat a :: 32 word) = a" "a \<noteq> 0"
proof -
  show n: "a \<noteq> 0" using g by (auto simp: grow_at_def meta_def)
  show v: "unat (of_nat a :: 32 word) = a" using g S block_number(1) [of a] by (simp add: grow_at_def geometry_def)
  then have z: "(of_nat a :: 32 word) \<noteq> 0" using n by auto
  have k: "k < NSLOT" "bslot D as k = 0" and s: "\<And>j. j < NSLOT \<Longrightarrow> bslot D' as' j = (if j = k then of_nat a else bslot D as j)"
    using g by (auto simp: grow_at_def)
  show "owned D' as' = insert a (owned D as)"
  proof (intro equalityI subsetI)
    fix b assume "b \<in> owned D' as'"
    then obtain j where "j < NSLOT" "bslot D' as' j \<noteq> 0" "b = unat (bslot D' as' j)" by (auto simp: owned_def)
    then show "b \<in> insert a (owned D as)" using s v by (cases "j = k") (auto intro: ownedI)
  next
    fix b assume "b \<in> insert a (owned D as)"
    then consider "b = a" | j where "j < NSLOT" "bslot D as j \<noteq> 0" "b = unat (bslot D as j)" by (auto simp: owned_def)
    then show "b \<in> owned D' as'"
    proof cases
      case 1
      then show ?thesis using ownedI [OF k(1), of D' as'] s [OF k(1)] v z by simp
    next
      case 2
      then show ?thesis using ownedI [of j D' as'] s k(2) by (cases "j = k") auto
    qed
  qed
qed

lemma grow_at_file_ok:
  assumes g: "grow_at st S k a D as D' as'" and S: "geometry st S" and f: "file_ok st S D as"
  shows "file_ok st S D' as'"
proof -
  note o = grow_at_owned [OF g S]
  have a: "a \<notin> owned D as" using g file_okD(3) [OF f] by (auto simp: grow_at_def)
  have s: "\<And>j. j < NSLOT \<Longrightarrow> bslot D' as' j = (if j = k then of_nat a else bslot D as j)" using g by (simp add: grow_at_def)
  have z: "(of_nat a :: 32 word) \<noteq> 0" using o(2,3) by auto
  have new: "bslot D as j \<noteq> of_nat a" if "j < NSLOT" for j using that a z o(2) ownedI [of j D as] by auto
  have "i = j" if "i < NSLOT" "j < NSLOT" "bslot D' as' i = bslot D' as' j" "bslot D' as' i \<noteq> 0" for i j
    using that s [OF that(1)] s [OF that(2)] new [OF that(1)] new [OF that(2)] file_okD(5) [OF f that(1,2)]
    by (auto split: if_splits)
  moreover have "b < sb_size S \<and> used D' S b \<and> b \<notin> meta st S" if "b \<in> owned D' as'" for b
    using that o(1) g file_okD(2-4) [OF f] by (auto simp: grow_at_def)
  ultimately show ?thesis using g unfolding file_ok_def grow_at_def by blast
qed

lemma grow_at_grew:
  assumes g: "grow_at st S k a D as D' as'" and S: "geometry st S" and f: "file_ok st S D as"
  shows "grew st S D as D' as'"
proof -
  note o = grow_at_owned [OF g S]
  have s: "\<And>j. j < NSLOT \<Longrightarrow> bslot D' as' j = (if j = k then of_nat a else bslot D as j)" and z: "bslot D as k = 0"
    using g by (auto simp: grow_at_def)
  have "addr D' as' bn = addr D as bn" if "bn < MAXFILE" "addr D as bn \<noteq> 0" for bn
    using that s [OF pos_slot(1) [OF that(1)]] z by (auto simp: addr_def)
  moreover have "as' ! NDIRECT = as ! NDIRECT" if "as ! NDIRECT \<noteq> 0"
    using s [of NDIRECT] z that by (auto split: if_splits)
  moreover have "D' b = D b" if "b \<notin> mapblocks S" "b \<notin> owned D' as'" for b
    using that o(1) g indirect_owned [of as D] by (auto simp: grow_at_def)
  moreover have "b < sb_size S \<Longrightarrow> used D' S b \<longleftrightarrow> used D S b \<or> b \<in> owned D' as'" for b
    using g o(1) file_okD(3) [OF f] by (auto simp: grow_at_def)
  ultimately show ?thesis
    using o(1) g grow_at_file_ok [OF g S f] by (auto simp: grew_def grow_at_def)
qed

text \<open>The effect of \<open>bmap\<close> for block \<open>bn\<close> of the file.\<close>

definition bmapped :: "nat \<Rightarrow> superblock \<Rightarrow> nat \<Rightarrow> (nat \<Rightarrow> block) \<Rightarrow> 32 word list \<Rightarrow> (nat \<Rightarrow> block) \<Rightarrow> 32 word list \<Rightarrow> bool" where
  "bmapped st S bn D as D' as' \<longleftrightarrow> grew st S D as D' as' \<and>
     (\<forall>x < MAXFILE. x \<noteq> bn \<longrightarrow> addr D' as' x = addr D as x) \<and>
     (\<forall>x < MAXFILE. addr D as x \<noteq> 0 \<longrightarrow> D' (addr D as x) = D (addr D as x)) \<and>
     (addr D as bn = 0 \<longrightarrow> addr D' as' bn \<noteq> 0 \<longrightarrow> D' (addr D' as' bn) = zero_block) \<and>
     (addr D as bn \<noteq> 0 \<longrightarrow> D' = D \<and> as' = as)"

lemma bmapped_refl: "sound st S D \<Longrightarrow> file_ok st S D as \<Longrightarrow> bmapped st S bn D as D as"
  by (simp add: bmapped_def grew_refl)

lemma bmapped_trans:
  assumes "bmapped st S bn D as D1 as1" "bmapped st S bn D1 as1 D2 as2" "bn < MAXFILE"
  shows "bmapped st S bn D as D2 as2"
proof -
  have g: "grew st S D as D1 as1" "grew st S D1 as1 D2 as2" using assms by (auto simp: bmapped_def)
  have "D2 (addr D as x) = D (addr D as x)" if "x < MAXFILE" "addr D as x \<noteq> 0" for x
    using that assms grewD(7) [OF g(1) that] unfolding bmapped_def by metis
  then show ?thesis using assms grew_trans [OF g] unfolding bmapped_def by metis
qed

lemma grow_at_bmapped:
  assumes g: "grow_at st S k a D as D' as'" and S: "geometry st S" and f: "file_ok st S D as"
    and k: "k = bpos bn \<or> k = NDIRECT" "bn < MAXFILE" "addr D as bn = 0"
  shows "bmapped st S bn D as D' as'" "k = bpos bn \<Longrightarrow> addr D' as' bn = a" "k = NDIRECT \<Longrightarrow> unat (as' ! NDIRECT) = a"
proof -
  note o = grow_at_owned [OF g S]
  have s: "\<And>j. j < NSLOT \<Longrightarrow> bslot D' as' j = (if j = k then of_nat a else bslot D as j)" and z: "bslot D as k = 0"
    using g by (auto simp: grow_at_def)
  note p = pos_slot(1,2) pos_slot(3)
  have other: "addr D' as' x = addr D as x" if "x < MAXFILE" "x \<noteq> bn" for x
    using that k(1) s [OF p(1)] p by (auto simp: addr_def)
  show bn: "addr D' as' bn = a" if "k = bpos bn" using that s [OF p(1) [OF k(2)]] o(2) by (simp add: addr_def)
  have zero: "D' (addr D' as' bn) = zero_block" if "addr D' as' bn \<noteq> 0"
  proof (cases "k = bpos bn")
    case True
    then show ?thesis using bn g by (simp add: grow_at_def)
  next
    case False
    then have "addr D' as' bn = addr D as bn" using s [OF p(1) [OF k(2)]] by (simp add: addr_def)
    then show ?thesis using k(3) that by simp
  qed
  have data: "D' (addr D as x) = D (addr D as x)" if x: "x < MAXFILE" "addr D as x \<noteq> 0" for x
  proof -
    have "addr D as x \<notin> mapblocks S" "used D S (addr D as x)"
      using addr_owned [OF x] owned_not_meta [OF f] file_okD(3) [OF f] by blast+
    then show ?thesis using g indirect_not_addr [OF f _ x(1)] unfolding grow_at_def by metis
  qed
  show "bmapped st S bn D as D' as'"
    using grow_at_grew [OF g S f] other zero data k(3) by (simp add: bmapped_def)
  show "k = NDIRECT \<Longrightarrow> unat (as' ! NDIRECT) = a" using s [of NDIRECT] o(2) by simp
qed

section \<open>bmap\<close>

definition with_addrs :: "nat \<Rightarrow> 32 word list \<Rightarrow> fsst \<Rightarrow> inode list" where
  "with_addrs ip as s = (itable s)[ip := (ino s ip)\<lparr>addrs := as\<rparr>]"

definition file_at :: "nat \<Rightarrow> fsst \<Rightarrow> bool" where
  "file_at ip s \<longleftrightarrow> ip < length (itable s) \<and> idev (ino s ip) = ROOTDEV \<and> inum (ino s ip) < ninodes (sb s) \<and>
     file_ok (start (ls s)) (sb s) (blocks s) (addrs (ino s ip))"

definition ind :: "32 word list \<Rightarrow> nat set" where
  "ind as = {unat (as ! NDIRECT)} - {0}"

text \<open>Room for \<open>k\<close> blocks of the file besides its indirect block.\<close>

definition budget :: "nat set \<Rightarrow> 32 word list \<Rightarrow> nat \<Rightarrow> fsst \<Rightarrow> bool" where
  "budget M as k s \<longleftrightarrow> room (M \<union> ind as) (k + (if as ! NDIRECT = 0 then 1 else 0)) s"

definition bmap_post :: "nat set \<Rightarrow> nat \<Rightarrow> nat \<Rightarrow> fsst \<Rightarrow> nat \<times> fsst \<Rightarrow> bool" where
  "bmap_post M ip bn s r \<longleftrightarrow> (case r of (a, s') \<Rightarrow> \<exists>D' as' W. step {} s D' (with_addrs ip as' s) W s' \<and>
     bmapped (start (ls s)) (sb s) bn (blocks s) (addrs (ino s ip)) D' as' \<and> a = addr D' as' bn \<and>
     (a = 0 \<longrightarrow> (\<forall>b < sb_size (sb s). used D' (sb s) b)) \<and> W \<subseteq> M \<union> ({a} - {0}) \<union> ind as')"

lemma with_addrs_self [simp]: "with_addrs ip (addrs (ino s ip)) s = itable s"
  by (cases "itable s ! ip") (simp add: with_addrs_def ino_def, metis list_update_id)

lemma with_addrs_step:
  assumes "step H s D (with_addrs ip as s) W t" "ip < length (itable s)"
  shows "with_addrs ip as' t = with_addrs ip as' s" "addrs (ino t ip) = as" "ino t ip = (ino s ip)\<lparr>addrs := as\<rparr>"
    "length (itable t) = length (itable s)"
  using stepD(3) [OF assms(1)] assms(2) by (simp_all add: with_addrs_def ino_def)

lemma step_self: "step H s D (itable s) W t \<Longrightarrow> step H s D (with_addrs ip (addrs (ino s ip)) s) W t"
  by simp

lemma ino_step: "step H s D (itable s) W t \<Longrightarrow> ino t = ino s"
  using stepD(3) by (auto simp: ino_def fun_eq_iff)

lemma bmap_postI:
  assumes "step {} s D' (with_addrs ip as' s) W t" "bmapped (start (ls s)) (sb s) bn (blocks s) (addrs (ino s ip)) D' as'"
    "a = addr D' as' bn" "a = 0 \<Longrightarrow> \<forall>b < sb_size (sb s). used D' (sb s) b" "W \<subseteq> M \<union> ({a} - {0}) \<union> ind as'"
  shows "bmap_post M ip bn s (a, t)"
  unfolding bmap_post_def prod.case using assms by (intro exI [of _ D'] exI [of _ as'] exI [of _ W]) simp

lemma bmap_post_same:
  assumes "step {} s (blocks s) (itable s) {} t" "volume s" "file_at ip s"
    "a = addr (blocks s) (addrs (ino s ip)) bn" "a = 0 \<Longrightarrow> \<forall>b < sb_size (sb s). used (blocks s) (sb s) b"
  shows "bmap_post M ip bn s (a, t)"
  by (rule bmap_postI [OF step_self [OF assms(1)] bmapped_refl assms(4,5)]) (use assms(2,3) in \<open>auto simp: volume_def file_at_def\<close>)

lemma file_at_step:
  assumes "file_at ip s" "step H s D (with_addrs ip as s) W t" "file_ok (start (ls s)) (sb s) D as"
  shows "file_at ip t"
  using assms with_addrs_step [OF assms(2)] stepD [OF assms(2)] by (simp add: file_at_def)

lemma set_addr_table: "upd_ino ip (set_addr k a) s = s\<lparr>itable := with_addrs ip ((addrs (ino s ip))[k := of_nat a]) s\<rparr>"
  by (simp add: upd_ino_def set_addr_def with_addrs_def ino_def)

lemma ind_addr [simp]: "as ! NDIRECT = 0 \<Longrightarrow> ind as = {}" "as ! NDIRECT \<noteq> 0 \<Longrightarrow> ind as = {unat (as ! NDIRECT)}"
  by (auto simp: ind_def unat_eq_zero)

lemma budget_step:
  assumes b: "budget M as (k + n) s" and t: "step H s D T W t" "W \<subseteq> M \<union> X \<union> ind as'" "finite X" "card X \<le> n"
    and i: "as ! NDIRECT \<noteq> 0 \<Longrightarrow> as' ! NDIRECT = as ! NDIRECT"
  shows "budget M as' k t"
proof (cases "as' ! NDIRECT = as ! NDIRECT")
  case True
  then have e: "ind as' = ind as" by (simp add: ind_def)
  have "room (M \<union> ind as) (k + (if as ! NDIRECT = 0 then 1 else 0) + n) s" using b by (simp add: budget_def ac_simps)
  from room_step [OF this t(1) _ t(3,4)] t(2) e True show ?thesis by (auto simp: budget_def)
next
  case False
  then have z: "as ! NDIRECT = 0" "as' ! NDIRECT \<noteq> 0" using i by auto
  let ?i = "unat (as' ! NDIRECT)"
  have fin: "finite M" and c: "card (logged s \<union> M) + (k + n + 1) + 1 < LOGBLOCKS" using b z by (auto simp: budget_def room_def)
  have "card (logged t \<union> insert ?i M) \<le> card (logged s \<union> M \<union> insert ?i X)"
    using stepD(4) [OF t(1)] t(2,3) z fin by (intro card_mono) (auto simp: logged_def)
  also have "\<dots> \<le> card (logged s \<union> M) + card (insert ?i X)" by (rule card_Un_le)
  also have "\<dots> \<le> card (logged s \<union> M) + (n + 1)" using card_insert_le_m1 [of "n + 1" X ?i] t(4) by simp
  finally show ?thesis using fin c z b stepD(10) [OF t(1)] by (simp add: budget_def room_def)
qed

lemma budget_room: "budget M as k s \<Longrightarrow> room M k s"
proof -
  assume b: "budget M as k s"
  then have f: "finite M" by (auto simp: budget_def room_def)
  have "card (logged s \<union> M) \<le> card (logged s \<union> (M \<union> ind as))"
    using f by (intro card_mono) (auto simp: logged_def ind_def)
  then show ?thesis using b f by (auto simp: budget_def room_def split: if_splits)
qed

lemma alloc_slot:
  assumes v: "volume s" "cache_ok {} s" "file_at ip s" and M: "mapblocks (sb s) \<subseteq> M" "room M (j + 1) s"
    and k: "k \<le> NDIRECT" "addrs (ino s ip) ! k = 0"
  shows "does (balloc (idev (ino s ip)) s) (\<lambda>(a, t). \<exists>D' as' W. step {} s D' (with_addrs ip as' s) W (if a = 0 then t else upd_ino ip (set_addr k a) t) \<and>
     (a = 0 \<and> (\<forall>b < sb_size (sb s). used (blocks s) (sb s) b) \<and> D' = blocks s \<and> as' = addrs (ino s ip) \<and> W = {} \<or>
      a \<noteq> 0 \<and> grow_at (start (ls s)) (sb s) k a (blocks s) (addrs (ino s ip)) D' as' \<and> W = {BBLOCK a (sb s), a}))"
proof -
  let ?S = "sb s" and ?D = "blocks s" and ?as = "addrs (ino s ip)"
  have f: "file_ok (start (ls s)) ?S ?D ?as" "sound (start (ls s)) ?S ?D" "geometry (start (ls s)) ?S" "idev (ino s ip) = ROOTDEV"
    using v(1,3) by (auto simp: volume_def file_at_def)
  have res: "\<exists>D' as' W. step {} s D' (with_addrs ip as' s) W (if a = 0 then t else upd_ino ip (set_addr k a) t) \<and>
     (a = 0 \<and> (\<forall>b < sb_size ?S. used ?D ?S b) \<and> D' = ?D \<and> as' = ?as \<and> W = {} \<or>
      a \<noteq> 0 \<and> grow_at (start (ls s)) ?S k a ?D ?as D' as' \<and> W = {BBLOCK a ?S, a})"
    if r: "alloc_result {} s (\<lambda>b. True) (a, t)" for a t
  proof (cases "a = 0")
    case True
    then show ?thesis using r step_self [of "{}" s ?D "{}" t ip] by (auto simp: alloc_result_def)
  next
    case False
    then have a: "a < sb_size ?S" "\<not> used ?D ?S a" and t: "step {} s (allocated a ?S ?D) (itable s) {BBLOCK a ?S, a} t"
      using r by (auto simp: alloc_result_def)
    have "upd_ino ip (set_addr k a) t = t\<lparr>itable := with_addrs ip (?as[k := of_nat a]) s\<rparr>"
      using stepD(3) [OF t] by (simp add: set_addr_table ino_step [OF t]) (simp add: with_addrs_def ino_def)
    then show ?thesis using False step_table [OF t] grow_direct [OF f(1-3) a k] by auto
  qed
  have "does (balloc ROOTDEV s) (alloc_result {} s (\<lambda>b. True))" by (rule balloc_ok [OF v(1,2) _ _ _ M(2,1)]) auto
  then show ?thesis unfolding f(4) by (rule does_mono) (clarify, rule res)
qed

text \<open>The entry \<open>k\<close> of the indirect block, which exists.\<close>

lemma bmap_entry:
  assumes v: "volume s" "cache_ok {} s" "file_at ip s" and M: "mapblocks (sb s) \<subseteq> M" "room (M \<union> ind (addrs (ino s ip))) (j + 1) s"
    and k: "bn < MAXFILE" "\<not> bn < NDIRECT" and i: "addrs (ino s ip) ! NDIRECT \<noteq> 0"
  shows "does (bmap_load ip (unat (addrs (ino s ip) ! NDIRECT)) (bn - NDIRECT) s) (bmap_post M ip bn s)"
proof -
  let ?st = "start (ls s)" and ?S = "sb s" and ?D = "blocks s" and ?as = "addrs (ino s ip)" and ?n = "bn - NDIRECT"
  let ?i = "unat (?as ! NDIRECT)"
  have f: "file_ok ?st ?S ?D ?as" "sound ?st ?S ?D" "geometry ?st ?S" "idev (ino s ip) = ROOTDEV"
    using v(1,3) by (auto simp: volume_def file_at_def)
  note io = indirect_owned [OF i, of ?D]
  note im = owned_not_meta [OF f(1) io] owned_fs_block [OF f(1,3) io] file_okD(2,3) [OF f(1) io]
  have e: "?D ?i ! ?n = bslot ?D ?as (bpos bn)" "bpos bn - NDIRECT - 1 = ?n" "NDIRECT < bpos bn"
    using k i by (auto simp: bslot_def bpos_def)
  have old: "does (fbrelse bp t) (\<lambda>u. bmap_post M ip bn s (unat (?D ?i ! ?n), u))"
    if o: "bopen {} s ?i bp t" and z: "?D ?i ! ?n \<noteq> 0" for bp t
    by (rule does_mono [OF close_block [OF o bopen_self [OF o]] bmap_post_same [OF _ v(1,3)]])
      (use z e(1) in \<open>auto simp: addr_def unat_eq_zero\<close>)
  have none: "does (fbrelse bp u) (\<lambda>w. bmap_post M ip bn s (0, w))"
    if o: "bopen {} s ?i bp t" and z: "?D ?i ! ?n = 0" and u: "step {?i} t ?D (itable s) {} u"
      and full: "\<forall>b < sb_size ?S. used ?D ?S b" for bp t u
    by (rule does_mono [OF close_block [OF o u] bmap_post_same [OF _ v(1,3)]])
      (use z e(1) full in \<open>auto simp: addr_def\<close>)
  have new: "does (flog_write bp ((bdata bp u)[?n := of_nat a]) u) (\<lambda>w. does (fbrelse bp w) (\<lambda>w. bmap_post M ip bn s (a, w)))"
    if o: "bopen {} s ?i bp t" and z: "?D ?i ! ?n = 0" and a: "0 < a" "a < sb_size ?S" "\<not> used ?D ?S a"
      and u: "step {?i} t (allocated a ?S ?D) (itable s) {BBLOCK a ?S, a} u" for bp t u a
  proof -
    let ?D' = "(allocated a ?S ?D)(?i := (?D ?i)[?n := of_nat a])"
    have "?i \<noteq> a" using im(4) a(3) by auto
    then have ai: "bdata bp u = ?D ?i" using bopen_step(2) [OF o u] allocated_other [of ?i ?S a ?D] im(1) a(2) by simp
    have ru: "room (M \<union> ind ?as) j u"
      using M by (intro room_step [where n = 1 and X = "{a}", OF _ u]) (use mapblocks_in [OF a(2)] bopenD(13) [OF o] in auto)
    have g: "grow_at ?st ?S (bpos bn) a ?D ?as ?D' ?as"
      using grow_indirect [OF f(1-3) a(2,3) e(3) pos_slot(1) [OF k(1)] i] z e(1,2) by simp
    note b = grow_at_bmapped [OF g f(3,1) _ k(1)]
    have post: "bmap_post M ip bn s (a, w)" if "step {} s ?D' (itable s) {?i, BBLOCK a ?S, a} w" for w
      by (rule bmap_postI [OF step_self [OF that] b(1)])
        (use b(2) z e(1) a(1) i M(1) mapblocks_in [OF a(2)] in \<open>auto simp: addr_def\<close>)
    have "does (flog_write bp ((?D ?i)[?n := of_nat a]) u) (step {?i} t ?D' (itable s) {?i, BBLOCK a ?S, a})"
      by (rule write_bopen [OF o u im(2) ru])
    then show ?thesis unfolding ai
      by (rule does_mono) (rule does_mono [OF close_block [OF o] post])
  qed
  have alloc: "does (balloc (idev (ino t ip)) t) (\<lambda>(a, u). does (if a = 0 then Some u else flog_write bp ((bdata bp u)[?n := of_nat a]) u)
      (\<lambda>w. does (fbrelse bp w) (\<lambda>w. bmap_post M ip bn s (a, w))))"
    if o: "bopen {} s ?i bp t" and z: "?D ?i ! ?n = 0" for bp t
  proof -
    note t = bopenD [OF o]
    have "does (balloc ROOTDEV t) (alloc_result {?i} t (\<lambda>b. True))"
      using v(1) M im t by (intro balloc_ok [where M = "M \<union> ind ?as" and k = j]) (auto simp: volume_def)
    then show ?thesis unfolding t(8) f(4)
      by (rule does_mono) (use none [OF o z] new [OF o z] t in \<open>auto simp: alloc_result_def\<close>)
  qed
  show ?thesis
    using does_mono [OF fbread_bopen [OF v(2) _ room_slack [OF M(2)]]] old alloc bopenD(3) f(4) by (simp add: bmap_load_def case_prod_unfold Let_def)
qed

lemma bmap_post_trans:
  assumes s: "step {} s D1 (with_addrs ip as1 s) W1 t" "bmapped (start (ls s)) (sb s) bn (blocks s) (addrs (ino s ip)) D1 as1"
    and ip: "ip < length (itable s)" "bn < MAXFILE" "W1 \<subseteq> M \<union> ind as1" "as1 ! NDIRECT \<noteq> 0" and p: "bmap_post M ip bn t (a, u)"
  shows "bmap_post M ip bn s (a, u)"
proof -
  note w = with_addrs_step [OF s(1) ip(1)]
  obtain D2 as2 W2 where 2: "step {} t D2 (with_addrs ip as2 t) W2 u" "bmapped (start (ls s)) (sb s) bn D1 as1 D2 as2"
    "a = addr D2 as2 bn" "a = 0 \<longrightarrow> (\<forall>b < sb_size (sb s). used D2 (sb s) b)" "W2 \<subseteq> M \<union> ({a} - {0}) \<union> ind as2"
    using p w(2) stepD [OF s(1)] unfolding bmap_post_def prod.case by metis
  have "as2 ! NDIRECT = as1 ! NDIRECT" using 2(2) ip(4) grewD(8) unfolding bmapped_def by blast
  then have "ind as2 = ind as1" by (simp add: ind_def)
  then show ?thesis
    by (intro bmap_postI [OF step_trans [OF s(1) 2(1) [unfolded w(1)]] bmapped_trans [OF s(2) 2(2) ip(2)] 2(3)])
      (use 2 ip in auto)
qed

lemma bmap_indirect:
  assumes v: "volume s" "cache_ok {} s" "file_at ip s" and M: "mapblocks (sb s) \<subseteq> M" "budget M (addrs (ino s ip)) (j + 1) s"
    and bn: "bn < MAXFILE" "\<not> bn < NDIRECT" and z: "addrs (ino s ip) ! NDIRECT = 0"
    and t: "step {} s D' (with_addrs ip as' s) W t" and g: "grow_at (start (ls s)) (sb s) NDIRECT a (blocks s) (addrs (ino s ip)) D' as'"
    and W: "W = {BBLOCK a (sb s), a}"
  shows "does (bmap_load ip a (bn - NDIRECT) t) (bmap_post M ip bn s)"
proof -
  let ?S = "sb s" and ?D = "blocks s" and ?as = "addrs (ino s ip)"
  have f: "file_ok (start (ls s)) ?S ?D ?as" "geometry (start (ls s)) ?S" "idev (ino s ip) = ROOTDEV" "ip < length (itable s)"
    using v by (auto simp: file_at_def volume_def)
  have az: "addr ?D ?as bn = 0" using z bn by (simp add: addr_def bslot_def bpos_def)
  note b = grow_at_bmapped [OF g f(2,1) _ bn(1) az] and w = with_addrs_step [OF t f(4)]
  have a: "unat (as' ! NDIRECT) = a" "as' ! NDIRECT \<noteq> 0" using b(3) grow_at_owned(3) [OF g f(2)] by auto
  have gr: "grew (start (ls s)) ?S ?D ?as D' as'" using b(1) by (simp add: bmapped_def)
  have m: "BBLOCK a ?S \<in> M" using M(1) mapblocks_in g by (auto simp: grow_at_def)
  have vt: "volume t" "file_at ip t"
    using volume_step [OF v(1) t grewD(1) [OF gr]] file_at_step [OF v(3) t grewD(2) [OF gr]] by auto
  have "budget M as' (j + 1) t"
    by (rule budget_step [where X = "{}" and n = 0 and as = ?as, OF _ t]) (use M(2) W m a z in auto)
  then have "room (M \<union> ind (addrs (ino t ip))) (j + 1) t" using w(2) a(2) by (simp add: budget_def)
  from bmap_entry [OF vt(1) stepD(1) [OF t] vt(2) _ this bn] stepD(5) [OF t] M(1) w a
  have "does (bmap_load ip a (bn - NDIRECT) t) (bmap_post M ip bn t)" by simp
  then show ?thesis
    by (rule does_mono) (use bmap_post_trans [OF t b(1) f(4) bn(1) _ a(2)] W m a in \<open>auto\<close>)
qed

lemma bmap_ok:
  assumes v: "volume s" "cache_ok {} s" "file_at ip s" and M: "mapblocks (sb s) \<subseteq> M" "budget M (addrs (ino s ip)) (j + 1) s"
    and bn: "bn < MAXFILE"
  shows "does (bmap ip bn s) (bmap_post M ip bn s)"
proof -
  let ?S = "sb s" and ?D = "blocks s" and ?as = "addrs (ino s ip)"
  have f: "file_ok (start (ls s)) ?S ?D ?as" "geometry (start (ls s)) ?S" "idev (ino s ip) = ROOTDEV"
    using v by (auto simp: file_at_def volume_def)
  note r = budget_room [OF M(2)] and same = bmap_post_same [OF _ v(1,3)]
  note alloc = alloc_slot [OF v M(1) r]
  consider "bn < NDIRECT" "?as ! bn = 0" | "bn < NDIRECT" "?as ! bn \<noteq> 0" | "\<not> bn < NDIRECT" "?as ! NDIRECT = 0"
    | "\<not> bn < NDIRECT" "?as ! NDIRECT \<noteq> 0" by blast
  then show ?thesis
  proof cases
    case 1
    have z: "addr ?D ?as bn = 0" "bpos bn = bn" using 1 by (simp_all add: addr_def bslot_def bpos_def)
    have "bmap_post M ip bn s (a, t)" if t: "step {} s D' (with_addrs ip as' s) W t"
      and g: "grow_at (start (ls s)) ?S bn a ?D ?as D' as'" "W = {BBLOCK a ?S, a}" for D' as' W a t
      using grow_at_bmapped(1,2) [OF g(1) f(2,1) _ bn z(1)] z(2) grow_at_owned(3) [OF g(1) f(2)] g(2) M(1) mapblocks_in [of a ?S] g(1)
      by (intro bmap_postI [OF t]) (auto simp: grow_at_def)
    then show ?thesis using 1 alloc [of bn] same [of _ 0 bn] z(1)
      by (simp add: bmap_def) (erule does_mono, auto split: if_splits)
  next
    case 2
    then show ?thesis using same [OF step_refl [OF v(2)], of "unat (?as ! bn)" bn]
      by (simp add: bmap_def addr_def bslot_def bpos_def unat_eq_zero)
  next
    case 3
    have n: "bn - NDIRECT < NINDIRECT" using 3 bn by (simp add: MAXFILE_def)
    have z: "addr ?D ?as bn = 0" using 3 by (simp add: addr_def bslot_def bpos_def)
    show ?thesis using 3 n alloc [of NDIRECT] same [of _ 0 bn] z
      by (simp add: bmap_def) (erule does_mono, auto split: if_splits intro: bmap_indirect [OF v M bn])
  next
    case 4
    have n: "bn - NDIRECT < NINDIRECT" using 4 bn by (simp add: MAXFILE_def)
    have "room (M \<union> ind ?as) (j + 1) s" using M(2) 4 by (simp add: budget_def)
    from bmap_entry [OF v M(1) this bn 4] show ?thesis using 4 n by (simp add: bmap_def unat_eq_zero)
  qed
qed

text \<open>A block that exists is found without any change, inside a transaction or not.\<close>

lemma bmap_there:
  assumes v: "cache_ok {} s" "slack s" "file_at ip s" and bn: "bn < MAXFILE" "addr (blocks s) (addrs (ino s ip)) bn \<noteq> 0"
  shows "does (bmap ip bn s) (\<lambda>(a, t). a = addr (blocks s) (addrs (ino s ip)) bn \<and> step {} s (blocks s) (itable s) {} t)"
proof (cases "bn < NDIRECT")
  case True
  then show ?thesis using bn step_refl [OF v(1)] by (auto simp: bmap_def addr_def bslot_def bpos_def)
next
  case False
  let ?D = "blocks s" and ?as = "addrs (ino s ip)"
  let ?i = "unat (?as ! NDIRECT)"
  have n: "bn - NDIRECT < NINDIRECT" "idev (ino s ip) = ROOTDEV" using False bn v(3) by (auto simp: MAXFILE_def file_at_def)
  have i: "?as ! NDIRECT \<noteq> 0" "addr ?D ?as bn = unat (?D ?i ! (bn - NDIRECT))"
    using bn(2) False by (auto simp: addr_def bslot_def bpos_def split: if_splits)
  have "does (fbread ROOTDEV ?i s) (\<lambda>(bp, t). bopen {} s ?i bp t)" by (rule fbread_bopen [OF v(1) _ v(2)]) auto
  then have "does (bmap_load ip ?i (bn - NDIRECT) s) (\<lambda>(a, t). a = addr ?D ?as bn \<and> step {} s ?D (itable s) {} t)"
    unfolding bmap_load_def n(2) does_simps
    by (rule does_mono) (use i bn(2) bopenD(3) close_block [OF _ bopen_self] in \<open>auto simp: Let_def\<close>)
  then show ?thesis using False n i by (simp add: bmap_def unat_eq_zero)
qed

end
