(* ===== verification/Fs_Data.thy ===== *)
theory Fs_Data
  imports Fs_File
begin

text \<open>
  The contents of a file: the bytes of a block, the bytes of a file, and that \<open>readi\<close> delivers
  them and \<open>writei\<close> replaces them, within the file and on no other one.
\<close>

unbundle bit_operations_syntax

section \<open>Bytes of a block\<close>

lemma length_word_bytes [simp]: "length (word_bytes w) = 4" by (simp add: word_bytes_def)

lemma length_bytes_of [simp]: "length (bytes_of b) = 4 * length b"
  by (induction b) (simp_all add: bytes_of_def)

lemma length_block_of [simp]: "length (block_of bs) = length bs div 4"
  by (simp add: block_of_def)

lemma upt4: "[0..<4] = [0, 1, 2, 3 :: nat]" by (simp add: upt_rec numeral_eq_Suc)

lemma byte_bit: "bit (x :: 8 word) n \<Longrightarrow> n < 8"
  using bit_imp_le_length [of x n] by simp

lemma bytes_word_bit: "bit (bytes_word bs) i \<longleftrightarrow> i < 32 \<and> bit (bs ! (i div 8)) (i mod 8)"
proof (cases "i < 32")
  case True
  define q r where "q = i div 8" and "r = i mod 8"
  then have i: "i = 8 * q + r" "r < 8" "q < 4" using True by auto
  consider "q = 0" | "q = 1" | "q = 2" | "q = 3" using i(3) by linarith
  then show ?thesis unfolding q_def [symmetric] r_def [symmetric] using i(1,2)
    by cases (auto simp: bytes_word_def upt4 bit_simps dest: byte_bit)
qed (use bit_imp_le_length [of "bytes_word bs" i] in auto)

lemma word_bytes_nth: "k < 4 \<Longrightarrow> bit (word_bytes w ! k) i \<longleftrightarrow> i < 8 \<and> bit w (8 * k + i)"
  by (auto simp: word_bytes_def bit_simps add.commute)

lemma bytes_word_word_bytes [simp]: "bytes_word (word_bytes w) = w"
  by (rule bit_word_eqI) (simp add: bytes_word_bit word_bytes_nth)

lemma word_bytes_bytes_word: "length bs = 4 \<Longrightarrow> word_bytes (bytes_word bs) = bs"
  by (rule nth_equalityI, simp, rule bit_word_eqI) (simp add: word_bytes_nth bytes_word_bit)

lemma bytes_of_nth: "i < 4 * length b \<Longrightarrow> bytes_of b ! i = word_bytes (b ! (i div 4)) ! (i mod 4)"
  unfolding bytes_of_def
proof (induction b arbitrary: i)
  case (Cons w b)
  show ?case
  proof (cases "i < 4")
    case False
    then have "i div 4 = Suc ((i - 4) div 4)" "i mod 4 = (i - 4) mod 4" by (simp_all add: le_div_geq le_mod_geq)
    with False Cons show ?thesis by (simp add: nth_append)
  qed (simp add: nth_append)
qed simp

lemma take_drop_nth: "4 * i + 3 < length bs \<Longrightarrow> k < 4 \<Longrightarrow> take 4 (drop (4 * i) bs) ! k = bs ! (4 * i + k)"
  by simp

lemma bytes_of_block_of: "4 dvd length bs \<Longrightarrow> bytes_of (block_of bs) = bs"
proof (rule nth_equalityI)
  fix i assume d: "4 dvd length bs" and i: "i < length (bytes_of (block_of bs))"
  then have "i div 4 < length bs div 4" by (auto elim!: dvdE)
  moreover from this have "i div 4 * 4 + 4 \<le> length bs" using d by (auto elim!: dvdE)
  ultimately show "bytes_of (block_of bs) ! i = bs ! i"
    using i by (simp add: bytes_of_nth) (simp add: block_of_def word_bytes_bytes_word mult.commute)
qed auto

lemma block_of_bytes_of: "block_of (bytes_of b) = b"
proof (rule nth_equalityI)
  fix i assume "i < length (block_of (bytes_of b))"
  then have i: "i < length b" by simp
  have "take 4 (drop (4 * i) (bytes_of b)) = word_bytes (b ! i)"
    by (rule nth_equalityI) (use i in \<open>auto simp: bytes_of_nth\<close>)
  then show "block_of (bytes_of b) ! i = b ! i" using i by (simp add: block_of_def)
qed simp

lemma bytes_of_put:
  assumes "off + length bs \<le> 4 * length b"
  shows "bytes_of (put_bytes off bs b) = take off (bytes_of b) @ bs @ drop (off + length bs) (bytes_of b)"
    "length (put_bytes off bs b) = length b"
  using assms by (simp_all add: put_bytes_def bytes_of_block_of)

lemma bytes_of_put_nth:
  assumes "off + length bs \<le> 4 * length b" "i < 4 * length b"
  shows "bytes_of (put_bytes off bs b) ! i = (if off \<le> i \<and> i < off + length bs then bs ! (i - off) else bytes_of b ! i)"
  using assms by (auto simp: bytes_of_put nth_append min_def)

section \<open>Bytes of a file\<close>

definition fbyte :: "(nat \<Rightarrow> block) \<Rightarrow> 32 word list \<Rightarrow> nat \<Rightarrow> 8 word" where
  "fbyte D as p = bytes_of (D (addr D as (p div BSIZE))) ! (p mod BSIZE)"

definition fbytes :: "(nat \<Rightarrow> block) \<Rightarrow> 32 word list \<Rightarrow> nat \<Rightarrow> nat \<Rightarrow> 8 word list" where
  "fbytes D as off n = map (\<lambda>i. fbyte D as (off + i)) [0..<n]"

text \<open>The first \<open>n\<close> bytes have blocks: the file has no holes.\<close>

definition backed :: "(nat \<Rightarrow> block) \<Rightarrow> 32 word list \<Rightarrow> nat \<Rightarrow> bool" where
  "backed D as n \<longleftrightarrow> n \<le> MAXFILE * BSIZE \<and> (\<forall>bn. bn * BSIZE < n \<longrightarrow> addr D as bn \<noteq> 0)"

lemma length_fbytes [simp]: "length (fbytes D as off n) = n"
  by (simp add: fbytes_def)

lemma fbytes_append: "fbytes D as off (m + n) = fbytes D as off m @ fbytes D as (off + m) n"
  by (rule nth_equalityI) (auto simp: fbytes_def nth_append)

lemma within_block:
  assumes "off mod BSIZE + i < BSIZE"
  shows "(off + i) div BSIZE = off div BSIZE" "(off + i) mod BSIZE = off mod BSIZE + i"
proof -
  have e: "BSIZE * (off div BSIZE) + off mod BSIZE = off" "BSIZE * ((off + i) div BSIZE) + (off + i) mod BSIZE = off + i" by simp_all
  show d: "(off + i) div BSIZE = off div BSIZE"
    by (rule div_nat_eqI, use assms e(1) in linarith, use assms e(1) in \<open>unfold mult_Suc_right\<close>, linarith)
  show "(off + i) mod BSIZE = off mod BSIZE + i" using e unfolding d by linarith
qed

lemma fbytes_in_block:
  assumes "off mod BSIZE + k \<le> BSIZE" "length (D (addr D as (off div BSIZE))) = BSIZE div 4"
  shows "fbytes D as off k = take k (drop (off mod BSIZE) (bytes_of (D (addr D as (off div BSIZE)))))"
proof (rule nth_equalityI)
  show "length (fbytes D as off k) = length (take k (drop (off mod BSIZE) (bytes_of (D (addr D as (off div BSIZE))))))"
    using assms by (simp add: BSIZE_def)
  fix i assume i: "i < length (fbytes D as off k)"
  then have "(off + i) div BSIZE = off div BSIZE" "(off + i) mod BSIZE = off mod BSIZE + i"
    using assms(1) by (simp_all add: within_block)
  then show "fbytes D as off k ! i = take k (drop (off mod BSIZE) (bytes_of (D (addr D as (off div BSIZE))))) ! i"
    using i assms by (simp add: fbytes_def fbyte_def BSIZE_def)
qed

lemma transfer_block: "off mod BSIZE + transfer off n \<le> BSIZE" "transfer off n \<le> n"
  by (auto simp: transfer_def BSIZE_def min_def)

lemma backed_block:
  assumes "backed D as n" "off < n"
  shows "addr D as (off div BSIZE) \<noteq> 0" "off div BSIZE < MAXFILE"
proof -
  have "off div BSIZE * BSIZE < n" using assms(2) by (simp add: BSIZE_def)
  then show "addr D as (off div BSIZE) \<noteq> 0" using assms(1) by (simp add: backed_def)
  show "off div BSIZE < MAXFILE" using assms by (intro less_mult_imp_div_less) (simp add: backed_def)
qed

section \<open>readi\<close>

lemma read_through:
  assumes "cache_ok {} t" "slack t"
  shows "does (fbread ROOTDEV b t) (\<lambda>(bp, v). bdata bp v = blocks t b \<and> does (fbrelse bp v) (step {} t (blocks t) (itable t) {}))"
  by (rule does_mono [OF fbread_bopen [OF assms(1) _ assms(2)]])
    (auto dest: bopenD(3) close_block [OF _ bopen_self])

text \<open>What \<open>readi\<close> relies on: copying to a destination that has the room for it succeeds, piece by piece.\<close>

locale copier =
  fixes cp :: "'m copyout_fn" and store :: "64 word \<Rightarrow> 8 word list \<Rightarrow> 'm \<Rightarrow> 'm" and fits :: "64 word \<Rightarrow> nat \<Rightarrow> 'm \<Rightarrow> bool"
  assumes copies: "fits dst (length bs) m \<Longrightarrow> cp user dst bs m = (0, store dst bs m)"
    and store_append: "fits dst (length xs + length ys) m \<Longrightarrow>
       store (dst + of_nat (length xs)) ys (store dst xs m) = store dst (xs @ ys) m"
    and store_Nil: "store dst [] m = m"
    and fits_less: "fits dst n m \<Longrightarrow> k \<le> n \<Longrightarrow> fits dst k m"
    and fits_rest: "fits dst (length xs + n) m \<Longrightarrow> fits (dst + of_nat (length xs)) n (store dst xs m)"
begin

lemma readi_loop_ok:
  assumes "volume s" "cache_ok {} s" "slack s" "file_at ip s" "backed (blocks s) (addrs (ino s ip)) (off + (n - tot))"
    "tot \<le> n" "fits dst (n - tot) m"
  shows "does (readi_loop cp ip user dst off tot n m s) (\<lambda>(r, m', t). r = int n \<and>
     m' = store dst (fbytes (blocks s) (addrs (ino s ip)) off (n - tot)) m \<and> step {} s (blocks s) (itable s) {} t)"
  using assms
proof (induction "n - tot" arbitrary: dst off tot m s rule: less_induct)
  case less
  let ?D = "blocks s" and ?as = "addrs (ino s ip)"
  show ?case
  proof (cases "tot < n")
    case False
    then show ?thesis
      using less.prems(2,6) by (subst readi_loop.simps) (simp add: step_refl fbytes_def store_Nil)
  next
    case True
    let ?k = "transfer off (n - tot)" and ?bn = "off div BSIZE"
    let ?xs = "fbytes ?D ?as off ?k"
    have k: "0 < ?k" "?k \<le> n - tot" using transfer_pos [of "n - tot" off] transfer_block(2) True by auto
    have a: "addr ?D ?as ?bn \<noteq> 0" "?bn < MAXFILE" using backed_block [OF less.prems(5), of off] True by auto
    have len: "length (?D (addr ?D ?as ?bn)) = BSIZE div 4"
      using soundD(1) owned_sized addr_owned [OF a(2,1)] less.prems(1,4) unfolding volume_def file_at_def by blast
    have xs: "take ?k (drop (off mod BSIZE) (bytes_of (?D (addr ?D ?as ?bn)))) = ?xs"
      using fbytes_in_block [where D = ?D and as = ?as, OF transfer_block(1) len] by simp
    have cp: "cp user dst ?xs m = (0, store dst ?xs m)"
      using copies [of dst ?xs m] fits_less [OF less.prems(7) k(2)] by simp
    have next_round: "does (readi_loop cp ip user (dst + of_nat ?k) (off + ?k) (tot + ?k) n (store dst ?xs m) u) (\<lambda>(r, m', t). r = int n \<and>
       m' = store dst (fbytes ?D ?as off (n - tot)) m \<and> step {} s ?D (itable s) {} t)"
      if u: "step {} s ?D (itable s) {} u" for u
    proof -
      have f: "fits (dst + of_nat ?k) (n - (tot + ?k)) (store dst ?xs m)"
        using fits_rest [of dst ?xs "n - (tot + ?k)" m] less.prems(7) k by simp
      have "does (readi_loop cp ip user (dst + of_nat ?k) (off + ?k) (tot + ?k) n (store dst ?xs m) u) (\<lambda>(r, m', t). r = int n \<and>
         m' = store (dst + of_nat ?k) (fbytes (blocks u) (addrs (ino u ip)) (off + ?k) (n - (tot + ?k))) (store dst ?xs m) \<and>
         step {} u (blocks u) (itable u) {} t)"
        using less.prems k f stepD [OF u] ino_step [OF u]
        by (intro less.hyps) (auto simp: volume_def slack_def file_at_def backed_def ac_simps)
      moreover have "fbytes ?D ?as off (n - tot) = ?xs @ fbytes ?D ?as (off + ?k) (n - (tot + ?k))"
        using fbytes_append [of ?D ?as off ?k "n - (tot + ?k)"] k by simp
      moreover have "store (dst + of_nat ?k) (fbytes ?D ?as (off + ?k) (n - (tot + ?k))) (store dst ?xs m) =
        store dst (?xs @ fbytes ?D ?as (off + ?k) (n - (tot + ?k))) m"
        using store_append [of dst ?xs "fbytes ?D ?as (off + ?k) (n - (tot + ?k))" m] less.prems(7) k by simp
      ultimately show ?thesis
        using stepD(2,3) [OF u] ino_step [OF u] step_trans [OF u] by (auto elim!: does_mono)
    qed
    let ?Q = "\<lambda>(r, m', t). r = int n \<and> m' = store dst (fbytes ?D ?as off (n - tot)) m \<and> step {} s ?D (itable s) {} t"
    have part: "does (read_part cp ip user dst off ?k (addr ?D ?as ?bn) m t) (\<lambda>(r, m', u). r = 0 \<and> m' = store dst ?xs m \<and> step {} s ?D (itable s) {} u)"
      if t: "step {} s ?D (itable s) {} t" for t
    proof -
      have "idev (ino t ip) = ROOTDEV" "slack t" "blocks t = ?D" "itable t = itable s"
        using less.prems(3,4) ino_step [OF t] stepD(2-4) [OF t] by (simp_all add: file_at_def slack_def)
      then show ?thesis using read_through [OF stepD(1) [OF t], of "addr ?D ?as ?bn"] step_trans [OF t]
        by (auto elim!: does_mono simp: read_part_def xs cp)
    qed
    have rest: "does (read_part cp ip user dst off ?k (addr ?D ?as ?bn) m t) (\<lambda>(r, m', u).
       does (if r = - 1 then Some (- 1, m', u) else readi_loop cp ip user (dst + of_nat ?k) (off + ?k) (tot + ?k) n m' u) ?Q)"
      if t: "step {} s ?D (itable s) {} t" for t
      by (rule does_mono [OF part [OF t]]) (use next_round in auto)
    have "does (bmap ip ?bn s) (\<lambda>(a, t). a = addr ?D ?as ?bn \<and> step {} s ?D (itable s) {} t)"
      by (rule bmap_there [OF less.prems(2-4) a(2,1)])
    then have "does (bmap ip ?bn s) (\<lambda>x. does (case x of (a, t) \<Rightarrow> if a = 0 then Some (int tot, m, t) else
       (let k = ?k in do { (r, m, s) \<leftarrow> read_part cp ip user dst off k a m t;
             if r = - 1 then Some (- 1, m, s) else readi_loop cp ip user (dst + of_nat k) (off + k) (tot + k) n m s })) ?Q)"
      by (rule does_mono) (use a(1) rest in \<open>clarsimp simp: case_prod_unfold Let_def\<close>)
    then show ?thesis
      unfolding readi_loop.simps [of cp ip user dst off tot n m s] does_simps if_P [OF True] .
  qed
qed

text \<open>The number of bytes a read delivers.\<close>

lemma readi_ok:
  assumes "volume s" "cache_ok {} s" "slack s" "file_at ip s" "backed (blocks s) (addrs (ino s ip)) (unat (isize (ino s ip)))"
    "k = (if isize (ino s ip) < off \<or> off + n < off then 0 else min (unat n) (unat (isize (ino s ip)) - unat off))" "fits dst k m"
  shows "does (readi cp ip user dst off n m s) (\<lambda>(r, m', t). r = int k \<and>
     m' = store dst (fbytes (blocks s) (addrs (ino s ip)) (unat off) k) m \<and> step {} s (blocks s) (itable s) {} t)"
proof (cases "isize (ino s ip) < off \<or> off + n < off")
  case True
  then show ?thesis using assms(2,6) by (auto simp: readi_def Let_def store_Nil fbytes_def step_refl)
next
  case False
  let ?size = "isize (ino s ip)" let ?n = "if off + n > ?size then ?size - off else n"
  have o: "off \<le> ?size" "unat (off + n) = unat off + unat n" using False by (auto simp: not_less unat_plus_simple)
  have k: "unat ?n = k" using False assms(6) o unat_sub [OF o(1)] by (auto simp: word_less_nat_alt min_def)
  have "unat off + k \<le> unat ?size" using False assms(6) o(1) by (auto simp: word_le_nat_alt min_def)
  then have b: "backed (blocks s) (addrs (ino s ip)) (unat off + (k - 0))" using assms(5) by (auto simp: backed_def)
  show ?thesis using readi_loop_ok [OF assms(1-4) b, of dst m user] assms(7) False k by (simp add: readi_def Let_def)
qed

end

text \<open>Copying to a variable of the kernel.\<close>

definition kstore :: "64 word \<Rightarrow> 8 word list \<Rightarrow> 8 word list \<Rightarrow> 8 word list" where
  "kstore dst bs m = take (unat dst) m @ bs @ drop (unat dst + length bs) m"

definition kfits :: "64 word \<Rightarrow> nat \<Rightarrow> 8 word list \<Rightarrow> bool" where
  "kfits dst n m \<longleftrightarrow> unat dst + n \<le> length m \<and> length m < 2 ^ 64"

lemma unat_offset: "unat (dst :: 64 word) + n < 2 ^ 64 \<Longrightarrow> unat (dst + of_nat n) = unat dst + n"
  by (simp add: unat_word_ariths unat_of_nat mod_less)

interpretation kernel: copier kcopyout kstore kfits
proof unfold_locales
  fix dst :: "64 word" and m :: "8 word list" and user bs show "kcopyout user dst bs m = (0, kstore dst bs m)"
    by (simp add: kcopyout_def kstore_def)
  show "kstore dst [] m = m" by (simp add: kstore_def)
next
  fix dst :: "64 word" and xs ys m :: "8 word list" assume f: "kfits dst (length xs + length ys) m"
  have u: "unat (dst + of_nat (length xs)) = unat dst + length xs" using f by (intro unat_offset) (simp add: kfits_def)
  show "kstore (dst + of_nat (length xs)) ys (kstore dst xs m) = kstore dst (xs @ ys) m"
    using f by (simp add: kstore_def u kfits_def ac_simps)
next
  fix dst :: "64 word" and xs m :: "8 word list" and n assume f: "kfits dst (length xs + n) m"
  have u: "unat (dst + of_nat (length xs)) = unat dst + length xs" using f by (intro unat_offset) (simp add: kfits_def)
  show "kfits (dst + of_nat (length xs)) n (kstore dst xs m)"
    using f by (simp add: kstore_def u kfits_def)
qed (simp add: kfits_def)

section \<open>writei\<close>

lemma data_write:
  assumes f: "file_ok st S D as" "sound st S D" and bn: "bn < MAXFILE" "addr D as bn \<noteq> 0" and y: "length y = BSIZE div 4"
  shows "grew st S D as (D(addr D as bn := y)) as" "addr (D(addr D as bn := y)) as = addr D as"
proof -
  let ?a = "addr D as bn" and ?D = "D(addr D as bn := y)"
  have a: "?a \<in> owned D as" by (rule addr_owned [OF bn])
  note m = owned_not_meta [OF f(1) a]
  have s: "bslot ?D as = bslot D as" using indirect_not_addr [OF f(1) _ bn(1)] by (auto simp: bslot_def fun_eq_iff)
  then have o: "owned ?D as = owned D as" by (simp add: owned_def)
  show ad: "addr ?D as = addr D as" using s by (simp add: addr_def fun_eq_iff)
  have u: "used ?D S b = used D S b" if "b < sb_size S" for b using used_other m that by blast
  then have "file_ok st S ?D as" using f(1) s o unfolding file_ok_def by metis
  moreover have "sound st S ?D" by (rule sound_upd [OF f(2) _ y]) (use m in blast)
  ultimately show "grew st S D as ?D as" using o u ad file_okD(3) [OF f(1)] a by (auto simp: grew_def)
qed

lemma fbyte_write:
  assumes f: "file_ok st S D as" "sound st S D" and bn: "off div BSIZE < MAXFILE" "addr D as (off div BSIZE) \<noteq> 0"
    and bs: "off mod BSIZE + length bs \<le> BSIZE" and p: "p div BSIZE < MAXFILE"
  defines "a \<equiv> addr D as (off div BSIZE)"
  shows "fbyte (D(a := put_bytes (off mod BSIZE) bs (D a))) as p =
    (if off \<le> p \<and> p < off + length bs then bs ! (p - off) else fbyte D as p)"
proof -
  let ?o = "off mod BSIZE" let ?y = "put_bytes ?o bs (D a)"
  have la: "length (D a) = BSIZE div 4" unfolding a_def by (rule soundD(1) [OF f(2) owned_sized [OF f(1) addr_owned [OF bn]]])
  then have l: "4 * length (D a) = BSIZE" by (simp add: BSIZE_def)
  have y: "length ?y = BSIZE div 4" using bytes_of_put(2) [of ?o bs "D a"] bs l la by simp
  have ad: "addr (D(a := ?y)) as = addr D as" unfolding a_def by (rule data_write(2) [OF f bn]) (use y in \<open>simp add: a_def\<close>)
  show ?thesis
  proof (cases "p div BSIZE = off div BSIZE")
    case True
    have m: "BSIZE * (off div BSIZE) + ?o = off" "BSIZE * (p div BSIZE) + p mod BSIZE = p" by simp_all
    obtain q where q: "off = q + ?o" "p = q + p mod BSIZE" using m True by metis
    then have "p mod BSIZE - ?o = p - off" "?o \<le> p mod BSIZE \<longleftrightarrow> off \<le> p" "p mod BSIZE < ?o + length bs \<longleftrightarrow> p < off + length bs"
      by linarith+
    moreover have "p mod BSIZE < 4 * length (D a)" unfolding l by (simp add: BSIZE_def)
    ultimately show ?thesis using bytes_of_put_nth [of ?o bs "D a" "p mod BSIZE"] bs l
      by (simp add: fbyte_def ad True a_def [symmetric])
  next
    case False
    have "addr D as (p div BSIZE) \<noteq> a" using addr_inj [OF f(1) bn(1) p] bn(2) False by (auto simp: a_def)
    moreover have "\<not> (off \<le> p \<and> p < off + length bs)"
    proof
      assume c: "off \<le> p \<and> p < off + length bs"
      then have "off mod BSIZE + (p - off) < BSIZE" using bs by linarith
      from within_block(1) [OF this] show False using False c by simp
    qed
    ultimately show ?thesis by (auto simp: fbyte_def ad)
  qed
qed

text \<open>
  The bytes \<open>bs\<close> were written at \<open>off\<close>: with at most \<open>c\<close> blocks of data in the log, and nothing
  else of the file, nor anything else of the disk, is different.
\<close>

definition wrote :: "nat set \<Rightarrow> nat \<Rightarrow> nat \<Rightarrow> fsst \<Rightarrow> nat \<Rightarrow> 8 word list \<Rightarrow> fsst \<Rightarrow> bool" where
  "wrote M c ip s off bs t \<longleftrightarrow> (\<exists>D' as' W X. step {} s D' (with_addrs ip as' s) W t \<and>
     grew (start (ls s)) (sb s) (blocks s) (addrs (ino s ip)) D' as' \<and>
     (\<forall>p. off \<le> p \<longrightarrow> p < off + length bs \<longrightarrow> addr D' as' (p div BSIZE) \<noteq> 0 \<and> fbyte D' as' p = bs ! (p - off)) \<and>
     (\<forall>p < MAXFILE * BSIZE. (p < off \<or> off + length bs \<le> p) \<longrightarrow> addr (blocks s) (addrs (ino s ip)) (p div BSIZE) \<noteq> 0 \<longrightarrow>
        fbyte D' as' p = fbyte (blocks s) (addrs (ino s ip)) p) \<and>
     W \<subseteq> M \<union> X \<union> ind as' \<and> finite X \<and> card X \<le> c)"

lemma block_of_pos: "p < MAXFILE * BSIZE \<Longrightarrow> p div BSIZE < MAXFILE"
  by (rule less_mult_imp_div_less)

lemma grew_ind: "grew st S D as D' as' \<Longrightarrow> ind as \<subseteq> ind as'"
  using grewD(8) by (cases "as ! NDIRECT = 0") (fastforce simp: ind_def)+

lemma wrote_trans:
  assumes 1: "wrote M c ip s off xs t" and 2: "wrote M d ip t (off + length xs) ys u" and ip: "ip < length (itable s)"
    and m: "off + length xs + length ys \<le> MAXFILE * BSIZE"
  shows "wrote M (c + d) ip s off (xs @ ys) u"
proof -
  obtain D1 as1 W1 X1 where a: "step {} s D1 (with_addrs ip as1 s) W1 t" "grew (start (ls s)) (sb s) (blocks s) (addrs (ino s ip)) D1 as1"
    "\<And>p. off \<le> p \<Longrightarrow> p < off + length xs \<Longrightarrow> addr D1 as1 (p div BSIZE) \<noteq> 0 \<and> fbyte D1 as1 p = xs ! (p - off)"
    "\<And>p. p < MAXFILE * BSIZE \<Longrightarrow> p < off \<or> off + length xs \<le> p \<Longrightarrow> addr (blocks s) (addrs (ino s ip)) (p div BSIZE) \<noteq> 0 \<Longrightarrow>
        fbyte D1 as1 p = fbyte (blocks s) (addrs (ino s ip)) p" "W1 \<subseteq> M \<union> X1 \<union> ind as1" "finite X1" "card X1 \<le> c"
    using 1 unfolding wrote_def by blast
  note w = with_addrs_step [OF a(1) ip] and t = stepD [OF a(1)]
  obtain D2 as2 W2 X2 where b: "step {} t D2 (with_addrs ip as2 t) W2 u" "grew (start (ls s)) (sb s) D1 as1 D2 as2"
    "\<And>p. off + length xs \<le> p \<Longrightarrow> p < off + length xs + length ys \<Longrightarrow> addr D2 as2 (p div BSIZE) \<noteq> 0 \<and> fbyte D2 as2 p = ys ! (p - (off + length xs))"
    "\<And>p. p < MAXFILE * BSIZE \<Longrightarrow> p < off + length xs \<or> off + length xs + length ys \<le> p \<Longrightarrow> addr D1 as1 (p div BSIZE) \<noteq> 0 \<Longrightarrow>
        fbyte D2 as2 p = fbyte D1 as1 p" "W2 \<subseteq> M \<union> X2 \<union> ind as2" "finite X2" "card X2 \<le> d"
    using 2 t(2,5,6) w(2) unfolding wrote_def by metis
  have "addr D2 as2 (p div BSIZE) \<noteq> 0 \<and> fbyte D2 as2 p = (xs @ ys) ! (p - off)" if p: "off \<le> p" "p < off + length (xs @ ys)" for p
  proof (cases "p < off + length xs")
    case True
    have "p < MAXFILE * BSIZE" "p - off < length xs" using True m p(1) by simp_all
    then show ?thesis using a(3) [OF p(1) True] b(4) [of p] grewD(7) [OF b(2) block_of_pos] True p(1) by (simp add: nth_append)
  next
    case False
    then have "\<not> p - off < length xs" "p - off - length xs = p - (off + length xs)" using p(1) by simp_all
    then show ?thesis using False b(3) [of p] p by (simp add: nth_append)
  qed
  moreover have "fbyte D2 as2 p = fbyte (blocks s) (addrs (ino s ip)) p"
    if "p < MAXFILE * BSIZE" "p < off \<or> off + length (xs @ ys) \<le> p" "addr (blocks s) (addrs (ino s ip)) (p div BSIZE) \<noteq> 0" for p
    using a(4) [of p] b(4) [of p] that grewD(7) [OF a(2) block_of_pos that(3)] by auto
  moreover have "W1 \<union> W2 \<subseteq> M \<union> (X1 \<union> X2) \<union> ind as2" using a(5) b(5) grew_ind [OF b(2)] by blast
  moreover have "card (X1 \<union> X2) \<le> c + d" using card_Un_le [of X1 X2] a(7) b(7) by simp
  ultimately show ?thesis
    using step_trans [OF a(1) b(1) [unfolded w(1)]] grew_trans [OF a(2) b(2)] a(6) b(6) unfolding wrote_def
    by (intro exI [of _ D2] exI [of _ as2] exI [of _ "W1 \<union> W2"] exI [of _ "X1 \<union> X2"]) simp
qed

lemma wrote_refl: "volume s \<Longrightarrow> cache_ok {} s \<Longrightarrow> file_at ip s \<Longrightarrow> wrote M c ip s off [] s"
  unfolding wrote_def
  by (intro exI [of _ "blocks s"] exI [of _ "addrs (ino s ip)"] exI [of _ "{}"])
    (auto simp: volume_def file_at_def step_refl intro!: grew_refl)

lemma wrote_mono: "wrote M c ip s off bs t \<Longrightarrow> c \<le> d \<Longrightarrow> wrote M d ip s off bs t"
  unfolding wrote_def by (elim exE conjE, intro exI conjI, assumption+) simp

lemma wroteD:
  assumes w: "wrote M c ip s off bs t" and s: "volume s" "file_at ip s"
  shows "volume t" "cache_ok {} t" "file_at ip t" "sb t = sb s" "start (ls t) = start (ls s)" "length (itable t) = length (itable s)"
    "budget M (addrs (ino s ip)) (j + c) s \<Longrightarrow> budget M (addrs (ino t ip)) j t"
proof -
  obtain D' as' W X where a: "step {} s D' (with_addrs ip as' s) W t" "grew (start (ls s)) (sb s) (blocks s) (addrs (ino s ip)) D' as'"
    "W \<subseteq> M \<union> X \<union> ind as'" "finite X" "card X \<le> c"
    using w unfolding wrote_def by blast
  have ip: "ip < length (itable s)" using s(2) by (simp add: file_at_def)
  note t = stepD [OF a(1)] and i = with_addrs_step [OF a(1) ip]
  show "volume t" "file_at ip t" using volume_step [OF s(1) a(1) grewD(1) [OF a(2)]] file_at_step [OF s(2) a(1) grewD(2) [OF a(2)]] by auto
  show "cache_ok {} t" "sb t = sb s" "start (ls t) = start (ls s)" "length (itable t) = length (itable s)" using t i by auto
  show "budget M (addrs (ino t ip)) j t" if "budget M (addrs (ino s ip)) (j + c) s"
    using budget_step [OF that a(1,3-5) grewD(8) [OF a(2)]] i(2) by simp
qed

lemma fbyte_bmapped:
  assumes "bmapped st S bn D as D' as'" "p < MAXFILE * BSIZE" "addr D as (p div BSIZE) \<noteq> 0"
  shows "fbyte D' as' p = fbyte D as p"
  using assms grewD(7) [of st S D as D' as', OF _ block_of_pos [OF assms(2)] assms(3)] block_of_pos [OF assms(2)]
  by (simp add: bmapped_def fbyte_def)

lemma bmap_failed:
  assumes "bmap_post M ip bn s (0, t)"
  shows "wrote M c ip s off [] t" "\<forall>b < sb_size (sb t). used (blocks t) (sb t) b"
proof -
  obtain D' as' W where b: "step {} s D' (with_addrs ip as' s) W t"
    "bmapped (start (ls s)) (sb s) bn (blocks s) (addrs (ino s ip)) D' as'" "\<forall>b < sb_size (sb s). used D' (sb s) b" "W \<subseteq> M \<union> ind as'"
    using assms unfolding bmap_post_def by auto
  then show "wrote M c ip s off [] t" using fbyte_bmapped [OF b(2)] unfolding wrote_def
    by (intro exI [of _ D'] exI [of _ as'] exI [of _ W] exI [of _ "{}"]) (auto simp: bmapped_def)
  show "\<forall>b < sb_size (sb t). used (blocks t) (sb t) b" using b(3) stepD(2,5) [OF b(1)] by simp
qed

lemma write_part_ok:
  assumes v: "volume s" "file_at ip s" "mapblocks (sb s) \<subseteq> M" "budget M (addrs (ino s ip)) (j + 1) s"
    and off: "off div BSIZE < MAXFILE" "off mod BSIZE + length bs \<le> BSIZE" and cp: "cp user src k = (r, bs)"
    and b: "bmap_post M ip (off div BSIZE) s (a, t)" "a \<noteq> 0"
  shows "does (write_part cp ip user src off k a t) (\<lambda>(r', u). r' = r \<and> wrote M 1 ip s off bs u)"
proof -
  obtain D' as' W where m: "step {} s D' (with_addrs ip as' s) W t"
    "bmapped (start (ls s)) (sb s) (off div BSIZE) (blocks s) (addrs (ino s ip)) D' as'" "a = addr D' as' (off div BSIZE)" "W \<subseteq> M \<union> {a} \<union> ind as'"
    using b unfolding bmap_post_def by auto
  let ?st = "start (ls s)" and ?S = "sb s" and ?y = "put_bytes (off mod BSIZE) bs (D' a)"
  let ?D = "D'(a := ?y)"
  have g: "grew ?st ?S (blocks s) (addrs (ino s ip)) D' as'" using m(2) by (simp add: bmapped_def)
  note f = grewD(2,1) [OF g] and ip = v(2) [unfolded file_at_def] and t = stepD [OF m(1)]
  have a0: "addr D' as' (off div BSIZE) \<noteq> 0" using b(2) m(3) by simp
  have y: "length ?y = BSIZE div 4" using bytes_of_put(2) [of "off mod BSIZE" bs "D' a"] off(2)
      soundD(1) [OF f(2) owned_sized [OF f(1) addr_owned [OF off(1) a0]]] m(3) by (simp add: BSIZE_def)
  note d = data_write [OF f off(1) a0 y, folded m(3)] and fb = fbyte_write [OF f off(1) a0 off(2), folded m(3)]
  have r: "room M j t"
    by (rule budget_room, rule budget_step [where X = "{a}" and as' = as', OF v(4) m(1)]) (use m(4) grewD(8) [OF g] in auto)
  have fs: "fs_block (start (ls t)) a"
    using owned_fs_block [OF f(1) _ addr_owned [OF off(1) a0]] v(1) t(6) m(3) by (simp add: volume_def)
  have "wrote M 1 ip s off bs u" if u: "step {} t ?D (itable t) {a} u" for u
  proof -
    have "step {} s ?D (with_addrs ip as' s) (W \<union> {a}) u" using step_trans [OF m(1) u] t(3) by simp
    moreover have "addr ?D as' (p div BSIZE) \<noteq> 0 \<and> fbyte ?D as' p = bs ! (p - off)" if p: "off \<le> p" "p < off + length bs" for p
    proof -
      have "p div BSIZE = off div BSIZE" using within_block(1) [of off "p - off"] off(2) p by simp
      then show ?thesis using fb [of p] p off(1) d(2) a0 by simp
    qed
    moreover have "fbyte ?D as' p = fbyte (blocks s) (addrs (ino s ip)) p"
      if "p < MAXFILE * BSIZE" "p < off \<or> off + length bs \<le> p" "addr (blocks s) (addrs (ino s ip)) (p div BSIZE) \<noteq> 0" for p
      using fb [OF block_of_pos [OF that(1)]] fbyte_bmapped [OF m(2) that(1,3)] that(2) by auto
    ultimately show ?thesis using grew_trans [OF g d(1)] m(4) unfolding wrote_def
      by (intro exI [of _ ?D] exI [of _ as'] exI [of _ "W \<union> {a}"] exI [of _ "{a}"]) auto
  qed
  note w = this
  have "does (fbread ROOTDEV a t) (\<lambda>(i, v). does (flog_write i (put_bytes (off mod BSIZE) bs (bdata i v)) v) (\<lambda>u. does (fbrelse i u)
     (step {} t ((blocks t)(a := ?y)) (itable t) {a})))"
    by (rule change_block [OF t(1) _ fs r]) (use bopenD(3) t(2) in auto)
  moreover have "idev (ino t ip) = ROOTDEV" using with_addrs_step(3) [OF m(1)] ip by simp
  ultimately show ?thesis using w t(2) by (auto simp: write_part_def cp elim!: does_mono)
qed

text \<open>The number of blocks that the bytes from \<open>off\<close> to \<open>off + n\<close> touch, one round of the loop each.\<close>

definition rounds :: "nat \<Rightarrow> nat \<Rightarrow> nat" where
  "rounds off n = (if n = 0 then 0 else (off mod BSIZE + n - 1) div BSIZE + 1)"

lemma rounds_0 [simp]: "rounds off 0 = 0" by (simp add: rounds_def)

lemma rounds_step:
  assumes "0 < n"
  shows "rounds off n = rounds (off + transfer off n) (n - transfer off n) + 1"
proof (cases "n \<le> BSIZE - off mod BSIZE")
  case True
  then have "transfer off n = n" "off mod BSIZE + n - 1 < BSIZE" using assms by (auto simp: transfer_def BSIZE_def)
  then show ?thesis using assms by (simp add: rounds_def)
next
  case False
  define q where "q = n - (BSIZE - off mod BSIZE)"
  have k: "transfer off n = BSIZE - off mod BSIZE" "off mod BSIZE < BSIZE" "0 < q" using False by (auto simp: transfer_def BSIZE_def q_def)
  have "off + (BSIZE - off mod BSIZE) = BSIZE * (off div BSIZE) + BSIZE"
    using k(2) mult_div_mod_eq [of BSIZE off] by linarith
  then have z: "(off + transfer off n) mod BSIZE = 0" unfolding k(1) by simp
  have "off mod BSIZE + n - 1 = BSIZE + (q - 1)" using k False by (simp add: q_def)
  then have "(off mod BSIZE + n - 1) div BSIZE = Suc ((q - 1) div BSIZE)" by (simp add: BSIZE_def)
  then show ?thesis using assms z k q_def by (simp add: rounds_def)
qed

text \<open>
  The source of the bytes: a copy of bytes that are there (\<open>has\<close>) is complete unless it reports
  failure, and then it may have copied a part. \<open>get src n\<close> are the bytes.
\<close>

definition fails :: "copyin_fn \<Rightarrow> bool" where
  "fails cp \<longleftrightarrow> (\<exists>user src n. fst (cp user src n) = - 1)"

text \<open>\<open>w\<close> of the bytes \<open>bs\<close> are reported as written; when a copy failed, some more may have been.\<close>

definition outcome :: "nat set \<Rightarrow> nat \<Rightarrow> nat \<Rightarrow> fsst \<Rightarrow> copyin_fn \<Rightarrow> nat \<Rightarrow> 8 word list \<Rightarrow> nat \<Rightarrow> fsst \<Rightarrow> bool" where
  "outcome M c ip s cp off bs w t \<longleftrightarrow> (\<exists>x. w \<le> x \<and> x \<le> length bs \<and> wrote M c ip s off (take x bs) t \<and> (\<not> fails cp \<longrightarrow> x = w)) \<and>
     (w < length bs \<longrightarrow> fails cp \<or> (\<forall>b < sb_size (sb t). used (blocks t) (sb t) b))"

locale source =
  fixes cp :: copyin_fn and get :: "64 word \<Rightarrow> nat \<Rightarrow> 8 word list" and has :: "64 word \<Rightarrow> nat \<Rightarrow> bool"
  assumes length_get: "length (get src n) = n"
    and get_append: "get src (m + n) = get src m @ get (src + of_nat m) n"
    and copied: "has src n \<Longrightarrow> \<exists>j \<le> n. snd (cp user src n) = take j (get src n)"
    and complete: "has src n \<Longrightarrow> fst (cp user src n) \<noteq> - 1 \<Longrightarrow> snd (cp user src n) = get src n"
    and has_split: "has src (m + n) \<Longrightarrow> has src m \<and> has (src + of_nat m) n"
begin

lemma get_0 [simp]: "get src 0 = []"
  using length_get [of src 0] by simp

lemma outcome_stop:
  assumes "cp user src k = (- 1, bs)" "wrote M 1 ip s off bs u" "1 \<le> c" "has src k"
  shows "outcome M c ip s cp off (get src (k + n)) 0 u"
proof -
  have "fails cp" using assms(1) unfolding fails_def by (metis fst_conv)
  moreover obtain i where i: "i \<le> k" "bs = take i (get src k)" using copied [OF assms(4), of user] assms(1) by auto
  ultimately show ?thesis using wrote_mono [OF assms(2,3)] unfolding outcome_def get_append
    by (intro conjI exI [of _ i]) (auto simp: length_get)
qed

lemma outcome_next:
  assumes w: "wrote M 1 ip s off (get src k) u" and o: "outcome M c ip u cp (off + k) (get (src + of_nat k) n) v t"
    and ip: "ip < length (itable s)" "off + k + n \<le> MAXFILE * BSIZE"
  shows "outcome M (c + 1) ip s cp off (get src (k + n)) (k + v) t"
proof -
  let ?ys = "get (src + of_nat k) n"
  obtain x where x: "v \<le> x" "x \<le> n" "wrote M c ip u (off + k) (take x ?ys) t" "\<not> fails cp \<longrightarrow> x = v"
    "v < n \<longrightarrow> fails cp \<or> (\<forall>b < sb_size (sb t). used (blocks t) (sb t) b)"
    using o by (auto simp: outcome_def length_get)
  have "wrote M (1 + c) ip s off (get src k @ take x ?ys) t"
    using wrote_trans [OF w, of c "take x ?ys" t] x(2,3) ip by (simp add: length_get)
  then show ?thesis
    using x unfolding outcome_def get_append by (intro conjI exI [of _ "k + x"]) (auto simp: length_get)
qed

lemma writei_loop_ok:
  assumes "volume s" "cache_ok {} s" "file_at ip s" "mapblocks (sb s) \<subseteq> M" "tot \<le> n" "off + (n - tot) \<le> MAXFILE * BSIZE"
    "budget M (addrs (ino s ip)) (j + rounds off (n - tot)) s" "has src (n - tot)"
  shows "does (writei_loop cp ip user src off tot n s) (\<lambda>(tot', off', t). tot \<le> tot' \<and> off' = off + (tot' - tot) \<and>
     outcome M (rounds off (n - tot)) ip s cp off (get src (n - tot)) (tot' - tot) t)"
  using assms
proof (induction "n - tot" arbitrary: src off tot s rule: less_induct)
  case less
  show ?case
  proof (cases "tot < n")
    case False
    then show ?thesis using wrote_refl [OF less.prems(1-3)] less.prems(5)
      by (subst writei_loop.simps) (auto simp: outcome_def length_get)
  next
    case True
    let ?k = "transfer off (n - tot)" and ?bn = "off div BSIZE"
    let ?Q = "\<lambda>(tot', off', t). tot \<le> tot' \<and> off' = off + (tot' - tot) \<and>
     outcome M (rounds off (n - tot)) ip s cp off (get src (n - tot)) (tot' - tot) t"
    obtain r bs where cp: "cp user src ?k = (r, bs)" by (cases "cp user src ?k")
    have "?k + (n - (tot + ?k)) = n - tot" using transfer_block(2) [of off "n - tot"] True by simp
    then have h: "has src ?k" "has (src + of_nat ?k) (n - (tot + ?k))"
      using has_split [of src ?k "n - (tot + ?k)"] less.prems(8) by auto
    obtain i where i: "i \<le> ?k" "bs = take i (get src ?k)" using copied [OF h(1), of user] cp by auto
    have k: "0 < ?k" "?k \<le> n - tot" "off mod BSIZE + length bs \<le> BSIZE" "n - tot = ?k + (n - (tot + ?k))"
      using transfer_pos [of "n - tot" off] transfer_block [of off "n - tot"] True i by (auto simp: length_get)
    have bn: "?bn < MAXFILE" using block_of_pos [of off] less.prems(6) True by simp
    note R = rounds_step [of "n - tot" off]
    have b1: "budget M (addrs (ino s ip)) ((j + rounds (off + ?k) (n - (tot + ?k))) + 1) s"
      using less.prems(7) R True by (simp add: ac_simps)
    have stop: "?Q (tot, off, u)" if "wrote M 1 ip s off bs u" "r = - 1" for u
      using outcome_stop [OF cp [unfolded that(2)] that(1), of "rounds off (n - tot)" "n - (tot + ?k)"] R True k(2) h(1) by simp
    have go: "does (writei_loop cp ip user (src + of_nat ?k) (off + ?k) (tot + ?k) n u) ?Q" if w: "wrote M 1 ip s off bs u" and "r \<noteq> - 1" for u
    proof -
      have bs: "bs = get src ?k" using complete [OF h(1), of user] cp that(2) by simp
      note u = wroteD [OF w less.prems(1,3)]
      have "does (writei_loop cp ip user (src + of_nat ?k) (off + ?k) (tot + ?k) n u) (\<lambda>(tot', off', t). tot + ?k \<le> tot' \<and>
        off' = off + ?k + (tot' - (tot + ?k)) \<and> outcome M (rounds (off + ?k) (n - (tot + ?k))) ip u cp (off + ?k)
          (get (src + of_nat ?k) (n - (tot + ?k))) (tot' - (tot + ?k)) t)"
        using less.prems(4-6) u(1-4) u(7) [OF b1] k h(2) True by (intro less.hyps) auto
      then show ?thesis
      proof (rule does_mono, clarify)
        fix tot' t assume t: "tot + ?k \<le> tot'" and "outcome M (rounds (off + ?k) (n - (tot + ?k))) ip u cp (off + ?k)
          (get (src + of_nat ?k) (n - (tot + ?k))) (tot' - (tot + ?k)) t"
        from outcome_next [OF w [unfolded bs] this(2)] less.prems(3,6) k(2) R True t
        have "outcome M (rounds off (n - tot)) ip s cp off (get src (?k + (n - (tot + ?k)))) (?k + (tot' - (tot + ?k))) t"
          by (simp add: file_at_def)
        moreover have "?k + (n - (tot + ?k)) = n - tot" "?k + (tot' - (tot + ?k)) = tot' - tot" using t k(2) by simp_all
        ultimately show "tot \<le> tot' \<and> off + ?k + (tot' - (tot + ?k)) = off + (tot' - tot) \<and>
          outcome M (rounds off (n - tot)) ip s cp off (get src (n - tot)) (tot' - tot) t" using t by simp
      qed
    qed
    have part: "does (write_part cp ip user src off ?k a t) (\<lambda>(r', u).
       does (if r' = - 1 then Some (tot, off, u) else writei_loop cp ip user (src + of_nat ?k) (off + ?k) (tot + ?k) n u) ?Q)"
      if "bmap_post M ip ?bn s (a, t)" "a \<noteq> 0" for a t
      by (rule does_mono [OF write_part_ok [where cp = cp and user = user and src = src, OF less.prems(1,3,4) b1 bn k(3) cp that]]) (use stop go in auto)
    have none: "?Q (tot, off, t)" if "bmap_post M ip ?bn s (0, t)" for t
      using bmap_failed [OF that] by (auto simp: outcome_def)
    have "does (bmap ip ?bn s) (bmap_post M ip ?bn s)" by (rule bmap_ok [OF less.prems(1-4) b1 bn])
    then have "does (bmap ip ?bn s) (\<lambda>x. does (case x of (a, t) \<Rightarrow> if a = 0 then Some (tot, off, t) else
       (let k = ?k in do { (r, s) \<leftarrow> write_part cp ip user src off k a t;
             if r = - 1 then Some (tot, off, s) else writei_loop cp ip user (src + of_nat k) (off + k) (tot + k) n s })) ?Q)"
      by (rule does_mono) (use none part in \<open>clarsimp simp: case_prod_unfold Let_def\<close>)
    then show ?thesis
      unfolding writei_loop.simps [of cp ip user src off tot n s] does_simps if_P [OF True] .
  qed
qed

end

text \<open>Copying from a variable of the kernel.\<close>

definition kget :: "8 word list \<Rightarrow> 64 word \<Rightarrow> nat \<Rightarrow> 8 word list" where
  "kget m src n = map (\<lambda>i. let a = unat (src + of_nat i) in if a < length m then m ! a else 0) [0..<n]"

definition khas :: "8 word list \<Rightarrow> 64 word \<Rightarrow> nat \<Rightarrow> bool" where
  "khas m src n \<longleftrightarrow> unat src + n \<le> length m \<and> length m < 2 ^ 64"

lemma kget_there: "khas m src n \<Longrightarrow> kget m src n = take n (drop (unat src) m)"
  by (rule nth_equalityI) (auto simp: kget_def khas_def unat_offset Let_def)

interpretation variable: source "kcopyin m" "kget m" "khas m" for m
proof unfold_locales
  fix src :: "64 word" and n k and user
  show "length (kget m src n) = n" by (simp add: kget_def)
  show "kget m src (k + n) = kget m src k @ kget m (src + of_nat k) n"
    by (rule nth_equalityI) (auto simp: kget_def nth_append Let_def add.assoc of_nat_diff simp flip: of_nat_add)
  show "khas m src n \<Longrightarrow> \<exists>j \<le> n. snd (kcopyin m user src n) = take j (kget m src n)"
    by (intro exI [of _ n]) (simp add: kcopyin_def kget_there)
  show "khas m src n \<Longrightarrow> snd (kcopyin m user src n) = kget m src n" by (simp add: kcopyin_def kget_there)
  assume h: "khas m src (k + n)"
  then have "unat (src + of_nat k) = unat src + k" by (intro unat_offset) (simp add: khas_def)
  with h show "khas m src k \<and> khas m (src + of_nat k) n" by (simp add: khas_def)
qed

end
