(* ===== verification/Fs_Inode.thy ===== *)
theory Fs_Inode
  imports Fs_Data
begin

text \<open>
  Inodes on the disk: writing one back and loading it, and the consistency of the whole volume,
  which every operation on an inode keeps.
\<close>

unbundle bit_operations_syntax

section \<open>Inodes in their blocks\<close>

definition dino :: "nat \<Rightarrow> superblock \<Rightarrow> (nat \<Rightarrow> block) \<Rightarrow> dinode" where
  "dino n S D = get_dinode (D (IBLOCK n S)) (n mod IPB)"

definition put_dino :: "nat \<Rightarrow> superblock \<Rightarrow> dinode \<Rightarrow> (nat \<Rightarrow> block) \<Rightarrow> nat \<Rightarrow> block" where
  "put_dino n S d D = D(IBLOCK n S := put_dinode (n mod IPB) d (D (IBLOCK n S)))"

lemma halves:
  fixes a b :: "16 word"
  shows "ucast (ucast a OR push_bit 16 (ucast b) :: 32 word) = a" "ucast (drop_bit 16 (ucast a OR push_bit 16 (ucast b) :: 32 word)) = b"
    "ucast (drop_bit 16 (ucast a) OR drop_bit 16 (push_bit 16 (ucast b)) :: 32 word) = b"
proof -
  have oob: "bit (x :: 16 word) n \<Longrightarrow> n < 16" for x n using bit_imp_le_length [of x n] by simp
  show "ucast (ucast a OR push_bit 16 (ucast b) :: 32 word) = a"
    by (rule bit_word_eqI) (auto simp: bit_simps)
  show "ucast (drop_bit 16 (ucast a OR push_bit 16 (ucast b) :: 32 word)) = b"
    by (rule bit_word_eqI) (auto simp: bit_simps dest: oob)
  then show "ucast (drop_bit 16 (ucast a) OR drop_bit 16 (push_bit 16 (ucast b)) :: 32 word) = b" by (simp add: drop_bit_or)
qed

lemma length_dinode_words: "length (daddrs d) = NDIRECT + 1 \<Longrightarrow> length (dinode_words d) = 16"
  by (simp add: dinode_words_def NDIRECT_def)

lemma put_dinode_drop:
  assumes "16 * k + 16 \<le> length b" "length (daddrs d) = NDIRECT + 1"
  shows "length (put_dinode k d b) = length b" "take 16 (drop (16 * k) (put_dinode k d b)) = dinode_words d"
    "j \<noteq> k \<Longrightarrow> take 16 (drop (16 * j) (put_dinode k d b)) = take 16 (drop (16 * j) b)"
proof -
  note l = length_dinode_words [OF assms(2)]
  show "length (put_dinode k d b) = length b" "take 16 (drop (16 * k) (put_dinode k d b)) = dinode_words d"
    using assms l by (simp_all add: put_dinode_def)
  assume "j \<noteq> k"
  then consider "j < k" | "k < j" by linarith
  then show "take 16 (drop (16 * j) (put_dinode k d b)) = take 16 (drop (16 * j) b)"
  proof cases
    case 1
    then have "16 * j + 16 \<le> 16 * k" by simp
    then show ?thesis using assms l by (simp add: put_dinode_def take_drop min_def)
  next
    case 2
    then have "16 * k + 16 \<le> 16 * j" by simp
    then show ?thesis using assms l by (simp add: put_dinode_def)
  qed
qed

lemma get_dinode_take:
  assumes "16 * k + 16 \<le> length b"
  shows "get_dinode b k = get_dinode (take 16 (drop (16 * k) b)) 0"
  using assms by (simp add: get_dinode_def Let_def NDIRECT_def drop_take take_take)

lemma get_dinode_words: "length (daddrs d) = NDIRECT + 1 \<Longrightarrow> get_dinode (dinode_words d) 0 = d"
  by (cases d) (simp add: get_dinode_def dinode_words_def Let_def halves)

lemma get_put_dinode:
  assumes "16 * k + 16 \<le> length b" "16 * j + 16 \<le> length b" "length (daddrs d) = NDIRECT + 1"
  shows "get_dinode (put_dinode k d b) j = (if j = k then d else get_dinode b j)"
  using assms get_dinode_take [of j "put_dinode k d b"] get_dinode_take [of j b] get_dinode_words [OF assms(3)]
    put_dinode_drop [OF assms(1,3)] by simp

lemma length_daddrs: "16 * k + 16 \<le> length b \<Longrightarrow> length (daddrs (get_dinode b k)) = NDIRECT + 1"
  by (simp add: get_dinode_def Let_def NDIRECT_def)

lemma inode_fits: "16 * (n mod IPB) + 16 \<le> BSIZE div 4"
proof -
  have "n mod IPB < 16" by (simp add: IPB_def BSIZE_def)
  then show ?thesis by (simp add: BSIZE_def)
qed

lemma inodeblocks_in: "n < ninodes S \<Longrightarrow> IBLOCK n S \<in> inodeblocks S"
  by (simp add: inodeblocks_def)

lemma sized_inode: "n < ninodes S \<Longrightarrow> sized st S (IBLOCK n S)"
  by (simp add: sized_def inodeblocks_in)

lemma dino_put:
  assumes "sound st S D" "length (daddrs d) = NDIRECT + 1" "n < ninodes S"
  shows "dino m S (put_dino n S d D) = (if m = n then d else dino m S D)"
proof (cases "IBLOCK m S = IBLOCK n S")
  case True
  then have "m div IPB = n div IPB" by (simp add: IBLOCK_def)
  then have "m mod IPB = n mod IPB \<longleftrightarrow> m = n" by (metis div_mult_mod_eq)
  with True show ?thesis
    using get_put_dinode [of "n mod IPB" "D (IBLOCK n S)" "m mod IPB" d] soundD(1) [OF assms(1) sized_inode [OF assms(3)]] inode_fits [of m] inode_fits [of n] assms(2)
    by (simp add: dino_def put_dino_def)
qed (auto simp: dino_def put_dino_def)

lemma sound_put:
  assumes "sound st S D" "geometry st S" "length (daddrs d) = NDIRECT + 1" "n < ninodes S"
  shows "sound st S (put_dino n S d D)"
  unfolding put_dino_def
proof (rule sound_upd [OF assms(1)])
  show "IBLOCK n S \<notin> mapblocks S" using inodeblocks_in [OF assms(4)] assms(2) by (auto simp: geometry_def)
  show "length (put_dinode (n mod IPB) d (D (IBLOCK n S))) = BSIZE div 4"
    using put_dinode_drop(1) [of "n mod IPB" "D (IBLOCK n S)" d] soundD(1) [OF assms(1) sized_inode [OF assms(4)]] inode_fits assms(3) by simp
qed

lemma put_other: "b \<notin> inodeblocks S \<Longrightarrow> n < ninodes S \<Longrightarrow> put_dino n S d D b = D b"
  using inodeblocks_in by (auto simp: put_dino_def)

lemma used_put:
  assumes "geometry st S" "n < ninodes S" "b < sb_size S"
  shows "used (put_dino n S d D) S b = used D S b"
  unfolding put_dino_def using inodeblocks_in [OF assms(2)] assms(1) by (intro used_other assms(3)) (auto simp: geometry_def)

lemma file_put:
  assumes "file_ok st S D as" "geometry st S" "n < ninodes S"
  shows "file_ok st S (put_dino n S d D) as" "owned (put_dino n S d D) as = owned D as" "addr (put_dino n S d D) as = addr D as"
proof -
  have s: "put_dino n S d D b = D b" if "b \<in> owned D as" for b
    using owned_not_meta [OF assms(1) that] put_other assms(3) by blast
  show "file_ok st S (put_dino n S d D) as"
    by (rule file_ok_cong [OF assms(1) s]) (use used_put [OF assms(2,3)] file_okD(2,3) [OF assms(1)] in auto)
  show "owned (put_dino n S d D) as = owned D as" "addr (put_dino n S d D) as = addr D as" using owned_cong [of D as] s by blast+
qed

section \<open>Consistency of the volume\<close>

abbreviation file_addrs :: "nat \<Rightarrow> superblock \<Rightarrow> (nat \<Rightarrow> block) \<Rightarrow> 32 word list" where
  "file_addrs n S D \<equiv> daddrs (dino n S D)"

definition live :: "nat \<Rightarrow> superblock \<Rightarrow> (nat \<Rightarrow> block) \<Rightarrow> bool" where
  "live n S D \<longleftrightarrow> n < ninodes S \<and> dtype (dino n S D) \<noteq> 0"

text \<open>
  What a checker of the volume would look for: the blocks of every inode in use are marked as used,
  lie outside the metadata and back its size, no block belongs to two inodes or twice to one, and
  no block is marked as used that belongs to none.
\<close>

definition consistent :: "nat \<Rightarrow> superblock \<Rightarrow> (nat \<Rightarrow> block) \<Rightarrow> bool" where
  "consistent st S D \<longleftrightarrow> geometry st S \<and> sound st S D \<and>
     (\<forall>n. live n S D \<longrightarrow> file_ok st S D (file_addrs n S D) \<and> backed D (file_addrs n S D) (unat (dsize (dino n S D)))) \<and>
     (\<forall>m n. live m S D \<longrightarrow> live n S D \<longrightarrow> m \<noteq> n \<longrightarrow> owned D (file_addrs m S D) \<inter> owned D (file_addrs n S D) = {}) \<and>
     (\<forall>b < sb_size S. used D S b \<longrightarrow> b \<in> meta st S \<or> (\<exists>n. live n S D \<and> b \<in> owned D (file_addrs n S D)))"

lemma consistentD:
  assumes "consistent st S D"
  shows "geometry st S" "sound st S D" "live n S D \<Longrightarrow> file_ok st S D (file_addrs n S D)"
    "live n S D \<Longrightarrow> backed D (file_addrs n S D) (unat (dsize (dino n S D)))"
    "live m S D \<Longrightarrow> live n S D \<Longrightarrow> m \<noteq> n \<Longrightarrow> owned D (file_addrs m S D) \<inter> owned D (file_addrs n S D) = {}"
    "b < sb_size S \<Longrightarrow> used D S b \<Longrightarrow> b \<in> meta st S \<or> (\<exists>n. live n S D \<and> b \<in> owned D (file_addrs n S D))"
  using assms unfolding consistent_def by blast+

lemma length_file_addrs: "sound st S D \<Longrightarrow> n < ninodes S \<Longrightarrow> length (file_addrs n S D) = NDIRECT + 1"
  using soundD(1) [OF _ sized_inode] inode_fits by (simp add: dino_def length_daddrs)

definition blocks_of :: "nat \<Rightarrow> superblock \<Rightarrow> (nat \<Rightarrow> block) \<Rightarrow> nat set" where
  "blocks_of n S D = (if live n S D then owned D (file_addrs n S D) else {})"

text \<open>When only inode \<open>n\<close> changes, and the free map with it, the rest stays consistent.\<close>

lemma consistent_change:
  assumes c: "consistent st S D" and E: "sound st S E"
    and others: "\<And>m. m \<noteq> n \<Longrightarrow> m < ninodes S \<Longrightarrow> dino m S E = dino m S D"
    and keep: "\<And>m b. m \<noteq> n \<Longrightarrow> b \<in> blocks_of m S D \<Longrightarrow> E b = D b"
    and used: "\<And>b. b < sb_size S \<Longrightarrow> used E S b \<longleftrightarrow> used D S b \<and> b \<notin> blocks_of n S D \<or> b \<in> blocks_of n S E"
    and me: "live n S E \<Longrightarrow> file_ok st S E (file_addrs n S E) \<and> backed E (file_addrs n S E) (unat (dsize (dino n S E)))"
    and disj: "\<And>m. m \<noteq> n \<Longrightarrow> blocks_of m S D \<inter> blocks_of n S E = {}"
  shows "consistent st S E"
proof -
  have live: "live m S E \<longleftrightarrow> live m S D" if "m \<noteq> n" for m using others [OF that] by (auto simp: live_def)
  have other: "owned E (file_addrs m S E) = owned D (file_addrs m S D)" "file_ok st S E (file_addrs m S E)"
    "backed E (file_addrs m S E) (unat (dsize (dino m S E)))" if m: "m \<noteq> n" "live m S E" for m
  proof -
    have l: "live m S D" "dino m S E = dino m S D" using m live others by (auto simp: live_def)
    have k: "E b = D b" if "b \<in> owned D (file_addrs m S D)" for b using keep [OF m(1)] that l(1) by (simp add: blocks_of_def)
    note f = consistentD(3,4) [OF c l(1)] and o = owned_cong [of D "file_addrs m S D" E, OF k]
    show "owned E (file_addrs m S E) = owned D (file_addrs m S D)" "backed E (file_addrs m S E) (unat (dsize (dino m S E)))"
      using l(2) o f(2) by (simp_all add: backed_def)
    have "used E S b" if "b \<in> owned D (file_addrs m S D)" for b
    proof -
      have "b \<notin> blocks_of n S D" using that consistentD(5) [OF c l(1) _ m(1)] by (auto simp: blocks_of_def)
      then show ?thesis using used file_okD(2,3) [OF f(1) that] by blast
    qed
    then show "file_ok st S E (file_addrs m S E)" using file_ok_cong [OF f(1) k] l(2) by simp
  qed
  have d: "owned E (file_addrs m S E) \<inter> owned E (file_addrs k S E) = {}" if "live m S E" "live k S E" "m \<noteq> k" for m k
  proof -
    have *: "owned E (file_addrs x S E) \<inter> owned E (file_addrs n S E) = {}" if "x \<noteq> n" "live x S E" "live n S E" for x
      using disj [OF that(1)] other(1) [OF that(1,2)] live that by (simp add: blocks_of_def)
    show ?thesis using that * [of m] * [of k] other(1) live consistentD(5) [OF c, of m k] by (metis Int_commute)
  qed
  have leak: "b \<in> meta st S \<or> (\<exists>m. live m S E \<and> b \<in> owned E (file_addrs m S E))" if b: "b < sb_size S" "used E S b" for b
  proof (cases "b \<in> blocks_of n S E")
    case False
    then have "used D S b" "b \<notin> blocks_of n S D" using used [OF b(1)] b(2) by auto
    then show ?thesis using consistentD(6) [OF c b(1)] other(1) live unfolding blocks_of_def by metis
  qed (auto simp: blocks_of_def split: if_splits)
  have f: "file_ok st S E (file_addrs m S E) \<and> backed E (file_addrs m S E) (unat (dsize (dino m S E)))" if "live m S E" for m
    using me other(2,3) that by (cases "m = n") blast+
  show ?thesis unfolding consistent_def
    by (intro conjI allI impI) (use consistentD(1) [OF c] E f d leak in \<open>blast+\<close>)
qed

lemma grew_dino:
  assumes "grew st S D as D' as'" "geometry st S" "m < ninodes S"
  shows "dino m S D' = dino m S D"
proof -
  have i: "IBLOCK m S \<in> inodeblocks S" by (rule inodeblocks_in [OF assms(3)])
  then have "IBLOCK m S \<notin> mapblocks S" "IBLOCK m S \<notin> owned D' as'"
    using assms(2) owned_not_meta [OF grewD(2) [OF assms(1)]] by (auto simp: geometry_def)
  then show ?thesis using grewD(6) [OF assms(1)] by (simp add: dino_def)
qed

text \<open>An inode in use grows and is written back.\<close>

lemma consistent_grew:
  assumes c: "consistent st S D" and n: "live n S D" and g: "grew st S D (file_addrs n S D) D' (daddrs d)"
    and d: "dtype d \<noteq> 0" "backed D' (daddrs d) (unat (dsize d))"
  shows "consistent st S (put_dino n S d D')"
    "m \<noteq> n \<Longrightarrow> m < ninodes S \<Longrightarrow> dino m S (put_dino n S d D') = dino m S D" "dino n S (put_dino n S d D') = d"
    "m \<noteq> n \<Longrightarrow> b \<in> blocks_of m S D \<Longrightarrow> put_dino n S d D' b = D b"
proof -
  let ?E = "put_dino n S d D'"
  note S = consistentD(1) [OF c] and f' = grewD(1,2) [OF g]
  have nn: "n < ninodes S" using n by (simp add: live_def)
  note p = dino_put [OF f'(1) file_okD(1) [OF f'(2)] nn]
  note fp = file_put [OF f'(2) S nn, of d]
  show me: "dino n S ?E = d" using p by simp
  show others: "dino m S ?E = dino m S D" if "m \<noteq> n" "m < ninodes S" for m using p that grew_dino [OF g S] by simp
  note og = grew_others [OF g consistentD(3) [OF c] consistentD(5) [OF c]]
  show keep: "?E b = D b" if "m \<noteq> n" "b \<in> blocks_of m S D" for m b
  proof -
    have m: "live m S D" "b \<in> owned D (file_addrs m S D)" using that(2) by (auto simp: blocks_of_def split: if_splits)
    note o = og [OF m(1,1) n that(1)]
    have "b \<in> owned D' (file_addrs m S D)" using o(2) m(2) by simp
    then show ?thesis using owned_not_meta [OF o(1)] put_other [of b S n] nn o(5) [OF m(2)] by simp
  qed
  have E: "live n S ?E" "blocks_of n S ?E = owned D' (daddrs d)" "blocks_of n S D = owned D (file_addrs n S D)"
    using me d(1) nn n fp(2) by (simp_all add: live_def blocks_of_def)
  show "consistent st S ?E"
  proof (rule consistent_change [OF c sound_put [OF f'(1) S file_okD(1) [OF f'(2)] nn] others keep])
    fix b assume b: "b < sb_size S"
    show "used ?E S b \<longleftrightarrow> used D S b \<and> b \<notin> blocks_of n S D \<or> b \<in> blocks_of n S ?E"
      using used_put [OF S nn b] grewD(5) [OF g b] grewD(3) [OF g] E by auto
  next
    show "file_ok st S ?E (file_addrs n S ?E) \<and> backed ?E (file_addrs n S ?E) (unat (dsize (dino n S ?E)))"
      using me fp d(2) by (simp add: backed_def)
  next
    fix m assume m: "m \<noteq> n"
    show "blocks_of m S D \<inter> blocks_of n S ?E = {}"
      using og(2,4) [OF _ _ n m] E(2) by (cases "live m S D") (auto simp: blocks_of_def)
  qed
qed

end
