(* ===== verification/Fs_Write.thy ===== *)
theory Fs_Write
  imports Fs_Inode
begin

text \<open>
  Writing to a file, and growing it: \<open>iupdate\<close> and \<open>writei\<close> on a consistent volume.
\<close>

section \<open>iupdate\<close>

definition checked :: "fsst \<Rightarrow> bool" where
  "checked s \<longleftrightarrow> consistent (start (ls s)) (sb s) (blocks s)"

text \<open>An inode in memory that is as on the disk, and in use.\<close>

definition synced :: "nat \<Rightarrow> fsst \<Rightarrow> bool" where
  "synced ip s \<longleftrightarrow> ip < length (itable s) \<and> idev (ino s ip) = ROOTDEV \<and> live (inum (ino s ip)) (sb s) (blocks s) \<and>
     to_dinode (ino s ip) = dino (inum (ino s ip)) (sb s) (blocks s)"

lemma checked_volume: "checked s \<Longrightarrow> volume s"
  using consistentD(1,2) by (auto simp: checked_def volume_def)

lemma synced_dino:
  assumes "synced ip s"
  shows "addrs (ino s ip) = file_addrs (inum (ino s ip)) (sb s) (blocks s)" "isize (ino s ip) = dsize (dino (inum (ino s ip)) (sb s) (blocks s))"
    "itype (ino s ip) = dtype (dino (inum (ino s ip)) (sb s) (blocks s))" "inum (ino s ip) < ninodes (sb s)" "ip < length (itable s)"
    "idev (ino s ip) = ROOTDEV" "itype (ino s ip) \<noteq> 0"
proof -
  have d: "to_dinode (ino s ip) = dino (inum (ino s ip)) (sb s) (blocks s)" using assms by (simp add: synced_def)
  show "addrs (ino s ip) = file_addrs (inum (ino s ip)) (sb s) (blocks s)" "isize (ino s ip) = dsize (dino (inum (ino s ip)) (sb s) (blocks s))"
    "itype (ino s ip) = dtype (dino (inum (ino s ip)) (sb s) (blocks s))"
    unfolding d [symmetric] by (simp_all add: to_dinode_def)
  then show "itype (ino s ip) \<noteq> 0" using assms by (simp add: synced_def live_def)
qed (use assms in \<open>auto simp: synced_def live_def\<close>)

lemma synced_file:
  assumes "checked s" "synced ip s"
  shows "file_at ip s" "backed (blocks s) (addrs (ino s ip)) (unat (isize (ino s ip)))"
    "blocks_of (inum (ino s ip)) (sb s) (blocks s) = owned (blocks s) (addrs (ino s ip))"
proof -
  have l: "live (inum (ino s ip)) (sb s) (blocks s)" using assms(2) by (simp add: synced_def)
  note d = synced_dino [OF assms(2)] and f = consistentD(3,4) [OF assms(1) [unfolded checked_def] l]
  show "file_at ip s" "backed (blocks s) (addrs (ino s ip)) (unat (isize (ino s ip)))"
    using f d by (simp_all add: file_at_def)
  show "blocks_of (inum (ino s ip)) (sb s) (blocks s) = owned (blocks s) (addrs (ino s ip))" using l d(1) by (simp add: blocks_of_def)
qed

lemma iupdate_ok:
  assumes s: "volume s" "cache_ok {} s" "room M k s" and ip: "idev (ino s ip) = ROOTDEV" "inum (ino s ip) < ninodes (sb s)"
  shows "does (iupdate ip s) (step {} s (put_dino (inum (ino s ip)) (sb s) (to_dinode (ino s ip)) (blocks s)) (itable s)
     {IBLOCK (inum (ino s ip)) (sb s)})"
proof -
  let ?b = "IBLOCK (inum (ino s ip)) (sb s)"
  have fs: "fs_block (start (ls s)) ?b" using geometry_block(1) inodeblocks_in [OF ip(2)] s(1) by (auto simp: volume_def)
  have e: "put_dinode (inum (ino t ip) mod IPB) (to_dinode (ino t ip)) (bdata i t) =
      put_dinode (inum (ino s ip) mod IPB) (to_dinode (ino s ip)) (blocks s ?b)" if "bopen {} s ?b i t" for i t
    using bopenD(3,8) [OF that] by simp
  show ?thesis
    using change_block [OF s(2) _ fs s(3) _ e] ip(1) by (simp add: iupdate_def put_dino_def case_prod_unfold)
qed

section \<open>writei\<close>

text \<open>What an operation leaves alone: the place of the volume and the disk itself, which only a commit writes.\<close>

definition stays :: "fsst \<Rightarrow> fsst \<Rightarrow> bool" where
  "stays s t \<longleftrightarrow> cache_ok {} t \<and> sb t = sb s \<and> start (ls t) = start (ls s) \<and> me (ls t) = me (ls s) \<and>
     outstanding (ls t) = outstanding (ls s) \<and> committing (ls t) = committing (ls s) \<and> disk (ls t) = disk (ls s)"

text \<open>No inode but \<open>n\<close>, nor any block of one, has changed.\<close>

definition untouched :: "nat \<Rightarrow> fsst \<Rightarrow> fsst \<Rightarrow> bool" where
  "untouched n s t \<longleftrightarrow> (\<forall>m < ninodes (sb s). m \<noteq> n \<longrightarrow> dino m (sb s) (blocks t) = dino m (sb s) (blocks s) \<and>
     (\<forall>b \<in> blocks_of m (sb s) (blocks s). blocks t b = blocks s b))"

lemma stays_trans: "stays s t \<Longrightarrow> stays t u \<Longrightarrow> stays s u"
  by (simp add: stays_def)

lemma untouched_blocks:
  assumes "untouched n s t" "m < ninodes (sb s)" "m \<noteq> n"
  shows "blocks_of m (sb s) (blocks t) = blocks_of m (sb s) (blocks s)"
proof -
  have d: "dino m (sb s) (blocks t) = dino m (sb s) (blocks s)" "\<And>b. b \<in> blocks_of m (sb s) (blocks s) \<Longrightarrow> blocks t b = blocks s b"
    using assms by (auto simp: untouched_def)
  show ?thesis
    using d owned_cong(1) [of "blocks s" "file_addrs m (sb s) (blocks s)" "blocks t"] by (simp add: blocks_of_def live_def)
qed

lemma untouched_trans:
  assumes "untouched n s t" "untouched n t u" "sb t = sb s"
  shows "untouched n s u"
  using assms untouched_blocks [OF assms(1)] unfolding untouched_def by simp

lemma room_within:
  assumes "room M k s" "stays s t" "logged t \<subseteq> logged s \<union> M"
  shows "room M k t"
proof -
  have "card (logged t \<union> M) \<le> card (logged s \<union> M)"
    using assms by (intro card_mono) (auto simp: room_def logged_def)
  then show ?thesis using assms by (simp add: room_def stays_def)
qed

lemma step_stays: "step {} s D T W t \<Longrightarrow> stays s t"
  by (simp add: stays_def stepD)

text \<open>
  The file in slot \<open>ip\<close> now has the size \<open>z\<close> and holds \<open>bs\<close> from \<open>off\<close> on, with at most \<open>c\<close> blocks logged
  besides those of \<open>M\<close>, and the volume is consistent.
\<close>

definition file_write :: "nat set \<Rightarrow> nat \<Rightarrow> nat \<Rightarrow> fsst \<Rightarrow> nat \<Rightarrow> 8 word list \<Rightarrow> nat \<Rightarrow> fsst \<Rightarrow> bool" where
  "file_write M c ip s off bs z t \<longleftrightarrow> checked t \<and> stays s t \<and> synced ip t \<and> untouched (inum (ino s ip)) s t \<and>
     (\<exists>as. itable t = (itable s)[ip := (ino s ip)\<lparr>addrs := as, isize := of_nat z\<rparr>] \<and> unat (of_nat z :: 32 word) = z) \<and>
     (\<forall>p < z. fbyte (blocks t) (addrs (ino t ip)) p = (if off \<le> p \<and> p < off + length bs then bs ! (p - off) else fbyte (blocks s) (addrs (ino s ip)) p)) \<and>
     (\<exists>X. logged t \<subseteq> logged s \<union> M \<union> X \<and> finite X \<and> card X \<le> c)"

lemma with_size:
  assumes "ip < length (itable t)" "unat (of_nat off :: 32 word) = off"
  shows "(if off > unat (isize (ino t ip)) then upd_ino ip (\<lambda>i. i\<lparr>isize := of_nat off\<rparr>) t else t) =
    t\<lparr>itable := (itable t)[ip := (ino t ip)\<lparr>isize := of_nat (max (unat (isize (ino t ip))) off)\<rparr>]\<rparr>"
proof (cases "off > unat (isize (ino t ip))")
  case True
  then show ?thesis by (simp add: upd_ino_def ino_def)
next
  case False
  then have m: "max (unat (isize (ino t ip))) off = unat (isize (ino t ip))" by simp
  have "(ino t ip)\<lparr>isize := isize (ino t ip)\<rparr> = itable t ! ip" by (cases "itable t ! ip") (simp add: ino_def)
  then show ?thesis using False unfolding m by simp
qed

lemma backed_wrote:
  assumes g: "grew st S D as D' as'" and b: "backed D as sz" and o: "off \<le> sz" "off + w \<le> MAXFILE * BSIZE"
    and n: "\<And>p. off \<le> p \<Longrightarrow> p < off + w \<Longrightarrow> addr D' as' (p div BSIZE) \<noteq> 0"
  shows "backed D' as' (max sz (off + w))"
  unfolding backed_def
proof (intro conjI allI impI)
  show "max sz (off + w) \<le> MAXFILE * BSIZE" using b o by (simp add: backed_def)
  fix bn assume bn: "bn * BSIZE < max sz (off + w)"
  show "addr D' as' bn \<noteq> 0"
  proof (cases "bn * BSIZE < sz")
    case True
    have "bn < MAXFILE" using True b by (simp add: backed_def) (metis le_trans less_le_not_le mult_le_cancel2 not_le)
    then show ?thesis using b True grewD(7) [OF g] by (simp add: backed_def)
  next
    case False
    then show ?thesis using n [of "bn * BSIZE"] bn o(1) by (simp add: BSIZE_def)
  qed
qed

lemma fbyte_put:
  assumes "file_ok st S D as" "geometry st S" "n < ninodes S" "backed D as z" "p < z"
  shows "fbyte (put_dino n S d D) as p = fbyte D as p"
proof -
  have "addr D as (p div BSIZE) \<in> owned D as" using addr_owned backed_block [OF assms(4,5)] by blast
  then have "addr D as (p div BSIZE) \<notin> inodeblocks S" using owned_not_meta [OF assms(1)] by blast
  then show ?thesis using file_put(3) [OF assms(1-3)] put_other [OF _ assms(3)] by (simp add: fbyte_def)
qed

lemma card_ind: "card X \<le> c \<Longrightarrow> card (X \<union> ind as) \<le> c + 1"
  using card_Un_le [of X "ind as"] by (cases "as ! NDIRECT = 0") auto

lemma write_back:
  assumes s: "checked s" "synced ip s" and w: "wrote M c ip s off bs t" and M: "IBLOCK (inum (ino s ip)) (sb s) \<in> M"
    and o: "off \<le> unat (isize (ino s ip))" "off + v \<le> MAXFILE * BSIZE" "v \<le> length bs" and b: "budget M (addrs (ino s ip)) (j + c) s"
  defines "z \<equiv> max (unat (isize (ino s ip))) (off + v)"
  shows "does (iupdate ip (t\<lparr>itable := (itable t)[ip := (ino t ip)\<lparr>isize := of_nat z\<rparr>]\<rparr>)) (\<lambda>x. file_write M (c + 1) ip s off bs z x \<and>
     (\<forall>b < sb_size (sb s). used (blocks x) (sb s) b \<longleftrightarrow> used (blocks t) (sb s) b))"
proof -
  let ?st = "start (ls s)" and ?S = "sb s" and ?D = "blocks s" and ?as = "addrs (ino s ip)" and ?n = "inum (ino s ip)"
  obtain D' as' W X where a: "step {} s D' (with_addrs ip as' s) W t" "grew ?st ?S ?D ?as D' as'"
    "\<And>p. off \<le> p \<Longrightarrow> p < off + length bs \<Longrightarrow> addr D' as' (p div BSIZE) \<noteq> 0 \<and> fbyte D' as' p = bs ! (p - off)"
    "\<And>p. p < MAXFILE * BSIZE \<Longrightarrow> p < off \<or> off + length bs \<le> p \<Longrightarrow> addr ?D ?as (p div BSIZE) \<noteq> 0 \<Longrightarrow> fbyte D' as' p = fbyte ?D ?as p"
    "W \<subseteq> M \<union> X \<union> ind as'" "finite X" "card X \<le> c"
    using w unfolding wrote_def by blast
  note d = synced_dino [OF s(2)] and f = synced_file [OF s] and t = stepD [OF a(1)]
  note i = with_addrs_step [OF a(1) d(5)] and wt = wroteD [OF w checked_volume [OF s(1)] f(1)]
  have bk: "backed D' as' z" unfolding z_def by (rule backed_wrote [OF a(2) f(2) o(1,2)]) (use a(3) o(3) in auto)
  have z: "unat (of_nat z :: 32 word) = z"
    using bk block_number(1) [of z] by (simp add: backed_def slot_consts)
  define u where "u = t\<lparr>itable := (itable t)[ip := (ino t ip)\<lparr>isize := of_nat z\<rparr>]\<rparr>"
  have it: "itable u = (itable s)[ip := (ino s ip)\<lparr>addrs := as', isize := of_nat z\<rparr>]" "ino u ip = (ino s ip)\<lparr>addrs := as', isize := of_nat z\<rparr>"
    using i t(3) d(5) by (simp_all add: u_def with_addrs_def ino_def)
  let ?d = "to_dinode (ino u ip)"
  have dd: "daddrs ?d = as'" "dsize ?d = of_nat z" "dtype ?d = itype (ino s ip)" using it by (simp_all add: to_dinode_def)
  have u: "step {} s D' (itable u) W u" using step_table [OF a(1)] by (simp add: u_def)
  have l: "live ?n ?S ?D" using s(2) by (simp add: synced_def)
  have g: "grew ?st ?S ?D (file_addrs ?n ?S ?D) D' (daddrs ?d)" using a(2) d(1) dd(1) by simp
  let ?E = "put_dino ?n ?S ?d D'"
  note E = consistent_grew [OF s(1) [unfolded checked_def] l g, unfolded dd, OF d(7)]
  have S: "geometry ?st ?S" using consistentD(1) s(1) by (simp add: checked_def)
  have "file_write M (c + 1) ip s off bs z x" if x: "step {} u ?E (itable u) {IBLOCK ?n ?S} x" for x
  proof -
    note sx = step_trans [OF u x]
    note y = stepD [OF sx]
    have ix: "ino x ip = ino u ip" using y(3) by (simp add: ino_def)
    have c: "checked x" "dino ?n ?S (blocks x) = ?d" using E(1,3) bk z y by (simp_all add: checked_def)
    moreover have "live ?n ?S (blocks x)" using c(2) dd(3) d(4,7) by (simp add: live_def)
    then have "synced ip x" using c(2) y(3,5) ix it d(5,6) by (simp add: synced_def)
    moreover have "\<forall>p < z. fbyte (blocks x) (addrs (ino x ip)) p = (if off \<le> p \<and> p < off + length bs then bs ! (p - off) else fbyte ?D ?as p)"
    proof (intro allI impI)
      fix p assume p: "p < z"
      have "p < MAXFILE * BSIZE" using p bk by (simp add: backed_def)
      moreover have "\<not> (off \<le> p \<and> p < off + length bs) \<Longrightarrow> addr ?D ?as (p div BSIZE) \<noteq> 0"
        using backed_block(1) [OF f(2), of p] p o by (auto simp: z_def max_def split: if_splits)
      ultimately show "fbyte (blocks x) (addrs (ino x ip)) p = (if off \<le> p \<and> p < off + length bs then bs ! (p - off) else fbyte ?D ?as p)"
        using a(3,4) [of p] fbyte_put [OF grewD(2) [OF a(2)] S d(4) bk p] y(2) ix it(2) by auto
    qed
    moreover have "logged x \<subseteq> logged s \<union> M \<union> (X \<union> ind as') \<and> finite (X \<union> ind as') \<and> card (X \<union> ind as') \<le> c + 1"
      using y(4) a(5,6) M card_ind [OF a(7)] by (auto simp: ind_def)
    moreover have "untouched ?n s x" using E(2,4) bk z y(2) by (auto simp: untouched_def)
    ultimately show ?thesis unfolding file_write_def
      using y(3) it(1) z step_stays [OF sx] by (intro conjI exI [of _ as'] exI [of _ "X \<union> ind as'"]) auto
  qed
  moreover have "does (iupdate ip u) (step {} u ?E (itable u) {IBLOCK ?n ?S})"
    using iupdate_ok [of u M j ip] wt(1,2) budget_room [OF wt(7) [OF b]] it(2) d(4,6) stepD [OF u] t
    by (simp add: u_def volume_def room_def)
  ultimately show ?thesis unfolding u_def [symmetric] using used_put [OF S d(4)] t(2) by (auto elim!: does_mono dest: stepD(2))
qed

lemma wrote_isize:
  assumes "wrote M c ip s off bs t" "ip < length (itable s)"
  shows "isize (ino t ip) = isize (ino s ip)"
  using assms(1) with_addrs_step(3) [OF _ assms(2)] unfolding wrote_def by fastforce

context source
begin

lemma writei_ok:
  assumes s: "checked s" "cache_ok {} s" "synced ip s" and M: "mapblocks (sb s) \<subseteq> M" "IBLOCK (inum (ino s ip)) (sb s) \<in> M"
    and b: "budget M (addrs (ino s ip)) (j + rounds (unat off) (unat n)) s"
    and ok: "off \<le> isize (ino s ip)" "\<not> off + n < off" "unat (off + n) \<le> MAXFILE * BSIZE" and h: "has src (unat n)"
  shows "does (writei cp ip user src off n s) (\<lambda>(r, t). \<exists>w x. r = int w \<and> w \<le> x \<and> x \<le> unat n \<and> (\<not> fails cp \<longrightarrow> x = w) \<and>
     (w < unat n \<longrightarrow> fails cp \<or> (\<forall>b < sb_size (sb t). used (blocks t) (sb t) b)) \<and>
     file_write M (rounds (unat off) (unat n) + 1) ip s (unat off) (take x (get src (unat n))) (max (unat (isize (ino s ip))) (unat off + w)) t)"
proof -
  let ?o = "unat off" and ?n = "unat n" and ?z = "unat (isize (ino s ip))"
  let ?c = "rounds ?o ?n"
  have m: "?o + ?n \<le> MAXFILE * BSIZE" "?o \<le> ?z"
    using ok unat_plus_simple [of off n] by (auto simp: not_less word_le_nat_alt)
  note v = checked_volume [OF s(1)] and f = synced_file [OF s(1,3)] and d = synced_dino [OF s(3)]
  have fin: "does (iupdate ip (if unat (isize (ino t ip)) < ?o + w then upd_ino ip (\<lambda>i. i\<lparr>isize := of_nat (?o + w)\<rparr>) t else t))
      (\<lambda>u. \<exists>x. w \<le> x \<and> x \<le> ?n \<and> (\<not> fails cp \<longrightarrow> x = w) \<and> (w < ?n \<longrightarrow> fails cp \<or> (\<forall>b < sb_size (sb u). used (blocks u) (sb u) b)) \<and>
         file_write M (?c + 1) ip s ?o (take x (get src ?n)) (max ?z (?o + w)) u)"
    if o: "outcome M ?c ip s cp ?o (get src ?n) w t" for w t
  proof -
    obtain x where x: "w \<le> x" "x \<le> ?n" "wrote M ?c ip s ?o (take x (get src ?n)) t" "\<not> fails cp \<longrightarrow> x = w"
      "w < ?n \<longrightarrow> fails cp \<or> (\<forall>b < sb_size (sb t). used (blocks t) (sb t) b)"
      using o by (auto simp: outcome_def length_get)
    note t = wroteD [OF x(3) v f(1)]
    have z: "isize (ino t ip) = isize (ino s ip)" by (rule wrote_isize [OF x(3) d(5)])
    have "unat (of_nat (?o + w) :: 32 word) = ?o + w"
      by (rule block_number(1)) (use m(1) x(1,2) in \<open>simp add: slot_consts\<close>)
    then have e: "(if unat (isize (ino t ip)) < ?o + w then upd_ino ip (\<lambda>i. i\<lparr>isize := of_nat (?o + w)\<rparr>) t else t) =
      t\<lparr>itable := (itable t)[ip := (ino t ip)\<lparr>isize := of_nat (max ?z (?o + w))\<rparr>]\<rparr>"
      using with_size [of ip t "?o + w"] t(6) d(5) z by simp
    show ?thesis unfolding e
      by (rule does_mono [OF write_back [OF s(1,3) x(3) M(2) m(2) _ _ b]])
        (use x m(1) t(4) in \<open>auto simp: length_get file_write_def stays_def intro!: exI [of _ x]\<close>)
  qed
  have "does (writei_loop cp ip user src ?o 0 ?n s) (\<lambda>(tot', off', t). off' = ?o + tot' \<and> outcome M ?c ip s cp ?o (get src ?n) tot' t)"
    using writei_loop_ok [OF v s(2) f(1) M(1), of 0 ?n ?o j src user] m(1) b h by simp
  then have "does (writei_loop cp ip user src ?o 0 ?n s) (\<lambda>(w, off', t).
      does (iupdate ip (if unat (isize (ino t ip)) < off' then upd_ino ip (\<lambda>i. i\<lparr>isize := of_nat off'\<rparr>) t else t))
        (\<lambda>u. \<exists>x. w \<le> x \<and> x \<le> ?n \<and> (\<not> fails cp \<longrightarrow> x = w) \<and> (w < ?n \<longrightarrow> fails cp \<or> (\<forall>b < sb_size (sb u). used (blocks u) (sb u) b)) \<and>
         file_write M (?c + 1) ip s ?o (take x (get src ?n)) (max ?z (?o + w)) u))"
    by (rule does_mono) (clarify, rule fin)
  moreover have "\<not> (isize (ino s ip) < off \<or> off + n < off)" "\<not> MAXFILE * BSIZE < unat (off + n)" using ok by auto
  ultimately show ?thesis unfolding writei_def by (auto simp: Let_def elim!: does_mono)
qed

end

end
