(* ===== verification/Fs_Trunc.thy ===== *)
theory Fs_Trunc
  imports Fs_Write
begin

text \<open>
  Discarding the contents of a file: \<open>itrunc\<close> frees the blocks of the inode, each exactly once,
  and no other.
\<close>

section \<open>Freeing blocks\<close>

definition freed :: "nat set \<Rightarrow> fsst \<Rightarrow> (nat \<Rightarrow> block) \<Rightarrow> bool" where
  "freed F s D' \<longleftrightarrow> sound (start (ls s)) (sb s) D' \<and>
     (\<forall>b < sb_size (sb s). used D' (sb s) b \<longleftrightarrow> used (blocks s) (sb s) b \<and> b \<notin> F) \<and>
     (\<forall>b. b \<notin> mapblocks (sb s) \<longrightarrow> D' b = blocks s b)"

definition freeable :: "nat \<Rightarrow> fsst \<Rightarrow> bool" where
  "freeable b s \<longleftrightarrow> b < sb_size (sb s) \<and> used (blocks s) (sb s) b \<and> b \<notin> meta (start (ls s)) (sb s)"

text \<open>The blocks of \<open>F\<close> are free, the inode table is \<open>T\<close>, and only the free map was logged.\<close>

definition frees :: "nat set \<Rightarrow> nat set \<Rightarrow> inode list \<Rightarrow> fsst \<Rightarrow> fsst \<Rightarrow> bool" where
  "frees H F T s t \<longleftrightarrow> (\<exists>D' W. step H s D' T W t \<and> W \<subseteq> mapblocks (sb s) \<and> freed F s D')"

lemma frees_refl: "volume s \<Longrightarrow> cache_ok H s \<Longrightarrow> frees H {} (itable s) s s"
  unfolding frees_def freed_def by (intro exI [of _ "blocks s"] exI [of _ "{}"]) (simp add: step_refl volume_def)

lemma frees_trans:
  assumes "frees H F T s t" "frees H G T' t u"
  shows "frees H (F \<union> G) T' s u"
proof -
  obtain D W where 1: "step H s D T W t" "W \<subseteq> mapblocks (sb s)" "freed F s D" using assms(1) by (auto simp: frees_def)
  obtain D' W' where 2: "step H t D' T' W' u" "W' \<subseteq> mapblocks (sb t)" "freed G t D'" using assms(2) by (auto simp: frees_def)
  have "freed (F \<union> G) s D'" using 1(3) 2(3) stepD [OF 1(1)] by (auto simp: freed_def)
  then show ?thesis using step_trans [OF 1(1) 2(1)] 1(2) 2(2) stepD(5) [OF 1(1)] unfolding frees_def
    by (intro exI [of _ D'] exI [of _ "W \<union> W'"]) simp
qed

lemma frees_table: "frees H F T s t \<Longrightarrow> frees H F T' s (t\<lparr>itable := T'\<rparr>)"
  unfolding frees_def using step_table by blast

lemma freesD:
  assumes "frees H F T s t"
  shows "cache_ok H t" "itable t = T" "sb t = sb s" "start (ls t) = start (ls s)" "volume s \<Longrightarrow> volume t"
    "b \<notin> mapblocks (sb s) \<Longrightarrow> blocks t b = blocks s b" "b \<notin> F \<Longrightarrow> freeable b s \<Longrightarrow> freeable b t"
    "mapblocks (sb s) \<subseteq> M \<Longrightarrow> room M k s \<Longrightarrow> room M k t" "c \<in> H \<Longrightarrow> cached (ls s) c j \<Longrightarrow> cached (ls t) c j"
    "b < sb_size (sb s) \<Longrightarrow> used (blocks t) (sb s) b \<longleftrightarrow> used (blocks s) (sb s) b \<and> b \<notin> F"
proof -
  obtain D W where 1: "step H s D T W t" "W \<subseteq> mapblocks (sb s)" "freed F s D" using assms by (auto simp: frees_def)
  note t = stepD [OF 1(1)]
  show "volume s \<Longrightarrow> volume t" using 1(3) volume_step [OF _ 1(1)] by (simp add: freed_def)
  show "room M k t" if "mapblocks (sb s) \<subseteq> M" "room M k s"
    using room_step [where n = 0 and X = "{}", OF _ 1(1)] that 1(2) by auto
qed (use assms in \<open>auto simp: frees_def freed_def freeable_def stepD\<close>)

lemma bfree_frees:
  assumes v: "volume s" and H: "cache_ok H s" "H \<inter> mapblocks (sb s) = {}" "card H \<le> 1" and r: "room M k s" and b: "freeable b s"
  shows "does (bfree ROOTDEV b s) (frees H {b} (itable s) s)"
proof -
  let ?D = "mark False b (sb s) (blocks s)"
  have b': "b < sb_size (sb s)" "used (blocks s) (sb s) b" "b \<notin> meta (start (ls s)) (sb s)" using b by (auto simp: freeable_def)
  have so: "sound (start (ls s)) (sb s) (blocks s)" using v by (simp add: volume_def)
  have "freed {b} s ?D"
    using used_mark [of "blocks s" b "sb s" False] soundD(1) [OF so sized_map [OF b'(1)]] sound_mark_free [OF so b'(3,1)] mark_other [of _ "sb s" b False] b'(1)
    by (auto simp: freed_def)
  moreover have "does (bfree ROOTDEV b s) (step H s ?D (itable s) {BBLOCK b (sb s)})" using bfree_ok [OF v H r b'(1)] b'(2) by simp
  ultimately show ?thesis using mapblocks_in [OF b'(1)] unfolding frees_def by (auto elim!: does_mono)
qed

section \<open>The loops\<close>

text \<open>The numbers in the slots \<open>js\<close> of a list, without the zeros.\<close>

definition entries :: "32 word list \<Rightarrow> nat list \<Rightarrow> nat set" where
  "entries e js = {unat (e ! j) |j. j \<in> set js \<and> e ! j \<noteq> 0}"

definition separate :: "32 word list \<Rightarrow> nat list \<Rightarrow> bool" where
  "separate e js \<longleftrightarrow> distinct js \<and> inj_on ((!) e) {j \<in> set js. e ! j \<noteq> 0}"

lemma entries_Cons:
  "entries e [] = {}" "e ! j = 0 \<Longrightarrow> entries e (j # js) = entries e js"
  "e ! j \<noteq> 0 \<Longrightarrow> entries e (j # js) = {unat (e ! j)} \<union> entries e js"
  by (auto simp: entries_def)

lemma separate_Cons:
  assumes "separate e (j # js)"
  shows "separate e js" "e ! j \<noteq> 0 \<Longrightarrow> unat (e ! j) \<notin> entries e js"
proof -
  show "separate e js" using assms by (auto simp: separate_def intro: inj_on_subset)
  assume nz: "e ! j \<noteq> 0"
  show "unat (e ! j) \<notin> entries e js"
  proof
    assume "unat (e ! j) \<in> entries e js"
    then obtain j' where "j' \<in> set js" "e ! j = e ! j'" by (auto simp: entries_def word_unat_eq_iff)
    then show False using assms nz by (auto simp: separate_def dest: inj_onD)
  qed
qed

lemma freeable_rest:
  assumes "frees H {unat (e ! j)} T s t" "\<forall>b \<in> entries e (j # js). freeable b s" "unat (e ! j) \<notin> entries e js" "e ! j \<noteq> 0"
  shows "\<forall>b \<in> entries e js. freeable b t"
proof
  fix b assume b: "b \<in> entries e js"
  then have "b \<notin> {unat (e ! j)}" "freeable b s" using assms(2-4) by (auto simp: entries_Cons)
  then show "freeable b t" by (rule freesD(7) [OF assms(1)])
qed

lemma trunc_entries_ok:
  assumes "volume s" "cache_ok {i} s" "i \<notin> mapblocks (sb s)" "cached (ls s) i bp" "room M k s" "mapblocks (sb s) \<subseteq> M"
    "separate (blocks s i) js" "\<forall>b \<in> entries (blocks s i) js. freeable b s"
  shows "does (trunc_entries ROOTDEV bp js s) (frees {i} (entries (blocks s i) js) (itable s) s)"
  using assms
proof (induction js arbitrary: s)
  case Nil
  then show ?case using frees_refl by (simp add: entries_Cons)
next
  case (Cons j js)
  let ?e = "blocks s i"
  note sp = separate_Cons [OF Cons.prems(7)]
  have "uses (logged s) {i} (ls s)" using Cons.prems(2) by (simp add: cache_ok_def)
  then have d: "bdata bp s = ?e" using data_content [of _ "{i}" "ls s" i bp] Cons.prems(4) by (simp add: bdata_def blocks_def)
  show ?case
  proof (cases "?e ! j = 0")
    case True
    then show ?thesis using Cons.IH [OF Cons.prems(1-6) sp(1)] Cons.prems(8) d by (simp add: entries_Cons)
  next
    case False
    have rest: "does (trunc_entries ROOTDEV bp js t) (frees {i} (entries ?e (j # js)) (itable s) s)" if t: "frees {i} {unat (?e ! j)} (itable s) s t" for t
    proof -
      note f = freesD [OF t]
      have e: "blocks t i = ?e" using f(6) Cons.prems(3) by blast
      have "\<forall>b \<in> entries ?e js. freeable b t"
        by (rule freeable_rest [OF t Cons.prems(8) sp(2) [OF False] False])
      then have "does (trunc_entries ROOTDEV bp js t) (frees {i} (entries ?e js) (itable s) t)"
        using Cons.IH [of t, unfolded e f(2,3), OF f(5) [OF Cons.prems(1)] f(1) Cons.prems(3) f(9) f(8) [OF Cons.prems(6,5)] Cons.prems(6) sp(1)] Cons.prems(4)
        by simp
      then show ?thesis unfolding entries_Cons(3) [where e = ?e, OF False] by (rule does_mono) (rule frees_trans [OF t])
    qed
    have "does (bfree ROOTDEV (unat (?e ! j)) s) (frees {i} {unat (?e ! j)} (itable s) s)"
      by (rule bfree_frees [OF Cons.prems(1,2) _ _ Cons.prems(5)]) (use Cons.prems(3,8) False in \<open>auto simp: entries_Cons\<close>)
    from does_mono [OF this rest] show ?thesis using False d by simp
  qed
qed

lemma trunc_direct_ok:
  assumes "volume s" "cache_ok {} s" "ip < length (itable s)" "idev (ino s ip) = ROOTDEV" "room M k s" "mapblocks (sb s) \<subseteq> M"
    "separate (addrs (ino s ip)) js" "\<forall>b \<in> entries (addrs (ino s ip)) js. freeable b s" "\<forall>j \<in> set js. j < length (addrs (ino s ip))"
  shows "does (trunc_direct ip js s) (frees {} (entries (addrs (ino s ip)) js) (with_addrs ip (fold (\<lambda>j as. as[j := 0]) js (addrs (ino s ip))) s) s)"
  using assms
proof (induction js arbitrary: s)
  case Nil
  then show ?case using frees_refl by (simp add: entries_Cons)
next
  case (Cons j js)
  let ?e = "addrs (ino s ip)"
  note sp = separate_Cons [OF Cons.prems(7)]
  show ?case
  proof (cases "?e ! j = 0")
    case True
    then have "?e[j := 0] = ?e" by (metis list_update_id)
    then show ?thesis using Cons.IH [OF Cons.prems(1-6) sp(1)] Cons.prems(8,9) True by (simp add: entries_Cons)
  next
    case False
    let ?z = "?e[j := 0]"
    have same: "entries ?z js = entries ?e js" "separate ?z js"
    proof -
      have "j \<notin> set js" using Cons.prems(7) by (simp add: separate_def)
      then have n: "?z ! x = ?e ! x" if "x \<in> set js" for x using that by (metis nth_list_update_neq)
      then show "entries ?z js = entries ?e js" unfolding entries_def by (intro Collect_cong ex_cong1) auto
      have "{x \<in> set js. ?z ! x \<noteq> 0} = {x \<in> set js. ?e ! x \<noteq> 0}" using n by auto
      then show "separate ?z js" using sp(1) n by (auto simp: separate_def inj_on_def)
    qed
    have rest: "does (trunc_direct ip js (upd_ino ip (set_addr j 0) t))
        (frees {} (entries ?e (j # js)) (with_addrs ip (fold (\<lambda>j as. as[j := 0]) (j # js) ?e) s) s)"
      if t0: "frees {} {unat (?e ! j)} (itable s) s t" for t
    proof -
      let ?t = "upd_ino ip (set_addr j 0) t"
      have it: "ino t = ino s" using freesD(2) [OF t0] by (auto simp: ino_def fun_eq_iff)
      then have u: "?t = t\<lparr>itable := with_addrs ip ?z s\<rparr>"
        using freesD(2) [OF t0] by (simp add: set_addr_table) (simp add: with_addrs_def)
      have t: "frees {} {unat (?e ! j)} (with_addrs ip ?z s) s ?t" unfolding u by (rule frees_table [OF t0])
      note f = freesD [OF t]
      have i: "ino ?t ip = (ino s ip)\<lparr>addrs := ?z\<rparr>" "\<And>as. with_addrs ip as ?t = with_addrs ip as s" "ip < length (itable ?t)"
        using f(2) Cons.prems(3) by (simp_all add: with_addrs_def ino_def)
      have "\<forall>b \<in> entries ?z js. freeable b ?t"
        unfolding same(1) by (rule freeable_rest [OF t Cons.prems(8) sp(2) [OF False] False])
      then have "does (trunc_direct ip js ?t) (frees {} (entries ?e js) (with_addrs ip (fold (\<lambda>j as. as[j := 0]) js ?z) s) ?t)"
        using Cons.IH [OF f(5) [OF Cons.prems(1)] f(1) i(3) _ f(8) [OF Cons.prems(6,5)]] i same Cons.prems(4,6,9) f(3) by simp
      then show ?thesis unfolding entries_Cons(3) [where e = ?e, OF False]
        by (rule does_mono) (simp add: frees_trans [OF t, simplified])
    qed
    have "does (bfree ROOTDEV (unat (?e ! j)) s) (frees {} {unat (?e ! j)} (itable s) s)"
      by (rule bfree_frees [OF Cons.prems(1,2) _ _ Cons.prems(5)]) (use Cons.prems(8) False in \<open>auto simp: entries_Cons\<close>)
    from does_mono [OF this rest] show ?thesis using False Cons.prems(4) by simp
  qed
qed

section \<open>itrunc\<close>

lemma frees_close:
  assumes o: "bopen {} s b i t" and u: "frees {b} F (itable t) t u"
  shows "does (fbrelse i u) (frees {} F (itable s) s)"
proof -
  obtain D' W where 1: "step {b} t D' (itable t) W u" "W \<subseteq> mapblocks (sb t)" "freed F t D'" using u by (auto simp: frees_def)
  note t = bopenD [OF o]
  have "freed F s D'" using 1(3) t by (simp add: freed_def)
  moreover have "does (fbrelse i u) (step {} s D' (itable s) W)" using close_block [OF o 1(1)] t by simp
  ultimately show ?thesis using 1(2) t(6) unfolding frees_def by (auto elim!: does_mono)
qed

lemma trunc_indirect_ok:
  assumes v: "volume s" "cache_ok {} s" and ip: "ip < length (itable s)" "idev (ino s ip) = ROOTDEV" and M: "room M k s" "mapblocks (sb s) \<subseteq> M"
  defines "i \<equiv> unat (addrs (ino s ip) ! NDIRECT)"
  assumes e: "addrs (ino s ip) ! NDIRECT \<noteq> 0 \<Longrightarrow> freeable i s \<and> separate (blocks s i) [0..<NINDIRECT] \<and>
      (\<forall>b \<in> entries (blocks s i) [0..<NINDIRECT]. freeable b s) \<and> i \<notin> entries (blocks s i) [0..<NINDIRECT]"
  shows "does (trunc_indirect ip s) (frees {} (if addrs (ino s ip) ! NDIRECT = 0 then {} else insert i (entries (blocks s i) [0..<NINDIRECT]))
     (with_addrs ip ((addrs (ino s ip))[NDIRECT := 0]) s) s)"
proof (cases "addrs (ino s ip) ! NDIRECT = 0")
  case True
  then have "(addrs (ino s ip))[NDIRECT := 0] = addrs (ino s ip)" by (metis list_update_id)
  then show ?thesis using True frees_refl [OF v] by (simp add: trunc_indirect_def)
next
  case False
  let ?F = "entries (blocks s i) [0..<NINDIRECT]" and ?T = "with_addrs ip ((addrs (ino s ip))[NDIRECT := 0]) s"
  note e = e [OF False]
  have im: "i \<notin> mapblocks (sb s)" using e by (auto simp: freeable_def meta_def)
  have last: "does (bfree ROOTDEV i u) (\<lambda>w. frees {} (insert i ?F) ?T s (upd_ino ip (set_addr NDIRECT 0) w))" if u: "frees {} ?F (itable s) s u" for u
  proof -
    note f = freesD [OF u]
    have it: "frees {} (insert i ?F) ?T s (upd_ino ip (set_addr NDIRECT 0) w)" if w: "frees {} {i} (itable u) u w" for w
    proof -
      have w': "frees {} (insert i ?F) (itable s) s w" using frees_trans [OF u w] f(2) by simp
      have "upd_ino ip (set_addr NDIRECT 0) w = w\<lparr>itable := ?T\<rparr>"
        using freesD(2) [OF w'] by (simp add: set_addr_table) (simp add: with_addrs_def ino_def)
      then show ?thesis using frees_table [OF w'] by simp
    qed
    have "freeable i u" by (rule f(7)) (use e in auto)
    from does_mono [OF bfree_frees [OF f(5) [OF v(1)] f(1) _ _ f(8) [OF M(2,1)] this] it] show ?thesis by simp
  qed
  have mid: "does (trunc_entries ROOTDEV bp [0..<NINDIRECT] t) (\<lambda>u. does (fbrelse bp u) (frees {} ?F (itable s) s))"
    if o: "bopen {} s i bp t" for bp t
  proof -
    note t = bopenD [OF o]
    have "does (trunc_entries ROOTDEV bp [0..<NINDIRECT] t) (frees {i} (entries (blocks t i) [0..<NINDIRECT]) (itable t) t)"
      by (rule trunc_entries_ok [OF _ t(1) _ t(2)]) (use v(1) e t im M in \<open>auto simp: volume_def freeable_def\<close>)
    then show ?thesis unfolding t(4) by (rule does_mono) (rule frees_close [OF o])
  qed
  have ino: "idev (ino x ip) = ROOTDEV \<and> addrs (ino x ip) ! NDIRECT = addrs (ino s ip) ! NDIRECT" if "itable x = itable s" for x
    using that ip(2) by (simp add: ino_def)
  have "does (fbread ROOTDEV i s) (\<lambda>(bp, t). bopen {} s i bp t)" by (rule fbread_bopen [OF v(2) _ room_slack [OF M(1)]]) auto
  then have "does (fbread ROOTDEV i s) (\<lambda>(bp, t). does (trunc_entries (idev (ino t ip)) bp [0..<NINDIRECT] t) (\<lambda>u. does (fbrelse bp u)
     (\<lambda>u. does (bfree (idev (ino u ip)) (unat (addrs (ino u ip) ! NDIRECT)) u) (\<lambda>w. frees {} (insert i ?F) ?T s (upd_ino ip (set_addr NDIRECT 0) w)))))"
  proof (rule does_mono, clarify)
    fix bp t assume o: "bopen {} s i bp t"
    have "does (bfree (idev (ino u ip)) (unat (addrs (ino u ip) ! NDIRECT)) u) (\<lambda>w. frees {} (insert i ?F) ?T s (upd_ino ip (set_addr NDIRECT 0) w))"
      if "frees {} ?F (itable s) s u" for u using last [OF that] ino [OF freesD(2) [OF that]] by (simp add: i_def)
    then show "does (trunc_entries (idev (ino t ip)) bp [0..<NINDIRECT] t) (\<lambda>u. does (fbrelse bp u)
     (\<lambda>u. does (bfree (idev (ino u ip)) (unat (addrs (ino u ip) ! NDIRECT)) u) (\<lambda>w. frees {} (insert i ?F) ?T s (upd_ino ip (set_addr NDIRECT 0) w))))"
      using mid [OF o] ino [OF bopenD(7) [OF o]] by (auto elim!: does_mono)
  qed
  then show ?thesis using False ip(2) by (simp add: trunc_indirect_def i_def case_prod_unfold)
qed

lemma fold_zero:
  "length (fold (\<lambda>j as. as[j := 0]) js as) = length as"
  "x \<notin> set js \<Longrightarrow> fold (\<lambda>j as. as[j := 0]) js as ! x = as ! x"
  "x \<in> set js \<Longrightarrow> x < length as \<Longrightarrow> fold (\<lambda>j as. as[j := 0]) js as ! x = (0 :: 32 word)"
proof (induction js arbitrary: as)
  case (Cons j js)
  {
    case 3
    then show ?case using Cons.IH(2,3) [of "as[j := 0]"] by (cases "x \<in> set js") auto
  }
qed auto

lemma file_entries:
  assumes f: "file_ok st S D as"
  defines "i \<equiv> unat (as ! NDIRECT)"
  shows "separate as [0..<NDIRECT]" "entries as [0..<NDIRECT] \<subseteq> owned D as"
    "as ! NDIRECT \<noteq> 0 \<Longrightarrow> separate (D i) [0..<NINDIRECT]" "as ! NDIRECT \<noteq> 0 \<Longrightarrow> entries (D i) [0..<NINDIRECT] \<subseteq> owned D as"
    "as ! NDIRECT \<noteq> 0 \<Longrightarrow> i \<notin> entries (D i) [0..<NINDIRECT] \<and> i \<notin> entries as [0..<NDIRECT]"
    "as ! NDIRECT \<noteq> 0 \<Longrightarrow> entries (D i) [0..<NINDIRECT] \<inter> entries as [0..<NDIRECT] = {}"
    "owned D as = entries as [0..<NDIRECT] \<union> (if as ! NDIRECT = 0 then {} else insert i (entries (D i) [0..<NINDIRECT]))"
proof -
  have d: "bslot D as j = as ! j" "j < NSLOT" if "j < NDIRECT" for j using that by (simp_all add: bslot_def NSLOT_def)
  have e: "bslot D as (NDIRECT + 1 + j) = D i ! j" "NDIRECT + 1 + j < NSLOT" if "as ! NDIRECT \<noteq> 0" "j < NINDIRECT" for j
    using that by (simp_all add: bslot_def NSLOT_def i_def)
  note inj = file_okD(5) [OF f]
  show "separate as [0..<NDIRECT]" using inj d by (auto simp: separate_def inj_on_def)
  show direct: "entries as [0..<NDIRECT] \<subseteq> owned D as" using d by (auto simp: entries_def owned_def) metis
  show "separate (D i) [0..<NINDIRECT]" if "as ! NDIRECT \<noteq> 0"
    using inj [of "NDIRECT + 1 + j" "NDIRECT + 1 + k" for j k] e [OF that] by (auto simp: separate_def inj_on_def)
  show entry: "entries (D i) [0..<NINDIRECT] \<subseteq> owned D as" if "as ! NDIRECT \<noteq> 0" using e [OF that] by (auto simp: entries_def owned_def) metis
  have sep: "entries (D i) [0..<NINDIRECT] \<inter> insert i (entries as [0..<NDIRECT]) = {} \<and> i \<notin> entries as [0..<NDIRECT]"
    if nz: "as ! NDIRECT \<noteq> 0"
  proof -
    have 1: "D i ! j \<noteq> as ! k" if "j < NINDIRECT" "k \<le> NDIRECT" "D i ! j \<noteq> 0" for j k
      using inj [of "NDIRECT + 1 + j" k] e [OF nz that(1)] that by (auto simp: bslot_def NSLOT_def)
    have 2: "as ! k \<noteq> as ! NDIRECT" if "k < NDIRECT" for k
      using inj [of k NDIRECT] d [OF that] that nz by auto
    show ?thesis using 1 1 [of _ NDIRECT] 2 by (fastforce simp: entries_def i_def word_unat_eq_iff)
  qed
  then show "i \<notin> entries (D i) [0..<NINDIRECT] \<and> i \<notin> entries as [0..<NDIRECT]"
    "entries (D i) [0..<NINDIRECT] \<inter> entries as [0..<NDIRECT] = {}" if "as ! NDIRECT \<noteq> 0" using that by blast+
  have all: "b \<in> entries as [0..<NDIRECT] \<union> (if as ! NDIRECT = 0 then {} else insert i (entries (D i) [0..<NINDIRECT]))" if b: "b \<in> owned D as" for b
  proof -
    obtain k where k: "k < NSLOT" "bslot D as k \<noteq> 0" "b = unat (bslot D as k)" using b by (auto simp: owned_def)
    consider "k < NDIRECT" | "k = NDIRECT" | "NDIRECT < k" by linarith
    then show ?thesis
    proof cases
      case 3
      then have "as ! NDIRECT \<noteq> 0" "b = unat (D i ! (k - NDIRECT - 1))" "D i ! (k - NDIRECT - 1) \<noteq> 0" "k - NDIRECT - 1 < NINDIRECT"
        using k by (auto simp: bslot_def i_def NSLOT_def split: if_splits)
      then show ?thesis by (auto simp: entries_def)
    qed (use k in \<open>auto simp: bslot_def entries_def i_def\<close>)
  qed
  show "owned D as = entries as [0..<NDIRECT] \<union> (if as ! NDIRECT = 0 then {} else insert i (entries (D i) [0..<NINDIRECT]))"
    by (rule equalityI [OF subsetI [OF all]], assumption)
      (use direct entry indirect_owned [of as D] in \<open>auto simp: i_def split: if_splits\<close>)
qed

abbreviation no_blocks :: "32 word list" where
  "no_blocks \<equiv> replicate (NDIRECT + 1) 0"

lemma no_blocks_file:
  "bslot D no_blocks k = 0 \<or> NSLOT \<le> k" "owned D no_blocks = {}" "file_ok st S D no_blocks" "backed D no_blocks 0"
proof -
  have s: "bslot D no_blocks k = 0" if "k < NSLOT" for k using that by (auto simp: bslot_def nth_append simp del: replicate_Suc)
  then show "bslot D no_blocks k = 0 \<or> NSLOT \<le> k" by (cases "k < NSLOT") auto
  show o: "owned D no_blocks = {}" using s by (auto simp: owned_def)
  show "file_ok st S D no_blocks" using s o by (simp add: file_ok_def)
  show "backed D no_blocks 0" by (simp add: backed_def)
qed

lemma trunc_blocks_ok:
  assumes v: "volume s" "cache_ok {} s" "file_at ip s" and M: "room M k s" "mapblocks (sb s) \<subseteq> M"
  shows "does (trunc_direct ip [0..<NDIRECT] s) (\<lambda>t. does (trunc_indirect ip t)
     (frees {} (owned (blocks s) (addrs (ino s ip))) (with_addrs ip no_blocks s) s))"
proof -
  let ?as = "addrs (ino s ip)" and ?D = "blocks s"
  let ?i = "unat (?as ! NDIRECT)" and ?z = "fold (\<lambda>j as. as[j := 0]) [0..<NDIRECT] (addrs (ino s ip))"
  let ?A = "entries ?as [0..<NDIRECT]" and ?B = "entries (?D ?i) [0..<NINDIRECT]"
  have f: "file_ok (start (ls s)) (sb s) ?D ?as" and ip: "ip < length (itable s)" "idev (ino s ip) = ROOTDEV"
    using v(3) by (auto simp: file_at_def)
  note e = file_entries [OF f] and len = file_okD(1) [OF f]
  have own: "freeable b s" if "b \<in> owned ?D ?as" for b using file_okD(2-4) [OF f that] by (simp add: freeable_def)
  have z: "?z ! NDIRECT = ?as ! NDIRECT" "?z[NDIRECT := 0] = no_blocks"
    using fold_zero(1) [of "[0..<NDIRECT]" ?as] fold_zero(2,3) [where js = "[0..<NDIRECT]" and as = ?as] len
    by (auto intro!: nth_equalityI simp: nth_list_update simp del: replicate_Suc)
  have rest: "does (trunc_indirect ip t) (frees {} (owned ?D ?as) (with_addrs ip no_blocks s) s)"
    if t: "frees {} ?A (with_addrs ip ?z s) s t" for t
  proof -
    note g = freesD [OF t]
    have i: "ino t ip = (ino s ip)\<lparr>addrs := ?z\<rparr>" "\<And>as. with_addrs ip as t = with_addrs ip as s" "ip < length (itable t)"
      using g(2) ip by (simp_all add: with_addrs_def ino_def)
    have D: "blocks t ?i = ?D ?i" if "?as ! NDIRECT \<noteq> 0"
      using g(6) owned_not_meta [OF f indirect_owned [OF that]] by blast
    have "does (trunc_indirect ip t) (frees {} (if ?as ! NDIRECT = 0 then {} else insert ?i ?B) (with_addrs ip no_blocks s) t)"
      using trunc_indirect_ok [OF g(5) [OF v(1)] g(1) i(3) _ g(8) [OF M(2,1)]] i z ip(2) M(2) g(3) D e(3-6)
        g(7) own indirect_owned [of ?as ?D] by (cases "?as ! NDIRECT = 0") (simp_all, blast)
    then show ?thesis unfolding e(7) by (rule does_mono) (rule frees_trans [OF t])
  qed
  have "does (trunc_direct ip [0..<NDIRECT] s) (frees {} ?A (with_addrs ip ?z s) s)"
    by (rule trunc_direct_ok [OF v(1,2) ip M e(1)]) (use own e(2) len in auto)
  then show ?thesis by (rule does_mono) (rule rest)
qed

text \<open>The inode of slot \<open>ip\<close> is empty, and exactly its blocks are free again.\<close>

definition truncated :: "nat set \<Rightarrow> nat \<Rightarrow> fsst \<Rightarrow> fsst \<Rightarrow> bool" where
  "truncated M ip s t \<longleftrightarrow> checked t \<and> stays s t \<and> synced ip t \<and> untouched (inum (ino s ip)) s t \<and>
     itable t = (itable s)[ip := (ino s ip)\<lparr>addrs := no_blocks, isize := 0\<rparr>] \<and>
     (\<forall>b < sb_size (sb s). used (blocks t) (sb s) b \<longleftrightarrow> used (blocks s) (sb s) b \<and> b \<notin> owned (blocks s) (addrs (ino s ip))) \<and>
     logged t \<subseteq> logged s \<union> M"

lemma consistent_freed:
  assumes c: "checked s" and n: "live n (sb s) (blocks s)" and f: "freed (owned (blocks s) (file_addrs n (sb s) (blocks s))) s D'"
    and d: "daddrs d = no_blocks" "dsize d = 0"
  defines "E \<equiv> put_dino n (sb s) d D'"
  shows "consistent (start (ls s)) (sb s) E" "dino n (sb s) E = d"
    "\<And>b. b < sb_size (sb s) \<Longrightarrow> used E (sb s) b \<longleftrightarrow> used (blocks s) (sb s) b \<and> b \<notin> owned (blocks s) (file_addrs n (sb s) (blocks s))"
    "\<And>m. m \<noteq> n \<Longrightarrow> m < ninodes (sb s) \<Longrightarrow> dino m (sb s) E = dino m (sb s) (blocks s)"
    "\<And>m b. b \<in> blocks_of m (sb s) (blocks s) \<Longrightarrow> E b = blocks s b"
proof -
  let ?S = "sb s" and ?st = "start (ls s)" and ?D = "blocks s"
  note c' = c [unfolded checked_def]
  note S = consistentD(1) [OF c']
  have nn: "n < ninodes ?S" using n by (simp add: live_def)
  have so: "sound ?st ?S D'" and l: "length (daddrs d) = NDIRECT + 1" using f d by (simp_all add: freed_def)
  have map: "b \<notin> mapblocks ?S \<Longrightarrow> D' b = ?D b" for b using f by (simp add: freed_def)
  have ib: "IBLOCK m ?S \<notin> mapblocks ?S" if "m < ninodes ?S" for m using inodeblocks_in [OF that] S by (auto simp: geometry_def)
  note p = dino_put [OF so l nn, folded E_def]
  show me: "dino n ?S E = d" using p by simp
  show others: "dino m ?S E = dino m ?S ?D" if "m \<noteq> n" "m < ninodes ?S" for m
    using p that(1) map [OF ib [OF that(2)]] by (simp add: dino_def)
  show u: "used E ?S b \<longleftrightarrow> used ?D ?S b \<and> b \<notin> owned ?D (file_addrs n ?S ?D)" if "b < sb_size ?S" for b
    using used_put [OF S nn that] f that by (simp add: E_def freed_def)
  show keep: "E b = ?D b" if "b \<in> blocks_of m ?S ?D" for m b
  proof -
    have m: "live m ?S ?D" "b \<in> owned ?D (file_addrs m ?S ?D)" using that by (auto simp: blocks_of_def split: if_splits)
    show ?thesis using owned_not_meta [OF consistentD(3) [OF c' m(1)] m(2)] put_other [of b ?S n] nn map by (simp add: E_def)
  qed
  have E: "blocks_of n ?S E = {}" using me d no_blocks_file(2) by (simp add: blocks_of_def)
  show "consistent ?st ?S E"
    by (rule consistent_change [OF c' _ others keep])
      (use sound_put [OF so S l nn] u me d no_blocks_file E n in \<open>auto simp: E_def blocks_of_def\<close>)
qed

lemma itrunc_ok:
  assumes s: "checked s" "cache_ok {} s" "synced ip s" and M: "room M k s" "mapblocks (sb s) \<subseteq> M" "IBLOCK (inum (ino s ip)) (sb s) \<in> M"
  shows "does (itrunc ip s) (truncated M ip s)"
proof -
  let ?n = "inum (ino s ip)" and ?S = "sb s"
  note d = synced_dino [OF s(3)] and f = synced_file(1) [OF s(1,3)] and v = checked_volume [OF s(1)]
  have l: "live ?n ?S (blocks s)" using s(3) by (simp add: synced_def)
  have rest: "does (iupdate ip (upd_ino ip (\<lambda>i. i\<lparr>isize := 0\<rparr>) t)) (truncated M ip s)"
    if t: "frees {} (owned (blocks s) (addrs (ino s ip))) (with_addrs ip no_blocks s) s t" for t
  proof -
    define u where "u = upd_ino ip (\<lambda>i. i\<lparr>isize := 0\<rparr>) t"
    have it: "itable u = (itable s)[ip := (ino s ip)\<lparr>addrs := no_blocks, isize := 0\<rparr>]" "ino u ip = (ino s ip)\<lparr>addrs := no_blocks, isize := 0\<rparr>"
      using freesD(2) [OF t] d(5) by (simp_all add: u_def upd_ino_def with_addrs_def ino_def)
    have u: "frees {} (owned (blocks s) (addrs (ino s ip))) (itable u) s u"
      using frees_table [OF t, of "itable u"] by (simp add: u_def upd_ino_def)
    note g = freesD [OF u]
    obtain D' W where D: "step {} s D' (itable u) W u" "W \<subseteq> mapblocks ?S" "freed (owned (blocks s) (addrs (ino s ip))) s D'"
      using u by (auto simp: frees_def)
    let ?d = "to_dinode (ino u ip)" let ?E = "put_dino ?n ?S ?d D'"
    have dd: "daddrs ?d = no_blocks" "dsize ?d = 0" "dtype ?d = itype (ino s ip)" using it by (simp_all add: to_dinode_def)
    note E = consistent_freed [OF s(1) l D(3) [unfolded d(1)] dd(1,2)]
    have "truncated M ip s x" if x: "step {} u ?E (itable u) {IBLOCK ?n ?S} x" for x
    proof -
      note sx = step_trans [OF D(1) x]
      note y = stepD [OF sx]
      have ix: "ino x ip = ino u ip" using y(3) by (simp add: ino_def)
      have "live ?n ?S (blocks x)" using E(2) y(2) dd(3) d(4,7) by (simp add: live_def)
      then have "synced ip x" using E(2) y(2,3,5) ix it d(5,6) by (simp add: synced_def)
      then show ?thesis using E y it(1) step_stays [OF sx] D(2) M(2,3) d(1)
        by (auto simp: truncated_def checked_def untouched_def)
    qed
    moreover have "does (iupdate ip u) (step {} u ?E (itable u) {IBLOCK ?n ?S})"
      using iupdate_ok [OF g(5) [OF v] g(1) g(8) [OF M(2,1)], of ip] it(2) d(4,6) g(3) stepD(2) [OF D(1)] by simp
    ultimately show ?thesis unfolding u_def [symmetric] by (auto elim!: does_mono)
  qed
  have "does (trunc_direct ip [0..<NDIRECT] s) (\<lambda>t. does (trunc_indirect ip t)
     (frees {} (owned (blocks s) (addrs (ino s ip))) (with_addrs ip no_blocks s) s))"
    by (rule trunc_blocks_ok [OF v s(2) f M(1,2)])
  then show ?thesis unfolding itrunc_def does_simps by (rule does_mono) (erule does_mono, rule rest)
qed

end
