(* ===== verification/Fs_Table.thy ===== *)
theory Fs_Table
  imports Fs_Trunc
begin

text \<open>
  The inode table: one slot per inode in use, and a slot that was read agrees with the disk.
  Every operation on inodes keeps this, and the consistency of the volume with it.
\<close>

section \<open>The invariant\<close>

definition table_ok :: "fsst \<Rightarrow> bool" where
  "table_ok s \<longleftrightarrow> length (itable s) = NINODE \<and>
     (\<forall>i < NINODE. \<forall>j < NINODE. i \<noteq> j \<longrightarrow> 0 < ref (ino s i) \<longrightarrow> 0 < ref (ino s j) \<longrightarrow> inum (ino s i) \<noteq> inum (ino s j)) \<and>
     (\<forall>i < NINODE. 0 < ref (ino s i) \<longrightarrow> idev (ino s i) = ROOTDEV \<and> inum (ino s i) < ninodes (sb s))"

definition fs_ok :: "fsst \<Rightarrow> bool" where
  "fs_ok s \<longleftrightarrow> checked s \<and> cache_ok {} s \<and> table_ok s \<and>
     (\<forall>i < NINODE. 0 < ref (ino s i) \<longrightarrow> ivalid (ino s i) \<longrightarrow> synced i s)"

lemma fs_okD:
  assumes "fs_ok s"
  shows "checked s" "cache_ok {} s" "table_ok s" "i < NINODE \<Longrightarrow> 0 < ref (ino s i) \<Longrightarrow> ivalid (ino s i) \<Longrightarrow> synced i s"
    "length (itable s) = NINODE" "i < NINODE \<Longrightarrow> 0 < ref (ino s i) \<Longrightarrow> idev (ino s i) = ROOTDEV \<and> inum (ino s i) < ninodes (sb s)"
    "i < NINODE \<Longrightarrow> j < NINODE \<Longrightarrow> 0 < ref (ino s i) \<Longrightarrow> 0 < ref (ino s j) \<Longrightarrow> inum (ino s i) = inum (ino s j) \<Longrightarrow> i = j"
  using assms unfolding fs_ok_def table_ok_def by blast+

text \<open>An operation that changes one slot and the inode it stands for.\<close>

lemma fs_ok_update:
  assumes s: "fs_ok s" and t: "checked t" "stays s t" "untouched n s t" "itable t = (itable s)[ip := i]" "ip < NINODE"
    and i: "0 < ref i \<Longrightarrow> idev i = ROOTDEV \<and> inum i = n \<and> n < ninodes (sb s)" "0 < ref i \<Longrightarrow> ivalid i \<Longrightarrow> synced ip t"
    and u: "\<And>j. j < NINODE \<Longrightarrow> j \<noteq> ip \<Longrightarrow> 0 < ref (ino s j) \<Longrightarrow> inum (ino s j) \<noteq> n \<or> ref i = 0 \<and> \<not> ivalid (ino s j)"
  shows "fs_ok t"
proof -
  note f = fs_okD [OF s]
  have ino: "ino t j = (if j = ip then i else ino s j)" if "j < NINODE" for j using that t(4) f(5) by (simp add: ino_def)
  have S: "sb t = sb s" "cache_ok {} t" using t(2) by (simp_all add: stays_def)
  have "table_ok t" unfolding table_ok_def using f(5-7) u i(1) ino t(4) S(1) by (auto simp: Suc_leI) (metis less_irrefl)+
  moreover have "synced j t" if j: "j < NINODE" "0 < ref (ino t j)" "ivalid (ino t j)" for j
  proof (cases "j = ip")
    case False
    then have e: "ino t j = ino s j" using ino j(1) by simp
    then have y: "synced j s" "inum (ino s j) < ninodes (sb s)" using f(4) [of j] f(6) [of j] j by auto
    have "inum (ino s j) \<noteq> n" using u [OF j(1) False] j(2,3) e by auto
    then have "dino (inum (ino s j)) (sb s) (blocks t) = dino (inum (ino s j)) (sb s) (blocks s)"
      using t(3) y(2) by (simp add: untouched_def)
    then show ?thesis using y(1) e S(1) j(1) t(4) f(5) by (simp add: synced_def live_def)
  qed (use i(2) ino [OF j(1)] j in auto)
  ultimately show ?thesis using t(1) S by (simp add: fs_ok_def)
qed

text \<open>An operation on the table alone.\<close>

lemma fs_ok_slot:
  assumes s: "fs_ok s" and t: "step {} s (blocks s) ((itable s)[ip := i]) W t" and ip: "ip < NINODE" "0 < ref (ino s ip)"
    and i: "inum i = inum (ino s ip)" "idev i = idev (ino s ip)" "ivalid i \<Longrightarrow> to_dinode i = to_dinode (ino s ip) \<and> ivalid (ino s ip) \<or> synced ip t"
  shows "fs_ok t"
proof (rule fs_ok_update [OF s, where n = "inum (ino s ip)" and ip = ip and i = i])
  note f = fs_okD [OF s] and y = stepD [OF t]
  show "checked t" using f(1) y by (simp add: checked_def)
  show "stays s t" by (rule step_stays [OF t])
  show "untouched (inum (ino s ip)) s t" using y by (simp add: untouched_def)
  show "itable t = (itable s)[ip := i]" "ip < NINODE" using y ip by auto
  show "idev i = ROOTDEV \<and> inum i = inum (ino s ip) \<and> inum (ino s ip) < ninodes (sb s)" using i f(6) [OF ip] by simp
  show "synced ip t" if "ivalid i"
  proof -
    have it: "ino t ip = i" using y(3) ip(1) f(5) by (simp add: ino_def)
    show ?thesis using i(3) [OF that] f(4) [OF ip] it i(1,2) y f(5) by (auto simp: synced_def)
  qed
  show "inum (ino s j) \<noteq> inum (ino s ip) \<or> ref i = 0 \<and> \<not> ivalid (ino s j)" if "j < NINODE" "j \<noteq> ip" "0 < ref (ino s j)" for j
    using f(7) [OF that(1) ip(1) that(3) ip(2)] that(2) by blast
qed

section \<open>References and locks\<close>

lemma upd_step: "cache_ok {} s \<Longrightarrow> step {} s (blocks s) ((itable s)[ip := f (ino s ip)]) {} (upd_ino ip f s)"
  using step_table [OF step_refl, of "{}" s] by (simp add: upd_ino_def ino_def)

lemma find_slot:
  obtains (none) "List.find P [0..<n] = None" "\<And>i. i < n \<Longrightarrow> \<not> P i" | (some) i where "List.find P [0..<n] = Some i" "i < n" "P i"
proof (cases "List.find P [0..<n]")
  case None
  then show thesis by (intro none) (auto simp: find_None_iff)
next
  case (Some i)
  then show thesis by (intro some [of i]) (auto simp: find_Some_iff)
qed

lemma to_dinode_table [simp]:
  "to_dinode (i\<lparr>ilk := l\<rparr>) = to_dinode i" "to_dinode (i\<lparr>ref := r\<rparr>) = to_dinode i" "to_dinode (i\<lparr>ivalid := v\<rparr>) = to_dinode i"
  by (simp_all add: to_dinode_def)

lemma to_dinode_load [simp]: "to_dinode (load_inode d i) = d"
  by (cases d) (simp add: to_dinode_def load_inode_def)

lemma idup_ok: "fs_ok s \<Longrightarrow> ip < NINODE \<Longrightarrow> 0 < ref (ino s ip) \<Longrightarrow> fs_ok (idup ip s)"
  unfolding idup_def by (rule fs_ok_slot [OF _ upd_step]) (auto simp: fs_okD)

text \<open>The slot that \<open>iget\<close> gives: the one the inode has already, or a free one.\<close>

lemma iget_ok:
  assumes s: "fs_ok s" and n: "n < ninodes (sb s)" and r: "iget ROOTDEV n s = Some (ip, t)"
  shows "fs_ok t" "ip < NINODE" "inum (ino t ip) = n" "0 < ref (ino t ip)" "blocks t = blocks s" "stays s t" "logged t = logged s"
    "\<And>j. j < NINODE \<Longrightarrow> j \<noteq> ip \<Longrightarrow> ino t j = ino s j"
    "\<And>j. j < NINODE \<Longrightarrow> 0 < ref (ino s j) \<Longrightarrow> ino t j = (ino s j)\<lparr>ref := ref (ino s j) + of_bool (j = ip)\<rparr>"
proof -
  note f = fs_okD [OF s]
  let ?here = "\<lambda>ip. 0 < ref (ino s ip) \<and> idev (ino s ip) = ROOTDEV \<and> inum (ino s ip) = n"
  have "fs_ok t \<and> ip < NINODE \<and> inum (ino t ip) = n \<and> 0 < ref (ino t ip) \<and> (\<exists>i. t = upd_ino ip (\<lambda>_. i) s) \<and>
     (\<forall>j < NINODE. 0 < ref (ino s j) \<longrightarrow> ino t j = (ino s j)\<lparr>ref := ref (ino s j) + of_bool (j = ip)\<rparr>)"
  proof (cases rule: find_slot [of ?here NINODE])
    case (some i)
    then have t: "ip = i" "t = upd_ino i (\<lambda>i. i\<lparr>ref := ref i + 1\<rparr>) s" using r by (auto simp: iget_def)
    have "fs_ok t" using idup_ok [OF s some(2)] some(3) t(2) by (simp add: idup_def)
    moreover have "t = upd_ino ip (\<lambda>_. (ino s i)\<lparr>ref := ref (ino s i) + 1\<rparr>) s" using t by (simp add: upd_ino_def ino_def)
    moreover have "ino t j = (if j = i then (ino s i)\<lparr>ref := ref (ino s i) + 1\<rparr> else ino s j)" if "j < NINODE" for j
      using t f(5) that by (simp add: upd_ino_def ino_def)
    ultimately show ?thesis using some t(1) by auto
  next
    case none
    let ?i = "\<lambda>i. i\<lparr>idev := ROOTDEV, inum := n, ref := 1, ivalid := False\<rparr>"
    obtain i where i: "i < NINODE" "ref (ino s i) = 0" "ip = i" "t = upd_ino i ?i s"
    proof (cases rule: find_slot [of "\<lambda>ip. ref (ino s ip) = 0" NINODE])
      case (some i)
      then have "ip = i \<and> t = upd_ino i ?i s" using r none(1) by (auto simp: iget_def)
      then show thesis using that some(2,3) by blast
    qed (use r none(1) in \<open>simp add: iget_def\<close>)
    have ino: "ino t j = (if j = i then ?i (ino s i) else ino s j)" if "j < NINODE" for j
      using i f(5) that by (simp add: upd_ino_def ino_def)
    have st: "step {} s (blocks s) ((itable s)[i := ?i (ino s i)]) {} t" unfolding i(4) by (rule upd_step [OF f(2)])
    have "fs_ok t"
    proof (rule fs_ok_update [OF s, where n = n and ip = i and i = "?i (ino s i)"])
      show "inum (ino s j) \<noteq> n \<or> ref (?i (ino s i)) = 0 \<and> \<not> ivalid (ino s j)" if "j < NINODE" "j \<noteq> i" "0 < ref (ino s j)" for j
        using none(2) [OF that(1)] that(3) f(6) [OF that(1,3)] by auto
    qed (use st stepD [OF st] step_stays [OF st] f(1) n i in \<open>auto simp: checked_def untouched_def\<close>)
    moreover have "t = upd_ino ip (\<lambda>_. ?i (ino s i)) s" using i by (simp add: upd_ino_def ino_def)
    ultimately show ?thesis using i ino none(2) by auto
  qed
  then show "fs_ok t" "ip < NINODE" "inum (ino t ip) = n" "0 < ref (ino t ip)" "blocks t = blocks s" "stays s t" "logged t = logged s"
    "\<And>j. j < NINODE \<Longrightarrow> j \<noteq> ip \<Longrightarrow> ino t j = ino s j"
    "\<And>j. j < NINODE \<Longrightarrow> 0 < ref (ino s j) \<Longrightarrow> ino t j = (ino s j)\<lparr>ref := ref (ino s j) + of_bool (j = ip)\<rparr>"
    using f(2) by (auto simp: upd_ino_def ino_def stays_def)
qed

lemma iunlock_ok:
  assumes "fs_ok s" "ip < NINODE" "iunlock ip s = Some t"
  shows "fs_ok t" "t = upd_ino ip (\<lambda>i. i\<lparr>ilk := releasesleep (ilk i)\<rparr>) s"
proof -
  have r: "0 < ref (ino s ip)" and t: "t = upd_ino ip (\<lambda>i. i\<lparr>ilk := releasesleep (ilk i)\<rparr>) s"
    using assms(3) by (auto simp: iunlock_def split: if_splits)
  show "fs_ok t" unfolding t by (rule fs_ok_slot [OF assms(1) upd_step assms(2) r]) (auto simp: fs_okD [OF assms(1)])
qed (use assms(3) in \<open>auto simp: iunlock_def split: if_splits\<close>)

lemma ilock_ok:
  assumes s: "fs_ok s" and ip: "ip < NINODE" and r: "ilock ip s = Some t" and sl: "slack s"
  shows "fs_ok t" "synced ip t" "ivalid (ino t ip)" "blocks t = blocks s" "logged t = logged s" "stays s t"
    "inum (ino t ip) = inum (ino s ip)" "ref (ino t ip) = ref (ino s ip)" "holdingsleep (me (ls t)) (ilk (ino t ip))"
proof -
  note f = fs_okD [OF s]
  have ref: "0 < ref (ino s ip)" using r by (auto simp: ilock_def split: if_splits)
  obtain lk where lk: "acquiresleep (me (ls s)) (ilk (ino s ip)) = Some lk" using r by (auto simp: ilock_def split: if_splits bind_splits)
  define s1 where "s1 = upd_ino ip (\<lambda>i. i\<lparr>ilk := lk\<rparr>) s"
  have i1: "ino s1 ip = (ino s ip)\<lparr>ilk := lk\<rparr>" using ip f(5) by (simp add: s1_def upd_ino_def ino_def)
  have 1: "step {} s (blocks s) ((itable s)[ip := (ino s ip)\<lparr>ilk := lk\<rparr>]) {} s1" unfolding s1_def by (rule upd_step [OF f(2)])
  note n = f(6) [OF ip ref] and h = acquire_holding [OF lk]
  let ?d = "dino (inum (ino s ip)) (sb s) (blocks s)"
  have "\<exists>i. step {} s (blocks s) ((itable s)[ip := i]) {} t \<and> inum i = inum (ino s ip) \<and> idev i = idev (ino s ip) \<and> ref i = ref (ino s ip) \<and>
     ilk i = lk \<and> ivalid i \<and> to_dinode i = ?d \<and> itype i \<noteq> 0"
  proof (cases "ivalid (ino s ip)")
    case True
    then have "t = s1" using r lk ref i1 by (simp add: ilock_def Let_def flip: s1_def)
    moreover have "synced ip s" by (rule f(4) [OF ip ref True])
    ultimately show ?thesis using 1 True synced_dino(7) [of ip s]
      by (intro exI [of _ "(ino s ip)\<lparr>ilk := lk\<rparr>"]) (simp add: synced_def)
  next
    case False
    let ?b = "IBLOCK (inum (ino s ip)) (sb s)"
    let ?i = "(load_inode ?d (ino s1 ip))\<lparr>ivalid := True\<rparr>"
    have sl1: "slack s1" and c1: "cache_ok {} s1" using sl stepD(1,4) [OF 1] by (simp_all add: slack_def)
    obtain bp v where o: "fbread ROOTDEV ?b s1 = Some (bp, v)" "bopen {} s1 ?b bp v"
      using fbread_bopen [OF c1 _ sl1, of ?b] by (auto simp: does_def)
    note v = bopenD [OF o(2)]
    let ?v = "upd_ino ip (load_inode (get_dinode (bdata bp v) (inum (ino v ip) mod IPB))) v"
    have d: "get_dinode (bdata bp v) (inum (ino v ip) mod IPB) = ?d" using v(3,8) i1 stepD(2) [OF 1] by (simp add: dino_def)
    have "step {?b} v (blocks s1) (itable ?v) {} ?v"
      using step_table [OF bopen_self [OF o(2)], of "itable ?v"] by (simp add: upd_ino_def)
    from close_block [OF o(2) this] obtain w where w: "fbrelse bp ?v = Some w" "step {} s1 (blocks s1) (itable ?v) {} w"
      by (auto simp: does_def)
    let ?w = "upd_ino ip (\<lambda>i. i\<lparr>ivalid := True\<rparr>) w"
    have il: "itable ?v = (itable s)[ip := load_inode ?d (ino s1 ip)]"
      using v(7) stepD(3) [OF 1] unfolding d by (simp add: upd_ino_def v(8) [symmetric] ino_def)
    have iw: "ino ?w ip = ?i" "itable ?w = (itable s)[ip := ?i]"
      using stepD(3) [OF w(2)] il ip f(5) by (simp_all add: upd_ino_def ino_def)
    have "t = ?w" "itype ?i \<noteq> 0" using r lk ref i1 False n o(1) w(1) iw stepD(5) [OF 1] v(8)
      by (auto simp: ilock_def Let_def split: if_splits simp flip: s1_def)
    moreover have "step {} s (blocks s) ((itable s)[ip := ?i]) {} ?w"
      using step_table [OF step_trans [OF 1 w(2)], of "itable ?w"] stepD(2) [OF 1] iw(2) by (simp add: upd_ino_def)
    ultimately show ?thesis using i1 by (intro exI [of _ ?i]) (simp add: load_inode_def to_dinode_def)
  qed
  then obtain i where i: "step {} s (blocks s) ((itable s)[ip := i]) {} t" "inum i = inum (ino s ip)" "idev i = idev (ino s ip)" "ref i = ref (ino s ip)"
    "ilk i = lk" "ivalid i" "to_dinode i = ?d" "itype i \<noteq> 0" by blast
  note y = stepD [OF i(1)]
  have it: "ino t ip = i" using y(3) ip f(5) by (simp add: ino_def)
  have "dtype ?d \<noteq> 0" using i(7,8) by (metis dinode.select_convs(1) to_dinode_def)
  then show sy: "synced ip t" using y it i n ip f(5) by (simp add: synced_def live_def)
  then show "fs_ok t" using fs_ok_slot [OF s i(1) ip ref i(2,3)] by blast
  show "ivalid (ino t ip)" "blocks t = blocks s" "logged t = logged s" "stays s t" "inum (ino t ip) = inum (ino s ip)" "ref (ino t ip) = ref (ino s ip)"
    "holdingsleep (me (ls t)) (ilk (ino t ip))" using y it i step_stays [OF i(1)] h by auto
qed

section \<open>Allocating and freeing inodes\<close>

lemma consistent_empty:
  assumes c: "consistent st S D" and n: "n < ninodes S" "blocks_of n S D = {}" and d: "daddrs d = no_blocks" "dsize d = 0"
  shows "consistent st S (put_dino n S d D)" "dino n S (put_dino n S d D) = d"
    "m \<noteq> n \<Longrightarrow> m < ninodes S \<Longrightarrow> dino m S (put_dino n S d D) = dino m S D"
    "b \<in> blocks_of m S D \<Longrightarrow> put_dino n S d D b = D b"
proof -
  let ?E = "put_dino n S d D"
  note S = consistentD(1,2) [OF c]
  have l: "length (daddrs d) = NDIRECT + 1" using d by simp
  note p = dino_put [OF S(2) l n(1)]
  show me: "dino n S ?E = d" and others: "\<And>m. m \<noteq> n \<Longrightarrow> m < ninodes S \<Longrightarrow> dino m S ?E = dino m S D" using p by simp_all
  show keep: "?E b = D b" if "b \<in> blocks_of m S D" for m b
  proof -
    have m: "live m S D" "b \<in> owned D (file_addrs m S D)" using that by (auto simp: blocks_of_def split: if_splits)
    show ?thesis using owned_not_meta [OF consistentD(3) [OF c m(1)] m(2)] put_other [of b S n] n(1) by simp
  qed
  have E: "blocks_of n S ?E = {}" using me d no_blocks_file(2) by (simp add: blocks_of_def)
  show "consistent st S ?E"
    by (rule consistent_change [OF c sound_put [OF S(2,1) l n(1)] others keep])
      (use used_put [OF S(1) n(1)] me d no_blocks_file E n(2) in auto)
qed

lemma checked_empty:
  assumes c: "checked s" and t: "step {} s (put_dino n (sb s) d (blocks s)) T W t"
    and n: "n < ninodes (sb s)" "blocks_of n (sb s) (blocks s) = {}" and d: "daddrs d = no_blocks" "dsize d = 0"
  shows "checked t" "untouched n s t" "dino n (sb s) (blocks t) = d" "stays s t"
  using consistent_empty [OF c [unfolded checked_def] n d] stepD [OF t] step_stays [OF t]
  by (auto simp: checked_def untouched_def)

definition new_dinode :: "16 word \<Rightarrow> dinode" where
  "new_dinode ty = zero_dinode\<lparr>dtype := ty\<rparr>"

lemma ialloc_loop_ok:
  assumes "fs_ok s" "set ns \<subseteq> {1..<ninodes (sb s)}" "room M k s" "ialloc_loop ROOTDEV ty ns s = Some (r, t)"
  shows "(case r of
      None \<Rightarrow> step {} s (blocks s) (itable s) {} t \<and> (\<forall>n \<in> set ns. live n (sb s) (blocks s))
    | Some ip \<Rightarrow> \<exists>n u. n \<in> set ns \<and> \<not> live n (sb s) (blocks s) \<and>
        step {} s (put_dino n (sb s) (new_dinode ty) (blocks s)) (itable s) {IBLOCK n (sb s)} u \<and> iget ROOTDEV n u = Some (ip, t))"
  using assms
proof (induction ns arbitrary: s)
  case Nil
  then show ?case by (auto simp: step_refl fs_okD)
next
  case (Cons n ns)
  let ?b = "IBLOCK n (sb s)"
  note f = fs_okD [OF Cons.prems(1)]
  have n: "n < ninodes (sb s)" using Cons.prems(2) by auto
  have fs: "fs_block (start (ls s)) ?b"
    using geometry_block(1) inodeblocks_in [OF n] checked_volume [OF f(1)] by (auto simp: volume_def)
  obtain bp v where o: "fbread ROOTDEV ?b s = Some (bp, v)" "bopen {} s ?b bp v"
    using fbread_bopen [OF f(2) _ room_slack [OF Cons.prems(3)], of ?b] by (auto simp: does_def)
  have d: "get_dinode (bdata bp v) (n mod IPB) = dino n (sb s) (blocks s)" using bopenD(3) [OF o(2)] by (simp add: dino_def)
  show ?case
  proof (cases "dtype (dino n (sb s) (blocks s)) = 0")
    case True
    have rv: "room M k v" using bopenD(13) [OF o(2)] Cons.prems(3) by simp
    let ?x = "put_dinode (n mod IPB) (new_dinode ty) (bdata bp v)"
    obtain w where w: "flog_write bp ?x v = Some w" "step {?b} v ((blocks s)(?b := ?x)) (itable s) {?b} w"
      using write_bopen [OF o(2) bopen_self [OF o(2)] fs rv, of ?x] by (auto simp: does_def)
    obtain u where u: "fbrelse bp w = Some u" "step {} s ((blocks s)(?b := ?x)) (itable s) {?b} u"
      using close_block [OF o(2) w(2)] by (auto simp: does_def)
    have "(blocks s)(?b := ?x) = put_dino n (sb s) (new_dinode ty) (blocks s)" using bopenD(3) [OF o(2)] by (simp add: put_dino_def)
    moreover obtain ip where "iget ROOTDEV n u = Some (ip, t)" "r = Some ip"
      using Cons.prems(4) o(1) w(1) u(1) True d by (auto simp: new_dinode_def split: bind_splits)
    ultimately show ?thesis using u(2) True by (auto simp: live_def intro!: exI [of _ n] exI [of _ u])
  next
    case False
    obtain u where u: "fbrelse bp v = Some u" "step {} s (blocks s) (itable s) {} u"
      using close_block [OF o(2) bopen_self [OF o(2)]] by (auto simp: does_def)
    note y = stepD [OF u(2)]
    have fu: "fs_ok u" using Cons.prems(1) y ino_step [OF u(2)] by (simp add: fs_ok_def checked_def table_ok_def synced_def)
    have l: "ialloc_loop ROOTDEV ty ns u = Some (r, t)" using Cons.prems(4) o(1) u(1) False d by simp
    have ru: "room M k u" using Cons.prems(3) y by (simp add: room_def)
    note ih = Cons.IH [OF fu _ ru l]
    have "\<exists>n'\<in>set ns. \<exists>w. \<not> live n' (sb s) (blocks s) \<and>
        step {} s (put_dino n' (sb s) (new_dinode ty) (blocks s)) (itable s) {IBLOCK n' (sb s)} w \<and> iget ROOTDEV n' w = Some (ip, t)" if "r = Some ip" for ip
      using ih that Cons.prems(2) y step_trans [OF u(2)] by fastforce
    note some = this
    show ?thesis
    proof (cases r)
      case None
      then show ?thesis using ih Cons.prems(2) y False n step_trans [OF u(2)] by (auto simp: live_def)
    next
      case (Some ip)
      then show ?thesis using some [OF Some] by auto
    qed
  qed
qed

lemma new_dinode [simp]: "daddrs (new_dinode ty) = no_blocks" "dsize (new_dinode ty) = 0" "dtype (new_dinode ty) = ty"
  by (simp_all add: new_dinode_def zero_dinode_def)

lemma ialloc_ok:
  assumes s: "fs_ok s" "room M k s" and r: "ialloc ROOTDEV ty s = Some (r, t)" and ty: "ty \<noteq> 0"
  shows "fs_ok t" "stays s t" "r = None \<Longrightarrow> blocks t = blocks s \<and> (\<forall>n. 1 \<le> n \<and> n < ninodes (sb s) \<longrightarrow> live n (sb s) (blocks s))"
    "r = Some ip \<Longrightarrow> ip < NINODE \<and> 0 < ref (ino t ip) \<and> \<not> live (inum (ino t ip)) (sb s) (blocks s) \<and>
       dino (inum (ino t ip)) (sb s) (blocks t) = new_dinode ty \<and> untouched (inum (ino t ip)) s t \<and> logged t = insert (IBLOCK (inum (ino t ip)) (sb s)) (logged s)"
proof -
  note f = fs_okD [OF s(1)]
  note l = ialloc_loop_ok [OF s(1) _ s(2) r [unfolded ialloc_def]]
  have "fs_ok t \<and> stays s t \<and> (r = None \<longrightarrow> blocks t = blocks s \<and> (\<forall>n. 1 \<le> n \<and> n < ninodes (sb s) \<longrightarrow> live n (sb s) (blocks s))) \<and>
    (\<forall>ip. r = Some ip \<longrightarrow> ip < NINODE \<and> 0 < ref (ino t ip) \<and> \<not> live (inum (ino t ip)) (sb s) (blocks s) \<and>
       dino (inum (ino t ip)) (sb s) (blocks t) = new_dinode ty \<and> untouched (inum (ino t ip)) s t \<and> logged t = insert (IBLOCK (inum (ino t ip)) (sb s)) (logged s))"
  proof (cases r)
    case None
    then have t: "step {} s (blocks s) (itable s) {} t" "\<forall>n \<in> {1..<ninodes (sb s)}. live n (sb s) (blocks s)" using l by auto
    note y = stepD [OF t(1)]
    have "fs_ok t" using s(1) y ino_step [OF t(1)] by (simp add: fs_ok_def checked_def table_ok_def synced_def)
    then show ?thesis using None t(2) y(2) step_stays [OF t(1)] by auto
  next
    case (Some ip)
    then obtain n u where u: "n < ninodes (sb s)" "\<not> live n (sb s) (blocks s)" "iget ROOTDEV n u = Some (ip, t)"
      "step {} s (put_dino n (sb s) (new_dinode ty) (blocks s)) (itable s) {IBLOCK n (sb s)} u"
      using l by auto
    note c = checked_empty [OF f(1) u(4,1)] and y = stepD [OF u(4)]
    have b: "blocks_of n (sb s) (blocks s) = {}" using u(2) by (simp add: blocks_of_def)
    note c = c [OF b new_dinode(1,2)]
    have "fs_ok u"
      unfolding fs_ok_def
    proof (intro conjI allI impI)
      show "checked u" "cache_ok {} u" "table_ok u" using c(1) y f(3) ino_step [OF u(4)] by (auto simp: table_ok_def)
      fix j assume j: "j < NINODE" "0 < ref (ino u j)" "ivalid (ino u j)"
      then have sj: "synced j s" "inum (ino s j) < ninodes (sb s)" using f(4) [of j] f(6) [of j] ino_step [OF u(4)] by auto
      then have "inum (ino s j) \<noteq> n" using u(2) by (auto simp: synced_def)
      then show "synced j u" using sj c(2) y ino_step [OF u(4)] by (simp add: synced_def untouched_def live_def)
    qed
    note g = iget_ok [OF this _ u(3)]
    have "n < ninodes (sb u)" using u(1) y by simp
    note g = g [OF this]
    show ?thesis using Some g c y u(1,2) by (auto simp: stays_def untouched_def)
  qed
  then show "fs_ok t" "stays s t" "r = None \<Longrightarrow> blocks t = blocks s \<and> (\<forall>n. 1 \<le> n \<and> n < ninodes (sb s) \<longrightarrow> live n (sb s) (blocks s))"
    "r = Some ip \<Longrightarrow> ip < NINODE \<and> 0 < ref (ino t ip) \<and> \<not> live (inum (ino t ip)) (sb s) (blocks s) \<and>
       dino (inum (ino t ip)) (sb s) (blocks t) = new_dinode ty \<and> untouched (inum (ino t ip)) s t \<and> logged t = insert (IBLOCK (inum (ino t ip)) (sb s)) (logged s)"
    by blast+
qed

end
