(* ===== verification/Fs_Ops.thy ===== *)
theory Fs_Ops
  imports Fs_Table
begin

text \<open>
  Dropping a reference to an inode, and reading, writing, truncating and linking one, keep the
  invariant of the file system. The steps of the file system, transactions and commits among
  them, and what a crash leaves.
\<close>

section \<open>Dropping a reference\<close>

lemma ifree_ok:
  assumes s: "volume s" "cache_ok {} s" "room M k s" and n: "n < ninodes (sb s)"
  shows "does (ifree ROOTDEV n s) (step {} s (put_dino n (sb s) ((dino n (sb s) (blocks s))\<lparr>dtype := 0\<rparr>) (blocks s)) (itable s) {IBLOCK n (sb s)})"
proof -
  let ?b = "IBLOCK n (sb s)"
  have fs: "fs_block (start (ls s)) ?b" using geometry_block(1) inodeblocks_in [OF n] s(1) by (auto simp: volume_def)
  have e: "put_dinode (n mod IPB) ((get_dinode (bdata i t) (n mod IPB))\<lparr>dtype := 0\<rparr>) (bdata i t) =
      put_dinode (n mod IPB) ((dino n (sb s) (blocks s))\<lparr>dtype := 0\<rparr>) (blocks s ?b)" if "bopen {} s ?b i t" for i t
    using bopenD(3) [OF that] by (simp add: dino_def)
  show ?thesis using change_block [OF s(2) _ fs s(3) _ e] by (simp add: ifree_def put_dino_def case_prod_unfold)
qed

lemma truncated_ok:
  assumes s: "fs_ok s" and ip: "ip < NINODE" "0 < ref (ino s ip)" and t: "truncated M ip s t"
  shows "fs_ok t"
proof (rule fs_ok_update [OF s, where n = "inum (ino s ip)" and ip = ip and i = "(ino s ip)\<lparr>addrs := no_blocks, isize := 0\<rparr>"])
  show "inum (ino s j) \<noteq> inum (ino s ip) \<or> ref ((ino s ip)\<lparr>addrs := no_blocks, isize := 0\<rparr>) = 0 \<and> \<not> ivalid (ino s j)"
    if "j < NINODE" "j \<noteq> ip" "0 < ref (ino s j)" for j using fs_okD(7) [OF s that(1) ip(1) that(3) ip(2)] that(2) by blast
qed (use t ip fs_okD(6) [OF s ip] in \<open>auto simp: truncated_def\<close>)

definition last_ref :: "nat \<Rightarrow> fsst \<Rightarrow> bool" where
  "last_ref ip s \<longleftrightarrow> ref (ino s ip) = 1 \<and> ivalid (ino s ip) \<and> nlink (ino s ip) = 0"

lemma iput_free:
  assumes s: "fs_ok s" and ip: "ip < NINODE" "ref (ino s ip) = 1" "synced ip s" "addrs (ino s ip) = no_blocks" "isize (ino s ip) = 0" and M: "room M k s"
  shows "does (ifree ROOTDEV (inum (ino s ip)) (upd_ino ip (\<lambda>i. i\<lparr>ref := ref i - 1\<rparr>) (upd_ino ip (\<lambda>i. i\<lparr>ivalid := False, ilk := releasesleep (ilk i)\<rparr>) s)))
    (\<lambda>t. fs_ok t \<and> stays s t \<and> untouched (inum (ino s ip)) s t \<and> \<not> live (inum (ino s ip)) (sb s) (blocks t) \<and> ref (ino t ip) = 0 \<and>
       logged t = insert (IBLOCK (inum (ino s ip)) (sb s)) (logged s))"
proof -
  let ?n = "inum (ino s ip)" and ?i = "(ino s ip)\<lparr>ivalid := False, ilk := releasesleep (ilk (ino s ip)), ref := 0\<rparr>"
  define u where "u = upd_ino ip (\<lambda>i. i\<lparr>ref := ref i - 1\<rparr>) (upd_ino ip (\<lambda>i. i\<lparr>ivalid := False, ilk := releasesleep (ilk i)\<rparr>) s)"
  note f = fs_okD [OF s] and d = synced_dino [OF ip(3)]
  have ue: "u = upd_ino ip (\<lambda>_. ?i) s" using ip(1,2) f(5) by (simp add: u_def upd_ino_def ino_def)
  have u: "step {} s (blocks s) ((itable s)[ip := ?i]) {} u" unfolding ue by (rule upd_step [OF f(2)])
  note y = stepD [OF u]
  have b: "blocks_of ?n (sb s) (blocks s) = {}" using d(1) ip(4) no_blocks_file(2) by (simp add: blocks_of_def)
  let ?d = "(dino ?n (sb s) (blocks s))\<lparr>dtype := 0\<rparr>"
  have dd: "daddrs ?d = no_blocks" "dsize ?d = 0" using d(1,2) ip(4,5) by simp_all
  have fin: "fs_ok t \<and> stays s t \<and> untouched ?n s t \<and> \<not> live ?n (sb s) (blocks t) \<and> ref (ino t ip) = 0 \<and> logged t = insert (IBLOCK ?n (sb s)) (logged s)"
    if t: "step {} u (put_dino ?n (sb s) ?d (blocks s)) (itable u) {IBLOCK ?n (sb s)} t" for t
  proof -
    note st = step_trans [OF u t]
    note c = checked_empty [OF f(1) st d(4) b dd] and z = stepD [OF st]
    have "fs_ok t"
    proof (rule fs_ok_update [OF s c(1,4,2), where ip = ip and i = ?i])
      show "inum (ino s j) \<noteq> ?n \<or> ref ?i = 0 \<and> \<not> ivalid (ino s j)" if "j < NINODE" "j \<noteq> ip" "0 < ref (ino s j)" for j
        using f(7) [OF that(1) ip(1) that(3)] that(2) ip(2) by auto
    qed (use z y ip(1) in auto)
    moreover have "ref (ino t ip) = 0" using z(3) y(3) ip(1) f(5) by (simp add: ino_def)
    ultimately show ?thesis using c z(4) by (simp add: live_def)
  qed
  have "volume u" using checked_volume [OF f(1)] y by (simp add: volume_def)
  then have "does (ifree ROOTDEV ?n u) (step {} u (put_dino ?n (sb s) ?d (blocks s)) (itable u) {IBLOCK ?n (sb s)})"
    using ifree_ok [of u M k ?n] y M d(4) by (simp add: room_def)
  then show ?thesis unfolding u_def [symmetric] by (rule does_mono) (rule fin)
qed

text \<open>An unlinked inode without a reference is freed, with its blocks.\<close>

lemma iput_last:
  assumes s: "fs_ok s" and ip: "ip < NINODE" "last_ref ip s" and M: "room M k s" "mapblocks (sb s) \<subseteq> M" "IBLOCK (inum (ino s ip)) (sb s) \<in> M"
    and r: "iput ip s = Some t"
  shows "fs_ok t" "stays s t" "untouched (inum (ino s ip)) s t" "\<not> live (inum (ino s ip)) (sb s) (blocks t)" "ref (ino t ip) = 0" "logged t \<subseteq> logged s \<union> M"
proof -
  let ?n = "inum (ino s ip)"
  note f = fs_okD [OF s]
  have ref: "0 < ref (ino s ip)" using ip(2) by (simp add: last_ref_def)
  note n = f(6) [OF ip(1) ref]
  obtain lk where lk: "acquiresleep (me (ls s)) (ilk (ino s ip)) = Some lk" using r ip(2) by (auto simp: iput_def last_ref_def Let_def split: bind_splits)
  define s1 where "s1 = upd_ino ip (\<lambda>i. i\<lparr>ilk := lk\<rparr>) s"
  have 1: "step {} s (blocks s) ((itable s)[ip := (ino s ip)\<lparr>ilk := lk\<rparr>]) {} s1" unfolding s1_def by (rule upd_step [OF f(2)])
  note y1 = stepD [OF 1]
  have i1: "ino s1 ip = (ino s ip)\<lparr>ilk := lk\<rparr>" using y1(3) ip(1) f(5) by (simp add: ino_def)
  have f1: "fs_ok s1" by (rule fs_ok_slot [OF s 1 ip(1) ref]) auto
  have sy: "synced ip s1" using fs_okD(4) [OF f1 ip(1)] i1 ref ip(2) by (simp add: last_ref_def)
  have M1: "room M k s1" "mapblocks (sb s1) \<subseteq> M" "IBLOCK (inum (ino s1 ip)) (sb s1) \<in> M" using M y1 i1 by (simp_all add: room_def)
  obtain s2 where 2: "itrunc ip s1 = Some s2" "truncated M ip s1 s2"
    using itrunc_ok [OF fs_okD(1,2) [OF f1] sy M1] by (auto simp: does_def)
  note t2 = 2(2) [unfolded truncated_def]
  have f2: "fs_ok s2" by (rule truncated_ok [OF f1 ip(1) _ 2(2)]) (use ref i1 in simp)
  have i2: "ino s2 ip = (ino s1 ip)\<lparr>addrs := no_blocks, isize := 0\<rparr>" using t2 ip(1) fs_okD(5) [OF f1] by (simp add: ino_def)
  have y2: "logged s2 \<subseteq> logged s \<union> M" "stays s1 s2" "untouched ?n s1 s2" using t2 y1(4) i1 by auto
  have "room M k s2" using room_within [OF M1(1) y2(2)] t2 by blast
  have e: "iput ip s = ifree ROOTDEV ?n (upd_ino ip (\<lambda>i. i\<lparr>ref := ref i - 1\<rparr>) (upd_ino ip (\<lambda>i. i\<lparr>ivalid := False, ilk := releasesleep (ilk i)\<rparr>) s2))"
    using lk 2(1) ip(2) n by (simp add: iput_def Let_def last_ref_def flip: s1_def)
  have "fs_ok t \<and> stays s2 t \<and> untouched ?n s2 t \<and> \<not> live ?n (sb s2) (blocks t) \<and> ref (ino t ip) = 0 \<and> logged t = insert (IBLOCK ?n (sb s2)) (logged s2)"
    using iput_free [OF f2 ip(1) _ _ _ _ \<open>room M k s2\<close>] t2 i1 i2 ip(2) r e by (simp add: does_def last_ref_def)
  moreover have "stays s s2" "sb s2 = sb s" "untouched ?n s s2"
    using stays_trans [OF step_stays [OF 1] y2(2)] y2(2,3) y1 by (simp_all add: stays_def untouched_def)
  ultimately show "fs_ok t" "stays s t" "untouched ?n s t" "\<not> live ?n (sb s) (blocks t)" "ref (ino t ip) = 0" "logged t \<subseteq> logged s \<union> M"
    using stays_trans [of s s2 t] untouched_trans [of ?n s s2 t] y2(1) M(3) by auto
qed

lemma iput_ok:
  assumes s: "fs_ok s" and ip: "ip < NINODE" "0 < ref (ino s ip)" and M: "room M k s" "mapblocks (sb s) \<subseteq> M" "IBLOCK (inum (ino s ip)) (sb s) \<in> M"
    and r: "iput ip s = Some t"
  shows "fs_ok t" "stays s t" "untouched (inum (ino s ip)) s t" "logged t \<subseteq> logged s \<union> M"
proof -
  have "fs_ok t \<and> stays s t \<and> untouched (inum (ino s ip)) s t \<and> logged t \<subseteq> logged s \<union> M"
  proof (cases "last_ref ip s")
    case True
    then show ?thesis using iput_last [OF s ip(1) _ M r] by blast
  next
    case False
    then have t: "t = upd_ino ip (\<lambda>i. i\<lparr>ref := ref i - 1\<rparr>) s" using r by (auto simp: iput_def Let_def last_ref_def split: if_splits)
    have u: "step {} s (blocks s) ((itable s)[ip := (ino s ip)\<lparr>ref := ref (ino s ip) - 1\<rparr>]) {} t"
      unfolding t by (rule upd_step [OF fs_okD(2) [OF s]])
    have "fs_ok t" by (rule fs_ok_slot [OF s u ip]) auto
    then show ?thesis using step_stays [OF u] stepD [OF u] by (simp add: untouched_def)
  qed
  then show "fs_ok t" "stays s t" "untouched (inum (ino s ip)) s t" "logged t \<subseteq> logged s \<union> M" by blast+
qed

section \<open>Contents\<close>

lemma valid_slot:
  assumes "fs_ok s" "ip < NINODE" "0 < ref (ino s ip)" "ivalid (ino s ip)"
  shows "synced ip s" "j < NINODE \<Longrightarrow> j \<noteq> ip \<Longrightarrow> 0 < ref (ino s j) \<Longrightarrow> inum (ino s j) \<noteq> inum (ino s ip)"
  using fs_okD(4,7) [OF assms(1)] assms by blast+

lemma file_write_ok:
  assumes s: "fs_ok s" and ip: "ip < NINODE" "0 < ref (ino s ip)" "ivalid (ino s ip)" and t: "file_write M c ip s off bs z t"
  shows "fs_ok t"
proof -
  obtain as where it: "itable t = (itable s)[ip := (ino s ip)\<lparr>addrs := as, isize := of_nat z\<rparr>]" using t by (auto simp: file_write_def)
  note v = valid_slot [OF s ip]
  show ?thesis
    by (rule fs_ok_update [OF s _ _ _ it ip(1), where n = "inum (ino s ip)"])
      (use t v fs_okD(6) [OF s ip(1,2)] in \<open>auto simp: file_write_def\<close>)
qed

text \<open>Whatever the copies to the destination do, reading changes nothing but the buffers.\<close>

lemma readi_loop_quiet:
  assumes "cache_ok {} s" "slack s" "file_at ip s" "backed (blocks s) (addrs (ino s ip)) (off + (n - tot))"
    "readi_loop cp ip user dst off tot n m s = Some (r, m', t)"
  shows "step {} s (blocks s) (itable s) {} t"
  using assms
proof (induction cp ip user dst off tot n m s rule: readi_loop.induct)
  case (1 cp ip user dst off tot n m s)
  let ?a = "addr (blocks s) (addrs (ino s ip)) (off div BSIZE)" and ?k = "transfer off (n - tot)"
  show ?case
  proof (cases "tot < n")
    case False
    then show ?thesis using "1.prems" by (simp add: readi_loop.simps step_refl)
  next
    case True
    have a: "?a \<noteq> 0" "off div BSIZE < MAXFILE" using backed_block [OF "1.prems"(4), of off] True by auto
    obtain u where u: "bmap ip (off div BSIZE) s = Some (?a, u)" "step {} s (blocks s) (itable s) {} u"
      using bmap_there [OF "1.prems"(1-3) a(2,1)] by (auto simp: does_def)
    note y = stepD [OF u(2)] and i = ino_step [OF u(2)]
    have sl: "slack u" "idev (ino u ip) = ROOTDEV" using "1.prems"(2,3) y i by (simp_all add: slack_def file_at_def)
    obtain bp v w where v: "fbread ROOTDEV ?a u = Some (bp, v)" "fbrelse bp v = Some w" "step {} u (blocks u) (itable u) {} w"
      using read_through [OF y(1) sl(1), of ?a] by (auto simp: does_def)
    obtain r1 m1 where c: "cp user dst (take ?k (drop (off mod BSIZE) (bytes_of (bdata bp v)))) m = (r1, m1)" by fastforce
    have p: "read_part cp ip user dst off ?k ?a m u = Some (r1, m1, w)" using v sl(2) c by (simp add: read_part_def)
    have w: "step {} s (blocks s) (itable s) {} w" using step_trans [OF u(2) v(3)] y by simp
    show ?thesis
    proof (cases "r1 = - 1")
      case True
      then show ?thesis using "1.prems"(5) u(1) p w a(1) \<open>tot < n\<close> by (simp add: readi_loop.simps [of cp ip user dst off tot] Let_def)
    next
      case False
      note z = stepD [OF w] and iw = ino_step [OF w]
      have l: "readi_loop cp ip user (dst + of_nat ?k) (off + ?k) (tot + ?k) n m1 w = Some (r, m', t)"
        using "1.prems"(5) u(1) p a(1) True False by (simp add: readi_loop.simps [of cp ip user dst off tot] Let_def)
      have k: "?k \<le> n - tot" by (rule transfer_block(2))
      have "step {} w (blocks w) (itable w) {} t"
        by (rule "1.IH" [OF True u(1) refl a(1) refl p refl refl False _ _ _ _ l])
          (use "1.prems"(2-4) z iw k in \<open>auto simp: slack_def file_at_def backed_def\<close>)
      then show ?thesis using step_trans [OF w] z by simp
    qed
  qed
qed

lemma fs_ok_same:
  assumes "fs_ok s" "step {} s (blocks s) (itable s) W t"
  shows "fs_ok t"
  using assms(1) stepD [OF assms(2)] ino_step [OF assms(2)] by (simp add: fs_ok_def checked_def table_ok_def synced_def)

lemma readi_quiet:
  assumes s: "fs_ok s" and ip: "ip < NINODE" "0 < ref (ino s ip)" "ivalid (ino s ip)" and sl: "slack s"
    and r: "readi cp ip user dst off n m s = Some (r, m', t)"
  shows "step {} s (blocks s) (itable s) {} t"
proof (cases "isize (ino s ip) < off \<or> off + n < off")
  case True
  then show ?thesis using r fs_okD(2) [OF s] by (auto simp: readi_def Let_def step_refl)
next
  case False
  let ?sz = "isize (ino s ip)" let ?n = "if off + n > ?sz then ?sz - off else n"
  note y = valid_slot(1) [OF s ip] and f = synced_file [OF fs_okD(1) [OF s] valid_slot(1) [OF s ip]]
  have o: "off \<le> ?sz" "unat (off + n) = unat off + unat n" using False by (auto simp: not_less unat_plus_simple)
  then have "unat off + unat ?n \<le> unat ?sz" using unat_sub [OF o(1)] by (auto simp: word_less_nat_alt word_le_nat_alt)
  then have b: "backed (blocks s) (addrs (ino s ip)) (unat off + (unat ?n - 0))" using f(2) by (auto simp: backed_def)
  have l: "readi_loop cp ip user dst (unat off) 0 (unat ?n) m s = Some (r, m', t)" using r False by (simp add: readi_def Let_def)
  show ?thesis by (rule readi_loop_quiet [OF fs_okD(2) [OF s] sl f(1) b l])
qed

text \<open>Changing the number of links and writing the inode back.\<close>

lemma link_ok:
  assumes s: "fs_ok s" and ip: "ip < NINODE" "0 < ref (ino s ip)" "ivalid (ino s ip)" and M: "room M k s"
    and r: "iupdate ip (upd_ino ip (\<lambda>i. i\<lparr>nlink := l\<rparr>) s) = Some t"
  shows "fs_ok t" "stays s t" "untouched (inum (ino s ip)) s t" "logged t = insert (IBLOCK (inum (ino s ip)) (sb s)) (logged s)"
proof -
  let ?n = "inum (ino s ip)" and ?i = "(ino s ip)\<lparr>nlink := l\<rparr>"
  define u where "u = upd_ino ip (\<lambda>i. i\<lparr>nlink := l\<rparr>) s"
  note f = fs_okD [OF s] and v = valid_slot [OF s ip]
  note d = synced_dino [OF v(1)]
  have u: "step {} s (blocks s) ((itable s)[ip := ?i]) {} u" unfolding u_def by (rule upd_step [OF f(2)])
  note y = stepD [OF u]
  have iu: "ino u ip = ?i" using y(3) ip(1) f(5) by (simp add: ino_def)
  have c: "consistent (start (ls s)) (sb s) (blocks s)" using f(1) by (simp add: checked_def)
  have l: "live ?n (sb s) (blocks s)" using v(1) by (simp add: synced_def)
  have g: "grew (start (ls s)) (sb s) (blocks s) (file_addrs ?n (sb s) (blocks s)) (blocks s) (daddrs (to_dinode ?i))"
    using grew_refl [OF consistentD(2,3) [OF c], OF l] d(1) by (simp add: to_dinode_def)
  have td: "dtype (to_dinode ?i) \<noteq> 0" "backed (blocks s) (daddrs (to_dinode ?i)) (unat (dsize (to_dinode ?i)))"
    using d(7) synced_file(2) [OF f(1) v(1)] by (simp_all add: to_dinode_def)
  note E = consistent_grew [OF c l g td]
  have "does (iupdate ip u) (step {} u (put_dino ?n (sb s) (to_dinode ?i) (blocks s)) (itable u) {IBLOCK ?n (sb s)})"
    using iupdate_ok [of u M k ip] checked_volume [OF f(1)] y iu M d(4,6) by (simp add: volume_def room_def)
  then have t: "step {} u (put_dino ?n (sb s) (to_dinode ?i) (blocks s)) (itable u) {IBLOCK ?n (sb s)} t"
    using r by (simp add: does_def u_def [symmetric])
  note st = step_trans [OF u t]
  note z = stepD [OF st]
  have it: "itable t = (itable s)[ip := ?i]" "ino t ip = ?i" using z(3) y(3) iu ip(1) f(5) by (simp_all add: ino_def)
  show un: "untouched ?n s t" using E(2,4) z(2) by (auto simp: untouched_def)
  have "checked t" using E(1) z by (simp add: checked_def)
  moreover have "ip < length (itable t)" using it(1) ip(1) f(5) by simp
  then have "synced ip t" using E(3) z(2,5) it(2) d(4,6) td(1) by (simp add: synced_def live_def)
  ultimately show "fs_ok t"
    by (intro fs_ok_update [OF s _ step_stays [OF st] un it(1) ip(1)]) (use v(2) d(4,6) in auto)
  show "stays s t" "logged t = insert (IBLOCK ?n (sb s)) (logged s)" using step_stays [OF st] z(4) by auto
qed

section \<open>Transactions and commits\<close>

lemma outside_log:
  assumes "geometry st S" "\<And>b. b \<notin> log_area st \<Longrightarrow> D' b = D b"
  shows "m < ninodes S \<Longrightarrow> dino m S D' = dino m S D" "b < sb_size S \<Longrightarrow> used D' S b = used D S b"
proof -
  show "dino m S D' = dino m S D" if "m < ninodes S"
  proof -
    have "IBLOCK m S \<notin> log_area st" using assms(1) inodeblocks_in [OF that] by (auto simp: geometry_def)
    then show ?thesis using assms(2) by (simp add: dino_def)
  qed
  show "used D' S b = used D S b" if "b < sb_size S"
  proof -
    have "BBLOCK b S \<notin> log_area st" using assms(1) mapblocks_in [OF that] by (auto simp: geometry_def)
    then show ?thesis using assms(2) by (simp add: used_def)
  qed
qed

text \<open>Consistency is a matter of the blocks outside the log.\<close>

lemma consistent_outside:
  assumes c: "consistent st S D" and e: "\<And>b. b \<notin> log_area st \<Longrightarrow> D' b = D b"
  shows "consistent st S D'"
proof (rule consistent_change [OF c, where n = "ninodes S"])
  note S = consistentD(1,2) [OF c] and o = outside_log [OF consistentD(1) [OF c] e]
  show "sound st S D'"
    unfolding sound_def
  proof (intro conjI allI ballI impI)
    fix b assume "sized st S b"
    then have "b \<notin> log_area st" using S(1) by (auto simp: sized_def geometry_def)
    then show "length (D' b) = BSIZE div 4" using e soundD(1) [OF S(2) \<open>sized st S b\<close>] by simp
  qed (use o(2) soundD(2) [OF S(2)] in auto)
  show "D' b = D b" if "b \<in> blocks_of m S D" for m b
  proof -
    have m: "live m S D" "b \<in> owned D (file_addrs m S D)" using that by (auto simp: blocks_of_def split: if_splits)
    show ?thesis using owned_not_meta [OF consistentD(3) [OF c m(1)] m(2)] e by blast
  qed
qed (use outside_log [OF consistentD(1) [OF c] e] in \<open>auto simp: live_def blocks_of_def\<close>)

text \<open>The disk as the last commit left it.\<close>

definition durable :: "fsst \<Rightarrow> bool" where
  "durable s \<longleftrightarrow> consistent (start (ls s)) (sb s) (disk (ls s)) \<and> hdr_n (disk (ls s) (start (ls s))) = 0 \<and>
     length (disk (ls s) (start (ls s))) = BSIZE div 4 \<and> \<not> committing (ls s)"

lemma durable_stays: "durable s \<Longrightarrow> stays s t \<Longrightarrow> durable t"
  by (simp add: durable_def stays_def)

lemma fs_ok_log:
  assumes "fs_ok s" "content l = blocks s" "start l = start (ls s)" "cache_ok {} (s\<lparr>ls := l\<rparr>)"
  shows "fs_ok (s\<lparr>ls := l\<rparr>)"
  using assms by (simp add: fs_ok_def checked_def table_ok_def synced_def ino_def blocks_def)

lemma cache_ok_outstanding:
  "cache_ok H (s\<lparr>ls := (ls s)\<lparr>outstanding := n\<rparr>\<rparr>) = cache_ok H s"
  "cache_ok H (s\<lparr>ls := (ls s)\<lparr>outstanding := n, committing := b\<rparr>\<rparr>) = cache_ok H s"
  by (simp_all add: cache_ok_def logged_def blocks_def)

lemma fbegin_op_ok:
  assumes s: "fs_ok s" "durable s" and r: "fbegin_op s = Some t"
  shows "fs_ok t" "durable t"
proof -
  have t: "t = s\<lparr>ls := (ls s)\<lparr>outstanding := outstanding (ls s) + 1\<rparr>\<rparr>"
    using r by (auto simp: fbegin_op_def begin_op_def split: if_splits)
  show "fs_ok t" unfolding t by (rule fs_ok_log [OF s(1)]) (simp_all add: blocks_def cache_ok_outstanding fs_okD [OF s(1)])
  show "durable t" using s(2) unfolding t by (simp add: durable_def)
qed

lemma fend_op_ok:
  assumes s: "fs_ok s" "durable s" and o: "0 < outstanding (ls s)" "card (logged s) < NBUF"
  shows "\<exists>t ws. fend_op s = Some t \<and> fs_ok t \<and> durable t \<and> sb t = sb s \<and> start (ls t) = start (ls s) \<and> writes (ls t) = writes (ls s) @ ws \<and>
     (\<forall>k. survives (start (ls s)) (apply_writes (take k ws) (disk (ls s))) (if k \<le> card (logged s) then disk (ls s) else blocks s) \<or>
       ws = [] \<and> survives (start (ls s)) (disk (ls s)) (disk (ls s)))"
proof (cases "outstanding (ls s) = 1")
  case False
  let ?l = "(ls s)\<lparr>outstanding := outstanding (ls s) - 1\<rparr>"
  have e: "fend_op s = Some (s\<lparr>ls := ?l\<rparr>)" using False o(1) s(2) by (simp add: fend_op_def end_op_def Let_def durable_def)
  have "fs_ok (s\<lparr>ls := ?l\<rparr>)"
    by (rule fs_ok_log [OF s(1)]) (simp_all add: blocks_def cache_ok_outstanding fs_okD [OF s(1)])
  moreover have "survives (start (ls s)) (disk (ls s)) (disk (ls s))"
    using s(2) valid_log_clean recovered_clean by (intro valid_log_survives) (auto simp: durable_def)
  ultimately show ?thesis using e s(2) by (intro exI [of _ "s\<lparr>ls := ?l\<rparr>"] exI [of _ "[]"]) (simp add: durable_def)
next
  case True
  let ?l = "(ls s)\<lparr>outstanding := 0, committing := True\<rparr>" and ?st = "start (ls s)"
  note f = fs_okD [OF s(1)]
  have lg: "logging (ls s)" by (rule cache_ok_logging [OF f(2)])
  have n: "length (lh (ls s)) = card (logged s)" using lg distinct_card [of "lh (ls s)"] by (simp add: logging_def logged_def)
  obtain l ws where l: "commit_op ?l = Some l" "idle l" "start l = ?st" "writes l = writes (ls s) @ ws"
    "\<And>b. b \<notin> log_area ?st \<Longrightarrow> disk l b = blocks s b"
    "\<And>k. survives ?st (apply_writes (take k ws) (disk (ls s))) (if k \<le> card (logged s) then disk (ls s) else blocks s)"
    using commit_op_ok [of ?l] lg n o(2) s(2) by (auto simp: logging_def durable_def blocks_def cong: if_cong)
  have i: "uses {} {} l" "lh l = []" "content l = disk l" "\<not> committing l" "hdr_n (disk l ?st) = 0" "length (disk l ?st) = BSIZE div 4"
    using l(2,3) content_idle [of l] by (auto simp: idle_def)
  let ?t = "s\<lparr>ls := l\<rparr>"
  have c: "consistent ?st (sb s) (disk l)"
    by (rule consistent_outside [of _ _ "blocks s"]) (use f(1) l(5) in \<open>auto simp: checked_def\<close>)
  have d: "durable ?t" using c i l(3) by (simp add: durable_def)
  have "cache_ok {} ?t" using i by (simp add: cache_ok_def logged_def blocks_def)
  moreover have "dino m (sb s) (disk l) = dino m (sb s) (blocks s)" if "m < ninodes (sb s)" for m
    by (rule outside_log(1) [OF consistentD(1) [OF c] l(5) that])
  ultimately have "fs_ok ?t" using f c i(3) l(3)
    by (auto simp: fs_ok_def checked_def blocks_def table_ok_def synced_def ino_def live_def)
  moreover have "fend_op s = Some ?t" using True s(2) l(1) by (simp add: fend_op_def end_op_def Let_def durable_def)
  ultimately show ?thesis using d l(3,4,6) by (intro exI [of _ ?t] exI [of _ ws]) simp
qed

end
