(* ===== verification/Fs_Props.thy ===== *)
theory Fs_Props
  imports Fs_Ops
begin

text \<open>
  The properties of the file system: the allocator, the contents of files, and the consistency of
  the volume in every state it can reach and after every crash.
\<close>

section \<open>The steps of the file system\<close>

text \<open>
  What the system calls do to inodes, one call of \<^verbatim>\<open>fs.c\<close> at a time, in any order. A caller holds a
  reference to the slot, has read the inode where its fields matter, and has the room in the log
  that \<^verbatim>\<open>begin_op\<close> reserves.
\<close>

definition loaded :: "nat \<Rightarrow> fsst \<Rightarrow> bool" where
  "loaded ip s \<longleftrightarrow> ip < NINODE \<and> 0 < ref (ino s ip) \<and> ivalid (ino s ip)"

definition own_meta :: "nat \<Rightarrow> fsst \<Rightarrow> nat set" where
  "own_meta ip s = insert (IBLOCK (inum (ino s ip)) (sb s)) (mapblocks (sb s))"

inductive fs_step :: "fsst \<Rightarrow> fsst \<Rightarrow> bool" where
  get: "iget ROOTDEV n s = Some (ip, t) \<Longrightarrow> n < ninodes (sb s) \<Longrightarrow> fs_step s t"
| dup: "ip < NINODE \<Longrightarrow> 0 < ref (ino s ip) \<Longrightarrow> fs_step s (idup ip s)"
| lock: "ilock ip s = Some t \<Longrightarrow> ip < NINODE \<Longrightarrow> slack s \<Longrightarrow> fs_step s t"
| unlock: "iunlock ip s = Some t \<Longrightarrow> ip < NINODE \<Longrightarrow> fs_step s t"
| alloc: "ialloc ROOTDEV ty s = Some (r, t) \<Longrightarrow> ty \<noteq> 0 \<Longrightarrow> room {} 0 s \<Longrightarrow> fs_step s t"
| put: "iput ip s = Some t \<Longrightarrow> ip < NINODE \<Longrightarrow> 0 < ref (ino s ip) \<Longrightarrow> room (own_meta ip s) 0 s \<Longrightarrow> fs_step s t"
| read: "readi cp ip user dst off n (m :: 8 word list) s = Some (r, m', t) \<Longrightarrow> loaded ip s \<Longrightarrow> slack s \<Longrightarrow> fs_step s t"
| store: "writei cp ip user src off n s = Some (r, t) \<Longrightarrow> loaded ip s \<Longrightarrow> source cp bytes there \<Longrightarrow> there src (unat n) \<Longrightarrow>
    budget (own_meta ip s) (addrs (ino s ip)) (rounds (unat off) (unat n)) s \<Longrightarrow> fs_step s t"
| trunc: "itrunc ip s = Some t \<Longrightarrow> loaded ip s \<Longrightarrow> room (own_meta ip s) 0 s \<Longrightarrow> fs_step s t"
| link: "iupdate ip (upd_ino ip (\<lambda>i. i\<lparr>nlink := l\<rparr>) s) = Some t \<Longrightarrow> loaded ip s \<Longrightarrow> room {} 0 s \<Longrightarrow> fs_step s t"
| start: "fbegin_op s = Some t \<Longrightarrow> fs_step s t"
| finish: "fend_op s = Some t \<Longrightarrow> 0 < outstanding (ls s) \<Longrightarrow> card (logged s) < NBUF \<Longrightarrow> fs_step s t"

lemma own_meta [simp]: "mapblocks (sb s) \<subseteq> own_meta ip s" "IBLOCK (inum (ino s ip)) (sb s) \<in> own_meta ip s"
  by (auto simp: own_meta_def)

lemma write_keeps:
  assumes s: "fs_ok s" "loaded ip s" and l: "source cp bytes there" "there src (unat n)"
    and b: "budget (own_meta ip s) (addrs (ino s ip)) (rounds (unat off) (unat n)) s" and r: "writei cp ip user src off n s = Some (r, t)"
  shows "fs_ok t" "stays s t"
proof -
  have ip: "ip < NINODE" "0 < ref (ino s ip)" "ivalid (ino s ip)" using s(2) by (auto simp: loaded_def)
  note f = fs_okD [OF s(1)]
  have b': "budget (own_meta ip s) (addrs (ino s ip)) (0 + rounds (unat off) (unat n)) s" using b by simp
  have "fs_ok t \<and> stays s t"
  proof (cases "off \<le> isize (ino s ip) \<and> \<not> off + n < off \<and> unat (off + n) \<le> MAXFILE * BSIZE")
    case True
    then have "does (writei cp ip user src off n s) (\<lambda>(r, t). \<exists>c p bs z. file_write (own_meta ip s) c ip s p bs z t)"
      by (intro does_mono [OF source.writei_ok [OF l(1) f(1,2) valid_slot(1) [OF s(1) ip] own_meta b' _ _ _ l(2)]]) blast+
    then obtain c p bs z where w: "file_write (own_meta ip s) c ip s p bs z t" using r by (auto simp: does_def)
    then show ?thesis using file_write_ok [OF s(1) ip w] unfolding file_write_def by blast
  next
    case False
    then have "t = s" using r by (auto simp: writei_def not_le split: if_splits)
    then show ?thesis using s(1) f(2) by (simp add: stays_def)
  qed
  then show "fs_ok t" "stays s t" by blast+
qed

lemma fs_step_ok:
  assumes "fs_step s t" "fs_ok s" "durable s"
  shows "fs_ok t \<and> durable t"
  using assms
proof (induction rule: fs_step.induct)
  case (get n s ip t)
  then show ?case using iget_ok [of s n ip t] durable_stays by blast
next
  case (dup ip s)
  then show ?case using idup_ok by (auto simp: durable_def idup_def upd_ino_def)
next
  case (lock ip s t)
  then show ?case using ilock_ok [of s ip t] durable_stays by blast
next
  case (unlock ip s t)
  then show ?case using iunlock_ok [of s ip t] by (auto simp: durable_def upd_ino_def)
next
  case (alloc ty s r t)
  then show ?case using ialloc_ok(1,2) [of s "{}" 0 ty r t] durable_stays by blast
next
  case (put ip s t)
  then show ?case using iput_ok(1,2) [OF put(5,2,3,4) own_meta put(1)] durable_stays by blast
next
  case (read cp ip user dst off n m s r m' t)
  then have "step {} s (blocks s) (itable s) {} t" using readi_quiet [of s ip] by (simp add: loaded_def)
  then show ?case using fs_ok_same read durable_stays step_stays by blast
next
  case (store cp ip user src off n s r t bytes there)
  then show ?case using write_keeps [OF store(6,2,3,4,5,1)] durable_stays by blast
next
  case (trunc ip s t)
  have ip: "ip < NINODE" "0 < ref (ino s ip)" "ivalid (ino s ip)" using trunc(2) by (auto simp: loaded_def)
  have "truncated (own_meta ip s) ip s t"
    using itrunc_ok [OF fs_okD(1,2) [OF trunc(4)] valid_slot(1) [OF trunc(4) ip] trunc(3) own_meta] trunc(1) by (simp add: does_def)
  then show ?case using truncated_ok [OF trunc(4) ip(1,2)] durable_stays [OF trunc(5)] by (auto simp: truncated_def)
next
  case (link ip l s t)
  then show ?case using link_ok(1,2) [of s ip "{}" 0 l t] durable_stays by (auto simp: loaded_def)
next
  case (start s t)
  then show ?case using fbegin_op_ok by blast
next
  case (finish s t)
  then show ?case using fend_op_ok [of s] by auto
qed

lemma fs_steps_ok:
  assumes "fs_step\<^sup>*\<^sup>* s t" "fs_ok s" "durable s"
  shows "fs_ok t \<and> durable t"
  using assms by (induction rule: rtranclp_induct) (auto dest: fs_step_ok)

text \<open>After a write into a variable's worth of room, there is a buffer left to read with.\<close>

lemma write_slack:
  assumes "budget M as (1 + r) s" "logged t \<subseteq> logged s \<union> M \<union> X" "finite X" "card X \<le> r + 1"
  shows "slack t"
proof -
  have m: "finite M" "card (logged s \<union> (M \<union> ind as)) + r + 2 < LOGBLOCKS" using assms(1) by (auto simp: budget_def room_def split: if_splits)
  have "card (logged t) \<le> card (logged s \<union> M \<union> X)" using assms(2,3) m(1) by (intro card_mono) (auto simp: logged_def)
  also have "\<dots> \<le> card (logged s \<union> M) + card X" by (rule card_Un_le)
  also have "card (logged s \<union> M) \<le> card (logged s \<union> (M \<union> ind as))" using m(1) by (intro card_mono) (auto simp: logged_def ind_def)
  finally show ?thesis using m(2) assms(4) by (simp add: slack_def NBUF_def LOGBLOCKS_def)
qed

lemma kstore_all: "length bs = n \<Longrightarrow> kstore 0 bs (replicate n 0) = bs"
  by (simp add: kstore_def)

lemma read_synced:
  assumes t: "checked t" "cache_ok {} t" "slack t" "synced ip t" and w: "unat off + w \<le> unat (isize (ino t ip))"
  shows "does (readi kcopyout ip user 0 off (of_nat w) (replicate w 0) t)
    (\<lambda>(r, m, u). r = int w \<and> m = fbytes (blocks t) (addrs (ino t ip)) (unat off) w \<and> step {} t (blocks t) (itable t) {} u)"
proof -
  let ?z = "isize (ino t ip)"
  have z: "unat ?z < 2 ^ 32" using unsigned_less [of ?z] by simp
  then have o: "unat (of_nat w :: 32 word) = w" "unat (off + of_nat w) = unat off + w"
    using w by (simp_all add: unat_of_nat unat_word_ariths mod_less)
  have k: "w = (if ?z < off \<or> off + of_nat w < off then 0 else min (unat (of_nat w :: 32 word)) (unat ?z - unat off))"
    using w o by (auto simp: word_less_nat_alt)
  have f: "kfits 0 w (replicate w 0)" using w z by (simp add: kfits_def)
  note y = synced_file [OF t(1,4)]
  show ?thesis
    by (rule does_mono [OF kernel.readi_ok [OF checked_volume [OF t(1)] t(2,3) y(1,2) k f]]) (auto simp: kstore_all)
qed

section \<open>The properties\<close>

text \<open>
  C1. The volume stays consistent. From a state in which the blocks of every inode in use are marked
  in the free map, lie outside the metadata and cover its size, no block belongs to two inodes or to none
  and the inode table agrees with the disk, any sequence of calls of the file system leads to such a state,
  and the disk is as the last commit left it, consistent as well.
\<close>

theorem volume_consistent:
  assumes "fs_step\<^sup>*\<^sup>* s t" "fs_ok s" "durable s"
  shows "fs_ok t \<and> durable t"
  by (rule fs_steps_ok [OF assms])

text \<open>
  C2. No crash breaks the volume. Whatever calls were made, the end of the last system call commits, and
  a crash after any number of its disk writes, and any number of further crashes during recovery, leave a disk
  from which \<^verbatim>\<open>initlog\<close> makes a consistent volume: the one before the transaction or the one after it.
\<close>

theorem crash_consistent:
  assumes "fs_step\<^sup>*\<^sup>* s t" "fs_ok s" "durable s" "0 < outstanding (ls t)" "card (logged t) < NBUF"
  shows "\<exists>u ws. fend_op t = Some u \<and> writes (ls u) = writes (ls t) @ ws \<and>
    (\<forall>k d. crashed (start (ls t)) (apply_writes (take k ws) (disk (ls t))) d \<longrightarrow>
       (\<exists>r. initlog (start (ls t)) (restart d) = Some r \<and> consistent (start (ls t)) (sb t) (disk r) \<and>
         (\<exists>E \<in> {disk (ls t), blocks t}. \<forall>b. b \<notin> log_area (start (ls t)) \<longrightarrow> disk r b = E b)))"
proof -
  let ?st = "start (ls t)"
  have t: "fs_ok t" "durable t" using fs_steps_ok [OF assms(1-3)] by blast+
  then have E: "consistent ?st (sb t) E" if "E \<in> {disk (ls t), blocks t}" for E
    using that fs_okD(1) [of t] by (auto simp: durable_def checked_def)
  obtain u ws where u: "fend_op t = Some u" "writes (ls u) = writes (ls t) @ ws" and
    c: "\<And>k. survives ?st (apply_writes (take k ws) (disk (ls t))) (if k \<le> card (logged t) then disk (ls t) else blocks t) \<or>
      ws = [] \<and> survives ?st (disk (ls t)) (disk (ls t))"
    using fend_op_ok [OF t assms(4,5)] by blast
  have "\<exists>E \<in> {disk (ls t), blocks t}. survives ?st (apply_writes (take k ws) (disk (ls t))) E" for k
    using c [of k] by (auto split: if_splits)
  then have "\<exists>r. initlog ?st (restart d) = Some r \<and> consistent ?st (sb t) (disk r) \<and>
      (\<exists>E \<in> {disk (ls t), blocks t}. \<forall>b. b \<notin> log_area ?st \<longrightarrow> disk r b = E b)"
    if d: "crashed ?st (apply_writes (take k ws) (disk (ls t))) d" for k d
    using d consistent_outside [OF E] unfolding survives_def by metis
  then show ?thesis using u by blast
qed

text \<open>
  C3. The block allocator. \<^verbatim>\<open>balloc\<close> gives a zeroed block that was free, belongs to no inode and is no
  metadata, and marks only it; it gives 0 only when every block is in use, and then changes nothing.
\<close>

theorem balloc_free:
  assumes "fs_ok s" "room (mapblocks (sb s)) 1 s"
  shows "\<exists>a t. balloc ROOTDEV s = Some (a, t) \<and>
    (if a = 0 then blocks t = blocks s \<and> (\<forall>b < sb_size (sb s). used (blocks s) (sb s) b)
     else a < sb_size (sb s) \<and> \<not> used (blocks s) (sb s) a \<and> a \<notin> meta (start (ls s)) (sb s) \<and>
       (\<forall>n. a \<notin> blocks_of n (sb s) (blocks s)) \<and> blocks t a = zero_block \<and>
       (\<forall>b < sb_size (sb s). used (blocks t) (sb s) b \<longleftrightarrow> used (blocks s) (sb s) b \<or> b = a) \<and>
       (\<forall>b. b \<noteq> a \<longrightarrow> b \<notin> mapblocks (sb s) \<longrightarrow> blocks t b = blocks s b))"
proof -
  note f = fs_okD [OF assms(1)] and v = checked_volume [OF fs_okD(1) [OF assms(1)]]
  have c: "consistent (start (ls s)) (sb s) (blocks s)" using f(1) by (simp add: checked_def)
  note g = consistentD(1,2) [OF c]
  have "does (balloc ROOTDEV s) (alloc_result {} s (\<lambda>b. True))"
    by (rule balloc_ok [OF v f(2), where k = 0]) (use assms(2) in auto)
  then obtain a t where r: "balloc ROOTDEV s = Some (a, t)" "alloc_result {} s (\<lambda>b. True) (a, t)" by (auto simp: does_def)
  show ?thesis
  proof (cases "a = 0")
    case True
    then show ?thesis using r by (auto simp: alloc_result_def stepD)
  next
    case False
    then have a: "a < sb_size (sb s)" "\<not> used (blocks s) (sb s) a" "blocks t = allocated a (sb s) (blocks s)"
      using r(2) by (auto simp: alloc_result_def dest: stepD(2))
    have "a \<notin> blocks_of n (sb s) (blocks s)" for n
      using a(2) consistentD(3) [OF c, of n] by (auto simp: blocks_of_def file_ok_def split: if_splits)
    moreover have "a \<notin> meta (start (ls s)) (sb s)" using a(1,2) g(2) by (auto simp: sound_def)
    moreover have "blocks t b = blocks s b" if "b \<noteq> a" "b \<notin> mapblocks (sb s)" for b
      using that a(1,3) mapblocks_in [of a "sb s"] by (auto simp: allocated_def mark_def)
    ultimately show ?thesis using False r(1) a used_allocated [OF g(2,1) a(1,2)] by (auto simp: allocated_def)
  qed
qed

text \<open>
  C4. \<^verbatim>\<open>writei\<close> puts the bytes it reports at the offset and keeps every other byte of the file, extends the
  size exactly as far as needed, leaves every other inode and its blocks alone, and stops early only
  when the copy failed or the disk is full. The log grows by the metadata and at most one block per
  stretch of the file and an indirect block.
\<close>

theorem writei_stores:
  assumes "fs_ok s" "loaded ip s" "source cp bytes there" "there src (unat n)"
    "budget (own_meta ip s) (addrs (ino s ip)) (rounds (unat off) (unat n)) s"
    "off \<le> isize (ino s ip)" "\<not> off + n < off" "unat (off + n) \<le> MAXFILE * BSIZE"
  shows "\<exists>w x t. writei cp ip user src off n s = Some (int w, t) \<and> w \<le> x \<and> x \<le> unat n \<and> (\<not> fails cp \<longrightarrow> x = w) \<and>
    (w < unat n \<longrightarrow> fails cp \<or> (\<forall>b < sb_size (sb s). used (blocks t) (sb s) b)) \<and>
    unat (isize (ino t ip)) = max (unat (isize (ino s ip))) (unat off + w) \<and>
    (\<forall>p < unat (isize (ino t ip)). fbyte (blocks t) (addrs (ino t ip)) p =
       (if unat off \<le> p \<and> p < unat off + x then bytes src (unat n) ! (p - unat off) else fbyte (blocks s) (addrs (ino s ip)) p)) \<and>
    untouched (inum (ino s ip)) s t \<and>
    (\<exists>X. logged t \<subseteq> logged s \<union> own_meta ip s \<union> X \<and> finite X \<and> card X \<le> rounds (unat off) (unat n) + 1)"
proof -
  let ?o = "unat off" and ?n = "unat n" and ?z = "unat (isize (ino s ip))"
  have ip: "ip < NINODE" "0 < ref (ino s ip)" "ivalid (ino s ip)" using assms(2) by (auto simp: loaded_def)
  note f = fs_okD [OF assms(1)]
  have b: "budget (own_meta ip s) (addrs (ino s ip)) (0 + rounds ?o ?n) s" using assms(5) by simp
  obtain w x t where w: "writei cp ip user src off n s = Some (int w, t)" "w \<le> x" "x \<le> ?n" "\<not> fails cp \<longrightarrow> x = w"
    "w < ?n \<longrightarrow> fails cp \<or> (\<forall>b < sb_size (sb t). used (blocks t) (sb t) b)"
    "file_write (own_meta ip s) (rounds ?o ?n + 1) ip s ?o (take x (bytes src ?n)) (max ?z (?o + w)) t"
    using source.writei_ok [OF assms(3) f(1,2) valid_slot(1) [OF assms(1) ip] own_meta b assms(6-8,4), of user] unfolding does_def by blast
  have z: "unat (isize (ino t ip)) = max ?z (?o + w)" using w(6) ip(1) f(5) by (auto simp: file_write_def ino_def)
  have l: "length (bytes src ?n) = ?n" by (rule source.length_get [OF assms(3)])
  have p: "fbyte (blocks t) (addrs (ino t ip)) p =
      (if ?o \<le> p \<and> p < ?o + x then bytes src ?n ! (p - ?o) else fbyte (blocks s) (addrs (ino s ip)) p)" if "p < max ?z (?o + w)" for p
    using w(3,6) that l by (auto simp: file_write_def less_diff_conv2)
  have "sb t = sb s" using w(6) by (simp add: file_write_def stays_def)
  then show ?thesis using w z p unfolding file_write_def by (intro exI [of _ w] exI [of _ x] exI [of _ t]) simp
qed

text \<open>
  C5. What is written is read back: after \<^verbatim>\<open>writei\<close> of a variable of the kernel, \<^verbatim>\<open>readi\<close> at the same offset gives the
  bytes that were reported as written, all of them unless the disk is full.
\<close>

theorem write_read:
  assumes "fs_ok s" "loaded ip s" "length buf < 2 ^ 32"
    "budget (own_meta ip s) (addrs (ino s ip)) (1 + rounds (unat off) (length buf)) s"
    "off \<le> isize (ino s ip)" "unat off + length buf \<le> MAXFILE * BSIZE"
  shows "\<exists>w t u. writei (kcopyin buf) ip False 0 off (of_nat (length buf)) s = Some (int w, t) \<and> w \<le> length buf \<and>
    (w = length buf \<or> (\<forall>b < sb_size (sb s). used (blocks t) (sb s) b)) \<and>
    readi kcopyout ip False 0 off (of_nat w) (replicate w 0) t = Some (int w, take w buf, u)"
proof -
  let ?o = "unat off" and ?n = "of_nat (length buf) :: 32 word" and ?z = "unat (isize (ino s ip))"
  have ip: "ip < NINODE" "0 < ref (ino s ip)" "ivalid (ino s ip)" using assms(2) by (auto simp: loaded_def)
  note f = fs_okD [OF assms(1)]
  have n: "unat ?n = length buf" using assms(3) by (simp add: unat_of_nat)
  have "unat (off + ?n) = ?o + length buf" using assms(6) n by (simp add: unat_word_ariths slot_consts)
  then have o: "\<not> off + ?n < off" "unat (off + ?n) \<le> MAXFILE * BSIZE" using assms(6) by (simp_all add: word_less_nat_alt)
  have h: "khas buf 0 (unat ?n)" using assms(3) n by (simp add: khas_def)
  have g: "kget buf 0 (unat ?n) = buf" "\<not> fails (kcopyin buf)" using kget_there [OF h] n by (simp_all add: fails_def kcopyin_def)
  have b: "budget (own_meta ip s) (addrs (ino s ip)) (1 + rounds ?o (unat ?n)) s" unfolding n by (rule assms(4))
  obtain w t where w: "writei (kcopyin buf) ip False 0 off ?n s = Some (int w, t)" "w \<le> length buf"
    "w < length buf \<longrightarrow> (\<forall>b < sb_size (sb t). used (blocks t) (sb t) b)"
    "file_write (own_meta ip s) (rounds ?o (length buf) + 1) ip s ?o (take w buf) (max ?z (?o + w)) t"
    using variable.writei_ok [OF f(1,2) valid_slot(1) [OF assms(1) ip] own_meta b assms(5) o h, of False] g n
    by (auto simp: does_def)
  have t: "checked t" "synced ip t" "cache_ok {} t" "sb t = sb s" using w(4) by (auto simp: file_write_def stays_def)
  have sl: "slack t" using w(4) write_slack [OF assms(4)] by (auto simp: file_write_def)
  have z: "unat (isize (ino t ip)) = max ?z (?o + w)" using w(4) ip(1) f(5) by (auto simp: file_write_def ino_def)
  have "fbytes (blocks t) (addrs (ino t ip)) ?o w = take w buf"
    using w(2,4) by (intro nth_equalityI) (auto simp: file_write_def fbytes_def)
  then obtain u where "readi kcopyout ip False 0 off (of_nat w) (replicate w 0) t = Some (int w, take w buf, u)"
    using read_synced [OF t(1,3) sl t(2), of off w False] z by (auto simp: does_def)
  then show ?thesis using w(1-3) t(4) by auto
qed

text \<open>
  C6. \<^verbatim>\<open>itrunc\<close> empties the file: exactly its blocks become free, its size and block numbers are 0 in memory
  and on the disk, and no other inode changes.
\<close>

theorem itrunc_frees:
  assumes "fs_ok s" "loaded ip s" "room (own_meta ip s) 0 s"
  shows "\<exists>t. itrunc ip s = Some t \<and> fs_ok t \<and> isize (ino t ip) = 0 \<and> blocks_of (inum (ino s ip)) (sb s) (blocks t) = {} \<and>
    dsize (dino (inum (ino s ip)) (sb s) (blocks t)) = 0 \<and>
    (\<forall>b < sb_size (sb s). used (blocks t) (sb s) b \<longleftrightarrow> used (blocks s) (sb s) b \<and> b \<notin> blocks_of (inum (ino s ip)) (sb s) (blocks s)) \<and>
    untouched (inum (ino s ip)) s t"
proof -
  have ip: "ip < NINODE" "0 < ref (ino s ip)" "ivalid (ino s ip)" using assms(2) by (auto simp: loaded_def)
  note f = fs_okD [OF assms(1)] and y = valid_slot(1) [OF assms(1) ip]
  obtain t where t: "itrunc ip s = Some t" "truncated (own_meta ip s) ip s t"
    using itrunc_ok [OF f(1,2) y assms(3) own_meta] by (auto simp: does_def)
  have i: "ino t ip = (ino s ip)\<lparr>addrs := no_blocks, isize := 0\<rparr>" "sb t = sb s" "synced ip t"
    using t(2) ip(1) f(5) by (auto simp: truncated_def ino_def stays_def)
  note d = synced_dino [OF i(3)]
  have "blocks_of (inum (ino s ip)) (sb s) (blocks t) = {}" using d i(1,2) no_blocks_file by (simp add: blocks_of_def)
  moreover have "blocks_of (inum (ino s ip)) (sb s) (blocks s) = owned (blocks s) (addrs (ino s ip))"
    using y synced_dino [OF y] by (simp add: blocks_of_def synced_def)
  ultimately show ?thesis using t i d truncated_ok [OF assms(1) ip(1,2) t(2)] by (simp add: truncated_def)
qed

section \<open>A volume\<close>

text \<open>
  A volume of 40 blocks as \<^verbatim>\<open>mkfs\<close> lays one out, with one empty file as inode 1: the log from block 2,
  the inodes in block 33, the free map in block 34. The file is in slot 0 of the inode table, and
  one system call is in a transaction.
\<close>

definition demo_sb :: superblock where
  "demo_sb = \<lparr>magic = FSMAGIC, sb_size = 40, nblocks = 5, ninodes = 16, nlog = 31, logstart = 2, inodestart = 33, bmapstart = 34\<rparr>"

definition fresh_disk :: "nat \<Rightarrow> block" where
  "fresh_disk = (\<lambda>_. zero_block)(34 := zero_block[0 := 0xFFFFFFFF, 1 := 7])"

definition demo_disk :: "nat \<Rightarrow> block" where
  "demo_disk = put_dino 1 demo_sb (new_dinode 2) fresh_disk"

definition demo_inode :: inode where
  "demo_inode = zero_inode\<lparr>idev := ROOTDEV, inum := 1, ref := 1, ivalid := True, itype := 2\<rparr>"

definition demo :: fsst where
  "demo = \<lparr>ls = (restart demo_disk)\<lparr>start := 2, outstanding := 1\<rparr>, sb = demo_sb, itable = (replicate NINODE zero_inode)[0 := demo_inode]\<rparr>"

lemma demo_blocks:
  "BBLOCK b demo_sb = b div BPB + 34" "IBLOCK n demo_sb = n div IPB + 33" "mapblocks demo_sb = {34}" "inodeblocks demo_sb = {33}"
  "meta 2 demo_sb = {..34}"
proof -
  show 1: "BBLOCK b demo_sb = b div BPB + 34" for b by (simp add: BBLOCK_def demo_sb_def)
  show 2: "IBLOCK n demo_sb = n div IPB + 33" for n by (simp add: IBLOCK_def demo_sb_def)
  have "b div BPB = 0" if "b < 40" for b using that by (simp add: BPB_def BSIZE_def)
  moreover have "(\<lambda>_. 34) ` {..<40 :: nat} = {34 :: nat}" by (simp add: image_constant_conv lessThan_empty_iff)
  ultimately show m: "mapblocks demo_sb = {34}" unfolding mapblocks_def 1 by (simp add: demo_sb_def cong: image_cong_simp)
  have "n div IPB = 0" if "n < 16" for n using that by (simp add: IPB_def BSIZE_def)
  moreover have "(\<lambda>_. 33) ` {..<16 :: nat} = {33 :: nat}" by (simp add: image_constant_conv lessThan_empty_iff)
  ultimately show i: "inodeblocks demo_sb = {33}" unfolding inodeblocks_def 2 by (simp add: demo_sb_def cong: image_cong_simp)
  show "meta 2 demo_sb = {..34}" unfolding meta_def m i by (auto simp: log_area_def LOGBLOCKS_def)
qed

lemma fresh_used: "b < 40 \<Longrightarrow> used fresh_disk demo_sb b \<longleftrightarrow> b \<le> 34"
proof -
  have "list_all (\<lambda>b. used fresh_disk demo_sb b \<longleftrightarrow> b \<le> 34) [0..<40]" by code_simp
  then show "b < 40 \<Longrightarrow> used fresh_disk demo_sb b \<longleftrightarrow> b \<le> 34" by (simp add: list_all_iff)
qed

lemma fresh_live: "\<not> live n demo_sb fresh_disk"
proof (cases "n < 16")
  case True
  then have "IBLOCK n demo_sb = 33" "n mod IPB = n" by (simp_all add: demo_blocks IPB_def BSIZE_def)
  then show ?thesis using True
    by (simp add: live_def dino_def get_dinode_def fresh_disk_def zero_block_def Let_def BSIZE_def)
qed (simp add: live_def demo_sb_def)

lemma demo_geometry: "geometry 2 demo_sb"
  unfolding geometry_def demo_blocks by (simp add: demo_sb_def log_area_def LOGBLOCKS_def)

lemma fresh_consistent: "consistent 2 demo_sb fresh_disk"
  unfolding consistent_def
proof (intro conjI allI impI)
  show "geometry 2 demo_sb" by (rule demo_geometry)
  have s: "sb_size demo_sb = 40" by (simp add: demo_sb_def)
  show "sound 2 demo_sb fresh_disk"
    unfolding sound_def demo_blocks s using fresh_used by (auto simp: fresh_disk_def zero_block_def)
  show "b \<in> meta 2 demo_sb \<or> (\<exists>n. live n demo_sb fresh_disk \<and> b \<in> owned fresh_disk (file_addrs n demo_sb fresh_disk))"
    if "b < sb_size demo_sb" "used fresh_disk demo_sb b" for b
    using that fresh_used unfolding demo_blocks s by simp
qed (use fresh_live in blast)+

lemma demo_consistent: "consistent 2 demo_sb demo_disk" "dino 1 demo_sb demo_disk = new_dinode 2"
  using consistent_empty(1,2) [OF fresh_consistent, of 1 "new_dinode 2"] fresh_live new_dinode
  by (simp_all add: demo_disk_def blocks_of_def demo_sb_def)

lemma demo_simps [simp]:
  "sb demo = demo_sb" "start (ls demo) = 2" "disk (ls demo) = demo_disk" "outstanding (ls demo) = 1" "committing (ls demo) = False"
  "lh (ls demo) = []" "logged demo = {}" "length (itable demo) = NINODE" "ino demo 0 = demo_inode" "0 < i \<Longrightarrow> i < NINODE \<Longrightarrow> ino demo i = zero_inode"
  by (simp_all add: demo_def restart_def binit_def logged_def ino_def NINODE_def)

lemma demo_cache: "cache_ok {} demo" "blocks demo = demo_disk"
proof -
  have u: "uses {} {} (ls demo)" using uses_restart(1) [of demo_disk] by (simp add: demo_def)
  then have e: "blocks demo b = demo_disk b" for b using content_idle [OF u] by (simp add: blocks_def)
  then show "cache_ok {} demo" "blocks demo = demo_disk" using u by (auto simp: cache_ok_def)
qed

lemma demo_ok: "fs_ok demo" "durable demo" "synced 0 demo" "loaded 0 demo" "slack demo" "own_meta 0 demo = {33, 34}"
proof -
  have i: "i = 0" if "i < NINODE" "0 < ref (ino demo i)" for i
    using that demo_simps(10) [of i] by (cases "i = 0") (auto simp: zero_inode_def)
  have d: "idev demo_inode = ROOTDEV" "inum demo_inode = 1" "ref demo_inode = 1" "ivalid demo_inode"
    "to_dinode demo_inode = new_dinode 2" by (simp_all add: demo_inode_def to_dinode_def new_dinode_def zero_inode_def zero_dinode_def)
  have l: "live 1 demo_sb demo_disk" using demo_consistent(2) by (simp add: live_def demo_sb_def new_dinode_def)
  then show y: "synced 0 demo" using demo_consistent(2) by (simp add: synced_def demo_cache d NINODE_def del: One_nat_def)
  have "ninodes demo_sb = 16" by (simp add: demo_sb_def)
  then have "table_ok demo" unfolding table_ok_def using i d by (metis demo_simps(1,8,9) one_less_numeral_iff semiring_norm(76))
  then show "fs_ok demo" using y i by (auto simp: fs_ok_def checked_def demo_cache demo_consistent)
  have "demo_disk 2 = zero_block" by (simp add: demo_disk_def put_dino_def demo_blocks fresh_disk_def)
  then show "durable demo" by (simp add: durable_def demo_consistent hdr_n_def zero_block_def BSIZE_def)
  show "loaded 0 demo" by (simp add: loaded_def d NINODE_def)
  show "slack demo" by (simp add: slack_def NBUF_def)
  show "own_meta 0 demo = {33, 34}" by (auto simp: own_meta_def d demo_blocks IPB_def BSIZE_def)
qed

lemma demo_room: "k < 20 \<Longrightarrow> room {33, 34} k demo" "k < 20 \<Longrightarrow> room (mapblocks (sb demo)) k demo"
  "k < 20 \<Longrightarrow> budget (own_meta 0 demo) (addrs (ino demo 0)) k demo" "isize (ino demo 0) = 0"
  by (simp_all add: room_def budget_def ind_def demo_ok demo_blocks LOGBLOCKS_def demo_inode_def zero_inode_def NDIRECT_def)

lemma demo_dup: "fs_step\<^sup>*\<^sup>* demo (idup 0 demo)" "outstanding (ls (idup 0 demo)) = 1" "logged (idup 0 demo) = {}"
  using dup [of 0 demo] demo_ok(4) by (auto simp: loaded_def idup_def upd_ino_def)

theorem volume_consistent_witness: "fs_ok (idup 0 demo) \<and> durable (idup 0 demo)"
  by (rule volume_consistent [OF demo_dup(1) demo_ok(1,2)])

theorem crash_consistent_witness: "\<exists>u. fend_op (idup 0 demo) = Some u"
  using crash_consistent [OF demo_dup(1) demo_ok(1,2)] demo_dup(2,3) by (auto simp: NBUF_def)

theorem balloc_free_witness: "\<exists>a t. balloc ROOTDEV demo = Some (a, t) \<and> (a = 0 \<or> blocks t a = zero_block)"
  using balloc_free [OF demo_ok(1)] demo_room(2) [of 1] by (auto split: if_splits)

theorem writei_stores_witness:
  "\<exists>w t. writei (kcopyin [104, 105]) 0 False 0 0 2 demo = Some (int w, t) \<and> w \<le> 2 \<and> unat (isize (ino t 0)) = w"
proof -
  have h: "khas [104, 105] 0 (unat (2 :: 32 word))" by (simp add: khas_def)
  have r: "rounds 0 2 < 20" by (simp add: rounds_def BSIZE_def)
  show ?thesis
    using writei_stores [OF demo_ok(1,4) variable.source_axioms h, of 0 False] demo_room(3) [OF r] demo_room(4)
    by (auto simp: slot_consts)
qed

theorem write_read_witness:
  "\<exists>w t u. writei (kcopyin [104, 105]) 0 False 0 0 2 demo = Some (int w, t) \<and>
     readi kcopyout 0 False 0 0 (of_nat w) (replicate w 0) t = Some (int w, take w [104, 105], u)"
proof -
  have r: "1 + rounds 0 (length [104, 105 :: 8 word]) < 20" by (simp add: rounds_def BSIZE_def)
  show ?thesis
    using write_read [OF demo_ok(1,4), of "[104, 105]" 0] demo_room(3) [OF r] demo_room(4) by (auto simp: slot_consts)
qed

theorem itrunc_frees_witness: "\<exists>t. itrunc 0 demo = Some t \<and> fs_ok t"
  using itrunc_frees [OF demo_ok(1,4)] demo_room(1) [of 0] demo_ok(6) by auto

end
