(* ===== verification/Ring.thy ===== *)
theory Ring
  imports Prelude "HOL-Library.Word"
begin

text \<open>
  Circular buffers with free-running 32-bit counters, as the kernel's pipes and console use
  them: the item of counter value \<open>x\<close> is in slot \<open>x mod N\<close>, and the counters wrap around at
  \<open>2 ^ 32\<close>, which the buffer size divides.
\<close>

definition slot :: "nat \<Rightarrow> 32 word \<Rightarrow> nat" where
  "slot N x = unat x mod N"

text \<open>The items from counter \<open>a\<close> up to, not including, counter \<open>b\<close>.\<close>

definition items :: "nat \<Rightarrow> 'a list \<Rightarrow> 32 word \<Rightarrow> 32 word \<Rightarrow> 'a list" where
  "items N buf a b = map (\<lambda>k. buf ! slot N (a + of_nat k)) [0..<unat (b - a)]"

lemma length_items [simp]: "length (items N buf a b) = unat (b - a)"
  by (simp add: items_def)

lemma items_empty [simp]: "items N buf a a = []"
  by (simp add: items_def)

lemma items_Nil_iff: "items N buf a b = [] \<longleftrightarrow> a = b"
  by (metis length_items items_empty length_0_conv unat_eq_zero eq_iff_diff_eq_0)

lemma word_suc_diff: "a \<noteq> b \<Longrightarrow> unat (b - a) = Suc (unat (b - (a + 1)))" for a b :: "32 word"
proof -
  assume "a \<noteq> b"
  then have "b - a \<noteq> 0" by simp
  then have "unat (b - a - 1) = unat (b - a) - 1" "0 < unat (b - a)"
    by (simp_all add: unat_minus_one unat_gt_0)
  then show ?thesis by (simp add: diff_diff_eq)
qed

lemma items_get: "a \<noteq> b \<Longrightarrow> items N buf a b = buf ! slot N a # items N buf (a + 1) b"
proof -
  assume "a \<noteq> b"
  from word_suc_diff [OF this] show ?thesis
    by (simp add: items_def upt_conv_Cons map_Suc_upt [symmetric] add.assoc del: upt_Suc map_Suc_upt)
qed

lemma items_snoc:
  assumes "unat (b - a) < n" "n < 2 ^ 32"
  shows "items N buf a (b + 1) = items N buf a b @ [buf ! slot N b]"
proof -
  have "unat (b - a) + 1 < 2 ^ 32" using assms by linarith
  moreover have "b + 1 - a = (b - a) + 1" by simp
  ultimately have "unat (b + 1 - a) = Suc (unat (b - a))" by (simp only: unat_word_ariths) simp
  then show ?thesis by (simp add: items_def)
qed

lemma word_pred_diff: "a \<noteq> b \<Longrightarrow> unat (b - a) = Suc (unat (b - 1 - a))" for a b :: "32 word"
  using word_suc_diff [of a b] by (simp add: diff_diff_eq add.commute)

lemma items_last:
  assumes "a \<noteq> b"
  shows "items N buf a b = items N buf a (b - 1) @ [buf ! slot N (b - 1)]"
proof -
  have "a + of_nat (unat (b - 1 - a)) = b - 1" by simp
  then show ?thesis using word_pred_diff [OF assms] by (simp add: items_def)
qed

lemma items_split:
  assumes "unat (c - a) = unat (b - a) + unat (c - b)"
  shows "items N buf a c = items N buf a b @ items N buf b c"
proof (rule nth_equalityI)
  have b: "a + of_nat (unat (b - a)) = b" by simp
  show "items N buf a c ! i = (items N buf a b @ items N buf b c) ! i" if "i < length (items N buf a c)" for i
  proof (cases "i < unat (b - a)")
    case False
    then obtain k where k: "i = unat (b - a) + k" by (metis le_add_diff_inverse not_less)
    then have "a + of_nat i = b + of_nat k" using b by (simp add: add.assoc [symmetric])
    then show ?thesis using that k assms by (simp add: items_def nth_append)
  qed (use that assms in \<open>simp add: items_def nth_append\<close>)
qed (use assms in simp)

locale ring =
  fixes N :: nat
  assumes pos: "0 < N" and dvd: "N dvd 2 ^ 32" and small: "N < 2 ^ 32"
begin

lemma slot_less: "slot N x < N"
  using pos by (simp add: slot_def)

lemma slot_add: "slot N (a + of_nat k) = (unat a + k) mod N"
proof -
  have "unat (a + of_nat k) = (unat a + k) mod 2 ^ 32"
    by (simp add: unat_word_ariths unat_of_nat mod_add_right_eq)
  then show ?thesis using dvd by (simp add: slot_def mod_mod_cancel)
qed

lemma slot_inj:
  assumes "k < N" "j < N" "slot N (a + of_nat k) = slot N (a + of_nat j)"
  shows "k = j"
proof -
  have "int (unat a + k) mod int N = int (unat a + j) mod int N"
    using assms(3) unfolding slot_add by (metis zmod_int)
  then have "int N dvd int k - int j" by (simp add: mod_eq_dvd_iff)
  moreover have "\<bar>int k - int j\<bar> < int N" using assms(1,2) by linarith
  ultimately show ?thesis using dvd_imp_le_int [of "int k - int j" "int N"] by fastforce
qed

lemma items_upd:
  assumes "unat (b - a) \<le> unat (e - a)" "unat (e - a) < N"
  shows "items N (buf[slot N e := c]) a b = items N buf a b"
proof -
  have e: "e = a + of_nat (unat (e - a))" by simp
  have "slot N e \<noteq> slot N (a + of_nat k)" if "k < unat (b - a)" for k
    using slot_inj [of k "unat (e - a)" a] that assms e by auto
  then show ?thesis by (simp add: items_def)
qed

text \<open>A write behind the last item of a buffer that is not full.\<close>

lemma items_put:
  assumes n: "unat (b - a) < N" and l: "length buf = N"
  shows "items N (buf[slot N b := c]) a (b + 1) = items N buf a b @ [c]"
proof -
  have "items N (buf[slot N b := c]) a b = items N buf a b" using n by (intro items_upd) simp_all
  moreover have "items N (buf[slot N b := c]) a (b + 1) = items N (buf[slot N b := c]) a b @ [c]"
    using items_snoc [OF n small, of N "buf[slot N b := c]"] l slot_less [of b] by simp
  ultimately show ?thesis by simp
qed

end

end
