(* ===== verification/Pipe.thy ===== *)
theory Pipe
  imports Ring
begin

text \<open>
  Pipes (\<^verbatim>\<open>xv6/kernel/pipe.c\<close>). A call runs under the pipe's lock until it returns or sleeps;
  between those points other calls run. Each such stretch is one function here. The caller's
  memory is a parameter: \<open>cin i\<close> is the byte \<^verbatim>\<open>copyin\<close> gets at offset \<open>i\<close>, or \<open>None\<close> if it fails,
  and \<open>cout i\<close> says whether \<^verbatim>\<open>copyout\<close> at offset \<open>i\<close> succeeds. \<open>kl i\<close> is what \<^verbatim>\<open>killed\<close> returns
  at offset \<open>i\<close>.
\<close>

definition PIPESIZE :: nat where "PIPESIZE = 512"

record pipe =
  pdata :: "8 word list"
  nread :: "32 word"
  nwrite :: "32 word"
  readopen :: bool
  writeopen :: bool

text \<open>The pipe \<^verbatim>\<open>pipealloc\<close> sets up; the page it lies in holds arbitrary bytes.\<close>

definition new_pipe :: "8 word list \<Rightarrow> pipe" where
  "new_pipe page = \<lparr>pdata = page, nread = 0, nwrite = 0, readopen = True, writeopen = True\<rparr>"

text \<open>\<open>pipeclose\<close>: the flag says whether the pipe's page is freed.\<close>

definition pipeclose :: "bool \<Rightarrow> pipe \<Rightarrow> bool \<times> pipe" where
  "pipeclose writable p =
     (let p = (if writable then p\<lparr>writeopen := False\<rparr> else p\<lparr>readopen := False\<rparr>)
      in (\<not> readopen p \<and> \<not> writeopen p, p))"

definition put_byte :: "8 word \<Rightarrow> pipe \<Rightarrow> pipe" where
  "put_byte ch p = p\<lparr>pdata := (pdata p)[slot PIPESIZE (nwrite p) := ch], nwrite := nwrite p + 1\<rparr>"

definition get_byte :: "pipe \<Rightarrow> 8 word" where
  "get_byte p = pdata p ! slot PIPESIZE (nread p)"

text \<open>A call returns a value, or sleeps; a writer has then written \<open>i\<close> bytes.\<close>

datatype call = Return int | Sleep nat

function pipewrite :: "(nat \<Rightarrow> bool) \<Rightarrow> (nat \<Rightarrow> 8 word option) \<Rightarrow> int \<Rightarrow> nat \<Rightarrow> pipe \<Rightarrow> call \<times> pipe" where
  "pipewrite kl cin n i p =
     (if n \<le> int i then (Return (int i), p)
      else if \<not> readopen p \<or> kl i then (Return (- 1), p)
      else if nwrite p = nread p + of_nat PIPESIZE then (Sleep i, p)
      else
        (case cin i of
           None \<Rightarrow> (Return (if i = 0 then - 1 else int i), p)
         | Some ch \<Rightarrow> pipewrite kl cin n (i + 1) (put_byte ch p)))"
  by pat_completeness auto
termination by (relation "measure (\<lambda>(kl, cin, n, i, p). nat (n - int i))") auto

declare pipewrite.simps [simp del]

text \<open>The copying loop of \<open>piperead\<close>; the bytes copied out come with the result.\<close>

function read_loop :: "(nat \<Rightarrow> bool) \<Rightarrow> int \<Rightarrow> nat \<Rightarrow> pipe \<Rightarrow> int \<times> 8 word list \<times> pipe" where
  "read_loop cout n i p =
     (if n \<le> int i then (int i, [], p)
      else if nread p = nwrite p then (int i, [], p)
      else if \<not> cout i then (if i = 0 then - 1 else int i, [], p)
      else
        (case read_loop cout n (i + 1) (p\<lparr>nread := nread p + 1\<rparr>) of
           (r, cs, p') \<Rightarrow> (r, get_byte p # cs, p')))"
  by pat_completeness auto
termination by (relation "measure (\<lambda>(cout, n, i, p). nat (n - int i))") auto

declare read_loop.simps [simp del]

definition piperead :: "bool \<Rightarrow> (nat \<Rightarrow> bool) \<Rightarrow> int \<Rightarrow> pipe \<Rightarrow> call \<times> 8 word list \<times> pipe" where
  "piperead kl cout n p =
     (if nread p = nwrite p \<and> writeopen p then (if kl then (Return (- 1), [], p) else (Sleep 0, [], p))
      else (case read_loop cout n 0 p of (r, cs, p') \<Rightarrow> (Return r, cs, p')))"

section \<open>The pipe as a queue\<close>

interpretation pring: ring PIPESIZE
  by unfold_locales (simp_all add: PIPESIZE_def)

definition contents :: "pipe \<Rightarrow> 8 word list" where
  "contents p = items PIPESIZE (pdata p) (nread p) (nwrite p)"

definition pipe_ok :: "pipe \<Rightarrow> bool" where
  "pipe_ok p \<longleftrightarrow> length (pdata p) = PIPESIZE \<and> length (contents p) \<le> PIPESIZE"

lemma full_iff:
  "nwrite p = nread p + of_nat PIPESIZE \<longleftrightarrow> length (contents p) = PIPESIZE"
proof -
  have "nwrite p = nread p + of_nat PIPESIZE \<longleftrightarrow> nwrite p - nread p = of_nat PIPESIZE" by (auto simp: algebra_simps)
  also have "\<dots> \<longleftrightarrow> unat (nwrite p - nread p) = PIPESIZE"
    by (auto simp: PIPESIZE_def word_unat_eq_iff)
  finally show ?thesis by (simp add: contents_def)
qed

lemma empty_iff: "nread p = nwrite p \<longleftrightarrow> contents p = []"
  by (simp add: contents_def items_Nil_iff)

lemma put_byte_ok:
  assumes "pipe_ok p" "length (contents p) < PIPESIZE"
  shows "pipe_ok (put_byte ch p)" "contents (put_byte ch p) = contents p @ [ch]"
    "readopen (put_byte ch p) = readopen p" "writeopen (put_byte ch p) = writeopen p"
proof -
  show c: "contents (put_byte ch p) = contents p @ [ch]"
    using assms pring.items_put [of "nwrite p" "nread p" "pdata p" ch]
    by (simp add: contents_def put_byte_def pipe_ok_def)
  show "pipe_ok (put_byte ch p)" using assms by (simp add: pipe_ok_def c) (simp add: put_byte_def)
qed (simp_all add: put_byte_def)

lemma get_byte_ok:
  assumes "pipe_ok p" "nread p \<noteq> nwrite p"
  shows "pipe_ok (p\<lparr>nread := nread p + 1\<rparr>)" "contents p = get_byte p # contents (p\<lparr>nread := nread p + 1\<rparr>)"
proof -
  show c: "contents p = get_byte p # contents (p\<lparr>nread := nread p + 1\<rparr>)"
    using items_get [OF assms(2)] by (simp add: contents_def get_byte_def)
  then have "length (contents (p\<lparr>nread := nread p + 1\<rparr>)) \<le> length (contents p)" by (metis length_Cons le_Suc_eq order_refl)
  then show "pipe_ok (p\<lparr>nread := nread p + 1\<rparr>)" using assms(1) by (simp add: pipe_ok_def)
qed

text \<open>
  A stretch of \<open>pipewrite\<close> that starts at offset \<open>i\<close> appends the bytes up to some offset \<open>j\<close>
  and stops there for one of the reasons below.
\<close>

definition write_stop :: "(nat \<Rightarrow> bool) \<Rightarrow> (nat \<Rightarrow> 8 word option) \<Rightarrow> int \<Rightarrow> nat \<Rightarrow> call \<Rightarrow> pipe \<Rightarrow> bool" where
  "write_stop kl cin n j r p =
     (if n \<le> int j then r = Return (int j)
      else if \<not> readopen p \<or> kl j then r = Return (- 1)
      else if length (contents p) = PIPESIZE then r = Sleep j
      else cin j = None \<and> r = Return (if j = 0 then - 1 else int j))"

lemma pipewrite_ok:
  assumes "pipe_ok p" "pipewrite kl cin n i p = (r, p')"
  shows "\<exists>j \<ge> i. (\<forall>k \<in> {i..<j}. cin k \<noteq> None) \<and> pipe_ok p' \<and> contents p' = contents p @ map (\<lambda>k. the (cin k)) [i..<j] \<and>
     readopen p' = readopen p \<and> writeopen p' = writeopen p \<and> write_stop kl cin n j r p'"
  using assms
proof (induction kl cin n i p arbitrary: r p' rule: pipewrite.induct)
  case (1 kl cin n i p)
  show ?case
  proof (cases "n \<le> int i \<or> \<not> readopen p \<or> kl i \<or> length (contents p) = PIPESIZE \<or> cin i = None")
    case True
    then have "p' = p" "write_stop kl cin n i r p"
      using 1(3) by (auto simp: pipewrite.simps [of kl cin n i p] write_stop_def full_iff split: if_splits)
    then show ?thesis using 1(2) by (intro exI [of _ i]) simp
  next
    case False
    then obtain ch where ch: "cin i = Some ch" by blast
    have l: "length (contents p) < PIPESIZE" using False 1(2) by (simp add: pipe_ok_def)
    note pb = put_byte_ok [OF 1(2) l, of ch]
    have e: "pipewrite kl cin n (i + 1) (put_byte ch p) = (r, p')"
      using 1(3) False ch by (simp add: pipewrite.simps [of kl cin n i p] full_iff)
    have "\<not> n \<le> int i" "\<not> (\<not> readopen p \<or> kl i)" "nwrite p \<noteq> nread p + of_nat PIPESIZE"
      using False by (auto simp: full_iff)
    from 1(1) [OF this ch pb(1) e] obtain j where j: "j \<ge> i + 1" "\<forall>k \<in> {i + 1..<j}. cin k \<noteq> None" "pipe_ok p'"
      "contents p' = contents (put_byte ch p) @ map (\<lambda>k. the (cin k)) [i + 1..<j]"
      "readopen p' = readopen p" "writeopen p' = writeopen p" "write_stop kl cin n j r p'"
      using pb by auto
    moreover have "[i..<j] = i # [i + 1..<j]" using j(1) by (simp add: upt_conv_Cons)
    moreover have "\<forall>k \<in> {i..<j}. cin k \<noteq> None" using j(2) ch by (metis Suc_eq_plus1 atLeastLessThan_iff le_antisym not_less_eq_eq option.distinct(1))
    ultimately show ?thesis using pb(2) ch by (intro exI [of _ j]) simp
  qed
qed

definition read_stop :: "(nat \<Rightarrow> bool) \<Rightarrow> int \<Rightarrow> nat \<Rightarrow> int \<Rightarrow> pipe \<Rightarrow> bool" where
  "read_stop cout n j r p =
     (if n \<le> int j \<or> contents p = [] then r = int j
      else \<not> cout j \<and> r = (if j = 0 then - 1 else int j))"

lemma read_loop_ok:
  assumes "pipe_ok p" "read_loop cout n i p = (r, cs, p')"
  shows "pipe_ok p' \<and> contents p = cs @ contents p' \<and> (\<forall>k \<in> {i..<i + length cs}. cout k) \<and>
     readopen p' = readopen p \<and> writeopen p' = writeopen p \<and> read_stop cout n (i + length cs) r p'"
  using assms
proof (induction cout n i p arbitrary: r cs p' rule: read_loop.induct)
  case (1 cout n i p)
  show ?case
  proof (cases "n \<le> int i \<or> contents p = [] \<or> \<not> cout i")
    case True
    then show ?thesis
      using 1(2,3) by (auto simp: read_loop.simps [of cout n i p] read_stop_def empty_iff split: if_splits)
  next
    case False
    then have g: "\<not> n \<le> int i" "nread p \<noteq> nwrite p" "\<not> \<not> cout i" by (auto simp: empty_iff)
    note gb = get_byte_ok [OF 1(2) g(2)]
    obtain cs' where e: "read_loop cout n (i + 1) (p\<lparr>nread := nread p + 1\<rparr>) = (r, cs', p')" "cs = get_byte p # cs'"
      using 1(3) g by (auto simp: read_loop.simps [of cout n i p] split: prod.splits)
    have *: "cout k" if "k \<in> {i..<i + length cs}" "\<forall>k \<in> {i + 1..<i + 1 + length cs'}. cout k" for k
      using that g(3) e(2) by (cases "k = i") auto
    show ?thesis using 1(1) [OF g gb(1) e(1)] gb(2) e(2) * by simp
  qed
qed

section \<open>Concurrent calls\<close>

text \<open>
  Any number of processes read and write. \<open>sent\<close> and \<open>got\<close> are the bytes stored in and taken
  from the pipe so far, in order. A writer that slept goes on at its offset \<open>i\<close>.
\<close>

inductive pipe_step :: "pipe \<times> 8 word list \<times> 8 word list \<Rightarrow> pipe \<times> 8 word list \<times> 8 word list \<Rightarrow> bool" where
  step_write: "pipewrite kl cin n i p = (r, p') \<Longrightarrow>
     pipe_step (p, sent, got) (p', sent @ map (\<lambda>k. the (cin k)) [i..<i + unat (nwrite p' - nwrite p)], got)"
| step_read: "piperead kl cout n p = (r, cs, p') \<Longrightarrow> pipe_step (p, sent, got) (p', sent, got @ cs)"
| step_close: "pipeclose w p = (False, p') \<Longrightarrow> pipe_step (p, sent, got) (p', sent, got)"

text \<open>A stretch writes fewer than \<open>2 ^ 32\<close> bytes, so the counters tell how many.\<close>

lemma pipewrite_nread: "pipewrite kl cin n i p = (r, p') \<Longrightarrow> nread p' = nread p"
proof (induction kl cin n i p arbitrary: r p' rule: pipewrite.induct)
  case (1 kl cin n i p)
  then show ?case
    by (auto simp: pipewrite.simps [of kl cin n i p] put_byte_def split: if_splits option.splits)
qed

lemma written_count:
  assumes p: "pipe_ok p" "pipe_ok p'" "nread p' = nread p" and c: "length (contents p') = length (contents p) + k"
  shows "unat (nwrite p' - nwrite p) = k"
proof -
  let ?a = "nwrite p - nread p" and ?b = "nwrite p' - nread p"
  have u: "unat ?b = unat ?a + k" using c p(3) by (simp add: contents_def)
  then have "?a \<le> ?b" by (simp add: word_le_nat_alt)
  then have "unat (?b - ?a) = unat ?b - unat ?a" by (rule unat_sub)
  then show ?thesis using u by simp
qed

lemma piperead_ok:
  assumes "pipe_ok p" "piperead kl cout n p = (r, cs, p')"
  shows "pipe_ok p' \<and> contents p = cs @ contents p'"
  using assms read_loop_ok [OF assms(1), of cout n 0]
  by (auto simp: piperead_def split: if_splits prod.splits)

lemma pipe_step_inv:
  assumes "pipe_step x y" "case x of (p, sent, got) \<Rightarrow> pipe_ok p \<and> sent = got @ contents p"
  shows "case y of (p, sent, got) \<Rightarrow> pipe_ok p \<and> sent = got @ contents p"
  using assms
proof cases
  case (step_write kl cin n i p r p' sent got)
  then have ok: "pipe_ok p" "sent = got @ contents p" using assms(2) by auto
  obtain j where j: "j \<ge> i" "pipe_ok p'" "contents p' = contents p @ map (\<lambda>k. the (cin k)) [i..<j]"
    using pipewrite_ok [OF ok(1) step_write(3)] by blast
  then have "unat (nwrite p' - nwrite p) = j - i"
    using written_count [OF ok(1) j(2) pipewrite_nread [OF step_write(3)]] by simp
  then show ?thesis using step_write j ok by simp
next
  case (step_read kl cout n p r cs p' sent got)
  then show ?thesis using assms(2) piperead_ok [of p kl cout n r cs p'] by simp
next
  case (step_close w p p' sent got)
  then have "pdata p' = pdata p" "nread p' = nread p" "nwrite p' = nwrite p"
    by (auto simp: pipeclose_def Let_def split: if_splits)
  then have "contents p' = contents p" "pipe_ok p' = pipe_ok p" by (simp_all add: contents_def pipe_ok_def)
  then show ?thesis using step_close assms(2) by simp
qed

text \<open>
  C17. A pipe is a bounded first-in-first-out queue: in every interleaving of reads, writes and
  closes from a new pipe, the bytes read are those written, in order, up to the at most
  \<^verbatim>\<open>PIPESIZE\<close> bytes still in the buffer; the 32-bit counters may wrap around any number of times.
\<close>

theorem pipe_fifo:
  assumes "length page = PIPESIZE" "pipe_step\<^sup>*\<^sup>* (new_pipe page, [], []) (p, sent, got)"
  shows "sent = got @ contents p \<and> length (contents p) \<le> PIPESIZE"
proof -
  have "case (p, sent, got) of (p, sent, got) \<Rightarrow> pipe_ok p \<and> sent = got @ contents p"
    using assms(2)
  proof (induction rule: rtranclp_induct)
    case base
    then show ?case using assms(1) by (simp add: new_pipe_def pipe_ok_def contents_def)
  qed (rule pipe_step_inv)
  then show ?thesis by (simp add: pipe_ok_def)
qed

theorem pipe_fifo_witness:
  "\<exists>p. pipe_step\<^sup>*\<^sup>* (new_pipe (replicate PIPESIZE 0), [], []) (p, [7], []) \<and> contents p = [7]"
proof -
  let ?p = "new_pipe (replicate PIPESIZE 0)"
  let ?q = "put_byte 7 ?p"
  have "pipewrite (\<lambda>_. False) (\<lambda>_. Some 7) 1 0 ?p = (Return 1, ?q)"
    by (simp add: pipewrite.simps [of _ _ 1 0] pipewrite.simps [of _ _ 1 "Suc 0"] new_pipe_def PIPESIZE_def)
  from step_write [OF this, of "[]" "[]"] have "pipe_step (?p, [], []) (?q, [7], [])"
    by (simp add: put_byte_def new_pipe_def)
  then have "pipe_step\<^sup>*\<^sup>* (?p, [], []) (?q, [7], [])" by simp
  then show ?thesis using pipe_fifo [of "replicate PIPESIZE 0" ?q "[7]" "[]"] by auto
qed

text \<open>
  The results of the calls: a write stops when all \<open>n\<close> bytes are in, with -1 when the read
  end is closed or the writer was killed (whatever it has written before), to sleep exactly
  when the buffer is full, or at a bad address, with the count so far or -1 if that is none.
  A read returns 0 bytes only when asked for none or at the end of the stream; it sleeps
  exactly on an empty pipe whose write end is open, and returns -1 there if it was killed;
  otherwise it returns what it took from the front, or -1 when the first address is bad.
\<close>

theorem pipe_results:
  assumes "pipe_ok p"
  shows "(case pipewrite kw cin n i p of (r, p') \<Rightarrow> \<exists>j \<ge> i.
            contents p' = contents p @ map (\<lambda>k. the (cin k)) [i..<j] \<and> write_stop kw cin n j r p') \<and>
         (case piperead kr cout m p of (r, cs, p') \<Rightarrow> contents p = cs @ contents p' \<and>
            (if contents p = [] \<and> writeopen p then r = (if kr then Return (- 1) else Sleep 0)
             else \<exists>v. r = Return v \<and> read_stop cout m (length cs) v p'))"
proof (intro conjI, goal_cases wr rd)
  case wr
  obtain r p' where "pipewrite kw cin n i p = (r, p')" by fastforce
  with pipewrite_ok [OF assms this] show ?case by auto
next
  case rd
  obtain r cs p' where r: "piperead kr cout m p = (r, cs, p')" by (cases "piperead kr cout m p") auto
  show ?case
  proof (cases "contents p = [] \<and> writeopen p")
    case True
    then show ?thesis using r by (auto simp: piperead_def empty_iff split: if_splits)
  next
    case False
    then obtain v where "r = Return v" "read_loop cout m 0 p = (v, cs, p')"
      using r by (auto simp: piperead_def empty_iff split: prod.splits)
    then show ?thesis using r read_loop_ok [OF assms] False by fastforce
  qed
qed

theorem pipe_results_witness:
  "\<exists>p cs. piperead False (\<lambda>_. True) 8 (put_byte 7 (new_pipe (replicate PIPESIZE 0))) = (Return 1, cs, p) \<and>
     [7] = cs @ contents p"
proof -
  let ?p = "new_pipe (replicate PIPESIZE 0)"
  have "pipe_ok ?p" "contents ?p = []" by (simp_all add: pipe_ok_def new_pipe_def contents_def)
  then have ok: "pipe_ok (put_byte 7 ?p)" "contents (put_byte 7 ?p) = [7]"
    using put_byte_ok [of ?p 7] by (simp_all add: PIPESIZE_def)
  have "fst (piperead False (\<lambda>_. True) 8 (put_byte 7 ?p)) = Return 1"
    by (simp add: piperead_def put_byte_def new_pipe_def read_loop.simps [of _ 8 0] read_loop.simps [of _ 8 "Suc 0"])
  then show ?thesis
    using pipe_results [OF ok(1), where cout = "\<lambda>_. True" and kr = False and m = 8] ok(2)
    by (cases "piperead False (\<lambda>_. True) 8 (put_byte 7 ?p)") auto
qed

end
