(* ===== verification/Console.thy ===== *)
theory Console
  imports Pipe
begin

text \<open>
  The console driver (\<^verbatim>\<open>xv6/kernel/console.c\<close>): line editing in the interrupt handler and the
  reads of processes, over one circular buffer with three counters. The characters sent to
  the UART by echoing are kept in \<open>echo\<close>.
\<close>

definition INPUT_BUF_SIZE :: nat where "INPUT_BUF_SIZE = 128"

record cons =
  cbuf :: "8 word list"
  cr :: "32 word"
  cw :: "32 word"
  ce :: "32 word"
  echo :: "8 word list"

definition ctrl :: "8 word \<Rightarrow> 8 word" where "ctrl x = x - 64"

text \<open>\<^verbatim>\<open>consputc\<close>: \<open>None\<close> is \<^verbatim>\<open>BACKSPACE\<close>.\<close>

definition consputc :: "8 word option \<Rightarrow> cons \<Rightarrow> cons" where
  "consputc c s = s\<lparr>echo := echo s @ (case c of None \<Rightarrow> [8, 32, 8] | Some c \<Rightarrow> [c])\<rparr>"

definition erase :: "cons \<Rightarrow> cons" where
  "erase s = consputc None (s\<lparr>ce := ce s - 1\<rparr>)"

function kill_line :: "cons \<Rightarrow> cons" where
  "kill_line s =
     (if ce s \<noteq> cw s \<and> cbuf s ! slot INPUT_BUF_SIZE (ce s - 1) \<noteq> 10 then kill_line (erase s) else s)"
  by pat_completeness auto
termination
  by (relation "measure (\<lambda>s. unat (ce s - cw s))")
    (auto simp: erase_def consputc_def word_pred_diff)

declare kill_line.simps [simp del]

text \<open>\<open>dump\<close> is what \<^verbatim>\<open>procdump\<close> prints.\<close>

definition consoleintr :: "8 word list \<Rightarrow> 8 word \<Rightarrow> cons \<Rightarrow> cons" where
  "consoleintr dump c s =
     (if c = ctrl 0x50 then s\<lparr>echo := echo s @ dump\<rparr>
      else if c = ctrl 0x55 then kill_line s
      else if c = ctrl 0x48 \<or> c = 0x7f then (if ce s \<noteq> cw s then erase s else s)
      else if c \<noteq> 0 \<and> ce s - cr s < of_nat INPUT_BUF_SIZE then
        (let c = (if c = 13 then 10 else c);
             s = consputc (Some c) s;
             s = s\<lparr>cbuf := (cbuf s)[slot INPUT_BUF_SIZE (ce s) := c], ce := ce s + 1\<rparr> in
         if c = 10 \<or> c = ctrl 0x44 \<or> ce s - cr s = of_nat INPUT_BUF_SIZE then s\<lparr>cw := ce s\<rparr> else s)
      else s)"

text \<open>
  A stretch of \<^verbatim>\<open>consoleread\<close>: \<open>i\<close> bytes are already copied out, \<open>m\<close> are still wanted. The
  parameters \<open>kl\<close> and \<open>cout\<close> are those of \<^verbatim>\<open>piperead\<close>.
\<close>

fun consoleread :: "(nat \<Rightarrow> bool) \<Rightarrow> (nat \<Rightarrow> bool) \<Rightarrow> nat \<Rightarrow> nat \<Rightarrow> cons \<Rightarrow> call \<times> 8 word list \<times> cons" where
  "consoleread kl cout i 0 s = (Return (int i), [], s)"
| "consoleread kl cout i (Suc m) s =
     (if cr s = cw s then (if kl i then (Return (- 1), [], s) else (Sleep i, [], s))
      else
        (let c = cbuf s ! slot INPUT_BUF_SIZE (cr s); s' = s\<lparr>cr := cr s + 1\<rparr> in
         if c = ctrl 0x44 then (Return (int i), [], if 0 < i then s'\<lparr>cr := cr s' - 1\<rparr> else s')
         else if \<not> cout i then (Return (int i), [], s')
         else if c = 10 then (Return (int i + 1), [c], s')
         else (case consoleread kl cout (i + 1) m s' of (r, cs, t) \<Rightarrow> (r, c # cs, t))))"

text \<open>\<^verbatim>\<open>consolewrite\<close>: batches of at most 32 bytes; \<open>cin\<close> copies a batch in, or fails.\<close>

function consolewrite :: "(nat \<Rightarrow> nat \<Rightarrow> 8 word list option) \<Rightarrow> nat \<Rightarrow> nat \<Rightarrow> 8 word list \<Rightarrow> nat \<times> 8 word list" where
  "consolewrite cin n i out =
     (if i < n then
        (let nn = min 32 (n - i) in
         case cin i nn of None \<Rightarrow> (i, out) | Some bs \<Rightarrow> consolewrite cin n (i + nn) (out @ bs))
      else (i, out))"
  by pat_completeness auto
termination by (relation "measure (\<lambda>(cin, n, i, out). n - i)") auto

declare consolewrite.simps [simp del]

section \<open>The line discipline\<close>

text \<open>
  What the driver promises: the complete lines a process can read, and the line being
  edited.
\<close>

record tty =
  ready :: "8 word list"
  line :: "8 word list"

definition tty_intr :: "8 word \<Rightarrow> tty \<Rightarrow> tty" where
  "tty_intr c t =
     (if c = 16 then t
      else if c = 21 then t\<lparr>line := []\<rparr>
      else if c = 8 \<or> c = 127 then t\<lparr>line := butlast (line t)\<rparr>
      else if c \<noteq> 0 \<and> length (ready t) + length (line t) < INPUT_BUF_SIZE then
        (let c = (if c = 13 then 10 else c); l = line t @ [c] in
         if c = 10 \<or> c = 4 \<or> length (ready t) + length l = INPUT_BUF_SIZE
         then \<lparr>ready = ready t @ l, line = []\<rparr> else t\<lparr>line := l\<rparr>)
      else t)"

fun tty_read :: "(nat \<Rightarrow> bool) \<Rightarrow> (nat \<Rightarrow> bool) \<Rightarrow> nat \<Rightarrow> nat \<Rightarrow> 8 word list \<Rightarrow> call \<times> 8 word list \<times> 8 word list" where
  "tty_read kl cout i 0 rd = (Return (int i), [], rd)"
| "tty_read kl cout i (Suc m) [] = (if kl i then Return (- 1) else Sleep i, [], [])"
| "tty_read kl cout i (Suc m) (c # rd) =
     (if c = 4 then (Return (int i), [], if 0 < i then c # rd else rd)
      else if \<not> cout i then (Return (int i), [], rd)
      else if c = 10 then (Return (int i + 1), [c], rd)
      else (case tty_read kl cout (i + 1) m rd of (r, cs, t) \<Rightarrow> (r, c # cs, t)))"

definition tty_of :: "cons \<Rightarrow> tty" where
  "tty_of s = \<lparr>ready = items INPUT_BUF_SIZE (cbuf s) (cr s) (cw s), line = items INPUT_BUF_SIZE (cbuf s) (cw s) (ce s)\<rparr>"

definition cons_ok :: "cons \<Rightarrow> bool" where
  "cons_ok s \<longleftrightarrow> length (cbuf s) = INPUT_BUF_SIZE \<and> unat (ce s - cr s) \<le> INPUT_BUF_SIZE \<and>
     unat (ce s - cr s) = unat (cw s - cr s) + unat (ce s - cw s) \<and> 10 \<notin> set (line (tty_of s))"

interpretation cring: ring INPUT_BUF_SIZE
  by unfold_locales (simp_all add: INPUT_BUF_SIZE_def)

lemma tty_of_simps: "ready (tty_of s) = items INPUT_BUF_SIZE (cbuf s) (cr s) (cw s)"
  "line (tty_of s) = items INPUT_BUF_SIZE (cbuf s) (cw s) (ce s)"
  by (simp_all add: tty_of_def)

lemma erase_ok:
  assumes s: "cons_ok s" and e: "ce s \<noteq> cw s"
  shows "cons_ok (erase s)" "tty_of (erase s) = (tty_of s)\<lparr>line := butlast (line (tty_of s))\<rparr>"
    "line (tty_of s) = line (tty_of (erase s)) @ [cbuf s ! slot INPUT_BUF_SIZE (ce s - 1)]"
proof -
  note l = items_last [OF e [symmetric], of INPUT_BUF_SIZE "cbuf s"] and d = word_pred_diff [OF e [symmetric]]
  show t: "tty_of (erase s) = (tty_of s)\<lparr>line := butlast (line (tty_of s))\<rparr>"
    "line (tty_of s) = line (tty_of (erase s)) @ [cbuf s ! slot INPUT_BUF_SIZE (ce s - 1)]"
    by (simp_all add: tty_of_def erase_def consputc_def l)
  have "unat (ce s - cr s) \<noteq> 0" using s d by (simp add: cons_ok_def)
  then have "cr s \<noteq> ce s" by auto
  note d' = word_pred_diff [OF this]
  show "cons_ok (erase s)"
    using s d d' unfolding cons_ok_def t(1) by (auto simp: erase_def consputc_def dest: in_set_butlastD)
qed

lemma kill_line_ok:
  "cons_ok s \<Longrightarrow> cons_ok (kill_line s) \<and> tty_of (kill_line s) = (tty_of s)\<lparr>line := []\<rparr>"
proof (induction s rule: kill_line.induct)
  case (1 s)
  show ?case
  proof (cases "ce s = cw s")
    case True
    then show ?thesis using 1(2) by (simp add: kill_line.simps [of s] tty_of_def)
  next
    case False
    note e = erase_ok [OF 1(2) False]
    have "cbuf s ! slot INPUT_BUF_SIZE (ce s - 1) \<noteq> 10" using 1(2) e(3) by (auto simp: cons_ok_def)
    then show ?thesis using 1(1) [OF conjI [OF False]] e(1,2) False by (simp add: kill_line.simps [of s])
  qed
qed

text \<open>Storing one character, and handing over the line.\<close>

lemma store_ok:
  fixes c :: "8 word" and es :: "8 word list"
  assumes s: "cons_ok s" and n: "unat (ce s - cr s) < INPUT_BUF_SIZE"
  defines "t \<equiv> s\<lparr>cbuf := (cbuf s)[slot INPUT_BUF_SIZE (ce s) := c], ce := ce s + 1, echo := es\<rparr>"
  shows "tty_of t = (tty_of s)\<lparr>line := line (tty_of s) @ [c]\<rparr>"
    "unat (ce t - cr t) = unat (ce s - cr s) + 1" "c \<noteq> 10 \<Longrightarrow> cons_ok t" "cons_ok (t\<lparr>cw := ce t\<rparr>)"
    "tty_of (t\<lparr>cw := ce t\<rparr>) = \<lparr>ready = ready (tty_of s) @ line (tty_of s) @ [c], line = []\<rparr>"
proof -
  have u: "unat (ce s - cr s) = unat (cw s - cr s) + unat (ce s - cw s)" and l: "length (cbuf s) = INPUT_BUF_SIZE"
    using s by (auto simp: cons_ok_def)
  have r: "items INPUT_BUF_SIZE (cbuf t) (cr s) (cw s) = items INPUT_BUF_SIZE (cbuf s) (cr s) (cw s)"
    unfolding t_def using u n by (simp add: cring.items_upd)
  have w: "items INPUT_BUF_SIZE (cbuf t) (cw s) (ce t) = items INPUT_BUF_SIZE (cbuf s) (cw s) (ce s) @ [c]"
    unfolding t_def using u n l by (simp add: cring.items_put)
  have e: "items INPUT_BUF_SIZE (cbuf t) (cr s) (ce t) = items INPUT_BUF_SIZE (cbuf s) (cr s) (ce s) @ [c]"
    unfolding t_def using n l by (simp add: cring.items_put)
  show tt: "tty_of t = (tty_of s)\<lparr>line := line (tty_of s) @ [c]\<rparr>"
    using r w by (simp add: tty_of_def t_def)
  from arg_cong [OF e, of length] arg_cong [OF w, of length]
  have d: "unat (ce t - cr s) = unat (ce s - cr s) + 1" "unat (ce t - cw s) = unat (ce s - cw s) + 1" by simp_all
  then show "unat (ce t - cr t) = unat (ce s - cr s) + 1" by (simp add: t_def)
  show "cons_ok t" if "c \<noteq> 10"
    using s n u d that unfolding cons_ok_def tt by (auto simp: t_def)
  show "cons_ok (t\<lparr>cw := ce t\<rparr>)"
    using s n d(1) unfolding cons_ok_def by (simp add: t_def tty_of_def)
  have split: "items INPUT_BUF_SIZE b (cr s) (ce s) = items INPUT_BUF_SIZE b (cr s) (cw s) @ items INPUT_BUF_SIZE b (cw s) (ce s)" for b :: "8 word list"
    by (rule items_split [OF u])
  show "tty_of (t\<lparr>cw := ce t\<rparr>) = \<lparr>ready = ready (tty_of s) @ line (tty_of s) @ [c], line = []\<rparr>"
    using e split [of "cbuf s"] by (simp add: tty_of_def t_def)
qed

lemma consoleintr_ok:
  assumes s: "cons_ok s"
  shows "cons_ok (consoleintr dump c s)" "tty_of (consoleintr dump c s) = tty_intr c (tty_of s)"
proof -
  have C: "ctrl 0x50 = 16" "ctrl 0x55 = 21" "ctrl 0x48 = 8" "ctrl 0x44 = 4" by (simp_all add: ctrl_def)
  have len: "length (ready (tty_of s)) + length (line (tty_of s)) = unat (ce s - cr s)"
    using s by (simp add: cons_ok_def tty_of_def)
  have full: "x = of_nat INPUT_BUF_SIZE \<longleftrightarrow> unat x = INPUT_BUF_SIZE" "x < of_nat INPUT_BUF_SIZE \<longleftrightarrow> unat x < INPUT_BUF_SIZE"
    for x :: "32 word" by (auto simp: INPUT_BUF_SIZE_def word_unat_eq_iff word_less_nat_alt)
  have "cons_ok (consoleintr dump c s) \<and> tty_of (consoleintr dump c s) = tty_intr c (tty_of s)"
  proof (cases "c = 16 \<or> c = 21 \<or> c = 8 \<or> c = 127 \<or> c = 0 \<or> \<not> unat (ce s - cr s) < INPUT_BUF_SIZE")
    case True
    have "cons_ok (s\<lparr>echo := x\<rparr>) = cons_ok s" "tty_of (s\<lparr>echo := x\<rparr>) = tty_of s" for x
      by (simp_all add: cons_ok_def tty_of_def)
    moreover have "ce s = cw s \<Longrightarrow> (tty_of s)\<lparr>line := butlast (line (tty_of s))\<rparr> = tty_of s" by (simp add: tty_of_def)
    ultimately show ?thesis
      using True s kill_line_ok [OF s] erase_ok(1,2) [OF s] len
      by (auto simp: consoleintr_def tty_intr_def C full)
  next
    case False
    define c' where "c' = (if c = 13 then 10 else c)"
    let ?t = "s\<lparr>cbuf := (cbuf s)[slot INPUT_BUF_SIZE (ce s) := c'], ce := ce s + 1, echo := echo s @ [c']\<rparr>"
    have n: "unat (ce s - cr s) < INPUT_BUF_SIZE" using False by simp
    note st = store_ok [OF s n, where c = c' and es = "echo s @ [c']"]
    have "consoleintr dump c s = (if c' = 10 \<or> c' = 4 \<or> ce ?t - cr ?t = of_nat INPUT_BUF_SIZE then ?t\<lparr>cw := ce ?t\<rparr> else ?t)"
      using False by (simp add: consoleintr_def C full consputc_def Let_def c'_def)
    moreover have "tty_intr c (tty_of s) = (if c' = 10 \<or> c' = 4 \<or> unat (ce ?t - cr ?t) = INPUT_BUF_SIZE
        then \<lparr>ready = ready (tty_of s) @ line (tty_of s) @ [c'], line = []\<rparr> else (tty_of s)\<lparr>line := line (tty_of s) @ [c']\<rparr>)"
      using False len st(2) by (simp add: tty_intr_def Let_def flip: c'_def)
    ultimately show ?thesis using st unfolding full by (auto split: if_splits)
  qed
  then show "cons_ok (consoleintr dump c s)" "tty_of (consoleintr dump c s) = tty_intr c (tty_of s)" by auto
qed

lemma take_ok:
  assumes s: "cons_ok s" and r: "cr s \<noteq> cw s"
  shows "cons_ok (s\<lparr>cr := cr s + 1\<rparr>)" "line (tty_of (s\<lparr>cr := cr s + 1\<rparr>)) = line (tty_of s)"
    "ready (tty_of s) = cbuf s ! slot INPUT_BUF_SIZE (cr s) # ready (tty_of (s\<lparr>cr := cr s + 1\<rparr>))"
proof -
  show l: "line (tty_of (s\<lparr>cr := cr s + 1\<rparr>)) = line (tty_of s)" by (simp add: tty_of_def)
  show "ready (tty_of s) = cbuf s ! slot INPUT_BUF_SIZE (cr s) # ready (tty_of (s\<lparr>cr := cr s + 1\<rparr>))"
    using items_get [OF r] by (simp add: tty_of_def)
  have "unat (cw s - cr s) \<noteq> 0" using r by (metis unat_eq_zero eq_iff_diff_eq_0)
  then have "cr s \<noteq> ce s" using s by (auto simp: cons_ok_def)
  then show "cons_ok (s\<lparr>cr := cr s + 1\<rparr>)"
    using s word_suc_diff [OF r] word_suc_diff [of "cr s" "ce s"] unfolding cons_ok_def l by simp
qed

lemma consoleread_ok:
  "cons_ok s \<Longrightarrow> case consoleread kl cout i m s of (r, cs, t) \<Rightarrow>
     cons_ok t \<and> line (tty_of t) = line (tty_of s) \<and> tty_read kl cout i m (ready (tty_of s)) = (r, cs, ready (tty_of t))"
proof (induction m arbitrary: i s)
  case (Suc m)
  show ?case
  proof (cases "cr s = cw s")
    case True
    then show ?thesis using Suc.prems by (simp add: tty_of_def)
  next
    case False
    note t = take_ok [OF Suc.prems False]
    have C: "ctrl 0x44 = 4" by (simp add: ctrl_def)
    have s: "s\<lparr>cr := cr s + 1, cr := cr s + 1 - 1\<rparr> = s" by simp
    show ?thesis
      using Suc.IH [OF t(1), of "i + 1"] t(1,2) s Suc.prems False
      by (auto simp: C Let_def t(3) split: prod.splits)
  qed
qed simp

text \<open>
  C18. The console driver implements its line discipline: with the circular buffer in order,
  each input character acts on the pair of complete input and edited line as specified
  (control-U drops the line, backspace its last character, a newline, control-D or a full
  buffer hands it over), and a read takes from the complete input what the specification
  takes, at most one line and never a control-D. The buffer stays in order, whatever the
  32-bit counters do.
\<close>

theorem console_line_discipline:
  assumes "cons_ok s"
  shows "cons_ok (consoleintr dump c s) \<and> tty_of (consoleintr dump c s) = tty_intr c (tty_of s) \<and>
     (case consoleread kl cout i m s of (r, cs, t) \<Rightarrow> cons_ok t \<and> line (tty_of t) = line (tty_of s) \<and>
        tty_read kl cout i m (ready (tty_of s)) = (r, cs, ready (tty_of t)))"
  by (intro conjI consoleintr_ok [OF assms] consoleread_ok [OF assms])

theorem console_line_discipline_witness:
  "tty_of (consoleintr [] 10 (consoleintr [] 97 \<lparr>cbuf = replicate 128 0, cr = - 1, cw = - 1, ce = - 1, echo = []\<rparr>)) =
     \<lparr>ready = [97, 10], line = []\<rparr>"
proof -
  let ?s = "\<lparr>cbuf = replicate 128 0, cr = - 1, cw = - 1, ce = - 1, echo = []\<rparr>"
  have s: "cons_ok ?s" "tty_of ?s = \<lparr>ready = [], line = []\<rparr>" by (simp_all add: cons_ok_def tty_of_def INPUT_BUF_SIZE_def)
  note 1 = console_line_discipline [OF s(1), of "[]" 97]
  from 1 have "cons_ok (consoleintr [] 97 ?s)" by blast
  from console_line_discipline [OF this, of "[]" 10] 1 show ?thesis
    by (simp add: s(2) tty_intr_def INPUT_BUF_SIZE_def Let_def)
qed

end
