(* ===== verification/Proc.thy ===== *)
theory Proc
  imports Prelude "HOL-Library.Word" "HOL-Library.Monad_Syntax"
begin

text \<open>
  The process table (\<^verbatim>\<open>xv6/kernel/proc.c\<close>): creation, exit, waiting, sleeping and waking. An
  operation is one step: the code holds the locks of what it changes. Panics are \<open>None\<close>. The
  results of the page allocator and of the copies to user memory are arguments.
\<close>

section \<open>State\<close>

definition NPROC :: nat where "NPROC = 64"

datatype procstate = UNUSED | USED | SLEEPING | RUNNABLE | RUNNING | ZOMBIE

text \<open>Wait channels are addresses: of a process, of \<^verbatim>\<open>ticks\<close>, of other kernel objects.\<close>

datatype channel = Proc_chan nat | Ticks_chan | Other_chan nat

record proc =
  state :: procstate
  chan :: "channel option"
  killed :: bool
  xstate :: int
  pid :: int
  parent :: "nat option"
  sz :: "64 word"
  pagetable :: "nat option"
  trapframe :: "nat option"
  tf_regs :: "nat \<Rightarrow> 64 word"
  ofile :: "nat option list"
  cwd :: "nat option"
  name :: string
  priority :: nat
  ticks_used :: nat
  ctime :: "32 word"
  rtime :: "32 word"
  wtime :: "32 word"
  etime :: "32 word"
  first_run :: "32 word"

text \<open>\<open>frefs\<close> and \<open>irefs\<close> are the reference counts of the open files and of the inodes.\<close>

record kst =
  procs :: "proc list"
  nextpid :: int
  initproc :: "nat option"
  ticks :: "32 word"
  frefs :: "nat \<Rightarrow> nat"
  irefs :: "nat \<Rightarrow> nat"

definition proc_at :: "kst \<Rightarrow> nat \<Rightarrow> proc" where
  "proc_at s i = procs s ! i"

definition upd_proc :: "nat \<Rightarrow> (proc \<Rightarrow> proc) \<Rightarrow> kst \<Rightarrow> kst" where
  "upd_proc i f s = s\<lparr>procs := (procs s)[i := f (procs s ! i)]\<rparr>"

section \<open>Creation\<close>

definition procinit :: "kst \<Rightarrow> kst" where
  "procinit s = s\<lparr>procs := map (\<lambda>p. p\<lparr>state := UNUSED\<rparr>) (procs s)\<rparr>"

definition allocpid :: "kst \<Rightarrow> int \<times> kst" where
  "allocpid s = (nextpid s, s\<lparr>nextpid := nextpid s + 1\<rparr>)"

definition freeproc :: "nat \<Rightarrow> kst \<Rightarrow> kst" where
  "freeproc i s = upd_proc i (\<lambda>p. p\<lparr>trapframe := None, pagetable := None, sz := 0, pid := 0, name := '''',
     chan := None, killed := False, xstate := 0, state := UNUSED\<rparr>) s"

text \<open>\<open>tf\<close> is the page \<^verbatim>\<open>kalloc\<close> gives, \<open>pt\<close> what \<^verbatim>\<open>proc_pagetable\<close> gives.\<close>

definition allocproc :: "nat option \<Rightarrow> nat option \<Rightarrow> kst \<Rightarrow> nat option \<times> kst" where
  "allocproc tf pt s =
     (case List.find (\<lambda>i. state (proc_at s i) = UNUSED) [0..<NPROC] of
        None \<Rightarrow> (None, s)
      | Some i \<Rightarrow>
          (let (n, s) = allocpid s;
               s = upd_proc i (\<lambda>p. p\<lparr>pid := n, state := USED, trapframe := tf\<rparr>) s in
           if tf = None then (None, freeproc i s)
           else
             (let s = upd_proc i (\<lambda>p. p\<lparr>pagetable := pt\<rparr>) s in
              if pt = None then (None, freeproc i s)
              else (Some i, upd_proc i (\<lambda>p. p\<lparr>priority := 0, ticks_used := 0, ctime := ticks s,
                       rtime := 0, wtime := 0, etime := 0, first_run := - 1\<rparr>) s))))"

text \<open>\<open>root\<close> is the inode \<^verbatim>\<open>namei\<close> finds; without a process the code dereferences null.\<close>

definition userinit :: "nat option \<Rightarrow> nat option \<Rightarrow> nat \<Rightarrow> kst \<Rightarrow> kst option" where
  "userinit tf pt root s =
     (case allocproc tf pt s of
        (None, s) \<Rightarrow> None
      | (Some i, s) \<Rightarrow> Some (upd_proc i (\<lambda>p. p\<lparr>cwd := Some root, state := RUNNABLE\<rparr>)
                          (s\<lparr>initproc := Some i, irefs := (irefs s)(root := irefs s root + 1)\<rparr>)))"

definition filedup :: "nat \<Rightarrow> kst \<Rightarrow> kst option" where
  "filedup f s = (if frefs s f < 1 then None else Some (s\<lparr>frefs := (frefs s)(f := frefs s f + 1)\<rparr>))"

text \<open>The reference of \<^verbatim>\<open>fileclose\<close>; the file itself is closed when none is left.\<close>

definition fileclose :: "nat \<Rightarrow> kst \<Rightarrow> kst option" where
  "fileclose f s = (if frefs s f < 1 then None else Some (s\<lparr>frefs := (frefs s)(f := frefs s f - 1)\<rparr>))"

fun dup_files :: "nat option list \<Rightarrow> kst \<Rightarrow> kst option" where
  "dup_files [] s = Some s"
| "dup_files (None # fs) s = dup_files fs s"
| "dup_files (Some f # fs) s = do { s \<leftarrow> filedup f s; dup_files fs s }"

text \<open>Register \<^verbatim>\<open>a0\<close> is the word at offset 112 of the trap frame.\<close>

definition A0 :: nat where "A0 = 14"

definition kfork :: "nat \<Rightarrow> nat option \<Rightarrow> nat option \<Rightarrow> bool \<Rightarrow> kst \<Rightarrow> (int \<times> kst) option" where
  "kfork cur tf pt copied s =
     (case allocproc tf pt s of
        (None, s) \<Rightarrow> Some (- 1, s)
      | (Some np, s) \<Rightarrow>
          (if \<not> copied then Some (- 1, freeproc np s)
           else
             (let p = proc_at s cur in do {
                s \<leftarrow> dup_files (ofile p) s;
                let s = (case cwd p of None \<Rightarrow> s | Some c \<Rightarrow> s\<lparr>irefs := (irefs s)(c := irefs s c + 1)\<rparr>);
                    s = upd_proc np (\<lambda>q. q\<lparr>sz := sz p, tf_regs := (tf_regs p)(A0 := 0),
                          ofile := map2 (\<lambda>f g. if f = None then g else f) (ofile p) (ofile q),
                          cwd := cwd p, name := name p, parent := Some cur, state := RUNNABLE\<rparr>) s
                in Some (pid (proc_at s np), s)
              })))"

section \<open>Sleeping and waking\<close>

definition wakeup :: "channel option \<Rightarrow> kst \<Rightarrow> kst" where
  "wakeup c s = s\<lparr>procs := map (\<lambda>p. if chan p = c
       then p\<lparr>chan := None, state := (if state p = SLEEPING then RUNNABLE else state p)\<rparr> else p) (procs s)\<rparr>"

definition sleep_prepare :: "nat \<Rightarrow> channel option \<Rightarrow> kst \<Rightarrow> kst option" where
  "sleep_prepare cur c s = (if c = None then None else Some (upd_proc cur (\<lambda>p. p\<lparr>chan := c\<rparr>) s))"

text \<open>\<open>mlfq\<close> says whether the kernel is built with that scheduler.\<close>

definition sleep :: "bool \<Rightarrow> nat \<Rightarrow> kst \<Rightarrow> kst" where
  "sleep mlfq cur s =
     (if chan (proc_at s cur) \<noteq> None
      then upd_proc cur (\<lambda>p. p\<lparr>state := SLEEPING, ticks_used := (if mlfq then 0 else ticks_used p)\<rparr>) s
      else s)"

definition yield :: "nat \<Rightarrow> kst \<Rightarrow> kst" where
  "yield cur s = upd_proc cur (\<lambda>p. p\<lparr>state := RUNNABLE\<rparr>) s"

definition kkill :: "int \<Rightarrow> kst \<Rightarrow> int \<times> kst" where
  "kkill n s =
     (case List.find (\<lambda>i. pid (proc_at s i) = n) [0..<NPROC] of
        None \<Rightarrow> (- 1, s)
      | Some i \<Rightarrow> (0, upd_proc i (\<lambda>p. p\<lparr>killed := True,
                       state := (if state p = SLEEPING then RUNNABLE else state p)\<rparr>) s))"

definition setkilled :: "nat \<Rightarrow> kst \<Rightarrow> kst" where
  "setkilled i s = upd_proc i (\<lambda>p. p\<lparr>killed := True\<rparr>) s"

section \<open>Exit and wait\<close>

definition reparent :: "nat \<Rightarrow> kst \<Rightarrow> kst" where
  "reparent p s = fold (\<lambda>i s. if parent (proc_at s i) = Some p
       then wakeup (map_option Proc_chan (initproc s)) (upd_proc i (\<lambda>q. q\<lparr>parent := initproc s\<rparr>) s) else s)
     [0..<NPROC] s"

fun close_files :: "nat option list \<Rightarrow> kst \<Rightarrow> kst option" where
  "close_files [] s = Some s"
| "close_files (None # fs) s = close_files fs s"
| "close_files (Some f # fs) s = do { s \<leftarrow> fileclose f s; close_files fs s }"

definition kexit :: "nat \<Rightarrow> int \<Rightarrow> kst \<Rightarrow> kst option" where
  "kexit cur status s =
     (if initproc s = Some cur then None
      else do {
        s \<leftarrow> close_files (ofile (proc_at s cur)) s;
        let s = upd_proc cur (\<lambda>p. p\<lparr>ofile := map (\<lambda>_. None) (ofile p)\<rparr>) s;
            s = (case cwd (proc_at s cur) of None \<Rightarrow> s | Some c \<Rightarrow> s\<lparr>irefs := (irefs s)(c := irefs s c - 1)\<rparr>);
            s = upd_proc cur (\<lambda>p. p\<lparr>cwd := None\<rparr>) s;
            s = reparent cur s;
            s = wakeup (map_option Proc_chan (parent (proc_at s cur))) s
        in Some (upd_proc cur (\<lambda>p. p\<lparr>etime := ticks s, xstate := status, state := ZOMBIE\<rparr>) s)
      })"

text \<open>
  Copies to user memory: a null address is skipped, \<open>co a\<close> says whether the copy to \<open>a\<close>
  succeeds; the first failure ends it.
\<close>

fun copy_outs :: "(64 word \<Rightarrow> bool) \<Rightarrow> (64 word \<times> int) list \<Rightarrow> bool \<times> (64 word \<times> int) list" where
  "copy_outs co [] = (True, [])"
| "copy_outs co ((a, v) # r) =
     (if a = 0 then copy_outs co r
      else if co a then (case copy_outs co r of (ok, w) \<Rightarrow> (ok, (a, v) # w))
      else (False, []))"

datatype wait_result = Waited int | Wait_sleeps

text \<open>One round of the loop of \<^verbatim>\<open>kwait\<close> and \<^verbatim>\<open>waitx\<close>; \<open>outs\<close> are the values copied out for a child.\<close>

definition wait_round :: "(proc \<Rightarrow> (64 word \<times> int) list) \<Rightarrow> nat \<Rightarrow> (64 word \<Rightarrow> bool) \<Rightarrow> kst \<Rightarrow>
    wait_result \<times> (64 word \<times> int) list \<times> kst" where
  "wait_round outs cur co s =
     (case List.find (\<lambda>i. parent (proc_at s i) = Some cur \<and> state (proc_at s i) = ZOMBIE) [0..<NPROC] of
        Some i \<Rightarrow>
          (case copy_outs co (outs (proc_at s i)) of (ok, w) \<Rightarrow>
             if ok then (Waited (pid (proc_at s i)), w, freeproc i (upd_proc i (\<lambda>p. p\<lparr>parent := None\<rparr>) s))
             else (Waited (- 1), w, s))
      | None \<Rightarrow>
          (if (\<forall>i < NPROC. parent (proc_at s i) \<noteq> Some cur) \<or> killed (proc_at s cur) then (Waited (- 1), [], s)
           else (Wait_sleeps, [], upd_proc cur (\<lambda>p. p\<lparr>chan := Some (Proc_chan cur)\<rparr>) s)))"

definition kwait :: "nat \<Rightarrow> 64 word \<Rightarrow> (64 word \<Rightarrow> bool) \<Rightarrow> kst \<Rightarrow> wait_result \<times> (64 word \<times> int) list \<times> kst" where
  "kwait cur addr = wait_round (\<lambda>p. [(addr, xstate p)]) cur"

definition response_time :: "proc \<Rightarrow> 32 word" where
  "response_time p = (if 0 \<le> sint (first_run p) then first_run p - ctime p else 0)"

definition waitx :: "nat \<Rightarrow> 64 word \<Rightarrow> 64 word \<Rightarrow> 64 word \<Rightarrow> 64 word \<Rightarrow> (64 word \<Rightarrow> bool) \<Rightarrow> kst \<Rightarrow>
    wait_result \<times> (64 word \<times> int) list \<times> kst" where
  "waitx cur addr rt wt ret = wait_round (\<lambda>p. [(addr, xstate p), (rt, sint (rtime p)), (wt, sint (wtime p)),
     (ret, sint (response_time p))]) cur"

section \<open>Basic lemmas\<close>

lemma find_upt:
  "List.find P [a..<b] = Some i \<longleftrightarrow> a \<le> i \<and> i < b \<and> P i \<and> (\<forall>j. a \<le> j \<and> j < i \<longrightarrow> \<not> P j)"
proof (induction "b - a" arbitrary: a)
  case (Suc n)
  then have ab: "a < b" "n = b - Suc a" by auto
  show ?case
  proof (cases "P a")
    case True
    then show ?thesis using ab(1) by (auto simp: upt_conv_Cons)
  next
    case False
    then have "List.find P [a..<b] = Some i \<longleftrightarrow> List.find P [Suc a..<b] = Some i" using ab(1) by (simp add: upt_conv_Cons)
    then show ?thesis using Suc.hyps(1) [OF ab(2)] False by (metis Suc_leD le_neq_implies_less Suc_leI)
  qed
qed simp

lemma find_upt_None: "List.find P [a..<b] = None \<longleftrightarrow> (\<forall>j. a \<le> j \<and> j < b \<longrightarrow> \<not> P j)"
  by (auto simp: find_None_iff)

lemma proc_at_upd: "i < length (procs s) \<Longrightarrow> proc_at (upd_proc i f s) k = (if k = i then f (proc_at s i) else proc_at s k)"
  by (simp add: proc_at_def upd_proc_def nth_list_update)

lemma upd_proc_simps [simp]:
  "length (procs (upd_proc i f s)) = length (procs s)" "nextpid (upd_proc i f s) = nextpid s"
  "initproc (upd_proc i f s) = initproc s" "ticks (upd_proc i f s) = ticks s"
  "frefs (upd_proc i f s) = frefs s" "irefs (upd_proc i f s) = irefs s"
  by (simp_all add: upd_proc_def)

lemma proc_at_update [simp]:
  "proc_at (s\<lparr>frefs := x\<rparr>) = proc_at s" "proc_at (s\<lparr>irefs := y\<rparr>) = proc_at s" "proc_at (s\<lparr>initproc := z\<rparr>) = proc_at s"
  "proc_at (s\<lparr>ticks := t\<rparr>) = proc_at s" "proc_at (s\<lparr>nextpid := n\<rparr>) = proc_at s"
  by (simp_all add: proc_at_def fun_eq_iff)

lemma proc_at_map: "k < length (procs s) \<Longrightarrow> proc_at (s\<lparr>procs := map f (procs s)\<rparr>) k = f (proc_at s k)"
  by (simp add: proc_at_def)

lemma wakeup_simps [simp]:
  "length (procs (wakeup c s)) = length (procs s)" "nextpid (wakeup c s) = nextpid s"
  "initproc (wakeup c s) = initproc s" "ticks (wakeup c s) = ticks s"
  "frefs (wakeup c s) = frefs s" "irefs (wakeup c s) = irefs s"
  by (simp_all add: wakeup_def)

lemma proc_at_wakeup: "k < length (procs s) \<Longrightarrow> proc_at (wakeup c s) k =
    (let p = proc_at s k in if chan p = c then p\<lparr>chan := None, state := (if state p = SLEEPING then RUNNABLE else state p)\<rparr> else p)"
  by (simp add: wakeup_def proc_at_map Let_def)

end
