(* ===== verification/Sched.thy ===== *)
theory Sched
  imports Proc
begin

text \<open>
  The three schedulers (\<^verbatim>\<open>xv6/kernel/proc.c\<close>) and the timer interrupt (\<^verbatim>\<open>xv6/kernel/trap.c\<close>).
  A scheduler runs up to the context switch in which it hands the CPU to a process, and again
  when the process has given it back: each such stretch is one function here.
\<close>

datatype policy = FIFO | MLFQ | RR

section \<open>Choosing a process\<close>

definition runnable :: "kst \<Rightarrow> nat \<Rightarrow> bool" where
  "runnable s i \<longleftrightarrow> state (proc_at s i) = RUNNABLE"

text \<open>Round robin: the pass over the table goes on behind the process that ran last.\<close>

definition rr_pick :: "nat \<Rightarrow> kst \<Rightarrow> nat option" where
  "rr_pick pos s = List.find (runnable s) [pos..<NPROC]"

text \<open>FIFO: the runnable process created first, by signed comparison of \<^verbatim>\<open>ctime\<close>.\<close>

definition fifo_step :: "kst \<Rightarrow> nat \<Rightarrow> nat option \<Rightarrow> nat option" where
  "fifo_step s i earliest =
     (if runnable s i \<and> (case earliest of None \<Rightarrow> True | Some e \<Rightarrow> ctime (proc_at s i) <s ctime (proc_at s e))
      then Some i else earliest)"

definition fifo_pick :: "kst \<Rightarrow> nat option" where
  "fifo_pick s = fold (fifo_step s) [0..<NPROC] None"

text \<open>MLFQ: the queues from 0 to 3, each in the order of the table.\<close>

definition mlfq_pick :: "kst \<Rightarrow> nat option" where
  "mlfq_pick s = map_option snd (List.find (\<lambda>(q, i). runnable s i \<and> priority (proc_at s i) = q)
     [(q, i). q \<leftarrow> [0..<4], i \<leftarrow> [0..<NPROC]])"

text \<open>The boost; \<open>since\<close> is \<^verbatim>\<open>mlfq_ticks_since_boost\<close>, the difference is unsigned.\<close>

definition mlfq_boost :: "32 word \<Rightarrow> kst \<Rightarrow> 32 word \<times> kst" where
  "mlfq_boost since s =
     (if 48 \<le> ticks s - since then (ticks s, s\<lparr>procs := map (\<lambda>p. p\<lparr>priority := 0, ticks_used := 0\<rparr>) (procs s)\<rparr>)
      else (since, s))"

definition run_proc :: "nat \<Rightarrow> kst \<Rightarrow> kst" where
  "run_proc i s = upd_proc i (\<lambda>p. p\<lparr>state := RUNNING\<rparr>) s"

definition fifo_run :: "nat \<Rightarrow> kst \<Rightarrow> kst" where
  "fifo_run i s = run_proc i (if first_run (proc_at s i) = - 1 then upd_proc i (\<lambda>p. p\<lparr>first_run := ticks s\<rparr>) s else s)"

text \<open>
  One decision of each scheduler: the process it switches to, if any. \<open>sst\<close> is the
  scheduler's own state: the position of the pass, or the tick of the last boost.
\<close>

record sst =
  pos :: nat
  last_boost :: "32 word"

definition scheduler :: "policy \<Rightarrow> sst \<Rightarrow> kst \<Rightarrow> nat option \<times> sst \<times> kst" where
  "scheduler pol c s =
     (case pol of
        FIFO \<Rightarrow> (case fifo_pick s of None \<Rightarrow> (None, c, s) | Some i \<Rightarrow> (Some i, c, fifo_run i s))
      | MLFQ \<Rightarrow>
          (case mlfq_boost (last_boost c) s of (b, s) \<Rightarrow>
             let c = c\<lparr>last_boost := b\<rparr> in
             (case mlfq_pick s of None \<Rightarrow> (None, c, s) | Some i \<Rightarrow> (Some i, c, run_proc i s)))
      | RR \<Rightarrow>
          (case rr_pick (pos c) s of
             None \<Rightarrow> (None, c\<lparr>pos := 0\<rparr>, s)
           | Some i \<Rightarrow> (Some i, c\<lparr>pos := i + 1\<rparr>, run_proc i s)))"

section \<open>The timer interrupt\<close>

definition clockintr :: "nat \<Rightarrow> kst \<Rightarrow> kst" where
  "clockintr cpu s =
     (if cpu = 0 then wakeup (Some Ticks_chan) (s\<lparr>ticks := ticks s + 1\<rparr>) else s)"

text \<open>The accounting at a timer interrupt from user mode.\<close>

definition account :: "nat \<Rightarrow> kst \<Rightarrow> kst" where
  "account cur s =
     (let s = upd_proc cur (\<lambda>p. p\<lparr>rtime := rtime p + 1\<rparr>) s in
      fold (\<lambda>i s. if i \<noteq> cur \<and> runnable s i then upd_proc i (\<lambda>p. p\<lparr>wtime := wtime p + 1\<rparr>) s else s) [0..<NPROC] s)"

definition slice_ticks :: "nat list" where "slice_ticks = [1, 4, 8, 16]"

definition higher_waits :: "nat \<Rightarrow> kst \<Rightarrow> bool" where
  "higher_waits cur s =
     list_ex (\<lambda>q. list_ex (\<lambda>i. runnable s i \<and> priority (proc_at s i) = q) [0..<NPROC]) [0..<priority (proc_at s cur)]"

text \<open>The MLFQ part; \<open>None\<close> is an access outside \<^verbatim>\<open>slice_ticks\<close>.\<close>

definition mlfq_tick :: "nat \<Rightarrow> kst \<Rightarrow> kst option" where
  "mlfq_tick cur s =
     (let s = upd_proc cur (\<lambda>p. p\<lparr>ticks_used := ticks_used p + 1\<rparr>) s; p = proc_at s cur in
      if length slice_ticks \<le> priority p then None
      else if slice_ticks ! priority p \<le> ticks_used p then
        Some (yield cur (upd_proc cur (\<lambda>p. p\<lparr>ticks_used := 0, priority := (if priority p < 3 then priority p + 1 else priority p)\<rparr>) s))
      else if higher_waits cur s then Some (yield cur s) else Some s)"

text \<open>The timer branch of \<^verbatim>\<open>usertrap\<close>, after \<^verbatim>\<open>devintr\<close> has returned 2.\<close>

definition user_tick :: "policy \<Rightarrow> nat \<Rightarrow> kst \<Rightarrow> kst option" where
  "user_tick pol cur s =
     (let s = account cur s in
      case pol of FIFO \<Rightarrow> Some s | MLFQ \<Rightarrow> mlfq_tick cur s | RR \<Rightarrow> Some (yield cur s))"

text \<open>The timer branch of \<^verbatim>\<open>kerneltrap\<close>: it yields under every policy.\<close>

definition kernel_tick :: "nat option \<Rightarrow> kst \<Rightarrow> kst" where
  "kernel_tick cur s = (case cur of None \<Rightarrow> s | Some i \<Rightarrow> yield i s)"

section \<open>The clock's system calls\<close>

text \<open>A round of the loop of \<^verbatim>\<open>sys_pause\<close>; \<open>n\<close> is converted to unsigned for the comparison.\<close>

definition sys_pause_round :: "nat \<Rightarrow> 32 word \<Rightarrow> int \<Rightarrow> kst \<Rightarrow> int option \<times> kst" where
  "sys_pause_round cur ticks0 n s =
     (let n = (if n < 0 then 0 else n) in
      if ticks s - ticks0 < of_int n then
        (if killed (proc_at s cur) then (Some (- 1), s)
         else (None, upd_proc cur (\<lambda>p. p\<lparr>chan := Some Ticks_chan\<rparr>) s))
      else (Some 0, s))"

definition sys_uptime :: "kst \<Rightarrow> 32 word" where
  "sys_uptime s = ticks s"

section \<open>Correctness of the choice\<close>

lemma rr_pick_Some:
  "rr_pick k s = Some i \<longleftrightarrow> k \<le> i \<and> i < NPROC \<and> runnable s i \<and> (\<forall>j. k \<le> j \<and> j < i \<longrightarrow> \<not> runnable s j)"
  by (simp add: rr_pick_def find_upt)

lemma rr_pick_None: "rr_pick k s = None \<longleftrightarrow> (\<forall>j. k \<le> j \<and> j < NPROC \<longrightarrow> \<not> runnable s j)"
  by (auto simp: rr_pick_def find_None_iff)

lemma find_least:
  "sorted_wrt r xs \<Longrightarrow> List.find P xs = Some x \<Longrightarrow> x \<in> set xs \<and> P x \<and> (\<forall>y \<in> set xs. P y \<longrightarrow> y = x \<or> r x y)"
  by (induction xs) (auto split: if_splits)

definition before :: "nat \<times> nat \<Rightarrow> nat \<times> nat \<Rightarrow> bool" where
  "before x y \<longleftrightarrow> fst x < fst y \<or> fst x = fst y \<and> snd x < snd y"

lemma queue_order: "sorted_wrt before [(q, i). q \<leftarrow> [0..<m], i \<leftarrow> [0..<n]]"
proof (induction m)
  case (Suc m)
  have "sorted_wrt before (map (Pair m) [0..<n])"
    by (simp add: sorted_wrt_map before_def)
  then show ?case using Suc by (auto simp: sorted_wrt_append) (auto simp: before_def)
qed simp

lemma queue_set: "set [(q, i). q \<leftarrow> [0..<m], i \<leftarrow> [0..<n]] = {0..<m} \<times> {0..<n :: nat}"
  by auto

lemma mlfq_pick_Some:
  assumes "mlfq_pick s = Some i"
  shows "i < NPROC \<and> runnable s i \<and> priority (proc_at s i) < 4 \<and>
     (\<forall>j < NPROC. runnable s j \<and> priority (proc_at s j) < 4 \<longrightarrow> j = i \<or>
        before (priority (proc_at s i), i) (priority (proc_at s j), j))"
proof -
  let ?P = "\<lambda>(q, i). runnable s i \<and> priority (proc_at s i) = q"
  let ?xs = "[(q, i). q \<leftarrow> [0..<4], i \<leftarrow> [0..<NPROC]] :: (nat \<times> nat) list"
  note x = queue_set
  obtain q where f: "List.find ?P ?xs = Some (q, i)" using assms by (auto simp: mlfq_pick_def)
  note l = find_least [OF queue_order f]
  have "j = i \<or> before (priority (proc_at s i), i) (priority (proc_at s j), j)"
    if "j < NPROC" "runnable s j" "priority (proc_at s j) < 4" for j
  proof -
    have "(priority (proc_at s j), j) \<in> set ?xs" unfolding x using that by simp
    then show ?thesis using l that(2) by fastforce
  qed
  then show ?thesis using l unfolding x by auto
qed

lemma mlfq_pick_None: "mlfq_pick s = None \<longleftrightarrow> (\<forall>j < NPROC. runnable s j \<longrightarrow> 4 \<le> priority (proc_at s j))"
  unfolding mlfq_pick_def map_option_is_None find_None_iff queue_set by (auto simp: not_less) (metis not_less)

text \<open>A boost empties all queues but the first; it changes neither states nor anything else.\<close>

lemma boost_priority:
  assumes "mlfq_boost since s = (t, b)"
  shows "priority (proc_at b i) = priority (proc_at s i) \<or> priority (proc_at b i) = 0 \<or> length (procs s) \<le> i"
  using assms by (cases "i < length (procs s)") (auto simp: mlfq_boost_def proc_at_map split: if_splits)

lemma fifo_fold:
  "case fold (fifo_step s) [0..<n] None of
     None \<Rightarrow> \<forall>j < n. \<not> runnable s j
   | Some e \<Rightarrow> e < n \<and> runnable s e \<and> (\<forall>j < n. runnable s j \<longrightarrow> sint (ctime (proc_at s e)) \<le> sint (ctime (proc_at s j)) \<and>
       (j < e \<longrightarrow> sint (ctime (proc_at s e)) < sint (ctime (proc_at s j))))"
proof (induction n)
  case (Suc n)
  have step: "fold (fifo_step s) [0..<Suc n] None = fifo_step s n (fold (fifo_step s) [0..<n] None)" by simp
  show ?case
  proof (cases "fold (fifo_step s) [0..<n] None")
    case None
    with Suc have "\<forall>j < n. \<not> runnable s j" by simp
    then show ?thesis unfolding step None by (auto simp: fifo_step_def less_Suc_eq)
  next
    case (Some e)
    with Suc have "e < n" "runnable s e" "\<And>j. j < n \<Longrightarrow> runnable s j \<Longrightarrow> sint (ctime (proc_at s e)) \<le> sint (ctime (proc_at s j)) \<and>
       (j < e \<longrightarrow> sint (ctime (proc_at s e)) < sint (ctime (proc_at s j)))" by auto
    then show ?thesis unfolding step Some by (fastforce simp: fifo_step_def word_sless_alt less_Suc_eq)
  qed
qed simp


text \<open>A booted kernel with no process.\<close>

definition blank_proc :: proc where
  "blank_proc = \<lparr>state = UNUSED, chan = None, killed = False, xstate = 0, pid = 0, parent = None, sz = 0,
     pagetable = None, trapframe = None, tf_regs = (\<lambda>_. 0), ofile = replicate 16 None, cwd = None, name = '''',
     priority = 0, ticks_used = 0, ctime = 0, rtime = 0, wtime = 0, etime = 0, first_run = 0\<rparr>"

definition blank_kernel :: kst where
  "blank_kernel = \<lparr>procs = replicate NPROC blank_proc, nextpid = 1, initproc = None, ticks = 0,
     frefs = (\<lambda>_. 0), irefs = (\<lambda>_. 0)\<rparr>"

lemma blank_kernel_at: "i < NPROC \<Longrightarrow> proc_at blank_kernel i = blank_proc" "length (procs blank_kernel) = NPROC"
  by (simp_all add: blank_kernel_def proc_at_def)


end
