(* ===== verification/Proc_Inv.thy ===== *)
theory Proc_Inv
  imports Sched
begin

text \<open>
  The invariant of the process table and the steps of the kernel: every operation of the
  running processes, the schedulers and the interrupts, in any order.
\<close>

section \<open>The invariant\<close>

definition NOFILE :: nat where "NOFILE = 16"

definition active :: "procstate \<Rightarrow> bool" where
  "active st \<longleftrightarrow> st = SLEEPING \<or> st = RUNNABLE \<or> st = RUNNING"

text \<open>How many open file descriptors refer to file \<open>f\<close>.\<close>

definition refs :: "kst \<Rightarrow> nat \<Rightarrow> nat" where
  "refs s f = (\<Sum>i < NPROC. count_list (ofile (proc_at s i)) (Some f))"

definition pok :: "kst \<Rightarrow> nat \<Rightarrow> bool" where
  "pok s i = (let p = proc_at s i in length (ofile p) = NOFILE \<and>
     (state p = UNUSED \<longrightarrow> pid p = 0 \<and> parent p = None \<and> chan p = None \<and> trapframe p = None \<and> pagetable p = None \<and> sz p = 0) \<and>
     (state p = UNUSED \<or> state p = ZOMBIE \<longrightarrow> cwd p = None \<and> set (ofile p) \<subseteq> {None}) \<and>
     (state p \<noteq> UNUSED \<longrightarrow> 0 < pid p \<and> pid p < nextpid s \<and> (initproc s = Some i \<or> parent p \<noteq> None)) \<and>
     (\<forall>q. parent p = Some q \<longrightarrow> q < NPROC \<and> active (state (proc_at s q))))"

definition pinv :: "kst \<Rightarrow> bool" where
  "pinv s \<longleftrightarrow> length (procs s) = NPROC \<and> (\<forall>i < NPROC. pok s i) \<and>
     (\<forall>i < NPROC. \<forall>j < NPROC. state (proc_at s i) \<noteq> UNUSED \<and> pid (proc_at s i) = pid (proc_at s j) \<longrightarrow> i = j) \<and>
     (\<exists>r < NPROC. initproc s = Some r \<and> active (state (proc_at s r))) \<and> 0 < nextpid s \<and>
     (\<forall>f. refs s f \<le> frefs s f)"

lemma pinvD:
  assumes "pinv s"
  shows "length (procs s) = NPROC" "i < NPROC \<Longrightarrow> pok s i"
    "i < NPROC \<Longrightarrow> j < NPROC \<Longrightarrow> state (proc_at s i) \<noteq> UNUSED \<Longrightarrow> pid (proc_at s i) = pid (proc_at s j) \<Longrightarrow> i = j"
    "\<exists>r < NPROC. initproc s = Some r \<and> active (state (proc_at s r))" "0 < nextpid s" "refs s f \<le> frefs s f"
  using assms unfolding pinv_def by blast+

lemma pinvI:
  assumes "length (procs s) = NPROC" "\<And>i. i < NPROC \<Longrightarrow> pok s i"
    "\<And>i j. i < NPROC \<Longrightarrow> j < NPROC \<Longrightarrow> state (proc_at s i) \<noteq> UNUSED \<Longrightarrow> pid (proc_at s i) = pid (proc_at s j) \<Longrightarrow> i = j"
    "r < NPROC" "initproc s = Some r" "active (state (proc_at s r))" "0 < nextpid s" "\<And>f. refs s f \<le> frefs s f"
  shows "pinv s"
  using assms unfolding pinv_def by blast

text \<open>Steps that leave the identity and the resources of a process alone.\<close>

definition soft :: "proc \<Rightarrow> proc \<Rightarrow> bool" where
  "soft p p' \<longleftrightarrow> pid p' = pid p \<and> parent p' = parent p \<and> trapframe p' = trapframe p \<and> pagetable p' = pagetable p \<and>
     sz p' = sz p \<and> cwd p' = cwd p \<and> ofile p' = ofile p \<and>
     (state p' = state p \<or> active (state p) \<and> active (state p')) \<and> (state p = UNUSED \<longrightarrow> chan p' = None)"

definition soft_step :: "kst \<Rightarrow> kst \<Rightarrow> bool" where
  "soft_step s s' \<longleftrightarrow> length (procs s') = length (procs s) \<and> nextpid s \<le> nextpid s' \<and> initproc s' = initproc s \<and>
     frefs s' = frefs s \<and> (\<forall>i < NPROC. soft (proc_at s i) (proc_at s' i))"

lemma soft_active: "soft p p' \<Longrightarrow> active (state p') = active (state p)" "soft p p' \<Longrightarrow> (state p' = UNUSED) = (state p = UNUSED)"
  "soft p p' \<Longrightarrow> (state p' = ZOMBIE) = (state p = ZOMBIE)"
  by (auto simp: soft_def active_def)

lemma pinv_soft:
  assumes s: "pinv s" and t: "soft_step s s'"
  shows "pinv s'"
proof -
  have sf: "soft (proc_at s i) (proc_at s' i)" if "i < NPROC" for i using t that by (simp add: soft_step_def)
  note act = soft_active [OF sf]
  have f: "pid (proc_at s' i) = pid (proc_at s i)" "parent (proc_at s' i) = parent (proc_at s i)"
    "ofile (proc_at s' i) = ofile (proc_at s i)" if "i < NPROC" for i
    using sf [OF that] by (auto simp: soft_def)
  have e: "length (procs s') = length (procs s)" "nextpid s \<le> nextpid s'" "initproc s' = initproc s" "frefs s' = frefs s"
    using t by (simp_all add: soft_step_def)
  have ok: "pok s' i" if i: "i < NPROC" for i
  proof -
    have "active (state (proc_at s' q))" if "parent (proc_at s' i) = Some q" for q
      using pinvD(2) [OF s i] that f(2) [OF i] act(1) [of q] by (simp add: pok_def Let_def)
    then show ?thesis
      using pinvD(2) [OF s i] sf [OF i] act(2,3) [OF i] e(2,3) unfolding pok_def Let_def soft_def by simp (meson order_less_le_trans)
  qed
  obtain r where r: "r < NPROC" "initproc s = Some r" "active (state (proc_at s r))" using pinvD(4) [OF s] by blast
  show ?thesis
  proof (rule pinvI [where r = r])
    show "i = j" if "i < NPROC" "j < NPROC" "state (proc_at s' i) \<noteq> UNUSED" "pid (proc_at s' i) = pid (proc_at s' j)" for i j
      using that f(1) act(2) pinvD(3) [OF s that(1,2)] by simp
    show "refs s' g \<le> frefs s' g" for g
      using pinvD(6) [OF s, of g] f(3) by (simp add: refs_def e(4))
    show "0 < nextpid s'" using pinvD(5) [OF s] e(2) by simp
  qed (use ok r e pinvD(1) [OF s] act(1) [OF r(1)] in simp_all)
qed

lemma soft_step_upd:
  assumes "length (procs s) = NPROC" "cur < NPROC" "soft (proc_at s cur) (f (proc_at s cur))"
    "\<forall>i < NPROC. state (proc_at s i) = UNUSED \<longrightarrow> chan (proc_at s i) = None"
  shows "soft_step s (upd_proc cur f s)"
  using assms by (auto simp: soft_step_def proc_at_upd) (auto simp: soft_def)

lemma soft_trans: "soft p q \<Longrightarrow> soft q r \<Longrightarrow> soft p r"
  by (auto simp: soft_def active_def)

lemma soft_step_trans: "soft_step s t \<Longrightarrow> soft_step t u \<Longrightarrow> soft_step s u"
  using soft_trans by (auto simp: soft_step_def)

lemma pinv_chan: "pinv s \<Longrightarrow> \<forall>i < NPROC. state (proc_at s i) = UNUSED \<longrightarrow> chan (proc_at s i) = None"
  using pinvD(2) by (simp add: pok_def Let_def)

lemma soft_step_wakeup: "pinv s \<Longrightarrow> soft_step s (wakeup c s)"
  using pinvD(1) [of s] pinv_chan [of s] by (auto simp: soft_step_def proc_at_wakeup Let_def soft_def active_def)

section \<open>Files\<close>

lemma refs_split:
  "i < NPROC \<Longrightarrow> refs s f = count_list (ofile (proc_at s i)) (Some f) + (\<Sum>k \<in> {..<NPROC} - {i}. count_list (ofile (proc_at s k)) (Some f))"
  unfolding refs_def by (rule sum.remove) simp_all

lemma refs_change:
  assumes "i < NPROC" "\<And>k. k < NPROC \<Longrightarrow> k \<noteq> i \<Longrightarrow> ofile (proc_at s' k) = ofile (proc_at s k)"
  shows "refs s' f + count_list (ofile (proc_at s i)) (Some f) = refs s f + count_list (ofile (proc_at s' i)) (Some f)"
proof -
  have "(\<Sum>k \<in> {..<NPROC} - {i}. count_list (ofile (proc_at s' k)) (Some f)) =
      (\<Sum>k \<in> {..<NPROC} - {i}. count_list (ofile (proc_at s k)) (Some f))"
    using assms(2) by (intro sum.cong) auto
  then show ?thesis using refs_split [OF assms(1), of s f] refs_split [OF assms(1), of s' f] by simp
qed

lemma dup_files_ok:
  "\<forall>f. Some f \<in> set fs \<longrightarrow> 1 \<le> frefs s f \<Longrightarrow>
     dup_files fs s = Some (s\<lparr>frefs := (\<lambda>f. frefs s f + count_list fs (Some f))\<rparr>)"
proof (induction fs s rule: dup_files.induct)
  case (3 f fs s)
  let ?s = "s\<lparr>frefs := (frefs s)(f := frefs s f + 1)\<rparr>"
  have "filedup f s = Some ?s" using 3(2) by (auto simp: filedup_def)
  moreover have "dup_files fs ?s = Some (?s\<lparr>frefs := (\<lambda>f. frefs ?s f + count_list fs (Some f))\<rparr>)"
    using 3(1) [of ?s] 3(2) calculation by simp
  moreover have "(\<lambda>g. frefs ?s g + count_list fs (Some g)) = (\<lambda>g. frefs s g + count_list (Some f # fs) (Some g))" by auto
  ultimately show ?case by simp
qed simp_all

lemma close_files_ok:
  "\<forall>f. count_list fs (Some f) \<le> frefs s f \<Longrightarrow>
     close_files fs s = Some (s\<lparr>frefs := (\<lambda>f. frefs s f - count_list fs (Some f))\<rparr>)"
proof (induction fs s rule: close_files.induct)
  case (3 f fs s)
  let ?s = "s\<lparr>frefs := (frefs s)(f := frefs s f - 1)\<rparr>"
  have n: "count_list fs (Some g) \<le> frefs ?s g" "1 \<le> frefs s f" for g
    using 3(2) [rule_format, of g] 3(2) [rule_format, of f] by (auto split: if_splits)
  then have "fileclose f s = Some ?s" by (simp add: fileclose_def)
  moreover have "close_files fs ?s = Some (?s\<lparr>frefs := (\<lambda>f. frefs ?s f - count_list fs (Some f))\<rparr>)"
    using 3(1) [of ?s] n calculation by simp
  moreover have "(\<lambda>g. frefs ?s g - count_list fs (Some g)) = (\<lambda>g. frefs s g - count_list (Some f # fs) (Some g))" by auto
  ultimately show ?case by simp
qed simp_all

lemma count_None: "set xs \<subseteq> {None} \<Longrightarrow> count_list xs (Some f) = 0"
  by (induction xs) auto

section \<open>Fork\<close>

lemma allocproc_fail:
  assumes s: "pinv s" and a: "allocproc tf pt s = (None, s')"
  shows "soft_step s s' \<and> (\<forall>k < NPROC. state (proc_at s k) \<noteq> UNUSED \<longrightarrow> proc_at s' k = proc_at s k)"
proof (cases "List.find (\<lambda>i. state (proc_at s i) = UNUSED) [0..<NPROC]")
  case None
  then show ?thesis using a pinv_chan [OF s] by (auto simp: allocproc_def soft_step_def soft_def)
next
  case (Some i)
  then have i: "i < NPROC" "state (proc_at s i) = UNUSED" using find_upt [of _ 0 NPROC i] by auto
  have "length (procs s) = NPROC" by (rule pinvD(1) [OF s])
  then have other: "proc_at s' k = proc_at s k" if "k \<noteq> i" for k
    using a Some i that by (auto simp: allocproc_def allocpid_def freeproc_def Let_def proc_at_upd split: if_splits)
  moreover have e: "soft (proc_at s i) (proc_at s' i)" "length (procs s') = length (procs s)" "nextpid s' = nextpid s + 1"
    "initproc s' = initproc s" "frefs s' = frefs s"
    using a Some i pinvD(1,2) [OF s] i
    by (auto simp: allocproc_def allocpid_def freeproc_def Let_def proc_at_upd soft_def pok_def split: if_splits)
  moreover have "soft (proc_at s k) (proc_at s k)" if "k < NPROC" for k using pinv_chan [OF s] that by (simp add: soft_def)
  ultimately have "soft (proc_at s k) (proc_at s' k)" if "k < NPROC" for k using that by (cases "k = i") auto
  moreover have "proc_at s' k = proc_at s k" if "state (proc_at s k) \<noteq> UNUSED" for k using that other i(2) by metis
  ultimately show ?thesis using e by (simp add: soft_step_def)
qed

lemma allocproc_ok:
  assumes s: "pinv s" and a: "allocproc tf pt s = (Some i, s')"
  shows "i < NPROC" "state (proc_at s i) = UNUSED" "k \<noteq> i \<Longrightarrow> proc_at s' k = proc_at s k"
    "proc_at s' i = (proc_at s i)\<lparr>pid := nextpid s, state := USED, trapframe := tf, pagetable := pt, priority := 0,
       ticks_used := 0, ctime := ticks s, rtime := 0, wtime := 0, etime := 0, first_run := - 1\<rparr>"
    "length (procs s') = NPROC" "nextpid s' = nextpid s + 1" "initproc s' = initproc s" "frefs s' = frefs s" "irefs s' = irefs s"
    "ticks s' = ticks s" "tf \<noteq> None" "pt \<noteq> None"
proof -
  have f: "List.find (\<lambda>i. state (proc_at s i) = UNUSED) [0..<NPROC] = Some i" "tf \<noteq> None" "pt \<noteq> None"
    using a by (auto simp: allocproc_def Let_def split: option.splits prod.splits if_splits)
  then show i: "i < NPROC" "state (proc_at s i) = UNUSED" using find_upt [of _ 0 NPROC i] by auto
  note l = pinvD(1) [OF s]
  show "proc_at s' k = proc_at s k" if "k \<noteq> i"
    using a f i l that by (auto simp: allocproc_def allocpid_def Let_def proc_at_upd)
  show "proc_at s' i = (proc_at s i)\<lparr>pid := nextpid s, state := USED, trapframe := tf, pagetable := pt, priority := 0,
       ticks_used := 0, ctime := ticks s, rtime := 0, wtime := 0, etime := 0, first_run := - 1\<rparr>"
    "length (procs s') = NPROC" "nextpid s' = nextpid s + 1" "initproc s' = initproc s" "frefs s' = frefs s" "irefs s' = irefs s"
    "ticks s' = ticks s"
    using a f i l by (auto simp: allocproc_def allocpid_def Let_def proc_at_upd)
  show "tf \<noteq> None" "pt \<noteq> None" by (rule f)+
qed

lemma map2_None: "length xs = length ys \<Longrightarrow> set ys \<subseteq> {None} \<Longrightarrow> map2 (\<lambda>f g. if f = None then g else f) xs ys = xs"
  by (induction xs ys rule: list_induct2) auto

text \<open>A process that is not used has no file; one that is used has a process number of its own.\<close>

lemma pinv_unused:
  assumes "pinv s" "i < NPROC" "state (proc_at s i) = UNUSED"
  shows "set (ofile (proc_at s i)) \<subseteq> {None}" "pid (proc_at s i) = 0" "parent (proc_at s i) = None"
    "length (ofile (proc_at s i)) = NOFILE" "cwd (proc_at s i) = None" "chan (proc_at s i) = None"
  using pinvD(2) [OF assms(1,2)] assms(3) by (auto simp: pok_def Let_def)

lemma pinv_used:
  assumes "pinv s" "i < NPROC" "state (proc_at s i) \<noteq> UNUSED"
  shows "0 < pid (proc_at s i)" "pid (proc_at s i) < nextpid s" "length (ofile (proc_at s i)) = NOFILE"
    "initproc s = Some i \<or> parent (proc_at s i) \<noteq> None"
    "parent (proc_at s i) = Some q \<Longrightarrow> q < NPROC \<and> active (state (proc_at s q))"
    "state (proc_at s i) = ZOMBIE \<Longrightarrow> cwd (proc_at s i) = None \<and> set (ofile (proc_at s i)) \<subseteq> {None}"
  using pinvD(2) [OF assms(1,2)] assms(3) by (auto simp: pok_def Let_def)

lemma pinv_file: "pinv s \<Longrightarrow> i < NPROC \<Longrightarrow> count_list (ofile (proc_at s i)) (Some f) \<le> frefs s f"
  using refs_split [of i s f] pinvD(6) [of s f] by simp

definition child_of :: "nat \<Rightarrow> proc \<Rightarrow> proc \<Rightarrow> bool" where
  "child_of cur p q \<longleftrightarrow> state q = RUNNABLE \<and> parent q = Some cur \<and> sz q = sz p \<and> ofile q = ofile p \<and> cwd q = cwd p \<and>
     name q = name p \<and> tf_regs q = (tf_regs p)(A0 := 0) \<and> chan q = None"

lemma pinv_fork:
  assumes s: "pinv s" and c: "cur < NPROC" "state (proc_at s cur) = RUNNING"
    and np: "np < NPROC" "state (proc_at s np) = UNUSED"
    and t: "length (procs t) = NPROC" "nextpid t = nextpid s + 1" "initproc t = initproc s"
      "\<And>f. frefs t f = frefs s f + count_list (ofile (proc_at s cur)) (Some f)"
      "\<And>k. k \<noteq> np \<Longrightarrow> proc_at t k = proc_at s k" "child_of cur (proc_at s cur) (proc_at t np)" "pid (proc_at t np) = nextpid s"
  shows "pinv t"
proof -
  obtain r where r: "r < NPROC" "initproc s = Some r" "active (state (proc_at s r))" using pinvD(4) [OF s] by blast
  have ne: "cur \<noteq> np" "r \<noteq> np" using c np r by (auto simp: active_def)
  have ac: "active (state (proc_at t q))" if "active (state (proc_at s q))" for q
    using that t(5) [of q] np(2) by (cases "q = np") (auto simp: active_def)
  show ?thesis
  proof (rule pinvI [where r = r])
    show "pok t i" if i: "i < NPROC" for i
    proof (cases "i = np")
      case True
      have "active (state (proc_at t cur))" using ac c(2) by (simp add: active_def)
      then show ?thesis
        using True t c pinvD(5) [OF s] pinv_used(3) [OF s c(1)] by (simp add: pok_def Let_def child_of_def)
    next
      case False
      then show ?thesis using pinvD(2) [OF s i] t(2,3) t(5) [OF False] ac unfolding pok_def Let_def by auto
    qed
    have u: "pid (proc_at s k) \<noteq> nextpid s" if "k < NPROC" for k
      using pinv_used(2) [OF s that] pinv_unused(2) [OF s that] pinvD(5) [OF s] by (cases "state (proc_at s k) = UNUSED") auto
    show "i = j" if "i < NPROC" "j < NPROC" "state (proc_at t i) \<noteq> UNUSED" "pid (proc_at t i) = pid (proc_at t j)" for i j
      using that t(5) [of i] t(5) [of j] t(7) u pinvD(3) [OF s that(1,2)] by (cases "i = np"; cases "j = np") auto
    show "refs t f \<le> frefs t f" for f
    proof -
      have "refs t f + count_list (ofile (proc_at s np)) (Some f) = refs s f + count_list (ofile (proc_at t np)) (Some f)"
        by (rule refs_change [OF np(1)]) (use t(5) in simp)
      then show ?thesis
        using pinvD(6) [OF s, of f] t(4) [of f] t(6) count_None [OF pinv_unused(1) [OF s np]] by (simp add: child_of_def)
    qed
  qed (use r t ac pinvD(5) [OF s] in auto)
qed

text \<open>Fork returns -1 and changes nothing that matters, or makes a child of the caller.\<close>

lemma kfork_ok:
  assumes s: "pinv s" and c: "cur < NPROC" "state (proc_at s cur) = RUNNING"
  shows "\<exists>r t. kfork cur tf pt copied s = Some (r, t) \<and> pinv t \<and>
     (r = - 1 \<and> (\<forall>k < NPROC. state (proc_at s k) \<noteq> UNUSED \<longrightarrow> proc_at t k = proc_at s k) \<or>
      r = nextpid s \<and> (\<exists>np < NPROC. state (proc_at s np) = UNUSED \<and> pid (proc_at t np) = r \<and>
        child_of cur (proc_at s cur) (proc_at t np) \<and> killed (proc_at t np) = killed (proc_at s np) \<and>
        (\<forall>k. k \<noteq> np \<longrightarrow> proc_at t k = proc_at s k)))"
proof (cases "allocproc tf pt s")
  case (Pair r t)
  show ?thesis
  proof (cases r)
    case None
    then show ?thesis
      using allocproc_fail [OF s Pair [unfolded None]] pinv_soft [OF s] Pair by (simp add: kfork_def)
  next
    case (Some np)
    note a = allocproc_ok [OF s Pair [unfolded Some]]
    have ne: "cur \<noteq> np" using a(2) c(2) by auto
    note un = pinv_unused [OF s a(1,2)]
    show ?thesis
    proof (cases copied)
      case False
      have "soft (proc_at s k) (proc_at (freeproc np t) k)" if "k < NPROC" for k
        using that a un pinvD(2) [OF s a(1)] pinv_chan [OF s]
        by (cases "k = np") (auto simp: freeproc_def proc_at_upd soft_def pok_def Let_def)
      then have "soft_step s (freeproc np t)" using a pinvD(1) [OF s] by (simp add: soft_step_def freeproc_def)
      then show ?thesis
        using pinv_soft [OF s] Some Pair False a by (auto simp: kfork_def freeproc_def proc_at_upd)
    next
      case True
      let ?p = "proc_at s cur"
      have p: "proc_at t cur = ?p" using a(3) [OF ne] .
      have "\<forall>f. Some f \<in> set (ofile ?p) \<longrightarrow> 1 \<le> frefs t f"
        using pinv_file [OF s c(1)] a(8) by (metis One_nat_def Suc_leI count_list_0_iff le_trans not_gr_zero)
      note d = dup_files_ok [OF this]
      let ?t1 = "t\<lparr>frefs := (\<lambda>f. frefs t f + count_list (ofile ?p) (Some f))\<rparr>"
      define t2 where "t2 = (case cwd ?p of None \<Rightarrow> ?t1 | Some c \<Rightarrow> ?t1\<lparr>irefs := (irefs ?t1)(c := irefs ?t1 c + 1)\<rparr>)"
      define u where "u = upd_proc np (\<lambda>q. q\<lparr>sz := sz ?p, tf_regs := (tf_regs ?p)(A0 := 0),
                          ofile := map2 (\<lambda>f g. if f = None then g else f) (ofile ?p) (ofile q),
                          cwd := cwd ?p, name := name ?p, parent := Some cur, state := RUNNABLE\<rparr>) t2"
      have k: "kfork cur tf pt copied s = Some (pid (proc_at u np), u)"
        using Pair Some True p d by (simp add: kfork_def Let_def u_def t2_def)
      have t2: "proc_at t2 = proc_at t" "length (procs t2) = NPROC" "nextpid t2 = nextpid t" "initproc t2 = initproc t"
        "frefs t2 = (\<lambda>f. frefs t f + count_list (ofile ?p) (Some f))"
        using a(5) by (auto simp: t2_def split: option.splits)
      have m: "map2 (\<lambda>f g. if f = None then g else f) (ofile ?p) (ofile (proc_at s np)) = ofile ?p"
        using un pinv_used(3) [OF s c(1)] c(2) by (intro map2_None) simp_all
      have at: "proc_at u j = (if j = np then (proc_at t np)\<lparr>sz := sz ?p, tf_regs := (tf_regs ?p)(A0 := 0),
          ofile := ofile ?p, cwd := cwd ?p, name := name ?p, parent := Some cur, state := RUNNABLE\<rparr> else proc_at t j)" for j
        using a(1,4) t2 m by (simp add: u_def proc_at_upd)
      have ch: "child_of cur ?p (proc_at u np)" "pid (proc_at u np) = nextpid s" "killed (proc_at u np) = killed (proc_at s np)"
        using at [of np] a(4) un by (simp_all add: child_of_def)
      have "pinv u"
        by (rule pinv_fork [OF s c a(1,2)]) (use t2 a at ch in \<open>simp_all add: u_def\<close>)
      then show ?thesis using k ch a at by auto
    qed
  qed
qed

section \<open>Exit\<close>

text \<open>As \<open>soft\<close>, but the parent may change.\<close>

definition softp :: "proc \<Rightarrow> proc \<Rightarrow> bool" where
  "softp p q \<longleftrightarrow> soft p (q\<lparr>parent := parent p\<rparr>)"

lemma softp_wakeup:
  assumes "softp (proc_at s k) (proc_at t k)" "k < length (procs t)"
  shows "softp (proc_at s k) (proc_at (wakeup c t) k)" "parent (proc_at (wakeup c t) k) = parent (proc_at t k)"
  using assms by (auto simp: proc_at_wakeup Let_def softp_def soft_def active_def)

lemma reparent_fold:
  fixes p :: nat
  assumes l: "length (procs s) = NPROC" "n \<le> NPROC"
    and ch: "\<forall>i < NPROC. state (proc_at s i) = UNUSED \<longrightarrow> chan (proc_at s i) = None"
  defines "t \<equiv> fold (\<lambda>i s. if parent (proc_at s i) = Some p
       then wakeup (map_option Proc_chan (initproc s)) (upd_proc i (\<lambda>q. q\<lparr>parent := initproc s\<rparr>) s) else s) [0..<n] s"
  shows "length (procs t) = NPROC \<and> nextpid t = nextpid s \<and> initproc t = initproc s \<and> frefs t = frefs s \<and> ticks t = ticks s \<and>
     (\<forall>k < NPROC. softp (proc_at s k) (proc_at t k) \<and>
        parent (proc_at t k) = (if k < n \<and> parent (proc_at s k) = Some p then initproc s else parent (proc_at s k)))"
  unfolding t_def using l(2)
proof (induction n)
  case 0
  then show ?case using l(1) ch by (auto simp: softp_def soft_def)
next
  case (Suc n)
  let ?f = "\<lambda>i s. if parent (proc_at s i) = Some p
       then wakeup (map_option Proc_chan (initproc s)) (upd_proc i (\<lambda>q. q\<lparr>parent := initproc s\<rparr>) s) else s"
  let ?u = "fold ?f [0..<n] s"
  have n: "n < NPROC" using Suc.prems by simp
  have IH: "length (procs ?u) = NPROC" "nextpid ?u = nextpid s" "initproc ?u = initproc s" "frefs ?u = frefs s" "ticks ?u = ticks s"
    "k < NPROC \<Longrightarrow> softp (proc_at s k) (proc_at ?u k)"
    "k < NPROC \<Longrightarrow> parent (proc_at ?u k) = (if k < n \<and> parent (proc_at s k) = Some p then initproc s else parent (proc_at s k))" for k
    using Suc by auto
  let ?v = "upd_proc n (\<lambda>q. q\<lparr>parent := initproc s\<rparr>) ?u"
  have v: "softp (proc_at s k) (proc_at ?v k)" "k < length (procs ?v)"
    "parent (proc_at ?v k) = (if k = n then initproc s else parent (proc_at ?u k))" if "k < NPROC" for k
    using IH(1) IH(6) [OF that] that n by (auto simp: proc_at_upd softp_def)
  show ?case
  proof (cases "parent (proc_at s n) = Some p")
    case True
    then have "fold ?f [0..<Suc n] s = wakeup (map_option Proc_chan (initproc s)) ?v"
      using IH(3) IH(7) [OF n] by simp
    then show ?thesis using softp_wakeup [OF v(1,2)] v(3) IH True by (auto simp: less_Suc_eq)
  next
    case False
    then have "fold ?f [0..<Suc n] s = ?u" using IH(7) [OF n] by simp
    then show ?thesis using IH False by (auto simp: less_Suc_eq)
  qed
qed

lemma pinv_exit:
  assumes s: "pinv s" and c: "cur < NPROC" "state (proc_at s cur) = RUNNING" "initproc s \<noteq> Some cur"
    and t: "length (procs t) = NPROC" "nextpid t = nextpid s" "initproc t = initproc s"
      "\<And>f. frefs t f = frefs s f - count_list (ofile (proc_at s cur)) (Some f)"
    and other: "\<And>k. k < NPROC \<Longrightarrow> k \<noteq> cur \<Longrightarrow> softp (proc_at s k) (proc_at t k)"
    and par: "\<And>k. k < NPROC \<Longrightarrow> parent (proc_at t k) = (if parent (proc_at s k) = Some cur then initproc s else parent (proc_at s k))"
    and me: "state (proc_at t cur) = ZOMBIE" "ofile (proc_at t cur) = map (\<lambda>_. None) (ofile (proc_at s cur)) \<and>
      cwd (proc_at t cur) = None \<and> pid (proc_at t cur) = pid (proc_at s cur)"
  shows "pinv t"
proof -
  obtain r where r: "r < NPROC" "initproc s = Some r" "active (state (proc_at s r))" using pinvD(4) [OF s] by blast
  have o: "pid (proc_at t k) = pid (proc_at s k)" "k \<noteq> cur \<Longrightarrow> ofile (proc_at t k) = ofile (proc_at s k)"
    "state (proc_at t k) = UNUSED \<longleftrightarrow> state (proc_at s k) = UNUSED"
    "k \<noteq> cur \<Longrightarrow> active (state (proc_at t k)) = active (state (proc_at s k))" if "k < NPROC" for k
    using other [OF that] me c(2) by (cases "k = cur"; auto simp: softp_def soft_def active_def)+
  have p: "q < NPROC \<and> active (state (proc_at t q))" if "k < NPROC" "parent (proc_at t k) = Some q" for k q
  proof -
    have "parent (proc_at s k) = Some q \<and> q \<noteq> cur \<or> q = r" using par [OF that(1)] that(2) r by (auto split: if_splits)
    moreover have "parent (proc_at s k) = Some q \<Longrightarrow> q < NPROC \<and> active (state (proc_at s q))"
      using pinvD(2) [OF s that(1)] by (simp add: pok_def Let_def)
    moreover have "r \<noteq> cur" using r(2) c(3) by auto
    ultimately show ?thesis using o(4) r by blast
  qed
  show ?thesis
  proof (rule pinvI [where r = r])
    show "pok t k" if k: "k < NPROC" for k
    proof (cases "k = cur")
      case True
      have "set (ofile (proc_at t cur)) \<subseteq> {None}" "length (ofile (proc_at t cur)) = NOFILE" "parent (proc_at t cur) \<noteq> None"
        using me(2) pinv_used(3,4) [OF s c(1)] c(2,3) par [OF c(1)] r(2) by auto
      then show ?thesis
        using True p [OF k] me pinv_used(1,2) [OF s c(1)] c(2) t(2,3) unfolding pok_def Let_def by simp
    next
      case False
      have pq: "\<forall>q. parent (proc_at t k) = Some q \<longrightarrow> q < NPROC \<and> active (state (proc_at t q))" using p [OF k] by blast
      have f: "pid (proc_at t k) = pid (proc_at s k)" "trapframe (proc_at t k) = trapframe (proc_at s k)"
        "pagetable (proc_at t k) = pagetable (proc_at s k)" "sz (proc_at t k) = sz (proc_at s k)" "cwd (proc_at t k) = cwd (proc_at s k)"
        "ofile (proc_at t k) = ofile (proc_at s k)" "state (proc_at s k) = UNUSED \<Longrightarrow> chan (proc_at t k) = None"
        using other [OF k False] by (auto simp: softp_def soft_def)
      have z: "state (proc_at t k) = ZOMBIE \<longleftrightarrow> state (proc_at s k) = ZOMBIE"
        "parent (proc_at t k) = None \<longleftrightarrow> parent (proc_at s k) = None"
        using other [OF k False] par [OF k] r(2) by (auto simp: softp_def soft_def active_def)
      show ?thesis
        using pq f o(3) [OF k] z pinvD(2) [OF s k] t(2,3) unfolding pok_def Let_def by simp
    qed
    show "i = j" if "i < NPROC" "j < NPROC" "state (proc_at t i) \<noteq> UNUSED" "pid (proc_at t i) = pid (proc_at t j)" for i j
      using that o(1,3) pinvD(3) [OF s that(1,2)] by simp
    show "refs t f \<le> frefs t f" for f
    proof -
      have "count_list (map (\<lambda>_. None) (ofile (proc_at s cur))) (Some f) = 0" by (intro count_None) auto
      then have "refs t f + count_list (ofile (proc_at s cur)) (Some f) = refs s f"
        using refs_change [of cur t s f] o(2) me(2) c(1) by simp
      then show ?thesis using pinvD(6) [OF s, of f] t(4) by simp
    qed
    show "active (state (proc_at t r))" using o(4) [OF r(1)] r c(3) by auto
  qed (use r t pinvD(5) [OF s] in auto)
qed

lemma kexit_ok:
  assumes s: "pinv s" and c: "cur < NPROC" "state (proc_at s cur) = RUNNING" "initproc s \<noteq> Some cur"
  shows "\<exists>t. kexit cur status s = Some t \<and> pinv t \<and> state (proc_at t cur) = ZOMBIE \<and> xstate (proc_at t cur) = status \<and>
     etime (proc_at t cur) = ticks s \<and> pid (proc_at t cur) = pid (proc_at s cur) \<and>
     (\<forall>k < NPROC. parent (proc_at t k) = (if parent (proc_at s k) = Some cur then initproc s else parent (proc_at s k)))"
proof -
  let ?o = "ofile (proc_at s cur)"
  have l: "length (procs s) = NPROC" by (rule pinvD(1) [OF s])
  have cl: "close_files ?o s = Some (s\<lparr>frefs := (\<lambda>f. frefs s f - count_list ?o (Some f))\<rparr>)"
    using pinv_file [OF s c(1)] by (intro close_files_ok) simp
  define s1 where "s1 = upd_proc cur (\<lambda>p. p\<lparr>ofile := map (\<lambda>_. None) (ofile p)\<rparr>) (s\<lparr>frefs := (\<lambda>f. frefs s f - count_list ?o (Some f))\<rparr>)"
  define s2 where "s2 = (case cwd (proc_at s1 cur) of None \<Rightarrow> s1 | Some c \<Rightarrow> s1\<lparr>irefs := (irefs s1)(c := irefs s1 c - 1)\<rparr>)"
  define s3 where "s3 = upd_proc cur (\<lambda>p. p\<lparr>cwd := None\<rparr>) s2"
  define s4 where "s4 = reparent cur s3"
  define s5 where "s5 = wakeup (map_option Proc_chan (parent (proc_at s4 cur))) s4"
  define t where "t = upd_proc cur (\<lambda>p. p\<lparr>etime := ticks s5, xstate := status, state := ZOMBIE\<rparr>) s5"
  have k: "kexit cur status s = Some t"
    using c(3) cl unfolding t_def s5_def s4_def s3_def s2_def s1_def by (simp add: kexit_def Let_def)
  have e1: "proc_at s1 k = (if k = cur then (proc_at s cur)\<lparr>ofile := map (\<lambda>_. None) ?o\<rparr> else proc_at s k)" "length (procs s1) = NPROC" for k
    using l c(1) by (simp_all add: s1_def proc_at_upd)
  have e2: "proc_at s2 = proc_at s1" "length (procs s2) = NPROC" "nextpid s2 = nextpid s" "initproc s2 = initproc s"
    "frefs s2 = (\<lambda>f. frefs s f - count_list ?o (Some f))" "ticks s2 = ticks s"
    using e1(2) by (auto simp: s2_def s1_def split: option.splits)
  have e3: "proc_at s3 k = (if k = cur then (proc_at s cur)\<lparr>ofile := map (\<lambda>_. None) ?o, cwd := None\<rparr> else proc_at s k)"
    "length (procs s3) = NPROC" "nextpid s3 = nextpid s" "initproc s3 = initproc s"
    "frefs s3 = (\<lambda>f. frefs s f - count_list ?o (Some f))" "ticks s3 = ticks s" for k
    using e1 e2 c(1) by (simp_all add: s3_def proc_at_upd)
  have ch: "\<forall>i < NPROC. state (proc_at s3 i) = UNUSED \<longrightarrow> chan (proc_at s3 i) = None" using pinv_chan [OF s] e3(1) c(2) by simp
  note rf = reparent_fold [OF e3(2) order_refl ch, of cur, folded reparent_def, folded s4_def]
  have e4: "length (procs s4) = NPROC" "nextpid s4 = nextpid s" "initproc s4 = initproc s" "ticks s4 = ticks s"
    "frefs s4 = (\<lambda>f. frefs s f - count_list ?o (Some f))"
    using rf e3 by auto
  have par: "parent (proc_at s4 k) = (if parent (proc_at s k) = Some cur then initproc s else parent (proc_at s k))"
    and sp: "softp (proc_at s3 k) (proc_at s4 k)" if "k < NPROC" for k
    using rf that e3(1) [of k] e3(4) by auto
  have e5: "softp (proc_at s3 k) (proc_at s5 k)"
    "parent (proc_at s5 k) = (if parent (proc_at s k) = Some cur then initproc s else parent (proc_at s k))" if "k < NPROC" for k
    using softp_wakeup [OF sp [OF that], of "map_option Proc_chan (parent (proc_at s4 cur))"] e4(1) par that by (auto simp: s5_def)
  have e5': "length (procs s5) = NPROC" "nextpid s5 = nextpid s" "initproc s5 = initproc s" "ticks s5 = ticks s"
    "frefs s5 = (\<lambda>f. frefs s f - count_list ?o (Some f))" using e4 by (simp_all add: s5_def)
  have at: "proc_at t k = (if k = cur then (proc_at s5 cur)\<lparr>etime := ticks s, xstate := status, state := ZOMBIE\<rparr> else proc_at s5 k)" for k
    using e5' c(1) by (simp add: t_def proc_at_upd)
  have "softp (proc_at s k) (proc_at t k)" if "k < NPROC" "k \<noteq> cur" for k
    using e5(1) [OF that(1)] e3(1) [of k] at [of k] that by simp
  moreover have "parent (proc_at t k) = (if parent (proc_at s k) = Some cur then initproc s else parent (proc_at s k))" if "k < NPROC" for k
    using e5(2) [OF that] at [of k] by (cases "k = cur") simp_all
  moreover have "ofile (proc_at t cur) = map (\<lambda>_. None) ?o \<and> cwd (proc_at t cur) = None \<and> pid (proc_at t cur) = pid (proc_at s cur)"
    using e5(1) [OF c(1)] e3(1) [of cur] at [of cur] by (simp add: softp_def soft_def)
  ultimately have "pinv t"
    using at [of cur] e5' by (intro pinv_exit [OF s c]) (simp_all add: t_def)
  then show ?thesis using k at e5 e3(1) [of cur] c(1) by (auto simp: softp_def soft_def)
qed

section \<open>Wait\<close>

lemma pinv_reap:
  assumes s: "pinv s" and i: "i < NPROC" "state (proc_at s i) = ZOMBIE"
  shows "pinv (freeproc i (upd_proc i (\<lambda>p. p\<lparr>parent := None\<rparr>) s))"
proof -
  let ?t = "freeproc i (upd_proc i (\<lambda>p. p\<lparr>parent := None\<rparr>) s)"
  have l: "length (procs s) = NPROC" by (rule pinvD(1) [OF s])
  note z = pinv_used [OF s i(1), unfolded i(2), simplified]
  obtain r where r: "r < NPROC" "initproc s = Some r" "active (state (proc_at s r))" using pinvD(4) [OF s] by blast
  have ne: "r \<noteq> i" using r(3) i(2) by (auto simp: active_def)
  have at: "proc_at ?t k = (if k = i then (proc_at s i)\<lparr>parent := None, trapframe := None, pagetable := None, sz := 0, pid := 0,
     name := '''', chan := None, killed := False, xstate := 0, state := UNUSED\<rparr> else proc_at s k)" for k
    using l i(1) by (simp add: freeproc_def proc_at_upd)
  have e: "nextpid ?t = nextpid s" "initproc ?t = initproc s" "frefs ?t = frefs s" "length (procs ?t) = NPROC"
    using l by (simp_all add: freeproc_def)
  have p: "proc_at ?t q = proc_at s q" if "active (state (proc_at s q))" for q
    using that at [of q] i(2) by (auto simp: active_def)
  show ?thesis
  proof (rule pinvI [where r = r])
    show "pok ?t k" if k: "k < NPROC" for k
    proof (cases "k = i")
      case True
      then show ?thesis using z(3,5) z(6) at [of k] by (simp add: pok_def Let_def)
    next
      case False
      have "parent (proc_at s k) = Some q \<Longrightarrow> q < NPROC \<and> active (state (proc_at s q))" for q
        using pinvD(2) [OF s k] by (simp add: pok_def Let_def)
      then show ?thesis using False pinvD(2) [OF s k] at [of k] e p by (simp add: pok_def Let_def)
    qed
    show "k = j" if "k < NPROC" "j < NPROC" "state (proc_at ?t k) \<noteq> UNUSED" "pid (proc_at ?t k) = pid (proc_at ?t j)" for k j
      using that at [of k] at [of j] pinvD(3) [OF s that(1,2)] pinv_used(1) [OF s that(1)] by (auto split: if_splits)
    show "refs ?t f \<le> frefs ?t f" for f
      using refs_change [of i ?t s f] i(1) at pinvD(6) [OF s, of f] e(3) by simp
  qed (use r e at ne pinvD(5) [OF s] in simp_all)
qed

text \<open>What a round of waiting does, on every branch.\<close>

definition wait_spec :: "(proc \<Rightarrow> (64 word \<times> int) list) \<Rightarrow> nat \<Rightarrow> (64 word \<Rightarrow> bool) \<Rightarrow> kst \<Rightarrow> wait_result \<Rightarrow> kst \<Rightarrow> bool" where
  "wait_spec outs cur co s r t \<longleftrightarrow>
     (if \<exists>i < NPROC. parent (proc_at s i) = Some cur \<and> state (proc_at s i) = ZOMBIE
      then \<exists>i < NPROC. parent (proc_at s i) = Some cur \<and> state (proc_at s i) = ZOMBIE \<and>
        (if fst (copy_outs co (outs (proc_at s i)))
         then r = Waited (pid (proc_at s i)) \<and> state (proc_at t i) = UNUSED \<and> (\<forall>k. k \<noteq> i \<longrightarrow> proc_at t k = proc_at s k)
         else r = Waited (- 1) \<and> t = s)
      else if (\<exists>i < NPROC. parent (proc_at s i) = Some cur) \<and> \<not> killed (proc_at s cur)
      then r = Wait_sleeps \<and> t = upd_proc cur (\<lambda>p. p\<lparr>chan := Some (Proc_chan cur)\<rparr>) s
      else r = Waited (- 1) \<and> t = s)"

lemma wait_round_ok:
  assumes s: "pinv s" and c: "cur < NPROC" "state (proc_at s cur) = RUNNING"
    and w: "wait_round outs cur co s = (r, ws, t)"
  shows "pinv t \<and> wait_spec outs cur co s r t"
proof (cases "List.find (\<lambda>i. parent (proc_at s i) = Some cur \<and> state (proc_at s i) = ZOMBIE) [0..<NPROC]")
  case None
  then have no: "\<not> (\<exists>i < NPROC. parent (proc_at s i) = Some cur \<and> state (proc_at s i) = ZOMBIE)" by (auto simp: find_None_iff)
  have "soft_step s (upd_proc cur (\<lambda>p. p\<lparr>chan := Some (Proc_chan cur)\<rparr>) s)"
    using pinvD(1) [OF s] c pinv_chan [OF s] by (intro soft_step_upd) (simp_all add: soft_def)
  then have "pinv (upd_proc cur (\<lambda>p. p\<lparr>chan := Some (Proc_chan cur)\<rparr>) s)" by (rule pinv_soft [OF s])
  then show ?thesis using None w s no by (auto simp: wait_round_def wait_spec_def split: if_splits)
next
  case (Some i)
  then have i: "i < NPROC" "parent (proc_at s i) = Some cur" "state (proc_at s i) = ZOMBIE"
    using find_upt [of _ 0 NPROC i] by auto
  obtain ok ws' where co: "copy_outs co (outs (proc_at s i)) = (ok, ws')" by fastforce
  show ?thesis
  proof (cases ok)
    case True
    then have "r = Waited (pid (proc_at s i))" "t = freeproc i (upd_proc i (\<lambda>p. p\<lparr>parent := None\<rparr>) s)"
      using w Some co by (auto simp: wait_round_def)
    moreover from this pinvD(1) [OF s] i(1) have "state (proc_at t i) = UNUSED" "\<forall>k. k \<noteq> i \<longrightarrow> proc_at t k = proc_at s k"
      by (auto simp: freeproc_def proc_at_upd)
    ultimately show ?thesis using pinv_reap [OF s i(1,3)] i co True by (auto simp: wait_spec_def)
  next
    case False
    then have "r = Waited (- 1)" "t = s" using w Some co by (auto simp: wait_round_def)
    then show ?thesis using s i co False by (auto simp: wait_spec_def)
  qed
qed

end
