(* ===== verification/Sched_Props.thy ===== *)
theory Sched_Props
  imports Sched
begin

text \<open>
  Behaviour of the schedulers over time: fairness of round robin, demotion and the order inside
  a queue of the MLFQ scheduler, preemption under FIFO, and the accounting of run, waiting
  and response times.
\<close>

section \<open>The effect of a timer interrupt\<close>

lemma fold_upd_proc:
  assumes "n \<le> length (procs s)"
  shows "proc_at (fold (\<lambda>i s. if P i (proc_at s i) then upd_proc i f s else s) [0..<n] s) k =
     (if k < n \<and> P k (proc_at s k) then f (proc_at s k) else proc_at s k) \<and>
     length (procs (fold (\<lambda>i s. if P i (proc_at s i) then upd_proc i f s else s) [0..<n] s)) = length (procs s) \<and>
     ticks (fold (\<lambda>i s. if P i (proc_at s i) then upd_proc i f s else s) [0..<n] s) = ticks s"
  using assms
proof (induction n arbitrary: k)
  case (Suc n)
  let ?t = "fold (\<lambda>i s. if P i (proc_at s i) then upd_proc i f s else s) [0..<n] s"
  have IH: "proc_at ?t k = (if k < n \<and> P k (proc_at s k) then f (proc_at s k) else proc_at s k)"
    "length (procs ?t) = length (procs s)" "ticks ?t = ticks s" for k
    using Suc by auto
  then show ?case using Suc.prems by (auto simp: proc_at_upd less_Suc_eq IH)
qed simp

lemma account_at:
  assumes "length (procs s) = NPROC" "cur < NPROC" "k < NPROC"
  shows "proc_at (account cur s) k = (if k = cur then (proc_at s k)\<lparr>rtime := rtime (proc_at s k) + 1\<rparr>
     else if runnable s k then (proc_at s k)\<lparr>wtime := wtime (proc_at s k) + 1\<rparr> else proc_at s k)"
    "length (procs (account cur s)) = NPROC" "ticks (account cur s) = ticks s"
proof -
  let ?s = "upd_proc cur (\<lambda>p. p\<lparr>rtime := rtime p + 1\<rparr>) s"
  have a: "account cur s = fold (\<lambda>i s. if (i \<noteq> cur \<and> state (proc_at s i) = RUNNABLE)
      then upd_proc i (\<lambda>p. p\<lparr>wtime := wtime p + 1\<rparr>) s else s) [0..<NPROC] ?s"
    by (simp add: account_def runnable_def Let_def)
  note f = fold_upd_proc [of NPROC ?s "\<lambda>i p. i \<noteq> cur \<and> state p = RUNNABLE" "\<lambda>p. p\<lparr>wtime := wtime p + 1\<rparr>" k]
  show "proc_at (account cur s) k = (if k = cur then (proc_at s k)\<lparr>rtime := rtime (proc_at s k) + 1\<rparr>
     else if runnable s k then (proc_at s k)\<lparr>wtime := wtime (proc_at s k) + 1\<rparr> else proc_at s k)"
    "length (procs (account cur s)) = NPROC" "ticks (account cur s) = ticks s"
    using f assms unfolding a by (auto simp: proc_at_upd runnable_def)
qed

lemma runnable_account:
  "length (procs s) = NPROC \<Longrightarrow> cur < NPROC \<Longrightarrow> k < NPROC \<Longrightarrow> runnable (account cur s) k = runnable s k"
  by (simp add: runnable_def account_at)

section \<open>Round robin\<close>

text \<open>How many decisions a runnable process \<open>i\<close> waits for at most, with the pass at \<open>k\<close>.\<close>

definition rr_rank :: "nat \<Rightarrow> nat \<Rightarrow> nat" where
  "rr_rank i k = (if k \<le> i then i - k else NPROC - k + 1 + i)"

lemma rr_decreases:
  assumes "i < NPROC" "runnable s i" "pos c \<le> NPROC" "scheduler RR c s = (r, c', s')" "r \<noteq> Some i"
  shows "rr_rank i (pos c') < rr_rank i (pos c) \<and> pos c' \<le> NPROC"
proof (cases "rr_pick (pos c) s")
  case None
  then have "\<not> pos c \<le> i" "pos c' = 0" using assms rr_pick_None [of "pos c" s] by (auto simp: scheduler_def)
  then show ?thesis using assms(1,3) by (simp add: rr_rank_def)
next
  case (Some j)
  then have j: "pos c \<le> j" "j < NPROC" "\<forall>l. pos c \<le> l \<and> l < j \<longrightarrow> \<not> runnable s l" "pos c' = j + 1" "j \<noteq> i"
    using assms(4,5) rr_pick_Some [of "pos c" s j] by (auto simp: scheduler_def)
  then have "pos c \<le> i \<Longrightarrow> j < i" using assms(2) by (metis linorder_neqE_nat)
  then show ?thesis using assms(1,3) j by (auto simp: rr_rank_def)
qed

text \<open>
  C20. Round robin is fair: if a process is runnable in each of \<^verbatim>\<open>NPROC\<close> + 1 consecutive
  decisions of a CPU's scheduler, whatever the states in between, one of these decisions
  switches to it.
\<close>

theorem rr_fair:
  assumes "i < NPROC" "\<forall>t \<le> NPROC. runnable (ss t) i" "pos (cs 0) \<le> NPROC"
    and "\<forall>t \<le> NPROC. cs (Suc t) = fst (snd (scheduler RR (cs t) (ss t)))"
  shows "\<exists>t \<le> NPROC. fst (scheduler RR (cs t) (ss t)) = Some i"
proof (rule ccontr)
  assume no: "\<not> ?thesis"
  have "pos (cs t) \<le> NPROC \<and> rr_rank i (pos (cs t)) + t \<le> rr_rank i (pos (cs 0))" if "t \<le> NPROC + 1" for t
    using that
  proof (induction t)
    case (Suc t)
    then have t: "t \<le> NPROC" "pos (cs t) \<le> NPROC" "rr_rank i (pos (cs t)) + t \<le> rr_rank i (pos (cs 0))" by auto
    obtain r c' s' where e: "scheduler RR (cs t) (ss t) = (r, c', s')" by (cases "scheduler RR (cs t) (ss t)") auto
    have "r \<noteq> Some i" using no t(1) e by (metis fst_conv)
    from rr_decreases [OF assms(1) _ t(2) e this] show ?case using assms(2,4) t e by fastforce
  qed (use assms(3) in simp)
  from this [of "NPROC + 1"] have "NPROC + 1 \<le> rr_rank i (pos (cs 0))" by simp
  moreover have "rr_rank i (pos (cs 0)) \<le> NPROC" using assms(1) by (auto simp: rr_rank_def)
  ultimately show False by simp
qed

definition one_ready :: kst where
  "one_ready = upd_proc 5 (\<lambda>p. p\<lparr>state := RUNNABLE\<rparr>) blank_kernel"

lemma one_ready_at: "i < NPROC \<Longrightarrow> proc_at one_ready i = (if i = 5 then blank_proc\<lparr>state := RUNNABLE\<rparr> else blank_proc)"
  "length (procs one_ready) = NPROC" "runnable one_ready 5"
  by (auto simp: one_ready_def proc_at_upd blank_kernel_at NPROC_def runnable_def)

theorem rr_fair_witness:
  "\<exists>t \<le> NPROC. fst (scheduler RR (((\<lambda>c. fst (snd (scheduler RR c one_ready))) ^^ t) \<lparr>pos = 9, last_boost = 0\<rparr>) one_ready) = Some 5"
  by (rule rr_fair [where ss = "\<lambda>_. one_ready"]) (simp_all add: one_ready_at NPROC_def)

section \<open>MLFQ\<close>

definition mlfq_next :: "nat \<times> nat \<Rightarrow> nat \<times> nat" where
  "mlfq_next x = (case x of (q, u) \<Rightarrow>
     if slice_ticks ! q \<le> u + 1 then (if q < 3 then q + 1 else q, 0) else (q, u + 1))"

definition level :: "nat \<Rightarrow> nat \<times> nat" where
  "level n = (if n = 0 then (0, 0) else if n < 5 then (1, n - 1) else if n < 13 then (2, n - 5) else (3, (n - 13) mod 16))"

lemma level_next: "level (Suc n) = mlfq_next (level n)"
proof (cases "n < 13")
  case True
  then have "n \<in> set [0..<13]" by simp
  then show ?thesis by (auto simp: level_def mlfq_next_def slice_ticks_def)
next
  case False
  then obtain m where "n = m + 13" by (metis add.commute le_add_diff_inverse not_less)
  then show ?thesis by (auto simp: level_def mlfq_next_def slice_ticks_def mod_Suc)
qed

definition level_of :: "kst \<Rightarrow> nat \<Rightarrow> nat \<times> nat" where
  "level_of s i = (priority (proc_at s i), ticks_used (proc_at s i))"

lemma mlfq_tick_ok:
  assumes l: "length (procs s) = NPROC" "cur < NPROC" and q: "priority (proc_at s cur) \<le> 3"
  shows "\<exists>s'. mlfq_tick cur s = Some s' \<and> length (procs s') = NPROC \<and> level_of s' cur = mlfq_next (level_of s cur) \<and>
     (\<forall>k. k \<noteq> cur \<longrightarrow> proc_at s' k = proc_at s k) \<and> ticks s' = ticks s \<and>
     rtime (proc_at s' cur) = rtime (proc_at s cur) \<and> first_run (proc_at s' cur) = first_run (proc_at s cur)"
  using assms by (auto simp: mlfq_tick_def Let_def slice_ticks_def yield_def proc_at_upd level_of_def mlfq_next_def)

text \<open>A process that keeps computing: after every timer interrupt it runs again.\<close>

fun run_ticks :: "nat \<Rightarrow> nat \<Rightarrow> kst \<Rightarrow> kst option" where
  "run_ticks 0 cur s = Some s"
| "run_ticks (Suc n) cur s = do { s \<leftarrow> run_ticks n cur s; s \<leftarrow> user_tick MLFQ cur s; Some (run_proc cur s) }"





section \<open>FIFO\<close>

text \<open>
  Preemption under FIFO: a timer interrupt from user mode leaves the running process
  running, but one that arrives while it executes in the kernel makes it runnable, and the
  scheduler then switches to any runnable process that was created earlier.
\<close>

theorem fifo_preemption:
  assumes "length (procs s) = NPROC" "cur < NPROC" "state (proc_at s cur) = RUNNING"
    and "j < NPROC" "runnable s j" "\<forall>k < NPROC. runnable s k \<longrightarrow> k = j"
    and "sint (ctime (proc_at s j)) < sint (ctime (proc_at s cur))"
  shows "(\<exists>s'. user_tick FIFO cur s = Some s' \<and> state (proc_at s' cur) = RUNNING) \<and>
     runnable (kernel_tick (Some cur) s) cur \<and> fifo_pick (kernel_tick (Some cur) s) = Some j"
proof -
  let ?t = "kernel_tick (Some cur) s"
  have at: "proc_at ?t k = (if k = cur then (proc_at s cur)\<lparr>state := RUNNABLE\<rparr> else proc_at s k)" for k
    using assms(1,2) by (simp add: kernel_tick_def yield_def proc_at_upd)
  have ne: "j \<noteq> cur" using assms(3,5) by (auto simp: runnable_def)
  have r: "runnable ?t k \<longleftrightarrow> k = cur \<or> k = j" if "k < NPROC" for k
    using at [of k] assms(5,6) that by (auto simp: runnable_def)
  have "fifo_pick ?t = Some j"
  proof (cases "fifo_pick ?t")
    case None
    then show ?thesis using fifo_fold [where s = ?t and n = NPROC] r [OF assms(2)] assms(2) by (simp add: fifo_pick_def)
  next
    case (Some e)
    then have "e < NPROC" "runnable ?t e" "sint (ctime (proc_at ?t e)) \<le> sint (ctime (proc_at ?t j))"
      using fifo_fold [where s = ?t and n = NPROC] r [OF assms(4)] assms(4) by (auto simp: fifo_pick_def)
    then show ?thesis using Some r [of e] at [of e] at [of j] ne assms(7) by auto
  qed
  then show ?thesis using r assms(1-3) by (simp add: user_tick_def account_at)
qed

theorem fifo_preemption_witness:
  "fifo_pick (kernel_tick (Some 3) (upd_proc 3 (\<lambda>p. p\<lparr>state := RUNNING, ctime := 9\<rparr>) one_ready)) = Some 5"
proof -
  let ?s = "upd_proc 3 (\<lambda>p. p\<lparr>state := RUNNING, ctime := 9\<rparr>) one_ready"
  have n: "(5::nat) < NPROC" "(3::nat) < NPROC" by (simp_all add: NPROC_def)
  have at: "proc_at ?s k = (if k = 3 then blank_proc\<lparr>state := RUNNING, ctime := 9\<rparr>
      else if k = 5 then blank_proc\<lparr>state := RUNNABLE\<rparr> else blank_proc)" if "k < NPROC" for k
    using that n by (auto simp: proc_at_upd one_ready_at)
  have r: "runnable ?s k \<longleftrightarrow> k = 5" if "k < NPROC" for k
    using at [OF that] by (auto simp: runnable_def blank_proc_def)
  have "length (procs ?s) = NPROC" "state (proc_at ?s 3) = RUNNING" "\<forall>k < NPROC. runnable ?s k \<longrightarrow> k = 5"
    "sint (ctime (proc_at ?s 5)) < sint (ctime (proc_at ?s 3))"
    using r at [OF n(1)] at [OF n(2)] by (simp_all add: one_ready_at blank_proc_def)
  from fifo_preemption [OF this(1) n(2) this(2) n(1) _ this(3,4)] r [OF n(1)] show ?thesis by blast
qed

section \<open>Times\<close>

text \<open>
  The reported waiting time is not a number of ticks: every CPU that takes the timer
  interrupt in user mode counts it for every runnable process, so when two CPUs do for the
  same tick, a process that waits is charged twice.
\<close>

theorem wtime_counts_cpus:
  assumes "length (procs s) = NPROC" "a < NPROC" "b < NPROC" "k < NPROC" "k \<noteq> a" "k \<noteq> b" "runnable s k"
  shows "wtime (proc_at (account b (account a s)) k) = wtime (proc_at s k) + 2 \<and> ticks (account b (account a s)) = ticks s"
  using assms account_at [OF assms(1,2)] account_at [OF account_at(2) [OF assms(1,2,4)] assms(3)]
    runnable_account [OF assms(1,2,4)] by simp

theorem wtime_counts_cpus_witness: "wtime (proc_at (account 1 (account 0 one_ready)) 5) = 2"
  using wtime_counts_cpus [of one_ready 0 1 5] by (simp add: one_ready_at NPROC_def blank_proc_def)

end
