(* ===== verification/Proc_Steps.thy ===== *)
theory Proc_Steps
  imports Proc_Inv Sched_Props
begin

text \<open>
  The kernel as a step relation: calls of running processes, scheduling decisions and
  interrupts, in any order, with the invariant of the process table preserved by each.
\<close>

datatype label = Prepare nat | Exit nat | Other

inductive kstep :: "policy \<Rightarrow> label \<Rightarrow> kst \<Rightarrow> kst \<Rightarrow> bool" for pol where
  k_fork: "cur < NPROC \<Longrightarrow> state (proc_at s cur) = RUNNING \<Longrightarrow> kfork cur tf pt copied s = Some (r, t) \<Longrightarrow> kstep pol Other s t"
| k_exit: "cur < NPROC \<Longrightarrow> state (proc_at s cur) = RUNNING \<Longrightarrow> kexit cur status s = Some t \<Longrightarrow> kstep pol (Exit cur) s t"
| k_wait: "cur < NPROC \<Longrightarrow> state (proc_at s cur) = RUNNING \<Longrightarrow> wait_round outs cur co s = (w, ws, t) \<Longrightarrow> kstep pol (Prepare cur) s t"
| k_prepare: "cur < NPROC \<Longrightarrow> state (proc_at s cur) = RUNNING \<Longrightarrow> sleep_prepare cur c s = Some t \<Longrightarrow> kstep pol (Prepare cur) s t"
| k_sleep: "cur < NPROC \<Longrightarrow> state (proc_at s cur) = RUNNING \<Longrightarrow> kstep pol Other s (sleep (pol = MLFQ) cur s)"
| k_wakeup: "kstep pol Other s (wakeup c s)"
| k_yield: "cur < NPROC \<Longrightarrow> state (proc_at s cur) = RUNNING \<Longrightarrow> kstep pol Other s (kernel_tick (Some cur) s)"
| k_kill: "kstep pol Other s (snd (kkill n s))"
| k_setkilled: "cur < NPROC \<Longrightarrow> state (proc_at s cur) = RUNNING \<Longrightarrow> kstep pol Other s (setkilled cur s)"
| k_schedule: "kstep pol Other s (snd (snd (scheduler pol c s)))"
| k_clock: "kstep pol Other s (clockintr cpu s)"
| k_tick: "cur < NPROC \<Longrightarrow> state (proc_at s cur) = RUNNING \<Longrightarrow> user_tick pol cur s = Some t \<Longrightarrow> kstep pol Other s t"

definition ksteps :: "policy \<Rightarrow> kst \<Rightarrow> kst \<Rightarrow> bool" where
  "ksteps pol = (\<lambda>s t. \<exists>l. kstep pol l s t)\<^sup>*\<^sup>*"

section \<open>Steps that are soft\<close>

lemma soft_step_refl: "pinv s \<Longrightarrow> soft_step s s"
  using pinv_chan [of s] by (simp add: soft_step_def soft_def)

lemma kkill_cases: "snd (kkill n s) = s \<or> (\<exists>i < NPROC. pid (proc_at s i) = n \<and>
    snd (kkill n s) = upd_proc i (\<lambda>p. p\<lparr>killed := True, state := (if state p = SLEEPING then RUNNABLE else state p)\<rparr>) s)"
  using find_upt [of "\<lambda>i. pid (proc_at s i) = n" 0 NPROC]
  by (auto simp: kkill_def split: option.splits)

lemma scheduler_cases:
  assumes "length (procs s) = NPROC"
  shows "\<exists>b. length (procs b) = NPROC \<and> nextpid b = nextpid s \<and> initproc b = initproc s \<and> frefs b = frefs s \<and>
     (\<forall>k < NPROC. proc_at b k = proc_at s k \<or> pol = MLFQ \<and> proc_at b k = (proc_at s k)\<lparr>priority := 0, ticks_used := 0\<rparr>) \<and>
     (snd (snd (scheduler pol c s)) = b \<or> (\<exists>i < NPROC. runnable b i \<and>
        (snd (snd (scheduler pol c s)) = run_proc i b \<or> pol = FIFO \<and> snd (snd (scheduler pol c s)) = fifo_run i b)))"
proof (cases pol)
  case FIFO
  then show ?thesis
    using fifo_fold [where s = s and n = NPROC] assms
    by (intro exI [of _ s]) (auto simp: scheduler_def fifo_pick_def split: option.splits)
next
  case MLFQ
  obtain t b where m: "mlfq_boost (last_boost c) s = (t, b)" by fastforce
  then have "length (procs b) = NPROC \<and> nextpid b = nextpid s \<and> initproc b = initproc s \<and> frefs b = frefs s \<and>
     (\<forall>k < NPROC. proc_at b k = proc_at s k \<or> proc_at b k = (proc_at s k)\<lparr>priority := 0, ticks_used := 0\<rparr>)"
    using assms by (auto simp: mlfq_boost_def proc_at_map split: if_splits)
  then show ?thesis
    using MLFQ m mlfq_pick_Some [of b] by (intro exI [of _ b]) (auto simp: scheduler_def Let_def split: option.splits)
next
  case RR
  then show ?thesis
    using rr_pick_Some [of "pos c" s] assms
    by (intro exI [of _ s]) (auto simp: scheduler_def split: option.splits)
qed

lemma soft_sched:
  assumes s: "pinv s"
  shows "soft_step s (snd (snd (scheduler pol c s)))"
proof -
  let ?t = "snd (snd (scheduler pol c s))"
  obtain b where b: "length (procs b) = NPROC" "nextpid b = nextpid s" "initproc b = initproc s" "frefs b = frefs s"
    "\<And>k. k < NPROC \<Longrightarrow> proc_at b k = proc_at s k \<or> proc_at b k = (proc_at s k)\<lparr>priority := 0, ticks_used := 0\<rparr>"
    and t: "?t = b \<or> (\<exists>i < NPROC. runnable b i \<and> (?t = run_proc i b \<or> ?t = fifo_run i b))"
    using scheduler_cases [OF pinvD(1) [OF s], of pol c] by blast
  have "soft (proc_at s k) (proc_at b k)" if "k < NPROC" for k
    using b(5) [OF that] pinv_chan [OF s] that by (auto simp: soft_def)
  then have sb: "soft_step s b" using b pinvD(1) [OF s] by (simp add: soft_step_def)
  have ch: "\<forall>i < NPROC. state (proc_at b i) = UNUSED \<longrightarrow> chan (proc_at b i) = None" using pinv_chan [OF pinv_soft [OF s sb]] .
  have run: "soft_step b (run_proc i b)" if "i < NPROC" "runnable b i" for i
    unfolding run_proc_def using that b(1) ch by (intro soft_step_upd) (auto simp: soft_def runnable_def active_def)
  have fst: "soft_step b (upd_proc i (\<lambda>p. p\<lparr>first_run := ticks b\<rparr>) b)" if "i < NPROC" for i
    using that b(1) ch by (intro soft_step_upd) (auto simp: soft_def)
  have "soft_step b (fifo_run i b)" if "i < NPROC" "runnable b i" for i
  proof (cases "first_run (proc_at b i) = - 1")
    case True
    let ?b = "upd_proc i (\<lambda>p. p\<lparr>first_run := ticks b\<rparr>) b"
    have "pinv ?b" by (rule pinv_soft [OF pinv_soft [OF s sb] fst [OF that(1)]])
    then have "soft_step ?b (run_proc i ?b)"
      unfolding run_proc_def using that b(1) ch
      by (intro soft_step_upd) (auto simp: soft_def runnable_def active_def proc_at_upd)
    then show ?thesis using soft_step_trans [OF fst [OF that(1)]] True by (simp add: fifo_run_def)
  qed (use run [OF that] in \<open>simp add: fifo_run_def\<close>)
  then show ?thesis using t soft_step_trans [OF sb] sb run by metis
qed

lemma account_frame: "nextpid (account cur s) = nextpid s \<and> initproc (account cur s) = initproc s \<and> frefs (account cur s) = frefs s"
proof -
  let ?f = "\<lambda>i s. if i \<noteq> cur \<and> runnable s i then upd_proc i (\<lambda>p. p\<lparr>wtime := wtime p + 1\<rparr>) s else s"
  have "nextpid (fold ?f xs s) = nextpid s \<and> initproc (fold ?f xs s) = initproc s \<and> frefs (fold ?f xs s) = frefs s" for xs s
    by (induction xs arbitrary: s) auto
  then show ?thesis by (simp add: account_def Let_def)
qed

lemma soft_user_tick:
  assumes s: "pinv s" and c: "cur < NPROC" "state (proc_at s cur) = RUNNING" and t: "user_tick pol cur s = Some t"
  shows "soft_step s t"
proof -
  let ?a = "account cur s"
  note l = pinvD(1) [OF s] and a = account_at [OF pinvD(1) [OF s] c(1)]
  have fr: "nextpid ?a = nextpid s \<and> initproc ?a = initproc s \<and> frefs ?a = frefs s" by (rule account_frame)
  have "soft (proc_at s k) (proc_at ?a k)" if "k < NPROC" for k
    using a(1) [OF that] pinv_chan [OF s] that c(2) by (auto simp: soft_def)
  then have sa: "soft_step s ?a" using a(2) [OF c(1)] l fr by (simp add: soft_step_def)
  have ia: "pinv ?a" by (rule pinv_soft [OF s sa])
  have upd: "soft_step ?a (upd_proc cur f ?a)"
    if "\<And>p. state p = RUNNING \<Longrightarrow> soft p (f p)" for f
    using that pinvD(1) [OF ia] c pinv_chan [OF ia] a(1) [OF c(1)] by (intro soft_step_upd) simp_all
  have yd: "yield cur (upd_proc cur f ?a) = upd_proc cur (\<lambda>p. (f p)\<lparr>state := RUNNABLE\<rparr>) ?a" for f
    using a(2) [OF c(1)] c(1) by (simp add: yield_def upd_proc_def)
  have uu: "upd_proc cur g (upd_proc cur f ?a) = upd_proc cur (\<lambda>p. g (f p)) ?a" for f g
    using a(2) [OF c(1)] c(1) by (simp add: upd_proc_def)
  have "\<exists>f. t = ?a \<or> t = upd_proc cur f ?a \<and> (\<forall>p. state p = RUNNING \<longrightarrow> soft p (f p))"
  proof (cases pol)
    case FIFO
    then show ?thesis using t by (simp add: user_tick_def Let_def)
  next
    case RR
    then have "t = upd_proc cur (\<lambda>p. p\<lparr>state := RUNNABLE\<rparr>) ?a" using t by (simp add: user_tick_def yield_def Let_def)
    then show ?thesis by (intro exI disjI2) (auto simp: soft_def active_def)
  next
    case MLFQ
    let ?f = "\<lambda>p. p\<lparr>ticks_used := 0, priority := (if priority p < 3 then priority p + 1 else priority p), state := RUNNABLE\<rparr>"
    let ?g = "\<lambda>p. p\<lparr>ticks_used := ticks_used p + 1, state := RUNNABLE\<rparr>" and ?h = "\<lambda>p. p\<lparr>ticks_used := ticks_used p + 1\<rparr>"
    have "t = upd_proc cur ?f ?a \<or> t = upd_proc cur ?g ?a \<or> t = upd_proc cur ?h ?a"
      using t MLFQ by (auto simp: user_tick_def mlfq_tick_def Let_def yd uu cong: if_cong split: if_splits)
    moreover have "soft p (?f p)" "soft p (?g p)" "soft p (?h p)" if "state p = RUNNING" for p
      using that by (auto simp: soft_def active_def)
    ultimately show ?thesis by blast
  qed
  then show ?thesis using sa soft_step_trans [OF sa upd] by blast
qed

lemma kstep_pinv:
  assumes k: "kstep pol l s t" and s: "pinv s"
  shows "pinv t"
  using k
proof cases
  case (k_fork cur tf pt copied r)
  then show ?thesis using kfork_ok [OF s k_fork(2,3), of tf pt copied] by auto
next
  case (k_exit cur status)
  then have "initproc s \<noteq> Some cur" by (auto simp: kexit_def)
  then show ?thesis using kexit_ok [OF s k_exit(2,3), of status] k_exit by auto
next
  case (k_wait cur outs co w ws)
  then show ?thesis using wait_round_ok [OF s k_wait(2,3,4)] by blast
next
  case (k_prepare cur c)
  then have "t = upd_proc cur (\<lambda>p. p\<lparr>chan := c\<rparr>) s" by (simp add: sleep_prepare_def split: if_splits)
  then have "soft_step s t"
    using pinvD(1) [OF s] k_prepare pinv_chan [OF s] by (simp, intro soft_step_upd) (auto simp: soft_def)
  then show ?thesis by (rule pinv_soft [OF s])
next
  case (k_sleep cur)
  have "soft_step s t"
  proof (cases "chan (proc_at s cur) = None")
    case True
    then show ?thesis using k_sleep soft_step_refl [OF s] by (simp add: sleep_def)
  next
    case False
    then show ?thesis
      using k_sleep pinvD(1) [OF s] pinv_chan [OF s]
      by (simp add: sleep_def, intro soft_step_upd) (auto simp: soft_def active_def)
  qed
  then show ?thesis by (rule pinv_soft [OF s])
next
  case (k_wakeup c)
  then show ?thesis using pinv_soft [OF s soft_step_wakeup [OF s]] by simp
next
  case (k_yield cur)
  then have "soft_step s t"
    using pinvD(1) [OF s] pinv_chan [OF s]
    by (simp add: kernel_tick_def yield_def, intro soft_step_upd) (auto simp: soft_def active_def)
  then show ?thesis by (rule pinv_soft [OF s])
next
  case (k_kill n)
  have "soft_step s (upd_proc i (\<lambda>p. p\<lparr>killed := True, state := (if state p = SLEEPING then RUNNABLE else state p)\<rparr>) s)"
    if "i < NPROC" for i
    using that pinvD(1) [OF s] pinv_chan [OF s] by (intro soft_step_upd) (auto simp: soft_def active_def)
  then have "soft_step s t" using kkill_cases [of n s] soft_step_refl [OF s] k_kill by auto
  then show ?thesis by (rule pinv_soft [OF s])
next
  case (k_setkilled cur)
  then have "soft_step s t"
    using pinvD(1) [OF s] pinv_chan [OF s] by (simp add: setkilled_def, intro soft_step_upd) (auto simp: soft_def)
  then show ?thesis by (rule pinv_soft [OF s])
next
  case (k_schedule c)
  then show ?thesis using pinv_soft [OF s soft_sched [OF s]] by simp
next
  case (k_clock cpu)
  have "soft_step s (s\<lparr>ticks := ticks s + 1\<rparr>)" using soft_step_refl [OF s] by (simp add: soft_step_def)
  then have "pinv (s\<lparr>ticks := ticks s + 1\<rparr>)" by (rule pinv_soft [OF s])
  then show ?thesis using k_clock s pinv_soft [OF _ soft_step_wakeup] by (simp add: clockintr_def)
next
  case (k_tick cur)
  then show ?thesis using pinv_soft [OF s soft_user_tick [OF s]] by blast
qed

lemma ksteps_pinv: "ksteps pol s t \<Longrightarrow> pinv s \<Longrightarrow> pinv t"
  unfolding ksteps_def by (induction rule: rtranclp_induct) (use kstep_pinv in blast)+

end
