(* ===== verification/Proc_Props.thy ===== *)
theory Proc_Props
  imports Proc_Steps
begin

text \<open>
  Properties of the kernel's processes over every sequence of steps: the process table, the
  bounds of the MLFQ scheduler, wakeups that are not lost, waiting and killing.
\<close>

section \<open>Fields under exit\<close>

definition wake :: "proc \<Rightarrow> proc" where
  "wake p = p\<lparr>chan := None, state := (if state p = SLEEPING then RUNNABLE else state p)\<rparr>"

lemma wakeup_pred:
  "Q (proc_at s k) \<Longrightarrow> (\<And>p. Q p \<Longrightarrow> Q (wake p)) \<Longrightarrow> k < length (procs s) \<Longrightarrow> Q (proc_at (wakeup c s) k)"
  by (auto simp: proc_at_wakeup Let_def wake_def)

lemma reparent_pred:
  assumes w: "\<And>p. Q p \<Longrightarrow> Q (wake p)" and p: "\<And>p x. Q p \<Longrightarrow> Q (p\<lparr>parent := x\<rparr>)"
    and s: "length (procs s) = NPROC" "k < NPROC" "Q (proc_at s k)"
  shows "Q (proc_at (reparent c s) k) \<and> length (procs (reparent c s)) = NPROC"
proof -
  let ?f = "\<lambda>i s. if parent (proc_at s i) = Some c
       then wakeup (map_option Proc_chan (initproc s)) (upd_proc i (\<lambda>q. q\<lparr>parent := initproc s\<rparr>) s) else s"
  have "Q (proc_at (fold ?f xs s) k) \<and> length (procs (fold ?f xs s)) = NPROC"
    if "length (procs s) = NPROC" "Q (proc_at s k)" "\<forall>i \<in> set xs. i < NPROC" for xs s
    using that
  proof (induction xs arbitrary: s)
    case (Cons i xs)
    let ?t = "upd_proc i (\<lambda>q. q\<lparr>parent := initproc s\<rparr>) s"
    have "Q (proc_at ?t k)" using Cons.prems p by (cases "k = i") (simp_all add: proc_at_upd)
    then have "Q (proc_at (wakeup (map_option Proc_chan (initproc s)) ?t) k)"
      using wakeup_pred [of Q ?t k, OF _ w] s(2) Cons.prems(1) by simp
    then have "Q (proc_at (?f i s) k)" "length (procs (?f i s)) = NPROC" using Cons.prems by simp_all
    then show ?case using Cons.IH [of "?f i s"] Cons.prems(3) by simp
  qed simp
  then show ?thesis using s by (simp add: reparent_def)
qed

lemma close_files_procs: "close_files fs s = Some t \<Longrightarrow> procs t = procs s"
  by (induction fs s rule: close_files.induct) (auto simp: fileclose_def split: bind_splits if_splits)

lemma dup_files_procs: "dup_files fs s = Some t \<Longrightarrow> proc_at t = proc_at s \<and> length (procs t) = length (procs s)"
  by (induction fs s rule: dup_files.induct) (auto simp: filedup_def split: bind_splits if_splits)

lemma kexit_pred:
  assumes w: "\<And>p. Q p \<Longrightarrow> Q (wake p)" and p: "\<And>p x. Q p \<Longrightarrow> Q (p\<lparr>parent := x\<rparr>)"
    and s: "length (procs s) = NPROC" "cur < NPROC" "k < NPROC" "kexit cur status s = Some t" "Q (proc_at s k)"
    and own: "k = cur \<Longrightarrow> (\<forall>p x. Q p \<longrightarrow> Q (p\<lparr>ofile := x\<rparr>)) \<and> (\<forall>p. Q p \<longrightarrow> Q (p\<lparr>cwd := None\<rparr>)) \<and>
      (\<forall>p x. Q p \<longrightarrow> Q (p\<lparr>etime := x, xstate := status, state := ZOMBIE\<rparr>))"
  shows "Q (proc_at t k)"
proof -
  obtain s0 where s0: "close_files (ofile (proc_at s cur)) s = Some s0"
    using s(4) by (auto simp: kexit_def split: if_splits bind_splits)
  define s1 where "s1 = upd_proc cur (\<lambda>p. p\<lparr>ofile := map (\<lambda>_. None) (ofile p)\<rparr>) s0"
  define s2 where "s2 = (case cwd (proc_at s1 cur) of None \<Rightarrow> s1 | Some c \<Rightarrow> s1\<lparr>irefs := (irefs s1)(c := irefs s1 c - 1)\<rparr>)"
  define s3 where "s3 = upd_proc cur (\<lambda>p. p\<lparr>cwd := None\<rparr>) s2"
  define s4 where "s4 = reparent cur s3"
  define s5 where "s5 = wakeup (map_option Proc_chan (parent (proc_at s4 cur))) s4"
  have t: "t = upd_proc cur (\<lambda>p. p\<lparr>etime := ticks s5, xstate := status, state := ZOMBIE\<rparr>) s5"
    using s(4) s0 unfolding s5_def s4_def s3_def s2_def s1_def by (simp add: kexit_def Let_def split: if_splits)
  have e0: "proc_at s0 = proc_at s" "length (procs s0) = NPROC"
    using close_files_procs [OF s0] s(1) by (simp_all add: proc_at_def fun_eq_iff)
  have 1: "Q (proc_at s1 k)" "length (procs s1) = NPROC"
    using e0 s own by (auto simp: s1_def proc_at_upd)
  have 2: "Q (proc_at s2 k)" "length (procs s2) = NPROC"
    using 1 by (auto simp: s2_def split: option.splits)
  have 3: "Q (proc_at s3 k)" "length (procs s3) = NPROC"
    using 2 s own by (auto simp: s3_def proc_at_upd)
  have 4: "Q (proc_at s4 k)" "length (procs s4) = NPROC"
    using reparent_pred [of Q, OF w p 3(2) s(3) 3(1)] by (simp_all add: s4_def)
  have 5: "Q (proc_at s5 k)" "length (procs s5) = NPROC"
    using wakeup_pred [of Q s4 k, OF 4(1) w] 4(2) s(3) by (simp_all add: s5_def)
  show ?thesis using 5 s(2) own by (auto simp: t proc_at_upd)
qed

section \<open>The process table\<close>


text \<open>A kernel whose first process has just been set up.\<close>

definition boot_kernel :: kst where
  "boot_kernel = the (userinit (Some 1) (Some 2) 1 blank_kernel)"

lemma boot_kernel_at:
  "proc_at boot_kernel 0 = blank_proc\<lparr>pid := 1, state := RUNNABLE, trapframe := Some 1, pagetable := Some 2, cwd := Some 1, first_run := - 1\<rparr>"
  "0 < i \<Longrightarrow> i < NPROC \<Longrightarrow> proc_at boot_kernel i = blank_proc"
  "nextpid boot_kernel = 2" "initproc boot_kernel = Some 0" "frefs boot_kernel = (\<lambda>_. 0)" "length (procs boot_kernel) = NPROC"
    "ticks boot_kernel = 0"
proof -
  have n: "(0::nat) < NPROC" by (simp add: NPROC_def)
  have f: "List.find (\<lambda>i. state (proc_at blank_kernel i) = UNUSED) [0..<NPROC] = Some 0"
    using n blank_kernel_at(1) [OF n] by (simp add: find_upt blank_proc_def)
  have b: "boot_kernel = upd_proc 0 (\<lambda>p. p\<lparr>cwd := Some 1, state := RUNNABLE\<rparr>)
     ((snd (allocproc (Some 1) (Some 2) blank_kernel))\<lparr>initproc := Some 0, irefs := (irefs (snd (allocproc (Some 1) (Some 2) blank_kernel)))(1 := 1)\<rparr>)"
    using f by (simp add: boot_kernel_def userinit_def allocproc_def allocpid_def Let_def blank_kernel_def)
  show "proc_at boot_kernel 0 = blank_proc\<lparr>pid := 1, state := RUNNABLE, trapframe := Some 1, pagetable := Some 2, cwd := Some 1, first_run := - 1\<rparr>"
    "0 < i \<Longrightarrow> i < NPROC \<Longrightarrow> proc_at boot_kernel i = blank_proc"
    "nextpid boot_kernel = 2" "initproc boot_kernel = Some 0" "frefs boot_kernel = (\<lambda>_. 0)" "length (procs boot_kernel) = NPROC"
    "ticks boot_kernel = 0"
    using n f blank_kernel_at unfolding b
    by (simp_all add: allocproc_def allocpid_def Let_def proc_at_upd) (simp_all add: blank_kernel_def blank_proc_def)
qed

lemma pinv_boot_kernel: "pinv boot_kernel"
proof (rule pinvI [where r = 0])
  show "pok boot_kernel i" if "i < NPROC" for i
    using that boot_kernel_at by (cases "i = 0") (auto simp: pok_def Let_def blank_proc_def NOFILE_def)
  show "i = j" if "i < NPROC" "j < NPROC" "state (proc_at boot_kernel i) \<noteq> UNUSED"
    "pid (proc_at boot_kernel i) = pid (proc_at boot_kernel j)" for i j
    using that boot_kernel_at by (cases "i = 0"; cases "j = 0") (auto simp: blank_proc_def)
  have "count_list (ofile (proc_at boot_kernel i)) (Some f) = 0" if "i < NPROC" for i f
    using that boot_kernel_at by (cases "i = 0") (auto simp: blank_proc_def count_list_0_iff)
  then show "refs boot_kernel f \<le> frefs boot_kernel f" for f by (simp add: refs_def)
qed (use boot_kernel_at in \<open>simp_all add: active_def NPROC_def\<close>)


section \<open>Priorities and first runs\<close>

text \<open>How the scheduling fields of a slot may change in one step.\<close>

definition lev :: "proc \<Rightarrow> nat \<times> nat" where
  "lev p = (priority p, ticks_used p)"

definition evolves :: "policy \<Rightarrow> proc \<Rightarrow> proc \<Rightarrow> bool" where
  "evolves pol p q \<longleftrightarrow> (first_run q = first_run p \<or> first_run q = - 1 \<or> pol = FIFO) \<and>
     (state p = UNUSED \<and> state q \<noteq> UNUSED \<longrightarrow> first_run q = - 1) \<and>
     (lev q = lev p \<or> lev q = (0, 0) \<or> pol = MLFQ \<and> (lev q = (priority p, 0) \<or> priority p \<le> 3 \<and> lev q = mlfq_next (lev p)))"

lemma evolves_same: "lev q = lev p \<Longrightarrow> first_run q = first_run p \<Longrightarrow> (state p = UNUSED \<Longrightarrow> state q = UNUSED) \<Longrightarrow> evolves pol p q"
  by (auto simp: evolves_def)

lemma evolves_upd:
  assumes "length (procs s) = NPROC" "cur < NPROC" "evolves pol (proc_at s cur) (f (proc_at s cur))" "k < NPROC"
  shows "evolves pol (proc_at s k) (proc_at (upd_proc cur f s) k)"
  using assms by (auto simp: proc_at_upd intro: evolves_same)

lemma evolves_fork:
  assumes s: "pinv s" and c: "cur < NPROC" and f: "kfork cur tf pt copied s = Some (r, t)" and k: "k < NPROC"
  shows "evolves pol (proc_at s k) (proc_at t k)"
proof (cases "allocproc tf pt s")
  case (Pair a u)
  show ?thesis
  proof (cases a)
    case None
    then have t: "t = u" using f Pair by (simp add: kfork_def)
    show ?thesis
    proof (cases "List.find (\<lambda>i. state (proc_at s i) = UNUSED) [0..<NPROC]")
      case None
      then show ?thesis using Pair t by (auto simp: allocproc_def intro: evolves_same)
    next
      case (Some i)
      then have i: "i < NPROC" "state (proc_at s i) = UNUSED" using find_upt [of _ 0 NPROC i] by auto
      then show ?thesis
        using Some Pair t None pinvD(1) [OF s] k
        by (cases "k = i") (auto simp: allocproc_def allocpid_def freeproc_def Let_def proc_at_upd lev_def split: if_splits intro!: evolves_same)
    qed
  next
    case (Some np)
    note al = allocproc_ok [OF s Pair [unfolded Some]]
    show ?thesis
    proof (cases "k = np")
      case True
      have "lev (proc_at t np) = (0, 0) \<and> first_run (proc_at t np) = - 1"
        using f Pair Some al(1,4,5)
        by (auto simp: kfork_def Let_def freeproc_def proc_at_upd lev_def split: if_splits bind_splits option.splits dest!: dup_files_procs)
      then show ?thesis using True by (simp add: evolves_def)
    next
      case False
      then have "proc_at t k = proc_at s k"
        using f Pair Some al(1,3,5)
        by (auto simp: kfork_def Let_def freeproc_def proc_at_upd split: if_splits bind_splits option.splits dest!: dup_files_procs)
      then show ?thesis by (simp add: evolves_same)
    qed
  qed
qed

lemma evolves_tick:
  assumes s: "length (procs s) = NPROC" and c: "cur < NPROC" "state (proc_at s cur) \<noteq> UNUSED"
    and t: "user_tick pol cur s = Some t" and k: "k < NPROC"
  shows "evolves pol (proc_at s k) (proc_at t k)"
proof -
  let ?a = "account cur s"
  note a = account_at [OF s c(1)]
  have l: "lev (proc_at ?a k) = lev (proc_at s k)" "first_run (proc_at ?a k) = first_run (proc_at s k)"
    "state (proc_at ?a k) = state (proc_at s k)" "priority (proc_at ?a k) = priority (proc_at s k)" if "k < NPROC" for k
    using a(1) [OF that] by (auto simp: lev_def)
  show ?thesis
  proof (cases pol)
    case FIFO
    then show ?thesis using t l [OF k] by (auto simp: user_tick_def Let_def intro!: evolves_same)
  next
    case RR
    then have "t = upd_proc cur (\<lambda>p. p\<lparr>state := RUNNABLE\<rparr>) ?a" using t by (simp add: user_tick_def yield_def Let_def)
    then show ?thesis
      using a(2) [OF k] l [OF k] c by (cases "k = cur") (auto simp: proc_at_upd lev_def intro!: evolves_same)
  next
    case MLFQ
    then have m: "mlfq_tick cur ?a = Some t" using t by (simp add: user_tick_def Let_def)
    then have p: "priority (proc_at ?a cur) \<le> 3"
      using a(2) [OF k] c(1) by (auto simp: mlfq_tick_def Let_def proc_at_upd slice_ticks_def split: if_splits)
    from mlfq_tick_ok [OF a(2) [OF k] c(1) p] m
    have q: "level_of t cur = mlfq_next (level_of ?a cur)" "k \<noteq> cur \<Longrightarrow> proc_at t k = proc_at ?a k"
      "first_run (proc_at t cur) = first_run (proc_at ?a cur)" by auto
    then show ?thesis
      using l [OF k] l [OF c(1)] c(2) p MLFQ
      by (cases "k = cur") (auto simp: evolves_def lev_def level_of_def intro!: evolves_same)
  qed
qed

lemma evolves_run: "length (procs b) = NPROC \<Longrightarrow> i < NPROC \<Longrightarrow> runnable b i \<Longrightarrow> k < NPROC \<Longrightarrow>
    evolves pol (proc_at b k) (proc_at (run_proc i b) k) \<and> (pol = FIFO \<longrightarrow> evolves pol (proc_at b k) (proc_at (fifo_run i b) k))"
  by (cases "k = i") (auto simp: run_proc_def fifo_run_def proc_at_upd runnable_def evolves_def lev_def)

lemma wait_round_cases:
  assumes "wait_round outs cur co s = (w, ws, t)"
  shows "t = s \<or> t = upd_proc cur (\<lambda>p. p\<lparr>chan := Some (Proc_chan cur)\<rparr>) s \<or>
     (\<exists>i < NPROC. state (proc_at s i) = ZOMBIE \<and> t = freeproc i (upd_proc i (\<lambda>p. p\<lparr>parent := None\<rparr>) s))"
  using assms find_upt [of "\<lambda>i. parent (proc_at s i) = Some cur \<and> state (proc_at s i) = ZOMBIE" 0 NPROC]
  by (auto simp: wait_round_def split: option.splits prod.splits if_splits)

lemma kstep_evolves:
  assumes s: "pinv s" and st: "kstep pol lb s t" and k: "k < NPROC"
  shows "evolves pol (proc_at s k) (proc_at t k)"
proof -
  note l = pinvD(1) [OF s]
  show ?thesis
    using st
  proof cases
    case (k_fork cur tf pt copied r)
    then show ?thesis using evolves_fork [OF s _ _ k] by blast
  next
    case (k_exit cur status)
    let ?p = "proc_at s k"
    let ?Q = "\<lambda>q. lev q = lev ?p \<and> first_run q = first_run ?p \<and> (state ?p = UNUSED \<longrightarrow> state q = UNUSED)"
    have "?Q (proc_at t k)"
      using k_exit by (intro kexit_pred [of ?Q s cur k status t] l k) (auto simp: wake_def lev_def)
    then show ?thesis by (auto intro: evolves_same)
  next
    case (k_wait cur outs co w ws)
    have f: "evolves pol (proc_at s k) (proc_at (freeproc i (upd_proc i (\<lambda>p. p\<lparr>parent := None\<rparr>) s)) k)" if "i < NPROC" for i
      using that k l by (cases "k = i") (auto simp: freeproc_def proc_at_upd lev_def intro!: evolves_same)
    have u: "evolves pol (proc_at s k) (proc_at (upd_proc cur (\<lambda>p. p\<lparr>chan := x\<rparr>) s) k)" for x
      using k_wait(2) by (intro evolves_upd l k) (auto simp: lev_def intro: evolves_same)
    show ?thesis using wait_round_cases [OF k_wait(4)] f u evolves_same [of "proc_at s k" "proc_at s k"] by blast
  next
    case (k_prepare cur c)
    then show ?thesis
      using k l by (cases "k = cur") (auto simp: sleep_prepare_def proc_at_upd lev_def split: if_splits intro!: evolves_same)
  next
    case (k_sleep cur)
    then show ?thesis
      using k l by (cases "k = cur") (auto simp: sleep_def proc_at_upd evolves_def lev_def)
  next
    case (k_wakeup c)
    then show ?thesis using k l by (auto simp: proc_at_wakeup Let_def lev_def intro!: evolves_same)
  next
    case (k_yield cur)
    then show ?thesis
      using k l by (cases "k = cur") (auto simp: kernel_tick_def yield_def proc_at_upd evolves_def lev_def)
  next
    case (k_kill n)
    then show ?thesis
      using kkill_cases [of n s] k l by (auto simp: proc_at_upd lev_def intro!: evolves_same)
  next
    case (k_setkilled cur)
    then show ?thesis using k l by (cases "k = cur") (auto simp: setkilled_def proc_at_upd lev_def intro!: evolves_same)
  next
    case (k_schedule c)
    obtain b where b: "length (procs b) = NPROC"
      "proc_at b k = proc_at s k \<or> pol = MLFQ \<and> proc_at b k = (proc_at s k)\<lparr>priority := 0, ticks_used := 0\<rparr>"
      and t: "t = b \<or> (\<exists>i < NPROC. runnable b i \<and> (t = run_proc i b \<or> pol = FIFO \<and> t = fifo_run i b))"
      using scheduler_cases [OF l, of pol c] k k_schedule by blast
    have e: "evolves pol (proc_at s k) (proc_at b k)" using b(2) by (auto simp: evolves_def lev_def)
    show ?thesis
    proof (cases "t = b")
      case False
      then obtain i where i: "i < NPROC" "runnable b i" "t = run_proc i b \<or> pol = FIFO \<and> t = fifo_run i b" using t by blast
      have "lev (proc_at t k) = lev (proc_at b k)" "first_run (proc_at t k) = first_run (proc_at b k) \<or> pol = FIFO"
        "state (proc_at b k) = UNUSED \<Longrightarrow> state (proc_at t k) = UNUSED"
        using i b(1) k by (auto simp: run_proc_def fifo_run_def proc_at_upd lev_def runnable_def)
      then show ?thesis using e b(2) by (auto simp: evolves_def)
    qed (use e in simp)
  next
    case (k_clock cpu)
    then show ?thesis using k l by (auto simp: clockintr_def proc_at_wakeup Let_def lev_def intro!: evolves_same)
  next
    case (k_tick cur)
    then show ?thesis using evolves_tick [OF l _ _ _ k] by (metis procstate.distinct(7))
  qed
qed

definition mlfq_ok :: "kst \<Rightarrow> bool" where
  "mlfq_ok s \<longleftrightarrow> (\<forall>i < NPROC. priority (proc_at s i) \<le> 3 \<and> ticks_used (proc_at s i) < slice_ticks ! priority (proc_at s i))"

lemma slices: "q \<le> 3 \<Longrightarrow> 0 < slice_ticks ! q" for q :: nat
  by (cases q; simp add: slice_ticks_def; (rename_tac x; case_tac x; simp; (rename_tac y; case_tac y; simp)))

definition lev_ok :: "nat \<times> nat \<Rightarrow> bool" where
  "lev_ok x \<longleftrightarrow> fst x \<le> 3 \<and> snd x < slice_ticks ! fst x"

lemma lev_ok_simps: "lev_ok (0, 0)" "lev_ok (q, u) \<Longrightarrow> lev_ok (q, 0)" "lev_ok x \<Longrightarrow> lev_ok (mlfq_next x)"
  using slices by (auto simp: lev_ok_def mlfq_next_def not_le split: prod.splits)

lemma mlfq_ok_lev: "mlfq_ok s \<longleftrightarrow> (\<forall>i < NPROC. lev_ok (lev (proc_at s i)))"
  by (simp add: mlfq_ok_def lev_ok_def lev_def)

lemma mlfq_ok_step:
  assumes "pinv s" "kstep pol lb s t" "mlfq_ok s"
  shows "mlfq_ok t"
  unfolding mlfq_ok_lev
proof (intro allI impI)
  fix i
  assume i: "i < NPROC"
  then have p: "lev_ok (lev (proc_at s i))" using assms(3) by (simp add: mlfq_ok_lev)
  have "evolves pol (proc_at s i) (proc_at t i)" by (rule kstep_evolves [OF assms(1,2) i])
  then have "lev (proc_at t i) \<in> {lev (proc_at s i), (0, 0), (priority (proc_at s i), 0), mlfq_next (lev (proc_at s i))}"
    unfolding evolves_def by blast
  then show "lev_ok (lev (proc_at t i))" using p lev_ok_simps by (auto simp: lev_def)
qed

text \<open>
  C24. The MLFQ scheduler stays in its bounds: in every sequence of steps the queue number of
  every slot is at most 3 and the ticks used are below the slice of its queue, so the timer
  interrupt never indexes outside \<^verbatim>\<open>slice_ticks\<close>.
\<close>

theorem mlfq_in_bounds:
  assumes "pinv s" "mlfq_ok s" "ksteps MLFQ s t"
  shows "(\<forall>i < NPROC. priority (proc_at t i) \<le> 3 \<and> ticks_used (proc_at t i) < slice_ticks ! priority (proc_at t i)) \<and>
     (\<forall>cur < NPROC. user_tick MLFQ cur t \<noteq> None)"
proof -
  have "pinv t \<and> mlfq_ok t"
    using assms(3) unfolding ksteps_def
    by (induction rule: rtranclp_induct) (use assms kstep_pinv mlfq_ok_step in blast)+
  then have t: "pinv t" "mlfq_ok t" by auto
  have "user_tick MLFQ cur t \<noteq> None" if "cur < NPROC" for cur
  proof -
    note a = account_at [OF pinvD(1) [OF t(1)] that that]
    have "priority (proc_at (account cur t) cur) \<le> 3" using a(1) t(2) that by (simp add: mlfq_ok_def)
    then show ?thesis using mlfq_tick_ok [OF a(2) that] by (auto simp: user_tick_def Let_def)
  qed
  then show ?thesis using t(2) by (simp add: mlfq_ok_def)
qed

lemma mlfq_ok_boot: "mlfq_ok boot_kernel"
proof -
  have "priority (proc_at boot_kernel i) = 0 \<and> ticks_used (proc_at boot_kernel i) = 0" if "i < NPROC" for i
    using that boot_kernel_at by (cases "i = 0") (auto simp: blank_proc_def)
  then show ?thesis using slices [of 0] by (simp add: mlfq_ok_def)
qed

theorem mlfq_in_bounds_witness: "user_tick MLFQ 0 (clockintr 0 boot_kernel) \<noteq> None"
proof -
  have "ksteps MLFQ boot_kernel (clockintr 0 boot_kernel)" unfolding ksteps_def by (intro r_into_rtranclp exI, rule k_clock)
  from mlfq_in_bounds [OF pinv_boot_kernel mlfq_ok_boot this] show ?thesis by (simp add: NPROC_def)
qed

text \<open>
  The response time is only measured under FIFO: under the other schedulers, in every
  sequence of steps from the boot, \<^verbatim>\<open>first_run\<close> of every process is -1, so \<^verbatim>\<open>waitx\<close> copies out 0
  as the response time of every child, however long it waited for its first run.
\<close>

theorem response_time_zero:
  assumes "pol \<noteq> FIFO" "pinv s" "\<forall>i < NPROC. state (proc_at s i) \<noteq> UNUSED \<longrightarrow> first_run (proc_at s i) = - 1" "ksteps pol s t"
  shows "\<forall>i < NPROC. state (proc_at t i) \<noteq> UNUSED \<longrightarrow> response_time (proc_at t i) = 0"
proof -
  have "pinv t \<and> (\<forall>i < NPROC. state (proc_at t i) \<noteq> UNUSED \<longrightarrow> first_run (proc_at t i) = - 1)"
    using assms(4) unfolding ksteps_def
  proof (induction rule: rtranclp_induct)
    case (step y z)
    then obtain lb where z: "kstep pol lb y z" by blast
    have "evolves pol (proc_at y i) (proc_at z i)" if "i < NPROC" for i using kstep_evolves [OF _ z that] step.IH by blast
    then have "\<forall>i < NPROC. state (proc_at z i) \<noteq> UNUSED \<longrightarrow> first_run (proc_at z i) = - 1"
      using step.IH assms(1) by (auto simp: evolves_def) (metis)+
    then show ?case using kstep_pinv [OF z] step.IH by blast
  qed (use assms in blast)
  then show ?thesis by (auto simp: response_time_def)
qed

theorem response_time_zero_witness: "response_time (proc_at (clockintr 0 boot_kernel) 0) = 0"
proof -
  have k: "ksteps RR boot_kernel (clockintr 0 boot_kernel)" unfolding ksteps_def by (intro r_into_rtranclp exI, rule k_clock)
  have "first_run (proc_at boot_kernel i) = - 1" if "i < NPROC" "state (proc_at boot_kernel i) \<noteq> UNUSED" for i
    using that boot_kernel_at(1) boot_kernel_at(2) [of i] by (cases "i = 0") (simp_all add: blank_proc_def)
  then have f: "\<forall>i < NPROC. state (proc_at boot_kernel i) \<noteq> UNUSED \<longrightarrow> first_run (proc_at boot_kernel i) = - 1" by blast
  have "state (proc_at (clockintr 0 boot_kernel) 0) = RUNNABLE"
    using boot_kernel_at(1,6) by (simp add: clockintr_def proc_at_wakeup NPROC_def blank_proc_def)
  then show ?thesis using response_time_zero [OF _ pinv_boot_kernel f k] by (simp add: NPROC_def)
qed

end
