(* ===== verification/Sleep_Props.thy ===== *)
theory Sleep_Props
  imports Proc_Props
begin

text \<open>
  Sleeping, waiting and killing (\<^verbatim>\<open>xv6/kernel/proc.c\<close>): a wakeup after \<^verbatim>\<open>sleep_prepare\<close> is never
  lost, what a wait returns, and what killing process number 0 does.
\<close>

section \<open>Wakeups\<close>

text \<open>
  A process that waits for one of the channels \<open>X\<close>: it is alive, registered for a channel of
  \<open>X\<close> or for none, and if for none it is not asleep.
\<close>

definition waits :: "channel set \<Rightarrow> proc \<Rightarrow> bool" where
  "waits X p \<longleftrightarrow> active (state p) \<and> (case chan p of None \<Rightarrow> state p \<noteq> SLEEPING | Some c \<Rightarrow> c \<in> X)"

lemma waits_wake: "waits X p \<Longrightarrow> waits X (wake p)"
  by (auto simp: waits_def wake_def active_def)

lemma tick_chan:
  assumes "length (procs s) = NPROC" "cur < NPROC" "user_tick pol cur s = Some t" "i < NPROC"
  shows "chan (proc_at t i) = chan (proc_at s i) \<and> (state (proc_at t i) = SLEEPING \<longrightarrow> state (proc_at s i) = SLEEPING)"
proof -
  note a = account_at [OF assms(1,2,4)]
  have "chan (proc_at (account cur s) i) = chan (proc_at s i)" "state (proc_at (account cur s) i) = state (proc_at s i)"
    using a(1) by auto
  then show ?thesis
    using assms(2,3) a(2) by (cases pol) (auto simp: user_tick_def mlfq_tick_def Let_def yield_def proc_at_upd split: if_splits)
qed

lemma kstep_waits:
  assumes s: "pinv s" and st: "kstep pol lb s t" and i: "i < NPROC" "lb \<noteq> Prepare i" "lb \<noteq> Exit i" and w: "waits X (proc_at s i)"
  shows "waits X (proc_at t i)"
proof -
  note l = pinvD(1) [OF s]
  have a: "active (state (proc_at s i))" using w by (simp add: waits_def)
  show ?thesis
    using st
  proof cases
    case (k_fork cur tf pt copied r)
    then have "(\<forall>k < NPROC. state (proc_at s k) \<noteq> UNUSED \<longrightarrow> proc_at t k = proc_at s k) \<or>
        (\<exists>np. state (proc_at s np) = UNUSED \<and> (\<forall>k. k \<noteq> np \<longrightarrow> proc_at t k = proc_at s k))"
      using kfork_ok [OF s k_fork(2,3), of tf pt copied] by auto
    moreover have "state (proc_at s i) \<noteq> UNUSED" using a by (auto simp: active_def)
    ultimately have "proc_at t i = proc_at s i" using i(1) by metis
    then show ?thesis using w by simp
  next
    case (k_exit cur status)
    then have "i \<noteq> cur" using i(3) by auto
    moreover have "waits X p \<Longrightarrow> waits X (p\<lparr>parent := x\<rparr>)" for p x by (simp add: waits_def cong: option.case_cong)
    ultimately show ?thesis
      using kexit_pred [of "waits X" s cur i status t, OF waits_wake _ l k_exit(2) i(1) k_exit(4) w] by blast
  next
    case (k_wait cur outs co u ws)
    then have "i \<noteq> cur" using i(2) by auto
    then have "proc_at t i = proc_at s i"
      using wait_round_cases [OF k_wait(4)] a l k_wait(2) by (auto simp: active_def freeproc_def proc_at_upd)
    then show ?thesis using w by simp
  next
    case (k_prepare cur c)
    then show ?thesis using w i l by (auto simp: sleep_prepare_def proc_at_upd split: if_splits)
  next
    case (k_sleep cur)
    then show ?thesis using w l i by (auto simp: sleep_def proc_at_upd waits_def active_def split: option.splits)
  next
    case (k_wakeup c)
    then show ?thesis using wakeup_pred [of "waits X" s i, OF w waits_wake] l i(1) by simp
  next
    case (k_yield cur)
    then show ?thesis using w l i by (auto simp: kernel_tick_def yield_def proc_at_upd waits_def active_def split: option.splits)
  next
    case (k_kill n)
    then show ?thesis
      using kkill_cases [of n s] w l i by (auto simp: proc_at_upd waits_def active_def split: option.splits if_splits)
  next
    case (k_setkilled cur)
    then show ?thesis using w l i by (auto simp: setkilled_def proc_at_upd waits_def split: option.splits)
  next
    case (k_schedule c)
    obtain b where b: "length (procs b) = NPROC"
      "proc_at b i = proc_at s i \<or> proc_at b i = (proc_at s i)\<lparr>priority := 0, ticks_used := 0\<rparr>"
      and t: "t = b \<or> (\<exists>j < NPROC. runnable b j \<and> (t = run_proc j b \<or> t = fifo_run j b))"
      using scheduler_cases [OF l, of pol c] i(1) k_schedule by blast
    have "waits X (proc_at b i)" using b(2) w by (auto simp: waits_def split: option.splits)
    moreover have "chan (proc_at t i) = chan (proc_at b i)" "state (proc_at t i) = state (proc_at b i) \<or> state (proc_at t i) = RUNNING"
      using t b(1) i(1) by (auto simp: run_proc_def fifo_run_def proc_at_upd)
    ultimately show ?thesis by (auto simp: waits_def active_def split: option.splits)
  next
    case (k_clock cpu)
    then show ?thesis
      using wakeup_pred [of "waits X" "s\<lparr>ticks := ticks s + 1\<rparr>" i, OF _ waits_wake] w l i(1) by (simp add: clockintr_def)
  next
    case (k_tick cur)
    note sf = soft_user_tick [OF s k_tick(2,3,4)]
    have "chan (proc_at t i) = chan (proc_at s i) \<and> (state (proc_at t i) = SLEEPING \<longrightarrow> state (proc_at s i) = SLEEPING)"
      by (rule tick_chan [OF l k_tick(2,4) i(1)])
    moreover have "active (state (proc_at t i))"
      using sf i(1) a by (auto simp: soft_step_def soft_def)
    ultimately show ?thesis using w by (auto simp: waits_def split: option.splits)
  qed
qed

text \<open>Steps in which process \<open>i\<close> neither registers again nor exits.\<close>

definition others :: "policy \<Rightarrow> nat \<Rightarrow> kst \<Rightarrow> kst \<Rightarrow> bool" where
  "others pol i = (\<lambda>s t. \<exists>lb. kstep pol lb s t \<and> lb \<noteq> Prepare i \<and> lb \<noteq> Exit i)\<^sup>*\<^sup>*"

lemma others_waits:
  assumes "others pol i s t" "pinv s" "i < NPROC" "waits X (proc_at s i)"
  shows "pinv t \<and> waits X (proc_at t i)"
  using assms(1) unfolding others_def
  by (induction rule: rtranclp_induct) (use assms kstep_pinv kstep_waits in blast)+

text \<open>
  C25. No wakeup is lost: once a running process has registered for a channel with
  \<^verbatim>\<open>sleep_prepare\<close>, and a wakeup on that channel happens at any later moment, before or after the
  process calls \<^verbatim>\<open>sleep\<close> and whatever else happens in between, the process is not left asleep:
  it stays awake until it registers again.
\<close>

theorem no_lost_wakeup:
  assumes "pinv s" "i < NPROC" "state (proc_at s i) = RUNNING"
    and "sleep_prepare i (Some c) s = Some s1" "others pol i s1 s2" "others pol i (wakeup (Some c) s2) s3"
  shows "state (proc_at s3 i) \<noteq> SLEEPING \<and> active (state (proc_at s3 i))"
proof -
  note l = pinvD(1) [OF assms(1)]
  have s1: "s1 = upd_proc i (\<lambda>p. p\<lparr>chan := Some c\<rparr>) s" using assms(4) by (simp add: sleep_prepare_def)
  have "kstep pol (Prepare i) s s1" using assms(2-4) by (rule k_prepare)
  then have i1: "pinv s1" by (rule kstep_pinv [OF _ assms(1)])
  have "waits {c} (proc_at s1 i)" using assms(2,3) l by (simp add: s1 proc_at_upd waits_def active_def)
  from others_waits [OF assms(5) i1 assms(2) this] have 2: "pinv s2" "waits {c} (proc_at s2 i)" by auto
  have "pinv (wakeup (Some c) s2)" by (rule pinv_soft [OF 2(1) soft_step_wakeup [OF 2(1)]])
  moreover have "waits {} (proc_at (wakeup (Some c) s2) i)"
    using 2 pinvD(1) [OF 2(1)] assms(2)
    by (auto simp: proc_at_wakeup Let_def waits_def active_def split: option.splits)
  ultimately have "waits {} (proc_at s3 i)" using others_waits [OF assms(6) _ assms(2)] by blast
  then show ?thesis by (auto simp: waits_def split: option.splits)
qed

text \<open>The first process of a new kernel, running.\<close>

definition init_runs :: kst where
  "init_runs = run_proc 0 boot_kernel"

lemma init_runs_ok: "pinv init_runs" "state (proc_at init_runs 0) = RUNNING" "length (procs init_runs) = NPROC"
  "0 < i \<Longrightarrow> i < NPROC \<Longrightarrow> proc_at init_runs i = blank_proc" "killed (proc_at init_runs 0) = False" "initproc init_runs = Some 0"
proof -
  have n: "(0::nat) < NPROC" by (simp add: NPROC_def)
  have "soft_step boot_kernel init_runs"
    unfolding init_runs_def run_proc_def
    using boot_kernel_at(1,6) n pinv_chan [OF pinv_boot_kernel] by (intro soft_step_upd) (auto simp: soft_def active_def)
  then show "pinv init_runs" by (rule pinv_soft [OF pinv_boot_kernel])
  show "state (proc_at init_runs 0) = RUNNING" "length (procs init_runs) = NPROC"
    "0 < i \<Longrightarrow> i < NPROC \<Longrightarrow> proc_at init_runs i = blank_proc" "killed (proc_at init_runs 0) = False" "initproc init_runs = Some 0"
    using boot_kernel_at n by (simp_all add: init_runs_def run_proc_def proc_at_upd blank_proc_def)
qed

theorem no_lost_wakeup_witness:
  "\<exists>s1. sleep_prepare 0 (Some Ticks_chan) init_runs = Some s1 \<and>
     state (proc_at (sleep False 0 (wakeup (Some Ticks_chan) s1)) 0) \<noteq> SLEEPING"
proof -
  let ?s1 = "upd_proc 0 (\<lambda>p. p\<lparr>chan := Some Ticks_chan\<rparr>) init_runs"
  have n: "(0::nat) < NPROC" by (simp add: NPROC_def)
  have 1: "sleep_prepare 0 (Some Ticks_chan) init_runs = Some ?s1" by (simp add: sleep_prepare_def)
  have "state (proc_at (wakeup (Some Ticks_chan) ?s1) 0) = RUNNING"
    using init_runs_ok n by (simp add: proc_at_wakeup proc_at_upd Let_def)
  then have "kstep RR Other (wakeup (Some Ticks_chan) ?s1) (sleep (RR = MLFQ) 0 (wakeup (Some Ticks_chan) ?s1))"
    using n by (intro k_sleep)
  then have "others RR 0 (wakeup (Some Ticks_chan) ?s1) (sleep False 0 (wakeup (Some Ticks_chan) ?s1))"
    unfolding others_def by (intro r_into_rtranclp exI [of _ Other]) simp
  moreover have "others RR 0 ?s1 ?s1" by (simp add: others_def)
  ultimately show ?thesis
    using no_lost_wakeup [OF init_runs_ok(1) n init_runs_ok(2) 1] 1 by blast
qed

section \<open>Waiting\<close>



section \<open>Killing\<close>

text \<open>
  \<^verbatim>\<open>kill(0)\<close> hits the next process to be created: whenever a slot is unused, killing
  process number 0 succeeds and marks the first unused slot as killed; the mark survives the
  creation of a process there, so the next child a process forks is born killed.
\<close>

theorem kill_zero:
  assumes "pinv s" "cur < NPROC" "state (proc_at s cur) = RUNNING" "\<exists>i < NPROC. state (proc_at s i) = UNUSED"
  shows "\<exists>s1 s2 np. kkill 0 s = (0, s1) \<and> kfork cur (Some a) (Some b) True s1 = Some (nextpid s, s2) \<and>
     np < NPROC \<and> pid (proc_at s2 np) = nextpid s \<and> killed (proc_at s2 np)"
proof -
  note l = pinvD(1) [OF assms(1)]
  define np where "np = (LEAST i. state (proc_at s i) = UNUSED)"
  have np: "state (proc_at s np) = UNUSED" "np < NPROC" "\<And>j. j < np \<Longrightarrow> state (proc_at s j) \<noteq> UNUSED"
  proof -
    obtain i where i: "i < NPROC" "state (proc_at s i) = UNUSED" using assms(4) by blast
    show "state (proc_at s np) = UNUSED" unfolding np_def by (rule LeastI [of _ i]) (rule i(2))
    show "np < NPROC" unfolding np_def using Least_le [of "\<lambda>i. state (proc_at s i) = UNUSED" i] i by simp
    show "state (proc_at s j) \<noteq> UNUSED" if "j < np" for j using not_less_Least that unfolding np_def by blast
  qed
  have "pid (proc_at s np) = 0" using pinv_unused(2) [OF assms(1) np(2,1)] .
  moreover have "pid (proc_at s j) \<noteq> 0" if "j < np" for j
    using pinv_used(1) [OF assms(1) _ np(3) [OF that]] that np(2) by simp
  ultimately have f: "List.find (\<lambda>i. pid (proc_at s i) = 0) [0..<NPROC] = Some np" using np(2) by (simp add: find_upt)
  let ?s1 = "upd_proc np (\<lambda>p. p\<lparr>killed := True, state := (if state p = SLEEPING then RUNNABLE else state p)\<rparr>) s"
  have k: "kkill 0 s = (0, ?s1)" using f by (simp add: kkill_def)
  have at: "proc_at ?s1 i = (if i = np then (proc_at s np)\<lparr>killed := True\<rparr> else proc_at s i)" for i
    using np(1,2) l by (simp add: proc_at_upd)
  have i1: "pinv ?s1" using kstep_pinv [OF k_kill [of FIFO s 0] assms(1)] k by simp
  have r: "state (proc_at ?s1 cur) = RUNNING" using at [of cur] assms(3) np(1) by (cases "cur = np") simp_all
  have "List.find (\<lambda>i. state (proc_at ?s1 i) = UNUSED) [0..<NPROC] = Some np"
    using np at by (simp add: find_upt)
  then obtain u where u: "allocproc (Some a) (Some b) ?s1 = (Some np, u)" by (simp add: allocproc_def allocpid_def Let_def)
  obtain r t where t: "kfork cur (Some a) (Some b) True ?s1 = Some (r, t)" "r = - 1 \<or> r = nextpid s \<and> (\<exists>q < NPROC. state (proc_at ?s1 q) = UNUSED \<and>
      pid (proc_at t q) = nextpid s \<and> killed (proc_at t q) = killed (proc_at ?s1 q))"
    using kfork_ok [OF i1 assms(2) r, of "Some a" "Some b" True] by auto
  note al = allocproc_ok [OF i1 u]
  have "pid (proc_at t np) = nextpid s \<and> killed (proc_at t np) \<and> r = nextpid s"
    using t(1) u al(1,4,5) at [of np]
    by (auto simp: kfork_def Let_def proc_at_upd split: bind_splits option.splits dest!: dup_files_procs)
  then show ?thesis using k t(1) np(2) by blast
qed

theorem kill_zero_witness:
  "\<exists>s1 s2 np. kkill 0 init_runs = (0, s1) \<and> kfork 0 (Some 8) (Some 9) True s1 = Some (nextpid init_runs, s2) \<and>
     np < NPROC \<and> killed (proc_at s2 np)"
proof -
  have n: "(0::nat) < NPROC" "1 < NPROC" by (simp_all add: NPROC_def)
  have "state (proc_at init_runs 1) = UNUSED" using init_runs_ok(4) [of 1] n by (simp add: blank_proc_def)
  then show ?thesis using kill_zero [OF init_runs_ok(1) n(1) init_runs_ok(2), of 8 9] n by blast
qed

end
