(* ===== verification/Spinlock.thy ===== *)
theory Spinlock
  imports Prelude "HOL-Library.Monad_Syntax"
begin

text \<open>
  Spin locks (\<^verbatim>\<open>xv6/kernel/spinlock.c\<close>) and the order in which the kernel takes them. Panics are
  \<open>None\<close>. \<open>acquire\<close> is split where it spins: \<open>acquire_enter\<close> up to the loop and \<open>acquire_swap\<close>
  for one atomic exchange.
\<close>

section \<open>State and operations\<close>

datatype lockid = Tickslock | Pid_lock | Wait_lock | Proc_lock nat

record spinlock =
  locked :: bool
  holder :: "nat option"

text \<open>\<open>sie\<close> is the interrupt enable bit of the CPU.\<close>

record cpu =
  noff :: nat
  intena :: bool
  sie :: bool

record mach =
  lks :: "lockid \<Rightarrow> spinlock"
  cpus :: "nat \<Rightarrow> cpu"

definition initlock :: spinlock where
  "initlock = \<lparr>locked = False, holder = None\<rparr>"

definition holding :: "nat \<Rightarrow> lockid \<Rightarrow> mach \<Rightarrow> bool" where
  "holding c l m \<longleftrightarrow> locked (lks m l) \<and> holder (lks m l) = Some c"

definition push_off :: "nat \<Rightarrow> mach \<Rightarrow> mach" where
  "push_off c m =
     (let x = cpus m c; x' = (if noff x = 0 then x\<lparr>intena := sie x\<rparr> else x) in
      m\<lparr>cpus := (cpus m)(c := x'\<lparr>sie := False, noff := noff x' + 1\<rparr>)\<rparr>)"

definition pop_off :: "nat \<Rightarrow> mach \<Rightarrow> mach option" where
  "pop_off c m =
     (let x = cpus m c in
      if sie x then None
      else if noff x < 1 then None
      else
        (let x' = x\<lparr>noff := noff x - 1\<rparr> in
         Some (m\<lparr>cpus := (cpus m)(c := (if noff x' = 0 \<and> intena x' then x'\<lparr>sie := True\<rparr> else x'))\<rparr>)))"

definition acquire_enter :: "nat \<Rightarrow> lockid \<Rightarrow> mach \<Rightarrow> mach option" where
  "acquire_enter c l m = (let m = push_off c m in if holding c l m then None else Some m)"

text \<open>The loop's exchange: it leaves the loop when the old value was 0.\<close>

definition acquire_swap :: "nat \<Rightarrow> lockid \<Rightarrow> mach \<Rightarrow> bool \<times> mach" where
  "acquire_swap c l m =
     (if locked (lks m l) then (False, m)
      else (True, m\<lparr>lks := (lks m)(l := \<lparr>locked = True, holder = Some c\<rparr>)\<rparr>))"

definition release :: "nat \<Rightarrow> lockid \<Rightarrow> mach \<Rightarrow> mach option" where
  "release c l m =
     (if \<not> holding c l m then None
      else pop_off c (m\<lparr>lks := (lks m)(l := \<lparr>locked = False, holder = None\<rparr>)\<rparr>))"

section \<open>CPUs that run in parallel\<close>

text \<open>What a CPU still has to do; \<open>Spin\<close> is an \<^verbatim>\<open>acquire\<close> that has reached its loop.\<close>

datatype lockop = Acquire lockid | Spin lockid | Release lockid

type_synonym progs = "nat \<Rightarrow> lockop list"

inductive lock_step :: "mach \<times> progs \<Rightarrow> mach \<times> progs \<Rightarrow> bool" where
  l_enter: "ps c = Acquire l # r \<Longrightarrow> acquire_enter c l m = Some m' \<Longrightarrow> lock_step (m, ps) (m', ps(c := Spin l # r))"
| l_swap: "ps c = Spin l # r \<Longrightarrow> acquire_swap c l m = (True, m') \<Longrightarrow> lock_step (m, ps) (m', ps(c := r))"
| l_release: "ps c = Release l # r \<Longrightarrow> release c l m = Some m' \<Longrightarrow> lock_step (m, ps) (m', ps(c := r))"

text \<open>A CPU whose next operation panics.\<close>

definition lock_panics :: "mach \<times> progs \<Rightarrow> nat \<Rightarrow> bool" where
  "lock_panics x c = (case x of (m, ps) \<Rightarrow> (case ps c of
     Acquire l # _ \<Rightarrow> acquire_enter c l m = None
   | Release l # _ \<Rightarrow> release c l m = None
   | _ \<Rightarrow> False))"

section \<open>Mutual exclusion\<close>

text \<open>
  A program that is well formed for the locks \<open>H\<close> held: it takes only locks it does not
  hold, releases only locks it holds, and ends with none.
\<close>

fun well :: "lockid set \<Rightarrow> lockop list \<Rightarrow> bool" where
  "well H [] \<longleftrightarrow> H = {}"
| "well H (Acquire l # r) \<longleftrightarrow> l \<notin> H \<and> well (insert l H) r"
| "well H (Spin l # r) \<longleftrightarrow> l \<notin> H \<and> well (insert l H) r"
| "well H (Release l # r) \<longleftrightarrow> l \<in> H \<and> well (H - {l}) r"

definition held :: "mach \<Rightarrow> nat \<Rightarrow> lockid set" where
  "held m c = {l. holding c l m}"

definition spins :: "lockop list \<Rightarrow> nat" where
  "spins p = (case p of Spin l # _ \<Rightarrow> 1 | _ \<Rightarrow> 0)"

text \<open>\<open>e c\<close> is whether interrupts were enabled on CPU \<open>c\<close> before it took its first lock.\<close>

definition cpu_ok :: "(nat \<Rightarrow> bool) \<Rightarrow> mach \<Rightarrow> lockop list \<Rightarrow> nat \<Rightarrow> bool" where
  "cpu_ok e m p c \<longleftrightarrow>
     finite (held m c) \<and> well (held m c) p \<and> noff (cpus m c) = card (held m c) + spins p \<and>
     (if noff (cpus m c) = 0 then sie (cpus m c) = e c else \<not> sie (cpus m c) \<and> intena (cpus m c) = e c) \<and>
     (\<forall>l. Spin l \<notin> set (tl p))"

definition lock_inv :: "(nat \<Rightarrow> bool) \<Rightarrow> mach \<times> progs \<Rightarrow> bool" where
  "lock_inv e x = (case x of (m, ps) \<Rightarrow>
     (\<forall>l. locked (lks m l) \<longleftrightarrow> holder (lks m l) \<noteq> None) \<and> (\<forall>c. cpu_ok e m (ps c) c))"

lemma held_other: "held (m\<lparr>cpus := x\<rparr>) c = held m c" "held (push_off a m) c = held m c"
  by (simp_all add: held_def holding_def push_off_def Let_def)

lemma held_take: "\<not> locked (lks m l) \<Longrightarrow> held (m\<lparr>lks := (lks m)(l := \<lparr>locked = True, holder = Some a\<rparr>)\<rparr>) c =
    (if c = a then insert l (held m c) else held m c)"
  by (auto simp: held_def holding_def split: if_splits)

lemma held_drop: "holding a l m \<Longrightarrow> held (m\<lparr>lks := (lks m)(l := \<lparr>locked = False, holder = None\<rparr>)\<rparr>) c =
    (if c = a then held m c - {l} else held m c)"
  by (auto simp: held_def holding_def split: if_splits)

lemma spins_simps [simp]: "spins (Spin l # r) = 1" "spins (Acquire l # r) = 0" "spins (Release l # r) = 0" "spins [] = 0"
  by (simp_all add: spins_def)

lemma spins_none: "\<forall>l. Spin l \<notin> set p \<Longrightarrow> spins p = 0"
  by (auto simp: spins_def split: list.splits lockop.splits)

lemma none_tl: "\<forall>l. Spin l \<notin> set p \<Longrightarrow> Spin l \<notin> set (tl p)"
  by (cases p) auto

lemma cpu_ok_other:
  "cpu_ok e m p d \<Longrightarrow> cpus m' d = cpus m d \<Longrightarrow> held m' d = held m d \<Longrightarrow> cpu_ok e m' p d"
  by (simp add: cpu_ok_def)

lemma push_off_cpu: "cpus (push_off c m) c =
    (cpus m c)\<lparr>intena := (if noff (cpus m c) = 0 then sie (cpus m c) else intena (cpus m c)), sie := False,
       noff := noff (cpus m c) + 1\<rparr>"
  by (simp add: push_off_def Let_def)

lemma cpu_ok_enter:
  assumes "cpu_ok e m (Acquire l # r) c"
  shows "cpu_ok e (push_off c m) (Spin l # r) c" "acquire_enter c l m = Some (push_off c m)"
proof -
  show "cpu_ok e (push_off c m) (Spin l # r) c"
    using assms by (simp add: cpu_ok_def held_other push_off_cpu split: if_splits)
  have "l \<notin> held (push_off c m) c" using assms by (simp add: cpu_ok_def held_other)
  then show "acquire_enter c l m = Some (push_off c m)" by (simp add: acquire_enter_def held_def)
qed

lemma cpu_ok_swap:
  assumes "cpu_ok e m (Spin l # r) c" "\<not> locked (lks m l)"
  shows "cpu_ok e (m\<lparr>lks := (lks m)(l := \<lparr>locked = True, holder = Some c\<rparr>)\<rparr>) r c"
  using assms by (auto simp: cpu_ok_def held_take spins_none none_tl)

lemma pop_off_ok:
  assumes "\<not> sie (cpus m c)" "0 < noff (cpus m c)"
  shows "\<exists>m'. pop_off c (m\<lparr>lks := k\<rparr>) = Some m' \<and> lks m' = k \<and> (\<forall>d. d \<noteq> c \<longrightarrow> cpus m' d = cpus m d) \<and>
     noff (cpus m' c) = noff (cpus m c) - 1 \<and> intena (cpus m' c) = intena (cpus m c) \<and>
     sie (cpus m' c) = (noff (cpus m c) = 1 \<and> intena (cpus m c))"
proof -
  have "noff (cpus m c) = 1 \<longleftrightarrow> noff (cpus m c) - 1 = 0" using assms(2) by linarith
  then show ?thesis using assms by (simp add: pop_off_def Let_def)
qed

lemma cpu_ok_release:
  assumes "cpu_ok e m (Release l # r) c"
  obtains m' where "release c l m = Some m'" "lks m' = (lks m)(l := \<lparr>locked = False, holder = None\<rparr>)"
    "\<And>d. d \<noteq> c \<Longrightarrow> cpus m' d = cpus m d" "cpu_ok e m' r c" "holding c l m"
proof -
  let ?m = "m\<lparr>lks := (lks m)(l := \<lparr>locked = False, holder = None\<rparr>)\<rparr>"
  have l: "holding c l m" "l \<in> held m c" using assms by (auto simp: cpu_ok_def held_def)
  have n: "0 < card (held m c)" using assms l(2) by (auto simp: cpu_ok_def card_gt_0_iff)
  have h: "held ?m c = held m c - {l}" using held_drop [OF l(1)] by simp
  have off: "\<not> sie (cpus m c)" "0 < noff (cpus m c)" "intena (cpus m c) = e c"
    using assms n by (auto simp: cpu_ok_def split: if_splits)
  obtain m' where m': "pop_off c ?m = Some m'" "lks m' = lks ?m" "\<And>d. d \<noteq> c \<Longrightarrow> cpus m' d = cpus m d"
      "noff (cpus m' c) = noff (cpus m c) - 1" "intena (cpus m' c) = intena (cpus m c)"
      "sie (cpus m' c) = (noff (cpus m c) = 1 \<and> intena (cpus m c))"
    using pop_off_ok [OF off(1,2), of "lks ?m"] by auto
  have "held m' c = held m c - {l}" using h m'(2) by (simp add: held_def holding_def)
  then have "cpu_ok e m' r c" using assms l n m'(4-6) off(3) by (auto simp: cpu_ok_def spins_none none_tl)
  then show thesis using that [of m'] m' l(1) by (simp add: release_def)
qed

lemma lock_inv_step:
  assumes "lock_step x y" "lock_inv e x"
  shows "lock_inv e y"
  using assms
proof cases
  case (l_enter ps c l r m m')
  have i: "cpu_ok e m (ps d) d" for d using assms(2) l_enter(1) by (simp add: lock_inv_def)
  have m': "m' = push_off c m" and c: "cpu_ok e m' (Spin l # r) c"
    using cpu_ok_enter [of e m l r c] i [of c] l_enter(3,4) by simp_all
  have "cpu_ok e m' (ps d) d" if "d \<noteq> c" for d
    using i [of d] that by (rule_tac cpu_ok_other) (simp_all add: m' held_other, simp add: push_off_def Let_def)
  then show ?thesis using c assms(2) l_enter(1,2) by (simp add: lock_inv_def m') (simp add: push_off_def Let_def)
next
  case (l_swap ps c l r m m')
  have i: "cpu_ok e m (ps d) d" for d using assms(2) l_swap(1) by (simp add: lock_inv_def)
  have u: "\<not> locked (lks m l)" "m' = m\<lparr>lks := (lks m)(l := \<lparr>locked = True, holder = Some c\<rparr>)\<rparr>"
    using l_swap(4) by (auto simp: acquire_swap_def split: if_splits)
  have "cpu_ok e m' (ps d) d" if "d \<noteq> c" for d
    using i [of d] that by (rule_tac cpu_ok_other) (simp_all add: u held_take)
  then show ?thesis using cpu_ok_swap [of e m l r c] i [of c] l_swap u assms(2) by (simp add: lock_inv_def)
next
  case (l_release ps c l r m m')
  have i: "cpu_ok e m (ps d) d" for d using assms(2) l_release(1) by (simp add: lock_inv_def)
  then have "cpu_ok e m (Release l # r) c" by (metis l_release(3))
  then obtain m'' where r: "release c l m = Some m''" "lks m'' = (lks m)(l := \<lparr>locked = False, holder = None\<rparr>)"
    "\<And>d. d \<noteq> c \<Longrightarrow> cpus m'' d = cpus m d" "cpu_ok e m'' r c" "holding c l m"
    using cpu_ok_release by metis
  have "held m'' d = held m d" if "d \<noteq> c" for d
    using held_drop [OF r(5), of d] that r(2) by (simp add: held_def holding_def)
  then have "cpu_ok e m'' (ps d) d" if "d \<noteq> c" for d
    using i [of d] that r(3) by (rule_tac cpu_ok_other) simp_all
  then show ?thesis using l_release r assms(2) by (simp add: lock_inv_def)
qed

lemma lock_inv_steps: "lock_step\<^sup>*\<^sup>* x y \<Longrightarrow> lock_inv e x \<Longrightarrow> lock_inv e y"
  by (induction rule: rtranclp_induct) (auto intro: lock_inv_step)

lemma lock_inv_no_panic: "lock_inv e x \<Longrightarrow> \<not> lock_panics x c"
proof (cases x)
  case (Pair m ps)
  assume "lock_inv e x"
  then have "cpu_ok e m (ps c) c" by (simp add: lock_inv_def Pair)
  then show ?thesis
    using cpu_ok_enter(2) cpu_ok_release
    by (fastforce simp: lock_panics_def Pair split: list.splits lockop.splits)
qed

text \<open>The machine before any lock is taken; \<open>e\<close> says on which CPUs interrupts are enabled.\<close>

definition boot_mach :: "(nat \<Rightarrow> bool) \<Rightarrow> mach" where
  "boot_mach e = \<lparr>lks = (\<lambda>_. initlock), cpus = (\<lambda>c. \<lparr>noff = 0, intena = False, sie = e c\<rparr>)\<rparr>"

lemma lock_inv_boot:
  assumes "\<And>c. well {} (ps c)" "\<And>c l. Spin l \<notin> set (ps c)"
  shows "lock_inv e (boot_mach e, ps)"
proof -
  have "held (boot_mach e) c = {}" for c by (simp add: held_def holding_def boot_mach_def initlock_def)
  then show ?thesis
    using assms by (simp add: lock_inv_def cpu_ok_def spins_none none_tl) (simp add: boot_mach_def initlock_def)
qed

section \<open>The locks the kernel's operations take\<close>

definition wakeup_locks :: "nat list \<Rightarrow> lockop list" where
  "wakeup_locks is = concat (map (\<lambda>i. [Acquire (Proc_lock i), Release (Proc_lock i)]) is)"

definition clockintr_locks :: "lockop list" where
  "clockintr_locks = Acquire Tickslock # wakeup_locks [0..<64] @ [Release Tickslock]"

text \<open>\<^verbatim>\<open>kfork\<close> when slot \<open>n\<close> is the first unused one; the first line is the scan of \<^verbatim>\<open>allocproc\<close>.\<close>

definition kfork_locks :: "nat \<Rightarrow> lockop list" where
  "kfork_locks n = wakeup_locks [0..<n] @
     [Acquire (Proc_lock n), Acquire Pid_lock, Release Pid_lock, Acquire Tickslock, Release Tickslock,
      Release (Proc_lock n), Acquire Wait_lock, Release Wait_lock, Acquire (Proc_lock n), Release (Proc_lock n)]"

lemma well_wakeup: "\<forall>i \<in> set is. Proc_lock i \<notin> H \<Longrightarrow> well H (wakeup_locks is @ r) = well H r"
  by (induction "is") (auto simp: wakeup_locks_def)

lemma well_kernel [simp]: "well {} clockintr_locks" "well {} (kfork_locks n)"
  by (simp_all add: clockintr_locks_def kfork_locks_def well_wakeup)

lemma no_spin_kernel [simp]: "Spin l \<notin> set clockintr_locks" "Spin l \<notin> set (kfork_locks n)"
  by (auto simp: clockintr_locks_def kfork_locks_def wakeup_locks_def)

section \<open>Running one CPU\<close>

lemma run_take:
  assumes "lock_inv e (m, ps)" "ps c = Acquire l # r" "lks m l = initlock"
  shows "\<exists>m'. lock_step\<^sup>*\<^sup>* (m, ps) (m', ps(c := r)) \<and> lks m' = (lks m)(l := \<lparr>locked = True, holder = Some c\<rparr>)"
proof -
  let ?m = "push_off c m"
  have "cpu_ok e m (Acquire l # r) c" using assms(1,2) by (simp add: lock_inv_def) metis
  then have 1: "lock_step (m, ps) (?m, ps(c := Spin l # r))" using cpu_ok_enter(2) assms(2) by (blast intro: l_enter)
  have k: "lks ?m = lks m" by (simp add: push_off_def Let_def)
  have u: "\<not> locked (lks ?m l)" unfolding k assms(3) by (simp add: initlock_def)
  have "lock_step (?m, ps(c := Spin l # r))
      (?m\<lparr>lks := (lks m)(l := \<lparr>locked = True, holder = Some c\<rparr>)\<rparr>, (ps(c := Spin l # r))(c := r))"
    by (intro l_swap [where l = l]) (simp_all add: acquire_swap_def u, simp add: k)
  with 1 have "lock_step\<^sup>*\<^sup>* (m, ps) (?m\<lparr>lks := (lks m)(l := \<lparr>locked = True, holder = Some c\<rparr>)\<rparr>, ps(c := r))"
    by (metis converse_rtranclp_into_rtranclp fun_upd_upd r_into_rtranclp)
  then show ?thesis by (intro exI) (auto simp: mach.defs)
qed

lemma run_drop:
  assumes "lock_inv e (m, ps)" "ps c = Release l # r"
  shows "\<exists>m'. lock_step\<^sup>*\<^sup>* (m, ps) (m', ps(c := r)) \<and> lks m' = (lks m)(l := initlock)"
proof -
  have "cpu_ok e m (Release l # r) c" using assms(1,2) by (simp add: lock_inv_def) metis
  then obtain m' where "release c l m = Some m'" "lks m' = (lks m)(l := initlock)"
    by (auto elim: cpu_ok_release simp: initlock_def)
  then show ?thesis using assms(2) by (blast intro: l_release r_into_rtranclp)
qed

lemma run_pair:
  assumes "lock_inv e (m, ps)" "ps c = Acquire l # Release l # r" "lks m l = initlock"
  shows "\<exists>m'. lock_step\<^sup>*\<^sup>* (m, ps) (m', ps(c := r)) \<and> lks m' = lks m"
proof -
  obtain m1 where 1: "lock_step\<^sup>*\<^sup>* (m, ps) (m1, ps(c := Release l # r))"
      "lks m1 = (lks m)(l := \<lparr>locked = True, holder = Some c\<rparr>)"
    using run_take [OF assms] by auto
  obtain m2 where 2: "lock_step\<^sup>*\<^sup>* (m1, ps(c := Release l # r)) (m2, ps(c := r))" "lks m2 = (lks m1)(l := initlock)"
    using run_drop [OF lock_inv_steps [OF 1(1) assms(1)], of c l r] by auto
  have "lks m2 = lks m" using 1(2) 2(2) assms(3) by auto
  then show ?thesis using rtranclp_trans [OF 1(1) 2(1)] by blast
qed

lemma run_wakeup:
  assumes "lock_inv e (m, ps)" "ps c = wakeup_locks is @ r" "\<forall>i \<in> set is. lks m (Proc_lock i) = initlock"
  shows "\<exists>m'. lock_step\<^sup>*\<^sup>* (m, ps) (m', ps(c := r)) \<and> lks m' = lks m"
  using assms
proof (induction "is" arbitrary: m ps)
  case Nil
  then show ?case by (intro exI [of _ m]) (auto simp: wakeup_locks_def fun_upd_idem)
next
  case (Cons i "is")
  obtain m1 where 1: "lock_step\<^sup>*\<^sup>* (m, ps) (m1, ps(c := wakeup_locks is @ r))" "lks m1 = lks m"
    using run_pair [OF Cons.prems(1), of c "Proc_lock i" "wakeup_locks is @ r"] Cons.prems(2,3)
    by (auto simp: wakeup_locks_def)
  have "\<exists>m'. lock_step\<^sup>*\<^sup>* (m1, ps(c := wakeup_locks is @ r)) (m', (ps(c := wakeup_locks is @ r))(c := r)) \<and> lks m' = lks m1"
    by (rule Cons.IH [OF lock_inv_steps [OF 1(1) Cons.prems(1)]]) (use Cons.prems(3) 1(2) in simp_all)
  then obtain m2 where 2: "lock_step\<^sup>*\<^sup>* (m1, ps(c := wakeup_locks is @ r)) (m2, ps(c := r))" "lks m2 = lks m1"
    unfolding fun_upd_upd by blast
  then show ?case using rtranclp_trans [OF 1(1) 2(1)] 1(2) 2(2) by metis
qed

text \<open>The part of \<^verbatim>\<open>kfork\<close> up to the second lock, and of \<^verbatim>\<open>clockintr\<close> up to the lock of slot \<open>n\<close>.\<close>

lemma run_fork:
  assumes "lock_inv e (m, ps)" "ps c = kfork_locks n" "\<forall>l. lks m l = initlock"
  shows "\<exists>m' r. lock_step\<^sup>*\<^sup>* (m, ps) (m', ps(c := Acquire Tickslock # r)) \<and>
    lks m' = (lks m)(Proc_lock n := \<lparr>locked = True, holder = Some c\<rparr>)"
proof -
  define r where "r = [Release Tickslock, Release (Proc_lock n), Acquire Wait_lock, Release Wait_lock,
    Acquire (Proc_lock n), Release (Proc_lock n)]"
  let ?r = "Acquire Pid_lock # Release Pid_lock # Acquire Tickslock # r"
  obtain m1 where 1: "lock_step\<^sup>*\<^sup>* (m, ps) (m1, ps(c := Acquire (Proc_lock n) # ?r))" "lks m1 = lks m"
    using run_wakeup [OF assms(1), of c "[0..<n]" "Acquire (Proc_lock n) # ?r"] assms(2,3)
    unfolding kfork_locks_def r_def by auto
  note i1 = lock_inv_steps [OF 1(1) assms(1)]
  obtain m2 where 2: "lock_step\<^sup>*\<^sup>* (m1, ps(c := Acquire (Proc_lock n) # ?r)) (m2, ps(c := ?r))"
      "lks m2 = (lks m)(Proc_lock n := \<lparr>locked = True, holder = Some c\<rparr>)"
    using run_take [OF i1, of c "Proc_lock n" ?r] assms(3) unfolding 1(2) fun_upd_upd by auto
  obtain m3 where 3: "lock_step\<^sup>*\<^sup>* (m2, ps(c := ?r)) (m3, ps(c := Acquire Tickslock # r))" "lks m3 = lks m2"
    using run_pair [OF lock_inv_steps [OF 2(1) i1], of c Pid_lock "Acquire Tickslock # r"] assms(3)
    unfolding 2(2) fun_upd_upd by auto
  have "lock_step\<^sup>*\<^sup>* (m, ps) (m3, ps(c := Acquire Tickslock # r))"
    by (rule rtranclp_trans [OF 1(1) rtranclp_trans [OF 2(1) 3(1)]])
  then show ?thesis using 2(2) 3(2) by auto
qed

lemma run_clock:
  assumes "lock_inv e (m, ps)" "ps c = clockintr_locks" "n < 64" "\<forall>l. l \<noteq> Proc_lock n \<longrightarrow> lks m l = initlock"
  shows "\<exists>m' r. lock_step\<^sup>*\<^sup>* (m, ps) (m', ps(c := Acquire (Proc_lock n) # r)) \<and>
    lks m' = (lks m)(Tickslock := \<lparr>locked = True, holder = Some c\<rparr>)"
proof -
  define r where "r = Release (Proc_lock n) # wakeup_locks [Suc n..<64] @ [Release Tickslock]"
  have "[0..<64] = [0..<n] @ n # [Suc n..<64]" using assms(3) upt_add_eq_append [of 0 n "64 - n"] upt_conv_Cons [of n 64] by simp
  then have w: "wakeup_locks [0..<64] @ [Release Tickslock] = wakeup_locks [0..<n] @ Acquire (Proc_lock n) # r"
    by (simp add: wakeup_locks_def r_def)
  let ?r = "wakeup_locks [0..<n] @ Acquire (Proc_lock n) # r"
  obtain m1 where 1: "lock_step\<^sup>*\<^sup>* (m, ps) (m1, ps(c := ?r))" "lks m1 = (lks m)(Tickslock := \<lparr>locked = True, holder = Some c\<rparr>)"
    using run_take [OF assms(1), of c Tickslock ?r] assms(2,4) unfolding clockintr_locks_def w by auto
  obtain m2 where 2: "lock_step\<^sup>*\<^sup>* (m1, ps(c := ?r)) (m2, ps(c := Acquire (Proc_lock n) # r))" "lks m2 = lks m1"
    using run_wakeup [OF lock_inv_steps [OF 1(1) assms(1)], of c "[0..<n]" "Acquire (Proc_lock n) # r"] assms(4)
    unfolding 1(2) fun_upd_upd by auto
  show ?thesis using rtranclp_trans [OF 1(1) 2(1)] 1(2) 2(2) by metis
qed

lemma run_enter:
  assumes "lock_inv e (m, ps)" "ps c = Acquire l # r"
  shows "\<exists>m'. lock_step (m, ps) (m', ps(c := Spin l # r)) \<and> lks m' = lks m"
proof -
  have "cpu_ok e m (Acquire l # r) c" using assms(1,2) by (simp add: lock_inv_def) metis
  then have "lock_step (m, ps) (push_off c m, ps(c := Spin l # r))" using cpu_ok_enter(2) assms(2) by (blast intro: l_enter)
  then show ?thesis by (intro exI [of _ "push_off c m"]) (simp add: push_off_def Let_def)
qed

section \<open>Properties\<close>


text \<open>CPU 0 handles a clock interrupt while CPU 1 forks.\<close>

definition clock_and_fork :: "nat \<Rightarrow> progs" where
  "clock_and_fork n = (\<lambda>_. [])(0 := clockintr_locks, 1 := kfork_locks n)"


text \<open>
  C28. The kernel's lock order has a cycle. CPU 0 takes \<^verbatim>\<open>tickslock\<close> in \<^verbatim>\<open>clockintr\<close> and then the
  lock of every process in \<^verbatim>\<open>wakeup\<close>; \<^verbatim>\<open>allocproc\<close> takes \<^verbatim>\<open>tickslock\<close> while it holds the lock of
  the new slot. There is an interleaving of a clock interrupt with a fork that ends with both
  CPUs spinning, interrupts off, and no further step of any CPU.
\<close>

theorem clock_fork_deadlock:
  assumes "n < 64"
  shows "\<exists>m r0 r1. lock_step\<^sup>*\<^sup>* (boot_mach e, clock_and_fork n) (m, (\<lambda>_. [])(0 := Spin (Proc_lock n) # r0, 1 := Spin Tickslock # r1)) \<and>
    holding 0 Tickslock m \<and> holding 1 (Proc_lock n) m \<and> \<not> sie (cpus m 0) \<and> \<not> sie (cpus m 1) \<and>
    (\<nexists>y. lock_step (m, (\<lambda>_. [])(0 := Spin (Proc_lock n) # r0, 1 := Spin Tickslock # r1)) y)"
proof -
  define P where "P = (\<lambda>a b. (\<lambda>_. [])(0 := a, 1 := b) :: progs)"
  have P: "P a b 0 = a" "P a b 1 = b" "(P a b)(0 := a') = P a' b" "(P a b)(1 := b') = P a b'" for a b a' b'
    by (auto simp: P_def fun_upd_twist)
  have i: "lock_inv e (boot_mach e, P clockintr_locks (kfork_locks n))"
    by (rule lock_inv_boot) (simp_all add: P_def)
  have l: "lks (boot_mach e) = (\<lambda>_. initlock)" by (simp add: boot_mach_def)
  obtain m1 r1 where 1: "lock_step\<^sup>*\<^sup>* (boot_mach e, P clockintr_locks (kfork_locks n)) (m1, P clockintr_locks (Acquire Tickslock # r1))"
      "lks m1 = (\<lambda>_. initlock)(Proc_lock n := \<lparr>locked = True, holder = Some 1\<rparr>)"
    using run_fork [OF i P(2)] unfolding l P by blast
  note i1 = lock_inv_steps [OF 1(1) i]
  obtain m2 r0 where 2: "lock_step\<^sup>*\<^sup>* (m1, P clockintr_locks (Acquire Tickslock # r1)) (m2, P (Acquire (Proc_lock n) # r0) (Acquire Tickslock # r1))"
      "lks m2 = (lks m1)(Tickslock := \<lparr>locked = True, holder = Some 0\<rparr>)"
    using run_clock [OF i1 P(1) assms] 1(2) unfolding P by auto
  note i2 = lock_inv_steps [OF 2(1) i1]
  obtain m3 where 3: "lock_step (m2, P (Acquire (Proc_lock n) # r0) (Acquire Tickslock # r1)) (m3, P (Spin (Proc_lock n) # r0) (Acquire Tickslock # r1))"
      "lks m3 = lks m2"
    using run_enter [OF i2 P(1)] unfolding P by blast
  note i3 = lock_inv_step [OF 3(1) i2]
  obtain m4 where 4: "lock_step (m3, P (Spin (Proc_lock n) # r0) (Acquire Tickslock # r1)) (m4, P (Spin (Proc_lock n) # r0) (Spin Tickslock # r1))"
      "lks m4 = lks m3"
    using run_enter [OF i3 P(2)] unfolding P by blast
  have k: "lks m4 = (\<lambda>_. initlock)(Proc_lock n := \<lparr>locked = True, holder = Some 1\<rparr>, Tickslock := \<lparr>locked = True, holder = Some 0\<rparr>)"
    using 1(2) 2(2) 3(2) 4(2) by simp
  have "cpu_ok e m4 (P (Spin (Proc_lock n) # r0) (Spin Tickslock # r1) c) c" for c
    using lock_inv_step [OF 4(1) i3] by (simp add: lock_inv_def)
  from this [of 0] this [of 1] have s: "\<not> sie (cpus m4 0)" "\<not> sie (cpus m4 1)" unfolding P by (auto simp: cpu_ok_def)
  have "\<nexists>y. lock_step (m4, P (Spin (Proc_lock n) # r0) (Spin Tickslock # r1)) y"
    by (auto simp: P_def acquire_swap_def k elim!: lock_step.cases split: if_splits)
  moreover have "lock_step\<^sup>*\<^sup>* (boot_mach e, clock_and_fork n) (m4, P (Spin (Proc_lock n) # r0) (Spin Tickslock # r1))"
    using rtranclp.rtrancl_into_rtrancl [OF rtranclp.rtrancl_into_rtrancl [OF rtranclp_trans [OF 1(1) 2(1)] 3(1)] 4(1)]
    by (simp add: P_def clock_and_fork_def)
  moreover have "holding 0 Tickslock m4" "holding 1 (Proc_lock n) m4" by (simp_all add: holding_def k)
  ultimately show ?thesis using s unfolding P_def by blast
qed

theorem clock_fork_deadlock_witness:
  "(3 :: nat) < 64 \<and> (\<exists>m ps. lock_step\<^sup>*\<^sup>* (boot_mach (\<lambda>_. True), clock_and_fork 3) (m, ps) \<and>
     ps 0 \<noteq> [] \<and> ps 1 \<noteq> [] \<and> (\<nexists>y. lock_step (m, ps) y))"
proof -
  obtain m r0 r1 where "lock_step\<^sup>*\<^sup>* (boot_mach (\<lambda>_. True), clock_and_fork 3) (m, (\<lambda>_. [])(0 := Spin (Proc_lock 3) # r0, 1 := Spin Tickslock # r1))"
    "\<nexists>y. lock_step (m, (\<lambda>_. [])(0 := Spin (Proc_lock 3) # r0, 1 := Spin Tickslock # r1)) y"
    using clock_fork_deadlock [of 3 "\<lambda>_. True"] by auto
  then show ?thesis
    by (intro conjI exI [of _ m] exI [of _ "(\<lambda>_. [])(0 := Spin (Proc_lock 3) # r0, 1 := Spin Tickslock # r1)"]) simp_all
qed

end
