(* ===== verification/Kstring.thy ===== *)
theory Kstring
  imports Prelude "HOL-Library.Word"
begin

text \<open>
  The string and memory routines of the kernel (\<^verbatim>\<open>xv6/kernel/string.c\<close>) on byte memory. A pointer
  is a 64-bit word; the counts are natural numbers (every caller passes less than \<open>2 ^ 31\<close>, where
  the \<^verbatim>\<open>int\<close> loop counters of the code do not overflow).
\<close>

type_synonym addr = "64 word"
type_synonym memory = "addr \<Rightarrow> 8 word"

section \<open>Routines\<close>

fun memset_loop :: "memory \<Rightarrow> addr \<Rightarrow> 8 word \<Rightarrow> nat \<Rightarrow> nat \<Rightarrow> memory" where
  "memset_loop m dst c i 0 = m"
| "memset_loop m dst c i (Suc k) = memset_loop (m(dst + of_nat i := c)) dst c (i + 1) k"

definition memset :: "memory \<Rightarrow> addr \<Rightarrow> 8 word \<Rightarrow> nat \<Rightarrow> memory" where
  "memset m dst c n = memset_loop m dst c 0 n"

fun memcmp :: "memory \<Rightarrow> addr \<Rightarrow> addr \<Rightarrow> nat \<Rightarrow> int" where
  "memcmp m s1 s2 0 = 0"
| "memcmp m s1 s2 (Suc n) = (if m s1 \<noteq> m s2 then uint (m s1) - uint (m s2) else memcmp m (s1 + 1) (s2 + 1) n)"

fun copy_down :: "memory \<Rightarrow> addr \<Rightarrow> addr \<Rightarrow> nat \<Rightarrow> memory" where
  "copy_down m d s 0 = m"
| "copy_down m d s (Suc n) = copy_down (m(d - 1 := m (s - 1))) (d - 1) (s - 1) n"

fun copy_up :: "memory \<Rightarrow> addr \<Rightarrow> addr \<Rightarrow> nat \<Rightarrow> memory" where
  "copy_up m d s 0 = m"
| "copy_up m d s (Suc n) = copy_up (m(d := m s)) (d + 1) (s + 1) n"

definition memmove :: "memory \<Rightarrow> addr \<Rightarrow> addr \<Rightarrow> nat \<Rightarrow> memory" where
  "memmove m dst src n =
     (if n = 0 then m
      else if src < dst \<and> src + of_nat n > dst then copy_down m (dst + of_nat n) (src + of_nat n) n
      else copy_up m dst src n)"

fun strncmp :: "memory \<Rightarrow> addr \<Rightarrow> addr \<Rightarrow> nat \<Rightarrow> int" where
  "strncmp m p q 0 = 0"
| "strncmp m p q (Suc n) =
     (if m p \<noteq> 0 \<and> m p = m q then strncmp m (p + 1) (q + 1) n else uint (m p) - uint (m q))"

fun strncpy :: "memory \<Rightarrow> addr \<Rightarrow> addr \<Rightarrow> nat \<Rightarrow> memory" where
  "strncpy m s t 0 = m"
| "strncpy m s t (Suc n) =
     (let m' = m(s := m t) in if m t \<noteq> 0 then strncpy m' (s + 1) (t + 1) n else memset m' (s + 1) 0 n)"

text \<open>\<open>k\<close> counts the iterations that \<^verbatim>\<open>--n > 0\<close> still admits.\<close>

fun safestrcpy_loop :: "memory \<Rightarrow> addr \<Rightarrow> addr \<Rightarrow> nat \<Rightarrow> memory \<times> addr" where
  "safestrcpy_loop m s t 0 = (m, s)"
| "safestrcpy_loop m s t (Suc k) =
     (let m' = m(s := m t) in if m t \<noteq> 0 then safestrcpy_loop m' (s + 1) (t + 1) k else (m', s + 1))"

definition safestrcpy :: "memory \<Rightarrow> addr \<Rightarrow> addr \<Rightarrow> int \<Rightarrow> memory" where
  "safestrcpy m s t n = (if n \<le> 0 then m else (case safestrcpy_loop m s t (nat n - 1) of (m', s') \<Rightarrow> m'(s' := 0)))"

section \<open>What the routines compute\<close>

text \<open>Copying \<open>n\<close> bytes at once.\<close>

definition blit :: "memory \<Rightarrow> addr \<Rightarrow> nat \<Rightarrow> (addr \<Rightarrow> 8 word) \<Rightarrow> memory" where
  "blit m d n f = (\<lambda>x. if unat (x - d) < n then f (x - d) else m x)"

lemma unat_sub_Suc: "x \<noteq> d \<Longrightarrow> unat (x - (d + 1)) = unat (x - d) - 1" for x d :: addr
proof -
  assume "x \<noteq> d"
  then have "x - d \<noteq> 0" by simp
  then have "unat (x - d - 1) = unat (x - d) - 1" by (simp add: unat_minus_one)
  then show ?thesis by (simp add: diff_diff_eq)
qed

lemma blit_step_up:
  assumes "n < 2 ^ 64" shows "blit (m(d := f 0)) (d + 1) n (\<lambda>k. f (k + 1)) = blit m d (Suc n) f"
proof
  fix x show "blit (m(d := f 0)) (d + 1) n (\<lambda>k. f (k + 1)) x = blit m d (Suc n) f x"
  proof (cases "x = d")
    case True
    have "x - (d + 1) = -1" using True by simp
    then have "\<not> unat (x - (d + 1)) < n" using assms by (simp add: unsigned_minus_1_eq_mask mask_eq_exp_minus_1)
    then show ?thesis using True by (simp add: blit_def)
  next
    case False
    then have "0 < unat (x - d)" by (simp add: unat_gt_0)
    then show ?thesis using False unat_sub_Suc [OF False] by (auto simp: blit_def)
  qed
qed

lemma blit_step_down:
  assumes "n < 2 ^ 64" shows "blit (m(d + of_nat n := f (of_nat n))) d n f = blit m d (Suc n) f"
proof
  fix x show "blit (m(d + of_nat n := f (of_nat n))) d n f x = blit m d (Suc n) f x"
  proof (cases "x = d + of_nat n")
    case True
    then have "unat (x - d) = n" using assms by (simp add: unsigned_of_nat take_bit_eq_mod)
    then show ?thesis using True by (simp add: blit_def)
  next
    case False
    then have "unat (x - d) \<noteq> n" by (auto simp: algebra_simps)
    then show ?thesis using False by (auto simp: blit_def)
  qed
qed

lemma blit_cong: "(\<And>k. unat k < n \<Longrightarrow> f k = g k) \<Longrightarrow> blit m d n f = blit m d n g"
  by (auto simp: blit_def)

lemma memset_loop_blit: "k < 2 ^ 64 \<Longrightarrow> memset_loop m dst c i k = blit m (dst + of_nat i) k (\<lambda>_. c)"
proof (induction k arbitrary: m i)
  case (Suc k)
  then show ?case using blit_step_up [of k m "dst + of_nat i" "\<lambda>_. c"] by (simp add: ac_simps)
qed (simp add: blit_def)

lemma memset_blit: "n < 2 ^ 64 \<Longrightarrow> memset m dst c n = blit m dst n (\<lambda>_. c)"
  by (simp add: memset_def memset_loop_blit)

text \<open>Copying upwards is right unless the destination starts inside the source, and conversely.\<close>

lemma copy_up_blit:
  "n < 2 ^ 64 \<Longrightarrow> d = s \<or> n \<le> unat (d - s) \<Longrightarrow> copy_up m d s n = blit m d n (\<lambda>k. m (s + k))"
proof (induction n arbitrary: m d s)
  case (Suc n)
  have "copy_up (m(d := m s)) (d + 1) (s + 1) n = blit (m(d := m s)) (d + 1) n (\<lambda>k. (m(d := m s)) (s + 1 + k))"
    using Suc by (intro Suc.IH) auto
  also have "\<dots> = blit (m(d := m s)) (d + 1) n (\<lambda>k. m (s + (k + 1)))"
  proof (rule blit_cong)
    fix k :: addr assume k: "unat k < n"
    then have "unat (k + 1) = unat k + 1" using Suc.prems(1) by (simp add: unat_word_ariths)
    then have "k + 1 \<noteq> 0" "d - s \<noteq> k + 1" using Suc.prems(2) k by auto
    moreover have "d - s = k + 1" if "d = s + 1 + k" using that by (simp add: algebra_simps)
    ultimately have "s + 1 + k \<noteq> d" by blast
    then show "(m(d := m s)) (s + 1 + k) = m (s + (k + 1))" by (simp add: ac_simps)
  qed
  also have "\<dots> = blit m d (Suc n) (\<lambda>k. m (s + k))"
    using blit_step_up [of n m d "\<lambda>k. m (s + k)"] Suc.prems(1) by simp
  finally show ?case by simp
qed (simp add: blit_def)

lemma copy_down_blit:
  "n < 2 ^ 64 \<Longrightarrow> n \<le> unat (s - d) \<Longrightarrow> copy_down m (d + of_nat n) (s + of_nat n) n = blit m d n (\<lambda>k. m (s + k))"
proof (induction n arbitrary: m)
  case (Suc n)
  let ?m = "m(d + of_nat n := m (s + of_nat n))"
  have e: "d + of_nat (Suc n) - 1 = d + of_nat n" "s + of_nat (Suc n) - 1 = s + of_nat n" by simp_all
  have "copy_down m (d + of_nat (Suc n)) (s + of_nat (Suc n)) (Suc n) = copy_down ?m (d + of_nat n) (s + of_nat n) n"
    unfolding copy_down.simps e ..
  also have "\<dots> = blit ?m d n (\<lambda>k. ?m (s + k))" using Suc by (intro Suc.IH) auto
  also have "\<dots> = blit ?m d n (\<lambda>k. m (s + k))"
  proof (rule blit_cong)
    fix k :: addr assume k: "unat k < n"
    have "unat (of_nat n - k) = n - unat k" using k Suc.prems(1)
      by (simp add: unat_sub word_le_nat_alt unsigned_of_nat take_bit_eq_mod)
    then have "of_nat n - k \<noteq> s - d" using Suc.prems(2) by auto
    moreover have "of_nat n - k = s - d" if "s + k = d + of_nat n" using that by (simp add: algebra_simps)
    ultimately have "s + k \<noteq> d + of_nat n" by blast
    then show "?m (s + k) = m (s + k)" by simp
  qed
  also have "\<dots> = blit m d (Suc n) (\<lambda>k. m (s + k))" using blit_step_down [of n m d "\<lambda>k. m (s + k)"] Suc.prems(1) by simp
  finally show ?case .
qed (simp add: blit_def)

lemma memmove_blit:
  assumes "unat src + n < 2 ^ 64" "unat dst + n \<le> 2 ^ 64"
  shows "memmove m dst src n = blit m dst n (\<lambda>k. m (src + k))"
proof (cases "src < dst \<and> src + of_nat n > dst")
  case True
  have "unat (src - dst) = 2 ^ 64 + unat src - unat dst" using True
    by (simp add: unat_sub_if' word_less_nat_alt)
  then have "n \<le> unat (src - dst)" using assms(2) by simp
  then show ?thesis using True copy_down_blit [of n src dst m] assms by (auto simp: memmove_def blit_def)
next
  case False
  have "unat (src + of_nat n) = unat src + n" using assms(1) by (simp add: unat_word_ariths unsigned_of_nat take_bit_eq_mod)
  then have "dst = src \<or> n \<le> unat (dst - src)"
    using False assms by (cases "unat dst = unat src") (auto simp: unat_sub_if' word_less_nat_alt not_less word_unat_eq_iff)
  then show ?thesis using False copy_up_blit [of n dst src m] assms by (auto simp: memmove_def blit_def)
qed

end
