(* ===== verification/Riscv.thy ===== *)
theory Riscv
  imports Kstring
begin

text \<open>
  Pages, page table entries and 64-bit cells of the physical memory (the macros of
  \<^verbatim>\<open>xv6/kernel/riscv.h\<close> and \<^verbatim>\<open>xv6/kernel/memlayout.h\<close>), with the arithmetic the kernel's
  memory management relies on.
\<close>

unbundle bit_operations_syntax

section \<open>Macros\<close>

definition PGSIZE :: addr where "PGSIZE = 4096"

definition PGROUNDUP :: "addr \<Rightarrow> addr" where
  "PGROUNDUP sz = (sz + PGSIZE - 1) AND NOT (PGSIZE - 1)"

definition PGROUNDDOWN :: "addr \<Rightarrow> addr" where
  "PGROUNDDOWN a = a AND NOT (PGSIZE - 1)"

definition PTE_V :: addr where "PTE_V = push_bit 0 1"
definition PTE_R :: addr where "PTE_R = push_bit 1 1"
definition PTE_W :: addr where "PTE_W = push_bit 2 1"
definition PTE_X :: addr where "PTE_X = push_bit 3 1"
definition PTE_U :: addr where "PTE_U = push_bit 4 1"

definition PA2PTE :: "addr \<Rightarrow> addr" where "PA2PTE pa = push_bit 10 (drop_bit 12 pa)"
definition PTE2PA :: "addr \<Rightarrow> addr" where "PTE2PA pte = push_bit 12 (drop_bit 10 pte)"
definition PTE_FLAGS :: "addr \<Rightarrow> addr" where "PTE_FLAGS pte = pte AND 0x3FF"

definition PX :: "nat \<Rightarrow> addr \<Rightarrow> addr" where
  "PX level va = drop_bit (12 + 9 * level) va AND 0x1FF"

definition MAXVA :: addr where "MAXVA = push_bit (9 + 9 + 9 + 12 - 1) 1"

definition KERNBASE :: addr where "KERNBASE = 0x80000000"
definition PHYSTOP :: addr where "PHYSTOP = KERNBASE + 128 * 1024 * 1024"
definition TRAMPOLINE :: addr where "TRAMPOLINE = MAXVA - PGSIZE"
definition TRAPFRAME :: addr where "TRAPFRAME = TRAMPOLINE - PGSIZE"

section \<open>Cells of eight bytes, least significant byte first\<close>

fun unbytes :: "8 word list \<Rightarrow> 64 word" where
  "unbytes [] = 0"
| "unbytes (b # bs) = ucast b OR push_bit 8 (unbytes bs)"

definition read64 :: "memory \<Rightarrow> addr \<Rightarrow> 64 word" where
  "read64 m a = unbytes (map (\<lambda>k. m (a + of_nat k)) [0..<8])"

definition write64 :: "memory \<Rightarrow> addr \<Rightarrow> 64 word \<Rightarrow> memory" where
  "write64 m a v = blit m a 8 (\<lambda>k. ucast (drop_bit (8 * unat k) v))"

lemma bit_unbytes: "bit (unbytes bs) n \<longleftrightarrow> n < 64 \<and> n div 8 < length bs \<and> bit (bs ! (n div 8)) (n mod 8)"
proof (induction bs arbitrary: n)
  case (Cons b bs)
  show ?case
  proof (cases "n < 8")
    case True
    then show ?thesis by (auto simp: bit_or_iff bit_push_bit_iff bit_ucast_iff)
  next
    case False
    then obtain k where "n = k + 8" by (metis add.commute le_Suc_ex not_less)
    moreover have "(k + 8) div 8 = Suc (k div 8)" by simp
    ultimately show ?thesis using Cons.IH [of k] by (auto simp: bit_or_iff bit_push_bit_iff bit_ucast_iff dest: bit_imp_le_length)
  qed
qed simp

lemma write64_at: "k < 8 \<Longrightarrow> write64 m a v (a + of_nat k) = ucast (drop_bit (8 * k) v)"
  by (simp add: write64_def blit_def unsigned_of_nat take_bit_eq_mod)

lemma read64_write64 [simp]: "read64 (write64 m a v) a = v"
proof (rule bit_word_eqI)
  fix n assume "n < LENGTH(64)"
  then have n: "n < 64" "n div 8 < 8" "n mod 8 < 8" by auto
  then show "bit (read64 (write64 m a v) a) n = bit v n"
    unfolding read64_def bit_unbytes by (simp add: write64_at bit_ucast_iff bit_drop_bit_eq del: upt_rec_numeral)
qed

lemma read64_cong: "(\<And>k. k < 8 \<Longrightarrow> m (a + of_nat k) = m' (a + of_nat k)) \<Longrightarrow> read64 m a = read64 m' a"
  unfolding read64_def by (metis (mono_tags, lifting) atLeastLessThan_iff map_eq_conv set_upt)

section \<open>Pages\<close>

definition aligned :: "addr \<Rightarrow> bool" where
  "aligned a \<longleftrightarrow> a mod PGSIZE = 0"

lemma unat_4096 [simp]: "unat (4096 :: addr) = 4096" "unat PGSIZE = 4096"
  by (simp_all add: PGSIZE_def)

lemma aligned_unat: "aligned a \<longleftrightarrow> unat a mod 4096 = 0"
  by (simp add: aligned_def word_unat_eq_iff unat_mod)

lemma PGROUNDDOWN_shift: "PGROUNDDOWN a = push_bit 12 (drop_bit 12 a)"
proof -
  have "PGSIZE - 1 = mask 12" by (simp add: PGSIZE_def mask_eq_exp_minus_1)
  then show ?thesis by (intro bit_word_eqI) (auto simp: PGROUNDDOWN_def bit_and_iff bit_not_iff bit_mask_iff bit_push_bit_iff bit_drop_bit_eq not_le)
qed

lemma PGROUNDDOWN_add: "PGROUNDDOWN a + take_bit 12 a = a"
  unfolding PGROUNDDOWN_shift by (rule bits_ident)

lemma unat_take12: "unat (take_bit 12 a) = unat a mod 4096" for a :: addr
  by (simp add: take_bit_eq_mod unat_mod)

lemma unat_PGROUNDDOWN: "unat (PGROUNDDOWN a) = unat a div 4096 * 4096"
proof -
  have "PGROUNDDOWN a = a - take_bit 12 a" using PGROUNDDOWN_add [of a] by (simp add: eq_diff_eq)
  moreover have "take_bit 12 a \<le> a" by (simp add: word_le_nat_alt unat_take12)
  ultimately show ?thesis by (simp add: unat_sub unat_take12 minus_mod_eq_div_mult)
qed

lemma aligned_PGROUNDDOWN [simp]: "aligned (PGROUNDDOWN a)"
  by (simp add: aligned_unat unat_PGROUNDDOWN)

lemma PGROUNDDOWN_aligned [simp]: "aligned a \<Longrightarrow> PGROUNDDOWN a = a"
proof -
  assume "aligned a"
  then have "unat a div 4096 * 4096 = unat a" unfolding aligned_unat by (simp add: mod_eq_0_iff_dvd)
  then show ?thesis by (simp add: word_unat_eq_iff unat_PGROUNDDOWN)
qed

text \<open>An aligned page does not wrap around.\<close>

lemma aligned_room: "aligned a \<Longrightarrow> unat a + 4096 \<le> 2 ^ 64"
proof -
  assume "aligned a"
  then obtain q where q: "unat a = 4096 * q" unfolding aligned_unat by (auto elim: dvdE)
  moreover have "unat a < 2 ^ LENGTH(64)" by (rule unsigned_less)
  ultimately have "4096 * q < 2 ^ 64" by simp
  then show ?thesis unfolding q by simp
qed

lemma unat_in_page: "aligned a \<Longrightarrow> unat k < 4096 \<Longrightarrow> unat (a + k) = unat a + unat k"
  using aligned_room [of a] by (intro unat_add_lem [THEN iffD1]) simp

lemma PGROUNDDOWN_in_page [simp]:
  assumes "aligned a" "unat k < 4096" shows "PGROUNDDOWN (a + k) = a"
proof -
  obtain q where q: "unat a = 4096 * q" using assms(1) unfolding aligned_unat by (auto elim: dvdE)
  have "unat (PGROUNDDOWN (a + k)) = (4096 * q + unat k) div 4096 * 4096"
    unfolding unat_PGROUNDDOWN unat_in_page [OF assms] q ..
  also have "\<dots> = unat a" using assms(2) q by simp
  finally show ?thesis by (simp add: word_unat_eq_iff)
qed

lemma in_page_iff: "aligned a \<Longrightarrow> unat (x - a) < 4096 \<longleftrightarrow> PGROUNDDOWN x = a"
proof
  assume "aligned a" "unat (x - a) < 4096"
  then show "PGROUNDDOWN x = a" using PGROUNDDOWN_in_page [of a "x - a"] by simp
next
  assume "PGROUNDDOWN x = a"
  then have "x - a = take_bit 12 x" using PGROUNDDOWN_add [of x] by (simp add: algebra_simps)
  then show "unat (x - a) < 4096" by (simp add: unat_take12)
qed

lemma offset_less: "unat (x - PGROUNDDOWN x) < 4096"
  by (simp add: in_page_iff)

section \<open>Entries of a table page\<close>

definition ent :: "memory \<Rightarrow> addr \<Rightarrow> addr \<Rightarrow> 64 word" where
  "ent m a i = read64 m (a + 8 * i)"

lemma unat_cell: "unat i < 512 \<Longrightarrow> k < 8 \<Longrightarrow> unat (8 * i + of_nat k) = 8 * unat i + k" for i :: addr
  by (simp add: unat_word_ariths unsigned_of_nat take_bit_eq_mod)

lemma cell_addr: "unat i < 512 \<Longrightarrow> k < 8 \<Longrightarrow> aligned a \<Longrightarrow> PGROUNDDOWN (a + 8 * i + of_nat k) = a"
  using PGROUNDDOWN_in_page [of a "8 * i + of_nat k"] unat_cell [of i k] by (simp add: add.assoc)

text \<open>A table entry depends only on the bytes of its page.\<close>

lemma ent_cong:
  assumes "aligned a" "unat i < 512" "\<And>x. PGROUNDDOWN x = a \<Longrightarrow> m x = m' x"
  shows "ent m a i = ent m' a i"
  unfolding ent_def using assms cell_addr by (intro read64_cong) simp

lemma ent_write64:
  assumes "aligned a" "aligned b" "unat i < 512" "unat j < 512"
  shows "ent (write64 m (a + 8 * i) v) b j = (if a = b \<and> i = j then v else ent m b j)"
proof (cases "a = b \<and> i = j")
  case False
  have ge: "unat (b + 8 * j + of_nat k - (a + 8 * i)) \<ge> 8" if k: "k < 8" for k
  proof (rule ccontr)
    assume "\<not> ?thesis"
    then obtain h where h: "h < 8" "b + 8 * j + of_nat k - (a + 8 * i) = of_nat h"
      by (intro that [of "unat (b + 8 * j + of_nat k - (a + 8 * i))"]) simp_all
    then have h: "b + 8 * j + of_nat k = a + 8 * i + of_nat h" "h < 8" by (simp_all add: diff_eq_eq add.commute)
    then have "PGROUNDDOWN (b + 8 * j + of_nat k) = PGROUNDDOWN (a + 8 * i + of_nat h)" by simp
    then have "b = a" using cell_addr assms k h(2) by metis
    then have "8 * j + of_nat k = 8 * i + of_nat h" using h(1) by (simp add: add.assoc)
    then have "8 * unat j + k = 8 * unat i + h" using unat_cell assms(3,4) k h(2) by metis
    then have "unat j = unat i" using k h(2) by presburger
    with False \<open>b = a\<close> show False by (simp add: word_unat_eq_iff)
  qed
  have "write64 m (a + 8 * i) v (b + 8 * j + of_nat k) = m (b + 8 * j + of_nat k)" if "k < 8" for k
    using ge [OF that] by (simp add: write64_def blit_def)
  then show ?thesis using False read64_cong unfolding ent_def by metis
qed (auto simp: ent_def)

text \<open>Filling or copying a whole page.\<close>

lemma page_blit: "aligned a \<Longrightarrow> blit m a 4096 f = (\<lambda>x. if PGROUNDDOWN x = a then f (x - a) else m x)"
  by (simp add: blit_def in_page_iff)

lemma ent_memset0: "aligned a \<Longrightarrow> unat i < 512 \<Longrightarrow> ent (memset m a 0 4096) a i = 0"
proof -
  assume a: "aligned a" "unat i < 512"
  have "ent (memset m a 0 4096) a i = ent (\<lambda>_. 0) a i" by (rule ent_cong [OF a]) (simp add: memset_blit page_blit a)
  also have "\<dots> = 0" unfolding ent_def read64_def by (rule bit_word_eqI) (simp add: bit_unbytes)
  finally show ?thesis .
qed

section \<open>Page table entries\<close>

lemmas PTE_bits = PTE_V_def PTE_R_def PTE_W_def PTE_X_def PTE_U_def

lemma flags_bits: "f < 1024 \<Longrightarrow> bit f n \<Longrightarrow> n < 10" for f :: addr
proof (rule ccontr)
  assume f: "f < 1024" "bit f n" "\<not> n < 10"
  have "take_bit 10 f = f" using f(1) by (simp add: word_unat_eq_iff take_bit_eq_mod unat_mod word_less_nat_alt)
  then show False using f(2,3) by (metis bit_take_bit_iff)
qed

lemma aligned_bits: "aligned a \<Longrightarrow> bit a n \<Longrightarrow> 12 \<le> n"
proof (rule ccontr)
  assume a: "aligned a" "bit a n" "\<not> 12 \<le> n"
  have "a = push_bit 12 (drop_bit 12 a)" using PGROUNDDOWN_aligned [OF a(1)] PGROUNDDOWN_shift [of a] by simp
  then show False using a(2,3) by (metis bit_push_bit_iff)
qed

lemma PTE2PA_make: "aligned pa \<Longrightarrow> f < 1024 \<Longrightarrow> PTE2PA (PA2PTE pa OR f) = pa"
  unfolding PTE2PA_def PA2PTE_def
  by (intro bit_word_eqI) (auto simp: bit_push_bit_iff bit_drop_bit_eq bit_or_iff dest: flags_bits aligned_bits bit_imp_le_length)

lemma PTE_FLAGS_take: "PTE_FLAGS pte = take_bit 10 pte"
  by (simp add: PTE_FLAGS_def take_bit_eq_mask mask_eq_exp_minus_1)

lemma PX_take: "PX l va = take_bit 9 (drop_bit (12 + 9 * l) va)"
  by (simp add: PX_def take_bit_eq_mask mask_eq_exp_minus_1)

lemma PTE_FLAGS_make: "f < 1024 \<Longrightarrow> PTE_FLAGS (PA2PTE pa OR f) = f"
  unfolding PTE_FLAGS_take PA2PTE_def
  by (intro bit_word_eqI) (auto simp: bit_push_bit_iff bit_drop_bit_eq bit_or_iff bit_take_bit_iff dest: flags_bits)

lemma PTE_flag_make:
  assumes "n < 10" shows "(PA2PTE pa OR f) AND push_bit n 1 = f AND push_bit n 1"
  unfolding PA2PTE_def
  by (intro bit_word_eqI) (use assms in \<open>auto simp: bit_push_bit_iff bit_drop_bit_eq bit_or_iff bit_and_iff bit_exp_iff\<close>)

lemma aligned_PTE2PA [simp]: "aligned (PTE2PA pte)"
proof -
  have "PGROUNDDOWN (PTE2PA pte) = PTE2PA pte"
    unfolding PGROUNDDOWN_shift PTE2PA_def
    by (intro bit_word_eqI) (auto simp: bit_push_bit_iff bit_drop_bit_eq)
  then show ?thesis by (metis aligned_PGROUNDDOWN)
qed

lemma PX_less [simp]: "unat (PX l va) < 512"
  by (simp add: PX_take take_bit_eq_mod unat_mod)

text \<open>The three indices determine the page of an address below \<^verbatim>\<open>MAXVA\<close>.\<close>

lemma PX_bit: "bit (PX l va) n \<longleftrightarrow> n < 9 \<and> bit va (12 + 9 * l + n)"
  by (auto simp: PX_take bit_take_bit_iff bit_drop_bit_eq add.commute)

lemma MAXVA_bits: "va < MAXVA \<Longrightarrow> bit va n \<Longrightarrow> n < 38"
proof (rule ccontr)
  assume f: "va < MAXVA" "bit va n" "\<not> n < 38"
  have "take_bit 38 va = va" using f(1) by (simp add: word_unat_eq_iff take_bit_eq_mod unat_mod word_less_nat_alt MAXVA_def)
  then show False using f(2,3) by (metis bit_take_bit_iff)
qed

lemma PX_inj:
  assumes "va < MAXVA" "va' < MAXVA" "PX 2 va = PX 2 va'" "PX 1 va = PX 1 va'" "PX 0 va = PX 0 va'"
  shows "PGROUNDDOWN va = PGROUNDDOWN va'"
proof (rule bit_word_eqI)
  fix n
  have b: "bit va (12 + 9 * l + k) = bit va' (12 + 9 * l + k)" if "l = 0 \<or> l = 1 \<or> l = 2" "k < 9" for l k
    using PX_bit [of l va k] PX_bit [of l va' k] that assms(3-5) by auto
  show "bit (PGROUNDDOWN va) n = bit (PGROUNDDOWN va') n"
  proof (cases "12 \<le> n \<and> n < 39")
    case True
    define l where "l = (n - 12) div 9"
    have "n = 12 + 9 * l + (n - 12) mod 9" "l = 0 \<or> l = 1 \<or> l = 2" using True by (auto simp: l_def)
    then have "bit va n = bit va' n" using b [of l "(n - 12) mod 9"] by simp
    then show ?thesis using True by (simp add: PGROUNDDOWN_shift bit_push_bit_iff bit_drop_bit_eq)
  next
    case False
    then show ?thesis using MAXVA_bits [OF assms(1), of n] MAXVA_bits [OF assms(2), of n]
      by (auto simp: PGROUNDDOWN_shift bit_push_bit_iff bit_drop_bit_eq)
  qed
qed

section \<open>Rounding up\<close>

lemma PGROUNDUP_down: "PGROUNDUP a = PGROUNDDOWN (a + 4095)"
  by (simp add: PGROUNDUP_def PGROUNDDOWN_def PGSIZE_def add.commute)

lemma aligned_PGROUNDUP [simp]: "aligned (PGROUNDUP a)"
  by (simp add: PGROUNDUP_down)

lemma unat_PGROUNDUP: "unat a + 4095 < 2 ^ 64 \<Longrightarrow> unat (PGROUNDUP a) = (unat a + 4095) div 4096 * 4096"
proof -
  assume "unat a + 4095 < 2 ^ 64"
  then have "unat (a + 4095) = unat a + 4095" by (simp add: unat_word_ariths)
  then show ?thesis by (simp add: PGROUNDUP_down unat_PGROUNDDOWN)
qed

lemma aligned_mult: "aligned a \<longleftrightarrow> (\<exists>q. unat a = 4096 * q)"
  unfolding aligned_unat by (auto elim: dvdE)

text \<open>Rounding up gives the least page border that is not below the address.\<close>

lemma PGROUNDUP_le_iff:
  assumes "unat a + 4095 < 2 ^ 64" "aligned q" shows "PGROUNDUP a \<le> q \<longleftrightarrow> a \<le> q"
proof -
  obtain k where k: "unat q = 4096 * k" using assms(2) by (auto simp: aligned_mult)
  have "(unat a + 4095) div 4096 * 4096 \<le> 4096 * k \<longleftrightarrow> (unat a + 4095) div 4096 \<le> k" by simp
  also have "\<dots> \<longleftrightarrow> unat a + 4095 < 4096 * (k + 1)" using less_mult_imp_div_less [of "unat a + 4095" "k + 1" 4096]
    by (metis Suc_eq_plus1 div_less_iff_less_mult less_Suc_eq_le mult.commute zero_less_numeral)
  also have "\<dots> \<longleftrightarrow> unat a \<le> 4096 * k" by (simp add: distrib_left less_eq_Suc_le)
  finally show ?thesis unfolding word_le_nat_alt unat_PGROUNDUP [OF assms(1)] k .
qed

lemma unat_PHYSTOP [simp]: "unat PHYSTOP = 0x88000000"
  by (simp add: PHYSTOP_def KERNBASE_def)

lemma aligned_PHYSTOP [simp]: "aligned PHYSTOP"
  by (simp add: aligned_unat)

lemma aligned_zero [simp]: "aligned 0"
  by (simp add: aligned_unat)

text \<open>The page after an aligned one.\<close>

lemma next_le: "aligned p \<Longrightarrow> aligned q \<Longrightarrow> p < q \<Longrightarrow> unat p + 4096 \<le> unat q"
  by (auto simp: aligned_mult word_less_nat_alt)

lemma unat_next: "aligned p \<Longrightarrow> aligned q \<Longrightarrow> p < q \<Longrightarrow> unat (p + PGSIZE) = unat p + 4096"
proof -
  assume "aligned p" "aligned q" "p < q"
  then have "unat p + 4096 \<le> unat q" by (rule next_le)
  moreover have "unat q < 2 ^ LENGTH(64)" by (rule unsigned_less)
  ultimately show ?thesis by (simp add: unat_word_ariths)
qed

lemma aligned_next: "aligned p \<Longrightarrow> aligned (p + PGSIZE)"
proof -
  assume "aligned p"
  then have "unat (p + PGSIZE) mod 4096 = 0" by (simp add: aligned_unat unat_word_ariths mod_mod_cancel)
  then show ?thesis by (simp add: aligned_unat)
qed

end
