(* ===== verification/Kalloc.thy ===== *)
theory Kalloc
  imports Riscv "HOL-Library.Monad_Syntax"
begin

text \<open>
  The page allocator (\<^verbatim>\<open>xv6/kernel/kalloc.c\<close>): the free list is threaded through the free pages
  of the byte memory. Panics are \<open>None\<close>. The first address after the kernel (the linker's
  \<^verbatim>\<open>end\<close>) is a field of the state that no operation changes.
\<close>

section \<open>Operations\<close>

record kmem =
  mem :: memory
  freelist :: addr
  kend :: addr

definition kfree :: "addr \<Rightarrow> 'a kmem_scheme \<Rightarrow> 'a kmem_scheme option" where
  "kfree pa s =
     (if pa mod PGSIZE \<noteq> 0 \<or> pa < kend s \<or> pa \<ge> PHYSTOP then None
      else
        (let m = memset (mem s) pa 1 (unat PGSIZE) in
         Some (s\<lparr>mem := write64 m pa (freelist s), freelist := pa\<rparr>)))"

function freerange_loop :: "addr \<Rightarrow> addr \<Rightarrow> 'a kmem_scheme \<Rightarrow> 'a kmem_scheme option" where
  "freerange_loop p pa_end s =
     (if p + PGSIZE \<le> pa_end
      then (case kfree p s of None \<Rightarrow> None | Some s' \<Rightarrow> freerange_loop (p + PGSIZE) pa_end s')
      else Some s)"
  by pat_completeness auto
termination
proof (relation "measure (\<lambda>(p, pa_end, s). unat PHYSTOP + 4096 - unat p)")
  fix p pa_end :: addr and s s' :: "'a kmem_scheme"
  assume "kfree p s = Some s'"
  then have "p < PHYSTOP" by (auto simp: kfree_def split: if_splits)
  then have "unat p < unat PHYSTOP" by (simp add: word_less_nat_alt)
  moreover have "unat (p + PGSIZE) = unat p + 4096"
    using \<open>unat p < unat PHYSTOP\<close> by (simp add: PGSIZE_def PHYSTOP_def KERNBASE_def unat_word_ariths)
  ultimately show "((p + PGSIZE, pa_end, s'), p, pa_end, s) \<in> measure (\<lambda>(p, pa_end, s). unat PHYSTOP + 4096 - unat p)"
    by simp
qed simp

definition freerange :: "addr \<Rightarrow> addr \<Rightarrow> 'a kmem_scheme \<Rightarrow> 'a kmem_scheme option" where
  "freerange pa_start pa_end s = freerange_loop (PGROUNDUP pa_start) pa_end s"

definition kinit :: "'a kmem_scheme \<Rightarrow> 'a kmem_scheme option" where
  "kinit s = freerange (kend s) PHYSTOP (s\<lparr>freelist := 0\<rparr>)"

definition kalloc :: "'a kmem_scheme \<Rightarrow> addr \<times> 'a kmem_scheme" where
  "kalloc s =
     (let r = freelist s in
      if r \<noteq> 0 then (r, s\<lparr>freelist := read64 (mem s) r, mem := memset (mem s) r 5 (unat PGSIZE)\<rparr>)
      else (0, s))"

section \<open>The free list\<close>

definition page_ok :: "addr \<Rightarrow> addr \<Rightarrow> bool" where
  "page_ok e p \<longleftrightarrow> aligned p \<and> e \<le> p \<and> p < PHYSTOP"

fun flist :: "memory \<Rightarrow> addr \<Rightarrow> addr list \<Rightarrow> bool" where
  "flist m a [] \<longleftrightarrow> a = 0"
| "flist m a (p # ps) \<longleftrightarrow> a = p \<and> flist m (read64 m p) ps"

text \<open>\<open>kinv s ps\<close>: the free list of \<open>s\<close> is \<open>ps\<close>, pages without repetition behind the kernel.\<close>

definition kinv :: "'a kmem_scheme \<Rightarrow> addr list \<Rightarrow> bool" where
  "kinv s ps \<longleftrightarrow> flist (mem s) (freelist s) ps \<and> distinct ps \<and> (\<forall>p \<in> set ps. page_ok (kend s) p) \<and> 0 < kend s"

lemma read64_page: "aligned p \<Longrightarrow> (\<And>x. PGROUNDDOWN x = p \<Longrightarrow> m x = m' x) \<Longrightarrow> read64 m p = read64 m' p"
  using ent_cong [of p 0 m m'] by (simp add: ent_def)

lemma flist_cong:
  "flist m a ps \<Longrightarrow> (\<And>p x. p \<in> set ps \<Longrightarrow> PGROUNDDOWN x = p \<Longrightarrow> m x = m' x) \<Longrightarrow> \<forall>p \<in> set ps. aligned p \<Longrightarrow>
   flist m' a ps"
proof (induction ps arbitrary: a)
  case (Cons p ps)
  then have "read64 m p = read64 m' p" by (intro read64_page) auto
  then show ?case using Cons by auto
qed simp

lemma kinv_mem:
  assumes "kinv s ps" "\<And>x. PGROUNDDOWN x \<in> set ps \<Longrightarrow> m' x = mem s x"
  shows "kinv (s\<lparr>mem := m'\<rparr>) ps"
  using assms flist_cong [of "mem s" "freelist s" ps m'] by (auto simp: kinv_def page_ok_def)

lemma memset_page: "aligned p \<Longrightarrow> memset m p c 4096 = (\<lambda>x. if PGROUNDDOWN x = p then c else m x)"
  by (simp add: memset_blit page_blit)

lemma write64_page: "aligned p \<Longrightarrow> PGROUNDDOWN x \<noteq> p \<Longrightarrow> write64 m p v x = m x"
  using in_page_iff [of p x] by (auto simp: write64_def blit_def)

lemma kfree_ok:
  assumes "kinv s ps" "page_ok (kend s) p" "p \<notin> set ps"
  obtains s' where "kfree p s = Some s'" "kinv s' (p # ps)" "kend s' = kend s" "\<And>x. PGROUNDDOWN x \<noteq> p \<Longrightarrow> mem s' x = mem s x"
    "kmem.more s' = kmem.more s"
proof -
  let ?m = "write64 (memset (mem s) p 1 (unat PGSIZE)) p (freelist s)"
  let ?s = "s\<lparr>mem := ?m, freelist := p\<rparr>"
  have a: "aligned p" using assms(2) by (simp add: page_ok_def)
  have f: "?m x = mem s x" if "PGROUNDDOWN x \<noteq> p" for x using that by (simp add: write64_page a memset_page)
  have "flist ?m (freelist s) ps"
  proof (rule flist_cong)
    show "flist (mem s) (freelist s) ps" "\<forall>p \<in> set ps. aligned p" using assms(1) by (simp_all add: kinv_def page_ok_def)
    show "mem s x = ?m x" if "q \<in> set ps" "PGROUNDDOWN x = q" for q x using f [of x] that assms(3) by force
  qed
  then have "kinv ?s (p # ps)" using assms by (simp add: kinv_def)
  moreover have "kfree p s = Some ?s" using assms(2) by (auto simp: kfree_def page_ok_def aligned_def not_less not_le)
  ultimately show thesis using that [of ?s] f by simp
qed

lemma kalloc_empty: "kinv s [] \<Longrightarrow> kalloc s = (0, s)"
  by (simp add: kinv_def kalloc_def)

lemma kalloc_ok:
  assumes "kinv s (p # ps)"
  obtains s' where "kalloc s = (p, s')" "kinv s' ps" "kend s' = kend s" "\<And>x. PGROUNDDOWN x \<noteq> p \<Longrightarrow> mem s' x = mem s x"
    "kmem.more s' = kmem.more s" "page_ok (kend s) p" "p \<noteq> 0" "p \<notin> set ps"
proof -
  have p: "freelist s = p" "aligned p" "p \<noteq> 0" "page_ok (kend s) p" "p \<notin> set ps"
    using assms by (auto simp: kinv_def page_ok_def)
  let ?s = "s\<lparr>freelist := read64 (mem s) p, mem := memset (mem s) p 5 (unat PGSIZE)\<rparr>"
  have k: "kinv (s\<lparr>freelist := read64 (mem s) p\<rparr>) ps" using assms by (auto simp: kinv_def)
  have "kinv (s\<lparr>freelist := read64 (mem s) p, mem := memset (mem s) p 5 (unat PGSIZE)\<rparr>) ps"
    by (rule kinv_mem [OF k]) (use p in \<open>auto simp: memset_page\<close>)
  then show thesis using that [of ?s] p by (simp add: kalloc_def memset_page)
qed

lemma freerange_ok:
  assumes "kinv s ps" "aligned p" "p \<le> PHYSTOP" "kend s \<le> p" "set ps = {q. page_ok (kend s) q \<and> q < p}"
  shows "\<exists>s' ps'. freerange_loop p PHYSTOP s = Some s' \<and> kinv s' ps' \<and> set ps' = {q. page_ok (kend s) q} \<and> kend s' = kend s \<and>
    kmem.more s' = kmem.more s"
  using assms
proof (induction p PHYSTOP s arbitrary: ps rule: freerange_loop.induct)
  case (1 p s)
  show ?case
  proof (cases "p = PHYSTOP")
    case True
    have "\<not> PHYSTOP + PGSIZE \<le> PHYSTOP" by (simp add: PHYSTOP_def KERNBASE_def PGSIZE_def)
    moreover have "set ps = {q. page_ok (kend s) q}" using 1(6) True by (auto simp: page_ok_def)
    ultimately show ?thesis using True 1(2) by auto
  next
    case False
    then have p: "p < PHYSTOP" using 1(4) by simp
    have ok: "page_ok (kend s) p" "p \<notin> set ps" using p 1(3,5,6) by (auto simp: page_ok_def)
    obtain s' where s': "kfree p s = Some s'" "kinv s' (p # ps)" "kend s' = kend s" "kmem.more s' = kmem.more s"
      using kfree_ok [OF 1(2) ok] by metis
    have n: "unat (p + PGSIZE) = unat p + 4096" by (rule unat_next [OF 1(3) aligned_PHYSTOP p])
    have le: "p + PGSIZE \<le> PHYSTOP" using next_le [OF 1(3) aligned_PHYSTOP p] n by (simp add: word_le_nat_alt)
    have ge: "kend s' \<le> p + PGSIZE" using 1(5) s'(3) n by (simp add: word_le_nat_alt)
    have "q < p + PGSIZE \<longleftrightarrow> q < p \<or> q = p" if "aligned q" for q
      using that 1(3) n next_le [of p q] by (cases "unat p < unat q") (auto simp: word_less_nat_alt not_less word_unat_eq_iff)
    then have "set (p # ps) = {q. page_ok (kend s') q \<and> q < p + PGSIZE}"
      using 1(6) ok(1) s'(3) by (auto simp: page_ok_def)
    from 1(1) [OF le s'(1,2) aligned_next [OF 1(3)] le ge this] show ?thesis using le s' by simp
  qed
qed

text \<open>After \<^verbatim>\<open>kinit\<close> every page between the kernel and \<^verbatim>\<open>PHYSTOP\<close> is free.\<close>

lemma kinit_ok:
  assumes "0 < kend s" "kend s \<le> PHYSTOP"
  obtains s' ps where "kinit s = Some s'" "kinv s' ps" "set ps = {p. page_ok (kend s) p}" "kend s' = kend s"
proof -
  let ?s = "s\<lparr>freelist := 0\<rparr>"
  have e: "unat (kend s) + 4095 < 2 ^ 64" using assms(2) by (simp add: word_le_nat_alt)
  have "\<exists>s' ps'. freerange_loop (PGROUNDUP (kend s)) PHYSTOP ?s = Some s' \<and> kinv s' ps' \<and> set ps' = {q. page_ok (kend ?s) q} \<and>
      kend s' = kend ?s \<and> kmem.more s' = kmem.more ?s"
  proof (rule freerange_ok)
    show "kinv ?s []" using assms(1) by (simp add: kinv_def)
    show "PGROUNDUP (kend s) \<le> PHYSTOP" using PGROUNDUP_le_iff [OF e aligned_PHYSTOP] assms(2) by simp
    show "kend ?s \<le> PGROUNDUP (kend s)" using PGROUNDUP_le_iff [OF e aligned_PGROUNDUP, of "kend s"] by simp
    show "set [] = {q. page_ok (kend ?s) q \<and> q < PGROUNDUP (kend s)}"
      using PGROUNDUP_le_iff [OF e] by (auto simp: page_ok_def not_le [symmetric])
  qed simp
  then show thesis using that by (auto simp: kinit_def freerange_def)
qed

section \<open>An interface for page allocators\<close>

text \<open>
  The laws a client of the allocator relies on: an abstraction of the state to the list of
  free pages, which operations change as expected, and which no write outside the free pages
  disturbs.
\<close>

locale page_allocator =
  fixes inv :: "'s \<Rightarrow> addr list \<Rightarrow> bool"
    and alloc :: "'s \<Rightarrow> addr \<times> 's"
    and free :: "addr \<Rightarrow> 's \<Rightarrow> 's option"
    and store :: "memory \<Rightarrow> 's \<Rightarrow> 's"
    and load :: "'s \<Rightarrow> memory"
    and valid :: "'s \<Rightarrow> addr \<Rightarrow> bool"
  assumes alloc_empty: "inv s [] \<Longrightarrow> alloc s = (0, s)"
    and alloc_pop: "inv s (p # ps) \<Longrightarrow> \<exists>s'. alloc s = (p, s') \<and> inv s' ps \<and> valid s' = valid s \<and> (\<forall>x. PGROUNDDOWN x \<noteq> p \<longrightarrow> load s' x = load s x)"
    and free_push: "inv s ps \<Longrightarrow> valid s p \<Longrightarrow> p \<notin> set ps \<Longrightarrow> \<exists>s'. free p s = Some s' \<and> inv s' (p # ps) \<and> valid s' = valid s \<and>
          (\<forall>x. PGROUNDDOWN x \<noteq> p \<longrightarrow> load s' x = load s x)"
    and inv_valid: "inv s ps \<Longrightarrow> p \<in> set ps \<Longrightarrow> valid s p \<and> p \<noteq> 0"
    and inv_distinct: "inv s ps \<Longrightarrow> distinct ps"
    and store_frame: "inv s ps \<Longrightarrow> (\<And>x. PGROUNDDOWN x \<in> set ps \<Longrightarrow> m x = load s x) \<Longrightarrow> inv (store m s) ps \<and> valid (store m s) = valid s"
begin

text \<open>Clients allocate pages, write anywhere but into free pages, and free what they hold.\<close>

inductive client :: "'s \<times> addr set \<Rightarrow> 's \<times> addr set \<Rightarrow> bool" where
  c_alloc: "alloc s = (p, s') \<Longrightarrow> client (s, U) (s', if p = 0 then U else insert p U)"
| c_free: "p \<in> U \<Longrightarrow> free p s = Some s' \<Longrightarrow> client (s, U) (s', U - {p})"
| c_write: "\<forall>x. valid s (PGROUNDDOWN x) \<and> PGROUNDDOWN x \<notin> U \<longrightarrow> m x = load s x \<Longrightarrow> client (s, U) (store m s, U)"

definition exact :: "('s \<times> addr set) \<Rightarrow> addr set \<Rightarrow> addr list \<Rightarrow> bool" where
  "exact c V ps \<longleftrightarrow> inv (fst c) ps \<and> {p. valid (fst c) p} = V \<and> snd c \<union> set ps = V \<and> snd c \<inter> set ps = {}"

lemma client_exact: "client c c' \<Longrightarrow> exact c V ps \<Longrightarrow> \<exists>ps'. exact c' V ps'"
proof (induction rule: client.induct)
  case (c_alloc s p s' U)
  show ?case
  proof (cases ps)
    case Nil
    then show ?thesis using c_alloc alloc_empty [of s] by (auto simp: exact_def)
  next
    case (Cons q qs)
    then obtain s'' where s'': "alloc s = (q, s'')" "inv s'' qs" "valid s'' = valid s"
      using c_alloc(2) alloc_pop [of s q qs] by (auto simp: exact_def)
    moreover have "q \<noteq> 0" "q \<notin> set qs" using c_alloc(2) Cons inv_valid inv_distinct by (fastforce simp: exact_def)+
    ultimately show ?thesis using c_alloc Cons by (auto simp: exact_def)
  qed
next
  case (c_free p U s s')
  then have "valid s p" "p \<notin> set ps" "inv s ps" by (auto simp: exact_def)
  then obtain s'' where "free p s = Some s''" "inv s'' (p # ps)" "valid s'' = valid s" using free_push by metis
  then show ?case using c_free by (intro exI [of _ "p # ps"]) (auto simp: exact_def)
next
  case (c_write s U m)
  then have "inv (store m s) ps \<and> valid (store m s) = valid s" by (intro store_frame) (auto simp: exact_def)
  then show ?case using c_write by (auto simp: exact_def)
qed

lemma clients_exact: "client\<^sup>*\<^sup>* c c' \<Longrightarrow> exact c V ps \<Longrightarrow> \<exists>ps'. exact c' V ps'"
  by (induction rule: rtranclp_induct) (auto dest: client_exact)

end

interpretation kpages: page_allocator kinv kalloc kfree "\<lambda>m s. s\<lparr>mem := m\<rparr>" mem "\<lambda>s. page_ok (kend s)"
proof
  show "kalloc s = (0, s)" if "kinv s []" for s :: "'a kmem_scheme" using that by (rule kalloc_empty)
  show "\<exists>s'. kalloc s = (p, s') \<and> kinv s' ps \<and> page_ok (kend s') = page_ok (kend s) \<and> (\<forall>x. PGROUNDDOWN x \<noteq> p \<longrightarrow> mem s' x = mem s x)"
    if "kinv s (p # ps)" for s :: "'a kmem_scheme" and p ps using kalloc_ok [OF that] by metis
  show "\<exists>s'. kfree p s = Some s' \<and> kinv s' (p # ps) \<and> page_ok (kend s') = page_ok (kend s) \<and> (\<forall>x. PGROUNDDOWN x \<noteq> p \<longrightarrow> mem s' x = mem s x)"
    if "kinv s ps" "page_ok (kend s) p" "p \<notin> set ps" for s :: "'a kmem_scheme" and p ps using kfree_ok [OF that] by metis
  show "kinv (s\<lparr>mem := m\<rparr>) ps \<and> page_ok (kend (s\<lparr>mem := m\<rparr>)) = page_ok (kend s)"
    if "kinv s ps" "\<And>x. PGROUNDDOWN x \<in> set ps \<Longrightarrow> m x = mem s x" for s :: "'a kmem_scheme" and ps m
    using kinv_mem [OF that] by simp
qed (auto simp: kinv_def page_ok_def)

section \<open>Property\<close>

text \<open>
  C29. \<^verbatim>\<open>kinit\<close> succeeds, and whatever clients then do with \<^verbatim>\<open>kalloc\<close>, \<^verbatim>\<open>kfree\<close> and the pages they
  hold, \<^verbatim>\<open>kalloc\<close> returns an aligned page between the kernel and \<^verbatim>\<open>PHYSTOP\<close> that no client holds,
  it returns 0 only when every such page is held, and \<^verbatim>\<open>kfree\<close> of a held page does not panic.
\<close>

theorem kalloc_exclusive:
  assumes "0 < kend s" "kend s \<le> PHYSTOP"
  shows "\<exists>s0. kinit s = Some s0 \<and> (\<forall>s1 U. kpages.client\<^sup>*\<^sup>* (s0, {}) (s1, U) \<longrightarrow>
    (let p = fst (kalloc s1) in
     if p = 0 then U = {q. page_ok (kend s) q} else page_ok (kend s) p \<and> p \<notin> U) \<and>
    (\<forall>p \<in> U. \<exists>s2. kfree p s1 = Some s2))"
proof -
  obtain s0 ps where s0: "kinit s = Some s0" "kinv s0 ps" "set ps = {p. page_ok (kend s) p}" "kend s0 = kend s"
    using kinit_ok [OF assms] .
  have "(let p = fst (kalloc s1) in if p = 0 then U = {q. page_ok (kend s) q} else page_ok (kend s) p \<and> p \<notin> U) \<and>
    (\<forall>p \<in> U. \<exists>s2. kfree p s1 = Some s2)" if c: "kpages.client\<^sup>*\<^sup>* (s0, {}) (s1, U)" for s1 U
  proof -
    have e: "kpages.exact (s0, {}) {p. page_ok (kend s) p} ps" using s0 by (simp add: kpages.exact_def)
    obtain qs where "kpages.exact (s1, U) {p. page_ok (kend s) p} qs" using kpages.clients_exact [OF c e] by blast
    then have q: "kinv s1 qs" "page_ok (kend s1) = page_ok (kend s)" "U \<union> set qs = {p. page_ok (kend s) p}" "U \<inter> set qs = {}"
      by (auto simp: kpages.exact_def)
    have "let p = fst (kalloc s1) in if p = 0 then U = {q. page_ok (kend s) q} else page_ok (kend s) p \<and> p \<notin> U"
    proof (cases qs)
      case Nil
      then show ?thesis using kalloc_empty [of s1] q by simp
    next
      case (Cons p ps)
      obtain s2 where "kalloc s1 = (p, s2)" "p \<noteq> 0" using kalloc_ok [of s1 p ps] q(1) Cons by metis
      then show ?thesis using q(3,4) Cons by auto
    qed
    moreover have "\<exists>s2. kfree p s1 = Some s2" if "p \<in> U" for p
      using kfree_ok [OF q(1), of p] q(2-4) that by (metis Int_iff UnI1 empty_iff mem_Collect_eq)
    ultimately show ?thesis by blast
  qed
  then show ?thesis using s0(1) by blast
qed

theorem kalloc_exclusive_witness:
  "let s = \<lparr>mem = (\<lambda>_. 0), freelist = 0, kend = 0x80021000\<rparr> in
   0 < kend s \<and> kend s \<le> PHYSTOP \<and>
   (\<exists>s0. kinit s = Some s0 \<and> page_ok 0x80021000 (fst (kalloc s0)) \<and> fst (kalloc s0) \<noteq> 0)"
proof -
  let ?s = "\<lparr>mem = (\<lambda>_. 0), freelist = 0, kend = 0x80021000\<rparr> :: kmem"
  have a: "0 < kend ?s" "kend ?s \<le> PHYSTOP" by (simp_all add: word_le_nat_alt)
  have p: "page_ok (kend ?s) 0x80021000" by (simp add: page_ok_def aligned_unat word_less_nat_alt)
  have "{q. page_ok (kend ?s) q} \<noteq> {}" using p by blast
  then show ?thesis using kalloc_exclusive [OF a] a by (force simp: Let_def split: if_splits)
qed

end
