(* ===== verification/Vm.thy ===== *)
theory Vm
  imports Kalloc
begin

text \<open>
  Page tables and user memory (\<^verbatim>\<open>xv6/kernel/vm.c\<close>, and the functions of \<^verbatim>\<open>proc.c\<close> that build and
  free a process's page table). The tables live in the byte memory of the allocator. Panics are
  \<open>None\<close>; the null pointer is 0.
\<close>

section \<open>Walking the table\<close>

fun walk_levels :: "nat \<Rightarrow> addr \<Rightarrow> addr \<Rightarrow> bool \<Rightarrow> 'a kmem_scheme \<Rightarrow> addr \<times> 'a kmem_scheme" where
  "walk_levels 0 pagetable va alloc s = (pagetable + 8 * PX 0 va, s)"
| "walk_levels (Suc l) pagetable va alloc s =
     (let pte = pagetable + 8 * PX (Suc l) va; e = read64 (mem s) pte in
      if e AND PTE_V \<noteq> 0 then walk_levels l (PTE2PA e) va alloc s
      else if \<not> alloc then (0, s)
      else
        (case kalloc s of (p, s) \<Rightarrow>
           if p = 0 then (0, s)
           else
             (let s = s\<lparr>mem := memset (mem s) p 0 (unat PGSIZE)\<rparr>;
                  s = s\<lparr>mem := write64 (mem s) pte (PA2PTE p OR PTE_V)\<rparr> in
              walk_levels l p va alloc s)))"

definition walk :: "addr \<Rightarrow> addr \<Rightarrow> bool \<Rightarrow> 'a kmem_scheme \<Rightarrow> (addr \<times> 'a kmem_scheme) option" where
  "walk pagetable va alloc s = (if va \<ge> MAXVA then None else Some (walk_levels 2 pagetable va alloc s))"

definition walkaddr :: "addr \<Rightarrow> addr \<Rightarrow> 'a kmem_scheme \<Rightarrow> addr" where
  "walkaddr pagetable va s =
     (case walk pagetable va False s of
        None \<Rightarrow> 0
      | Some (pte, _) \<Rightarrow>
          if pte = 0 then 0
          else if read64 (mem s) pte AND PTE_V = 0 then 0
          else if read64 (mem s) pte AND PTE_U = 0 then 0
          else PTE2PA (read64 (mem s) pte))"

definition ismapped :: "addr \<Rightarrow> addr \<Rightarrow> 'a kmem_scheme \<Rightarrow> bool option" where
  "ismapped pagetable va s = do {
     (pte, _) \<leftarrow> walk pagetable va False s;
     Some (pte \<noteq> 0 \<and> read64 (mem s) pte AND PTE_V \<noteq> 0)
   }"

section \<open>Mapping and unmapping\<close>

text \<open>An address that \<^verbatim>\<open>walk\<close> accepts is below \<^verbatim>\<open>MAXVA\<close>, so the loops over pages end.\<close>

lemma walk_less: "walk pt a al s = Some x \<Longrightarrow> a < MAXVA"
  by (auto simp: walk_def split: if_splits)

lemma page_loop: "a < MAXVA \<Longrightarrow> unat MAXVA + 4096 - unat (a + PGSIZE) < unat MAXVA + 4096 - unat a"
  by (simp add: MAXVA_def word_less_nat_alt unat_word_ariths)

function mappages_loop :: "addr \<Rightarrow> addr \<Rightarrow> addr \<Rightarrow> addr \<Rightarrow> addr \<Rightarrow> 'a kmem_scheme \<Rightarrow> (int \<times> 'a kmem_scheme) option" where
  "mappages_loop pagetable a last_a pa perm s =
     (case walk pagetable a True s of
        None \<Rightarrow> None
      | Some (pte, s) \<Rightarrow>
          if pte = 0 then Some (- 1, s)
          else if read64 (mem s) pte AND PTE_V \<noteq> 0 then None
          else
            (let s = s\<lparr>mem := write64 (mem s) pte (PA2PTE pa OR perm OR PTE_V)\<rparr> in
             if a = last_a then Some (0, s)
             else mappages_loop pagetable (a + PGSIZE) last_a (pa + PGSIZE) perm s))"
  by pat_completeness auto
termination
  by (relation "measure (\<lambda>(pt, a, last_a, pa, perm, s). unat MAXVA + 4096 - unat a)") (auto dest: walk_less page_loop simp del: unat_4096)

definition mappages :: "addr \<Rightarrow> addr \<Rightarrow> addr \<Rightarrow> addr \<Rightarrow> addr \<Rightarrow> 'a kmem_scheme \<Rightarrow> (int \<times> 'a kmem_scheme) option" where
  "mappages pagetable va sz pa perm s =
     (if va mod PGSIZE \<noteq> 0 then None
      else if sz mod PGSIZE \<noteq> 0 then None
      else if sz = 0 then None
      else mappages_loop pagetable va (va + sz - PGSIZE) pa perm s)"

function uvmunmap_loop :: "addr \<Rightarrow> addr \<Rightarrow> addr \<Rightarrow> bool \<Rightarrow> 'a kmem_scheme \<Rightarrow> 'a kmem_scheme option" where
  "uvmunmap_loop pagetable a stop do_free s =
     (if a < stop
      then
        (case walk pagetable a False s of
           None \<Rightarrow> None
         | Some (pte, _) \<Rightarrow>
             if pte = 0 then uvmunmap_loop pagetable (a + PGSIZE) stop do_free s
             else if read64 (mem s) pte AND PTE_V = 0 then uvmunmap_loop pagetable (a + PGSIZE) stop do_free s
             else
               (case (if do_free then kfree (PTE2PA (read64 (mem s) pte)) s else Some s) of
                  None \<Rightarrow> None
                | Some s \<Rightarrow>
                    uvmunmap_loop pagetable (a + PGSIZE) stop do_free (s\<lparr>mem := write64 (mem s) pte 0\<rparr>)))
      else Some s)"
  by pat_completeness auto
termination
  by (relation "measure (\<lambda>(pt, a, e, f, s). unat MAXVA + 4096 - unat a)") (auto dest: walk_less page_loop simp del: unat_4096)

definition uvmunmap :: "addr \<Rightarrow> addr \<Rightarrow> addr \<Rightarrow> bool \<Rightarrow> 'a kmem_scheme \<Rightarrow> 'a kmem_scheme option" where
  "uvmunmap pagetable va npages do_free s =
     (if va mod PGSIZE \<noteq> 0 then None else uvmunmap_loop pagetable va (va + npages * PGSIZE) do_free s)"

definition uvmcreate :: "'a kmem_scheme \<Rightarrow> addr \<times> 'a kmem_scheme" where
  "uvmcreate s =
     (case kalloc s of (p, s) \<Rightarrow> if p = 0 then (0, s) else (p, s\<lparr>mem := memset (mem s) p 0 (unat PGSIZE)\<rparr>))"

text \<open>\<^verbatim>\<open>npages\<close> of \<^verbatim>\<open>uvmdealloc\<close> is an \<^verbatim>\<open>int\<close>, converted back to 64 bits with its sign.\<close>

definition uvmdealloc :: "addr \<Rightarrow> addr \<Rightarrow> addr \<Rightarrow> 'a kmem_scheme \<Rightarrow> (addr \<times> 'a kmem_scheme) option" where
  "uvmdealloc pagetable oldsz newsz s =
     (if newsz \<ge> oldsz then Some (oldsz, s)
      else do {
        s \<leftarrow> (if PGROUNDUP newsz < PGROUNDUP oldsz
             then
               (let npages = (ucast ((PGROUNDUP oldsz - PGROUNDUP newsz) div PGSIZE) :: 32 word) in
                uvmunmap pagetable (PGROUNDUP newsz) (scast npages) True s)
             else Some s);
        Some (newsz, s)
      })"

text \<open>Mapping one page cannot succeed at an address the loop of \<^verbatim>\<open>uvmalloc\<close> would pass twice.\<close>

lemma mappages_less: "mappages pt a PGSIZE pa perm s = Some x \<Longrightarrow> a < MAXVA"
  by (auto simp: mappages_def PGSIZE_def split: if_splits option.splits dest: walk_less)

function uvmalloc_loop :: "addr \<Rightarrow> addr \<Rightarrow> addr \<Rightarrow> addr \<Rightarrow> addr \<Rightarrow> 'a kmem_scheme \<Rightarrow> (addr \<times> 'a kmem_scheme) option" where
  "uvmalloc_loop pagetable a oldsz newsz xperm s =
     (if a < newsz
      then
        (case kalloc s of (m, s) \<Rightarrow>
           if m = 0 then map_option (\<lambda>(_, s). (0, s)) (uvmdealloc pagetable a oldsz s)
           else
             (case mappages pagetable a PGSIZE m (PTE_R OR PTE_U OR xperm) (s\<lparr>mem := memset (mem s) m 0 (unat PGSIZE)\<rparr>) of
                None \<Rightarrow> None
              | Some (r, s) \<Rightarrow>
                  if r \<noteq> 0 then do {
                    s \<leftarrow> kfree m s;
                    (_, s) \<leftarrow> uvmdealloc pagetable a oldsz s;
                    Some (0, s)
                  }
                  else uvmalloc_loop pagetable (a + PGSIZE) oldsz newsz xperm s))
      else Some (newsz, s))"
  by pat_completeness auto
termination
  by (relation "measure (\<lambda>(pt, a, old, new, x, s). unat MAXVA + 4096 - unat a)") (auto dest: mappages_less page_loop simp del: unat_4096)

definition uvmalloc :: "addr \<Rightarrow> addr \<Rightarrow> addr \<Rightarrow> addr \<Rightarrow> 'a kmem_scheme \<Rightarrow> (addr \<times> 'a kmem_scheme) option" where
  "uvmalloc pagetable oldsz newsz xperm s =
     (if newsz < oldsz then Some (oldsz, s)
      else uvmalloc_loop pagetable (PGROUNDUP oldsz) (PGROUNDUP oldsz) newsz xperm s)"

section \<open>Freeing\<close>

text \<open>A loop over indices that stops at the first panic.\<close>

fun for_idx :: "(nat \<Rightarrow> 's \<Rightarrow> 's option) \<Rightarrow> nat list \<Rightarrow> 's \<Rightarrow> 's option" where
  "for_idx f [] s = Some s"
| "for_idx f (i # is) s = (case f i s of None \<Rightarrow> None | Some s' \<Rightarrow> for_idx f is s')"

text \<open>
  The recursion of \<^verbatim>\<open>freewalk\<close> follows the pointers of the table. Its first argument bounds the
  depth; a well-formed table has three levels, for which the bound 3 is enough.
\<close>

primrec freewalk :: "nat \<Rightarrow> addr \<Rightarrow> 'a kmem_scheme \<Rightarrow> 'a kmem_scheme option" where
  "freewalk 0 pagetable s = None"
| "freewalk (Suc d) pagetable s = do {
     s \<leftarrow> for_idx (\<lambda>i s.
         let pte = read64 (mem s) (pagetable + 8 * of_nat i) in
         if pte AND PTE_V \<noteq> 0 \<and> pte AND (PTE_R OR PTE_W OR PTE_X) = 0
         then do {
           s \<leftarrow> freewalk d (PTE2PA pte) s;
           Some (s\<lparr>mem := write64 (mem s) (pagetable + 8 * of_nat i) 0\<rparr>)
         }
         else if pte AND PTE_V \<noteq> 0 then None
         else Some s) [0..<512] s;
     kfree pagetable s
   }"

definition uvmfree :: "addr \<Rightarrow> addr \<Rightarrow> 'a kmem_scheme \<Rightarrow> 'a kmem_scheme option" where
  "uvmfree pagetable sz s = do {
     s \<leftarrow> (if sz > 0 then uvmunmap pagetable 0 (PGROUNDUP sz div PGSIZE) True s else Some s);
     freewalk 3 pagetable s
   }"

section \<open>Copying an address space\<close>

function uvmcopy_loop :: "addr \<Rightarrow> addr \<Rightarrow> addr \<Rightarrow> addr \<Rightarrow> 'a kmem_scheme \<Rightarrow> (int \<times> 'a kmem_scheme) option" where
  "uvmcopy_loop old new i sz s =
     (if i < sz
      then
        (case walk old i False s of
           None \<Rightarrow> None
         | Some (pte, _) \<Rightarrow>
             if pte = 0 then uvmcopy_loop old new (i + PGSIZE) sz s
             else if read64 (mem s) pte AND PTE_V = 0 then uvmcopy_loop old new (i + PGSIZE) sz s
             else
               (let pa = PTE2PA (read64 (mem s) pte); flags = PTE_FLAGS (read64 (mem s) pte) in
                case kalloc s of (m, s) \<Rightarrow>
                  if m = 0 then map_option (Pair (- 1)) (uvmunmap new 0 (i div PGSIZE) True s)
                  else
                    (case mappages new i PGSIZE m flags (s\<lparr>mem := memmove (mem s) m pa (unat PGSIZE)\<rparr>) of
                       None \<Rightarrow> None
                     | Some (r, s) \<Rightarrow>
                         if r \<noteq> 0 then do {
                           s \<leftarrow> kfree m s;
                           map_option (Pair (- 1)) (uvmunmap new 0 (i div PGSIZE) True s)
                         }
                         else uvmcopy_loop old new (i + PGSIZE) sz s)))
      else Some (0, s))"
  by pat_completeness auto
termination
  by (relation "measure (\<lambda>(old, new, i, sz, s). unat MAXVA + 4096 - unat i)") (auto dest: walk_less page_loop simp del: unat_4096)

definition uvmcopy :: "addr \<Rightarrow> addr \<Rightarrow> addr \<Rightarrow> 'a kmem_scheme \<Rightarrow> (int \<times> 'a kmem_scheme) option" where
  "uvmcopy old new sz s = uvmcopy_loop old new 0 sz s"

definition uvmclear :: "addr \<Rightarrow> addr \<Rightarrow> 'a kmem_scheme \<Rightarrow> 'a kmem_scheme option" where
  "uvmclear pagetable va s = do {
     (pte, s) \<leftarrow> walk pagetable va False s;
     if pte = 0 then None else Some (s\<lparr>mem := write64 (mem s) pte (read64 (mem s) pte AND NOT PTE_U)\<rparr>)
   }"

section \<open>Access to user memory\<close>

definition vmfault :: "addr \<Rightarrow> addr \<Rightarrow> addr \<Rightarrow> 'a kmem_scheme \<Rightarrow> (addr \<times> 'a kmem_scheme) option" where
  "vmfault pagetable psz va s =
     (if va \<ge> psz then Some (0, s)
      else
        (let va = PGROUNDDOWN va in do {
           mapped \<leftarrow> ismapped pagetable va s;
           if mapped then Some (0, s)
           else
             (case kalloc s of (m, s) \<Rightarrow>
                if m = 0 then Some (0, s)
                else do {
                  (r, s) \<leftarrow> mappages pagetable va PGSIZE m (PTE_W OR PTE_U OR PTE_R) (s\<lparr>mem := memset (mem s) m 0 (unat PGSIZE)\<rparr>);
                  if r \<noteq> 0 then do { s \<leftarrow> kfree m s; Some (0, s) } else Some (m, s)
                })
         }))"

text \<open>The physical page of a user page: mapped already, or mapped on demand.\<close>

definition user_page :: "addr \<Rightarrow> addr \<Rightarrow> addr \<Rightarrow> 'a kmem_scheme \<Rightarrow> (addr \<times> 'a kmem_scheme) option" where
  "user_page pagetable psz va0 s =
     (let pa0 = walkaddr pagetable va0 s in if pa0 = 0 then vmfault pagetable psz va0 s else Some (pa0, s))"

lemma chunk_pos:
  fixes va len :: addr
  assumes "0 < len" "n = min (PGSIZE - (va - PGROUNDDOWN va)) len"
  shows "unat (len - n) < unat len"
proof -
  have "unat (va - PGROUNDDOWN va) < 4096" by (rule offset_less)
  then have "unat (PGSIZE - (va - PGROUNDDOWN va)) = 4096 - unat (va - PGROUNDDOWN va)"
    by (subst unat_sub) (simp_all add: word_le_nat_alt)
  then have "0 < unat n" "n \<le> len" using assms \<open>unat (va - PGROUNDDOWN va) < 4096\<close>
    by (auto simp: min_def word_less_nat_alt word_le_nat_alt split: if_splits)
  then show ?thesis by (simp add: unat_sub) (simp add: word_le_nat_alt)
qed

function copyout :: "addr \<Rightarrow> addr \<Rightarrow> addr \<Rightarrow> addr \<Rightarrow> addr \<Rightarrow> 'a kmem_scheme \<Rightarrow> (int \<times> 'a kmem_scheme) option" where
  "copyout pagetable psz dstva src len s =
     (if len > 0
      then
        (let va0 = PGROUNDDOWN dstva in
         if va0 \<ge> MAXVA then Some (- 1, s)
         else
           (case user_page pagetable psz va0 s of
              None \<Rightarrow> None
            | Some (pa0, s) \<Rightarrow>
                if pa0 = 0 then Some (- 1, s)
                else
                  (case walk pagetable va0 False s of
                     None \<Rightarrow> None
                   | Some (pte, _) \<Rightarrow>
                       if read64 (mem s) pte AND PTE_W = 0 then Some (- 1, s)
                       else
                         (let n = min (PGSIZE - (dstva - va0)) len in
                          copyout pagetable psz (va0 + PGSIZE) (src + n) (len - n)
                            (s\<lparr>mem := memmove (mem s) (pa0 + (dstva - va0)) src (unat n)\<rparr>)))))
      else Some (0, s))"
  by pat_completeness auto
termination
  by (relation "measure (\<lambda>(pt, psz, dstva, src, len, s). unat len)") (auto simp del: unat_4096 intro: chunk_pos)

function copyin :: "addr \<Rightarrow> addr \<Rightarrow> addr \<Rightarrow> addr \<Rightarrow> addr \<Rightarrow> 'a kmem_scheme \<Rightarrow> (int \<times> 'a kmem_scheme) option" where
  "copyin pagetable psz dst srcva len s =
     (if len > 0
      then
        (let va0 = PGROUNDDOWN srcva in
         case user_page pagetable psz va0 s of
           None \<Rightarrow> None
         | Some (pa0, s) \<Rightarrow>
             if pa0 = 0 then Some (- 1, s)
             else
               (let n = min (PGSIZE - (srcva - va0)) len in
                copyin pagetable psz (dst + n) (va0 + PGSIZE) (len - n)
                  (s\<lparr>mem := memmove (mem s) dst (pa0 + (srcva - va0)) (unat n)\<rparr>)))
      else Some (0, s))"
  by pat_completeness auto
termination
  by (relation "measure (\<lambda>(pt, psz, dst, srcva, len, s). unat len)") (auto simp del: unat_4096 intro: chunk_pos)

text \<open>The inner loop of \<^verbatim>\<open>copyinstr\<close>; it returns whether it met the NUL and what is left of \<^verbatim>\<open>max\<close>.\<close>

fun copy_str :: "memory \<Rightarrow> addr \<Rightarrow> addr \<Rightarrow> nat \<Rightarrow> addr \<Rightarrow> memory \<times> bool \<times> addr \<times> addr" where
  "copy_str m p dst 0 mx = (m, False, dst, mx)"
| "copy_str m p dst (Suc n) mx =
     (if m p = 0 then (m(dst := 0), True, dst, mx) else copy_str (m(dst := m p)) (p + 1) (dst + 1) n (mx - 1))"

lemma copy_str_max: "copy_str m p dst n mx = (m', False, dst', mx') \<Longrightarrow> mx' = mx - of_nat n"
  by (induction m p dst n mx rule: copy_str.induct) (auto split: if_splits simp: algebra_simps)

function copyinstr :: "addr \<Rightarrow> addr \<Rightarrow> addr \<Rightarrow> addr \<Rightarrow> addr \<Rightarrow> 'a kmem_scheme \<Rightarrow> (int \<times> 'a kmem_scheme) option" where
  "copyinstr pagetable psz dst srcva mx s =
     (if mx > 0
      then
        (let va0 = PGROUNDDOWN srcva in
         case user_page pagetable psz va0 s of
           None \<Rightarrow> None
         | Some (pa0, s) \<Rightarrow>
             if pa0 = 0 then Some (- 1, s)
             else
               (let n = min (PGSIZE - (srcva - va0)) mx in
                case copy_str (mem s) (pa0 + (srcva - va0)) dst (unat n) mx of
                  (m, True, _, _) \<Rightarrow> Some (0, s\<lparr>mem := m\<rparr>)
                | (m, False, dst, mx) \<Rightarrow> copyinstr pagetable psz dst (va0 + PGSIZE) mx (s\<lparr>mem := m\<rparr>)))
      else Some (- 1, s))"
  by pat_completeness auto
termination
  by (relation "measure (\<lambda>(pt, psz, dst, srcva, mx, s). unat mx)")
     (auto simp del: unat_4096 dest!: copy_str_max [OF sym] intro: chunk_pos)

section \<open>The kernel's page table\<close>

definition kvmmap :: "addr \<Rightarrow> addr \<Rightarrow> addr \<Rightarrow> addr \<Rightarrow> addr \<Rightarrow> 'a kmem_scheme \<Rightarrow> 'a kmem_scheme option" where
  "kvmmap kpgtbl va pa sz perm s = do {
     (r, s) \<leftarrow> mappages kpgtbl va sz pa perm s;
     if r \<noteq> 0 then None else Some s
   }"

definition KSTACK :: "nat \<Rightarrow> addr" where
  "KSTACK p = TRAMPOLINE - (of_nat p + 1) * 2 * PGSIZE"

definition proc_mapstacks :: "addr \<Rightarrow> 'a kmem_scheme \<Rightarrow> 'a kmem_scheme option" where
  "proc_mapstacks kpgtbl s =
     for_idx (\<lambda>p s. case kalloc s of (pa, s) \<Rightarrow>
        if pa = 0 then None else kvmmap kpgtbl (KSTACK p) pa PGSIZE (PTE_R OR PTE_W) s) [0..<64] s"

text \<open>The addresses of the end of the kernel text and of the trampoline code come from the linker.\<close>

definition kvmmake :: "addr \<Rightarrow> addr \<Rightarrow> 'a kmem_scheme \<Rightarrow> (addr \<times> 'a kmem_scheme) option" where
  "kvmmake etext trampoline s =
     (case kalloc s of (kpgtbl, s) \<Rightarrow> do {
        s \<leftarrow> Some (s\<lparr>mem := memset (mem s) kpgtbl 0 (unat PGSIZE)\<rparr>);
        s \<leftarrow> kvmmap kpgtbl 0x10000000 0x10000000 PGSIZE (PTE_R OR PTE_W) s;
        s \<leftarrow> kvmmap kpgtbl 0x10001000 0x10001000 PGSIZE (PTE_R OR PTE_W) s;
        s \<leftarrow> kvmmap kpgtbl 0x0c000000 0x0c000000 0x4000000 (PTE_R OR PTE_W) s;
        s \<leftarrow> kvmmap kpgtbl KERNBASE KERNBASE (etext - KERNBASE) (PTE_R OR PTE_X) s;
        s \<leftarrow> kvmmap kpgtbl etext etext (PHYSTOP - etext) (PTE_R OR PTE_W) s;
        s \<leftarrow> kvmmap kpgtbl TRAMPOLINE trampoline PGSIZE (PTE_R OR PTE_X) s;
        s \<leftarrow> proc_mapstacks kpgtbl s;
        Some (kpgtbl, s)
      })"

section \<open>A process's page table\<close>

definition proc_pagetable :: "addr \<Rightarrow> addr \<Rightarrow> 'a kmem_scheme \<Rightarrow> (addr \<times> 'a kmem_scheme) option" where
  "proc_pagetable trampoline trapframe s =
     (case uvmcreate s of (pagetable, s) \<Rightarrow>
        if pagetable = 0 then Some (0, s)
        else do {
          (r, s) \<leftarrow> mappages pagetable TRAMPOLINE PGSIZE trampoline (PTE_R OR PTE_X) s;
          if r < 0 then do { s \<leftarrow> uvmfree pagetable 0 s; Some (0, s) }
          else do {
            (r, s) \<leftarrow> mappages pagetable TRAPFRAME PGSIZE trapframe (PTE_R OR PTE_W) s;
            if r < 0 then do {
              s \<leftarrow> uvmunmap pagetable TRAMPOLINE 1 False s;
              s \<leftarrow> uvmfree pagetable 0 s;
              Some (0, s)
            }
            else Some (pagetable, s)
          }
        })"

definition proc_freepagetable :: "addr \<Rightarrow> addr \<Rightarrow> 'a kmem_scheme \<Rightarrow> 'a kmem_scheme option" where
  "proc_freepagetable pagetable sz s = do {
     s \<leftarrow> uvmunmap pagetable TRAMPOLINE 1 False s;
     s \<leftarrow> uvmunmap pagetable TRAPFRAME 1 False s;
     uvmfree pagetable sz s
   }"

text \<open>\<^verbatim>\<open>growproc\<close> and \<^verbatim>\<open>sys_sbrk\<close> return the new size of the process with their result.\<close>

definition growproc :: "addr \<Rightarrow> addr \<Rightarrow> 32 word \<Rightarrow> 'a kmem_scheme \<Rightarrow> (int \<times> addr \<times> 'a kmem_scheme) option" where
  "growproc pagetable sz n s =
     (if 0 <s n
      then
        (if sz + scast n > TRAPFRAME then Some (- 1, sz, s)
         else do {
           (sz', s) \<leftarrow> uvmalloc pagetable sz (sz + scast n) PTE_W s;
           if sz' = 0 then Some (- 1, sz, s) else Some (0, sz', s)
         })
      else if n <s 0
      then do {
        (sz', s) \<leftarrow> uvmdealloc pagetable sz (sz + scast n) s;
        Some (0, sz', s)
      }
      else Some (0, sz, s))"

definition sys_sbrk :: "addr \<Rightarrow> addr \<Rightarrow> 32 word \<Rightarrow> bool \<Rightarrow> 'a kmem_scheme \<Rightarrow> (addr \<times> addr \<times> 'a kmem_scheme) option" where
  "sys_sbrk pagetable sz n eager s =
     (if eager \<or> n <s 0
      then do {
        (r, sz', s) \<leftarrow> growproc pagetable sz n s;
        if r < 0 then Some (- 1, sz', s) else Some (sz, sz', s)
      }
      else if sz + scast n < sz then Some (- 1, sz, s)
      else if sz + scast n > TRAPFRAME then Some (- 1, sz, s)
      else Some (sz, sz + scast n, s))"

end
