(* ===== verification/Vm_Inv.thy ===== *)
theory Vm_Inv
  imports Vm "HOL-Library.Sublist"
begin

text \<open>
  The invariant of page tables. Every page of physical memory has an owner: the free list, a
  position in the tree of some page table, a user page mapped at such a position, or the
  kernel. A table is well formed when following its entries leads to pages with the
  corresponding owner; since a page has one owner, no page is used twice.
\<close>

section \<open>Paths\<close>

datatype owner = Free | Table addr "addr list" | Page addr "addr list" | Other

fun node :: "memory \<Rightarrow> addr \<Rightarrow> addr list \<Rightarrow> addr option" where
  "node m a [] = Some a"
| "node m a (i # p) = (if ent m a i AND PTE_V \<noteq> 0 then node m (PTE2PA (ent m a i)) p else None)"

definition idx :: "addr list \<Rightarrow> bool" where
  "idx p \<longleftrightarrow> (\<forall>i \<in> set p. unat i < 512)"

definition vpath :: "addr \<Rightarrow> addr list" where
  "vpath va = [PX 2 va, PX 1 va, PX 0 va]"

lemma node_append: "node m a (p @ q) = (case node m a p of None \<Rightarrow> None | Some b \<Rightarrow> node m b q)"
  by (induction p arbitrary: a) auto

lemma idx_simps [simp]: "idx []" "idx (i # p) \<longleftrightarrow> unat i < 512 \<and> idx p" "idx (p @ q) \<longleftrightarrow> idx p \<and> idx q"
  by (auto simp: idx_def)

lemma idx_vpath [simp]: "idx (vpath va)" "length (vpath va) = 3"
  by (simp_all add: vpath_def)

lemma PTE_V_0 [simp]: "0 AND PTE_V = 0" by simp

text \<open>The entry for a user address; an address without a last-level table has entry 0.\<close>

definition pte_of :: "memory \<Rightarrow> addr \<Rightarrow> addr \<Rightarrow> 64 word" where
  "pte_of m r va = (case node m r [PX 2 va, PX 1 va] of None \<Rightarrow> 0 | Some t \<Rightarrow> ent m t (PX 0 va))"

lemma node_vpath: "node m r (vpath va) = (if pte_of m r va AND PTE_V \<noteq> 0 then Some (PTE2PA (pte_of m r va)) else None)"
  by (auto simp: vpath_def pte_of_def split: option.splits)

lemma pte_at: "node m r [PX 2 va, PX 1 va] = Some t \<Longrightarrow> read64 m (t + 8 * PX 0 va) = pte_of m r va"
  by (simp only: pte_of_def option.case ent_def)

section \<open>The invariant\<close>

text \<open>The two topmost pages hold the trampoline and the trap frame, which the table does not own.\<close>

definition special :: "addr list \<Rightarrow> bool" where
  "special p \<longleftrightarrow> p = vpath TRAMPOLINE \<or> p = vpath TRAPFRAME"

definition tree_ok :: "(addr \<Rightarrow> owner) \<Rightarrow> addr \<Rightarrow> memory \<Rightarrow> addr \<Rightarrow> bool" where
  "tree_ok own e m r \<longleftrightarrow> (\<forall>p a. idx p \<longrightarrow> node m r p = Some a \<longrightarrow>
     (length p \<le> 2 \<longrightarrow> own a = Table r p \<and> page_ok e a) \<and>
     (length p = 3 \<longrightarrow> (if special p then own a = Other else own a = Page r p \<and> page_ok e a)))"

definition vinv :: "(addr \<Rightarrow> owner) \<Rightarrow> addr set \<Rightarrow> 'a kmem_scheme \<Rightarrow> bool" where
  "vinv own R s \<longleftrightarrow> (\<exists>ps. kinv s ps \<and> (\<forall>a. own a = Free \<longleftrightarrow> a \<in> set ps)) \<and> (\<forall>r \<in> R. tree_ok own (kend s) (mem s) r)"

lemma tree_table: "tree_ok own e m r \<Longrightarrow> idx p \<Longrightarrow> length p \<le> 2 \<Longrightarrow> node m r p = Some a \<Longrightarrow> own a = Table r p \<and> page_ok e a"
  by (auto simp: tree_ok_def)

lemma tree_leaf: "tree_ok own e m r \<Longrightarrow> idx p \<Longrightarrow> length p = 3 \<Longrightarrow> node m r p = Some a \<Longrightarrow>
    if special p then own a = Other else own a = Page r p \<and> page_ok e a"
  by (auto simp: tree_ok_def)

lemma tree_not_free:
  assumes "tree_ok own e m r" "idx p" "length p \<le> 3" "node m r p = Some a" shows "own a \<noteq> Free"
proof (cases "length p \<le> 2")
  case False
  then show ?thesis using tree_leaf [OF assms(1,2) _ assms(4)] assms(3) by (auto split: if_splits)
qed (use tree_table [OF assms(1,2) _ assms(4)] in simp)

lemma tree_own:
  assumes "tree_ok own e m r" "\<And>a. own a \<noteq> Free \<Longrightarrow> own' a = own a" shows "tree_ok own' e m r"
  unfolding tree_ok_def
proof (intro allI impI)
  fix p a assume p: "idx p" "node m r p = Some a"
  have "own' a = own a" if "length p \<le> 3" using assms(2) tree_not_free [OF assms(1) p(1) that p(2)] by blast
  then show "(length p \<le> 2 \<longrightarrow> own' a = Table r p \<and> page_ok e a) \<and>
     (length p = 3 \<longrightarrow> (if special p then own' a = Other else own' a = Page r p \<and> page_ok e a))"
    using assms(1) p by (auto simp: tree_ok_def)
qed

lemma page_okD: "page_ok e a \<Longrightarrow> aligned a"
  by (simp add: page_ok_def)

text \<open>The tree depends only on the pages that hold its tables.\<close>

lemma node_cong:
  assumes "tree_ok own e m r" "\<And>x p. own (PGROUNDDOWN x) = Table r p \<Longrightarrow> m' x = m x" "idx p" "length p \<le> 3"
  shows "node m' r p = node m r p"
  using assms(3,4)
proof (induction p rule: rev_induct)
  case (snoc i p)
  then have IH: "node m' r p = node m r p" by simp
  have "ent m' a i = ent m a i" if "node m r p = Some a" for a
    using tree_table [OF assms(1) _ _ that] snoc.prems assms(2) by (intro ent_cong) (auto dest: page_okD)
  then show ?case by (auto simp: node_append IH split: option.splits)
qed simp

lemma node_write:
  assumes "tree_ok own e m r" "tree_ok own e m r0" "node m r0 p0 = Some a0" "idx p0" "length p0 \<le> 2" "unat i0 < 512"
    "idx q" "length q \<le> 3" "\<not> (r = r0 \<and> prefix (p0 @ [i0]) q)"
  shows "node (write64 m (a0 + 8 * i0) v) r q = node m r q"
  using assms(7-9)
proof (induction q rule: rev_induct)
  case (snoc j q)
  let ?m = "write64 m (a0 + 8 * i0) v"
  have a0: "own a0 = Table r0 p0" "aligned a0" using tree_table [OF assms(2,4,5,3)] by (auto dest: page_okD)
  have IH: "node ?m r q = node m r q" using snoc by auto
  have "ent ?m a j = ent m a j" if a: "node m r q = Some a" for a
  proof -
    have "own a = Table r q" "aligned a" using tree_table [OF assms(1) _ _ a] snoc.prems by (auto dest: page_okD)
    then show ?thesis using snoc.prems assms(6) a0 by (subst ent_write64) auto
  qed
  then show ?case by (auto simp: node_append IH split: option.splits)
qed simp

section \<open>Steps that only add tables\<close>

definition kept :: "owner \<Rightarrow> bool" where
  "kept w \<longleftrightarrow> w = Other \<or> (\<exists>r p. w = Page r p)"

definition grows :: "(addr \<Rightarrow> owner) \<Rightarrow> addr set \<Rightarrow> 'a kmem_scheme \<Rightarrow> (addr \<Rightarrow> owner) \<Rightarrow> 'a kmem_scheme \<Rightarrow> bool" where
  "grows own R s own' s' \<longleftrightarrow> vinv own' R s' \<and> kend s' = kend s \<and> (\<forall>a. own a \<noteq> Free \<longrightarrow> own' a = own a) \<and>
     (\<forall>a. own a = Free \<longrightarrow> own' a = Free \<or> (\<exists>r p. own' a = Table r p)) \<and>
     (\<forall>x. kept (own (PGROUNDDOWN x)) \<longrightarrow> mem s' x = mem s x) \<and>
     (\<forall>r \<in> R. \<forall>va. pte_of (mem s') r va = pte_of (mem s) r va)"

lemma grows_refl: "vinv own R s \<Longrightarrow> grows own R s own s"
  by (simp add: grows_def)

lemma grows_trans: "grows own R s own' s' \<Longrightarrow> grows own' R s' own'' s'' \<Longrightarrow> grows own R s own'' s''"
  unfolding grows_def kept_def by (metis owner.distinct(3,5))

lemma kalloc_cases:
  assumes "vinv own R s" "kalloc s = (np, s1)" "np \<noteq> 0"
  obtains qs where "kinv s1 qs" "\<And>a. own a = Free \<longleftrightarrow> a = np \<or> a \<in> set qs" "np \<notin> set qs" "page_ok (kend s) np" "kend s1 = kend s"
    "\<And>x. PGROUNDDOWN x \<noteq> np \<Longrightarrow> mem s1 x = mem s x"
proof -
  obtain ps where ps: "kinv s ps" "\<And>a. own a = Free \<longleftrightarrow> a \<in> set ps" using assms(1) by (auto simp: vinv_def)
  then obtain p qs where q: "ps = p # qs" using assms(2,3) kalloc_empty [of s] by (cases ps) auto
  obtain s1' where "kalloc s = (p, s1')" "kinv s1' qs" "kend s1' = kend s" "\<And>x. PGROUNDDOWN x \<noteq> p \<Longrightarrow> mem s1' x = mem s x"
      "page_ok (kend s) p" "p \<notin> set qs"
    using kalloc_ok [of s p qs] ps(1) q by metis
  then show thesis using that [of qs] assms(2) ps(2) q by auto
qed

lemma kalloc_none:
  assumes "vinv own R s" "kalloc s = (0, s1)" shows "s1 = s"
proof -
  obtain ps where ps: "kinv s ps" using assms(1) by (auto simp: vinv_def)
  show ?thesis
  proof (cases ps)
    case Nil
    then show ?thesis using ps kalloc_empty [of s] assms(2) by simp
  next
    case (Cons p qs)
    then show ?thesis using ps kalloc_ok [of s p qs] assms(2) by (metis prod.inject)
  qed
qed

text \<open>Memory that differs only outside the tables has the same trees.\<close>

lemma tree_mem:
  assumes "tree_ok own e m r" "\<And>x p. own (PGROUNDDOWN x) = Table r p \<Longrightarrow> m' x = m x"
  shows "tree_ok own e m' r"
  unfolding tree_ok_def
proof (intro allI impI)
  fix p a assume p: "idx p" "node m' r p = Some a"
  then have "node m r p = Some a" if "length p \<le> 3" using node_cong [OF assms p(1) that] by simp
  then show "(length p \<le> 2 \<longrightarrow> own a = Table r p \<and> page_ok e a) \<and>
     (length p = 3 \<longrightarrow> (if special p then own a = Other else own a = Page r p \<and> page_ok e a))"
    using assms(1) p(1) by (auto simp: tree_ok_def)
qed

lemma pte_mem:
  assumes "tree_ok own e m r" "\<And>x p. own (PGROUNDDOWN x) = Table r p \<Longrightarrow> m' x = m x"
  shows "pte_of m' r va = pte_of m r va"
proof -
  have n: "node m' r [PX 2 va, PX 1 va] = node m r [PX 2 va, PX 1 va]" by (rule node_cong [OF assms]) simp_all
  have "ent m' t (PX 0 va) = ent m t (PX 0 va)" if "node m r [PX 2 va, PX 1 va] = Some t" for t
    using tree_table [OF assms(1) _ _ that] assms(2) by (intro ent_cong) (auto dest: page_okD)
  then show ?thesis unfolding pte_of_def n by (auto split: option.splits)
qed

lemma entry_frame:
  assumes "aligned a" "unat i < 512" "PGROUNDDOWN x \<noteq> a" shows "write64 m (a + 8 * i) v x = m x"
proof -
  have "\<not> unat (x - (a + 8 * i)) < 8"
  proof
    assume "unat (x - (a + 8 * i)) < 8"
    then have "PGROUNDDOWN (a + 8 * i + of_nat (unat (x - (a + 8 * i)))) = a" using cell_addr assms(1,2) by blast
    then show False using assms(3) by simp
  qed
  then show ?thesis by (simp add: write64_def blit_def)
qed

lemma node_written:
  assumes "tree_ok own e m r0" "node m r0 p0 = Some a0" "idx p0" "length p0 \<le> 2" "unat i0 < 512"
  shows "node (write64 m (a0 + 8 * i0) v) r0 (p0 @ i0 # t) =
    (if v AND PTE_V \<noteq> 0 then node (write64 m (a0 + 8 * i0) v) (PTE2PA v) t else None)"
proof -
  have "aligned a0" using tree_table [OF assms(1,3,4,2)] by (auto dest: page_okD)
  then have "ent (write64 m (a0 + 8 * i0) v) a0 i0 = v" using assms(5) by (simp add: ent_write64)
  moreover have "\<not> prefix (p0 @ [i0]) p0" by (auto dest: prefix_length_le)
  then have "node (write64 m (a0 + 8 * i0) v) r0 p0 = Some a0"
    using node_write [OF assms(1,1-5), of p0 v] assms(2,3,4) by simp
  ultimately show ?thesis by (simp add: node_append)
qed

lemma new_entry_V [simp]: "(PA2PTE pa OR PTE_V) AND PTE_V = PTE_V" "PTE_V \<noteq> 0"
  by (simp_all add: PTE_flag_make [of 0, folded PTE_V_def] PTE_V_def)

lemma new_entry_pa [simp]: "aligned pa \<Longrightarrow> PTE2PA (PA2PTE pa OR PTE_V) = pa"
  by (rule PTE2PA_make) (simp_all add: PTE_V_def)

text \<open>What \<^verbatim>\<open>walk\<close> does where a table is missing.\<close>

lemma add_table:
  assumes v: "vinv own R s" and r0: "r0 \<in> R" and p0: "node (mem s) r0 p0 = Some a0" "idx p0" "length p0 \<le> 1" "unat i0 < 512"
    and inv: "ent (mem s) a0 i0 AND PTE_V = 0" and al: "kalloc s = (np, s1)" "np \<noteq> 0"
  defines "m3 \<equiv> write64 (memset (mem s1) np 0 (unat PGSIZE)) (a0 + 8 * i0) (PA2PTE np OR PTE_V)"
  shows "grows own R s (own(np := Table r0 (p0 @ [i0]))) (s1\<lparr>mem := m3\<rparr>) \<and> node m3 r0 (p0 @ [i0]) = Some np"
proof -
  obtain qs where q: "kinv s1 qs" "\<And>a. own a = Free \<longleftrightarrow> a = np \<or> a \<in> set qs" "np \<notin> set qs" "page_ok (kend s) np" "kend s1 = kend s"
    "\<And>x. PGROUNDDOWN x \<noteq> np \<Longrightarrow> mem s1 x = mem s x"
    by (rule kalloc_cases [OF v al]) (rule that, assumption+)
  let ?own = "own(np := Table r0 (p0 @ [i0]))"
  define m2 where "m2 = memset (mem s1) np 0 4096"
  have np: "aligned np" "own np = Free" using q by (auto dest: page_okD)
  have m2: "m2 x = mem s x" if "PGROUNDDOWN x \<noteq> np" for x using that q(6) np(1) by (simp add: m2_def memset_page)
  have t: "tree_ok own (kend s) (mem s) r" if "r \<in> R" for r using v that by (auto simp: vinv_def)
  have fr: "m2 x = mem s x" if "own (PGROUNDDOWN x) = Table r p" for x r p using m2 [of x] np(2) that by force
  have t2: "tree_ok own (kend s) m2 r" if "r \<in> R" for r by (rule tree_mem [OF t [OF that]]) (rule fr)
  have n2: "node m2 r p = node (mem s) r p" if "r \<in> R" "idx p" "length p \<le> 3" for r p
    by (rule node_cong [OF t [OF that(1)] _ that(2,3)]) (rule fr)
  have p02: "node m2 r0 p0 = Some a0" "length p0 \<le> 2" using n2 [OF r0] p0 by auto
  have a0: "own a0 = Table r0 p0" "aligned a0" "a0 \<noteq> np"
    using tree_table [OF t [OF r0] p0(2) p02(2) p0(1)] np(2) by (auto dest: page_okD)
  have m3: "m3 = write64 m2 (a0 + 8 * i0) (PA2PTE np OR PTE_V)" by (simp add: m3_def m2_def)
  have other: "node m3 r p = node (mem s) r p" if "r \<in> R" "idx p" "length p \<le> 3" "\<not> (r = r0 \<and> prefix (p0 @ [i0]) p)" for r p
    using node_write [OF t2 [OF that(1)] t2 [OF r0] p02(1) p0(2) p02(2) p0(4) that(2-4)] n2 [OF that(1-3)] by (simp add: m3)
  have zero: "ent m3 np j = 0" if "unat j < 512" for j
    using that p0(4) np(1) a0(2,3) by (simp add: m3 ent_write64) (simp add: m2_def ent_memset0)
  have under: "node m3 r0 (p0 @ i0 # t) = (if t = [] then Some np else None)" if "idx t" for t
    using node_written [OF t2 [OF r0] p02(1) p0(2) p02(2) p0(4), of "PA2PTE np OR PTE_V" t] zero that np(1)
    by (cases t) (simp_all add: m3 [symmetric])
  have tree: "tree_ok ?own (kend s) m3 r" if "r \<in> R" for r
    unfolding tree_ok_def
  proof (intro allI impI)
    fix p a assume p: "idx p" "node m3 r p = Some a"
    show "(length p \<le> 2 \<longrightarrow> ?own a = Table r p \<and> page_ok (kend s) a) \<and>
      (length p = 3 \<longrightarrow> (if special p then ?own a = Other else ?own a = Page r p \<and> page_ok (kend s) a))"
    proof (cases "r = r0 \<and> prefix (p0 @ [i0]) p")
      case True
      then obtain t where "p = p0 @ i0 # t" by (auto elim: prefixE)
      then show ?thesis using True under [of t] p q(4) p0(3) by (auto split: if_splits)
    next
      case False
      then have "node (mem s) r p = Some a" if "length p \<le> 3" using other [OF \<open>r \<in> R\<close> p(1) that] p(2) by simp
      moreover have "a \<noteq> np" if "length p \<le> 3" using tree_not_free [OF t [OF \<open>r \<in> R\<close>] p(1) that calculation [OF that]] np(2) by auto
      ultimately show ?thesis using t [OF \<open>r \<in> R\<close>] p(1) by (auto simp: tree_ok_def)
    qed
  qed
  have frame: "m3 x = mem s x" if "PGROUNDDOWN x \<noteq> np" "PGROUNDDOWN x \<noteq> a0" for x
    using entry_frame [OF a0(2) p0(4) that(2)] m2 [OF that(1)] by (simp add: m3)
  have "kinv (s1\<lparr>mem := m3\<rparr>) qs"
  proof (rule kinv_mem [OF q(1)])
    fix x assume "PGROUNDDOWN x \<in> set qs"
    then have "own (PGROUNDDOWN x) = Free" "PGROUNDDOWN x \<noteq> np" using q(2,3) by auto
    then have "PGROUNDDOWN x \<noteq> a0" using a0(1) by auto
    then show "m3 x = mem s1 x" using frame [of x] q(6) [of x] \<open>PGROUNDDOWN x \<noteq> np\<close> by simp
  qed
  moreover have "?own a = Free \<longleftrightarrow> a \<in> set qs" for a using q(2,3) by auto
  ultimately have v': "vinv ?own R (s1\<lparr>mem := m3\<rparr>)" using tree q(5) by (auto simp: vinv_def)
  have pte: "pte_of m3 r va = pte_of (mem s) r va" if "r \<in> R" for r va
  proof (cases "r = r0 \<and> prefix (p0 @ [i0]) [PX 2 va, PX 1 va]")
    case True
    then obtain u where u: "[PX 2 va, PX 1 va] = p0 @ i0 # u" by (auto elim: prefixE)
    then have "idx u" by (metis PX_less idx_simps)
    then have "pte_of m3 r va = 0" using True under zero unfolding pte_of_def u by simp
    moreover have "node (mem s) r (p0 @ i0 # u) = None" using True p0(1) inv by (simp add: node_append)
    ultimately show ?thesis unfolding pte_of_def u by simp
  next
    case False
    then have n: "node m3 r [PX 2 va, PX 1 va] = node (mem s) r [PX 2 va, PX 1 va]" using other [OF that, of "[PX 2 va, PX 1 va]"] by simp
    have "ent m3 b (PX 0 va) = ent (mem s) b (PX 0 va)" if b: "node (mem s) r [PX 2 va, PX 1 va] = Some b" for b
    proof -
      have "own b = Table r [PX 2 va, PX 1 va]" "aligned b" using tree_table [OF t [OF \<open>r \<in> R\<close>] _ _ b] by (auto dest: page_okD)
      then have "b \<noteq> a0" "b \<noteq> np" using a0(1) np(2) p0(3) by auto
      then show ?thesis using \<open>aligned b\<close> frame by (intro ent_cong) auto
    qed
    then show ?thesis unfolding pte_of_def n by (auto split: option.splits)
  qed
  have "m3 x = mem s x" if "kept (own (PGROUNDDOWN x))" for x
    by (rule frame) (use that np(2) a0(1) in \<open>auto simp: kept_def\<close>)
  then show ?thesis using v' q(5) pte under [of "[]"] np(2) by (auto simp: grows_def)
qed

section \<open>What \<^verbatim>\<open>walk\<close> returns\<close>

fun rem_path :: "nat \<Rightarrow> addr \<Rightarrow> addr list" where
  "rem_path 0 va = []"
| "rem_path (Suc l) va = PX (Suc l) va # rem_path l va"

lemma idx_rem [simp]: "idx (rem_path l va)"
  by (induction l) auto

lemma walk_levels_grow:
  assumes "vinv own R s" "r \<in> R" "node (mem s) r p = Some a" "idx p" "length p + l = 2"
  shows "\<exists>own' pte s'. walk_levels l a va True s = (pte, s') \<and> grows own R s own' s' \<and>
    (pte \<noteq> 0 \<longrightarrow> (\<exists>t. node (mem s') r (p @ rem_path l va) = Some t \<and> pte = t + 8 * PX 0 va))"
  using assms
proof (induction l arbitrary: own s p a)
  case 0
  then show ?case using grows_refl [of own R s] by auto
next
  case (Suc l)
  let ?i = "PX (Suc l) va" and ?e = "ent (mem s) a (PX (Suc l) va)"
  have e: "read64 (mem s) (a + 8 * ?i) = ?e" by (simp add: ent_def)
  consider "?e AND PTE_V \<noteq> 0" | "?e AND PTE_V = 0" "fst (kalloc s) = 0" | "?e AND PTE_V = 0" "fst (kalloc s) \<noteq> 0" by blast
  then show ?case
  proof cases
    case 1
    then have "node (mem s) r (p @ [?i]) = Some (PTE2PA ?e)" using Suc.prems(3) by (simp add: node_append)
    from Suc.IH [OF Suc.prems(1,2) this] show ?thesis using 1 Suc.prems(4,5) by (simp add: e)
  next
    case 2
    then obtain s1 where k: "kalloc s = (0, s1)" by (metis prod.collapse)
    then have "s1 = s" using kalloc_none Suc.prems(1) by blast
    then show ?thesis using 2 k grows_refl [OF Suc.prems(1)] by (auto simp: e)
  next
    case 3
    obtain np s1 where k: "kalloc s = (np, s1)" "np \<noteq> 0" using 3 by (metis prod.collapse)
    define m3 where "m3 = write64 (memset (mem s1) np 0 (unat PGSIZE)) (a + 8 * ?i) (PA2PTE np OR PTE_V)"
    obtain own1 where g: "grows own R s own1 (s1\<lparr>mem := m3\<rparr>)" "node m3 r (p @ [?i]) = Some np"
      using add_table [OF Suc.prems(1-4) _ _ 3(1) k] Suc.prems(5) unfolding m3_def by auto
    then have "vinv own1 R (s1\<lparr>mem := m3\<rparr>)" by (simp add: grows_def)
    from Suc.IH [OF this Suc.prems(2), of "p @ [?i]" np] obtain own' pte s' where
      "walk_levels l np va True (s1\<lparr>mem := m3\<rparr>) = (pte, s')" "grows own1 R (s1\<lparr>mem := m3\<rparr>) own' s'"
      "pte \<noteq> 0 \<longrightarrow> (\<exists>t. node (mem s') r ((p @ [?i]) @ rem_path l va) = Some t \<and> pte = t + 8 * PX 0 va)"
      using g(2) Suc.prems(4,5) by auto
    then show ?thesis using 3 k grows_trans [OF g(1)] by (auto simp: e m3_def)
  qed
qed

lemma rem_path_2: "rem_path 2 va = [PX 2 va, PX 1 va]"
  by (simp add: numeral_2_eq_2)

lemma walk_True:
  assumes "vinv own R s" "r \<in> R" "va < MAXVA"
  obtains own' pte s' where "walk r va True s = Some (pte, s')" "grows own R s own' s'"
    "pte \<noteq> 0 \<Longrightarrow> \<exists>t. node (mem s') r [PX 2 va, PX 1 va] = Some t \<and> pte = t + 8 * PX 0 va"
proof -
  obtain own' pte s' where "walk_levels 2 r va True s = (pte, s')" "grows own R s own' s'"
    "pte \<noteq> 0 \<longrightarrow> (\<exists>t. node (mem s') r [PX 2 va, PX 1 va] = Some t \<and> pte = t + 8 * PX 0 va)"
    using walk_levels_grow [OF assms(1,2), of "[]" r 2 va] by (auto simp: rem_path_2)
  then show thesis using that [of pte s' own'] assms(3) by (simp add: walk_def not_le)
qed

lemma cell_nonzero: "page_ok e t \<Longrightarrow> 0 < e \<Longrightarrow> t + 8 * PX 0 va \<noteq> 0"
proof -
  assume t: "page_ok e t" "0 < e"
  have "unat (t + 8 * PX 0 va) = unat t + unat (8 * PX 0 va)"
    using unat_cell [of "PX 0 va" 0] PX_less [of 0 va] t(1) by (intro unat_in_page) (auto simp: page_ok_def)
  moreover have "0 < unat t" using t by (auto simp: page_ok_def word_le_nat_alt word_less_nat_alt)
  ultimately show ?thesis by (metis add_gr_0 less_numeral_extra(3) unat_0)
qed

text \<open>Without allocation: the address of the entry, or 0 when its table is missing.\<close>

lemma walk_False:
  assumes "vinv own R s" "r \<in> R" "va < MAXVA"
  obtains pte where "walk r va False s = Some (pte, s)"
    "pte = 0 \<longleftrightarrow> node (mem s) r [PX 2 va, PX 1 va] = None" "pte = 0 \<Longrightarrow> pte_of (mem s) r va = 0"
    "pte \<noteq> 0 \<Longrightarrow> \<exists>t. node (mem s) r [PX 2 va, PX 1 va] = Some t \<and> pte = t + 8 * PX 0 va \<and> read64 (mem s) pte = pte_of (mem s) r va"
proof (cases "node (mem s) r [PX 2 va, PX 1 va]")
  case None
  then have "walk r va False s = Some (0, s)" using assms(3)
    by (auto simp: walk_def numeral_2_eq_2 not_le ent_def split: if_splits)
  then show thesis using that [of 0] None by (simp add: pte_of_def)
next
  case (Some t)
  then have "walk r va False s = Some (t + 8 * PX 0 va, s)" using assms(3)
    by (auto simp: walk_def numeral_2_eq_2 not_le ent_def split: if_splits)
  moreover have "tree_ok own (kend s) (mem s) r" "0 < kend s" using assms(1,2) by (auto simp: vinv_def kinv_def)
  then have "t + 8 * PX 0 va \<noteq> 0" using tree_table [OF _ _ _ Some] cell_nonzero by fastforce
  ultimately show thesis using that [of "t + 8 * PX 0 va"] Some by (simp add: pte_of_def ent_def)
qed

section \<open>Writing an entry of a last-level table\<close>

lemma PX_PGROUNDDOWN: "PX l (PGROUNDDOWN va) = PX l va"
  by (rule bit_word_eqI) (auto simp: PX_bit PGROUNDDOWN_shift bit_push_bit_iff bit_drop_bit_eq add.assoc dest: bit_imp_le_length)

lemma vpath_eq_iff: "va < MAXVA \<Longrightarrow> va' < MAXVA \<Longrightarrow> vpath va = vpath va' \<longleftrightarrow> PGROUNDDOWN va = PGROUNDDOWN va'"
  using PX_inj [of va va'] PX_PGROUNDDOWN [of _ va] PX_PGROUNDDOWN [of _ va'] unfolding vpath_def by (metis list.inject)

text \<open>\<open>leaf_ok\<close>: a page that the entry for \<open>va\<close> may point to.\<close>

definition leaf_ok :: "(addr \<Rightarrow> owner) \<Rightarrow> addr \<Rightarrow> addr \<Rightarrow> addr \<Rightarrow> addr \<Rightarrow> bool" where
  "leaf_ok own e r va pa \<longleftrightarrow>
     (if special (vpath va) then own pa = Other else own pa = Page r (vpath va) \<and> page_ok e pa)"

text \<open>\<open>sets own R s own' s' r va v\<close>: the entry of \<open>r\<close> for \<open>va\<close> becomes \<open>v\<close> and nothing else changes.\<close>

definition sets :: "(addr \<Rightarrow> owner) \<Rightarrow> addr set \<Rightarrow> 'a kmem_scheme \<Rightarrow> 'a kmem_scheme \<Rightarrow> addr \<Rightarrow> addr \<Rightarrow> 64 word \<Rightarrow> bool" where
  "sets own R s s' r va v \<longleftrightarrow> vinv own R s' \<and> kend s' = kend s \<and>
     (\<forall>x. kept (own (PGROUNDDOWN x)) \<longrightarrow> mem s' x = mem s x) \<and>
     (\<forall>r' \<in> R. \<forall>va' < MAXVA. pte_of (mem s') r' va' =
        (if r' = r \<and> PGROUNDDOWN va' = PGROUNDDOWN va then v else pte_of (mem s) r' va'))"

lemma set_leaf:
  assumes v: "vinv own R s" and r: "r \<in> R" and va: "va < MAXVA" and n: "node (mem s) r [PX 2 va, PX 1 va] = Some t"
    and ok: "v AND PTE_V \<noteq> 0 \<Longrightarrow> leaf_ok own (kend s) r va (PTE2PA v)"
  shows "sets own R s (s\<lparr>mem := write64 (mem s) (t + 8 * PX 0 va) v\<rparr>) r va v"
proof -
  let ?m = "write64 (mem s) (t + 8 * PX 0 va) v" and ?p = "[PX 2 va, PX 1 va]"
  have tr: "tree_ok own (kend s) (mem s) r'" if "r' \<in> R" for r' using v that by (auto simp: vinv_def)
  have t: "own t = Table r ?p" "aligned t" using tree_table [OF tr [OF r] _ _ n] by (auto dest: page_okD)
  have fr: "?m x = mem s x" if "PGROUNDDOWN x \<noteq> t" for x using entry_frame [OF t(2) PX_less that] .
  have other: "node ?m r' p = node (mem s) r' p"
    if "r' \<in> R" "idx p" "length p \<le> 3" "\<not> (r' = r \<and> prefix (vpath va) p)" for r' p
    using node_write [OF tr [OF that(1)] tr [OF r] n, of "PX 0 va" p v] that(2-4) by (simp add: vpath_def)
  have leaf: "node ?m r (vpath va) = (if v AND PTE_V \<noteq> 0 then Some (PTE2PA v) else None)"
    using node_written [OF tr [OF r] n, of "PX 0 va" v "[]"] by (simp add: vpath_def)
  have "tree_ok own (kend s) ?m r'" if "r' \<in> R" for r'
    unfolding tree_ok_def
  proof (intro allI impI)
    fix p a assume p: "idx p" "node ?m r' p = Some a"
    show "(length p \<le> 2 \<longrightarrow> own a = Table r' p \<and> page_ok (kend s) a) \<and>
      (length p = 3 \<longrightarrow> (if special p then own a = Other else own a = Page r' p \<and> page_ok (kend s) a))"
    proof (cases "r' = r \<and> prefix (vpath va) p")
      case True
      then obtain u where "p = vpath va @ u" by (auto elim: prefixE)
      then show ?thesis using True leaf p(2) ok by (cases u) (auto simp: leaf_ok_def split: if_splits)
    next
      case False
      then have "node (mem s) r' p = Some a" if "length p \<le> 3" using other [OF \<open>r' \<in> R\<close> p(1) that] p(2) by simp
      then show ?thesis using tr [OF \<open>r' \<in> R\<close>] p(1) by (auto simp: tree_ok_def)
    qed
  qed
  moreover obtain ps where ps: "kinv s ps" "\<And>a. own a = Free \<longleftrightarrow> a \<in> set ps" using v by (auto simp: vinv_def)
  have "kinv (s\<lparr>mem := ?m\<rparr>) ps"
    by (rule kinv_mem [OF ps(1)], rule fr) (use ps(2) t(1) in force)
  ultimately have v': "vinv own R (s\<lparr>mem := ?m\<rparr>)" using ps(2) by (auto simp: vinv_def)
  have pte: "pte_of ?m r' va' = (if r' = r \<and> PGROUNDDOWN va' = PGROUNDDOWN va then v else pte_of (mem s) r' va')"
    if "r' \<in> R" "va' < MAXVA" for r' va'
  proof -
    have nd: "node ?m r' [PX 2 va', PX 1 va'] = node (mem s) r' [PX 2 va', PX 1 va']"
      using other [OF that(1), of "[PX 2 va', PX 1 va']"] by (auto simp: vpath_def dest: prefix_length_le)
    have "ent ?m b (PX 0 va') = (if r' = r \<and> vpath va' = vpath va then v else ent (mem s) b (PX 0 va'))"
      if b: "node (mem s) r' [PX 2 va', PX 1 va'] = Some b" for b
    proof -
      have "own b = Table r' [PX 2 va', PX 1 va']" "aligned b" using tree_table [OF tr [OF \<open>r' \<in> R\<close>] _ _ b] by (auto dest: page_okD)
      moreover have "b = t" if "r' = r" "vpath va' = vpath va" using n b that by (simp add: vpath_def del: node.simps)
      ultimately show ?thesis using t by (subst ent_write64) (auto simp: vpath_def)
    qed
    then show ?thesis unfolding pte_of_def nd using n vpath_eq_iff [OF that(2) va] by (auto simp: vpath_def split: option.splits)
  qed
  have "?m x = mem s x" if "kept (own (PGROUNDDOWN x))" for x by (rule fr) (use that t(1) in \<open>auto simp: kept_def\<close>)
  then show ?thesis using v' pte by (simp add: sets_def)
qed

section \<open>Taking and returning pages\<close>

lemma take_page:
  assumes v: "vinv own R s" and al: "kalloc s = (np, s1)" "np \<noteq> 0" and w: "w \<noteq> Free"
    and m': "\<And>x. PGROUNDDOWN x \<noteq> np \<Longrightarrow> m' x = mem s1 x"
  shows "vinv (own(np := w)) R (s1\<lparr>mem := m'\<rparr>)" "own np = Free" "page_ok (kend s) np" "kend s1 = kend s"
    "\<And>x. PGROUNDDOWN x \<noteq> np \<Longrightarrow> m' x = mem s x" "\<And>r va. r \<in> R \<Longrightarrow> pte_of m' r va = pte_of (mem s) r va"
proof -
  obtain qs where q: "kinv s1 qs" "\<And>a. own a = Free \<longleftrightarrow> a = np \<or> a \<in> set qs" "np \<notin> set qs" "page_ok (kend s) np" "kend s1 = kend s"
    "\<And>x. PGROUNDDOWN x \<noteq> np \<Longrightarrow> mem s1 x = mem s x"
    by (rule kalloc_cases [OF v al]) (rule that, assumption+)
  have t: "tree_ok own (kend s) (mem s) r" if "r \<in> R" for r using v that by (auto simp: vinv_def)
  have eq: "m' x = mem s x" if "PGROUNDDOWN x \<noteq> np" for x using m' q(6) that by simp
  have fr: "m' x = mem s x" if "own (PGROUNDDOWN x) = Table r p" for x r p by (rule eq) (use q(2) [of np] that in auto)
  have t': "tree_ok own (kend s) m' r" if "r \<in> R" for r by (rule tree_mem [OF t [OF that]]) (rule fr)
  have "tree_ok (own(np := w)) (kend s) m' r" if "r \<in> R" for r
    by (rule tree_own [OF t' [OF that]]) (use q(2) [of np] in auto)
  moreover have "kinv (s1\<lparr>mem := m'\<rparr>) qs" by (rule kinv_mem [OF q(1)], rule m') (use q(3) in auto)
  ultimately show "vinv (own(np := w)) R (s1\<lparr>mem := m'\<rparr>)" using q(2,3,5) w unfolding vinv_def
    by (intro conjI exI [of _ qs]) auto
  show "own np = Free" "page_ok (kend s) np" "kend s1 = kend s" using q by auto
  show "m' x = mem s x" if "PGROUNDDOWN x \<noteq> np" for x by (rule eq [OF that])
  show "pte_of m' r va = pte_of (mem s) r va" if "r \<in> R" for r va by (rule pte_mem [OF t [OF that]]) (rule fr)
qed

lemma give_page:
  assumes v: "vinv own R s" and a: "page_ok (kend s) a" "own a \<noteq> Free" "\<And>r p. own a \<noteq> Table r p"
    and un: "\<And>r p. r \<in> R \<Longrightarrow> idx p \<Longrightarrow> length p = 3 \<Longrightarrow> node (mem s) r p \<noteq> Some a"
  obtains s' where "kfree a s = Some s'" "vinv (own(a := Free)) R s'" "kend s' = kend s"
    "\<And>x. PGROUNDDOWN x \<noteq> a \<Longrightarrow> mem s' x = mem s x" "\<And>r va. r \<in> R \<Longrightarrow> pte_of (mem s') r va = pte_of (mem s) r va"
proof -
  obtain ps where ps: "kinv s ps" "\<And>a. own a = Free \<longleftrightarrow> a \<in> set ps" using v by (auto simp: vinv_def)
  obtain s' where s': "kfree a s = Some s'" "kinv s' (a # ps)" "kend s' = kend s" "\<And>x. PGROUNDDOWN x \<noteq> a \<Longrightarrow> mem s' x = mem s x"
    using kfree_ok [OF ps(1) a(1)] a(2) ps(2) by metis
  have t: "tree_ok own (kend s) (mem s) r" if "r \<in> R" for r using v that by (auto simp: vinv_def)
  have fr: "mem s' x = mem s x" if "own (PGROUNDDOWN x) = Table r p" for x r p by (rule s'(4)) (use a(3) that in auto)
  have n: "node (mem s') r p = node (mem s) r p" if "r \<in> R" "idx p" "length p \<le> 3" for r p
    by (rule node_cong [OF t [OF that(1)] _ that(2,3)]) (rule fr)
  have t': "tree_ok own (kend s) (mem s') r" if "r \<in> R" for r by (rule tree_mem [OF t [OF that]]) (rule fr)
  have "tree_ok (own(a := Free)) (kend s) (mem s') r" if r: "r \<in> R" for r
    unfolding tree_ok_def
  proof (intro allI impI)
    fix p b assume p: "idx p" "node (mem s') r p = Some b"
    have "b \<noteq> a" if "length p \<le> 3"
      using tree_table [OF t' [OF r] p(1) _ p(2)] un [OF r p(1)] n [OF r p(1) that] p(2) a(3) that by (cases "length p \<le> 2") auto
    then show "(length p \<le> 2 \<longrightarrow> (own(a := Free)) b = Table r p \<and> page_ok (kend s) b) \<and>
      (length p = 3 \<longrightarrow> (if special p then (own(a := Free)) b = Other else (own(a := Free)) b = Page r p \<and> page_ok (kend s) b))"
      using t' [OF r] p by (auto simp: tree_ok_def)
  qed
  then have "vinv (own(a := Free)) R s'" using s'(2,3) ps(2) unfolding vinv_def by (intro conjI exI [of _ "a # ps"]) auto
  moreover have "pte_of (mem s') r va = pte_of (mem s) r va" if "r \<in> R" for r va by (rule pte_mem [OF t [OF that]]) (rule fr)
  ultimately show thesis using that s' by blast
qed

section \<open>Mapping one page\<close>

lemma flags_less: "f < 1024 \<longleftrightarrow> take_bit 10 f = f" for f :: addr
proof -
  have "take_bit 10 f = f \<longleftrightarrow> unat f mod 1024 = unat f" by (simp add: word_unat_eq_iff take_bit_eq_mod unat_mod)
  also have "\<dots> \<longleftrightarrow> unat f < 1024" by (simp add: mod_eq_self_iff_div_eq_0 div_eq_0_iff)
  finally show ?thesis by (simp add: word_less_nat_alt)
qed

lemma flags_or: "f < 1024 \<Longrightarrow> g < 1024 \<Longrightarrow> f OR g < 1024" for f g :: addr
  by (simp add: flags_less)

lemma flags_const [simp]: "PTE_V < 1024" "PTE_R < 1024" "PTE_W < 1024" "PTE_X < 1024" "PTE_U < 1024"
  by (simp_all add: PTE_bits)

lemma leaf_entry:
  assumes "aligned pa" "perm < 1024"
  shows "(PA2PTE pa OR perm OR PTE_V) AND PTE_V \<noteq> 0" "PTE2PA (PA2PTE pa OR perm OR PTE_V) = pa"
    "PTE_FLAGS (PA2PTE pa OR perm OR PTE_V) = perm OR PTE_V"
  using PTE_flag_make [of 0 pa "perm OR PTE_V"] PTE2PA_make [OF assms(1), of "perm OR PTE_V"] PTE_FLAGS_make [of "perm OR PTE_V" pa]
    flags_or [OF assms(2), of PTE_V]
  by (simp_all add: or.assoc PTE_V_def bit.conj_disj_distrib2)

lemma map_one:
  assumes v: "vinv own R s" and r: "r \<in> R" and va: "aligned va" "va < MAXVA" and un: "pte_of (mem s) r va AND PTE_V = 0"
    and perm: "perm < 1024" and pa: "aligned pa" "leaf_ok own (kend s) r va pa"
  obtains (none) own' s' where "mappages r va PGSIZE pa perm s = Some (- 1, s')" "grows own R s own' s'"
  | (map) own' s1 s' where "mappages r va PGSIZE pa perm s = Some (0, s')" "grows own R s own' s1"
      "sets own' R s1 s' r va (PA2PTE pa OR perm OR PTE_V)"
proof -
  obtain own' pte s1 where w: "walk r va True s = Some (pte, s1)" "grows own R s own' s1"
    "pte \<noteq> 0 \<Longrightarrow> \<exists>t. node (mem s1) r [PX 2 va, PX 1 va] = Some t \<and> pte = t + 8 * PX 0 va"
    by (rule walk_True [OF v r va(2)]) (rule that, assumption+)
  have m: "mappages r va PGSIZE pa perm s = mappages_loop r va va pa perm s"
    using va(1) by (simp add: mappages_def aligned_def PGSIZE_def)
  show thesis
  proof (cases "pte = 0")
    case True
    then show thesis using none [OF _ w(2)] w(1) by (simp add: m)
  next
    case False
    then obtain t where t: "node (mem s1) r [PX 2 va, PX 1 va] = Some t" "pte = t + 8 * PX 0 va" using w(3) by blast
    then have "read64 (mem s1) pte = pte_of (mem s) r va" using pte_at [OF t(1)] w(2) r by (simp add: grows_def)
    then have "mappages r va PGSIZE pa perm s = Some (0, s1\<lparr>mem := write64 (mem s1) pte (PA2PTE pa OR perm OR PTE_V)\<rparr>)"
      using w(1) False un by (simp add: m)
    moreover have "vinv own' R s1" "leaf_ok own' (kend s1) r va pa"
      using w(2) pa(2) by (auto simp: grows_def leaf_ok_def split: if_splits)
    then have "sets own' R s1 (s1\<lparr>mem := write64 (mem s1) pte (PA2PTE pa OR perm OR PTE_V)\<rparr>) r va (PA2PTE pa OR perm OR PTE_V)"
      unfolding t(2) using set_leaf [OF _ r va(2) t(1)] leaf_entry [OF pa(1) perm] by simp
    ultimately show thesis using map w(2) by blast
  qed
qed

end
