(* ===== verification/Vm_Ops.thy ===== *)
theory Vm_Ops
  imports Vm_Inv
begin

text \<open>
  The operations on page tables under the invariant: allocating and mapping a page, finding
  the page of a user address, and what they leave unchanged of user memory.
\<close>

section \<open>User memory\<close>

text \<open>The byte at a virtual address.\<close>

definition uval :: "memory \<Rightarrow> addr \<Rightarrow> addr \<Rightarrow> 8 word option" where
  "uval m r va = (case node m r (vpath va) of None \<Rightarrow> None | Some pa \<Rightarrow> Some (m (pa + (va - PGROUNDDOWN va))))"

text \<open>\<open>sealed\<close>: the trampoline and trap frame pages are not accessible to the user.\<close>

definition sealed :: "memory \<Rightarrow> addr \<Rightarrow> bool" where
  "sealed m r \<longleftrightarrow> (\<forall>va < MAXVA. special (vpath va) \<longrightarrow> pte_of m r va AND PTE_U = 0)"

text \<open>
  \<open>touchk own R s own' s' r A B\<close>: only the user bytes of \<open>r\<close> at addresses in \<open>A\<close>, unmapped addresses of \<open>r\<close>
  and the kernel's bytes in \<open>B\<close> change.
\<close>

definition touchk :: "(addr \<Rightarrow> owner) \<Rightarrow> addr set \<Rightarrow> 'a kmem_scheme \<Rightarrow> (addr \<Rightarrow> owner) \<Rightarrow> 'a kmem_scheme \<Rightarrow> addr \<Rightarrow>
    addr set \<Rightarrow> addr set \<Rightarrow> bool" where
  "touchk own R s own' s' r A B \<longleftrightarrow> vinv own' R s' \<and> kend s' = kend s \<and> (\<forall>a. own a \<noteq> Free \<longrightarrow> own' a = own a) \<and>
     (\<forall>x. own (PGROUNDDOWN x) = Other \<longrightarrow> x \<notin> B \<longrightarrow> mem s' x = mem s x) \<and>
     (\<forall>r' \<in> R. r' \<noteq> r \<longrightarrow> (\<forall>va < MAXVA. pte_of (mem s') r' va = pte_of (mem s) r' va \<and>
        (\<not> special (vpath va) \<longrightarrow> uval (mem s') r' va = uval (mem s) r' va))) \<and>
     (\<forall>va < MAXVA. special (vpath va) \<longrightarrow> pte_of (mem s') r va = pte_of (mem s) r va) \<and>
     (\<forall>va < MAXVA. va \<notin> A \<longrightarrow> \<not> special (vpath va) \<longrightarrow> uval (mem s) r va \<noteq> None \<longrightarrow> uval (mem s') r va = uval (mem s) r va) \<and>
     (\<forall>va < MAXVA. uval (mem s) r va \<noteq> None \<longrightarrow> pte_of (mem s') r va = pte_of (mem s) r va)"

abbreviation touch :: "(addr \<Rightarrow> owner) \<Rightarrow> addr set \<Rightarrow> 'a kmem_scheme \<Rightarrow> (addr \<Rightarrow> owner) \<Rightarrow> 'a kmem_scheme \<Rightarrow> addr \<Rightarrow>
    addr set \<Rightarrow> bool" where
  "touch own R s own' s' r A \<equiv> touchk own R s own' s' r A {}"

lemma uval_None: "uval m r va = None \<longleftrightarrow> pte_of m r va AND PTE_V = 0"
  by (simp add: uval_def node_vpath)

lemma touch_refl: "vinv own R s \<Longrightarrow> touch own R s own s r {}"
  by (simp add: touchk_def)

lemma touch_trans:
  assumes "touchk own R s own1 s1 r A C" "touchk own1 R s1 own2 s2 r B D"
  shows "touchk own R s own2 s2 r (A \<union> B) (C \<union> D)"
proof -
  have "own a \<noteq> Free \<longrightarrow> own2 a = own a" for a using assms unfolding touchk_def by metis
  moreover have "own (PGROUNDDOWN x) = Other \<longrightarrow> x \<notin> C \<union> D \<longrightarrow> mem s2 x = mem s x" for x
    using assms unfolding touchk_def by (metis Un_iff owner.distinct(5))
  moreover have "uval (mem s) r va \<noteq> None \<longrightarrow> pte_of (mem s2) r va = pte_of (mem s) r va" if "va < MAXVA" for va
    using assms that unfolding touchk_def by (metis uval_None)
  moreover have "va \<notin> A \<union> B \<longrightarrow> \<not> special (vpath va) \<longrightarrow> uval (mem s) r va \<noteq> None \<longrightarrow> uval (mem s2) r va = uval (mem s) r va"
    if "va < MAXVA" for va
    using assms that unfolding touchk_def by (metis Un_iff)
  ultimately show ?thesis using assms unfolding touchk_def by auto
qed

lemma touch_sealed: "touchk own R s own' s' r A B \<Longrightarrow> sealed (mem s) r \<Longrightarrow> sealed (mem s') r"
  by (auto simp: touchk_def sealed_def)

text \<open>A mapped user page keeps its bytes when its entry and its page are unchanged.\<close>

lemma node_leaf_own:
  assumes "vinv own R s" "r \<in> R" "va < MAXVA" "node (mem s) r (vpath va) = Some pa"
  shows "leaf_ok own (kend s) r va pa" "aligned pa"
proof -
  have "tree_ok own (kend s) (mem s) r" using assms(1,2) by (auto simp: vinv_def)
  then show "leaf_ok own (kend s) r va pa" using tree_leaf [OF _ _ _ assms(4)] by (simp add: leaf_ok_def)
  show "aligned pa" using assms(4) by (auto simp: node_vpath split: if_splits)
qed

lemma leaf_kept: "leaf_ok own e r va pa \<Longrightarrow> kept (own pa)"
  by (auto simp: leaf_ok_def kept_def split: if_splits)

lemma uval_eq:
  assumes "vinv own R s" "r \<in> R" "va < MAXVA" "pte_of m' r va = pte_of (mem s) r va"
    and "\<And>x. kept (own (PGROUNDDOWN x)) \<Longrightarrow> m' x = mem s x"
  shows "uval m' r va = uval (mem s) r va"
proof -
  have n: "node m' r (vpath va) = node (mem s) r (vpath va)" using assms(4) by (simp add: node_vpath)
  have "m' (pa + (va - PGROUNDDOWN va)) = mem s (pa + (va - PGROUNDDOWN va))" if pa: "node (mem s) r (vpath va) = Some pa" for pa
    using node_leaf_own [OF assms(1-3) pa] leaf_kept assms(5) offset_less [of va] by simp
  then show ?thesis unfolding uval_def n by (auto split: option.splits)
qed

lemma grows_touch:
  assumes "grows own R s own' s'" "vinv own R s" "r \<in> R" shows "touch own R s own' s' r {}"
proof -
  have "uval (mem s') r' va = uval (mem s) r' va" if "r' \<in> R" "va < MAXVA" for r' va
    by (rule uval_eq [OF assms(2) that]) (use assms(1) that(1) in \<open>auto simp: grows_def\<close>)
  then show ?thesis using assms unfolding touchk_def grows_def by (auto simp: kept_def)
qed

section \<open>A new user page\<close>

text \<open>\<open>adds own R s own' s' r va v np f\<close>: the page \<open>np\<close> with contents \<open>f\<close> is mapped at \<open>va\<close> with entry \<open>v\<close>.\<close>

definition adds :: "(addr \<Rightarrow> owner) \<Rightarrow> addr set \<Rightarrow> 'a kmem_scheme \<Rightarrow> (addr \<Rightarrow> owner) \<Rightarrow> 'a kmem_scheme \<Rightarrow> addr \<Rightarrow> addr \<Rightarrow>
    64 word \<Rightarrow> addr \<Rightarrow> memory \<Rightarrow> bool" where
  "adds own R s own' s' r va v np f \<longleftrightarrow> vinv own' R s' \<and> kend s' = kend s \<and> own np = Free \<and> own' np = Page r (vpath va) \<and>
     page_ok (kend s) np \<and> (\<forall>a. own a \<noteq> Free \<longrightarrow> own' a = own a) \<and>
     (\<forall>a. own a = Free \<longrightarrow> own' a = Free \<or> (\<exists>r p. own' a = Table r p) \<or> a = np) \<and>
     (\<forall>x. kept (own (PGROUNDDOWN x)) \<longrightarrow> mem s' x = mem s x) \<and> (\<forall>x. PGROUNDDOWN x = np \<longrightarrow> mem s' x = f x) \<and>
     (\<forall>r' \<in> R. \<forall>va' < MAXVA. pte_of (mem s') r' va' =
        (if r' = r \<and> PGROUNDDOWN va' = PGROUNDDOWN va then v else pte_of (mem s) r' va'))"

lemma free_again:
  assumes g: "grows (own(np := Page r p)) R s2 own' s3" and s2: "vinv (own(np := Page r p)) R s2"
    and own: "own np = Free" and ok: "page_ok (kend s2) np" and un: "node (mem s3) r p = None"
    and same: "kend s2 = kend s" "\<And>x. PGROUNDDOWN x \<noteq> np \<Longrightarrow> mem s2 x = mem s x" "\<And>r va. r \<in> R \<Longrightarrow> pte_of (mem s2) r va = pte_of (mem s) r va"
  obtains s4 where "kfree np s3 = Some s4" "grows own R s (own'(np := Free)) s4"
proof -
  have v3: "vinv own' R s3" and np: "own' np = Page r p" and e: "kend s3 = kend s2" using g by (auto simp: grows_def)
  have "node (mem s3) r' q \<noteq> Some np" if "r' \<in> R" "idx q" "length q = 3" for r' q
  proof
    assume n: "node (mem s3) r' q = Some np"
    have "tree_ok own' (kend s3) (mem s3) r'" using v3 that(1) by (auto simp: vinv_def)
    from tree_leaf [OF this that(2,3) n] np have "r' = r" "q = p" by (auto split: if_splits)
    then show False using un n by simp
  qed
  then obtain s4 where s4: "kfree np s3 = Some s4" "vinv (own'(np := Free)) R s4" "kend s4 = kend s3"
    "\<And>x. PGROUNDDOWN x \<noteq> np \<Longrightarrow> mem s4 x = mem s3 x" "\<And>r va. r \<in> R \<Longrightarrow> pte_of (mem s4) r va = pte_of (mem s3) r va"
    using give_page [OF v3, of np] np ok e by (metis owner.distinct(3,7))
  have "mem s4 x = mem s x" if "kept (own (PGROUNDDOWN x))" for x
  proof -
    have "PGROUNDDOWN x \<noteq> np" using that own by (auto simp: kept_def)
    then show ?thesis using g that s4(4) [of x] same(2) [of x] by (auto simp: grows_def)
  qed
  moreover have "own a \<noteq> Free \<longrightarrow> (own'(np := Free)) a = own a" for a using g own by (auto simp: grows_def)
  moreover have "own a = Free \<longrightarrow> (own'(np := Free)) a = Free \<or> (\<exists>r p. (own'(np := Free)) a = Table r p)" for a
    using g by (auto simp: grows_def)
  moreover have "pte_of (mem s4) r va = pte_of (mem s) r va" if "r \<in> R" for r va using that s4(5) same(3) g by (auto simp: grows_def)
  ultimately show thesis using that [OF s4(1)] s4(2,3) e same(1) by (simp add: grows_def)
qed

lemma map_new:
  assumes v: "vinv own R s" and r: "r \<in> R" and va: "aligned va" "va < MAXVA" "\<not> special (vpath va)"
    and un: "pte_of (mem s) r va AND PTE_V = 0" and perm: "perm < 1024"
    and al: "kalloc s = (np, s1)" "np \<noteq> 0" and m': "\<And>x. PGROUNDDOWN x \<noteq> np \<Longrightarrow> m' x = mem s1 x"
  obtains (none) own' s2 s3 where "mappages r va PGSIZE np perm (s1\<lparr>mem := m'\<rparr>) = Some (- 1, s2)" "kfree np s2 = Some s3"
      "grows own R s own' s3"
  | (map) own' s3 where "mappages r va PGSIZE np perm (s1\<lparr>mem := m'\<rparr>) = Some (0, s3)"
      "adds own R s own' s3 r va (PA2PTE np OR perm OR PTE_V) np m'"
proof -
  let ?s2 = "s1\<lparr>mem := m'\<rparr>" and ?own = "own(np := Page r (vpath va))"
  have t: "vinv ?own R ?s2" "own np = Free" "page_ok (kend s) np" "kend s1 = kend s"
    "\<And>x. PGROUNDDOWN x \<noteq> np \<Longrightarrow> m' x = mem s x" "\<And>r va. r \<in> R \<Longrightarrow> pte_of m' r va = pte_of (mem s) r va"
    using take_page [OF v al, of "Page r (vpath va)" m', OF _ m'] by auto
  have un2: "pte_of (mem ?s2) r va AND PTE_V = 0" using un t(6) [OF r] by simp
  have lf: "leaf_ok ?own (kend ?s2) r va np" "aligned np" using va(3) t(3,4) by (auto simp: leaf_ok_def dest: page_okD)
  show thesis
  proof (rule map_one [OF t(1) r va(1,2) un2 perm lf(2,1)])
    fix own' s' assume 1: "mappages r va PGSIZE np perm ?s2 = Some (- 1, s')" "grows ?own R ?s2 own' s'"
    have "node (mem s') r (vpath va) = None" using 1(2) r un2 by (auto simp: grows_def node_vpath)
    then obtain s4 where "kfree np s' = Some s4" "grows own R s (own'(np := Free)) s4"
      using free_again [OF 1(2) t(1,2), of s] t(3-6) by auto
    then show thesis using none 1(1) by blast
  next
    fix own' s1' s' assume 1: "mappages r va PGSIZE np perm ?s2 = Some (0, s')" "grows ?own R ?s2 own' s1'"
      "sets own' R s1' s' r va (PA2PTE np OR perm OR PTE_V)"
    have "mem s' x = mem s x" if "kept (own (PGROUNDDOWN x))" for x
    proof -
      have "PGROUNDDOWN x \<noteq> np" using that t(2) by (auto simp: kept_def)
      moreover have "own' (PGROUNDDOWN x) = own (PGROUNDDOWN x)" using 1(2) that calculation by (auto simp: grows_def kept_def)
      ultimately show ?thesis using 1(2,3) that t(5) [of x] by (auto simp: grows_def sets_def)
    qed
    moreover have "mem s' x = m' x" if "PGROUNDDOWN x = np" for x using 1(2,3) that by (auto simp: grows_def sets_def kept_def)
    moreover have "own a \<noteq> Free \<longrightarrow> own' a = own a" for a using 1(2) t(2) by (auto simp: grows_def)
    moreover have "own a = Free \<longrightarrow> own' a = Free \<or> (\<exists>r p. own' a = Table r p) \<or> a = np" for a using 1(2) by (auto simp: grows_def)
    moreover have "own' np = Page r (vpath va)" using 1(2) by (auto simp: grows_def)
    moreover have "kend s' = kend s" "vinv own' R s'" using 1(2,3) t(4) by (auto simp: grows_def sets_def)
    moreover have "pte_of (mem s') r' va' = (if r' = r \<and> PGROUNDDOWN va' = PGROUNDDOWN va then PA2PTE np OR perm OR PTE_V else pte_of (mem s) r' va')"
      if "r' \<in> R" "va' < MAXVA" for r' va' using 1(2,3) that t(6) by (auto simp: grows_def sets_def)
    ultimately have "adds own R s own' s' r va (PA2PTE np OR perm OR PTE_V) np m'" using t(2,3) by (simp add: adds_def)
    then show thesis using map 1(1) by blast
  qed
qed

lemma adds_touch:
  assumes "adds own R s own' s' r va v np f" "vinv own R s" "r \<in> R" "va < MAXVA" "pte_of (mem s) r va AND PTE_V = 0" "\<not> special (vpath va)"
  shows "touch own R s own' s' r {}"
proof -
  have p: "pte_of (mem s') r' va' = (if r' = r \<and> PGROUNDDOWN va' = PGROUNDDOWN va then v else pte_of (mem s) r' va')"
    if "r' \<in> R" "va' < MAXVA" for r' va' using assms(1) that unfolding adds_def by metis
  have k: "mem s' x = mem s x" if "kept (own (PGROUNDDOWN x))" for x using assms(1) that unfolding adds_def by metis
  have u: "uval (mem s') r' va' = uval (mem s) r' va'"
    if "r' \<in> R" "va' < MAXVA" "\<not> (r' = r \<and> PGROUNDDOWN va' = PGROUNDDOWN va)" for r' va'
    by (rule uval_eq [OF assms(2) that(1,2)]) (use p [OF that(1,2)] that(3) k in auto)
  have same: "pte_of (mem s) r va' = pte_of (mem s) r va" "vpath va' = vpath va" if "va' < MAXVA" "PGROUNDDOWN va' = PGROUNDDOWN va" for va'
  proof -
    show "vpath va' = vpath va" using vpath_eq_iff [OF that(1) assms(4)] that(2) by simp
    then show "pte_of (mem s) r va' = pte_of (mem s) r va" by (simp add: pte_of_def vpath_def)
  qed
  have new: "\<not> (PGROUNDDOWN va' = PGROUNDDOWN va)" if "va' < MAXVA" "uval (mem s) r va' \<noteq> None" for va'
    using same [OF that(1)] that(2) assms(5) by (auto simp: uval_None)
  have "uval (mem s') r va' = uval (mem s) r va'" "pte_of (mem s') r va' = pte_of (mem s) r va'"
    if "va' < MAXVA" "uval (mem s) r va' \<noteq> None" for va'
    using u [OF assms(3) that(1)] p [OF assms(3) that(1)] new [OF that] by simp_all
  moreover have "pte_of (mem s') r va' = pte_of (mem s) r va'" if "va' < MAXVA" "special (vpath va')" for va'
    using p [OF assms(3) that(1)] same(2) [OF that(1)] that(2) assms(6) by auto
  moreover have "kept Other" by (simp add: kept_def)
  ultimately show ?thesis using assms(1) k u p unfolding touchk_def adds_def by simp
qed

text \<open>Writing to user or kernel pages disturbs neither tables nor the free list.\<close>

lemma vinv_data:
  assumes "vinv own R s" "\<And>x. own (PGROUNDDOWN x) = Free \<or> (\<exists>r p. own (PGROUNDDOWN x) = Table r p) \<Longrightarrow> m' x = mem s x"
  shows "vinv own R (s\<lparr>mem := m'\<rparr>)" "\<And>r va. r \<in> R \<Longrightarrow> pte_of m' r va = pte_of (mem s) r va"
proof -
  have t: "tree_ok own (kend s) (mem s) r" if "r \<in> R" for r using assms(1) that by (auto simp: vinv_def)
  obtain ps where ps: "kinv s ps" "\<And>a. own a = Free \<longleftrightarrow> a \<in> set ps" using assms(1) by (auto simp: vinv_def)
  have "kinv (s\<lparr>mem := m'\<rparr>) ps" by (rule kinv_mem [OF ps(1)], rule assms(2)) (simp add: ps(2))
  moreover have "tree_ok own (kend s) m' r" if "r \<in> R" for r by (rule tree_mem [OF t [OF that]], rule assms(2)) blast
  ultimately show "vinv own R (s\<lparr>mem := m'\<rparr>)" using ps(2) by (auto simp: vinv_def)
  show "pte_of m' r va = pte_of (mem s) r va" if "r \<in> R" for r va by (rule pte_mem [OF t [OF that]], rule assms(2)) blast
qed

section \<open>The page of a user address\<close>

lemma MAXVA_le: "unat MAXVA = 2 ^ 38" by (simp add: MAXVA_def)

lemma special_iff:
  assumes "va < MAXVA" "aligned va" shows "special (vpath va) \<longleftrightarrow> va = TRAMPOLINE \<or> va = TRAPFRAME"
proof -
  have t: "TRAMPOLINE < MAXVA" "TRAPFRAME < MAXVA" "aligned TRAMPOLINE" "aligned TRAPFRAME"
    by (simp_all add: TRAMPOLINE_def TRAPFRAME_def MAXVA_def PGSIZE_def aligned_unat word_less_nat_alt)
  then show ?thesis using vpath_eq_iff [OF assms(1) t(1)] vpath_eq_iff [OF assms(1) t(2)] assms(2) by (simp add: special_def)
qed

lemma below_trapframe: "aligned va \<Longrightarrow> va < TRAPFRAME \<Longrightarrow> va < MAXVA \<and> \<not> special (vpath va)"
proof -
  assume va: "aligned va" "va < TRAPFRAME"
  have "TRAPFRAME < MAXVA" "TRAPFRAME < TRAMPOLINE" by (simp_all add: TRAMPOLINE_def TRAPFRAME_def MAXVA_def PGSIZE_def)
  then show ?thesis using va special_iff [of va] by auto
qed

lemma walkaddr_eq:
  assumes "vinv own R s" "r \<in> R"
  shows "walkaddr r va s = (if va < MAXVA \<and> pte_of (mem s) r va AND PTE_V \<noteq> 0 \<and> pte_of (mem s) r va AND PTE_U \<noteq> 0
    then PTE2PA (pte_of (mem s) r va) else 0)"
proof (cases "va < MAXVA")
  case True
  obtain pte where "walk r va False s = Some (pte, s)" "pte = 0 \<longleftrightarrow> node (mem s) r [PX 2 va, PX 1 va] = None" "pte = 0 \<Longrightarrow> pte_of (mem s) r va = 0"
    "pte \<noteq> 0 \<Longrightarrow> \<exists>t. node (mem s) r [PX 2 va, PX 1 va] = Some t \<and> pte = t + 8 * PX 0 va \<and> read64 (mem s) pte = pte_of (mem s) r va"
    by (rule walk_False [OF assms True]) (rule that, assumption+)
  then show ?thesis using True by (cases "pte = 0") (auto simp: walkaddr_def)
next
  case False
  then show ?thesis by (auto simp: walkaddr_def walk_def not_less)
qed

lemma ismapped_eq:
  assumes "vinv own R s" "r \<in> R" "va < MAXVA"
  shows "ismapped r va s = Some (pte_of (mem s) r va AND PTE_V \<noteq> 0)"
proof -
  obtain pte where "walk r va False s = Some (pte, s)" "pte = 0 \<longleftrightarrow> node (mem s) r [PX 2 va, PX 1 va] = None" "pte = 0 \<Longrightarrow> pte_of (mem s) r va = 0"
    "pte \<noteq> 0 \<Longrightarrow> \<exists>t. node (mem s) r [PX 2 va, PX 1 va] = Some t \<and> pte = t + 8 * PX 0 va \<and> read64 (mem s) pte = pte_of (mem s) r va"
    by (rule walk_False [OF assms]) (rule that, assumption+)
  then show ?thesis by (cases "pte = 0") (auto simp: ismapped_def)
qed

lemma vmfault_cases:
  assumes v: "vinv own R s" and r: "r \<in> R" and psz: "psz \<le> TRAPFRAME" and va: "aligned va"
  obtains (none) own' s' where "vmfault r psz va s = Some (0, s')" "grows own R s own' s'"
  | (new) own' s' np where "vmfault r psz va s = Some (np, s')" "np \<noteq> 0" "va < TRAPFRAME" "pte_of (mem s) r va AND PTE_V = 0"
      "adds own R s own' s' r va (PA2PTE np OR (PTE_W OR PTE_U OR PTE_R) OR PTE_V) np (\<lambda>x. 0)"
proof -
  note refl = grows_refl [OF v]
  show thesis
  proof (cases "va < psz")
    case False
    then show thesis using none [OF _ refl] by (simp add: vmfault_def not_less)
  next
    case True
    then have va': "va < TRAPFRAME" "va < MAXVA" "\<not> special (vpath va)" using psz below_trapframe [OF va] by auto
    have im: "ismapped r (PGROUNDDOWN va) s = Some (pte_of (mem s) r va AND PTE_V \<noteq> 0)"
      using ismapped_eq [OF v r va'(2)] va by simp
    show thesis
    proof (cases "pte_of (mem s) r va AND PTE_V = 0")
      case False
      then show thesis using none [OF _ refl] True im by (simp add: vmfault_def not_le)
    next
      case un: True
      obtain np s1 where al: "kalloc s = (np, s1)" by (metis prod.collapse)
      show thesis
      proof (cases "np = 0")
        case True
        then have "s1 = s" using kalloc_none v al by blast
        then show thesis using none [OF _ refl] \<open>va < psz\<close> im un True al by (simp add: vmfault_def not_le)
      next
        case False
        let ?m = "memset (mem s1) np 0 4096"
        have np: "aligned np" using take_page(3) [OF v al False, of Other "mem s1"] by (auto dest: page_okD)
        have perm: "PTE_W OR PTE_U OR PTE_R < 1024" by (simp add: flags_or)
        have m: "?m x = mem s1 x" if "PGROUNDDOWN x \<noteq> np" for x using that np by (simp add: memset_page)
        show thesis
        proof (rule map_new [OF v r va va'(2,3) un perm al False m])
          fix own' s2 s3 assume 1: "mappages r va PGSIZE np (PTE_W OR PTE_U OR PTE_R) (s1\<lparr>mem := ?m\<rparr>) = Some (- 1, s2)"
            "kfree np s2 = Some s3" "grows own R s own' s3"
          then have "vmfault r psz va s = Some (0, s3)" using \<open>va < psz\<close> im un False al va by (simp add: vmfault_def not_le)
          then show thesis using none 1(3) by blast
        next
          fix own' s3 assume 1: "mappages r va PGSIZE np (PTE_W OR PTE_U OR PTE_R) (s1\<lparr>mem := ?m\<rparr>) = Some (0, s3)"
            "adds own R s own' s3 r va (PA2PTE np OR (PTE_W OR PTE_U OR PTE_R) OR PTE_V) np ?m"
          then have "adds own R s own' s3 r va (PA2PTE np OR (PTE_W OR PTE_U OR PTE_R) OR PTE_V) np (\<lambda>x. 0)"
            using np by (auto simp: adds_def memset_page)
          moreover have "vmfault r psz va s = Some (np, s3)" using 1(1) \<open>va < psz\<close> im un False al va by (simp add: vmfault_def not_le)
          ultimately show thesis using new un False va'(1) by blast
        qed
      qed
    qed
  qed
qed

text \<open>\<open>uok\<close>: the address is mapped and accessible to the user.\<close>

definition uok :: "memory \<Rightarrow> addr \<Rightarrow> addr \<Rightarrow> bool" where
  "uok m r va \<longleftrightarrow> va < MAXVA \<and> pte_of m r va AND PTE_V \<noteq> 0 \<and> pte_of m r va AND PTE_U \<noteq> 0"

lemma uok_page:
  assumes "vinv own R s" "r \<in> R" "sealed (mem s) r" "uok (mem s) r va"
  shows "node (mem s) r (vpath va) = Some (walkaddr r va s)" "own (walkaddr r va s) = Page r (vpath va)"
    "page_ok (kend s) (walkaddr r va s)" "walkaddr r va s \<noteq> 0"
proof -
  have p: "va < MAXVA" "walkaddr r va s = PTE2PA (pte_of (mem s) r va)"
    using assms(4) unfolding walkaddr_eq [OF assms(1,2)] by (auto simp: uok_def)
  show n: "node (mem s) r (vpath va) = Some (walkaddr r va s)" using p assms(4) by (simp add: node_vpath uok_def)
  have "\<not> special (vpath va)" using assms(3,4) by (auto simp: sealed_def uok_def)
  then show o: "own (walkaddr r va s) = Page r (vpath va)" "page_ok (kend s) (walkaddr r va s)"
    using node_leaf_own(1) [OF assms(1,2) p(1) n] by (auto simp: leaf_ok_def)
  have "0 < kend s" using assms(1) by (auto simp: vinv_def kinv_def)
  then show "walkaddr r va s \<noteq> 0" using o(2) by (auto simp: page_ok_def)
qed

lemma user_page_cases:
  assumes v: "vinv own R s" and r: "r \<in> R" and psz: "psz \<le> TRAPFRAME" and va: "aligned va" and sl: "sealed (mem s) r"
  obtains (none) own' s' where "user_page r psz va s = Some (0, s')" "touch own R s own' s' r {}" "\<not> uok (mem s) r va"
  | (page) own' s' pa where "user_page r psz va s = Some (pa, s')" "pa \<noteq> 0" "touch own R s own' s' r {}" "va < MAXVA"
      "node (mem s') r (vpath va) = Some pa" "own' pa = Page r (vpath va)" "page_ok (kend s) pa" "uok (mem s') r va"
proof (cases "walkaddr r va s = 0")
  case True
  then have up: "user_page r psz va s = vmfault r psz va s" and no: "\<not> uok (mem s) r va"
    using uok_page(4) [OF v r sl] by (auto simp: user_page_def)
  show thesis
  proof (rule vmfault_cases [OF v r psz va])
    fix own' s' assume "vmfault r psz va s = Some (0, s')" "grows own R s own' s'"
    then show thesis using none up grows_touch [OF _ v r] no by metis
  next
    fix own' s' np assume 1: "vmfault r psz va s = Some (np, s')" "np \<noteq> 0" "va < TRAPFRAME" "pte_of (mem s) r va AND PTE_V = 0"
      "adds own R s own' s' r va (PA2PTE np OR (PTE_W OR PTE_U OR PTE_R) OR PTE_V) np (\<lambda>x. 0)"
    have va': "va < MAXVA" "\<not> special (vpath va)" using below_trapframe [OF va 1(3)] by auto
    have "page_ok (kend s) np" "own' np = Page r (vpath va)" using 1(5) by (auto simp: adds_def)
    moreover have pte: "pte_of (mem s') r va = PA2PTE np OR (PTE_W OR PTE_U OR PTE_R) OR PTE_V" using 1(5) r va'(1) by (auto simp: adds_def)
    then have "node (mem s') r (vpath va) = Some np"
      using leaf_entry [of np "PTE_W OR PTE_U OR PTE_R"] calculation(1) by (simp add: node_vpath flags_or page_okD)
    moreover have "uok (mem s') r va" unfolding uok_def pte
      using va'(1) leaf_entry(1) [OF page_okD [OF calculation(1)], of "PTE_W OR PTE_U OR PTE_R"]
        PTE_flag_make [of 4 np "PTE_W OR PTE_U OR PTE_R OR PTE_V"]
      by (simp add: flags_or or.assoc PTE_bits)
    ultimately show thesis
      using page [OF _ 1(2) adds_touch [OF 1(5) v r va'(1) 1(4) va'(2)] va'(1)] up 1(1) by simp
  qed
next
  case False
  then have u: "uok (mem s) r va" unfolding walkaddr_eq [OF v r] by (auto simp: uok_def split: if_splits)
  then show thesis using page [OF _ False touch_refl [OF v]] uok_page [OF v r sl u] False by (simp add: user_page_def uok_def)
qed

end
