(* ===== verification/Vm_Copy.thy ===== *)
theory Vm_Copy
  imports Vm_Ops
begin

text \<open>
  Copying between kernel and user memory: \<^verbatim>\<open>copyout\<close> and \<^verbatim>\<open>copyin\<close> move the bytes they should,
  across page borders and with pages allocated on demand, and change nothing else.
\<close>

section \<open>Writing to a user page\<close>

lemma touchD:
  assumes "touchk own R s own' s' r A B"
  shows "vinv own' R s'" "own a \<noteq> Free \<Longrightarrow> own' a = own a" "own (PGROUNDDOWN x) = Other \<Longrightarrow> x \<notin> B \<Longrightarrow> mem s' x = mem s x"
  using assms unfolding touchk_def by blast+

lemma touch_uval:
  assumes "touchk own R s own' s' r A B" "va < MAXVA" "va \<notin> A" "\<not> special (vpath va)" "uval (mem s) r va \<noteq> None"
  shows "uval (mem s') r va = uval (mem s) r va"
  using assms unfolding touchk_def by blast

lemma touch_mono: "touchk own R s own' s' r A C \<Longrightarrow> A \<subseteq> B \<Longrightarrow> C \<subseteq> D \<Longrightarrow> touchk own R s own' s' r B D"
  unfolding touchk_def by blast

lemma user_write:
  fixes f :: "addr \<Rightarrow> 8 word"
  assumes v: "vinv own R s" and r: "r \<in> R" and va: "PGROUNDDOWN dstva < MAXVA" "node (mem s) r (vpath (PGROUNDDOWN dstva)) = Some pa"
    "own pa = Page r (vpath (PGROUNDDOWN dstva))" and n: "unat (dstva - PGROUNDDOWN dstva) + n \<le> 4096"
  defines "m' \<equiv> blit (mem s) (pa + (dstva - PGROUNDDOWN dstva)) n f"
  shows "touch own R s own (s\<lparr>mem := m'\<rparr>) r {va. unat (va - dstva) < n}"
    and "unat k < n \<Longrightarrow> uval m' r (dstva + k) = Some (f k)"
proof -
  let ?va = "PGROUNDDOWN dstva" and ?o = "dstva - PGROUNDDOWN dstva"
  have al: "aligned pa" by (rule node_leaf_own(2) [OF v r va(1,2)])
  have in_page: "PGROUNDDOWN (?va + (?o + k)) = ?va" "PGROUNDDOWN (pa + (?o + k)) = pa" if "unat k < n" for k
  proof -
    have "unat (?o + k) < 4096" using that n by (simp add: unat_word_ariths)
    then show "PGROUNDDOWN (?va + (?o + k)) = ?va" "PGROUNDDOWN (pa + (?o + k)) = pa"
      using PGROUNDDOWN_in_page [OF aligned_PGROUNDDOWN, of "?o + k" dstva] al by simp_all
  qed
  have fr: "m' x = mem s x" if "PGROUNDDOWN x \<noteq> pa" for x
    using in_page(2) [of "x - (pa + ?o)"] that by (auto simp: m'_def blit_def)
  have kp: "own (PGROUNDDOWN x) = Free \<or> (\<exists>r p. own (PGROUNDDOWN x) = Table r p) \<Longrightarrow> m' x = mem s x" for x
    by (rule fr) (use va(3) in auto)
  have v': "vinv own R (s\<lparr>mem := m'\<rparr>)" and pte: "\<And>r va. r \<in> R \<Longrightarrow> pte_of m' r va = pte_of (mem s) r va"
    using vinv_data [OF v kp] by blast+
  have other: "m' x = mem s x" if "own (PGROUNDDOWN x) = Other" for x by (rule fr) (use that va(3) in auto)
  have nd: "node m' r' (vpath va') = node (mem s) r' (vpath va')" if "r' \<in> R" for r' va' using pte [OF that] by (simp add: node_vpath)
  have uv: "uval m' r' va' = uval (mem s) r' va'" if "r' \<in> R" "va' < MAXVA" "\<not> (r' = r \<and> unat (va' - dstva) < n)" for r' va'
  proof -
    have "m' (b + (va' - PGROUNDDOWN va')) = mem s (b + (va' - PGROUNDDOWN va'))" if b: "node (mem s) r' (vpath va') = Some b" for b
    proof (cases "b = pa")
      case True
      then have "r' = r" "PGROUNDDOWN va' = ?va"
        using node_leaf_own(1) [OF v \<open>r' \<in> R\<close> \<open>va' < MAXVA\<close> b] va(3) vpath_eq_iff [OF \<open>va' < MAXVA\<close> va(1)] by (auto simp: leaf_ok_def split: if_splits)
      then have "\<not> unat (b + (va' - PGROUNDDOWN va') - (pa + ?o)) < n" using True \<open>\<not> (r' = r \<and> unat (va' - dstva) < n)\<close> by simp
      then show ?thesis by (simp add: m'_def blit_def)
    next
      case False
      then have "PGROUNDDOWN (b + (va' - PGROUNDDOWN va')) \<noteq> pa"
        using node_leaf_own(2) [OF v \<open>r' \<in> R\<close> \<open>va' < MAXVA\<close> b] offset_less [of va'] by simp
      then show ?thesis by (rule fr)
    qed
    then show ?thesis unfolding uval_def nd [OF \<open>r' \<in> R\<close>] by (auto split: option.splits)
  qed
  show "touch own R s own (s\<lparr>mem := m'\<rparr>) r {va. unat (va - dstva) < n}"
    using v' other uv pte r by (simp add: touchk_def)
  show "uval m' r (dstva + k) = Some (f k)" if k: "unat k < n"
  proof -
    have e: "PGROUNDDOWN (dstva + k) = ?va" using in_page(1) [OF k] by (simp add: add.assoc [symmetric])
    then have "vpath (dstva + k) = vpath ?va" unfolding vpath_def using PX_PGROUNDDOWN [of _ "dstva + k"] by metis
    moreover have "m' (pa + (dstva + k - ?va)) = f k" using k by (simp add: m'_def blit_def algebra_simps)
    ultimately show ?thesis using nd [OF r] va(2) e by (simp add: uval_def)
  qed
qed

section \<open>\<^verbatim>\<open>copyout\<close>\<close>

text \<open>A kernel buffer: bytes of pages that belong to the kernel.\<close>

definition kbuf :: "(addr \<Rightarrow> owner) \<Rightarrow> addr \<Rightarrow> nat \<Rightarrow> bool" where
  "kbuf own a n \<longleftrightarrow> unat a + n < 2 ^ 64 \<and> (\<forall>k. unat k < n \<longrightarrow> own (PGROUNDDOWN (a + k)) = Other)"

lemma kbuf_ext: "kbuf own a n \<Longrightarrow> (\<And>b. own b \<noteq> Free \<Longrightarrow> own' b = own b) \<Longrightarrow> kbuf own' a n"
  by (auto simp: kbuf_def)

lemma kbuf_tail:
  assumes "kbuf own a n" "unat j \<le> n" shows "kbuf own (a + j) (n - unat j)"
proof -
  have j: "unat (a + j) = unat a + unat j" using assms by (simp add: kbuf_def unat_word_ariths)
  have "own (PGROUNDDOWN (a + (j + k))) = Other" if "unat k < n - unat j" for k
  proof -
    have "unat (j + k) < n" using that assms by (simp add: kbuf_def unat_word_ariths)
    then show ?thesis using assms(1) by (simp add: kbuf_def)
  qed
  then show ?thesis using assms j by (simp add: kbuf_def add.assoc)
qed

text \<open>The part of a buffer of \<open>len\<close> bytes that lies in the page of its address.\<close>

definition chunk :: "addr \<Rightarrow> addr \<Rightarrow> addr" where
  "chunk va len = min (PGSIZE - (va - PGROUNDDOWN va)) len"

lemma unat_chunk: "unat (chunk va len) = min (4096 - unat (va - PGROUNDDOWN va)) (unat len)"
proof -
  have "unat (PGSIZE - (va - PGROUNDDOWN va)) = 4096 - unat (va - PGROUNDDOWN va)"
    using offset_less [of va] by (subst unat_sub) (simp_all add: word_le_nat_alt)
  then show ?thesis by (auto simp: chunk_def min_def word_le_nat_alt)
qed

lemma chunk_room: "unat (va - PGROUNDDOWN va) + unat (chunk va len) \<le> 4096" "chunk va len \<le> len"
  using offset_less [of va] by (auto simp: unat_chunk word_le_nat_alt)

lemma unat_rest: "unat (len - chunk va len) = unat len - unat (chunk va len)"
  by (rule unat_sub) (rule chunk_room)

lemma chunk_next: "len - chunk va len \<noteq> 0 \<Longrightarrow> PGROUNDDOWN va + PGSIZE = va + chunk va len"
  by (auto simp: chunk_def min_def split: if_splits)

lemma chunk_set: "{x. unat (x - va) < unat (chunk va len)} \<subseteq> {x. unat (x - va) < unat len}"
  using chunk_room(2) [of va len] by (auto simp: word_le_nat_alt)

lemma rest_set:
  "{x. unat (x - (PGROUNDDOWN va + PGSIZE)) < unat (len - chunk va len)} \<subseteq> {x. unat (x - va) < unat len}"
proof (cases "len - chunk va len = 0")
  case False
  have "unat (x - va) < unat len" if "unat (x - (va + chunk va len)) < unat len - unat (chunk va len)" for x
  proof -
    define y where "y = x - (va + chunk va len)"
    have y: "x - va = y + chunk va len" "unat y + unat (chunk va len) < unat len" using that by (simp_all add: y_def)
    have "unat len < 2 ^ LENGTH(64)" by (rule unsigned_less)
    then have "unat (y + chunk va len) = unat y + unat (chunk va len)" using y(2) by (simp add: unat_word_ariths)
    then show ?thesis using y by simp
  qed
  then show ?thesis using chunk_next [OF False] by (auto simp: unat_rest)
qed simp

text \<open>The bytes of the first chunk are not among the rest.\<close>

lemma chunk_not_rest:
  assumes "unat k < unat (chunk va len)"
  shows "\<not> unat (va + k - (PGROUNDDOWN va + PGSIZE)) < unat (len - chunk va len)"
proof (cases "len - chunk va len = 0")
  case False
  have c: "k < chunk va len" using assms by (simp add: word_less_nat_alt)
  have "va + k - (va + chunk va len) = k - chunk va len" by simp
  moreover have "unat (k - chunk va len) = 2 ^ 64 + unat k - unat (chunk va len)" using c by (simp add: unat_sub_if' word_less_nat_alt)
  moreover have "unat len < 2 ^ LENGTH(64)" by (rule unsigned_less)
  ultimately show ?thesis unfolding chunk_next [OF False] unat_rest by simp
qed simp

lemma chunk_page: "unat k < unat (chunk va len) \<Longrightarrow> PGROUNDDOWN (va + k) = PGROUNDDOWN va"
proof -
  assume "unat k < unat (chunk va len)"
  then have "unat (va - PGROUNDDOWN va) + unat k < 4096" unfolding unat_chunk by linarith
  then have "unat (va - PGROUNDDOWN va + k) < 4096" by (simp add: unat_word_ariths)
  from PGROUNDDOWN_in_page [OF aligned_PGROUNDDOWN [of va] this] show ?thesis by simp
qed

lemma page_MAXVA: "PGROUNDDOWN x < MAXVA \<Longrightarrow> x < MAXVA"
proof -
  assume "PGROUNDDOWN x < MAXVA"
  moreover have "aligned MAXVA" by (simp add: aligned_unat MAXVA_def)
  ultimately have "unat (PGROUNDDOWN x) + 4096 \<le> unat MAXVA" by (intro next_le) simp_all
  moreover have "unat x = unat (PGROUNDDOWN x) + unat (x - PGROUNDDOWN x)"
    using unat_in_page [OF aligned_PGROUNDDOWN offset_less, of x x] by simp
  ultimately show ?thesis using offset_less [of x] by (simp add: word_less_nat_alt)
qed

declare copyout.simps [simp del] copyin.simps [simp del] copyinstr.simps [simp del]

lemma copyout_step:
  assumes "0 < len" "PGROUNDDOWN dstva < MAXVA" "user_page r psz (PGROUNDDOWN dstva) s = Some (pa, s1)" "pa \<noteq> 0"
    "walk r (PGROUNDDOWN dstva) False s1 = Some (pte, s1)" "read64 (mem s1) pte AND PTE_W \<noteq> 0"
  shows "copyout r psz dstva src len s =
    copyout r psz (PGROUNDDOWN dstva + PGSIZE) (src + chunk dstva len) (len - chunk dstva len)
      (s1\<lparr>mem := memmove (mem s1) (pa + (dstva - PGROUNDDOWN dstva)) src (unat (chunk dstva len))\<rparr>)"
proof -
  have "\<not> MAXVA \<le> PGROUNDDOWN dstva" using assms(2) by (simp add: not_le)
  then show ?thesis using assms unfolding chunk_def by (subst copyout.simps) (simp add: Let_def)
qed

text \<open>An address and the start of its page have the same entry.\<close>

lemma same_page: "PGROUNDDOWN a = PGROUNDDOWN b \<Longrightarrow> vpath a = vpath b \<and> pte_of m r a = pte_of m r b"
proof -
  assume "PGROUNDDOWN a = PGROUNDDOWN b"
  then have "PX l a = PX l b" for l using PX_PGROUNDDOWN by metis
  then show ?thesis by (simp add: vpath_def pte_of_def)
qed

lemma chunk_uok: "unat k < unat (chunk va len) \<Longrightarrow> uok m r (PGROUNDDOWN va) \<Longrightarrow> uok m r (va + k)"
  using chunk_page [of k va len] same_page [of "va + k" "PGROUNDDOWN va" m r] page_MAXVA [of "va + k"] by (simp add: uok_def)

lemma uok_round: "uok m r (PGROUNDDOWN va) \<longleftrightarrow> uok m r va"
proof -
  have "PGROUNDDOWN va \<le> va" by (simp add: word_le_nat_alt unat_PGROUNDDOWN)
  then show ?thesis using same_page [of va "PGROUNDDOWN va" m r] page_MAXVA [of va] by (auto simp: uok_def)
qed

lemma uok_keep:
  assumes "touchk own R s own' s' r A B" "uok (mem s) r va" shows "uok (mem s') r va"
proof -
  have "uval (mem s) r va \<noteq> None" "va < MAXVA" using assms(2) by (auto simp: uok_def uval_None)
  then have "pte_of (mem s') r va = pte_of (mem s) r va" using assms(1) unfolding touchk_def by blast
  then show ?thesis using assms(2) by (simp add: uok_def)
qed

lemma uok_user: "sealed m r \<Longrightarrow> uok m r va \<Longrightarrow> \<not> special (vpath va) \<and> va < MAXVA \<and> uval m r va \<noteq> None"
  by (auto simp: uok_def sealed_def uval_None)

lemma out_chunk:
  assumes v: "vinv own R s" and r: "r \<in> R" and b: "kbuf own src (unat len)"
    and u: "touch own R s own1 s1 r {}" "PGROUNDDOWN dstva < MAXVA" "node (mem s1) r (vpath (PGROUNDDOWN dstva)) = Some pa"
      "own1 pa = Page r (vpath (PGROUNDDOWN dstva))" "page_ok (kend s) pa" "uok (mem s1) r (PGROUNDDOWN dstva)"
  defines "s2 \<equiv> s1\<lparr>mem := memmove (mem s1) (pa + (dstva - PGROUNDDOWN dstva)) src (unat (chunk dstva len))\<rparr>"
  shows "touch own R s own1 s2 r {va. unat (va - dstva) < unat (chunk dstva len)}"
    and "unat k < unat (chunk dstva len) \<Longrightarrow> uval (mem s2) r (dstva + k) = Some (mem s (src + k)) \<and> uok (mem s2) r (dstva + k)"
proof -
  let ?va = "PGROUNDDOWN dstva" and ?n = "chunk dstva len"
  have n: "unat ?n \<le> unat len" using chunk_room(2) [of dstva len] by (simp add: word_le_nat_alt)
  have v1: "vinv own1 R s1" by (rule touchD(1) [OF u(1)])
  have "unat (pa + (dstva - ?va)) = unat pa + unat (dstva - ?va)" using u(5) offset_less by (intro unat_in_page) (auto dest: page_okD)
  then have m2: "mem s2 = blit (mem s1) (pa + (dstva - ?va)) (unat ?n) (\<lambda>k. mem s1 (src + k))"
    unfolding s2_def using b n chunk_room(1) [of dstva len] aligned_room [OF page_okD [OF u(5)]]
    by (simp, intro memmove_blit) (auto simp: kbuf_def)
  have s2: "s2 = s1\<lparr>mem := mem s2\<rparr>" by (simp add: s2_def)
  have w2: "touch own1 R s1 own1 s2 r {va. unat (va - dstva) < unat ?n}"
    and val: "\<And>k. unat k < unat ?n \<Longrightarrow> uval (mem s2) r (dstva + k) = Some (mem s1 (src + k))"
    using user_write [OF v1 r u(2-4) chunk_room(1) [of dstva len], where f = "\<lambda>k. mem s1 (src + k)", folded m2] s2
    by simp_all
  show "touch own R s own1 s2 r {va. unat (va - dstva) < unat ?n}"
    by (rule touch_mono [OF touch_trans [OF u(1) w2]]) simp_all
  show "uval (mem s2) r (dstva + k) = Some (mem s (src + k)) \<and> uok (mem s2) r (dstva + k)" if "unat k < unat ?n"
    using val [OF that] touchD(3) [OF u(1), of "src + k"] b n that uok_keep [OF w2 chunk_uok [OF that u(6)]] by (auto simp: kbuf_def)
qed

text \<open>\<open>moved m s r dstva src len m'\<close>: the bytes at \<open>src\<close> in \<open>m\<close> are the user bytes at \<open>dstva\<close> in \<open>m'\<close>.\<close>

definition moved :: "memory \<Rightarrow> addr \<Rightarrow> addr \<Rightarrow> addr \<Rightarrow> addr \<Rightarrow> memory \<Rightarrow> bool" where
  "moved m r dstva src len m' \<longleftrightarrow>
     (\<forall>k. unat k < unat len \<longrightarrow> uval m' r (dstva + k) = Some (m (src + k)) \<and> uok m' r (dstva + k))"

lemma moved_join:
  assumes t: "touch own R s own2 s2 r {va. unat (va - dstva) < unat (chunk dstva len)}" and b: "kbuf own src (unat len)"
    and c: "\<And>k. unat k < unat (chunk dstva len) \<Longrightarrow> uval (mem s2) r (dstva + k) = Some (mem s (src + k)) \<and> uok (mem s2) r (dstva + k)"
    and t3: "touch own2 R s2 own3 s3 r {va. unat (va - (PGROUNDDOWN dstva + PGSIZE)) < unat (len - chunk dstva len)}"
    and m: "moved (mem s2) r (PGROUNDDOWN dstva + PGSIZE) (src + chunk dstva len) (len - chunk dstva len) (mem s3)"
    and sl: "sealed (mem s2) r"
  shows "moved (mem s) r dstva src len (mem s3)"
  unfolding moved_def
proof (intro allI impI)
  fix k :: addr assume k: "unat k < unat len"
  let ?n = "chunk dstva len"
  show "uval (mem s3) r (dstva + k) = Some (mem s (src + k)) \<and> uok (mem s3) r (dstva + k)"
  proof (cases "unat k < unat ?n")
    case True
    have "uok (mem s2) r (dstva + k)" using c [OF True] by blast
    then show ?thesis
      using touch_uval [OF t3, of "dstva + k"] uok_user [OF sl] uok_keep [OF t3] c [OF True] chunk_not_rest [OF True] by auto
  next
    case False
    then have k': "unat (k - ?n) < unat (len - ?n)" "len - ?n \<noteq> 0"
      using k by (auto simp: unat_sub_if' unat_rest not_less word_le_nat_alt)
    have e: "PGROUNDDOWN dstva + PGSIZE + (k - ?n) = dstva + k" "src + ?n + (k - ?n) = src + k"
      unfolding chunk_next [OF k'(2)] by simp_all
    have "mem s2 (src + k) = mem s (src + k)" using touchD(3) [OF t] b k by (simp add: kbuf_def)
    then show ?thesis using m k'(1) e unfolding moved_def by metis
  qed
qed

lemma copyout_ok:
  assumes "vinv own R s" "r \<in> R" "psz \<le> TRAPFRAME" "sealed (mem s) r" "kbuf own src (unat len)"
  shows "\<exists>own' rc s'. copyout r psz dstva src len s = Some (rc, s') \<and> (rc = 0 \<or> rc = - 1) \<and>
    touch own R s own' s' r {va. unat (va - dstva) < unat len} \<and> (rc = 0 \<longrightarrow> moved (mem s) r dstva src len (mem s'))"
  using assms
proof (induction "unat len" arbitrary: own dstva src len s rule: less_induct)
  case (less len)
  note v = less.prems(1) and r = less.prems(2)
  let ?va = "PGROUNDDOWN dstva" and ?A = "{va. unat (va - dstva) < unat len}" and ?n = "chunk dstva len"
  have err: "?case" if "copyout r psz dstva src len s = Some (- 1, s')" "touch own R s own' s' r {}" for own' s'
    using that touch_mono [OF that(2), of ?A "{}"] by auto
  show ?case
  proof (cases "len = 0 \<or> MAXVA \<le> ?va")
    case True
    show ?thesis
    proof (cases "len = 0")
      case False
      then have "copyout r psz dstva src len s = Some (- 1, s)" using True by (subst copyout.simps) (auto simp: word_neq_0_conv Let_def)
      then show ?thesis using err touch_refl [OF v] by blast
    qed (use touch_refl [OF v] in \<open>auto simp: copyout.simps moved_def\<close>)
  next
    case False
    then have len: "0 < len" "?va < MAXVA" by (auto simp: word_neq_0_conv)
    show ?thesis
    proof (rule user_page_cases [OF v r less.prems(3) aligned_PGROUNDDOWN less.prems(4), of dstva])
      fix own' s' assume u: "user_page r psz ?va s = Some (0, s')" "touch own R s own' s' r {}"
      then have "copyout r psz dstva src len s = Some (- 1, s')" using len by (subst copyout.simps) (simp add: Let_def not_le)
      then show ?thesis using err u(2) by blast
    next
      fix own1 s1 pa
      assume u: "user_page r psz ?va s = Some (pa, s1)" "pa \<noteq> 0" "touch own R s own1 s1 r {}" "?va < MAXVA"
        "node (mem s1) r (vpath ?va) = Some pa" "own1 pa = Page r (vpath ?va)" "page_ok (kend s) pa" "uok (mem s1) r ?va"
      obtain pte where w: "walk r ?va False s1 = Some (pte, s1)" using walk_False [OF touchD(1) [OF u(3)] r len(2)] by metis
      show ?thesis
      proof (cases "read64 (mem s1) pte AND PTE_W = 0")
        case True
        then have "copyout r psz dstva src len s = Some (- 1, s1)" using len u w by (subst copyout.simps) (simp add: Let_def not_le)
        then show ?thesis using err u(3) by blast
      next
        case False
        define s2 where "s2 = s1\<lparr>mem := memmove (mem s1) (pa + (dstva - ?va)) src (unat ?n)\<rparr>"
        note c = out_chunk [OF v r less.prems(5) u(3-8), folded s2_def]
        have "sealed (mem s2) r" by (rule touch_sealed [OF c(1) less.prems(4)])
        moreover have "kbuf own1 (src + ?n) (unat (len - ?n))"
          using kbuf_tail [OF kbuf_ext [OF less.prems(5) touchD(2) [OF c(1)]], of ?n] chunk_room(2) [of dstva len]
          by (simp add: unat_rest word_le_nat_alt)
        moreover have "unat (len - ?n) < unat len" using chunk_pos [OF len(1)] by (simp add: chunk_def)
        ultimately obtain own3 rc s3 where ih:
          "copyout r psz (?va + PGSIZE) (src + ?n) (len - ?n) s2 = Some (rc, s3)" "rc = 0 \<or> rc = - 1"
          "touch own1 R s2 own3 s3 r {va. unat (va - (?va + PGSIZE)) < unat (len - ?n)}"
          "rc = 0 \<longrightarrow> moved (mem s2) r (?va + PGSIZE) (src + ?n) (len - ?n) (mem s3)"
          using less.hyps [of "len - ?n" own1 s2 "src + ?n" "?va + PGSIZE"] touchD(1) [OF c(1)] r less.prems(3) by blast
        have "copyout r psz dstva src len s = Some (rc, s3)"
          using copyout_step [OF len(1,2) u(1,2) w False] ih(1) by (simp add: s2_def)
        moreover have "touch own R s own3 s3 r ?A"
          by (rule touch_mono [OF touch_trans [OF c(1) ih(3)]]) (use chunk_set [of dstva len] rest_set [of dstva len] in simp_all)
        moreover have "rc = 0 \<longrightarrow> moved (mem s) r dstva src len (mem s3)"
          using moved_join [OF c(1) less.prems(5) c(2) ih(3)] ih(4) \<open>sealed (mem s2) r\<close> by blast
        ultimately show ?thesis using ih(2) by blast
      qed
    qed
  qed
qed

section \<open>\<^verbatim>\<open>copyin\<close>\<close>

lemma kernel_write:
  fixes f :: "addr \<Rightarrow> 8 word"
  assumes v: "vinv own R s" and r: "r \<in> R" and b: "kbuf own dst n"
  shows "touchk own R s own (s\<lparr>mem := blit (mem s) dst n f\<rparr>) r {} {x. unat (x - dst) < n}"
    and "\<And>r' va. r' \<in> R \<Longrightarrow> va < MAXVA \<Longrightarrow> \<not> special (vpath va) \<Longrightarrow> uval (blit (mem s) dst n f) r' va = uval (mem s) r' va"
proof -
  let ?m = "blit (mem s) dst n f"
  have fr: "?m x = mem s x" if "own (PGROUNDDOWN x) \<noteq> Other" for x
    using b that unfolding kbuf_def blit_def by (metis add.commute diff_add_cancel)
  have v': "vinv own R (s\<lparr>mem := ?m\<rparr>)" and pte: "\<And>r va. r \<in> R \<Longrightarrow> pte_of ?m r va = pte_of (mem s) r va"
    using vinv_data [OF v, of ?m] fr by force+
  show uv: "uval ?m r' va = uval (mem s) r' va" if "r' \<in> R" "va < MAXVA" "\<not> special (vpath va)" for r' va
  proof -
    have nd: "node ?m r' (vpath va) = node (mem s) r' (vpath va)" using pte [OF that(1)] by (simp add: node_vpath)
    have "?m (a + (va - PGROUNDDOWN va)) = mem s (a + (va - PGROUNDDOWN va))" if a: "node (mem s) r' (vpath va) = Some a" for a
      using node_leaf_own [OF v \<open>r' \<in> R\<close> \<open>va < MAXVA\<close> a] \<open>\<not> special (vpath va)\<close> offset_less [of va] by (intro fr) (auto simp: leaf_ok_def)
    then show ?thesis unfolding uval_def nd by (auto split: option.splits)
  qed
  show "touchk own R s own (s\<lparr>mem := ?m\<rparr>) r {} {x. unat (x - dst) < n}"
    using v' uv pte r by (simp add: touchk_def blit_def)
qed

text \<open>\<open>fetched m r srcva dst len\<close>: the kernel bytes at \<open>dst\<close> are the user bytes at \<open>srcva\<close>.\<close>

definition fetched :: "memory \<Rightarrow> addr \<Rightarrow> addr \<Rightarrow> addr \<Rightarrow> addr \<Rightarrow> bool" where
  "fetched m r srcva dst len \<longleftrightarrow> (\<forall>k. unat k < unat len \<longrightarrow> uval m r (srcva + k) = Some (m (dst + k)) \<and> uok m r (srcva + k))"

abbreviation kdst :: "addr \<Rightarrow> addr \<Rightarrow> addr set" where
  "kdst dst len \<equiv> {x. unat (x - dst) < unat len}"

lemma in_chunk:
  assumes v: "vinv own R s" and r: "r \<in> R" and b: "kbuf own dst (unat len)" and sl: "sealed (mem s) r"
    and u: "touch own R s own1 s1 r {}" "PGROUNDDOWN srcva < MAXVA" "node (mem s1) r (vpath (PGROUNDDOWN srcva)) = Some pa"
      "own1 pa = Page r (vpath (PGROUNDDOWN srcva))" "page_ok (kend s) pa" "uok (mem s1) r (PGROUNDDOWN srcva)"
  defines "s2 \<equiv> s1\<lparr>mem := memmove (mem s1) dst (pa + (srcva - PGROUNDDOWN srcva)) (unat (chunk srcva len))\<rparr>"
  shows "touchk own R s own1 s2 r {} (kdst dst (chunk srcva len))" and "fetched (mem s2) r srcva dst (chunk srcva len)"
proof -
  let ?va = "PGROUNDDOWN srcva" and ?n = "chunk srcva len"
  have n: "unat ?n \<le> unat len" using chunk_room(2) [of srcva len] by (simp add: word_le_nat_alt)
  have v1: "vinv own1 R s1" by (rule touchD(1) [OF u(1)])
  have b1: "kbuf own1 dst (unat ?n)" using kbuf_ext [OF b touchD(2) [OF u(1)]] n by (auto simp: kbuf_def)
  have "unat (pa + (srcva - ?va)) = unat pa + unat (srcva - ?va)" using u(5) offset_less by (intro unat_in_page) (auto dest: page_okD)
  moreover have "unat pa < 0x88000000" using u(5) by (simp add: page_ok_def word_less_nat_alt)
  ultimately have m2: "mem s2 = blit (mem s1) dst (unat ?n) (\<lambda>k. mem s1 (pa + (srcva - ?va) + k))"
    unfolding s2_def using b n chunk_room(1) [of srcva len] by (simp, intro memmove_blit) (auto simp: kbuf_def)
  have s2: "s2 = s1\<lparr>mem := mem s2\<rparr>" by (simp add: s2_def)
  have w2: "touchk own1 R s1 own1 s2 r {} (kdst dst ?n)"
    and uv: "\<And>va. va < MAXVA \<Longrightarrow> \<not> special (vpath va) \<Longrightarrow> uval (mem s2) r va = uval (mem s1) r va"
    using kernel_write [OF v1 r b1, where f = "\<lambda>k. mem s1 (pa + (srcva - ?va) + k)", folded m2] s2 r by simp_all
  show "touchk own R s own1 s2 r {} (kdst dst ?n)" by (rule touch_mono [OF touch_trans [OF u(1) w2]]) simp_all
  show "fetched (mem s2) r srcva dst ?n"
    unfolding fetched_def
  proof (intro allI impI conjI)
    fix k :: addr assume k: "unat k < unat ?n"
    have ok: "uok (mem s1) r (srcva + k)" by (rule chunk_uok [OF k u(6)])
    then show "uok (mem s2) r (srcva + k)" by (rule uok_keep [OF w2])
    have "vpath (srcva + k) = vpath ?va" using same_page [of "srcva + k" ?va] chunk_page [OF k] by simp
    then have "uval (mem s1) r (srcva + k) = Some (mem s1 (pa + (srcva + k - ?va)))" using u(3) chunk_page [OF k] by (simp add: uval_def)
    moreover have "mem s2 (dst + k) = mem s1 (pa + (srcva + k - ?va))" using k by (simp add: m2 blit_def algebra_simps)
    ultimately show "uval (mem s2) r (srcva + k) = Some (mem s2 (dst + k))"
      using uv [of "srcva + k"] uok_user [OF touch_sealed [OF u(1) sl] ok] by simp
  qed
qed

lemma fetched_join:
  assumes f: "fetched (mem s2) r srcva dst (chunk srcva len)" and b: "kbuf own dst (unat len)" and sl: "sealed (mem s2) r"
    and t3: "touchk own R s2 own3 s3 r {} (kdst (dst + chunk srcva len) (len - chunk srcva len))"
    and m: "fetched (mem s3) r (PGROUNDDOWN srcva + PGSIZE) (dst + chunk srcva len) (len - chunk srcva len)"
  shows "fetched (mem s3) r srcva dst len"
  unfolding fetched_def
proof (intro allI impI)
  fix k :: addr assume k: "unat k < unat len"
  let ?n = "chunk srcva len"
  show "uval (mem s3) r (srcva + k) = Some (mem s3 (dst + k)) \<and> uok (mem s3) r (srcva + k)"
  proof (cases "unat k < unat ?n")
    case True
    have ok: "uok (mem s2) r (srcva + k)" "uval (mem s2) r (srcva + k) = Some (mem s2 (dst + k))" using f True by (auto simp: fetched_def)
    have "dst + k \<notin> kdst (dst + ?n) (len - ?n)"
    proof -
      have "unat (dst + k - (dst + ?n)) = 2 ^ 64 + unat k - unat ?n" using True by (simp add: unat_sub_if' not_le)
      moreover have "unat len < 2 ^ LENGTH(64)" by (rule unsigned_less)
      ultimately show ?thesis by (simp add: unat_rest)
    qed
    then have "mem s3 (dst + k) = mem s2 (dst + k)" using touchD(3) [OF t3, of "dst + k"] b k by (simp add: kbuf_def)
    then show ?thesis using touch_uval [OF t3, of "srcva + k"] uok_user [OF sl ok(1)] uok_keep [OF t3 ok(1)] ok(2) by auto
  next
    case False
    then have k': "unat (k - ?n) < unat (len - ?n)" "len - ?n \<noteq> 0"
      using k by (auto simp: unat_sub_if' unat_rest not_less word_le_nat_alt)
    have e: "PGROUNDDOWN srcva + PGSIZE + (k - ?n) = srcva + k" "dst + ?n + (k - ?n) = dst + k"
      unfolding chunk_next [OF k'(2)] by simp_all
    then show ?thesis using m k'(1) unfolding fetched_def by metis
  qed
qed

lemma kdst_split: "kdst dst (chunk va len) \<union> kdst (dst + chunk va len) (len - chunk va len) \<subseteq> kdst dst len"
proof -
  have "unat (x - dst) < unat len" if "unat (x - (dst + chunk va len)) < unat len - unat (chunk va len)" for x
  proof -
    define y where "y = x - (dst + chunk va len)"
    have y: "x - dst = y + chunk va len" "unat y + unat (chunk va len) < unat len" using that by (simp_all add: y_def)
    have "unat len < 2 ^ LENGTH(64)" by (rule unsigned_less)
    then have "unat (y + chunk va len) = unat y + unat (chunk va len)" using y(2) by (simp add: unat_word_ariths)
    then show ?thesis using y by simp
  qed
  then show ?thesis using chunk_room(2) [of va len] by (auto simp: unat_rest word_le_nat_alt)
qed

lemma copyin_step:
  assumes "0 < len" "user_page r psz (PGROUNDDOWN srcva) s = Some (pa, s1)" "pa \<noteq> 0"
  shows "copyin r psz dst srcva len s =
    copyin r psz (dst + chunk srcva len) (PGROUNDDOWN srcva + PGSIZE) (len - chunk srcva len)
      (s1\<lparr>mem := memmove (mem s1) dst (pa + (srcva - PGROUNDDOWN srcva)) (unat (chunk srcva len))\<rparr>)"
  using assms unfolding chunk_def by (subst copyin.simps) (simp add: Let_def)

text \<open>Mapped and accessible source bytes make \<^verbatim>\<open>copyin\<close> succeed.\<close>

lemma copyin_ok:
  assumes "vinv own R s" "r \<in> R" "psz \<le> TRAPFRAME" "sealed (mem s) r" "kbuf own dst (unat len)"
  shows "\<exists>own' rc s'. copyin r psz dst srcva len s = Some (rc, s') \<and> (rc = 0 \<or> rc = - 1) \<and>
    touchk own R s own' s' r {} (kdst dst len) \<and> (rc = 0 \<longrightarrow> fetched (mem s') r srcva dst len) \<and>
    ((\<forall>k. unat k < unat len \<longrightarrow> uok (mem s) r (srcva + k)) \<longrightarrow> rc = 0)"
  using assms
proof (induction "unat len" arbitrary: own dst srcva len s rule: less_induct)
  case (less len)
  note v = less.prems(1) and r = less.prems(2)
  let ?va = "PGROUNDDOWN srcva" and ?n = "chunk srcva len"
  show ?case
  proof (cases "len = 0")
    case True
    then show ?thesis using touch_refl [OF v] by (auto simp: copyin.simps fetched_def)
  next
    case False
    then have len: "0 < len" by (simp add: word_neq_0_conv)
    show ?thesis
    proof (rule user_page_cases [OF v r less.prems(3) aligned_PGROUNDDOWN less.prems(4), of srcva])
      fix own' s' assume u: "user_page r psz ?va s = Some (0, s')" "touch own R s own' s' r {}" "\<not> uok (mem s) r ?va"
      then have "copyin r psz dst srcva len s = Some (- 1, s')" using len by (subst copyin.simps) (simp add: Let_def)
      moreover have "\<not> (\<forall>k. unat k < unat len \<longrightarrow> uok (mem s) r (srcva + k))"
        using u(3) uok_round len by (metis add.right_neutral unat_0 word_less_nat_alt)
      ultimately show ?thesis using touch_mono [OF u(2), of "{}" "kdst dst len"] by auto
    next
      fix own1 s1 pa
      assume u: "user_page r psz ?va s = Some (pa, s1)" "pa \<noteq> 0" "touch own R s own1 s1 r {}" "?va < MAXVA"
        "node (mem s1) r (vpath ?va) = Some pa" "own1 pa = Page r (vpath ?va)" "page_ok (kend s) pa" "uok (mem s1) r ?va"
      define s2 where "s2 = s1\<lparr>mem := memmove (mem s1) dst (pa + (srcva - ?va)) (unat ?n)\<rparr>"
      note c = in_chunk [OF v r less.prems(5,4) u(3-8), folded s2_def]
      have sl: "sealed (mem s2) r" by (rule touch_sealed [OF c(1) less.prems(4)])
      have b: "kbuf own1 dst (unat len)" by (rule kbuf_ext [OF less.prems(5) touchD(2) [OF c(1)]])
      have "kbuf own1 (dst + ?n) (unat (len - ?n))"
        using kbuf_tail [OF b, of ?n] chunk_room(2) [of srcva len] by (simp add: unat_rest word_le_nat_alt)
      moreover have "unat (len - ?n) < unat len" using chunk_pos [OF len] by (simp add: chunk_def)
      ultimately obtain own3 rc s3 where ih:
        "copyin r psz (dst + ?n) (?va + PGSIZE) (len - ?n) s2 = Some (rc, s3)" "rc = 0 \<or> rc = - 1"
        "touchk own1 R s2 own3 s3 r {} (kdst (dst + ?n) (len - ?n))"
        "rc = 0 \<longrightarrow> fetched (mem s3) r (?va + PGSIZE) (dst + ?n) (len - ?n)"
        "(\<forall>k. unat k < unat (len - ?n) \<longrightarrow> uok (mem s2) r (?va + PGSIZE + k)) \<longrightarrow> rc = 0"
        using less.hyps [of "len - ?n" own1 s2 "dst + ?n" "?va + PGSIZE"] touchD(1) [OF c(1)] r less.prems(3) sl by blast
      have "copyin r psz dst srcva len s = Some (rc, s3)" using copyin_step [OF len u(1,2)] ih(1) by (simp add: s2_def)
      moreover have "touchk own R s own3 s3 r {} (kdst dst len)"
        by (rule touch_mono [OF touch_trans [OF c(1) ih(3)]]) (use kdst_split [of dst srcva len] in simp_all)
      moreover have "rc = 0 \<longrightarrow> fetched (mem s3) r srcva dst len" using fetched_join [OF c(2) b sl ih(3)] ih(4) by blast
      moreover have "rc = 0" if all: "\<forall>k. unat k < unat len \<longrightarrow> uok (mem s) r (srcva + k)"
      proof (rule ih(5) [rule_format])
        fix k :: addr assume k: "unat k < unat (len - ?n)"
        then have "len - ?n \<noteq> 0" "unat (?n + k) < unat len" by (auto simp: unat_rest unat_word_ariths)
        then show "uok (mem s2) r (?va + PGSIZE + k)" using all uok_keep [OF c(1)] by (simp add: chunk_next add.assoc)
      qed
      ultimately show ?thesis using ih(2) by blast
    qed
  qed
qed

end
