(* ===== verification/Vm_Props.thy ===== *)
theory Vm_Props
  imports Vm_Copy
begin

text \<open>
  Properties of the virtual memory system, stated without the ghost owners: \<open>vm_ok R K s\<close> holds
  when the page tables with roots \<open>R\<close> are well formed and disjoint, and the pages in \<open>K\<close> belong to
  the kernel.
\<close>

definition vm_ok :: "addr set \<Rightarrow> addr set \<Rightarrow> 'a kmem_scheme \<Rightarrow> bool" where
  "vm_ok R K s \<longleftrightarrow> (\<exists>own. vinv own R s \<and> (\<forall>a \<in> K. own a = Other) \<and> (\<forall>r \<in> R. sealed (mem s) r))"

text \<open>\<open>buffer K a n\<close>: \<open>n\<close> bytes from \<open>a\<close> on in pages of \<open>K\<close>.\<close>

definition buffer :: "addr set \<Rightarrow> addr \<Rightarrow> nat \<Rightarrow> bool" where
  "buffer K a n \<longleftrightarrow> unat a + n < 2 ^ 64 \<and> (\<forall>k. unat k < n \<longrightarrow> PGROUNDDOWN (a + k) \<in> K)"

lemma buffer_kbuf: "buffer K a n \<Longrightarrow> (\<forall>b \<in> K. own b = Other) \<Longrightarrow> kbuf own a n"
  by (auto simp: buffer_def kbuf_def)

section \<open>Building address spaces\<close>

lemma vm_ok_boot:
  assumes "0 < kend s" "kend s \<le> PHYSTOP"
  obtains s0 where "kinit s = Some s0" "vm_ok {} {a. a < kend s} s0" "kend s0 = kend s"
proof -
  obtain s0 ps where s0: "kinit s = Some s0" "kinv s0 ps" "set ps = {p. page_ok (kend s) p}" "kend s0 = kend s"
    using kinit_ok [OF assms] .
  let ?own = "\<lambda>a. if page_ok (kend s) a then Free else Other"
  have "vinv ?own {} s0" unfolding vinv_def by (rule conjI, rule exI [of _ ps]) (use s0 in auto)
  moreover have "\<forall>a \<in> {a. a < kend s}. ?own a = Other" by (auto simp: page_ok_def)
  ultimately have "vm_ok {} {a. a < kend s} s0" unfolding vm_ok_def by blast
  then show thesis using that s0 by blast
qed

text \<open>A new page table maps nothing, and differs from all others.\<close>

lemma uvmcreate_vinv:
  assumes v: "vinv own R s" and c: "uvmcreate s = (r, s')" "r \<noteq> 0"
  shows "vinv (own(r := Table r [])) (insert r R) s'" "r \<notin> R" "own r = Free"
    "\<And>va. pte_of (mem s') r va = 0" "\<And>r' va. r' \<in> R \<Longrightarrow> pte_of (mem s') r' va = pte_of (mem s) r' va"
    "\<And>x. PGROUNDDOWN x \<noteq> r \<Longrightarrow> mem s' x = mem s x" "page_ok (kend s) r"
proof -
  obtain s1 where al: "kalloc s = (r, s1)" and s': "s' = s1\<lparr>mem := memset (mem s1) r 0 4096\<rparr>"
    using c by (auto simp: uvmcreate_def split: prod.splits if_splits)
  have "page_ok (kend s) r" using take_page(3) [OF v al c(2), of Other "mem s1"] by simp
  then have a: "aligned r" by (rule page_okD)
  have m: "memset (mem s1) r 0 4096 x = mem s1 x" if "PGROUNDDOWN x \<noteq> r" for x using that a by (simp add: memset_page)
  note t = take_page [OF v al c(2), of "Table r []" "memset (mem s1) r 0 4096", OF _ m]
  have z: "ent (mem s') r i = 0" if "unat i < 512" for i using ent_memset0 [OF a that] by (simp add: s')
  show "r \<notin> R"
  proof
    assume "r \<in> R"
    then have "own r = Table r []" using v tree_table [of own "kend s" "mem s" r "[]" r] by (auto simp: vinv_def)
    then show False using t(2) by simp
  qed
  have "node (mem s') r p = (if p = [] then Some r else None)" if "idx p" for p using that z by (cases p) auto
  then have "tree_ok (own(r := Table r [])) (kend s') (mem s') r" using t(3,4) by (auto simp: tree_ok_def s' split: if_splits)
  then show "vinv (own(r := Table r [])) (insert r R) s'" using t(1) by (simp add: vinv_def s')
  show "own r = Free" "page_ok (kend s) r" using t(2,3) by simp_all
  show "pte_of (mem s') r va = 0" for va using z [of "PX 2 va"] by (simp add: pte_of_def)
  show "pte_of (mem s') r' va = pte_of (mem s) r' va" if "r' \<in> R" for r' va using t(6) that by (simp add: s')
  show "mem s' x = mem s x" if "PGROUNDDOWN x \<noteq> r" for x using t(5) that by (simp add: s')
qed

lemma uvmcreate_ok:
  assumes "vm_ok R K s" "uvmcreate s = (r, s')" "r \<noteq> 0"
  shows "vm_ok (insert r R) K s'" "r \<notin> R" "\<And>va. uval (mem s') r va = None"
proof -
  obtain own where o: "vinv own R s" "\<forall>a \<in> K. own a = Other" "\<forall>r \<in> R. sealed (mem s) r" using assms(1) by (auto simp: vm_ok_def)
  note u = uvmcreate_vinv [OF o(1) assms(2,3)]
  have "\<forall>a \<in> K. (own(r := Table r [])) a = Other" using o(2) u(3) by auto
  moreover have "\<forall>r' \<in> insert r R. sealed (mem s') r'" using o(3) u(4,5) by (auto simp: sealed_def)
  ultimately show "vm_ok (insert r R) K s'" using u(1) unfolding vm_ok_def by blast
  show "r \<notin> R" by (rule u(2))
  show "uval (mem s') r va = None" for va using u(4) by (simp add: uval_None)
qed

section \<open>Copying between kernel and user memory\<close>

lemma touch_vm_ok:
  assumes "touchk own R s own' s' r A B" "\<forall>a \<in> K. own a = Other" "\<forall>r \<in> R. sealed (mem s) r" "r \<in> R"
  shows "vm_ok R K s'"
proof -
  have "own' a = Other" if "a \<in> K" for a using touchD(2) [OF assms(1), of a] assms(2) that by auto
  moreover have "sealed (mem s') r'" if "r' \<in> R" for r'
  proof (cases "r' = r")
    case True
    then show ?thesis using touch_sealed [OF assms(1)] assms(3,4) by blast
  next
    case False
    then have "\<forall>va < MAXVA. pte_of (mem s') r' va = pte_of (mem s) r' va" using assms(1) that unfolding touchk_def by blast
    then show ?thesis using assms(3) that by (simp add: sealed_def)
  qed
  ultimately show ?thesis using touchD(1) [OF assms(1)] unfolding vm_ok_def by blast
qed

text \<open>
  C30. \<^verbatim>\<open>copyout\<close> of \<open>len\<close> kernel bytes to a user address never panics. It returns 0 or -1; if it
  returns 0, \<^verbatim>\<open>copyin\<close> from the same address returns 0 and delivers the same bytes, whatever page
  borders the range crosses and whichever pages were allocated on demand. Neither changes a user
  byte of another address space, nor a mapped user byte outside the range, nor a byte of the
  kernel's pages outside the destination buffer; the page tables stay well formed.
\<close>

theorem copy_roundtrip:
  assumes "vm_ok R K s" "r \<in> R" "psz \<le> TRAPFRAME" "buffer K src (unat len)" "buffer K dst (unat len)"
  shows "\<exists>rc s'. copyout r psz va src len s = Some (rc, s') \<and> (rc = 0 \<or> rc = - 1) \<and> vm_ok R K s' \<and>
    (\<forall>x. PGROUNDDOWN x \<in> K \<longrightarrow> mem s' x = mem s x) \<and>
    (\<forall>r' \<in> R. \<forall>a < MAXVA. \<not> special (vpath a) \<longrightarrow> (r' = r \<longrightarrow> \<not> unat (a - va) < unat len \<and> uval (mem s) r a \<noteq> None) \<longrightarrow>
       uval (mem s') r' a = uval (mem s) r' a) \<and>
    (rc = 0 \<longrightarrow> (\<exists>s''. copyin r psz dst va len s' = Some (0, s'') \<and> vm_ok R K s'' \<and>
       (\<forall>k. unat k < unat len \<longrightarrow> mem s'' (dst + k) = mem s (src + k)) \<and>
       (\<forall>x. PGROUNDDOWN x \<in> K \<longrightarrow> \<not> unat (x - dst) < unat len \<longrightarrow> mem s'' x = mem s x)))"
proof -
  obtain own where o: "vinv own R s" "\<forall>a \<in> K. own a = Other" "\<forall>r \<in> R. sealed (mem s) r" using assms(1) by (auto simp: vm_ok_def)
  obtain own' rc s' where c: "copyout r psz va src len s = Some (rc, s')" "rc = 0 \<or> rc = - 1"
    "touch own R s own' s' r {a. unat (a - va) < unat len}" "rc = 0 \<longrightarrow> moved (mem s) r va src len (mem s')"
    using copyout_ok [OF o(1) assms(2,3) _ buffer_kbuf [OF assms(4) o(2)]] o(3) assms(2) by blast
  have vm: "vm_ok R K s'" by (rule touch_vm_ok [OF c(3) o(2,3) assms(2)])
  have k: "mem s' x = mem s x" if "PGROUNDDOWN x \<in> K" for x using touchD(3) [OF c(3)] o(2) that by blast
  have u: "uval (mem s') r' a = uval (mem s) r' a"
    if "r' \<in> R" "a < MAXVA" "\<not> special (vpath a)" "r' = r \<longrightarrow> \<not> unat (a - va) < unat len \<and> uval (mem s) r a \<noteq> None" for r' a
  proof (cases "r' = r")
    case True
    then show ?thesis using touch_uval [OF c(3) that(2) _ that(3)] that(4) by simp
  next
    case False
    then show ?thesis using c(3) that(1-3) unfolding touchk_def by blast
  qed
  have "\<exists>s''. copyin r psz dst va len s' = Some (0, s'') \<and> vm_ok R K s'' \<and>
       (\<forall>k. unat k < unat len \<longrightarrow> mem s'' (dst + k) = mem s (src + k)) \<and>
       (\<forall>x. PGROUNDDOWN x \<in> K \<longrightarrow> \<not> unat (x - dst) < unat len \<longrightarrow> mem s'' x = mem s x)" if "rc = 0"
  proof -
    have m: "moved (mem s) r va src len (mem s')" using c(4) that by blast
    have v': "vinv own' R s'" "\<forall>a \<in> K. own' a = Other" "sealed (mem s') r"
      using touchD(1,2) [OF c(3)] o(2,3) touch_sealed [OF c(3)] assms(2) by auto
    obtain own'' s'' where i: "copyin r psz dst va len s' = Some (0, s'')" "touchk own' R s' own'' s'' r {} (kdst dst len)"
      "fetched (mem s'') r va dst len"
      using copyin_ok [OF v'(1) assms(2,3) v'(3) buffer_kbuf [OF assms(5) v'(2)], of va] m by (auto simp: moved_def)
    have "mem s'' (dst + k) = mem s (src + k)" if "unat k < unat len" for k
    proof -
      have "uok (mem s') r (va + k)" "uval (mem s') r (va + k) = Some (mem s (src + k))" using m that by (auto simp: moved_def)
      then have "uval (mem s'') r (va + k) = Some (mem s (src + k))"
        using touch_uval [OF i(2), of "va + k"] uok_user [OF v'(3)] by auto
      then show ?thesis using i(3) that by (simp add: fetched_def)
    qed
    moreover have "mem s'' x = mem s x" if "PGROUNDDOWN x \<in> K" "\<not> unat (x - dst) < unat len" for x
      using touchD(3) [OF i(2), of x] v'(2) that k [OF that(1)] by auto
    moreover have "\<forall>r' \<in> R. sealed (mem s') r'" using vm by (auto simp: vm_ok_def)
    ultimately show ?thesis using i(1) touch_vm_ok [OF i(2) v'(2) _ assms(2)] by blast
  qed
  then show ?thesis using c(1,2) vm k u by blast
qed

text \<open>A machine with 128 MB behind a kernel of 132 KB, and one empty address space.\<close>

definition start_mem :: kmem where
  "start_mem = \<lparr>mem = (\<lambda>x. ucast x), freelist = 0, kend = 0x80021000\<rparr>"

lemma start_space:
  obtains r and s :: kmem where "vm_ok {r} {a. a < 0x80021000} s"
proof -
  have a: "0 < kend start_mem" "kend start_mem \<le> PHYSTOP" by (simp_all add: start_mem_def word_le_nat_alt)
  have "page_ok (kend start_mem) 0x80021000" by (simp add: start_mem_def page_ok_def aligned_unat word_less_nat_alt)
  then have ne: "{p. page_ok (kend start_mem) p} \<noteq> {}" by blast
  obtain s0 where s0: "kinit start_mem = Some s0" "vm_ok {} {a. a < kend start_mem} s0" "kend s0 = kend start_mem" using vm_ok_boot [OF a] .
  obtain s0' ps where ps: "kinit start_mem = Some s0'" "kinv s0' ps" "set ps = {p. page_ok (kend start_mem) p}" "kend s0' = kend start_mem"
    using kinit_ok [OF a] .
  obtain p qs where "ps = p # qs" using ne ps(3) by (cases ps) auto
  then obtain s1 where "kalloc s0 = (p, s1)" "p \<noteq> 0" using kalloc_ok [of s0 p qs] ps s0(1) by (metis option.inject)
  then obtain s2 where "uvmcreate s0 = (p, s2)" by (simp add: uvmcreate_def)
  then show thesis using uvmcreate_ok(1) [OF s0(2) _ \<open>p \<noteq> 0\<close>] that by (simp add: start_mem_def)
qed

theorem copy_roundtrip_witness:
  "\<exists>r (s :: kmem) rc s'. vm_ok {r} {a. a < 0x80021000} s \<and> (0x3000 :: addr) \<le> TRAPFRAME \<and>
     buffer {a. a < 0x80021000} 0x80005000 10 \<and> buffer {a. a < 0x80021000} 0x80006000 10 \<and>
     copyout r 0x3000 0xffb 0x80005000 10 s = Some (rc, s') \<and> (rc = 0 \<or> rc = - 1)"
proof -
  have b: "buffer {a. a < 0x80021000} a 10" if "aligned a" "a < 0x80021000" for a
    using that by (simp add: buffer_def word_less_nat_alt)
  have al: "aligned 0x80005000" "aligned 0x80006000" by (simp_all add: aligned_unat)
  have t: "(0x3000 :: addr) \<le> TRAPFRAME" by (simp add: TRAPFRAME_def TRAMPOLINE_def MAXVA_def PGSIZE_def word_le_nat_alt)
  obtain r and s :: kmem where v: "vm_ok {r} {a. a < 0x80021000} s" using start_space .
  show ?thesis
    using copy_roundtrip [OF v _ t, where r = r and src = "0x80005000" and len = 10 and dst = "0x80006000" and va = "0xffb"]
      b [OF al(1)] b [OF al(2)] v t by auto
qed

end
