(* ===== verification/Vm_Space.thy ===== *)
theory Vm_Space
  imports Vm_Props
begin

text \<open>
  Operations on whole address spaces: unmapping and freeing a range, and copying an address
  space for \<^verbatim>\<open>fork\<close>.
\<close>

section \<open>Changes to one address space\<close>

text \<open>\<open>foreign r w\<close>: pages that operations on the address space \<open>r\<close> must not touch.\<close>

definition foreign :: "addr \<Rightarrow> owner \<Rightarrow> bool" where
  "foreign r w \<longleftrightarrow> w = Other \<or> (\<exists>r' p. r' \<noteq> r \<and> w = Page r' p)"

definition isol :: "(addr \<Rightarrow> owner) \<Rightarrow> addr set \<Rightarrow> 'a kmem_scheme \<Rightarrow> (addr \<Rightarrow> owner) \<Rightarrow> 'a kmem_scheme \<Rightarrow> addr \<Rightarrow> bool" where
  "isol own R s own' s' r \<longleftrightarrow> vinv own' R s' \<and> kend s' = kend s \<and> (\<forall>a. foreign r (own a) \<longrightarrow> own' a = own a) \<and>
     (\<forall>x. foreign r (own (PGROUNDDOWN x)) \<longrightarrow> mem s' x = mem s x) \<and>
     (\<forall>r' \<in> R. r' \<noteq> r \<longrightarrow> (\<forall>va < MAXVA. pte_of (mem s') r' va = pte_of (mem s) r' va))"

lemma isol_refl: "vinv own R s \<Longrightarrow> isol own R s own s r"
  by (simp add: isol_def)

lemma isol_trans: "isol own R s own1 s1 r \<Longrightarrow> isol own1 R s1 own2 s2 r \<Longrightarrow> isol own R s own2 s2 r"
  unfolding isol_def by metis

lemma grows_isol: "grows own R s own' s' \<Longrightarrow> isol own R s own' s' r"
  by (auto simp: grows_def isol_def foreign_def kept_def)

lemma adds_isol: "adds own R s own' s' r va v np f \<Longrightarrow> isol own R s own' s' r"
  by (auto simp: adds_def isol_def foreign_def kept_def)

lemma isol_uval:
  assumes "isol own R s own' s' r" "vinv own R s" "r' \<in> R" "r' \<noteq> r" "va < MAXVA"
  shows "uval (mem s') r' va = uval (mem s) r' va"
proof -
  have p: "pte_of (mem s') r' va = pte_of (mem s) r' va" using assms(1,3-5) by (simp add: isol_def)
  then have n: "node (mem s') r' (vpath va) = node (mem s) r' (vpath va)" by (simp add: node_vpath)
  have "mem s' (a + (va - PGROUNDDOWN va)) = mem s (a + (va - PGROUNDDOWN va))" if a: "node (mem s) r' (vpath va) = Some a" for a
  proof -
    have "leaf_ok own (kend s) r' va a" "aligned a" using node_leaf_own [OF assms(2,3,5) a] .
    then have "foreign r (own (PGROUNDDOWN (a + (va - PGROUNDDOWN va))))"
      using assms(4) offset_less [of va] by (auto simp: foreign_def leaf_ok_def split: if_splits)
    then show ?thesis using assms(1) by (simp add: isol_def)
  qed
  then show ?thesis unfolding uval_def n by (auto split: option.splits)
qed

section \<open>Unmapping\<close>

lemma kfree_write:
  assumes "kfree pa s = Some s1" "aligned pa" "aligned t" "unat i < 512" "t \<noteq> pa"
  shows "kfree pa (s\<lparr>mem := write64 (mem s) (t + 8 * i) v\<rparr>) = Some (s1\<lparr>mem := write64 (mem s1) (t + 8 * i) v\<rparr>)"
proof -
  let ?c = "t + 8 * i"
  have s1: "s1 = s\<lparr>mem := write64 (memset (mem s) pa 1 4096) pa (freelist s), freelist := pa\<rparr>" and g: "\<not> (pa mod PGSIZE \<noteq> 0 \<or> pa < kend s \<or> PHYSTOP \<le> pa)"
    using assms(1) by (auto simp: kfree_def Let_def split: if_splits)
  have "write64 (memset (write64 (mem s) ?c v) pa 1 4096) pa (freelist s) = write64 (write64 (memset (mem s) pa 1 4096) pa (freelist s)) ?c v"
  proof
    fix x
    have eq: "write64 A c w x = write64 B c w x" if "A x = B x" for A B :: memory and c w using that by (simp add: write64_def blit_def)
    show "write64 (memset (write64 (mem s) ?c v) pa 1 4096) pa (freelist s) x = write64 (write64 (memset (mem s) pa 1 4096) pa (freelist s)) ?c v x"
    proof (cases "PGROUNDDOWN x = pa")
      case True
      have "write64 (memset (write64 (mem s) ?c v) pa 1 4096) pa (freelist s) x = write64 (memset (mem s) pa 1 4096) pa (freelist s) x"
        by (rule eq) (simp add: True assms(2) memset_page)
      also have "\<dots> = write64 (write64 (memset (mem s) pa 1 4096) pa (freelist s)) ?c v x"
        using entry_frame [OF assms(3,4)] assms(5) True by simp
      finally show ?thesis .
    next
      case False
      then have "write64 (memset (write64 (mem s) ?c v) pa 1 4096) pa (freelist s) x = write64 (mem s) ?c v x"
        using write64_page [OF assms(2)] assms(2) by (simp add: memset_page)
      also have "\<dots> = write64 (write64 (memset (mem s) pa 1 4096) pa (freelist s)) ?c v x"
        by (rule eq) (use False write64_page [OF assms(2)] assms(2) in \<open>simp add: memset_page\<close>)
      finally show ?thesis .
    qed
  qed
  then show ?thesis using g by (auto simp: kfree_def Let_def s1)
qed

text \<open>Freeing the page mapped at \<open>va\<close> and clearing its entry.\<close>

lemma unmap_one:
  assumes v: "vinv own R s" and r: "r \<in> R" and va: "va < MAXVA" "\<not> special (vpath va)" and n: "node (mem s) r [PX 2 va, PX 1 va] = Some t"
    and p: "pte_of (mem s) r va AND PTE_V \<noteq> 0"
  defines "pa \<equiv> PTE2PA (pte_of (mem s) r va)"
  obtains s1 where "kfree pa s = Some s1" "own pa = Page r (vpath va)"
    "isol own R s (own(pa := Free)) (s1\<lparr>mem := write64 (mem s1) (t + 8 * PX 0 va) 0\<rparr>) r"
    "\<And>x. PGROUNDDOWN x \<noteq> pa \<Longrightarrow> kept (own (PGROUNDDOWN x)) \<Longrightarrow> write64 (mem s1) (t + 8 * PX 0 va) 0 x = mem s x"
    "\<And>va'. va' < MAXVA \<Longrightarrow> pte_of (write64 (mem s1) (t + 8 * PX 0 va) 0) r va' =
       (if PGROUNDDOWN va' = PGROUNDDOWN va then 0 else pte_of (mem s) r va')"
proof -
  let ?s' = "s\<lparr>mem := write64 (mem s) (t + 8 * PX 0 va) 0\<rparr>"
  have lf: "node (mem s) r (vpath va) = Some pa" using p by (simp add: node_vpath pa_def)
  then have own: "own pa = Page r (vpath va)" "page_ok (kend s) pa" and al: "aligned pa"
    using node_leaf_own [OF v r va(1) lf] va(2) by (auto simp: leaf_ok_def)
  have t: "own t = Table r [PX 2 va, PX 1 va]" "aligned t"
    using v r tree_table [OF _ _ _ n, of own "kend s"] by (auto simp: vinv_def dest: page_okD)
  have st: "sets own R s ?s' r va 0" by (rule set_leaf [OF v r va(1) n]) simp
  then have v': "vinv own R ?s'" and pte: "\<And>r' va'. r' \<in> R \<Longrightarrow> va' < MAXVA \<Longrightarrow> pte_of (mem ?s') r' va' =
      (if r' = r \<and> PGROUNDDOWN va' = PGROUNDDOWN va then 0 else pte_of (mem s) r' va')" unfolding sets_def by blast+
  have un: "node (mem ?s') r' q \<noteq> Some pa" if "r' \<in> R" "idx q" "length q = 3" for r' q
  proof
    assume a: "node (mem ?s') r' q = Some pa"
    have "tree_ok own (kend ?s') (mem ?s') r'" using v' that(1) by (simp add: vinv_def)
    from tree_leaf [OF this that(2,3) a] own(1) have "r' = r" "q = vpath va" by (auto split: if_splits)
    then show False using a pte [OF r va(1)] by (simp add: node_vpath)
  qed
  have ok: "page_ok (kend ?s') pa" "own pa \<noteq> Free" "\<And>r p. own pa \<noteq> Table r p" using own by auto
  obtain s2 where s2: "kfree pa ?s' = Some s2" "vinv (own(pa := Free)) R s2" "kend s2 = kend ?s'"
    "\<And>x. PGROUNDDOWN x \<noteq> pa \<Longrightarrow> mem s2 x = mem ?s' x" "\<And>r va. r \<in> R \<Longrightarrow> pte_of (mem s2) r va = pte_of (mem ?s') r va"
    by (rule give_page [OF v' ok], rule un, assumption+) (rule that, assumption+)
  obtain ps where ps: "kinv s ps" "\<And>a. own a = Free \<longleftrightarrow> a \<in> set ps" using v by (auto simp: vinv_def)
  obtain s1 where s1: "kfree pa s = Some s1" using kfree_ok [OF ps(1) own(2)] ok(2) ps(2) by metis
  have "t \<noteq> pa" using t(1) own(1) by auto
  then have e: "s2 = s1\<lparr>mem := write64 (mem s1) (t + 8 * PX 0 va) 0\<rparr>" using kfree_write [OF s1 al t(2) PX_less] s2(1) by simp
  have bytes: "mem s2 x = mem s x" if "PGROUNDDOWN x \<noteq> pa" "kept (own (PGROUNDDOWN x))" for x
    using s2(4) [OF that(1)] st that(2) by (auto simp: sets_def)
  have "isol own R s (own(pa := Free)) s2 r"
    unfolding isol_def
  proof (intro conjI allI ballI impI)
    show "mem s2 x = mem s x" if "foreign r (own (PGROUNDDOWN x))" for x
      by (rule bytes) (use that own(1) in \<open>auto simp: foreign_def kept_def\<close>)
  qed (use s2 pte own(1) in \<open>auto simp: foreign_def\<close>)
  then show thesis using that [of s1] s1 own(1) e bytes s2(5) [OF r] pte [OF r] by simp
qed

lemma page_split:
  assumes "aligned a" "aligned stop" "a < stop"
  shows "a \<le> va \<longleftrightarrow> PGROUNDDOWN va = a \<or> a + PGSIZE \<le> va" "PGROUNDDOWN va = a \<Longrightarrow> va < stop \<and> \<not> a + PGSIZE \<le> va"
    "a + PGSIZE \<le> stop"
proof -
  have n: "unat (a + PGSIZE) = unat a + 4096" by (rule unat_next [OF assms])
  have st: "unat a + 4096 \<le> unat stop" by (rule next_le [OF assms])
  have v: "unat va = unat (PGROUNDDOWN va) + unat (va - PGROUNDDOWN va)"
    using unat_in_page [OF aligned_PGROUNDDOWN offset_less, of va va] by simp
  show "a + PGSIZE \<le> stop" using n st by (simp add: word_le_nat_alt)
  show "va < stop \<and> \<not> a + PGSIZE \<le> va" if "PGROUNDDOWN va = a"
    using that v offset_less [of va] n st by (simp add: word_less_nat_alt word_le_nat_alt)
  have "PGROUNDDOWN va = a" if "a \<le> va" "va < a + PGSIZE"
  proof -
    have "unat (va - a) < 4096" using that n by (simp add: unat_sub_if' word_le_nat_alt word_less_nat_alt)
    then show ?thesis using in_page_iff [OF assms(1)] by blast
  qed
  moreover have "a \<le> va" if "PGROUNDDOWN va = a" using that v by (simp add: word_le_nat_alt)
  moreover have "a \<le> va" if "a + PGSIZE \<le> va" using that n by (simp add: word_le_nat_alt)
  ultimately show "a \<le> va \<longleftrightarrow> PGROUNDDOWN va = a \<or> a + PGSIZE \<le> va" by (auto simp: not_le [symmetric])
qed

text \<open>\<open>unmapped\<close>: the effect of \<^verbatim>\<open>uvmunmap\<close> with \<^verbatim>\<open>do_free\<close> on \<open>r\<close>.\<close>

definition unmapped :: "(addr \<Rightarrow> owner) \<Rightarrow> addr set \<Rightarrow> 'a kmem_scheme \<Rightarrow> (addr \<Rightarrow> owner) \<Rightarrow> 'a kmem_scheme \<Rightarrow> addr \<Rightarrow> addr \<Rightarrow> addr \<Rightarrow> bool" where
  "unmapped own R s own' s' r a stop \<longleftrightarrow> isol own R s own' s' r \<and> (\<forall>b. own' b = own b \<or> own' b = Free) \<and>
     (\<forall>x. kept (own' (PGROUNDDOWN x)) \<longrightarrow> mem s' x = mem s x) \<and>
     (\<forall>va < MAXVA. if a \<le> va \<and> va < stop then pte_of (mem s') r va AND PTE_V = 0 else pte_of (mem s') r va = pte_of (mem s) r va)"

declare uvmunmap_loop.simps [simp del] uvmcopy_loop.simps [simp del] uvmalloc_loop.simps [simp del]

lemma unmap_loop:
  assumes "vinv own R s" "r \<in> R" "aligned a" "aligned stop" "stop \<le> TRAPFRAME"
  shows "\<exists>own' s'. uvmunmap_loop r a stop True s = Some s' \<and> unmapped own R s own' s' r a stop"
  using assms
proof (induction "unat stop - unat a" arbitrary: own a s rule: less_induct)
  case less
  note v = less.prems(1) and r = less.prems(2)
  show ?case
  proof (cases "a < stop")
    case False
    then have "uvmunmap_loop r a stop True s = Some s" by (simp add: uvmunmap_loop.simps)
    moreover have "unmapped own R s own s r a stop" using isol_refl [OF v] False by (auto simp: unmapped_def not_less)
    ultimately show ?thesis by blast
  next
    case True
    have a: "a < MAXVA" "\<not> special (vpath a)" using below_trapframe [OF less.prems(3)] True less.prems(5) by auto
    note sp = page_split [OF less.prems(3,4) True]
    have dec: "unat stop - unat (a + PGSIZE) < unat stop - unat a"
      using unat_next [OF less.prems(3,4) True] True by (simp add: word_less_nat_alt)
    note ih = less.hyps [OF dec _ r aligned_next [OF less.prems(3)] less.prems(4,5)]
    obtain pte where w: "walk r a False s = Some (pte, s)" "pte = 0 \<Longrightarrow> pte_of (mem s) r a = 0"
      "pte \<noteq> 0 \<Longrightarrow> \<exists>t. node (mem s) r [PX 2 a, PX 1 a] = Some t \<and> pte = t + 8 * PX 0 a \<and> read64 (mem s) pte = pte_of (mem s) r a"
      by (rule walk_False [OF v r a(1)]) (rule that, assumption+)
    show ?thesis
    proof (cases "pte_of (mem s) r a AND PTE_V = 0")
      case un: True
      then have "uvmunmap_loop r a stop True s = uvmunmap_loop r (a + PGSIZE) stop True s"
        using True w by (subst uvmunmap_loop.simps) auto
      moreover obtain own' s' where i: "uvmunmap_loop r (a + PGSIZE) stop True s = Some s'" "unmapped own R s own' s' r (a + PGSIZE) stop"
        using ih [OF v] by blast
      have "pte_of (mem s) r va AND PTE_V = 0" if "PGROUNDDOWN va = a" for va
        using un same_page [of va a "mem s" r] that less.prems(3) by simp
      then have "unmapped own R s own' s' r a stop" using i(2) sp by (auto simp: unmapped_def)
      ultimately show ?thesis using i(1) by auto
    next
      case False
      then have "pte \<noteq> 0" using w(2) by auto
      then obtain t where t: "node (mem s) r [PX 2 a, PX 1 a] = Some t" "pte = t + 8 * PX 0 a" "read64 (mem s) pte = pte_of (mem s) r a" "pte \<noteq> 0"
        using w(3) by blast
      let ?pa = "PTE2PA (pte_of (mem s) r a)"
      obtain s1 where s1: "kfree ?pa s = Some s1" "own ?pa = Page r (vpath a)"
        "isol own R s (own(?pa := Free)) (s1\<lparr>mem := write64 (mem s1) pte 0\<rparr>) r"
        "\<And>x. PGROUNDDOWN x \<noteq> ?pa \<Longrightarrow> kept (own (PGROUNDDOWN x)) \<Longrightarrow> write64 (mem s1) pte 0 x = mem s x"
        "\<And>va'. va' < MAXVA \<Longrightarrow> pte_of (write64 (mem s1) pte 0) r va' = (if PGROUNDDOWN va' = PGROUNDDOWN a then 0 else pte_of (mem s) r va')"
        by (rule unmap_one [OF v r a t(1) False, folded t(2)]) (rule that, assumption+)
      let ?s2 = "s1\<lparr>mem := write64 (mem s1) pte 0\<rparr>"
      have "vinv (own(?pa := Free)) R ?s2" using s1(3) by (simp add: isol_def)
      then obtain own' s' where i: "uvmunmap_loop r (a + PGSIZE) stop True ?s2 = Some s'"
        "unmapped (own(?pa := Free)) R ?s2 own' s' r (a + PGSIZE) stop" using ih by blast
      have "uvmunmap_loop r a stop True s = Some s'"
        using True w(1) t False s1(1) i(1) by (subst uvmunmap_loop.simps) simp
      moreover have "mem s' x = mem s x" if "kept (own' (PGROUNDDOWN x))" for x
      proof -
        have "own' (PGROUNDDOWN x) = (own(?pa := Free)) (PGROUNDDOWN x) \<or> own' (PGROUNDDOWN x) = Free"
          using i(2) unfolding unmapped_def by blast
        then have "PGROUNDDOWN x \<noteq> ?pa" "kept (own (PGROUNDDOWN x))" using that by (auto simp: kept_def split: if_splits)
        moreover have "mem s' x = mem ?s2 x" using i(2) that unfolding unmapped_def by blast
        ultimately show ?thesis using s1(4) by simp
      qed
      moreover have "if a \<le> va \<and> va < stop then pte_of (mem s') r va AND PTE_V = 0 else pte_of (mem s') r va = pte_of (mem s) r va"
        if "va < MAXVA" for va using i(2) s1(5) [OF that] sp(1,2) [of va] that less.prems(3) by (auto simp: unmapped_def split: if_splits)
      moreover have "own' b = own b \<or> own' b = Free" for b using i(2) unfolding unmapped_def by (metis fun_upd_apply)
      ultimately have "unmapped own R s own' s' r a stop"
        using i(2) isol_trans [OF s1(3)] unfolding unmapped_def by blast
      then show ?thesis using \<open>uvmunmap_loop r a stop True s = Some s'\<close> by blast
    qed
  qed
qed

lemma unmapped_uval:
  assumes "unmapped own R s own' s' r a stop" "r \<in> R" "va < MAXVA" "\<not> (a \<le> va \<and> va < stop)"
  shows "pte_of (mem s') r va = pte_of (mem s) r va" "uval (mem s') r va = uval (mem s) r va"
proof -
  show p: "pte_of (mem s') r va = pte_of (mem s) r va" using assms(1,3,4) unfolding unmapped_def by metis
  have v: "vinv own' R s'" using assms(1) by (simp add: unmapped_def isol_def)
  have n: "node (mem s) r (vpath va) = node (mem s') r (vpath va)" using p by (simp add: node_vpath)
  have "mem s' (pa + (va - PGROUNDDOWN va)) = mem s (pa + (va - PGROUNDDOWN va))" if pa: "node (mem s') r (vpath va) = Some pa" for pa
  proof -
    have "kept (own' (PGROUNDDOWN (pa + (va - PGROUNDDOWN va))))"
      using node_leaf_own [OF v assms(2,3) pa] leaf_kept offset_less [of va] by simp
    then show ?thesis using assms(1) unfolding unmapped_def by blast
  qed
  then show "uval (mem s') r va = uval (mem s) r va" unfolding uval_def n by (auto split: option.splits)
qed

lemma adds_uval:
  assumes "adds own R s own' s' r va (PA2PTE np OR perm OR PTE_V) np f" "perm < 1024" "r \<in> R" "va' < MAXVA" "PGROUNDDOWN va' = PGROUNDDOWN va"
  shows "uval (mem s') r va' = Some (f (np + (va' - PGROUNDDOWN va')))"
    "PTE_FLAGS (pte_of (mem s') r va') = perm OR PTE_V"
proof -
  have np: "aligned np" using assms(1) by (auto simp: adds_def dest: page_okD)
  have p: "pte_of (mem s') r va' = PA2PTE np OR perm OR PTE_V" using assms(1,3-5) unfolding adds_def by metis
  then show "PTE_FLAGS (pte_of (mem s') r va') = perm OR PTE_V" using leaf_entry(3) [OF np assms(2)] by simp
  have "node (mem s') r (vpath va') = Some np" using p leaf_entry [OF np assms(2)] by (simp add: node_vpath)
  moreover have "mem s' (np + (va' - PGROUNDDOWN va')) = f (np + (va' - PGROUNDDOWN va'))"
    using assms(1) np offset_less [of va'] by (simp add: adds_def)
  ultimately show "uval (mem s') r va' = Some (f (np + (va' - PGROUNDDOWN va')))" by (simp add: uval_def)
qed

lemma adds_other:
  assumes "adds own R s own' s' r va v np f" "vinv own R s" "r \<in> R" "va' < MAXVA" "PGROUNDDOWN va' \<noteq> PGROUNDDOWN va"
  shows "pte_of (mem s') r va' = pte_of (mem s) r va'" "uval (mem s') r va' = uval (mem s) r va'"
proof -
  show p: "pte_of (mem s') r va' = pte_of (mem s) r va'" using assms(1,3-5) unfolding adds_def by metis
  show "uval (mem s') r va' = uval (mem s) r va'" by (rule uval_eq [OF assms(2-4) p]) (use assms(1) in \<open>auto simp: adds_def\<close>)
qed

section \<open>Copying\<close>

text \<open>The two outcomes of the loop of \<^verbatim>\<open>uvmcopy\<close> from page \<open>i\<close> on.\<close>

definition cloned :: "addr \<Rightarrow> addr \<Rightarrow> addr \<Rightarrow> addr \<Rightarrow> memory \<Rightarrow> memory \<Rightarrow> bool" where
  "cloned old new i sz m m' \<longleftrightarrow>
     (\<forall>va < MAXVA. if i \<le> va \<and> PGROUNDDOWN va < sz
        then uval m' new va = uval m old va \<and> (uval m old va \<noteq> None \<longrightarrow> PTE_FLAGS (pte_of m' new va) = PTE_FLAGS (pte_of m old va))
        else pte_of m' new va = pte_of m new va \<and> uval m' new va = uval m new va)"

definition emptied :: "addr \<Rightarrow> addr \<Rightarrow> memory \<Rightarrow> memory \<Rightarrow> bool" where
  "emptied new sz m m' \<longleftrightarrow>
     (\<forall>va < MAXVA. if PGROUNDDOWN va < sz then uval m' new va = None
        else pte_of m' new va = pte_of m new va \<and> uval m' new va = uval m new va)"

lemma copy_undo:
  assumes g: "grows own R s own1 s1" and v: "vinv own R s" and new: "new \<in> R" and i: "aligned i" "i < sz" "sz \<le> TRAPFRAME"
    and e: "\<forall>va < MAXVA. i \<le> va \<longrightarrow> PGROUNDDOWN va < sz \<longrightarrow> pte_of (mem s) new va AND PTE_V = 0"
  obtains own' s' where "uvmunmap new 0 (i div PGSIZE) True s1 = Some s'" "isol own R s own' s' new" "emptied new sz (mem s) (mem s')"
proof -
  have v1: "vinv own1 R s1" using g by (simp add: grows_def)
  have "i div PGSIZE * PGSIZE = i" using i(1) by (metis add.right_neutral aligned_def div_mult_mod_eq)
  moreover have "i \<le> TRAPFRAME" using i(2,3) by simp
  ultimately obtain own' s' where u: "uvmunmap new 0 (i div PGSIZE) True s1 = Some s'" "unmapped own1 R s1 own' s' new 0 i"
    using unmap_loop [OF v1 new aligned_zero i(1)] by (auto simp: uvmunmap_def)
  have t: "touch own R s own1 s1 new {}" by (rule grows_touch [OF g v new])
  have pu: "pte_of (mem s1) new va = pte_of (mem s) new va" "uval (mem s1) new va = uval (mem s) new va" if "va < MAXVA" for va
  proof -
    show "pte_of (mem s1) new va = pte_of (mem s) new va" using g new by (simp add: grows_def)
    then show "uval (mem s1) new va = uval (mem s) new va"
      by (rule uval_eq [OF v new that]) (use g in \<open>auto simp: grows_def\<close>)
  qed
  have "if PGROUNDDOWN va < sz then uval (mem s') new va = None
        else pte_of (mem s') new va = pte_of (mem s) new va \<and> uval (mem s') new va = uval (mem s) new va" if va: "va < MAXVA" for va
  proof (cases "va < i")
    case True
    have "PGROUNDDOWN va \<le> va" by (simp add: word_le_nat_alt unat_PGROUNDDOWN)
    then have "PGROUNDDOWN va < sz" using True i(2) by simp
    then show ?thesis using u(2) True va by (simp add: unmapped_def uval_None)
  next
    case False
    then show ?thesis using unmapped_uval [OF u(2) new va] pu [OF va] e va by (auto simp: uval_None not_less)
  qed
  then have "emptied new sz (mem s) (mem s')" by (simp add: emptied_def)
  moreover have "isol own R s own' s' new"
    by (rule isol_trans [OF grows_isol [OF g]]) (use u(2) in \<open>simp add: unmapped_def\<close>)
  ultimately show thesis using that u(1) by blast
qed

lemma flags_valid: "pte AND PTE_V \<noteq> 0 \<Longrightarrow> PTE_FLAGS pte OR PTE_V = PTE_FLAGS pte" for pte :: "64 word"
proof -
  assume "pte AND PTE_V \<noteq> 0"
  then have "bit pte 0" by (simp add: PTE_V_def and_one_eq odd_iff_mod_2_eq_one bit_0 split: if_splits)
  then show ?thesis by (intro bit_word_eqI) (auto simp: PTE_FLAGS_take PTE_V_def bit_or_iff bit_take_bit_iff bit_1_iff)
qed

lemma flags_lt: "PTE_FLAGS pte < 1024" for pte :: "64 word"
  by (simp add: PTE_FLAGS_take flags_less)

lemma page_ok_room: "page_ok e a \<Longrightarrow> unat a + 4096 < 2 ^ 64"
  by (simp add: page_ok_def PHYSTOP_def KERNBASE_def word_less_nat_alt)

lemma copy_one:
  assumes v: "vinv own R s" and old: "old \<in> R" and new: "new \<in> R" and i: "aligned i" "i < TRAPFRAME"
    and un: "pte_of (mem s) new i AND PTE_V = 0" and p: "pte_of (mem s) old i AND PTE_V \<noteq> 0"
    and al: "kalloc s = (np, s1)" "np \<noteq> 0"
  defines "pte \<equiv> pte_of (mem s) old i"
  obtains (none) own' s2 s3 where "mappages new i PGSIZE np (PTE_FLAGS pte) (s1\<lparr>mem := memmove (mem s1) np (PTE2PA pte) (unat PGSIZE)\<rparr>) = Some (- 1, s2)"
      "kfree np s2 = Some s3" "grows own R s own' s3"
  | (map) own' s3 where "mappages new i PGSIZE np (PTE_FLAGS pte) (s1\<lparr>mem := memmove (mem s1) np (PTE2PA pte) (unat PGSIZE)\<rparr>) = Some (0, s3)"
      "isol own R s own' s3 new"
      "\<And>va. va < MAXVA \<Longrightarrow> PGROUNDDOWN va \<noteq> i \<Longrightarrow> pte_of (mem s3) new va = pte_of (mem s) new va \<and> uval (mem s3) new va = uval (mem s) new va"
      "\<And>va. va < MAXVA \<Longrightarrow> PGROUNDDOWN va = i \<Longrightarrow> uval (mem s3) new va = uval (mem s) old va \<and> PTE_FLAGS (pte_of (mem s3) new va) = PTE_FLAGS (pte_of (mem s) old va)"
proof -
  have im: "i < MAXVA" "\<not> special (vpath i)" using below_trapframe [OF i] by auto
  let ?pa = "PTE2PA pte" and ?m = "memmove (mem s1) np (PTE2PA pte) (unat PGSIZE)"
  have lf: "node (mem s) old (vpath i) = Some ?pa" using p by (simp add: node_vpath pte_def)
  then have own: "own ?pa = Page old (vpath i)" "page_ok (kend s) ?pa" "aligned ?pa"
    using node_leaf_own [OF v old im(1) lf] im(2) by (auto simp: leaf_ok_def)
  note tp = take_page [OF v al owner.distinct(5) [symmetric] refl]
  have np: "own np = Free" "page_ok (kend s) np" by (rule tp(2)) (rule tp(3))
  have eq: "mem s1 x = mem s x" if "PGROUNDDOWN x \<noteq> np" for x by (rule tp(5) [OF that])
  have m: "?m = blit (mem s1) np 4096 (\<lambda>k. mem s1 (?pa + k))"
    using memmove_blit [of ?pa 4096 np "mem s1"] page_ok_room [OF own(2)] page_ok_room [OF np(2)] by simp
  have "?m x = mem s1 x" if "PGROUNDDOWN x \<noteq> np" for x
    using that in_page_iff [OF page_okD [OF np(2)]] unfolding m blit_def by simp
  note mn = map_new [OF v new i(1) im un flags_lt [of pte] al this]
  show thesis
  proof (rule mn, assumption)
    fix own' s2 s3 assume "mappages new i PGSIZE np (PTE_FLAGS pte) (s1\<lparr>mem := ?m\<rparr>) = Some (- 1, s2)" "kfree np s2 = Some s3" "grows own R s own' s3"
    then show thesis by (rule none)
  next
    fix own' s3 assume mp: "mappages new i PGSIZE np (PTE_FLAGS pte) (s1\<lparr>mem := ?m\<rparr>) = Some (0, s3)"
      and ad: "adds own R s own' s3 new i (PA2PTE np OR PTE_FLAGS pte OR PTE_V) np ?m"
    have "uval (mem s3) new va = uval (mem s) old va \<and> PTE_FLAGS (pte_of (mem s3) new va) = PTE_FLAGS (pte_of (mem s) old va)"
      if va: "va < MAXVA" "PGROUNDDOWN va = i" for va
    proof -
      let ?k = "va - PGROUNDDOWN va"
      have sp: "PGROUNDDOWN va = PGROUNDDOWN i" using va(2) i(1) by simp
      note u = adds_uval [OF ad flags_lt new va(1) sp]
      have ov: "node (mem s) old (vpath va) = Some ?pa" "pte_of (mem s) old va = pte"
        using lf same_page [of va i "mem s" old] sp p by (simp_all add: node_vpath pte_def)
      have "?pa \<noteq> np" using own(1) np(1) by auto
      then have "mem s1 (?pa + ?k) = mem s (?pa + ?k)" using eq own(3) offset_less [of va] by simp
      moreover have "?m (np + ?k) = mem s1 (?pa + ?k)" using offset_less [of va] unfolding m blit_def by simp
      ultimately show ?thesis using u ov flags_valid [OF p] by (simp add: uval_def pte_def)
    qed
    then show thesis using map [OF mp adds_isol [OF ad]] adds_other [OF ad v new] i(1) by simp
  qed
qed

lemma aligned_TRAPFRAME: "aligned TRAPFRAME"
  by (simp add: TRAMPOLINE_def TRAPFRAME_def MAXVA_def PGSIZE_def aligned_unat)

lemma PGROUNDDOWN_ge: "aligned i \<Longrightarrow> i \<le> va \<Longrightarrow> i \<le> PGROUNDDOWN va"
proof -
  assume i: "aligned i" "i \<le> va"
  then have "unat i div 4096 * 4096 \<le> unat va div 4096 * 4096" by (simp add: word_le_nat_alt div_le_mono)
  moreover have "unat i div 4096 * 4096 = unat i" using i(1) by (auto simp: aligned_unat)
  ultimately show ?thesis by (simp add: word_le_nat_alt unat_PGROUNDDOWN)
qed

lemma cloned_step:
  assumes v: "vinv own R s" and so: "isol own R s own1 s1 new" and old: "old \<in> R" "old \<noteq> new"
    and i: "aligned i" "i < sz" "sz \<le> TRAPFRAME" and c: "cloned old new (i + PGSIZE) sz (mem s1) (mem s')"
    and same: "\<And>va. va < MAXVA \<Longrightarrow> PGROUNDDOWN va \<noteq> i \<Longrightarrow> pte_of (mem s1) new va = pte_of (mem s) new va \<and> uval (mem s1) new va = uval (mem s) new va"
    and page: "\<And>va. va < MAXVA \<Longrightarrow> PGROUNDDOWN va = i \<Longrightarrow> uval (mem s1) new va = uval (mem s) old va \<and>
       (uval (mem s) old va \<noteq> None \<longrightarrow> PTE_FLAGS (pte_of (mem s1) new va) = PTE_FLAGS (pte_of (mem s) old va))"
  shows "cloned old new i sz (mem s) (mem s')"
  unfolding cloned_def
proof (intro allI impI)
  fix va assume va: "va < MAXVA"
  have it: "i < TRAPFRAME" using i(2,3) by simp
  note sp = page_split(1,2) [OF i(1) aligned_TRAPFRAME it, of va]
  have o: "uval (mem s1) old va = uval (mem s) old va" "pte_of (mem s1) old va = pte_of (mem s) old va"
    using isol_uval [OF so v old va] so old va by (auto simp: isol_def)
  from c va have c': "if i + PGSIZE \<le> va \<and> PGROUNDDOWN va < sz
    then uval (mem s') new va = uval (mem s1) old va \<and> (uval (mem s1) old va \<noteq> None \<longrightarrow> PTE_FLAGS (pte_of (mem s') new va) = PTE_FLAGS (pte_of (mem s1) old va))
    else pte_of (mem s') new va = pte_of (mem s1) new va \<and> uval (mem s') new va = uval (mem s1) new va"
    unfolding cloned_def by blast
  show "if i \<le> va \<and> PGROUNDDOWN va < sz
    then uval (mem s') new va = uval (mem s) old va \<and> (uval (mem s) old va \<noteq> None \<longrightarrow> PTE_FLAGS (pte_of (mem s') new va) = PTE_FLAGS (pte_of (mem s) old va))
    else pte_of (mem s') new va = pte_of (mem s) new va \<and> uval (mem s') new va = uval (mem s) new va"
  proof (cases "PGROUNDDOWN va = i")
    case True
    then show ?thesis using c' sp page [OF va True] i(2) by auto
  next
    case False
    then show ?thesis using c' sp same [OF va False] o by (auto split: if_splits)
  qed
qed

lemma emptied_step:
  assumes e: "emptied new sz (mem s1) m'" and i: "i < sz"
    and same: "\<And>va. va < MAXVA \<Longrightarrow> PGROUNDDOWN va \<noteq> i \<Longrightarrow> pte_of (mem s1) new va = pte_of (mem s) new va \<and> uval (mem s1) new va = uval (mem s) new va"
  shows "emptied new sz (mem s) m'"
  unfolding emptied_def
proof (intro allI impI)
  fix va assume va: "va < MAXVA"
  then have e': "if PGROUNDDOWN va < sz then uval m' new va = None
        else pte_of m' new va = pte_of (mem s1) new va \<and> uval m' new va = uval (mem s1) new va"
    using e unfolding emptied_def by blast
  show "if PGROUNDDOWN va < sz then uval m' new va = None
        else pte_of m' new va = pte_of (mem s) new va \<and> uval m' new va = uval (mem s) new va"
    using e' same [OF va] i by (cases "PGROUNDDOWN va = i") auto
qed

definition copies :: "(addr \<Rightarrow> owner) \<Rightarrow> addr set \<Rightarrow> 'a kmem_scheme \<Rightarrow> addr \<Rightarrow> addr \<Rightarrow> addr \<Rightarrow> addr \<Rightarrow> (int \<times> 'a kmem_scheme) option \<Rightarrow> bool" where
  "copies own R s old new i sz res \<longleftrightarrow> (\<exists>own' rc s'. res = Some (rc, s') \<and> isol own R s own' s' new \<and>
     (rc = 0 \<and> cloned old new i sz (mem s) (mem s') \<or> rc = - 1 \<and> emptied new sz (mem s) (mem s')))"

lemma copies_step:
  assumes v: "vinv own R s" and so: "isol own R s own1 s1 new" and old: "old \<in> R" "old \<noteq> new"
    and i: "aligned i" "i < sz" "sz \<le> TRAPFRAME" and c: "copies own1 R s1 old new (i + PGSIZE) sz res"
    and same: "\<And>va. va < MAXVA \<Longrightarrow> PGROUNDDOWN va \<noteq> i \<Longrightarrow> pte_of (mem s1) new va = pte_of (mem s) new va \<and> uval (mem s1) new va = uval (mem s) new va"
    and page: "\<And>va. va < MAXVA \<Longrightarrow> PGROUNDDOWN va = i \<Longrightarrow> uval (mem s1) new va = uval (mem s) old va \<and>
       (uval (mem s) old va \<noteq> None \<longrightarrow> PTE_FLAGS (pte_of (mem s1) new va) = PTE_FLAGS (pte_of (mem s) old va))"
  shows "copies own R s old new i sz res"
proof -
  obtain own' rc s' where c': "res = Some (rc, s')" "isol own1 R s1 own' s' new"
    "rc = 0 \<and> cloned old new (i + PGSIZE) sz (mem s1) (mem s') \<or> rc = - 1 \<and> emptied new sz (mem s1) (mem s')"
    using c unfolding copies_def by blast
  have "cloned old new i sz (mem s) (mem s')" if "cloned old new (i + PGSIZE) sz (mem s1) (mem s')"
    by (rule cloned_step [OF v so old i that]) (rule same page; assumption)+
  moreover have "emptied new sz (mem s) (mem s')" if "emptied new sz (mem s1) (mem s')"
    by (rule emptied_step [OF that i(2)]) (rule same; assumption)
  ultimately show ?thesis using c' isol_trans [OF so c'(2)] unfolding copies_def by blast
qed

lemma copy_loop:
  assumes "vinv own R s" "old \<in> R" "new \<in> R" "old \<noteq> new" "aligned i" "sz \<le> TRAPFRAME"
    and "\<forall>va < MAXVA. i \<le> va \<longrightarrow> PGROUNDDOWN va < sz \<longrightarrow> pte_of (mem s) new va AND PTE_V = 0"
  shows "copies own R s old new i sz (uvmcopy_loop old new i sz s)"
  using assms
proof (induction "unat TRAPFRAME - unat i" arbitrary: own i s rule: less_induct)
  case less
  note v = less.prems(1) and old = less.prems(2) and new = less.prems(3) and ne = less.prems(4) and ai = less.prems(5) and e = less.prems(7)
  show ?case
  proof (cases "i < sz")
    case False
    have "\<not> (i \<le> va \<and> PGROUNDDOWN va < sz)" for va
      using PGROUNDDOWN_ge [OF ai, of va] False by auto
    then have "cloned old new i sz (mem s) (mem s)" by (auto simp: cloned_def)
    moreover have "uvmcopy_loop old new i sz s = Some (0, s)" using False by (simp add: uvmcopy_loop.simps)
    ultimately show ?thesis using isol_refl [OF v] unfolding copies_def by blast
  next
    case True
    have it: "i < TRAPFRAME" using True less.prems(6) by simp
    then have im: "i < MAXVA" using below_trapframe [OF ai] by simp
    note sp = page_split [OF ai aligned_TRAPFRAME it]
    have dec: "unat TRAPFRAME - unat (i + PGSIZE) < unat TRAPFRAME - unat i"
      using unat_next [OF ai aligned_TRAPFRAME it] it by (simp add: word_less_nat_alt)
    note ih = less.hyps [OF dec _ old new ne aligned_next [OF ai] less.prems(6)]
    have un: "pte_of (mem s) new va AND PTE_V = 0" if "va < MAXVA" "PGROUNDDOWN va = i" for va using e that True sp(1) by auto
    have ui: "pte_of (mem s) new i AND PTE_V = 0" using un [OF im] ai by simp
    obtain pte where w: "walk old i False s = Some (pte, s)" "pte = 0 \<Longrightarrow> pte_of (mem s) old i = 0"
      "pte \<noteq> 0 \<Longrightarrow> read64 (mem s) pte = pte_of (mem s) old i"
      by (rule walk_False [OF v old im]) (rule that, assumption+, blast)
    show ?thesis
    proof (cases "pte_of (mem s) old i AND PTE_V = 0")
      case pn: True
      then have "uvmcopy_loop old new i sz s = uvmcopy_loop old new (i + PGSIZE) sz s"
        using True w by (subst uvmcopy_loop.simps) auto
      moreover have "copies own R s old new (i + PGSIZE) sz (uvmcopy_loop old new (i + PGSIZE) sz s)"
        using ih [OF v] e sp(1) by blast
      moreover have "uval (mem s) new va = uval (mem s) old va \<and> uval (mem s) old va = None" if "va < MAXVA" "PGROUNDDOWN va = i" for va
        using un [OF that] pn same_page [of va i "mem s"] that(2) ai by (simp add: uval_def node_vpath)
      ultimately show ?thesis
        using copies_step [OF v isol_refl [OF v] old ne ai True less.prems(6)] by simp
    next
      case False
      then have p0: "pte \<noteq> 0" using w(2) by auto
      obtain np s1 where al: "kalloc s = (np, s1)" by fastforce
      show ?thesis
      proof (cases "np = 0")
        case z: True
        have "s1 = s" using al z by (auto simp: kalloc_def Let_def split: if_splits)
        obtain own' s' where "uvmunmap new 0 (i div PGSIZE) True s = Some s'" "isol own R s own' s' new" "emptied new sz (mem s) (mem s')"
          using copy_undo [OF grows_refl [OF v] v new ai True less.prems(6) e] .
        then show ?thesis using True w(1) w(3) [OF p0] p0 False al z \<open>s1 = s\<close>
          by (subst uvmcopy_loop.simps) (auto simp: copies_def)
      next
        case np: False
        show ?thesis
        proof (cases rule: copy_one [OF v old new ai it ui False al np])
          case (1 own1 s2 s3)
          obtain own' s' where "uvmunmap new 0 (i div PGSIZE) True s3 = Some s'" "isol own R s own' s' new" "emptied new sz (mem s) (mem s')"
            using copy_undo [OF 1(3) v new ai True less.prems(6) e] .
          then show ?thesis using 1(1,2) True w(1) w(3) [OF p0] p0 False al np
            by (subst uvmcopy_loop.simps) (auto simp: copies_def)
        next
          case (2 own' s3)
          have "uvmcopy_loop old new i sz s = uvmcopy_loop old new (i + PGSIZE) sz s3"
            using 2(1) True w(1) w(3) [OF p0] p0 False al np by (subst uvmcopy_loop.simps) auto
          moreover have "copies own' R s3 old new (i + PGSIZE) sz (uvmcopy_loop old new (i + PGSIZE) sz s3)"
          proof (rule ih)
            show "vinv own' R s3" using 2(2) by (simp add: isol_def)
            show "\<forall>va < MAXVA. i + PGSIZE \<le> va \<longrightarrow> PGROUNDDOWN va < sz \<longrightarrow> pte_of (mem s3) new va AND PTE_V = 0"
              using 2(3) e sp(1,2) by metis
          qed
          ultimately show ?thesis using copies_step [OF v 2(2) old ne ai True less.prems(6)] 2(3,4) by simp
        qed
      qed
    qed
  qed
qed

lemma special_page: "va < MAXVA \<Longrightarrow> special (vpath va) \<Longrightarrow> TRAPFRAME \<le> PGROUNDDOWN va"
proof (rule ccontr)
  assume a: "va < MAXVA" "special (vpath va)" "\<not> TRAPFRAME \<le> PGROUNDDOWN va"
  then have "\<not> special (vpath (PGROUNDDOWN va))" using below_trapframe [of "PGROUNDDOWN va"] by (simp add: not_le)
  then show False using a(2) same_page(1) [of va "PGROUNDDOWN va"] by simp
qed

lemma isol_vm_ok:
  assumes "isol own R s own' s' r" "\<forall>a \<in> K. own a = Other" "\<forall>r \<in> R. sealed (mem s) r"
    "\<And>va. va < MAXVA \<Longrightarrow> special (vpath va) \<Longrightarrow> pte_of (mem s') r va = pte_of (mem s) r va"
  shows "vm_ok R K s'"
proof -
  have "own' a = Other" if "a \<in> K" for a using assms(1,2) that by (auto simp: isol_def foreign_def)
  moreover have "sealed (mem s') r'" if "r' \<in> R" for r'
  proof (cases "r' = r")
    case True
    then show ?thesis using assms(3,4) that by (auto simp: sealed_def)
  next
    case False
    then have "\<forall>va < MAXVA. pte_of (mem s') r' va = pte_of (mem s) r' va" using assms(1) that unfolding isol_def by blast
    then show ?thesis using assms(3) that by (simp add: sealed_def)
  qed
  ultimately show ?thesis using assms(1) unfolding vm_ok_def isol_def by blast
qed

text \<open>
  C31. \<^verbatim>\<open>uvmcopy\<close>, the copy of a parent's memory that fork makes, never panics. If it returns 0, the
  child's address space holds below \<open>sz\<close> exactly the parent's bytes, mapped where the parent's are
  and with the same permissions, holes included; if it returns -1 because memory ran out, no page
  below \<open>sz\<close> is left mapped in the child. In both cases the parent and every other address space,
  the child's own pages above \<open>sz\<close> and the kernel's pages are untouched, and the page tables and the
  free list stay well formed.
\<close>

theorem uvmcopy_fork:
  assumes "vm_ok R K s" "old \<in> R" "new \<in> R" "old \<noteq> new" "sz \<le> TRAPFRAME"
    "\<forall>va < MAXVA. PGROUNDDOWN va < sz \<longrightarrow> uval (mem s) new va = None"
  shows "\<exists>rc s'. uvmcopy old new sz s = Some (rc, s') \<and> vm_ok R K s' \<and>
    (\<forall>x. PGROUNDDOWN x \<in> K \<longrightarrow> mem s' x = mem s x) \<and>
    (\<forall>r \<in> R. \<forall>va < MAXVA. (r = new \<longrightarrow> sz \<le> PGROUNDDOWN va) \<longrightarrow>
       uval (mem s') r va = uval (mem s) r va \<and> pte_of (mem s') r va = pte_of (mem s) r va) \<and>
    (rc = 0 \<and> (\<forall>va < MAXVA. PGROUNDDOWN va < sz \<longrightarrow> uval (mem s') new va = uval (mem s) old va \<and>
         (uval (mem s) old va \<noteq> None \<longrightarrow> PTE_FLAGS (pte_of (mem s') new va) = PTE_FLAGS (pte_of (mem s) old va))) \<or>
     rc = - 1 \<and> (\<forall>va < MAXVA. PGROUNDDOWN va < sz \<longrightarrow> uval (mem s') new va = None))"
proof -
  obtain own where o: "vinv own R s" "\<forall>a \<in> K. own a = Other" "\<forall>r \<in> R. sealed (mem s) r" using assms(1) by (auto simp: vm_ok_def)
  have "copies own R s old new 0 sz (uvmcopy_loop old new 0 sz s)"
    by (rule copy_loop [OF o(1) assms(2-4) aligned_zero assms(5)]) (use assms(6) in \<open>simp add: uval_None\<close>)
  then obtain own' rc s' where c: "uvmcopy old new sz s = Some (rc, s')" "isol own R s own' s' new"
    "rc = 0 \<and> cloned old new 0 sz (mem s) (mem s') \<or> rc = - 1 \<and> emptied new sz (mem s) (mem s')"
    unfolding copies_def uvmcopy_def by blast
  have above: "uval (mem s') new va = uval (mem s) new va \<and> pte_of (mem s') new va = pte_of (mem s) new va"
    if "va < MAXVA" "sz \<le> PGROUNDDOWN va" for va
    using c(3) that unfolding cloned_def emptied_def by (metis not_le)
  have "uval (mem s') r va = uval (mem s) r va \<and> pte_of (mem s') r va = pte_of (mem s) r va"
    if "r \<in> R" "va < MAXVA" "r = new \<longrightarrow> sz \<le> PGROUNDDOWN va" for r va
  proof (cases "r = new")
    case True
    then show ?thesis using above that by simp
  next
    case False
    then show ?thesis using isol_uval [OF c(2) o(1) that(1) False that(2)] c(2) that unfolding isol_def by blast
  qed
  moreover have "mem s' x = mem s x" if "PGROUNDDOWN x \<in> K" for x using c(2) o(2) that by (auto simp: isol_def foreign_def)
  moreover have "vm_ok R K s'"
    by (rule isol_vm_ok [OF c(2) o(2,3)]) (use above special_page assms(5) in fastforce)
  moreover have "rc = 0 \<and> (\<forall>va < MAXVA. PGROUNDDOWN va < sz \<longrightarrow> uval (mem s') new va = uval (mem s) old va \<and>
         (uval (mem s) old va \<noteq> None \<longrightarrow> PTE_FLAGS (pte_of (mem s') new va) = PTE_FLAGS (pte_of (mem s) old va))) \<or>
     rc = - 1 \<and> (\<forall>va < MAXVA. PGROUNDDOWN va < sz \<longrightarrow> uval (mem s') new va = None)"
    using c(3) by (auto simp: cloned_def emptied_def)
  ultimately show ?thesis using c(1) by blast
qed

lemma free_create:
  assumes "vinv own R s" "own q = Free"
  obtains r s' where "uvmcreate s = (r, s')" "r \<noteq> 0"
proof -
  obtain ps where ps: "kinv s ps" "\<And>a. own a = Free \<longleftrightarrow> a \<in> set ps" using assms(1) by (auto simp: vinv_def)
  then obtain p qs where "ps = p # qs" using assms(2) by (cases ps) auto
  then obtain s1 where "kalloc s = (p, s1)" "p \<noteq> 0" using kalloc_ok [of s p qs] ps(1) by metis
  then show thesis using that by (simp add: uvmcreate_def)
qed

lemma start_spaces:
  obtains r r' and s :: kmem where "vm_ok {r, r'} {a. a < 0x80021000} s" "r \<noteq> r'" "\<And>va. uval (mem s) r va = None"
proof -
  have a: "0 < kend start_mem" "kend start_mem \<le> PHYSTOP" by (simp_all add: start_mem_def word_le_nat_alt)
  obtain s0 ps where s0: "kinit start_mem = Some s0" "kinv s0 ps" "set ps = {p. page_ok (kend start_mem) p}" "kend s0 = kend start_mem"
    using kinit_ok [OF a] .
  let ?own = "\<lambda>a. if page_ok (kend start_mem) a then Free else Other" and ?K = "{a. a < 0x80021000}"
  have v0: "vinv ?own {} s0" unfolding vinv_def by (rule conjI, rule exI [of _ ps]) (use s0 in auto)
  have K: "\<forall>a \<in> ?K. ?own a = Other" by (auto simp: page_ok_def start_mem_def)
  then have vm0: "vm_ok {} ?K s0" using v0 unfolding vm_ok_def by blast
  have f: "?own 0x80021000 = Free" "?own 0x80022000 = Free" by (simp_all add: start_mem_def page_ok_def aligned_unat word_less_nat_alt word_le_nat_alt)
  obtain r' s1 where c1: "uvmcreate s0 = (r', s1)" "r' \<noteq> 0" using free_create [OF v0 f(1)] .
  note v1 = uvmcreate_vinv(1) [OF v0 c1] and vm1 = uvmcreate_ok [OF vm0 c1]
  have "(?own(r' := Table r' [])) (if r' = 0x80021000 then 0x80022000 else 0x80021000) = Free" using f by (simp split: if_splits)
  then obtain r s2 where c2: "uvmcreate s1 = (r, s2)" "r \<noteq> 0" using free_create [OF v1] by metis
  show thesis using uvmcreate_ok [OF vm1(1) c2] that [of r r' s2] by blast
qed

theorem uvmcopy_fork_witness:
  "\<exists>old new (s :: kmem) rc s'. vm_ok {new, old} {a. a < 0x80021000} s \<and> new \<noteq> old \<and> (0x3000 :: addr) \<le> TRAPFRAME \<and>
     uvmcopy old new 0x3000 s = Some (rc, s') \<and> (rc = 0 \<or> rc = - 1) \<and> vm_ok {new, old} {a. a < 0x80021000} s'"
proof -
  have t: "(0x3000 :: addr) \<le> TRAPFRAME" by (simp add: TRAPFRAME_def TRAMPOLINE_def MAXVA_def PGSIZE_def word_le_nat_alt)
  obtain new old and s :: kmem where v: "vm_ok {new, old} {a. a < 0x80021000} s" "new \<noteq> old" "\<And>va. uval (mem s) new va = None"
    by (rule start_spaces) (rule that, assumption+)
  obtain rc s' where "uvmcopy old new 0x3000 s = Some (rc, s')" "vm_ok {new, old} {a. a < 0x80021000} s'" "rc = 0 \<or> rc = - 1"
    using uvmcopy_fork [OF v(1) _ _ v(2) [symmetric] t] v(3) by auto
  then show ?thesis using v(1,2) t by blast
qed

end
