(* ===== verification/Spec2Isabelle.thy ===== *)
theory Spec2Isabelle
  imports Lexer_Spec Shell_Props Builtins_Props Hop_Props Fs_Props Pipe Console Sleep_Props Spinlock Vm_Space
begin

text \<open>
  A verification development for the two programs of this repository: the interactive
  shell under \<^verbatim>\<open>c-shell/\<close> and the xv6 kernel under \<^verbatim>\<open>xv6/\<close> with its scheduler
  extensions.

  Conventions. C strings are character lists that end at the first NUL; code that may
  exit or touch memory outside an object returns a value of type \<open>cres\<close>.
\<close>

end
